(* ===== verification/IPA_Prelude.thy ===== *)
theory IPA_Prelude
  imports Main "HOL-Library.Word" "HOL-Library.Monad_Syntax" "HOL-Library.Multiset"
begin

text \<open>
  Shared vocabulary of the development: the machine integers of the C++ sources, pointers and
  object stores, linked segments in a store, searches in C arrays, and the generic
  interface of a component driven by requests (runs of a partial step function, with an invariant)
  that several theories implement.

  Conventions used by every theory.
  \<^item> \<open>uintN_t\<close> is \<open>N word\<close>; \<open>int\<close> counters whose range is bounded by an array size are \<open>int\<close>.
  \<^item> A pointer is a \<open>ptr\<close>, \<open>NULL\<close> is \<open>None\<close> of \<open>ptr option\<close>. Objects that the code
    shares through pointers live in a \<open>heap\<close>, a partial map from \<open>ptr\<close>; \<open>delete\<close> and \<open>free\<close>
    make the address undefined, \<open>new\<close> and \<open>malloc\<close> take the address they return as an argument
    (so freed addresses may be used again).
  \<^item> An operation whose result is \<open>None\<close> has followed a null or dangling pointer. Every theorem
    about a result is therefore also a theorem that no such access happens.
\<close>

section \<open>Machine types\<close>

type_synonym u8 = "8 word"
type_synonym u16 = "16 word"
type_synonym u32 = "32 word"
type_synonym u64 = "64 word"

type_synonym ptr = nat
type_synonym 'n heap = "ptr \<rightharpoonup> 'n"

named_theorems heap_simps \<open>rewriting of store reads and writes\<close>
named_theorems slot_simps \<open>rewriting of updates of one array slot\<close>

section \<open>Reading and writing objects in a store\<close>

definition deref :: "'n heap \<Rightarrow> ptr \<Rightarrow> 'n option" where
  "deref h p = h p"

definition store_upd :: "('n \<Rightarrow> 'n) \<Rightarrow> 'n heap \<Rightarrow> ptr \<Rightarrow> 'n heap option" where
  "store_upd f h p = (case h p of None \<Rightarrow> None | Some n \<Rightarrow> Some (h(p \<mapsto> f n)))"

definition free_at :: "'n heap \<Rightarrow> ptr \<Rightarrow> 'n heap" where
  "free_at h p = h(p := None)"

lemma store_upd_Some [heap_simps]:
  "h p = Some n \<Longrightarrow> store_upd f h p = Some (h(p \<mapsto> f n))"
  by (simp add: store_upd_def)

lemma store_upd_None [heap_simps]: "h p = None \<Longrightarrow> store_upd f h p = None"
  by (simp add: store_upd_def)

declare deref_def [heap_simps] free_at_def [heap_simps]

section \<open>Linked segments\<close>

text \<open>
  \<open>lseg nx h p as q\<close>: following the link field \<open>nx\<close> from \<open>p\<close> visits exactly the allocated
  nodes \<open>as\<close> and then reaches \<open>q\<close>.
\<close>

fun lseg :: "('n \<Rightarrow> ptr option) \<Rightarrow> 'n heap \<Rightarrow> ptr option \<Rightarrow> ptr list \<Rightarrow> ptr option \<Rightarrow> bool" where
  "lseg nx h p [] q \<longleftrightarrow> p = q"
| "lseg nx h p (a # as) q \<longleftrightarrow> p = Some a \<and> (\<exists>n. h a = Some n \<and> lseg nx h (nx n) as q)"

lemma lseg_append:
  "lseg nx h p (as @ bs) q \<longleftrightarrow> (\<exists>r. lseg nx h p as r \<and> lseg nx h r bs q)"
  by (induction as arbitrary: p) auto

lemma lseg_dom: "lseg nx h p as q \<Longrightarrow> set as \<subseteq> dom h"
  by (induction as arbitrary: p) auto

lemma lseg_cong:
  "(\<And>a. a \<in> set as \<Longrightarrow> h' a = h a) \<Longrightarrow> lseg nx h' p as q \<longleftrightarrow> lseg nx h p as q"
  by (induction as arbitrary: p) auto

lemma lseg_upd [simp]: "a \<notin> set as \<Longrightarrow> lseg nx (h(a := v)) p as q \<longleftrightarrow> lseg nx h p as q"
  by (rule lseg_cong) auto

lemma lseg_None_unique:
  "lseg nx h p as None \<Longrightarrow> lseg nx h p bs None \<Longrightarrow> as = bs"
proof (induction as arbitrary: p bs)
  case Nil
  then show ?case by (cases bs) auto
next
  case (Cons a as)
  then show ?case by (cases bs) auto
qed

lemma lseg_None_distinct: "lseg nx h p as None \<Longrightarrow> distinct as"
proof (induction as arbitrary: p)
  case Nil
  show ?case by simp
next
  case (Cons a as)
  from Cons.prems obtain n where n: "h a = Some n" "lseg nx h (nx n) as None" by auto
  have "a \<notin> set as"
  proof
    assume "a \<in> set as"
    then obtain bs cs where as: "as = bs @ a # cs" by (auto simp: in_set_conv_decomp)
    with n have "lseg nx h (Some a) (a # cs) None" by (auto simp: lseg_append)
    moreover from n have "lseg nx h (Some a) (a # as) None" by simp
    ultimately have "a # cs = a # as" by (rule lseg_None_unique)
    with as show False by simp
  qed
  with n Cons.IH show ?case by auto
qed

lemma lseg_snoc:
  assumes "lseg nx h p (as @ [a]) None" and "h a = Some n" and "nx n' = Some b"
    and "h b = Some m" and "nx m = None" and "b \<notin> set (as @ [a])"
  shows "lseg nx (h(a \<mapsto> n')) p (as @ [a, b]) None"
proof -
  have "a \<notin> set as" using lseg_None_distinct [OF assms(1)] by auto
  with assms show ?thesis by (auto simp: lseg_append)
qed

section \<open>Searching and updating C arrays\<close>

text \<open>
  \<open>first_idx P xs\<close> is the loop \<open>for(cnt = 0; cnt < n; cnt++) if(P(xs[cnt])) break;\<close>: the first
  index with \<open>P\<close>, \<open>None\<close> when the loop runs to its end.
\<close>

fun first_idx :: "('a \<Rightarrow> bool) \<Rightarrow> 'a list \<Rightarrow> nat option" where
  "first_idx P [] = None"
| "first_idx P (x # xs) = (if P x then Some 0 else map_option Suc (first_idx P xs))"

lemma first_idx_None [simp]: "first_idx P xs = None \<longleftrightarrow> (\<forall>x \<in> set xs. \<not> P x)"
  by (induction xs) auto

lemma first_idx_SomeD:
  "first_idx P xs = Some i \<Longrightarrow> i < length xs \<and> P (xs ! i) \<and> (\<forall>j < i. \<not> P (xs ! j))"
proof (induction xs arbitrary: i)
  case Nil
  then show ?case by simp
next
  case (Cons x xs)
  then show ?case by (auto split: if_splits simp: less_Suc_eq_0_disj)
qed

lemma first_idx_SomeI:
  "i < length xs \<Longrightarrow> P (xs ! i) \<Longrightarrow> (\<forall>j < i. \<not> P (xs ! j)) \<Longrightarrow> first_idx P xs = Some i"
proof (induction xs arbitrary: i)
  case Nil
  then show ?case by simp
next
  case (Cons x xs)
  then show ?case by (cases i) (auto simp: All_less_Suc2)
qed

lemma first_idx_ex: "x \<in> set xs \<Longrightarrow> P x \<Longrightarrow> \<exists>i. first_idx P xs = Some i"
  by (cases "first_idx P xs") auto

text \<open>How many slots of an array satisfy a predicate.\<close>

definition cnt :: "('a \<Rightarrow> bool) \<Rightarrow> 'a list \<Rightarrow> int" where
  "cnt P xs = int (length (filter P xs))"

lemma cnt_Nil [simp]: "cnt P [] = 0"
  and cnt_Cons [simp]: "cnt P (x # xs) = (if P x then 1 else 0) + cnt P xs"
  by (simp_all add: cnt_def)

lemma cnt_nonneg [simp]: "0 \<le> cnt P xs"
  by (simp add: cnt_def)

lemma cnt_le_length: "cnt P xs \<le> int (length xs)"
  by (simp add: cnt_def)

lemma cnt_append [simp]: "cnt P (xs @ ys) = cnt P xs + cnt P ys"
  by (simp add: cnt_def)

lemma cnt_update [slot_simps]:
  "i < length xs \<Longrightarrow>
     cnt P (xs[i := y]) = cnt P xs - (if P (xs ! i) then 1 else 0) + (if P y then 1 else 0)"
proof (induction xs arbitrary: i)
  case Nil
  then show ?case by simp
next
  case (Cons x xs)
  then show ?case by (cases i) auto
qed

text \<open>Keys of the used slots of an array stay pairwise different when one slot is rewritten.\<close>

definition distinct_on :: "('a \<Rightarrow> bool) \<Rightarrow> ('a \<Rightarrow> 'k) \<Rightarrow> 'a list \<Rightarrow> bool" where
  "distinct_on U key xs \<longleftrightarrow> distinct (map key (filter U xs))"

lemma distinct_on_Nil [simp]: "distinct_on U key []"
  and distinct_on_Cons [simp]: "distinct_on U key (x # xs) \<longleftrightarrow>
    distinct_on U key xs \<and> (U x \<longrightarrow> (\<forall>z \<in> set xs. U z \<longrightarrow> key z \<noteq> key x))"
  by (auto simp: distinct_on_def image_iff)

lemma distinct_on_clear [slot_simps]:
  "distinct_on U key xs \<Longrightarrow> \<not> U y \<Longrightarrow> distinct_on U key (xs[i := y])"
proof (induction xs arbitrary: i)
  case Nil
  then show ?case by simp
next
  case (Cons x xs)
  then show ?case by (cases i) (auto dest: set_update_subset_insert [THEN subsetD])
qed

lemma distinct_on_fill:
  "distinct_on U key xs \<Longrightarrow> \<forall>x \<in> set xs. U x \<longrightarrow> key x \<noteq> key y \<Longrightarrow>
     distinct_on U key (xs[i := y])"
proof (induction xs arbitrary: i)
  case Nil
  then show ?case by simp
next
  case (Cons x xs)
  then show ?case
    by (cases i) (auto dest!: set_update_subset_insert [THEN subsetD])
qed

lemma distinct_on_map:
  "distinct_on U key xs \<Longrightarrow> (\<And>x. x \<in> set xs \<Longrightarrow> U (f x) \<Longrightarrow> U x \<and> key (f x) = key x) \<Longrightarrow>
     distinct_on U key (map f xs)"
proof (induction xs)
  case Nil
  then show ?case by simp
next
  case (Cons x xs)
  then have "distinct_on U key (map f xs)" by simp
  moreover have "key (f z) \<noteq> key (f x)" if "U (f x)" "z \<in> set xs" "U (f z)" for z
    using that Cons.prems(1) Cons.prems(2) [of x] Cons.prems(2) [of z] by auto
  ultimately show ?case by auto
qed

lemma distinct_on_all2:
  "list_all2 (\<lambda>x y. U y \<longrightarrow> U x \<and> key y = key x) xs ys \<Longrightarrow> distinct_on U key xs \<Longrightarrow> distinct_on U key ys"
proof (induction rule: list_all2_induct)
  case Nil
  then show ?case by simp
next
  case (Cons x xs y ys)
  have "key z \<noteq> key y" if "U y" "z \<in> set ys" "U z" for z
  proof -
    from that(2) obtain i where i: "i < length ys" "z = ys ! i" by (auto simp: in_set_conv_nth)
    with Cons.hyps(2) that(3) have "U (xs ! i) \<and> key z = key (xs ! i)" "xs ! i \<in> set xs"
      by (auto simp: list_all2_conv_all_nth)
    with that(1) Cons.hyps(1) Cons.prems show ?thesis by auto
  qed
  with Cons show ?case by auto
qed

text \<open>The used slots of an array as a map from their keys.\<close>

definition slot_map :: "('a \<Rightarrow> bool) \<Rightarrow> ('a \<Rightarrow> 'k) \<Rightarrow> 'a list \<Rightarrow> 'k \<rightharpoonup> 'a" where
  "slot_map U key xs k = find (\<lambda>x. U x \<and> key x = k) xs"

lemma slot_map_Nil [simp]: "slot_map U key [] = Map.empty"
  and slot_map_Cons [simp]:
    "slot_map U key (x # xs) = (if U x then (slot_map U key xs)(key x \<mapsto> x) else slot_map U key xs)"
  by (auto simp: slot_map_def fun_eq_iff)

lemma slot_map_SomeD: "slot_map U key xs k = Some x \<Longrightarrow> x \<in> set xs \<and> U x \<and> key x = k"
  by (auto simp: slot_map_def find_Some_iff)

lemma slot_map_dom: "dom (slot_map U key xs) = key ` {x \<in> set xs. U x}"
  by (induction xs) auto

lemma slot_map_SomeI:
  "distinct_on U key xs \<Longrightarrow> x \<in> set xs \<Longrightarrow> U x \<Longrightarrow> slot_map U key xs (key x) = Some x"
  by (induction xs) auto

lemma slot_map_fill:
  "i < length xs \<Longrightarrow> \<not> U (xs ! i) \<Longrightarrow> U y \<Longrightarrow> slot_map U key xs (key y) = None \<Longrightarrow>
     slot_map U key (xs[i := y]) = (slot_map U key xs)(key y \<mapsto> y)"
proof (induction xs arbitrary: i)
  case Nil
  then show ?case by simp
next
  case (Cons x xs)
  then show ?case by (cases i) (auto simp: fun_eq_iff split: if_splits)
qed

lemma slot_map_skip:
  "i < length xs \<Longrightarrow> \<not> U (xs ! i) \<Longrightarrow> \<not> U y \<Longrightarrow> slot_map U key (xs[i := y]) = slot_map U key xs"
proof (induction xs arbitrary: i)
  case Nil
  then show ?case by simp
next
  case (Cons x xs)
  then show ?case by (cases i) auto
qed

lemma slot_map_clear:
  "distinct_on U key xs \<Longrightarrow> i < length xs \<Longrightarrow> U (xs ! i) \<Longrightarrow> \<not> U y \<Longrightarrow>
     slot_map U key (xs[i := y]) = (slot_map U key xs)(key (xs ! i) := None)"
proof (induction xs arbitrary: i)
  case Nil
  then show ?case by simp
next
  case (Cons x xs)
  show ?case
  proof (cases i)
    case 0
    with Cons.prems have "key x \<notin> dom (slot_map U key xs)" by (auto simp: slot_map_dom)
    with 0 Cons.prems show ?thesis by (auto simp: domIff)
  next
    case (Suc j)
    with Cons have "U x \<Longrightarrow> key (xs ! j) \<noteq> key x" by (auto simp: nth_mem)
    with Suc Cons show ?thesis by (auto simp: fun_eq_iff)
  qed
qed

section \<open>Runs of a partial step function\<close>

text \<open>
  A component is driven by a sequence of requests. \<open>run_steps\<close> performs them in order and stops
  with \<open>None\<close> at the first one that faults.
\<close>

fun run_steps :: "('s \<Rightarrow> 'o \<Rightarrow> 's option) \<Rightarrow> 's \<Rightarrow> 'o list \<Rightarrow> 's option" where
  "run_steps step s [] = Some s"
| "run_steps step s (x # xs) = step s x \<bind> (\<lambda>s'. run_steps step s' xs)"

lemma run_steps_append:
  "run_steps step s (xs @ ys) = run_steps step s xs \<bind> (\<lambda>s'. run_steps step s' ys)"
  by (induction xs arbitrary: s) (auto split: Option.bind_splits)

fun legal_run :: "('s \<Rightarrow> 'o \<Rightarrow> 's option) \<Rightarrow> ('s \<Rightarrow> 'o \<Rightarrow> bool) \<Rightarrow> 's \<Rightarrow> 'o list \<Rightarrow> bool" where
  "legal_run step legal s [] = True"
| "legal_run step legal s (x # xs) =
     (legal s x \<and> (case step s x of None \<Rightarrow> True | Some s' \<Rightarrow> legal_run step legal s' xs))"

locale component =
  fixes step :: "'s \<Rightarrow> 'o \<Rightarrow> 's option"
    and inv :: "'s \<Rightarrow> bool"
    and legal :: "'s \<Rightarrow> 'o \<Rightarrow> bool"
  assumes inv_step: "inv s \<Longrightarrow> legal s x \<Longrightarrow> step s x = Some s' \<Longrightarrow> inv s'"
begin

lemma inv_run:
  "inv s \<Longrightarrow> legal_run step legal s xs \<Longrightarrow> run_steps step s xs = Some s' \<Longrightarrow> inv s'"
  by (induction xs arbitrary: s) (auto split: Option.bind_splits intro: inv_step)

end

text \<open>A component that, in addition, never faults on a legal request.\<close>

locale safe_component = component +
  assumes progress: "inv s \<Longrightarrow> legal s x \<Longrightarrow> \<exists>s'. step s x = Some s'"
begin

lemma run_defined:
  "inv s \<Longrightarrow> legal_run step legal s xs \<Longrightarrow> \<exists>s'. run_steps step s xs = Some s' \<and> inv s'"
proof (induction xs arbitrary: s)
  case Nil
  then show ?case by simp
next
  case (Cons x xs)
  then obtain t where t: "step s x = Some t" using progress by force
  with Cons.prems have "inv t" by (auto intro: inv_step)
  with t Cons show ?case by auto
qed

end

end
