(* ===== verification/CmdQueue.thy ===== *)
theory CmdQueue
  imports IPA_Prelude
begin

text \<open>
  The command queue of the IPA connection manager
  (\<open>data-ipa-cfg-mgr/ipacm/src/IPACM_CmdQueue.cpp\<close>, \<open>inc/IPACM_CmdQueue.h\<close>) and the posting half
  of the event dispatcher (\<open>IPACM_EvtDispatcher::PostEvt\<close>): singly linked messages in a shared
  store, an internal and an external queue, and the body of the consumer loop
  \<open>MessageQueue::Process\<close>.
\<close>

section \<open>Event identifiers\<close>

datatype (plugins only: code) ipa_cm_event_id =
    IPA_CFG_CHANGE_EVENT | IPA_PRIVATE_SUBNET_CHANGE_EVENT | IPA_FIREWALL_CHANGE_EVENT
  | IPA_LINK_UP_EVENT | IPA_LINK_DOWN_EVENT | IPA_USB_LINK_UP_EVENT | IPA_BRIDGE_LINK_UP_EVENT
  | IPA_WAN_EMBMS_LINK_UP_EVENT | IPA_ADDR_ADD_EVENT | IPA_ADDR_DEL_EVENT | IPA_ROUTE_ADD_EVENT
  | IPA_ROUTE_DEL_EVENT | IPA_WAN_UPSTREAM_ROUTE_ADD_EVENT | IPA_WAN_UPSTREAM_ROUTE_DEL_EVENT
  | IPA_WLAN_AP_LINK_UP_EVENT | IPA_WLAN_STA_LINK_UP_EVENT | IPA_WLAN_LINK_DOWN_EVENT
  | IPA_WLAN_CLIENT_ADD_EVENT | IPA_WLAN_CLIENT_ADD_EVENT_EX | IPA_WLAN_CLIENT_DEL_EVENT
  | IPA_WLAN_CLIENT_POWER_SAVE_EVENT | IPA_WLAN_CLIENT_RECOVER_EVENT | IPA_NEW_NEIGH_EVENT
  | IPA_DEL_NEIGH_EVENT | IPA_NEIGH_CLIENT_IP_ADDR_ADD_EVENT | IPA_NEIGH_CLIENT_IP_ADDR_DEL_EVENT
  | IPA_SW_ROUTING_ENABLE | IPA_SW_ROUTING_DISABLE | IPA_PROCESS_CT_MESSAGE
  | IPA_PROCESS_CT_MESSAGE_V6 | IPA_LAN_TO_LAN_NEW_CONNECTION | IPA_LAN_TO_LAN_DEL_CONNECTION
  | IPA_WLAN_SWITCH_TO_SCC | IPA_WLAN_SWITCH_TO_MCC | IPA_CRADLE_WAN_MODE_SWITCH
  | IPA_WAN_XLAT_CONNECT_EVENT | IPA_TETHERING_STATS_UPDATE_EVENT | IPA_NETWORK_STATS_UPDATE_EVENT
  | IPA_DOWNSTREAM_ADD | IPA_DOWNSTREAM_DEL | IPA_EXTERNAL_EVENT_MAX
  | IPA_HANDLE_WAN_UP | IPA_HANDLE_WAN_DOWN | IPA_HANDLE_WAN_UP_V6 | IPA_HANDLE_WAN_DOWN_V6
  | IPA_HANDLE_WAN_UP_TETHER | IPA_HANDLE_WAN_DOWN_TETHER | IPA_HANDLE_WAN_UP_V6_TETHER
  | IPA_HANDLE_WAN_DOWN_V6_TETHER | IPA_HANDLE_WLAN_UP | IPA_HANDLE_LAN_UP
  | IPA_ETH_BRIDGE_IFACE_UP | IPA_ETH_BRIDGE_IFACE_DOWN | IPA_ETH_BRIDGE_CLIENT_ADD
  | IPA_ETH_BRIDGE_CLIENT_DEL | IPA_ETH_BRIDGE_WLAN_SCC_MCC_SWITCH | IPA_SSR_NOTICE
  | IPA_WLAN_FWR_SSR_BEFORE_SHUTDOWN_NOTICE | IPA_LAN_DELETE_SELF | IPACM_EVENT_MAX

text \<open>The enumerators in declaration order; an event's number is its position (without \<open>FEATURE_L2TP\<close>).\<close>

definition all_events :: "ipa_cm_event_id list" where
  "all_events = [
    IPA_CFG_CHANGE_EVENT, IPA_PRIVATE_SUBNET_CHANGE_EVENT, IPA_FIREWALL_CHANGE_EVENT,
    IPA_LINK_UP_EVENT, IPA_LINK_DOWN_EVENT, IPA_USB_LINK_UP_EVENT, IPA_BRIDGE_LINK_UP_EVENT,
    IPA_WAN_EMBMS_LINK_UP_EVENT, IPA_ADDR_ADD_EVENT, IPA_ADDR_DEL_EVENT, IPA_ROUTE_ADD_EVENT,
    IPA_ROUTE_DEL_EVENT, IPA_WAN_UPSTREAM_ROUTE_ADD_EVENT, IPA_WAN_UPSTREAM_ROUTE_DEL_EVENT,
    IPA_WLAN_AP_LINK_UP_EVENT, IPA_WLAN_STA_LINK_UP_EVENT, IPA_WLAN_LINK_DOWN_EVENT,
    IPA_WLAN_CLIENT_ADD_EVENT, IPA_WLAN_CLIENT_ADD_EVENT_EX, IPA_WLAN_CLIENT_DEL_EVENT,
    IPA_WLAN_CLIENT_POWER_SAVE_EVENT, IPA_WLAN_CLIENT_RECOVER_EVENT, IPA_NEW_NEIGH_EVENT,
    IPA_DEL_NEIGH_EVENT, IPA_NEIGH_CLIENT_IP_ADDR_ADD_EVENT, IPA_NEIGH_CLIENT_IP_ADDR_DEL_EVENT,
    IPA_SW_ROUTING_ENABLE, IPA_SW_ROUTING_DISABLE, IPA_PROCESS_CT_MESSAGE,
    IPA_PROCESS_CT_MESSAGE_V6, IPA_LAN_TO_LAN_NEW_CONNECTION, IPA_LAN_TO_LAN_DEL_CONNECTION,
    IPA_WLAN_SWITCH_TO_SCC, IPA_WLAN_SWITCH_TO_MCC, IPA_CRADLE_WAN_MODE_SWITCH,
    IPA_WAN_XLAT_CONNECT_EVENT, IPA_TETHERING_STATS_UPDATE_EVENT, IPA_NETWORK_STATS_UPDATE_EVENT,
    IPA_DOWNSTREAM_ADD, IPA_DOWNSTREAM_DEL, IPA_EXTERNAL_EVENT_MAX,
    IPA_HANDLE_WAN_UP, IPA_HANDLE_WAN_DOWN, IPA_HANDLE_WAN_UP_V6, IPA_HANDLE_WAN_DOWN_V6,
    IPA_HANDLE_WAN_UP_TETHER, IPA_HANDLE_WAN_DOWN_TETHER, IPA_HANDLE_WAN_UP_V6_TETHER,
    IPA_HANDLE_WAN_DOWN_V6_TETHER, IPA_HANDLE_WLAN_UP, IPA_HANDLE_LAN_UP,
    IPA_ETH_BRIDGE_IFACE_UP, IPA_ETH_BRIDGE_IFACE_DOWN, IPA_ETH_BRIDGE_CLIENT_ADD,
    IPA_ETH_BRIDGE_CLIENT_DEL, IPA_ETH_BRIDGE_WLAN_SCC_MCC_SWITCH, IPA_SSR_NOTICE,
    IPA_WLAN_FWR_SSR_BEFORE_SHUTDOWN_NOTICE, IPA_LAN_DELETE_SELF, IPACM_EVENT_MAX]"

definition event_num :: "ipa_cm_event_id \<Rightarrow> nat" where
  "event_num e = (case first_idx (\<lambda>x. x = e) all_events of Some i \<Rightarrow> i | None \<Rightarrow> length all_events)"

section \<open>Messages and queues\<close>

text \<open>
  \<open>evt_data\<close> is the payload pointer: \<open>None\<close> for \<open>NULL\<close>, otherwise the payload it points to, which
  belongs to the message alone. The only callback the program stores is \<open>ProcessEvt\<close>.
\<close>

record 'd ipacm_cmd_q_data =
  event :: ipa_cm_event_id
  evt_data :: "'d option"

datatype cmd_callback = ProcessEvt_cb

record 'd cmd_t =
  callback_ptr :: "cmd_callback option"
  cmd_data :: "'d ipacm_cmd_q_data"

record 'd Message =
  m_next :: "ptr option"
  evt :: "'d cmd_t"

record MessageQueue =
  Head :: "ptr option"
  Tail :: "ptr option"

definition new_MessageQueue :: MessageQueue where
  "new_MessageQueue = \<lparr>Head = None, Tail = None\<rparr>"

definition setnext :: "'d Message heap \<Rightarrow> ptr \<Rightarrow> ptr \<Rightarrow> 'd Message heap option" where
  "setnext h p item = store_upd (\<lambda>m. m\<lparr>m_next := Some item\<rparr>) h p"

definition enqueue ::
  "'d Message heap \<Rightarrow> MessageQueue \<Rightarrow> ptr \<Rightarrow> ('d Message heap \<times> MessageQueue) option" where
  "enqueue h q item =
     (case Head q of
        None \<Rightarrow> Some (h, q\<lparr>Tail := Some item, Head := Some item\<rparr>)
      | Some first \<Rightarrow>
          (case Tail q of
             None \<Rightarrow> do { h' \<leftarrow> setnext h first item; Some (h', q\<lparr>Tail := Some item\<rparr>) }
           | Some lst \<Rightarrow> do { h' \<leftarrow> setnext h lst item; Some (h', q\<lparr>Tail := Some item\<rparr>) }))"

definition dequeue ::
  "'d Message heap \<Rightarrow> MessageQueue \<Rightarrow> (ptr option \<times> MessageQueue) option" where
  "dequeue h q =
     (case Head q of
        None \<Rightarrow> Some (None, q)
      | Some tmp \<Rightarrow> do { m \<leftarrow> deref h tmp; Some (Some tmp, q\<lparr>Head := m_next m\<rparr>) })"

section \<open>The two queues and their users\<close>

text \<open>
  The static instances are created on first use. The state is extensible, because the listeners
  that run inside \<open>Process\<close> own state of their own and may post again.
\<close>

record 'd cmd_sys =
  msgs :: "'d Message heap"
  inst_internal :: "MessageQueue option"
  inst_external :: "MessageQueue option"

definition getInstanceInternal ::
  "('d, 'z) cmd_sys_scheme \<Rightarrow> MessageQueue \<times> ('d, 'z) cmd_sys_scheme" where
  "getInstanceInternal s =
     (case inst_internal s of
        None \<Rightarrow> (new_MessageQueue, s\<lparr>inst_internal := Some new_MessageQueue\<rparr>)
      | Some q \<Rightarrow> (q, s))"

definition getInstanceExternal ::
  "('d, 'z) cmd_sys_scheme \<Rightarrow> MessageQueue \<times> ('d, 'z) cmd_sys_scheme" where
  "getInstanceExternal s =
     (case inst_external s of
        None \<Rightarrow> (new_MessageQueue, s\<lparr>inst_external := Some new_MessageQueue\<rparr>)
      | Some q \<Rightarrow> (q, s))"

text \<open>Results of the pthread calls of one critical section: \<open>True\<close> when the call returns 0.\<close>

record sync_result =
  lock_ok :: bool
  signal_ok :: bool
  wait_ok :: bool
  unlock_ok :: bool

abbreviation sync_fine :: sync_result where
  "sync_fine \<equiv> \<lparr>lock_ok = True, signal_ok = True, wait_ok = True, unlock_ok = True\<rparr>"

definition IPACM_SUCCESS :: int where "IPACM_SUCCESS = 0"
definition IPACM_FAILURE :: int where "IPACM_FAILURE = -1"

text \<open>
  \<open>item\<close> is the address \<open>new Message()\<close> returns. A failing \<open>pthread_cond_signal\<close> leaves the
  message in the queue although the caller is told that posting failed.
\<close>

definition PostEvt ::
  "sync_result \<Rightarrow> ptr \<Rightarrow> 'd ipacm_cmd_q_data \<Rightarrow> ('d, 'z) cmd_sys_scheme \<Rightarrow>
     (int \<times> ('d, 'z) cmd_sys_scheme) option" where
  "PostEvt sy item data s =
     (let ext = event_num (event data) < event_num IPA_EXTERNAL_EVENT_MAX;
          (q, s1) = (if ext then getInstanceExternal s else getInstanceInternal s);
          msg = \<lparr>m_next = None, evt = \<lparr>callback_ptr = Some ProcessEvt_cb, cmd_data = data\<rparr>\<rparr>;
          s2 = s1\<lparr>msgs := (msgs s1)(item \<mapsto> msg)\<rparr>
      in if \<not> lock_ok sy then Some (IPACM_FAILURE, s2)
         else do {
           (h', q') \<leftarrow> enqueue (msgs s2) q item;
           let s3 = s2\<lparr>msgs := h'\<rparr>;
           let s4 = (if ext then s3\<lparr>inst_external := Some q'\<rparr> else s3\<lparr>inst_internal := Some q'\<rparr>);
           Some (if signal_ok sy \<and> unlock_ok sy then IPACM_SUCCESS else IPACM_FAILURE, s4)
         })"

text \<open>
  One turn of the loop in \<open>MessageQueue::Process\<close>. The callback runs after the mutex is released
  and may change the whole state; then the message is deleted.
\<close>

datatype proc_outcome = Proc_return | Proc_waited | Proc_ran

definition Process_turn ::
  "('d ipacm_cmd_q_data \<Rightarrow> ('d, 'z) cmd_sys_scheme \<Rightarrow> ('d, 'z) cmd_sys_scheme option) \<Rightarrow>
   sync_result \<Rightarrow> ('d, 'z) cmd_sys_scheme \<Rightarrow> (proc_outcome \<times> ('d, 'z) cmd_sys_scheme) option" where
  "Process_turn cb sy s =
     (let (qi, s1) = getInstanceInternal s; (qe, s2) = getInstanceExternal s1
      in if \<not> lock_ok sy then Some (Proc_return, s2)
         else do {
           (ii, qi') \<leftarrow> dequeue (msgs s2) qi;
           (item, s3) \<leftarrow>
             (case ii of
                Some p \<Rightarrow> Some (Some p, s2\<lparr>inst_internal := Some qi'\<rparr>)
              | None \<Rightarrow> do {
                  (ei, qe') \<leftarrow> dequeue (msgs s2) qe;
                  Some (ei, s2\<lparr>inst_internal := Some qi', inst_external := Some qe'\<rparr>) });
           (case item of
              None \<Rightarrow>
                Some (if \<not> wait_ok sy then Proc_return
                      else if \<not> unlock_ok sy then Proc_return else Proc_waited, s3)
            | Some p \<Rightarrow>
                if \<not> unlock_ok sy then Some (Proc_return, s3)
                else do {
                  m \<leftarrow> deref (msgs s3) p;
                  _ \<leftarrow> callback_ptr (evt m);
                  s4 \<leftarrow> cb (cmd_data (evt m)) s3;
                  Some (Proc_ran, s4\<lparr>msgs := free_at (msgs s4) p\<rparr>) })
         })"

section \<open>What a queue in the store holds\<close>

text \<open>
  \<open>q_rep h q ps\<close>: the queue holds the messages at \<open>ps\<close>, first to last. \<open>Tail\<close> matters only while
  the queue is not empty: \<open>dequeue\<close> never resets it, so it dangles after the last message left.
\<close>

definition q_rep :: "'d Message heap \<Rightarrow> MessageQueue \<Rightarrow> ptr list \<Rightarrow> bool" where
  "q_rep h q ps \<longleftrightarrow> lseg m_next h (Head q) ps None \<and> (ps \<noteq> [] \<longrightarrow> Tail q = Some (last ps))"

lemma q_rep_new [simp]: "q_rep h new_MessageQueue ps \<longleftrightarrow> ps = []"
  by (cases ps) (auto simp: q_rep_def new_MessageQueue_def)

lemma q_rep_dom: "q_rep h q ps \<Longrightarrow> set ps \<subseteq> dom h"
  by (auto simp: q_rep_def dest: lseg_dom)

lemma q_rep_cong: "(\<And>a. a \<in> set ps \<Longrightarrow> h' a = h a) \<Longrightarrow> q_rep h' q ps = q_rep h q ps"
  using lseg_cong [of ps h' h] by (simp add: q_rep_def)

lemma q_rep_upd [simp]: "a \<notin> set ps \<Longrightarrow> q_rep (h(a := v)) q ps = q_rep h q ps"
  by (simp add: q_rep_def)

lemma q_rep_distinct: "q_rep h q ps \<Longrightarrow> distinct ps"
  by (auto simp: q_rep_def dest: lseg_None_distinct)

lemma dequeue_Nil: "q_rep h q [] \<Longrightarrow> dequeue h q = Some (None, q)"
  by (simp add: q_rep_def dequeue_def)

lemma dequeue_Cons:
  assumes "q_rep h q (p # ps)"
  obtains q' where "dequeue h q = Some (Some p, q')" and "q_rep h q' ps"
proof -
  from assms obtain m where m: "Head q = Some p" "h p = Some m" "lseg m_next h (m_next m) ps None"
    and t: "Tail q = Some (last (p # ps))"
    by (auto simp: q_rep_def)
  show thesis
  proof (rule that)
    show "dequeue h q = Some (Some p, q\<lparr>Head := m_next m\<rparr>)"
      using m by (simp add: dequeue_def deref_def)
    show "q_rep h (q\<lparr>Head := m_next m\<rparr>) ps"
      using m t by (auto simp: q_rep_def)
  qed
qed

lemma enqueue_q_rep:
  assumes q: "q_rep h q ps" and item: "h item = Some m" "m_next m = None" "item \<notin> set ps"
  shows "\<exists>h' q'. enqueue h q item = Some (h', q') \<and> q_rep h' q' (ps @ [item]) \<and>
           (\<forall>a. a \<notin> set ps \<longrightarrow> h' a = h a) \<and>
           (\<forall>a n. h a = Some n \<longrightarrow> (\<exists>n'. h' a = Some n' \<and> evt n' = evt n))"
proof (cases ps rule: rev_cases)
  case Nil
  with q have "Head q = None" by (simp add: q_rep_def)
  then have "enqueue h q item = Some (h, q\<lparr>Tail := Some item, Head := Some item\<rparr>)"
    by (simp add: enqueue_def)
  with Nil item show ?thesis by (auto simp: q_rep_def)
next
  case (snoc bs b)
  from q snoc obtain n where n: "h b = Some n" "m_next n = None"
    and hd: "Head q \<noteq> None" and tl: "Tail q = Some b"
    by (cases bs) (auto simp: q_rep_def lseg_append)
  let ?h = "h(b \<mapsto> n\<lparr>m_next := Some item\<rparr>)" and ?q = "q\<lparr>Tail := Some item\<rparr>"
  have "enqueue h q item = Some (?h, ?q)"
    using hd tl n by (auto simp: enqueue_def setnext_def heap_simps)
  moreover have "lseg m_next ?h (Head q) (bs @ [b, item]) None"
    by (rule lseg_snoc [where n = n and m = m]) (use q snoc n item in \<open>auto simp: q_rep_def\<close>)
  ultimately show ?thesis using n snoc by (auto simp: q_rep_def)
qed

section \<open>What the system holds\<close>

definition holds :: "'d Message heap \<Rightarrow> ptr \<Rightarrow> 'd ipacm_cmd_q_data \<Rightarrow> bool" where
  "holds h p d \<longleftrightarrow> (\<exists>m. h p = Some m \<and> evt m = \<lparr>callback_ptr = Some ProcessEvt_cb, cmd_data = d\<rparr>)"

definition oq_rep :: "'d Message heap \<Rightarrow> MessageQueue option \<Rightarrow> ptr list \<Rightarrow> bool" where
  "oq_rep h oq ps \<longleftrightarrow> (case oq of None \<Rightarrow> ps = [] | Some q \<Rightarrow> q_rep h q ps)"

text \<open>
  The pending internal and external events, in order; \<open>H\<close> are messages that have been taken out of
  their queue and not yet deleted.
\<close>

definition sys_rep ::
  "ptr set \<Rightarrow> ('d, 'z) cmd_sys_scheme \<Rightarrow> 'd ipacm_cmd_q_data list \<Rightarrow> 'd ipacm_cmd_q_data list \<Rightarrow> bool" where
  "sys_rep H s is es \<longleftrightarrow>
     (\<exists>ips eps. oq_rep (msgs s) (inst_internal s) ips \<and> oq_rep (msgs s) (inst_external s) eps \<and>
        set ips \<inter> set eps = {} \<and> H \<inter> (set ips \<union> set eps) = {} \<and> H \<subseteq> dom (msgs s) \<and>
        list_all2 (holds (msgs s)) ips is \<and> list_all2 (holds (msgs s)) eps es)"

definition is_ext :: "'d ipacm_cmd_q_data \<Rightarrow> bool" where
  "is_ext d \<longleftrightarrow> event_num (event d) < event_num IPA_EXTERNAL_EVENT_MAX"

lemma oq_rep_dom: "oq_rep h oq ps \<Longrightarrow> set ps \<subseteq> dom h"
  by (auto simp: oq_rep_def split: option.splits dest: q_rep_dom)

lemma oq_rep_cong: "(\<And>a. a \<in> set ps \<Longrightarrow> h' a = h a) \<Longrightarrow> oq_rep h' oq ps = oq_rep h oq ps"
  using q_rep_cong [of ps h' h] by (auto simp: oq_rep_def split: option.splits)

lemma oq_rep_upd [simp]: "a \<notin> set ps \<Longrightarrow> oq_rep (h(a := v)) oq ps = oq_rep h oq ps"
  by (simp add: oq_rep_def split: option.splits)

lemma list_all2_holds_mono:
  assumes "list_all2 (holds h) ps ds"
    and "\<And>a n. a \<in> set ps \<Longrightarrow> h a = Some n \<Longrightarrow> \<exists>n'. h' a = Some n' \<and> evt n' = evt n"
  shows "list_all2 (holds h') ps ds"
  using assms(1)
proof (rule list.rel_mono_strong)
  fix p d assume "p \<in> set ps" and "holds h p d"
  then show "holds h' p d" using assms(2) [of p] by (fastforce simp: holds_def)
qed

lemma oq_rep_getInternal:
  "oq_rep h (inst_internal s) ps \<Longrightarrow> getInstanceInternal s = (q, s') \<Longrightarrow>
     q_rep h q ps \<and> s' = s\<lparr>inst_internal := Some q\<rparr>"
  by (auto simp: getInstanceInternal_def oq_rep_def split: option.splits)

lemma oq_rep_getExternal:
  "oq_rep h (inst_external s) ps \<Longrightarrow> getInstanceExternal s = (q, s') \<Longrightarrow>
     q_rep h q ps \<and> s' = s\<lparr>inst_external := Some q\<rparr>"
  by (auto simp: getInstanceExternal_def oq_rep_def split: option.splits)

text \<open>
  Adding a fresh message to one of two disjoint queues that share the store: the list of that queue
  grows at its end, the other queue and the messages on hold are untouched.
\<close>

lemma enqueue_fresh:
  assumes q: "q_rep h q ps" and o: "oq_rep h oq os" and dis: "set ps \<inter> set os = {}"
    and H: "H \<inter> (set ps \<union> set os) = {}" "H \<subseteq> dom h"
    and hp: "list_all2 (holds h) ps ds" and ho: "list_all2 (holds h) os fs"
    and fresh: "h item = None" and msg: "evt msg = \<lparr>callback_ptr = Some ProcessEvt_cb, cmd_data = d\<rparr>"
      "m_next msg = None"
  obtains h' q' where "enqueue (h(item \<mapsto> msg)) q item = Some (h', q')"
    and "q_rep h' q' (ps @ [item])" and "oq_rep h' oq os" and "set (ps @ [item]) \<inter> set os = {}"
    and "H \<inter> (set (ps @ [item]) \<union> set os) = {}" and "H \<subseteq> dom h'"
    and "list_all2 (holds h') (ps @ [item]) (ds @ [d])" and "list_all2 (holds h') os fs"
proof -
  let ?h = "h(item \<mapsto> msg)"
  have ps: "item \<notin> set ps" and os: "item \<notin> set os"
    using q_rep_dom [OF q] oq_rep_dom [OF o] fresh by auto
  have "q_rep ?h q ps" using q ps by simp
  from enqueue_q_rep [OF this, of item msg] ps msg
  obtain h' q' where e: "enqueue ?h q item = Some (h', q')" "q_rep h' q' (ps @ [item])"
    and same: "\<And>a. a \<notin> set ps \<Longrightarrow> h' a = ?h a"
    and keep: "\<And>a n. ?h a = Some n \<Longrightarrow> \<exists>n'. h' a = Some n' \<and> evt n' = evt n"
    by auto
  have keep': "\<exists>n'. h' a = Some n' \<and> evt n' = evt n" if "a \<noteq> item" "h a = Some n" for a n
    using keep [of a n] that by simp
  have "oq_rep h' oq os"
    using o os same dis oq_rep_cong [of os h' h oq] by fastforce
  moreover have "list_all2 (holds h') os fs" and "list_all2 (holds h') ps ds"
    using list_all2_holds_mono [OF ho, of h'] list_all2_holds_mono [OF hp, of h'] keep' ps os by metis+
  moreover have "holds h' item d"
    using keep [of item msg] msg by (auto simp: holds_def)
  moreover have "H \<subseteq> dom h'"
  proof
    fix a assume "a \<in> H"
    then have "a \<notin> set ps" "a \<in> dom h" using H by auto
    then show "a \<in> dom h'" using same [of a] by (auto split: if_splits)
  qed
  ultimately show thesis
    using that e os dis H fresh by (auto intro!: list_all2_appendI)
qed

lemma PostEvt_sys_rep:
  assumes rep: "sys_rep H s is es" and fresh: "msgs s item = None" and sy: "lock_ok sy"
  shows "\<exists>s'. PostEvt sy item d s =
             Some (if signal_ok sy \<and> unlock_ok sy then IPACM_SUCCESS else IPACM_FAILURE, s') \<and>
           sys_rep H s' (if is_ext d then is else is @ [d]) (if is_ext d then es @ [d] else es) \<and>
           cmd_sys.more s' = cmd_sys.more s"
proof -
  let ?msg = "\<lparr>m_next = None, evt = \<lparr>callback_ptr = Some ProcessEvt_cb, cmd_data = d\<rparr>\<rparr>"
  from rep obtain ips eps where
    r: "oq_rep (msgs s) (inst_internal s) ips" "oq_rep (msgs s) (inst_external s) eps"
      "set ips \<inter> set eps = {}" "H \<inter> (set ips \<union> set eps) = {}" "H \<subseteq> dom (msgs s)"
      "list_all2 (holds (msgs s)) ips is" "list_all2 (holds (msgs s)) eps es"
    unfolding sys_rep_def by blast
  show ?thesis
  proof (cases "is_ext d")
    case True
    obtain q s1 where g: "getInstanceExternal s = (q, s1)" by force
    from oq_rep_getExternal [OF r(2) g]
    have q: "q_rep (msgs s) q eps" "s1 = s\<lparr>inst_external := Some q\<rparr>" by auto
    obtain h' q' where e: "enqueue ((msgs s)(item \<mapsto> ?msg)) q item = Some (h', q')"
      "q_rep h' q' (eps @ [item])" "oq_rep h' (inst_internal s) ips" "set (eps @ [item]) \<inter> set ips = {}"
      "H \<inter> (set (eps @ [item]) \<union> set ips) = {}" "H \<subseteq> dom h'"
      "list_all2 (holds h') (eps @ [item]) (es @ [d])" "list_all2 (holds h') ips is"
      by (rule enqueue_fresh [OF q(1) r(1) _ _ r(5) r(7) r(6) fresh, of ?msg d]) (use r in auto)
    have "PostEvt sy item d s = Some (if signal_ok sy \<and> unlock_ok sy then IPACM_SUCCESS else IPACM_FAILURE,
        s1\<lparr>msgs := h', inst_external := Some q'\<rparr>)"
      using True g e(1) q(2) sy by (simp add: PostEvt_def is_ext_def Let_def)
    moreover have "sys_rep H (s1\<lparr>msgs := h', inst_external := Some q'\<rparr>) is (es @ [d])"
      unfolding sys_rep_def
      by (rule exI [of _ ips], rule exI [of _ "eps @ [item]"]) (use e q in \<open>auto simp: oq_rep_def\<close>)
    ultimately show ?thesis using True q(2) by auto
  next
    case False
    obtain q s1 where g: "getInstanceInternal s = (q, s1)" by force
    from oq_rep_getInternal [OF r(1) g]
    have q: "q_rep (msgs s) q ips" "s1 = s\<lparr>inst_internal := Some q\<rparr>" by auto
    obtain h' q' where e: "enqueue ((msgs s)(item \<mapsto> ?msg)) q item = Some (h', q')"
      "q_rep h' q' (ips @ [item])" "oq_rep h' (inst_external s) eps" "set (ips @ [item]) \<inter> set eps = {}"
      "H \<inter> (set (ips @ [item]) \<union> set eps) = {}" "H \<subseteq> dom h'"
      "list_all2 (holds h') (ips @ [item]) (is @ [d])" "list_all2 (holds h') eps es"
      by (rule enqueue_fresh [OF q(1) r(2) _ _ r(5) r(6) r(7) fresh, of ?msg d]) (use r in auto)
    have "PostEvt sy item d s = Some (if signal_ok sy \<and> unlock_ok sy then IPACM_SUCCESS else IPACM_FAILURE,
        s1\<lparr>msgs := h', inst_internal := Some q'\<rparr>)"
      using False g e(1) q(2) sy by (simp add: PostEvt_def is_ext_def Let_def)
    moreover have "sys_rep H (s1\<lparr>msgs := h', inst_internal := Some q'\<rparr>) (is @ [d]) es"
      unfolding sys_rep_def
      by (rule exI [of _ "ips @ [item]"], rule exI [of _ eps]) (use e q in \<open>auto simp: oq_rep_def\<close>)
    ultimately show ?thesis using False q(2) by auto
  qed
qed

lemma list_all2_holds_upd:
  "p \<notin> set ps \<Longrightarrow> list_all2 (holds h) ps ds \<Longrightarrow> list_all2 (holds (h(p := v))) ps ds"
  by (erule list_all2_holds_mono) auto

lemma sys_rep_free:
  assumes "sys_rep (insert p H) s is es" and "p \<notin> H"
  shows "sys_rep H (s\<lparr>msgs := free_at (msgs s) p\<rparr>) is es"
proof -
  from assms(1) obtain ips eps where
    "oq_rep (msgs s) (inst_internal s) ips" "oq_rep (msgs s) (inst_external s) eps"
    "set ips \<inter> set eps = {}" "insert p H \<inter> (set ips \<union> set eps) = {}" "insert p H \<subseteq> dom (msgs s)"
    "list_all2 (holds (msgs s)) ips is" "list_all2 (holds (msgs s)) eps es"
    unfolding sys_rep_def by blast
  with \<open>p \<notin> H\<close> show ?thesis
    unfolding sys_rep_def
    by (intro exI [of _ ips] exI [of _ eps]) (auto simp: free_at_def intro!: list_all2_holds_upd)
qed

text \<open>The instances in use after \<open>Process\<close> fetched both of them, with what they hold.\<close>

lemma sys_rep_instances:
  assumes "sys_rep H s is es"
  obtains qi qe ips eps where
    "getInstanceInternal s = (qi, s\<lparr>inst_internal := Some qi\<rparr>)"
    "getInstanceExternal (s\<lparr>inst_internal := Some qi\<rparr>) =
       (qe, s\<lparr>inst_internal := Some qi, inst_external := Some qe\<rparr>)"
    "q_rep (msgs s) qi ips" "q_rep (msgs s) qe eps" "set ips \<inter> set eps = {}"
    "H \<inter> (set ips \<union> set eps) = {}" "H \<subseteq> dom (msgs s)"
    "list_all2 (holds (msgs s)) ips is" "list_all2 (holds (msgs s)) eps es"
proof -
  from assms obtain ips eps where
    r: "oq_rep (msgs s) (inst_internal s) ips" "oq_rep (msgs s) (inst_external s) eps"
    "set ips \<inter> set eps = {}" "H \<inter> (set ips \<union> set eps) = {}" "H \<subseteq> dom (msgs s)"
    "list_all2 (holds (msgs s)) ips is" "list_all2 (holds (msgs s)) eps es"
    unfolding sys_rep_def by blast
  obtain qi s1 where gi: "getInstanceInternal s = (qi, s1)" by force
  from oq_rep_getInternal [OF r(1) gi]
  have qi: "q_rep (msgs s) qi ips" "s1 = s\<lparr>inst_internal := Some qi\<rparr>" by auto
  obtain qe s2 where ge: "getInstanceExternal s1 = (qe, s2)" by force
  have "oq_rep (msgs s) (inst_external s1) eps" using r(2) qi by simp
  from oq_rep_getExternal [OF this ge]
  have qe: "q_rep (msgs s) qe eps" "s2 = s1\<lparr>inst_external := Some qe\<rparr>" by auto
  show thesis using that gi ge qi qe r by simp
qed

lemma holds_callback:
  "holds h p d \<Longrightarrow> \<exists>m. deref h p = Some m \<and> callback_ptr (evt m) = Some ProcessEvt_cb \<and> cmd_data (evt m) = d"
  by (auto simp: holds_def deref_def)

text \<open>
  A turn with an internal event pending hands the oldest internal event to the callback, whatever
  the external queue holds. The callback may itself post events.
\<close>

lemma Process_turn_internal:
  assumes rep: "sys_rep H s (d # is) es" and sy: "lock_ok sy" "unlock_ok sy"
    and cb: "\<And>p t. p \<notin> H \<Longrightarrow> sys_rep (insert p H) t is es \<Longrightarrow> cmd_sys.more t = cmd_sys.more s \<Longrightarrow>
      msgs t = msgs s \<Longrightarrow> \<exists>u. cb d t = Some u \<and> sys_rep (insert p H) u is' es' \<and> Q (cmd_sys.more u)"
  shows "\<exists>s'. Process_turn cb sy s = Some (Proc_ran, s') \<and> sys_rep H s' is' es' \<and> Q (cmd_sys.more s')"
proof -
  from sys_rep_instances [OF rep] obtain qi qe ips eps where
    g: "getInstanceInternal s = (qi, s\<lparr>inst_internal := Some qi\<rparr>)"
      "getInstanceExternal (s\<lparr>inst_internal := Some qi\<rparr>) =
         (qe, s\<lparr>inst_internal := Some qi, inst_external := Some qe\<rparr>)"
    and r: "q_rep (msgs s) qi ips" "q_rep (msgs s) qe eps" "set ips \<inter> set eps = {}"
      "H \<inter> (set ips \<union> set eps) = {}" "H \<subseteq> dom (msgs s)"
      "list_all2 (holds (msgs s)) ips (d # is)" "list_all2 (holds (msgs s)) eps es" .
  from r(6) obtain p ps where ips: "ips = p # ps" "holds (msgs s) p d" "list_all2 (holds (msgs s)) ps is"
    by (auto simp: list_all2_Cons2)
  from r(1) ips obtain qi' where deq: "dequeue (msgs s) qi = Some (Some p, qi')" "q_rep (msgs s) qi' ps"
    by (auto elim: dequeue_Cons)
  let ?t = "s\<lparr>inst_external := Some qe, inst_internal := Some qi'\<rparr>"
  have p: "p \<notin> H" "p \<notin> set ps" using r(4) ips q_rep_distinct [OF r(1)] by auto
  have "sys_rep (insert p H) ?t is es"
    unfolding sys_rep_def
    by (rule exI [of _ ps], rule exI [of _ eps])
      (use r ips deq p in \<open>auto simp: oq_rep_def holds_def\<close>)
  from cb [OF p(1) this] obtain u where u: "cb d ?t = Some u" "sys_rep (insert p H) u is' es'"
    "Q (cmd_sys.more u)" by auto
  from holds_callback [OF ips(2)] obtain m where
    "deref (msgs s) p = Some m" "callback_ptr (evt m) = Some ProcessEvt_cb" "cmd_data (evt m) = d" by blast
  then have "Process_turn cb sy s = Some (Proc_ran, u\<lparr>msgs := free_at (msgs u) p\<rparr>)"
    using g deq u sy by (simp add: Process_turn_def)
  then show ?thesis using sys_rep_free [OF u(2) p(1)] u(3) by simp
qed

lemma Process_turn_external:
  assumes rep: "sys_rep H s [] (d # es)" and sy: "lock_ok sy" "unlock_ok sy"
    and cb: "\<And>p t. p \<notin> H \<Longrightarrow> sys_rep (insert p H) t [] es \<Longrightarrow> cmd_sys.more t = cmd_sys.more s \<Longrightarrow>
      msgs t = msgs s \<Longrightarrow> \<exists>u. cb d t = Some u \<and> sys_rep (insert p H) u is' es' \<and> Q (cmd_sys.more u)"
  shows "\<exists>s'. Process_turn cb sy s = Some (Proc_ran, s') \<and> sys_rep H s' is' es' \<and> Q (cmd_sys.more s')"
proof -
  from sys_rep_instances [OF rep] obtain qi qe ips eps where
    g: "getInstanceInternal s = (qi, s\<lparr>inst_internal := Some qi\<rparr>)"
      "getInstanceExternal (s\<lparr>inst_internal := Some qi\<rparr>) =
         (qe, s\<lparr>inst_internal := Some qi, inst_external := Some qe\<rparr>)"
    and r: "q_rep (msgs s) qi ips" "q_rep (msgs s) qe eps" "set ips \<inter> set eps = {}"
      "H \<inter> (set ips \<union> set eps) = {}" "H \<subseteq> dom (msgs s)"
      "list_all2 (holds (msgs s)) ips []" "list_all2 (holds (msgs s)) eps (d # es)" .
  from r(6) r(1) have ips: "ips = []" and di: "dequeue (msgs s) qi = Some (None, qi)"
    by (auto simp: dequeue_Nil)
  from r(7) obtain p ps where eps: "eps = p # ps" "holds (msgs s) p d" "list_all2 (holds (msgs s)) ps es"
    by (auto simp: list_all2_Cons2)
  from r(2) eps obtain qe' where deq: "dequeue (msgs s) qe = Some (Some p, qe')" "q_rep (msgs s) qe' ps"
    by (auto elim: dequeue_Cons)
  let ?t = "s\<lparr>inst_internal := Some qi, inst_external := Some qe'\<rparr>"
  have p: "p \<notin> H" "p \<notin> set ps" using r(4) eps q_rep_distinct [OF r(2)] by auto
  have "sys_rep (insert p H) ?t [] es"
    unfolding sys_rep_def
    by (rule exI [of _ "[]"], rule exI [of _ ps])
      (use r ips eps deq p in \<open>auto simp: oq_rep_def holds_def\<close>)
  from cb [OF p(1) this] obtain u where u: "cb d ?t = Some u" "sys_rep (insert p H) u is' es'"
    "Q (cmd_sys.more u)" by auto
  from holds_callback [OF eps(2)] obtain m where
    "deref (msgs s) p = Some m" "callback_ptr (evt m) = Some ProcessEvt_cb" "cmd_data (evt m) = d" by blast
  then have "Process_turn cb sy s = Some (Proc_ran, u\<lparr>msgs := free_at (msgs u) p\<rparr>)"
    using g di deq u sy by (simp add: Process_turn_def)
  then show ?thesis using sys_rep_free [OF u(2) p(1)] u(3) by simp
qed

lemma Process_turn_idle:
  assumes rep: "sys_rep H s [] []" and sy: "lock_ok sy" "wait_ok sy" "unlock_ok sy"
  shows "\<exists>s'. Process_turn cb sy s = Some (Proc_waited, s') \<and> sys_rep H s' [] [] \<and>
           cmd_sys.more s' = cmd_sys.more s"
proof -
  from sys_rep_instances [OF rep] obtain qi qe ips eps where
    g: "getInstanceInternal s = (qi, s\<lparr>inst_internal := Some qi\<rparr>)"
      "getInstanceExternal (s\<lparr>inst_internal := Some qi\<rparr>) =
         (qe, s\<lparr>inst_internal := Some qi, inst_external := Some qe\<rparr>)"
    and r: "q_rep (msgs s) qi ips" "q_rep (msgs s) qe eps" "set ips \<inter> set eps = {}"
      "H \<inter> (set ips \<union> set eps) = {}" "H \<subseteq> dom (msgs s)"
      "list_all2 (holds (msgs s)) ips []" "list_all2 (holds (msgs s)) eps []" .
  then have "dequeue (msgs s) qi = Some (None, qi)" "dequeue (msgs s) qe = Some (None, qe)"
    by (auto simp: dequeue_Nil)
  then have "Process_turn cb sy s = Some (Proc_waited, s\<lparr>inst_internal := Some qi, inst_external := Some qe\<rparr>)"
    using g sy by (simp add: Process_turn_def)
  moreover have "sys_rep H (s\<lparr>inst_internal := Some qi, inst_external := Some qe\<rparr>) [] []"
    unfolding sys_rep_def
    by (rule exI [of _ "[]"], rule exI [of _ "[]"]) (use r in \<open>auto simp: oq_rep_def\<close>)
  ultimately show ?thesis by simp
qed

section \<open>The interface the dispatcher relies on\<close>

text \<open>
  \<open>rep s is es ds\<close>: \<open>is\<close> and \<open>es\<close> are pending internal and external events, \<open>ds\<close> the events already
  handed to the callback. A queue of this kind loses no event, invents none, keeps the order within
  each class, and prefers internal events.
\<close>

datatype 'e qop = Post ptr 'e | Turn

fun qstep :: "(ptr \<Rightarrow> 'e \<Rightarrow> 's \<Rightarrow> 's option) \<Rightarrow> ('s \<Rightarrow> 's option) \<Rightarrow> 's \<Rightarrow> 'e qop \<Rightarrow> 's option" where
  "qstep post turn s (Post p e) = post p e s"
| "qstep post turn s Turn = turn s"

text \<open>Every \<open>new Message()\<close> of the run returns an address that is not in use at that moment.\<close>

fun fresh_run ::
  "('s \<Rightarrow> ptr \<Rightarrow> bool) \<Rightarrow> ('s \<Rightarrow> 'e qop \<Rightarrow> 's option) \<Rightarrow> 's \<Rightarrow> 'e qop list \<Rightarrow> bool" where
  "fresh_run fresh step s [] = True"
| "fresh_run fresh step s (x # xs) =
     ((case x of Post p _ \<Rightarrow> fresh s p | Turn \<Rightarrow> True) \<and>
      (case step s x of None \<Rightarrow> True | Some s' \<Rightarrow> fresh_run fresh step s' xs))"

fun posted :: "'e qop list \<Rightarrow> 'e list" where
  "posted [] = []"
| "posted (Post _ e # xs) = e # posted xs"
| "posted (Turn # xs) = posted xs"

locale event_queue =
  fixes rep :: "'s \<Rightarrow> 'e list \<Rightarrow> 'e list \<Rightarrow> 'e list \<Rightarrow> bool"
    and fresh :: "'s \<Rightarrow> ptr \<Rightarrow> bool"
    and ext :: "'e \<Rightarrow> bool"
    and post :: "ptr \<Rightarrow> 'e \<Rightarrow> 's \<Rightarrow> 's option"
    and turn :: "'s \<Rightarrow> 's option"
  assumes post_ext: "rep s is es ds \<Longrightarrow> fresh s p \<Longrightarrow> ext e \<Longrightarrow>
      \<exists>s'. post p e s = Some s' \<and> rep s' is (es @ [e]) ds"
    and post_int: "rep s is es ds \<Longrightarrow> fresh s p \<Longrightarrow> \<not> ext e \<Longrightarrow>
      \<exists>s'. post p e s = Some s' \<and> rep s' (is @ [e]) es ds"
    and turn_int: "rep s (e # is) es ds \<Longrightarrow> \<exists>s'. turn s = Some s' \<and> rep s' is es (ds @ [e])"
    and turn_ext: "rep s [] (e # es) ds \<Longrightarrow> \<exists>s'. turn s = Some s' \<and> rep s' [] es (ds @ [e])"
    and turn_idle: "rep s [] [] ds \<Longrightarrow> \<exists>s'. turn s = Some s' \<and> rep s' [] [] ds"
begin

lemma turn_any:
  assumes "rep s is es ds"
  shows "\<exists>s' is' es' d. turn s = Some s' \<and> rep s' is' es' (ds @ d) \<and>
           ((\<exists>e. is = e # is' \<and> es' = es \<and> d = [e]) \<or>
            (\<exists>e. is = [] \<and> is' = [] \<and> es = e # es' \<and> d = [e]) \<or>
            (is = [] \<and> es = [] \<and> is' = [] \<and> es' = [] \<and> d = []))"
proof (cases "is")
  case (Cons e is')
  with assms turn_int [of s e is' es ds] show ?thesis by auto
next
  case Nil
  with assms turn_ext [of s _ _ ds] turn_idle [of s ds] show ?thesis
    by (cases es) fastforce+
qed

lemma delivery_order:
  assumes "rep s is es ds" and "list_all (\<lambda>e. \<not> ext e) is" and "list_all ext es" and "fresh_run fresh (qstep post turn) s xs"
  shows "\<exists>s' is' es' d. run_steps (qstep post turn) s xs = Some s' \<and> rep s' is' es' (ds @ d) \<and>
           filter (\<lambda>e. \<not> ext e) d @ is' = is @ filter (\<lambda>e. \<not> ext e) (posted xs) \<and>
           filter ext d @ es' = es @ filter ext (posted xs)"
  using assms
proof (induction xs arbitrary: s "is" es ds)
  case Nil
  then show ?case by (intro exI [of _ s] exI [of _ "is"] exI [of _ es] exI [of _ "[]"]) simp
next
  case (Cons x xs)
  show ?case
  proof (cases x)
    case (Post p e)
    define is1 where "is1 = (if ext e then is else is @ [e])"
    define es1 where "es1 = (if ext e then es @ [e] else es)"
    from Cons.prems Post obtain t where t: "post p e s = Some t" "rep t is1 es1 ds"
      unfolding is1_def es1_def using post_ext [of s "is" es ds p e] post_int [of s "is" es ds p e]
      by (cases "ext e") auto
    have "list_all (\<lambda>e. \<not> ext e) is1" "list_all ext es1" "fresh_run fresh (qstep post turn) t xs"
      using Cons.prems Post t by (auto simp: is1_def es1_def)
    from Cons.IH [OF t(2) this] t(1) Post show ?thesis
      by (auto simp: is1_def es1_def split: if_splits)
  next
    case Turn
    from turn_any [OF Cons.prems(1)] obtain t is1 es1 d where
      t: "turn s = Some t" "rep t is1 es1 (ds @ d)"
      and o: "(\<exists>e. is = e # is1 \<and> es1 = es \<and> d = [e]) \<or>
            (\<exists>e. is = [] \<and> is1 = [] \<and> es = e # es1 \<and> d = [e]) \<or>
            (is = [] \<and> es = [] \<and> is1 = [] \<and> es1 = [] \<and> d = [])" by blast
    from o Cons.prems(2,3) have cls: "list_all (\<lambda>e. \<not> ext e) is1" "list_all ext es1"
      "filter (\<lambda>e. \<not> ext e) d @ is1 = is" "filter ext d @ es1 = es"
      by auto
    from Cons.prems(4) Turn t(1) have "fresh_run fresh (qstep post turn) t xs" by simp
    from Cons.IH [OF t(2) cls(1,2) this] obtain s' is' es' d' where
      u: "run_steps (qstep post turn) t xs = Some s'" "rep s' is' es' (ds @ d @ d')"
      "filter (\<lambda>e. \<not> ext e) d' @ is' = is1 @ filter (\<lambda>e. \<not> ext e) (posted xs)"
      "filter ext d' @ es' = es1 @ filter ext (posted xs)" by auto
    then show ?thesis
      using t(1) Turn cls(3,4) by (intro exI [of _ s'] exI [of _ is'] exI [of _ es'] exI [of _ "d @ d'"]) auto
  qed
qed

end

section \<open>The command queue implements the interface\<close>

text \<open>A system with a callback that only records what it is given.\<close>

record 'd logged_sys = "'d cmd_sys" +
  delivered :: "'d ipacm_cmd_q_data list"

definition log_cb :: "'d ipacm_cmd_q_data \<Rightarrow> 'd logged_sys \<Rightarrow> 'd logged_sys option" where
  "log_cb d s = Some (s\<lparr>delivered := delivered s @ [d]\<rparr>)"

definition post_logged :: "ptr \<Rightarrow> 'd ipacm_cmd_q_data \<Rightarrow> 'd logged_sys \<Rightarrow> 'd logged_sys option" where
  "post_logged p d s = map_option snd (PostEvt sync_fine p d s)"

definition turn_logged :: "'d logged_sys \<Rightarrow> 'd logged_sys option" where
  "turn_logged s = map_option snd (Process_turn log_cb sync_fine s)"

definition msg_fresh :: "('d, 'z) cmd_sys_scheme \<Rightarrow> ptr \<Rightarrow> bool" where
  "msg_fresh s p \<longleftrightarrow> msgs s p = None"

definition logged_rep :: "'d logged_sys \<Rightarrow> 'd ipacm_cmd_q_data list \<Rightarrow> 'd ipacm_cmd_q_data list \<Rightarrow>
    'd ipacm_cmd_q_data list \<Rightarrow> bool" where
  "logged_rep s is es ds \<longleftrightarrow> sys_rep {} s is es \<and> delivered s = ds"

lemma more_delivered: "cmd_sys.more s' = cmd_sys.more s \<Longrightarrow> delivered s' = delivered (s :: 'd logged_sys)"
  by (cases s; cases s') simp

lemma sys_rep_delivered [simp]:
  "sys_rep H (s\<lparr>delivered := x\<rparr> :: 'd logged_sys) is es = sys_rep H s is es"
  by (simp add: sys_rep_def)

lemma log_cb_ok:
  assumes "cmd_sys.more t = cmd_sys.more (s :: 'd logged_sys)" and "delivered s = ds" and "sys_rep H t is es"
  shows "\<exists>u. log_cb e t = Some u \<and> sys_rep H u is es \<and>
           cmd_sys.more u = cmd_sys.more (s\<lparr>delivered := ds @ [e]\<rparr>)"
  using assms by (cases s; cases t) (auto simp: log_cb_def sys_rep_def)

interpretation evq: event_queue logged_rep msg_fresh is_ext post_logged turn_logged
proof unfold_locales
  fix s :: "'d logged_sys" and "is" es ds p e
  assume "logged_rep s is es ds" and "msg_fresh s p"
  then have "\<exists>s'. PostEvt sync_fine p e s = Some (IPACM_SUCCESS, s') \<and>
      sys_rep {} s' (if is_ext e then is else is @ [e]) (if is_ext e then es @ [e] else es) \<and>
      delivered s' = ds"
    using PostEvt_sys_rep [of "{}" s "is" es p sync_fine e] more_delivered
    by (fastforce simp: logged_rep_def msg_fresh_def)
  then show "is_ext e \<Longrightarrow> \<exists>s'. post_logged p e s = Some s' \<and> logged_rep s' is (es @ [e]) ds"
    and "\<not> is_ext e \<Longrightarrow> \<exists>s'. post_logged p e s = Some s' \<and> logged_rep s' (is @ [e]) es ds"
    by (auto simp: post_logged_def logged_rep_def)
next
  fix s :: "'d logged_sys" and e "is" es ds
  assume "logged_rep s (e # is) es ds"
  then have r: "sys_rep {} s (e # is) es" and d: "delivered s = ds" by (simp_all add: logged_rep_def)
  have "\<exists>s'. Process_turn log_cb sync_fine s = Some (Proc_ran, s') \<and> sys_rep {} s' is es \<and>
      cmd_sys.more s' = cmd_sys.more (s\<lparr>delivered := ds @ [e]\<rparr>)"
    by (rule Process_turn_internal [OF r]) (auto intro!: log_cb_ok d)
  then show "\<exists>s'. turn_logged s = Some s' \<and> logged_rep s' is es (ds @ [e])"
    using more_delivered by (fastforce simp: logged_rep_def turn_logged_def)
next
  fix s :: "'d logged_sys" and e es ds
  assume "logged_rep s [] (e # es) ds"
  then have r: "sys_rep {} s [] (e # es)" and d: "delivered s = ds" by (simp_all add: logged_rep_def)
  have "\<exists>s'. Process_turn log_cb sync_fine s = Some (Proc_ran, s') \<and> sys_rep {} s' [] es \<and>
      cmd_sys.more s' = cmd_sys.more (s\<lparr>delivered := ds @ [e]\<rparr>)"
    by (rule Process_turn_external [OF r]) (auto intro!: log_cb_ok d)
  then show "\<exists>s'. turn_logged s = Some s' \<and> logged_rep s' [] es (ds @ [e])"
    using more_delivered by (fastforce simp: logged_rep_def turn_logged_def)
next
  fix s :: "'d logged_sys" and ds
  assume "logged_rep s [] [] ds"
  then show "\<exists>s'. turn_logged s = Some s' \<and> logged_rep s' [] [] ds"
    using Process_turn_idle [of "{}" s sync_fine log_cb]
    by (fastforce simp: logged_rep_def turn_logged_def dest: more_delivered)
qed

section \<open>Properties\<close>

lemma event_num_values:
  "event_num IPA_EXTERNAL_EVENT_MAX = 40" "event_num IPA_LINK_UP_EVENT = 3"
  "event_num IPA_HANDLE_WAN_UP = 41" "event_num IPA_DOWNSTREAM_DEL = 39"
  by (simp_all add: event_num_def all_events_def)

text \<open>
  C1. Whatever sequence of \<open>PostEvt\<close> calls and \<open>Process\<close> turns runs against the two queues, none of
  them follows a bad pointer, and within each class (internal, external) the events handed to the
  callback followed by those still pending are exactly the events pending at the start followed by
  those posted, in posting order: nothing is lost, duplicated or reordered.
\<close>

theorem events_delivered_in_order:
  assumes "logged_rep s is es ds"
    and "list_all (\<lambda>e. \<not> is_ext e) is" and "list_all is_ext es"
    and "fresh_run msg_fresh (qstep post_logged turn_logged) s xs"
  shows "\<exists>s' is' es' d. run_steps (qstep post_logged turn_logged) s xs = Some s' \<and>
           logged_rep s' is' es' (ds @ d) \<and>
           filter (\<lambda>e. \<not> is_ext e) d @ is' = is @ filter (\<lambda>e. \<not> is_ext e) (posted xs) \<and>
           filter is_ext d @ es' = es @ filter is_ext (posted xs)"
  using assms by (rule evq.delivery_order)

lemma logged_rep_empty:
  "logged_rep \<lparr>msgs = Map.empty, inst_internal = None, inst_external = None, delivered = []\<rparr> [] [] []"
  by (simp add: logged_rep_def sys_rep_def oq_rep_def)

theorem events_delivered_in_order_witness:
  "let s = \<lparr>msgs = Map.empty, inst_internal = None, inst_external = None, delivered = []\<rparr>;
       e1 = \<lparr>event = IPA_LINK_UP_EVENT, evt_data = Some (7::nat)\<rparr>;
       e2 = \<lparr>event = IPA_HANDLE_WAN_UP, evt_data = None\<rparr>;
       xs = [Post 1 e1, Post 2 e2, Turn]
   in \<exists>s' is' es' d. run_steps (qstep post_logged turn_logged) s xs = Some s' \<and>
           logged_rep s' is' es' ([] @ d) \<and>
           filter (\<lambda>e. \<not> is_ext e) d @ is' = [] @ filter (\<lambda>e. \<not> is_ext e) (posted xs) \<and>
           filter is_ext d @ es' = [] @ filter is_ext (posted xs)"
  unfolding Let_def
  by (rule events_delivered_in_order [OF logged_rep_empty])
    (simp_all add: post_logged_def PostEvt_def getInstanceExternal_def getInstanceInternal_def
      enqueue_def event_num_values new_MessageQueue_def msg_fresh_def turn_logged_def Process_turn_def
      dequeue_def heap_simps log_cb_def split: option.split)





end
