(* ===== verification/EvtDispatcher.thy ===== *)
theory EvtDispatcher
  imports CmdQueue
begin

text \<open>
  The listener registry of the IPA connection manager
  (\<open>data-ipa-cfg-mgr/ipacm/src/IPACM_EvtDispatcher.cpp\<close>): a singly linked list of
  \<open>(event, listener)\<close> nodes, appended by \<open>registr\<close>, unlinked by \<open>deregistr\<close> and walked by
  \<open>ProcessEvt\<close>, which calls back into listeners that may themselves register and deregister.
  Walks are partial functions: \<open>None\<close> is a bad pointer or a walk that does not end.
\<close>

section \<open>The registry\<close>

record cmd_evts =
  ce_event :: ipa_cm_event_id
  ce_obj :: nat
  ce_next :: "ptr option"

text \<open>\<open>freed_data\<close>: the payloads that \<open>ProcessEvt\<close> has given back with \<open>free\<close>, in order.\<close>

record 'd dispatcher =
  evts :: "cmd_evts heap"
  disp_head :: "ptr option"
  ipacm_event_stats :: "ipa_cm_event_id \<Rightarrow> u32"
  freed_data :: "'d list"

text \<open>\<open>while(tmp->next) tmp = tmp->next;\<close>\<close>

partial_function (option) find_last :: "cmd_evts heap \<Rightarrow> ptr \<Rightarrow> ptr option" where
  "find_last h tmp =
     do { n \<leftarrow> deref h tmp;
          (case ce_next n of None \<Rightarrow> Some tmp | Some q \<Rightarrow> find_last h q) }"

text \<open>\<open>nw\<close> is what \<open>malloc\<close> returns.\<close>

definition registr ::
  "ptr option \<Rightarrow> ipa_cm_event_id \<Rightarrow> nat \<Rightarrow> ('d, 'z) dispatcher_scheme \<Rightarrow> (int \<times> ('d, 'z) dispatcher_scheme) option" where
  "registr nw ev obj s =
     (case nw of
        None \<Rightarrow> Some (IPACM_FAILURE, s)
      | Some a \<Rightarrow>
          (let h = (evts s)(a \<mapsto> \<lparr>ce_event = ev, ce_obj = obj, ce_next = None\<rparr>)
           in case disp_head s of
                None \<Rightarrow> Some (IPACM_SUCCESS, s\<lparr>evts := h, disp_head := Some a\<rparr>)
              | Some tmp \<Rightarrow> do {
                  l \<leftarrow> find_last h tmp;
                  h' \<leftarrow> store_upd (\<lambda>n. n\<lparr>ce_next := Some a\<rparr>) h l;
                  Some (IPACM_SUCCESS, s\<lparr>evts := h'\<rparr>) }))"

text \<open>The body of the loop in \<open>deregistr\<close> for a node \<open>t\<close> that belongs to \<open>param\<close>: unlink and free it.\<close>

definition unlink_node ::
  "ptr \<Rightarrow> cmd_evts \<Rightarrow> ptr option \<Rightarrow> ('d, 'z) dispatcher_scheme \<Rightarrow> (ptr option \<times> ('d, 'z) dispatcher_scheme) option" where
  "unlink_node t n prev s =
     do { s1 \<leftarrow>
            (if disp_head s = Some t then Some (s\<lparr>disp_head := ce_next n\<rparr>)
             else if ce_next n = None then
               do { p \<leftarrow> prev; h \<leftarrow> store_upd (\<lambda>m. m\<lparr>ce_next := None\<rparr>) (evts s) p; Some (s\<lparr>evts := h\<rparr>) }
             else
               do { p \<leftarrow> prev; h \<leftarrow> store_upd (\<lambda>m. m\<lparr>ce_next := ce_next n\<rparr>) (evts s) p; Some (s\<lparr>evts := h\<rparr>) });
          n1 \<leftarrow> deref (evts s1) t;
          Some (ce_next n1, s1\<lparr>evts := free_at (evts s1) t\<rparr>) }"

partial_function (option) deregistr_loop ::
  "nat \<Rightarrow> ptr option \<Rightarrow> ptr option \<Rightarrow> ('d, 'z) dispatcher_scheme \<Rightarrow> ('d, 'z) dispatcher_scheme option" where
  "deregistr_loop param tmp prev s =
     (case tmp of
        None \<Rightarrow> Some s
      | Some t \<Rightarrow>
          do { n \<leftarrow> deref (evts s) t;
               (if ce_obj n = param
                then do { (nx, s') \<leftarrow> unlink_node t n prev s; deregistr_loop param nx prev s' }
                else deregistr_loop param (ce_next n) (Some t) s) })"

definition deregistr :: "nat \<Rightarrow> ('d, 'z) dispatcher_scheme \<Rightarrow> (int \<times> ('d, 'z) dispatcher_scheme) option" where
  "deregistr param s =
     do { s' \<leftarrow> deregistr_loop param (disp_head s) (disp_head s) s; Some (IPACM_SUCCESS, s') }"

text \<open>\<open>ipacm_event_stats\<close> has \<open>IPACM_EVENT_MAX\<close> elements: the last enumerator is no index into it.\<close>

definition bump_stats :: "ipa_cm_event_id \<Rightarrow> ('d, 'z) dispatcher_scheme \<Rightarrow> ('d, 'z) dispatcher_scheme option" where
  "bump_stats e s =
     (if e = IPACM_EVENT_MAX then None else Some (s\<lparr>ipacm_event_stats := (ipacm_event_stats s)(e := ipacm_event_stats s e + 1)\<rparr>))"

text \<open>
  \<open>event_callback\<close> is the virtual method of the listeners, a function of the whole state. The node is
  copied before the callback runs, so its \<open>next\<close> field is the one read before the callback. After the walk the payload is freed.
\<close>

partial_function (option) ProcessEvt_loop ::
  "(nat \<Rightarrow> ipa_cm_event_id \<Rightarrow> 'd option \<Rightarrow> ('d, 'z) dispatcher_scheme \<Rightarrow> ('d, 'z) dispatcher_scheme option) \<Rightarrow>
   'd ipacm_cmd_q_data \<Rightarrow> ptr option \<Rightarrow> ('d, 'z) dispatcher_scheme \<Rightarrow> ('d, 'z) dispatcher_scheme option" where
  "ProcessEvt_loop event_callback data tmp s =
     (case tmp of
        None \<Rightarrow> Some s
      | Some t \<Rightarrow>
          do { tmp1 \<leftarrow> deref (evts s) t;
               s' \<leftarrow> (if event data = ce_event tmp1
                 then do { s \<leftarrow> bump_stats (event data) s; event_callback (ce_obj tmp1) (event data) (evt_data data) s }
                 else Some s);
               ProcessEvt_loop event_callback data (ce_next tmp1) s' })"

definition free_data :: "'d ipacm_cmd_q_data \<Rightarrow> ('d, 'z) dispatcher_scheme \<Rightarrow> ('d, 'z) dispatcher_scheme" where
  "free_data data s = (case evt_data data of None \<Rightarrow> s | Some x \<Rightarrow> s\<lparr>freed_data := freed_data s @ [x]\<rparr>)"

definition ProcessEvt ::
  "(nat \<Rightarrow> ipa_cm_event_id \<Rightarrow> 'd option \<Rightarrow> ('d, 'z) dispatcher_scheme \<Rightarrow> ('d, 'z) dispatcher_scheme option) \<Rightarrow>
   'd ipacm_cmd_q_data \<Rightarrow> ('d, 'z) dispatcher_scheme \<Rightarrow> ('d, 'z) dispatcher_scheme option" where
  "ProcessEvt event_callback data s =
     map_option (free_data data) (ProcessEvt_loop event_callback data (disp_head s) s)"

section \<open>What the registry holds\<close>

type_synonym reg = "ptr \<times> ipa_cm_event_id \<times> nat"

definition node_ok :: "cmd_evts heap \<Rightarrow> reg \<Rightarrow> bool" where
  "node_ok h r \<longleftrightarrow> (\<exists>n. h (fst r) = Some n \<and> ce_event n = fst (snd r) \<and> ce_obj n = snd (snd r))"

definition reg_seg :: "cmd_evts heap \<Rightarrow> ptr option \<Rightarrow> reg list \<Rightarrow> ptr option \<Rightarrow> bool" where
  "reg_seg h p rs q \<longleftrightarrow> lseg ce_next h p (map fst rs) q \<and> (\<forall>r \<in> set rs. node_ok h r)"

definition reg_rep :: "('d, 'z) dispatcher_scheme \<Rightarrow> reg list \<Rightarrow> bool" where
  "reg_rep s rs \<longleftrightarrow> reg_seg (evts s) (disp_head s) rs None"

lemma reg_seg_Nil [simp]: "reg_seg h p [] q \<longleftrightarrow> p = q"
  by (simp add: reg_seg_def)

lemma reg_seg_Cons [simp]:
  "reg_seg h p ((a, e, ob) # rs) q \<longleftrightarrow>
     p = Some a \<and> (\<exists>n. h a = Some n \<and> ce_event n = e \<and> ce_obj n = ob \<and> reg_seg h (ce_next n) rs q)"
  by (auto simp: reg_seg_def node_ok_def)

lemma reg_seg_append: "reg_seg h p (rs @ rs') q \<longleftrightarrow> (\<exists>r. reg_seg h p rs r \<and> reg_seg h r rs' q)"
  by (auto simp: reg_seg_def lseg_append)

lemma reg_seg_cong:
  "(\<And>a. a \<in> fst ` set rs \<Longrightarrow> h' a = h a) \<Longrightarrow> reg_seg h' p rs q \<longleftrightarrow> reg_seg h p rs q"
  using lseg_cong [of "map fst rs" h' h] by (auto simp: reg_seg_def node_ok_def)

lemma reg_seg_upd [simp]: "a \<notin> fst ` set rs \<Longrightarrow> reg_seg (h(a := v)) p rs q \<longleftrightarrow> reg_seg h p rs q"
  by (rule reg_seg_cong) auto

lemma reg_seg_distinct: "reg_seg h p rs None \<Longrightarrow> distinct (map fst rs)"
  by (auto simp: reg_seg_def dest: lseg_None_distinct)

lemma reg_seg_dom: "reg_seg h p rs q \<Longrightarrow> a \<in> fst ` set rs \<Longrightarrow> h a \<noteq> None"
  by (auto simp: reg_seg_def node_ok_def)

text \<open>Redirecting the link of the last node of a segment.\<close>

lemma reg_seg_relink:
  assumes "reg_seg h p (rs @ [(a, e, ob)]) q" and "h a = Some n" and "a \<notin> fst ` set rs"
  shows "reg_seg (h(a \<mapsto> n\<lparr>ce_next := q'\<rparr>)) p (rs @ [(a, e, ob)]) q'"
  using assms by (auto simp: reg_seg_append)

section \<open>Registration\<close>

lemma find_last_seg:
  "reg_seg h (Some p) (rs @ [(a, e, ob)]) None \<Longrightarrow> find_last h p = Some a"
proof (induction rs arbitrary: p)
  case Nil
  then show ?case by (subst find_last.simps) (auto simp: deref_def)
next
  case (Cons r rs)
  then obtain n where n: "h p = Some n" "reg_seg h (ce_next n) (rs @ [(a, e, ob)]) None"
    by (cases r) auto
  then obtain b where b: "ce_next n = Some b"
    by (cases "ce_next n"; cases rs) (auto simp: reg_seg_append)
  with n Cons.IH show ?case by (subst find_last.simps) (simp add: deref_def)
qed

lemma registr_rep:
  assumes rep: "reg_rep s rs" and fresh: "evts s a = None"
  shows "\<exists>s'. registr (Some a) ev ob s = Some (IPACM_SUCCESS, s') \<and> reg_rep s' (rs @ [(a, ev, ob)]) \<and>
           ipacm_event_stats s' = ipacm_event_stats s \<and> dispatcher.more s' = dispatcher.more s"
proof (cases rs rule: rev_cases)
  case Nil
  with rep show ?thesis by (auto simp: reg_rep_def registr_def Let_def)
next
  case (snoc rs' r)
  obtain b e b' where r: "r = (b, e, b')" by (cases r)
  let ?h = "(evts s)(a \<mapsto> \<lparr>ce_event = ev, ce_obj = ob, ce_next = None\<rparr>)"
  have a: "a \<notin> fst ` set rs" using reg_seg_dom rep fresh by (fastforce simp: reg_rep_def)
  from rep snoc r have seg: "reg_seg (evts s) (disp_head s) (rs' @ [(b, e, b')]) None"
    by (simp add: reg_rep_def)
  then obtain p where p: "disp_head s = Some p"
    by (cases "disp_head s"; cases rs') (auto simp: reg_seg_append)
  from seg a snoc r have seg': "reg_seg ?h (Some p) (rs' @ [(b, e, b')]) None" using p by simp
  then obtain n where n: "?h b = Some n" by (auto simp: reg_seg_append)
  have b: "b \<notin> fst ` set rs'" using reg_seg_distinct [OF seg'] by auto
  have "reg_seg (?h(b \<mapsto> n\<lparr>ce_next := Some a\<rparr>)) (Some p) (rs' @ [(b, e, b')]) (Some a)"
    by (rule reg_seg_relink [OF seg' n b])
  moreover have "a \<noteq> b" using a snoc r by auto
  ultimately have "reg_seg (?h(b \<mapsto> n\<lparr>ce_next := Some a\<rparr>)) (Some p) (rs @ [(a, ev, ob)]) None"
    using snoc r by (subst reg_seg_append) auto
  moreover have "registr (Some a) ev ob s =
      Some (IPACM_SUCCESS, s\<lparr>evts := ?h(b \<mapsto> n\<lparr>ce_next := Some a\<rparr>)\<rparr>)"
    using p find_last_seg [OF seg'] n by (simp add: registr_def Let_def store_upd_def)
  ultimately show ?thesis using p by (simp add: reg_rep_def)
qed

section \<open>Deregistration\<close>

text \<open>
  The loop invariant: \<open>done\<close> are the kept nodes before \<open>tmp\<close>, \<open>todo\<close> the nodes from \<open>tmp\<close> on, and
  \<open>prev\<close> is the last kept node when there is one.
\<close>

lemma unlink_node_seg:
  assumes done_seg: "reg_seg (evts s) (disp_head s) ds (Some t)"
    and node: "evts s t = Some n" and rest: "reg_seg (evts s) (ce_next n) rs None"
    and dist: "distinct (map fst ds @ t # map fst rs)"
    and prev: "ds \<noteq> [] \<longrightarrow> prev = Some (fst (last ds))"
  shows "\<exists>s'. unlink_node t n prev s = Some (ce_next n, s') \<and>
           reg_seg (evts s') (disp_head s') ds (ce_next n) \<and> reg_seg (evts s') (ce_next n) rs None \<and>
           evts s' t = None \<and> (\<forall>x. x \<noteq> t \<longrightarrow> x \<notin> fst ` set ds \<longrightarrow> evts s' x = evts s x) \<and>
           ipacm_event_stats s' = ipacm_event_stats s \<and> dispatcher.more s' = dispatcher.more s"
proof (cases ds rule: rev_cases)
  case Nil
  with done_seg have "disp_head s = Some t" by simp
  then have "unlink_node t n prev s = Some (ce_next n, s\<lparr>disp_head := ce_next n, evts := free_at (evts s) t\<rparr>)"
    using node by (simp add: unlink_node_def deref_def)
  with Nil rest dist show ?thesis by (auto simp: free_at_def)
next
  case (snoc ds' r)
  obtain b e b' where r: "r = (b, e, b')" by (cases r)
  from done_seg snoc r obtain m where m: "evts s b = Some m" by (auto simp: reg_seg_append)
  have head: "disp_head s \<noteq> Some t"
    using done_seg dist snoc r by (cases ds') auto
  let ?h = "(evts s)(b \<mapsto> m\<lparr>ce_next := ce_next n\<rparr>)"
  have "t \<noteq> b" "b \<notin> fst ` set ds'" "b \<notin> fst ` set rs" "t \<notin> fst ` set ds" "t \<notin> fst ` set rs"
    using dist snoc r by auto
  moreover have "unlink_node t n prev s = Some (ce_next n, s\<lparr>evts := free_at ?h t\<rparr>)"
    using head prev snoc r m node \<open>t \<noteq> b\<close>
    by (auto simp: unlink_node_def store_upd_def deref_def)
  moreover have "reg_seg ?h (disp_head s) ds (ce_next n)"
    using reg_seg_relink [of "evts s" "disp_head s" ds' b e b'] done_seg m snoc r calculation(2) by auto
  ultimately show ?thesis
    using rest snoc r by (auto simp: free_at_def)
qed

lemma deregistr_loop_seg:
  assumes "reg_seg (evts s) (disp_head s) ds tmp" and "reg_seg (evts s) tmp rs None"
    and "distinct (map fst (ds @ rs))" and "ds \<noteq> [] \<longrightarrow> prev = Some (fst (last ds))"
  shows "\<exists>s'. deregistr_loop param tmp prev s = Some s' \<and>
           reg_rep s' (ds @ filter (\<lambda>r. snd (snd r) \<noteq> param) rs) \<and>
           (\<forall>r \<in> set rs. snd (snd r) = param \<longrightarrow> evts s' (fst r) = None) \<and>
           (\<forall>x. x \<notin> fst ` set (ds @ rs) \<longrightarrow> evts s' x = evts s x) \<and>
           ipacm_event_stats s' = ipacm_event_stats s \<and> dispatcher.more s' = dispatcher.more s"
  using assms
proof (induction rs arbitrary: s ds tmp prev)
  case Nil
  then show ?case by (subst deregistr_loop.simps) (auto simp: reg_rep_def)
next
  case (Cons r rs)
  obtain t e ob where r: "r = (t, e, ob)" by (cases r)
  from Cons.prems(2) r obtain n where n: "tmp = Some t" "evts s t = Some n" "ce_obj n = ob"
    "reg_seg (evts s) (ce_next n) rs None" by auto
  show ?case
  proof (cases "ob = param")
    case True
    from unlink_node_seg [of s ds t n rs prev] Cons.prems r n obtain s1 where
      s1: "unlink_node t n prev s = Some (ce_next n, s1)"
        "reg_seg (evts s1) (disp_head s1) ds (ce_next n)" "reg_seg (evts s1) (ce_next n) rs None"
        "evts s1 t = None" "\<forall>x. x \<noteq> t \<longrightarrow> x \<notin> fst ` set ds \<longrightarrow> evts s1 x = evts s x"
        "ipacm_event_stats s1 = ipacm_event_stats s" "dispatcher.more s1 = dispatcher.more s"
      by auto
    have "distinct (map fst (ds @ rs))" using Cons.prems(3) by auto
    from Cons.IH [OF s1(2,3) this Cons.prems(4)] obtain s' where
      s': "deregistr_loop param (ce_next n) prev s1 = Some s'"
        "reg_rep s' (ds @ filter (\<lambda>r. snd (snd r) \<noteq> param) rs)"
        "\<forall>r \<in> set rs. snd (snd r) = param \<longrightarrow> evts s' (fst r) = None"
        "\<forall>x. x \<notin> fst ` set (ds @ rs) \<longrightarrow> evts s' x = evts s1 x"
        "ipacm_event_stats s' = ipacm_event_stats s1" "dispatcher.more s' = dispatcher.more s1" by auto
    have "deregistr_loop param tmp prev s = Some s'"
      using n s1(1) s'(1) True by (subst deregistr_loop.simps) (simp add: deref_def)
    moreover have "t \<notin> fst ` set (ds @ rs)" using Cons.prems(3) r by auto
    ultimately show ?thesis using s' s1 r True by auto
  next
    case False
    have "reg_seg (evts s) (disp_head s) (ds @ [r]) (ce_next n)"
      using Cons.prems(1,2) r n by (auto simp: reg_seg_append)
    from Cons.IH [OF this n(4), of "Some t"] Cons.prems(3) r obtain s' where
      s': "deregistr_loop param (ce_next n) (Some t) s = Some s'"
        "reg_rep s' ((ds @ [r]) @ filter (\<lambda>r. snd (snd r) \<noteq> param) rs)"
        "\<forall>r \<in> set rs. snd (snd r) = param \<longrightarrow> evts s' (fst r) = None"
        "\<forall>x. x \<notin> fst ` set ((ds @ [r]) @ rs) \<longrightarrow> evts s' x = evts s x"
        "ipacm_event_stats s' = ipacm_event_stats s" "dispatcher.more s' = dispatcher.more s" by auto
    have "deregistr_loop param tmp prev s = Some s'"
      using n s'(1) False by (subst deregistr_loop.simps) (simp add: deref_def)
    then show ?thesis using s' r False by auto
  qed
qed

lemma deregistr_rep:
  assumes "reg_rep s rs"
  shows "\<exists>s'. deregistr param s = Some (IPACM_SUCCESS, s') \<and>
           reg_rep s' (filter (\<lambda>r. snd (snd r) \<noteq> param) rs) \<and>
           (\<forall>r \<in> set rs. snd (snd r) = param \<longrightarrow> evts s' (fst r) = None) \<and>
           ipacm_event_stats s' = ipacm_event_stats s \<and> dispatcher.more s' = dispatcher.more s"
proof -
  from assms have "reg_seg (evts s) (disp_head s) rs None" by (simp add: reg_rep_def)
  with deregistr_loop_seg [of s "[]" "disp_head s" rs "disp_head s" param]
    reg_seg_distinct [OF this] show ?thesis by (auto simp: deregistr_def)
qed

section \<open>Dispatch\<close>

type_synonym ('d, 'z) listener_cb =
  "nat \<Rightarrow> ipa_cm_event_id \<Rightarrow> 'd option \<Rightarrow> ('d, 'z) dispatcher_scheme \<Rightarrow> ('d, 'z) dispatcher_scheme option"

text \<open>The reference for a walk over a registry that does not change: call every match, in order.\<close>

fun call_all ::
  "('d, 'z) listener_cb \<Rightarrow> 'd ipacm_cmd_q_data \<Rightarrow> reg list \<Rightarrow> ('d, 'z) dispatcher_scheme \<Rightarrow> ('d, 'z) dispatcher_scheme option" where
  "call_all cb d [] s = Some s"
| "call_all cb d (r # rs) s =
     (if event d = fst (snd r) then bump_stats (event d) s \<bind> cb (snd (snd r)) (event d) (evt_data d) else Some s)
       \<bind> call_all cb d rs"

definition keeps_registry :: "('d, 'z) listener_cb \<Rightarrow> bool" where
  "keeps_registry cb \<longleftrightarrow>
     (\<forall>ob e d s s'. cb ob e d s = Some s' \<longrightarrow> evts s' = evts s \<and> disp_head s' = disp_head s)"

lemma keeps_registryD:
  "keeps_registry cb \<Longrightarrow> cb ob e d s = Some s' \<Longrightarrow> evts s' = evts s \<and> disp_head s' = disp_head s"
  by (simp add: keeps_registry_def)

lemma bump_stats_keeps: "bump_stats e s = Some s' \<Longrightarrow> evts s' = evts s \<and> disp_head s' = disp_head s"
  by (auto simp: bump_stats_def split: if_splits)

lemma call_all_keeps:
  assumes "keeps_registry cb"
  shows "call_all cb d rs s = Some s' \<Longrightarrow> evts s' = evts s \<and> disp_head s' = disp_head s"
proof (induction rs arbitrary: s)
  case Nil
  then show ?case by simp
next
  case (Cons r rs)
  then show ?case
    by (auto split: if_splits Option.bind_splits dest!: keeps_registryD [OF assms] bump_stats_keeps)
qed

lemma ProcessEvt_loop_step:
  "evts s t = Some n \<Longrightarrow>
     ProcessEvt_loop cb d (Some t) s =
       (if event d = ce_event n then bump_stats (event d) s \<bind> cb (ce_obj n) (event d) (evt_data d) else Some s)
         \<bind> ProcessEvt_loop cb d (ce_next n)"
  by (subst ProcessEvt_loop.simps) (simp add: deref_def)

lemma ProcessEvt_loop_None [simp]: "ProcessEvt_loop cb d None s = Some s"
  by (subst ProcessEvt_loop.simps) simp

text \<open>A walk over a prefix whose matching listeners (under \<open>cb'\<close>) behave like \<open>cb\<close>.\<close>

lemma ProcessEvt_loop_prefix:
  assumes keep: "keeps_registry cb"
    and same: "\<And>r. r \<in> set rs \<Longrightarrow> fst (snd r) = event d \<Longrightarrow> cb' (snd (snd r)) = cb (snd (snd r))"
    and "reg_seg (evts s) tmp rs q"
  shows "ProcessEvt_loop cb' d tmp s = call_all cb d rs s \<bind> ProcessEvt_loop cb' d q"
  using assms(2-)
proof (induction rs arbitrary: s tmp)
  case Nil
  then show ?case by simp
next
  case (Cons r rs)
  obtain t e ob where r: "r = (t, e, ob)" by (cases r)
  with Cons.prems obtain n where n: "tmp = Some t" "evts s t = Some n" "ce_event n = e" "ce_obj n = ob"
    "reg_seg (evts s) (ce_next n) rs q" by auto
  have IH: "ProcessEvt_loop cb' d (ce_next n) s1 = call_all cb d rs s1 \<bind> ProcessEvt_loop cb' d q"
    if "evts s1 = evts s" for s1
    using Cons.IH [of s1 "ce_next n"] Cons.prems(1) n(5) that by simp
  show ?case
  proof (cases "event d = e")
    case True
    then have "cb' ob = cb ob" using Cons.prems(1) [of r] r by simp
    show ?thesis
    proof (cases "bump_stats (event d) s \<bind> cb ob (event d) (evt_data d)")
      case None
      with True n r \<open>cb' ob = cb ob\<close> show ?thesis by (simp add: ProcessEvt_loop_step [OF n(2)])
    next
      case (Some s1)
      then obtain x where x: "bump_stats (event d) s = Some x" "cb ob (event d) (evt_data d) x = Some s1" by (auto split: Option.bind_splits)
      have "evts s1 = evts s" using keeps_registryD [OF keep x(2)] bump_stats_keeps [OF x(1)] by simp
      with Some True n r IH \<open>cb' ob = cb ob\<close> show ?thesis by (simp add: ProcessEvt_loop_step [OF n(2)])
    qed
  next
    case False
    with n r IH show ?thesis by (simp add: ProcessEvt_loop_step [OF n(2)])
  qed
qed

lemma ProcessEvt_call_all:
  assumes "keeps_registry cb" and "reg_rep s rs"
  shows "ProcessEvt cb d s = map_option (free_data d) (call_all cb d rs s)"
  using ProcessEvt_loop_prefix [OF assms(1), of rs d cb s "disp_head s" None] assms(2)
  by (cases "call_all cb d rs s") (simp_all add: ProcessEvt_def reg_rep_def)

lemma free_data_simps [simp]: "evts (free_data d s) = evts s" "disp_head (free_data d s) = disp_head s" "ipacm_event_stats (free_data d s) = ipacm_event_stats s"
  "freed_data (free_data d s) = freed_data s @ (case evt_data d of None \<Rightarrow> [] | Some x \<Rightarrow> [x])" "dispatcher.more (free_data d s) = dispatcher.more s"
  by (simp_all add: free_data_def split: option.split)

lemma reg_rep_free [simp]: "reg_rep (free_data d s) rs = reg_rep s rs"
  by (simp add: reg_rep_def)

text \<open>A listener that deregisters itself from its own callback; the others behave like \<open>cb\<close>.\<close>

definition delete_self_cb :: "nat \<Rightarrow> ('d, 'z) listener_cb \<Rightarrow> ('d, 'z) listener_cb" where
  "delete_self_cb me cb ob e d s = (if ob = me then map_option snd (deregistr me s) else cb ob e d s)"

lemma ProcessEvt_delete_self:
  assumes keep: "keeps_registry cb"
    and rep: "reg_rep s (pre @ (t, event d, me) # post)"
    and pre: "\<And>r. r \<in> set pre \<Longrightarrow> fst (snd r) = event d \<Longrightarrow> snd (snd r) \<noteq> me"
    and s1: "call_all cb d pre s = Some s1" "bump_stats (event d) s1 = Some sb"
  obtains n s2 where "evts s t = Some n" and "deregistr me sb = Some (IPACM_SUCCESS, s2)"
    and "reg_rep s2 (filter (\<lambda>r. snd (snd r) \<noteq> me) (pre @ post))"
    and "\<forall>r \<in> set post. snd (snd r) = me \<longrightarrow> evts s2 (fst r) = None"
    and "reg_seg (evts s) (ce_next n) post None"
    and "ProcessEvt (delete_self_cb me cb) d s = map_option (free_data d) (ProcessEvt_loop (delete_self_cb me cb) d (ce_next n) s2)"
proof -
  from rep obtain n where n: "reg_seg (evts s) (disp_head s) pre (Some t)" "evts s t = Some n"
    "ce_event n = event d" "ce_obj n = me" "reg_seg (evts s) (ce_next n) post None"
    by (auto simp: reg_rep_def reg_seg_append)
  from call_all_keeps [OF keep s1(1)] have k: "evts s1 = evts s" "disp_head s1 = disp_head s" by auto
  with rep bump_stats_keeps [OF s1(2)] have "reg_rep sb (pre @ (t, event d, me) # post)"
    by (simp add: reg_rep_def)
  from deregistr_rep [OF this, of me] obtain s2 where s2:
    "deregistr me sb = Some (IPACM_SUCCESS, s2)"
    "reg_rep s2 (filter (\<lambda>r. snd (snd r) \<noteq> me) (pre @ post))"
    "\<forall>r \<in> set post. snd (snd r) = me \<longrightarrow> evts s2 (fst r) = None" by auto
  have "ProcessEvt (delete_self_cb me cb) d s =
      map_option (free_data d) (call_all cb d pre s \<bind> ProcessEvt_loop (delete_self_cb me cb) d (Some t))"
    unfolding ProcessEvt_def
    by (rule arg_cong [where f = "map_option (free_data d)"], rule ProcessEvt_loop_prefix [OF keep _ n(1)]) (auto simp: delete_self_cb_def fun_eq_iff pre)
  also have "\<dots> = map_option (free_data d) (ProcessEvt_loop (delete_self_cb me cb) d (ce_next n) s2)"
    using s1 s2(1) n(2-4) k by (simp add: ProcessEvt_loop_step [of s1 t n] delete_self_cb_def)
  finally show thesis using that n s2 by blast
qed

section \<open>Properties\<close>

text \<open>
  A listener table that records every call it gets, with what had been freed by then. \<open>quiet\<close>: listeners that return, and leave the registry, the
  statistics and that record alone; they may change the rest of the state as they like.
\<close>

record 'd logged_disp = "'d dispatcher" +
  called :: "(nat \<times> ipa_cm_event_id \<times> 'd option \<times> 'd list) list"

type_synonym ('d, 'z) logged_cb =
  "nat \<Rightarrow> ipa_cm_event_id \<Rightarrow> 'd option \<Rightarrow> ('d, 'z) logged_disp_scheme \<Rightarrow> ('d, 'z) logged_disp_scheme option"

definition recorded :: "('d, 'z) logged_cb \<Rightarrow> ('d, 'z) logged_cb" where
  "recorded cb ob e x s = cb ob e x (s\<lparr>called := called s @ [(ob, e, x, freed_data s)]\<rparr>)"

definition quiet :: "('d, 'z) logged_cb \<Rightarrow> bool" where
  "quiet cb \<longleftrightarrow>
     (\<forall>ob e x s. \<exists>s'. cb ob e x s = Some s' \<and> evts s' = evts s \<and> disp_head s' = disp_head s \<and> ipacm_event_stats s' = ipacm_event_stats s \<and>
        freed_data s' = freed_data s \<and> called s' = called s)"

lemma quietD:
  "quiet cb \<Longrightarrow> \<exists>s'. cb ob e x s = Some s' \<and> evts s' = evts s \<and> disp_head s' = disp_head s \<and> ipacm_event_stats s' = ipacm_event_stats s \<and>
     freed_data s' = freed_data s \<and> called s' = called s"
  by (simp add: quiet_def)

lemma recorded_keeps: "quiet cb \<Longrightarrow> keeps_registry (recorded cb)"
  unfolding keeps_registry_def recorded_def
proof (intro allI impI)
  fix ob e x s s'
  assume "quiet cb" and s': "cb ob e x (s\<lparr>called := called s @ [(ob, e, x, freed_data s)]\<rparr>) = Some s'"
  from quietD [OF this(1), of ob e x "s\<lparr>called := called s @ [(ob, e, x, freed_data s)]\<rparr>"] s' show "evts s' = evts s \<and> disp_head s' = disp_head s" by auto
qed

lemma call_all_recorded:
  assumes cb: "quiet cb" and ev: "event d \<noteq> IPACM_EVENT_MAX"
  shows "\<exists>s'. call_all (recorded cb) d rs s = Some s' \<and> freed_data s' = freed_data s \<and>
     called s' = called s @ map (\<lambda>r. (snd (snd r), event d, evt_data d, freed_data s)) (filter (\<lambda>r. fst (snd r) = event d) rs) \<and>
     ipacm_event_stats s' = (ipacm_event_stats s)(event d := ipacm_event_stats s (event d) + of_nat (length (filter (\<lambda>r. fst (snd r) = event d) rs)))"
proof (induction rs arbitrary: s)
  case Nil
  show ?case by simp
next
  case (Cons r rs)
  show ?case
  proof (cases "event d = fst (snd r)")
    case True
    let ?s = "s\<lparr>ipacm_event_stats := (ipacm_event_stats s)(event d := ipacm_event_stats s (event d) + 1), called := called s @ [(snd (snd r), event d, evt_data d, freed_data s)]\<rparr>"
    from quietD [OF cb, of "snd (snd r)" "event d" "evt_data d" ?s] obtain s1 where
      s1: "cb (snd (snd r)) (event d) (evt_data d) ?s = Some s1" "ipacm_event_stats s1 = ipacm_event_stats ?s" "freed_data s1 = freed_data s" "called s1 = called ?s" by auto
    have "call_all (recorded cb) d (r # rs) s = call_all (recorded cb) d rs s1"
      using True ev s1(1) by (simp add: recorded_def bump_stats_def)
    with Cons.IH [of s1] s1 True show ?thesis by (auto simp: algebra_simps fun_upd_def cong: if_cong)
  next
    case False
    with Cons.IH [of s] show ?thesis by auto
  qed
qed

lemma call_all_max: "event d = IPACM_EVENT_MAX \<Longrightarrow> call_all cb d rs s = (if \<exists>r \<in> set rs. fst (snd r) = event d then None else Some s)"
  by (induction rs) (auto simp: bump_stats_def)

text \<open>
  C12. \<open>ProcessEvt\<close> on a registry whose listeners return and leave the registry, the statistics and the payload alone (but may change the rest of the state) ends; it calls exactly the
  listeners registered for the event, once per registration and in registration order, hands each of them the
  event and its payload, which is not yet freed then, and counts each call in \<open>ipacm_event_stats\<close> (modulo 2^32), no other counter changing; the registry is
  unchanged, and the payload, when there is one, is freed once. For the enumerator \<open>IPACM_EVENT_MAX\<close>, which no counter exists for, it writes outside the array if and only if a listener is registered for it.
\<close>

theorem ProcessEvt_notifies_registered:
  assumes "reg_rep s rs" and "quiet cb"
  shows "if event d = IPACM_EVENT_MAX \<and> (\<exists>r \<in> set rs. fst (snd r) = event d) then ProcessEvt (recorded cb) d s = None
    else \<exists>s'. ProcessEvt (recorded cb) d s = Some s' \<and> reg_rep s' rs \<and>
     called s' = called s @ map (\<lambda>r. (snd (snd r), event d, evt_data d, freed_data s)) (filter (\<lambda>r. fst (snd r) = event d) rs) \<and>
     ipacm_event_stats s' = (ipacm_event_stats s)(event d := ipacm_event_stats s (event d) + of_nat (length (filter (\<lambda>r. fst (snd r) = event d) rs))) \<and>
     freed_data s' = freed_data s @ (case evt_data d of None \<Rightarrow> [] | Some x \<Rightarrow> [x])"
proof -
  note p = ProcessEvt_call_all [OF recorded_keeps [OF assms(2)] assms(1), of d]
  have c: "called (free_data d s') = called s'" for s' :: "('a, 'b) logged_disp_scheme" by (simp add: free_data_def split: option.split)
  show ?thesis
  proof (cases "event d = IPACM_EVENT_MAX")
    case True
    have "filter (\<lambda>r. fst (snd r) = event d) rs = [] \<longleftrightarrow> \<not> (\<exists>r \<in> set rs. fst (snd r) = event d)" by (auto simp: filter_empty_conv)
    then show ?thesis using True p call_all_max [OF True, of "recorded cb" rs s] assms(1) c by auto
  next
    case False
    from call_all_recorded [OF assms(2) False, of rs s] obtain s' where s': "call_all (recorded cb) d rs s = Some s'" "freed_data s' = freed_data s"
      "called s' = called s @ map (\<lambda>r. (snd (snd r), event d, evt_data d, freed_data s)) (filter (\<lambda>r. fst (snd r) = event d) rs)"
      "ipacm_event_stats s' = (ipacm_event_stats s)(event d := ipacm_event_stats s (event d) + of_nat (length (filter (\<lambda>r. fst (snd r) = event d) rs)))" by blast
    then have "reg_rep s' rs" using call_all_keeps [OF recorded_keeps [OF assms(2)] s'(1)] assms(1) by (simp add: reg_rep_def)
    then show ?thesis using False p s' c by simp
  qed
qed

definition two_listeners :: "nat logged_disp" where
  "two_listeners = \<lparr>
     evts = [10 \<mapsto> \<lparr>ce_event = IPA_LINK_UP_EVENT, ce_obj = 1, ce_next = Some 20\<rparr>,
             20 \<mapsto> \<lparr>ce_event = IPA_LAN_DELETE_SELF, ce_obj = 1, ce_next = Some 30\<rparr>,
             30 \<mapsto> \<lparr>ce_event = IPA_LINK_UP_EVENT, ce_obj = 2, ce_next = None\<rparr>],
     disp_head = Some 10, ipacm_event_stats = (\<lambda>_. 0), freed_data = [], called = []\<rparr>"

lemma two_listeners_rep:
  "reg_rep two_listeners ([(10, IPA_LINK_UP_EVENT, 1)] @
     (20, IPA_LAN_DELETE_SELF, 1) # [(30, IPA_LINK_UP_EVENT, 2)])"
  by (simp add: reg_rep_def two_listeners_def)

theorem ProcessEvt_notifies_registered_witness:
  "\<exists>s'. ProcessEvt (recorded (\<lambda>_ _ _ s. Some s)) \<lparr>event = IPA_LINK_UP_EVENT, evt_data = Some 5\<rparr> two_listeners = Some s' \<and>
     called s' = [(1, IPA_LINK_UP_EVENT, Some 5, []), (2, IPA_LINK_UP_EVENT, Some 5, [])] \<and> freed_data s' = [5]"
proof -
  have "quiet (\<lambda>_ _ _ s :: nat logged_disp. Some s)" by (simp add: quiet_def)
  from ProcessEvt_notifies_registered [OF two_listeners_rep this, of "\<lparr>event = IPA_LINK_UP_EVENT, evt_data = Some 5\<rparr>"]
  show ?thesis by (auto simp: two_listeners_def)
qed

text \<open>The registry as its users see it: a list of pairs, appended to and filtered.\<close>

datatype reg_op = Register ptr ipa_cm_event_id nat | Deregister nat

fun reg_step :: "('d, 'z) dispatcher_scheme \<Rightarrow> reg_op \<Rightarrow> ('d, 'z) dispatcher_scheme option" where
  "reg_step s (Register a e ob) = map_option snd (registr (Some a) e ob s)"
| "reg_step s (Deregister ob) = map_option snd (deregistr ob s)"

fun reg_fresh :: "('d, 'z) dispatcher_scheme \<Rightarrow> reg_op \<Rightarrow> bool" where
  "reg_fresh s (Register a e ob) = (evts s a = None)"
| "reg_fresh s (Deregister ob) = True"

fun reg_spec :: "reg_op \<Rightarrow> (ipa_cm_event_id \<times> nat) list \<Rightarrow> (ipa_cm_event_id \<times> nat) list" where
  "reg_spec (Register a e ob) xs = xs @ [(e, ob)]"
| "reg_spec (Deregister ob) xs = filter (\<lambda>x. snd x \<noteq> ob) xs"

lemma reg_step_rep:
  assumes "reg_rep s rs" and "reg_fresh s x"
  shows "\<exists>s' rs'. reg_step s x = Some s' \<and> reg_rep s' rs' \<and> map snd rs' = reg_spec x (map snd rs)"
proof (cases x)
  case (Register a e ob)
  with registr_rep [OF assms(1), of a e ob] assms(2) show ?thesis by fastforce
next
  case (Deregister ob)
  with deregistr_rep [OF assms(1), of ob] show ?thesis by (fastforce simp: filter_map o_def)
qed

interpretation reg: safe_component reg_step "\<lambda>s. \<exists>rs. reg_rep s rs" reg_fresh
  using reg_step_rep by unfold_locales fastforce+

text \<open>
  C17. The linked registry refines a plain list: along any sequence of \<open>registr\<close> and \<open>deregistr\<close>
  calls (each \<open>malloc\<close> returning an unused address) no pointer fault occurs and the registry holds
  exactly what appending and filtering a list gives.
\<close>

theorem registry_refines_list:
  assumes "reg_rep s rs" and "legal_run reg_step reg_fresh s xs"
  shows "\<exists>s' rs'. run_steps reg_step s xs = Some s' \<and> reg_rep s' rs' \<and>
           map snd rs' = fold reg_spec xs (map snd rs)"
  using assms
proof (induction xs arbitrary: s rs)
  case Nil
  then show ?case by auto
next
  case (Cons x xs)
  with reg_step_rep [of s rs x] obtain t rs1 where
    t: "reg_step s x = Some t" "reg_rep t rs1" "map snd rs1 = reg_spec x (map snd rs)" by auto
  with Cons.IH [OF t(2)] Cons.prems(2) show ?case by auto
qed

theorem registry_refines_list_witness:
  "\<exists>s' rs'. run_steps reg_step two_listeners [Register 40 IPA_SSR_NOTICE 3] = Some s' \<and> reg_rep s' rs' \<and>
     map snd rs' = fold reg_spec [Register 40 IPA_SSR_NOTICE 3]
       (map snd ([(10 :: ptr, IPA_LINK_UP_EVENT, 1)] @ (20, IPA_LAN_DELETE_SELF, 1) # [(30, IPA_LINK_UP_EVENT, 2)]))"
  by (rule registry_refines_list [OF two_listeners_rep])
    (simp add: two_listeners_def split: option.split)

text \<open>
  C39. A listener may deregister itself while its own event is dispatched exactly when the node after
  the one being processed belongs to another listener (or there is none), for every event that has a counter (all but \<open>IPACM_EVENT_MAX\<close>): otherwise \<open>ProcessEvt\<close>
  continues at a node that \<open>deregistr\<close> has freed. Interfaces rely on this by registering for
  \<open>IPA_LAN_DELETE_SELF\<close> after all their other events.
\<close>

theorem ProcessEvt_delete_self_iff:
  assumes "keeps_registry cb" and total: "\<And>ob e x s. cb ob e x s \<noteq> None"
    and "reg_rep s (pre @ (t, event d, me) # post)"
    and "\<And>r. r \<in> set pre \<Longrightarrow> fst (snd r) = event d \<Longrightarrow> snd (snd r) \<noteq> me"
  shows "ProcessEvt (delete_self_cb me cb) d s \<noteq> None \<longleftrightarrow> event d \<noteq> IPACM_EVENT_MAX \<and> (post = [] \<or> snd (snd (hd post)) \<noteq> me)"
proof (cases "event d = IPACM_EVENT_MAX")
  case True
  from assms(3) obtain n where n: "reg_seg (evts s) (disp_head s) pre (Some t)" "evts s t = Some n" "ce_event n = event d"
    by (auto simp: reg_rep_def reg_seg_append)
  have "ProcessEvt_loop (delete_self_cb me cb) d (disp_head s) s = call_all cb d pre s \<bind> ProcessEvt_loop (delete_self_cb me cb) d (Some t)"
    by (rule ProcessEvt_loop_prefix [OF assms(1) _ n(1)]) (auto simp: delete_self_cb_def fun_eq_iff assms(4))
  also have "\<dots> = None"
  proof (cases "call_all cb d pre s")
    case (Some s1)
    then have "evts s1 t = Some n" using call_all_keeps [OF assms(1) Some] n(2) by simp
    then show ?thesis using Some True n(3) by (simp add: ProcessEvt_loop_step bump_stats_def)
  qed simp
  finally show ?thesis using True by (simp add: ProcessEvt_def)
next
  case ev: False
  have all: "call_all cb d rs u \<noteq> None" for rs u
    by (induction rs arbitrary: u) (auto split: Option.bind_splits simp: total bump_stats_def ev)
  then obtain s1 where s1: "call_all cb d pre s = Some s1" by blast
  obtain sb where sb: "bump_stats (event d) s1 = Some sb" using ev by (simp add: bump_stats_def)
  obtain n :: cmd_evts and s2 where
    n: "reg_rep s2 (filter (\<lambda>r. snd (snd r) \<noteq> me) (pre @ post))"
      "\<forall>r \<in> set post. snd (snd r) = me \<longrightarrow> evts s2 (fst r) = None"
      "reg_seg (evts s) (ce_next n) post None"
      "ProcessEvt (delete_self_cb me cb) d s = map_option (free_data d) (ProcessEvt_loop (delete_self_cb me cb) d (ce_next n) s2)"
    by (rule ProcessEvt_delete_self [OF assms(1,3) _ s1 sb]) (erule (1) assms(4), rule that)
  show ?thesis
  proof (cases post)
    case Nil
    with n ev show ?thesis by simp
  next
    case (Cons r post')
    obtain p e ob where r: "r = (p, e, ob)" by (cases r)
    with n(3) Cons have next_p: "ce_next n = Some p" by simp
    show ?thesis
    proof (cases "ob = me")
      case True
      with n(2) Cons r have "evts s2 p = None" by simp
      then have "ProcessEvt_loop (delete_self_cb me cb) d (Some p) s2 = None"
        by (subst ProcessEvt_loop.simps) (simp add: deref_def)
      with n(4) next_p True Cons r show ?thesis by simp
    next
      case False
      let ?rest = "filter (\<lambda>r. snd (snd r) \<noteq> me) post"
      from n(1) obtain q where "reg_seg (evts s2) q ?rest None"
        by (auto simp: reg_rep_def reg_seg_append)
      moreover from this have "q = Some p" using Cons r False by simp
      ultimately have "ProcessEvt_loop (delete_self_cb me cb) d (Some p) s2 =
          call_all cb d ?rest s2 \<bind> ProcessEvt_loop (delete_self_cb me cb) d None"
        by (intro ProcessEvt_loop_prefix [OF assms(1)]) (auto simp: delete_self_cb_def fun_eq_iff)
      moreover from all [of ?rest s2] obtain s3 where "call_all cb d ?rest s2 = Some s3" by blast
      ultimately have "ProcessEvt (delete_self_cb me cb) d s = Some (free_data d s3)"
        using n(4) next_p by (simp del: call_all.simps)
      with False Cons r ev show ?thesis by simp
    qed
  qed
qed

theorem ProcessEvt_delete_self_iff_witness:
  "ProcessEvt (delete_self_cb 1 (\<lambda>_ _ _ s. Some s)) \<lparr>event = IPA_LAN_DELETE_SELF, evt_data = None\<rparr>
     two_listeners \<noteq> None \<longleftrightarrow>
   IPA_LAN_DELETE_SELF \<noteq> IPACM_EVENT_MAX \<and> ([(30 :: ptr, IPA_LINK_UP_EVENT, 2 :: nat)] = [] \<or>
     snd (snd (hd [(30 :: ptr, IPA_LINK_UP_EVENT, 2 :: nat)])) \<noteq> 1)"
proof -
  have "reg_rep two_listeners ([(10, IPA_LINK_UP_EVENT, 1)] @
      (20, event \<lparr>event = IPA_LAN_DELETE_SELF, evt_data = None\<rparr>, 1) # [(30, IPA_LINK_UP_EVENT, 2)])"
    using two_listeners_rep by simp
  then show ?thesis
    using ProcessEvt_delete_self_iff [of "\<lambda>_ _ _ s. Some s" two_listeners _ _ "\<lparr>event = IPA_LAN_DELETE_SELF, evt_data = None\<rparr>"] by (fastforce simp: keeps_registry_def)
qed

end
