(* ===== verification/NatApp.thy ===== *)
theory NatApp
  imports IPA_Prelude
begin

text \<open>
  The cache of NAT connections of the IPA connection manager
  (\<open>data-ipa-cfg-mgr/ipacm/src/IPACM_Conntrack_NATApp.cpp\<close>, built with
  \<open>FEATURE_IPACM_HAL\<close>): a fixed array of connections mirrored into the hardware NAT table, a small
  array of connections waiting for a client to appear, and the list of clients in power save.

  The NAT library (\<open>ipa_nat_drv.h\<close>) is reached through a record of functions over an arbitrary
  state \<open>'d\<close>; every theorem here holds for every such driver. A call that has an output argument gets
  the old contents of that argument and returns the new ones, so that a driver may or may not write it
  when it fails.
\<close>

section \<open>Data\<close>

record nat_table_entry =
  private_ip :: u32
  private_port :: u16
  target_ip :: u32
  target_port :: u16
  public_ip :: u32
  public_port :: u16
  protocol :: u8
  timestamp :: u32
  dst_nat :: bool
  enabled :: bool
  rule_hdl :: u32

text \<open>\<open>memset(&e, 0, sizeof(e))\<close>\<close>

definition zero_entry :: nat_table_entry where
  "zero_entry = \<lparr>private_ip = 0, private_port = 0, target_ip = 0, target_port = 0, public_ip = 0,
     public_port = 0, protocol = 0, timestamp = 0, dst_nat = False, enabled = False, rule_hdl = 0\<rparr>"

record ipa_nat_ipv4_rule =
  r_target_ip :: u32
  r_private_ip :: u32
  r_target_port :: u16
  r_private_port :: u16
  r_public_port :: u16
  r_protocol :: u8
  r_pdn_index :: u8

record ipacm_alg =
  alg_protocol :: u8
  alg_port :: u16

definition MAX_TEMP_ENTRIES :: nat where "MAX_TEMP_ENTRIES = 25"
definition IPA_MAX_NUM_WIFI_CLIENTS :: nat where "IPA_MAX_NUM_WIFI_CLIENTS = 32"

text \<open>The array \<open>cache\<close> has \<open>max_entries\<close> slots, \<open>pALGPorts\<close> has \<open>nALGPort\<close>.\<close>

record NatApp =
  cache :: "nat_table_entry list"
  temp :: "nat_table_entry list"
  pub_ip_addr :: u32
  pub_ip_addr_pre :: u32
  nat_table_hdl :: u32
  curCnt :: int
  pALGPorts :: "ipacm_alg list"
  tcp_timeout :: u32
  udp_timeout :: u32
  PwrSaveIfs :: "u32 list"

text \<open>The library: result codes are C \<open>int\<close>s.\<close>

record 'd nat_drv =
  ipa_nat_add_ipv4_tbl :: "u32 \<Rightarrow> u16 \<Rightarrow> u32 \<Rightarrow> 'd \<Rightarrow> int \<times> u32 \<times> 'd"
  ipa_nat_del_ipv4_tbl :: "u32 \<Rightarrow> 'd \<Rightarrow> int \<times> 'd"
  ipa_nat_add_ipv4_rule :: "u32 \<Rightarrow> ipa_nat_ipv4_rule \<Rightarrow> u32 \<Rightarrow> 'd \<Rightarrow> int \<times> u32 \<times> 'd"
  ipa_nat_del_ipv4_rule :: "u32 \<Rightarrow> u32 \<Rightarrow> 'd \<Rightarrow> int \<times> 'd"
  ipa_nat_query_timestamp :: "u32 \<Rightarrow> u32 \<Rightarrow> u32 \<Rightarrow> 'd \<Rightarrow> int \<times> u32 \<times> 'd"

text \<open>\<open>memset(&nat_rule, 0, ...)\<close> followed by the six assignments that \<open>AddTable\<close>, \<open>AddEntry\<close> and
  \<open>ResetPwrSaveIf\<close> share.\<close>

definition rule_of :: "nat_table_entry \<Rightarrow> ipa_nat_ipv4_rule" where
  "rule_of e = \<lparr>r_target_ip = target_ip e, r_private_ip = private_ip e, r_target_port = target_port e,
     r_private_port = private_port e, r_public_port = public_port e, r_protocol = protocol e,
     r_pdn_index = 0\<rparr>"

text \<open>\<open>for(cnt = 0; cnt < max_entries; cnt++)\<close> with a body that works on \<open>cache[cnt]\<close>, \<open>curCnt\<close> and
  the driver.\<close>

fun for_cache ::
  "(nat_table_entry \<Rightarrow> int \<Rightarrow> 'd \<Rightarrow> nat_table_entry \<times> int \<times> 'd) \<Rightarrow>
     nat_table_entry list \<Rightarrow> int \<Rightarrow> 'd \<Rightarrow> nat_table_entry list \<times> int \<times> 'd" where
  "for_cache body [] c d = ([], c, d)"
| "for_cache body (e # es) c d =
     (let (e', c', d') = body e c d; (es', c'', d'') = for_cache body es c' d' in (e' # es', c'', d''))"

section \<open>Construction\<close>

text \<open>The constructor leaves four members as it finds them in memory.\<close>

record natapp_junk =
  junk_pub_ip_addr_pre :: u32
  junk_tcp_timeout :: u32
  junk_udp_timeout :: u32
  junk_PwrSaveIfs :: "u32 list"

definition new_NatApp :: "natapp_junk \<Rightarrow> NatApp" where
  "new_NatApp j = \<lparr>cache = [], temp = replicate MAX_TEMP_ENTRIES zero_entry, pub_ip_addr = 0,
     pub_ip_addr_pre = junk_pub_ip_addr_pre j, nat_table_hdl = 0, curCnt = 0, pALGPorts = [],
     tcp_timeout = junk_tcp_timeout j, udp_timeout = junk_udp_timeout j,
     PwrSaveIfs = junk_PwrSaveIfs j\<rparr>"

text \<open>What \<open>IPACM_Config\<close> answers.\<close>

record natapp_config =
  cfg_nat_max_entries :: int
  cfg_alg_ports :: "ipacm_alg list"

definition Init ::
  "natapp_config option \<Rightarrow> bool \<Rightarrow> bool \<Rightarrow> NatApp \<Rightarrow> int \<times> NatApp" where
  "Init pConfig cache_malloc_ok alg_malloc_ok s =
     (case pConfig of
        None \<Rightarrow> (-1, s)
      | Some cfg \<Rightarrow>
          if \<not> cache_malloc_ok then (-1, s)
          else
            (let s1 = s\<lparr>cache := replicate (nat (cfg_nat_max_entries cfg)) zero_entry\<rparr>
             in if 0 < length (cfg_alg_ports cfg)
                then if \<not> alg_malloc_ok then (-1, s1)
                     else (0, s1\<lparr>pALGPorts := cfg_alg_ports cfg\<rparr>)
                else (-1, s1)))"

text \<open>The singleton pointer: null, an object, or the address of a deleted object.\<close>

datatype natapp_ref = Inst_null | Inst_live NatApp | Inst_deleted

text \<open>Result: what the caller gets, and the new \<open>pInstance\<close>.\<close>

definition GetInstance ::
  "natapp_config option \<Rightarrow> bool \<Rightarrow> bool \<Rightarrow> natapp_junk \<Rightarrow> natapp_ref \<Rightarrow> natapp_ref \<times> natapp_ref" where
  "GetInstance pConfig ok1 ok2 j pInstance =
     (if pInstance = Inst_null then
        (let (ret, s) = Init pConfig ok1 ok2 (new_NatApp j)
         in if ret \<noteq> 0 then (Inst_null, Inst_deleted) else (Inst_live s, Inst_live s))
      else (pInstance, pInstance))"

section \<open>The table\<close>

text \<open>The body of the loop in \<open>AddTable\<close> that restores the cached entries.\<close>

definition restore_slot ::
  "'d nat_drv \<Rightarrow> u32 \<Rightarrow> nat_table_entry \<Rightarrow> int \<Rightarrow> 'd \<Rightarrow> nat_table_entry \<times> int \<times> 'd" where
  "restore_slot D tbl e c d =
     (if private_ip e \<noteq> 0 then
        (let (ret, hdl, d') = ipa_nat_add_ipv4_rule D tbl (rule_of e) (rule_hdl e) d
         in if ret < 0 then (zero_entry, c - 1, d')
            else (e\<lparr>rule_hdl := hdl, enabled := True\<rparr>, c, d'))
      else (e, c, d))"

definition AddTable :: "'d nat_drv \<Rightarrow> u32 \<Rightarrow> NatApp \<Rightarrow> 'd \<Rightarrow> int \<times> NatApp \<times> 'd" where
  "AddTable D pub_ip s d =
     (let (ret, hdl, d1) = ipa_nat_add_ipv4_tbl D pub_ip (of_nat (length (cache s))) (nat_table_hdl s) d;
          s1 = s\<lparr>nat_table_hdl := hdl\<rparr>
      in if ret \<noteq> 0 then (ret, s1, d1)
         else if pub_ip = pub_ip_addr_pre s1 then
           (let (es, c, d2) = for_cache (restore_slot D hdl) (cache s1) (curCnt s1) d1
            in (0, s1\<lparr>cache := es, curCnt := c, pub_ip_addr := pub_ip\<rparr>, d2))
         else (0, s1\<lparr>pub_ip_addr := pub_ip\<rparr>, d1))"

definition Reset :: "NatApp \<Rightarrow> NatApp" where
  "Reset s = s\<lparr>nat_table_hdl := 0, pub_ip_addr := 0, cache := map (\<lambda>e. e\<lparr>enabled := False\<rparr>) (cache s)\<rparr>"

definition DeleteTable :: "'d nat_drv \<Rightarrow> u32 \<Rightarrow> NatApp \<Rightarrow> 'd \<Rightarrow> int \<times> NatApp \<times> 'd" where
  "DeleteTable D pub_ip s d =
     (if nat_table_hdl s = 0 then (-1, s, d)
      else if pub_ip_addr s \<noteq> pub_ip then (-1, s, d)
      else
        (let (ret, d1) = ipa_nat_del_ipv4_tbl D (nat_table_hdl s) d
         in if ret \<noteq> 0 then (ret, s, d1)
            else (0, Reset (s\<lparr>pub_ip_addr_pre := pub_ip_addr s\<rparr>), d1)))"

definition GetTableHdl :: "u32 \<Rightarrow> NatApp \<Rightarrow> u32" where
  "GetTableHdl in_ip_addr s = (if in_ip_addr = pub_ip_addr s then nat_table_hdl s else -1)"

section \<open>Entries\<close>

text \<open>The comparison of the five key fields, as written in \<open>ChkForDup\<close>, \<open>DeleteEntry\<close> and the
  loops over \<open>temp\<close>.\<close>

definition same_conn :: "nat_table_entry \<Rightarrow> nat_table_entry \<Rightarrow> bool" where
  "same_conn e rule \<longleftrightarrow>
     private_ip e = private_ip rule \<and> target_ip e = target_ip rule \<and>
     private_port e = private_port rule \<and> target_port e = target_port rule \<and>
     protocol e = protocol rule"

text \<open>The test for a free slot in \<open>AddEntry\<close> and \<open>CacheEntry\<close>.\<close>

definition free_slot :: "nat_table_entry \<Rightarrow> bool" where
  "free_slot e \<longleftrightarrow>
     private_ip e = 0 \<and> target_ip e = 0 \<and> private_port e = 0 \<and> target_port e = 0 \<and> protocol e = 0"

definition invalid_conn :: "nat_table_entry \<Rightarrow> bool" where
  "invalid_conn e \<longleftrightarrow>
     private_ip e = 0 \<or> target_ip e = 0 \<or> private_port e = 0 \<or> target_port e = 0 \<or> protocol e = 0"

definition ChkForDup :: "nat_table_entry \<Rightarrow> NatApp \<Rightarrow> bool" where
  "ChkForDup rule s \<longleftrightarrow> first_idx (\<lambda>e. same_conn e rule) (cache s) \<noteq> None"

definition DeleteEntry :: "'d nat_drv \<Rightarrow> nat_table_entry \<Rightarrow> NatApp \<Rightarrow> 'd \<Rightarrow> int \<times> NatApp \<times> 'd" where
  "DeleteEntry D rule s d =
     (case first_idx (\<lambda>e. same_conn e rule) (cache s) of
        None \<Rightarrow> (0, s, d)
      | Some i \<Rightarrow>
          (let d1 = (if enabled (cache s ! i)
                     then snd (ipa_nat_del_ipv4_rule D (nat_table_hdl s) (rule_hdl (cache s ! i)) d)
                     else d)
           in (0, s\<lparr>cache := (cache s)[i := zero_entry], curCnt := curCnt s - 1\<rparr>, d1)))"

definition isAlgPort :: "u8 \<Rightarrow> u16 \<Rightarrow> NatApp \<Rightarrow> bool" where
  "isAlgPort proto port s \<longleftrightarrow>
     first_idx (\<lambda>a. proto = alg_protocol a \<and> port = alg_port a) (pALGPorts s) \<noteq> None"

definition isPwrSaveIf :: "u32 \<Rightarrow> NatApp \<Rightarrow> bool" where
  "isPwrSaveIf ip_addr s \<longleftrightarrow> first_idx (\<lambda>p. 0 \<noteq> p \<and> ip_addr = p) (PwrSaveIfs s) \<noteq> None"

text \<open>The assignments \<open>cache[cnt].x = rule->x\<close> of \<open>AddEntry\<close>; \<open>public_ip\<close> is not among them.\<close>

definition fill_slot :: "nat_table_entry \<Rightarrow> nat_table_entry \<Rightarrow> nat_table_entry" where
  "fill_slot rule e =
     e\<lparr>private_ip := private_ip rule, target_ip := target_ip rule, target_port := target_port rule,
       private_port := private_port rule, protocol := protocol rule, timestamp := 0,
       public_port := public_port rule, dst_nat := dst_nat rule\<rparr>"

definition AddEntry :: "'d nat_drv \<Rightarrow> nat_table_entry \<Rightarrow> NatApp \<Rightarrow> 'd \<Rightarrow> int \<times> NatApp \<times> 'd" where
  "AddEntry D rule s d =
     (if nat_table_hdl s = 0 then (-1, s, d)
      else if isAlgPort (protocol rule) (private_port rule) s \<or> isAlgPort (protocol rule) (target_port rule) s
      then (-1, s, d)
      else if invalid_conn rule then (0, s, d)
      else if \<not> ChkForDup rule s then
        (case first_idx free_slot (cache s) of
           None \<Rightarrow> (-1, s, d)
         | Some i \<Rightarrow>
             if isPwrSaveIf (private_ip rule) s \<or> isPwrSaveIf (target_ip rule) s then
               (0, s\<lparr>cache := (cache s)[i := fill_slot rule ((cache s ! i)\<lparr>enabled := False, rule_hdl := 0\<rparr>)],
                     curCnt := curCnt s + 1\<rparr>, d)
             else
               (let (ret, hdl, d1) = ipa_nat_add_ipv4_rule D (nat_table_hdl s) (rule_of rule)
                                       (rule_hdl (cache s ! i)) d
                in if ret < 0 then (-1, s\<lparr>cache := (cache s)[i := (cache s ! i)\<lparr>rule_hdl := hdl\<rparr>]\<rparr>, d1)
                   else (0, s\<lparr>cache := (cache s)[i := fill_slot rule
                                ((cache s ! i)\<lparr>rule_hdl := hdl, enabled := True\<rparr>)],
                              curCnt := curCnt s + 1\<rparr>, d1)))
      else (-1, s, d))"

definition CacheEntry :: "nat_table_entry \<Rightarrow> NatApp \<Rightarrow> NatApp" where
  "CacheEntry rule s =
     (if invalid_conn rule then s
      else if \<not> ChkForDup rule s then
        (case first_idx free_slot (cache s) of
           None \<Rightarrow> s
         | Some i \<Rightarrow>
             s\<lparr>cache := (cache s)[i := (fill_slot rule ((cache s ! i)\<lparr>enabled := False, rule_hdl := 0\<rparr>))
                          \<lparr>public_ip := public_ip rule\<rparr>],
               curCnt := curCnt s + 1\<rparr>)
      else s)"

section \<open>Time stamps\<close>

definition htonl :: "u32 \<Rightarrow> u32" where
  "htonl x = push_bit 24 (take_bit 8 x) + push_bit 16 (take_bit 8 (drop_bit 8 x)) +
     push_bit 8 (take_bit 8 (drop_bit 16 x)) + drop_bit 24 x"

datatype L4Protocol = TCP | UDP

record natTimeoutUpdate_t =
  src_ipAddr :: u32
  src_port :: u16
  dst_ipAddr :: u32
  dst_port :: u16
  tu_proto :: L4Protocol

definition IPPROTO_UDP :: u8 where "IPPROTO_UDP = 17"

text \<open>\<open>tou\<close>: whether the framework has registered a timeout updater. Result: the entry after the call
  and the calls of \<open>updateTimeout\<close>.\<close>

definition UpdateCTUdpTs ::
  "bool \<Rightarrow> u32 \<Rightarrow> nat_table_entry \<Rightarrow> u32 \<Rightarrow> nat_table_entry \<times> natTimeoutUpdate_t list" where
  "UpdateCTUdpTs tou pub rule new_ts =
     (let proto = (if protocol rule = IPPROTO_UDP then UDP else TCP);
          entry =
            (if \<not> dst_nat rule
             then \<lparr>src_ipAddr = htonl (private_ip rule), src_port = private_port rule,
                   dst_ipAddr = htonl (target_ip rule), dst_port = target_port rule, tu_proto = proto\<rparr>
             else \<lparr>src_ipAddr = htonl (target_ip rule), src_port = target_port rule,
                   dst_ipAddr = htonl pub, dst_port = public_port rule, tu_proto = proto\<rparr>)
      in if \<not> tou then (rule, []) else (rule\<lparr>timestamp := new_ts\<rparr>, [entry]))"

definition Read_TcpUdp_Timeout :: "NatApp \<Rightarrow> NatApp" where
  "Read_TcpUdp_Timeout s = s\<lparr>tcp_timeout := 432000, udp_timeout := 180\<rparr>"

text \<open>The loop of \<open>UpdateUDPTimeStamp\<close>: \<open>read_to\<close> and the calls made so far are carried along.\<close>

fun update_ts_loop ::
  "'d nat_drv \<Rightarrow> bool \<Rightarrow> u32 \<Rightarrow> u32 \<Rightarrow> nat_table_entry list \<Rightarrow> bool \<Rightarrow> 'd \<Rightarrow>
     nat_table_entry list \<times> bool \<times> natTimeoutUpdate_t list \<times> 'd" where
  "update_ts_loop D tou pub tbl [] read_to d = ([], read_to, [], d)"
| "update_ts_loop D tou pub tbl (e # es) read_to d =
     (if enabled e \<and> private_ip e \<noteq> public_ip e then
        (let (ret, ts, d1) = ipa_nat_query_timestamp D tbl (rule_hdl e) 0 d
         in if ret < 0 \<or> timestamp e = ts then
              (let (es', r, us, d2) = update_ts_loop D tou pub tbl es read_to d1 in (e # es', r, us, d2))
            else
              (let (e', u) = UpdateCTUdpTs tou pub e ts;
                   (es', r, us, d2) = update_ts_loop D tou pub tbl es True d1
               in (e' # es', r, u @ us, d2)))
      else (let (es', r, us, d2) = update_ts_loop D tou pub tbl es read_to d in (e # es', r, us, d2)))"

definition UpdateUDPTimeStamp ::
  "'d nat_drv \<Rightarrow> bool \<Rightarrow> NatApp \<Rightarrow> 'd \<Rightarrow> NatApp \<times> natTimeoutUpdate_t list \<times> 'd" where
  "UpdateUDPTimeStamp D tou s d =
     (let (es, r, us, d1) = update_ts_loop D tou (pub_ip_addr s) (nat_table_hdl s) (cache s) False d;
          s1 = (if r then Read_TcpUdp_Timeout s else s)
      in (s1\<lparr>cache := es\<rparr>, us, d1))"

section \<open>Power save\<close>

definition INVALID_IP_ADDR :: u32 where "INVALID_IP_ADDR = 0"

definition suspend_slot ::
  "'d nat_drv \<Rightarrow> u32 \<Rightarrow> u32 \<Rightarrow> nat_table_entry \<Rightarrow> int \<Rightarrow> 'd \<Rightarrow> nat_table_entry \<times> int \<times> 'd" where
  "suspend_slot D tbl client_lan_ip e c d =
     (if private_ip e = client_lan_ip \<and> enabled e then
        (let (ret, d1) = ipa_nat_del_ipv4_rule D tbl (rule_hdl e) d
         in if ret < 0 then (e, c, d1) else (e\<lparr>enabled := False, rule_hdl := 0\<rparr>, c, d1))
      else (e, c, d))"

definition UpdatePwrSaveIf :: "'d nat_drv \<Rightarrow> u32 \<Rightarrow> NatApp \<Rightarrow> 'd \<Rightarrow> int \<times> NatApp \<times> 'd" where
  "UpdatePwrSaveIf D client_lan_ip s d =
     (if client_lan_ip = INVALID_IP_ADDR then (-1, s, d)
      else if first_idx (\<lambda>p. p = client_lan_ip) (PwrSaveIfs s) \<noteq> None then (0, s, d)
      else
        (let ps = (case first_idx (\<lambda>p. p = 0) (PwrSaveIfs s) of
                     None \<Rightarrow> PwrSaveIfs s
                   | Some i \<Rightarrow> (PwrSaveIfs s)[i := client_lan_ip]);
             (es, c, d1) = for_cache (suspend_slot D (nat_table_hdl s) client_lan_ip) (cache s) (curCnt s) d
         in (0, s\<lparr>PwrSaveIfs := ps, cache := es, curCnt := c\<rparr>, d1)))"

text \<open>The loop that clears a client's slot, shared by \<open>ResetPwrSaveIf\<close> and
  \<open>DelEntriesOnClntDiscon\<close>.\<close>

definition clear_pwr_save :: "u32 \<Rightarrow> u32 list \<Rightarrow> u32 list" where
  "clear_pwr_save ip ps = (case first_idx (\<lambda>p. p = ip) ps of None \<Rightarrow> ps | Some i \<Rightarrow> ps[i := 0])"

definition resume_slot ::
  "'d nat_drv \<Rightarrow> u32 \<Rightarrow> u32 \<Rightarrow> nat_table_entry \<Rightarrow> int \<Rightarrow> 'd \<Rightarrow> nat_table_entry \<times> int \<times> 'd" where
  "resume_slot D tbl client_lan_ip e c d =
     (if private_ip e = client_lan_ip \<and> \<not> enabled e then
        (let (ret, hdl, d1) = ipa_nat_add_ipv4_rule D tbl (rule_of e) (rule_hdl e) d
         in if ret < 0 then (zero_entry, c - 1, d1)
            else (e\<lparr>rule_hdl := hdl, enabled := True\<rparr>, c, d1))
      else (e, c, d))"

definition ResetPwrSaveIf :: "'d nat_drv \<Rightarrow> u32 \<Rightarrow> NatApp \<Rightarrow> 'd \<Rightarrow> int \<times> NatApp \<times> 'd" where
  "ResetPwrSaveIf D client_lan_ip s d =
     (if client_lan_ip = INVALID_IP_ADDR then (-1, s, d)
      else
        (let (es, c, d1) = for_cache (resume_slot D (nat_table_hdl s) client_lan_ip) (cache s) (curCnt s) d
         in (-1, s\<lparr>PwrSaveIfs := clear_pwr_save client_lan_ip (PwrSaveIfs s), cache := es, curCnt := c\<rparr>, d1)))"

section \<open>Clients that leave\<close>

definition disable_slot ::
  "'d nat_drv \<Rightarrow> u32 \<Rightarrow> u32 \<Rightarrow> nat_table_entry \<Rightarrow> int \<Rightarrow> 'd \<Rightarrow> nat_table_entry \<times> int \<times> 'd" where
  "disable_slot D tbl ip_addr e c d =
     (if private_ip e = ip_addr \<and> enabled e then
        (let (ret, d1) = ipa_nat_del_ipv4_rule D tbl (rule_hdl e) d
         in if ret < 0 then (e, c, d1) else (e\<lparr>enabled := False\<rparr>, c, d1))
      else (e, c, d))"

definition DelEntriesOnClntDiscon :: "'d nat_drv \<Rightarrow> u32 \<Rightarrow> NatApp \<Rightarrow> 'd \<Rightarrow> int \<times> NatApp \<times> 'd" where
  "DelEntriesOnClntDiscon D ip_addr s d =
     (if ip_addr = INVALID_IP_ADDR then (-1, s, d)
      else
        (let (es, c, d1) = for_cache (disable_slot D (nat_table_hdl s) ip_addr) (cache s) (curCnt s) d
         in (0, s\<lparr>PwrSaveIfs := clear_pwr_save ip_addr (PwrSaveIfs s), cache := es, curCnt := c\<rparr>, d1)))"

definition drop_slot ::
  "'d nat_drv \<Rightarrow> u32 \<Rightarrow> u32 \<Rightarrow> nat_table_entry \<Rightarrow> int \<Rightarrow> 'd \<Rightarrow> nat_table_entry \<times> int \<times> 'd" where
  "drop_slot D tbl ip_addr e c d =
     (if target_ip e = ip_addr then
        (if enabled e then
           (let (ret, d1) = ipa_nat_del_ipv4_rule D tbl (rule_hdl e) d
            in if ret < 0 then (e, c, d1) else (zero_entry, c - 1, d1))
         else (zero_entry, c - 1, d))
      else (e, c, d))"

definition DelEntriesOnSTAClntDiscon :: "'d nat_drv \<Rightarrow> u32 \<Rightarrow> NatApp \<Rightarrow> 'd \<Rightarrow> int \<times> NatApp \<times> 'd" where
  "DelEntriesOnSTAClntDiscon D ip_addr s d =
     (if ip_addr = INVALID_IP_ADDR then (-1, s, d)
      else
        (let (es, c, d1) = for_cache (drop_slot D (nat_table_hdl s) ip_addr) (cache s) (curCnt s) d
         in (0, s\<lparr>cache := es, curCnt := c\<rparr>, d1)))"

section \<open>Connections that wait for their client\<close>

definition AddTempEntry :: "nat_table_entry \<Rightarrow> NatApp \<Rightarrow> NatApp" where
  "AddTempEntry new_entry s =
     (if isAlgPort (protocol new_entry) (private_port new_entry) s \<or>
         isAlgPort (protocol new_entry) (target_port new_entry) s then s
      else if ChkForDup new_entry s then s
      else if first_idx (\<lambda>e. same_conn e new_entry) (temp s) \<noteq> None then s
      else (case first_idx (\<lambda>e. private_ip e = 0 \<and> target_ip e = 0) (temp s) of
              None \<Rightarrow> s
            | Some i \<Rightarrow> s\<lparr>temp := (temp s)[i := new_entry]\<rparr>))"

definition DeleteTempEntry :: "nat_table_entry \<Rightarrow> NatApp \<Rightarrow> NatApp" where
  "DeleteTempEntry entry s =
     (case first_idx (\<lambda>e. same_conn e entry) (temp s) of
        None \<Rightarrow> s
      | Some i \<Rightarrow> s\<lparr>temp := (temp s)[i := zero_entry]\<rparr>)"

text \<open>One round of the loop in \<open>FlushTempEntries\<close>, for the slot \<open>temp[cnt]\<close> with \<open>cnt = i\<close>.\<close>

definition flush_slot ::
  "'d nat_drv \<Rightarrow> u32 \<Rightarrow> bool \<Rightarrow> bool \<Rightarrow> nat \<Rightarrow> NatApp \<times> 'd \<Rightarrow> NatApp \<times> 'd" where
  "flush_slot D ip_addr isAdd isDummy i sd =
     (let (s, d) = sd; t = temp s ! i
      in if private_ip t = ip_addr \<or> target_ip t = ip_addr then
           (if isAdd \<and> public_ip t = pub_ip_addr s then
              (let t1 = (if isDummy then t\<lparr>private_ip := public_ip t, private_port := public_port t\<rparr> else t);
                   s1 = s\<lparr>temp := (temp s)[i := t1]\<rparr>;
                   (ret, s2, d2) = AddEntry D t1 s1 d
               in if ret \<noteq> 0 then (s2, d2)
                  else (s2\<lparr>temp := (temp s2)[i := zero_entry]\<rparr>, d2))
            else (s\<lparr>temp := (temp s)[i := zero_entry]\<rparr>, d))
         else (s, d))"

definition FlushTempEntries ::
  "'d nat_drv \<Rightarrow> u32 \<Rightarrow> bool \<Rightarrow> bool \<Rightarrow> NatApp \<Rightarrow> 'd \<Rightarrow> NatApp \<times> 'd" where
  "FlushTempEntries D ip_addr isAdd isDummy s d =
     fold (flush_slot D ip_addr isAdd isDummy) [0..<MAX_TEMP_ENTRIES] (s, d)"

section \<open>The invariant\<close>

abbreviation used_slot :: "nat_table_entry \<Rightarrow> bool" where
  "used_slot e \<equiv> \<not> free_slot e"

definition conn_key :: "nat_table_entry \<Rightarrow> u32 \<times> u32 \<times> u16 \<times> u16 \<times> u8" where
  "conn_key e = (private_ip e, target_ip e, private_port e, target_port e, protocol e)"

text \<open>A slot is either all zero (but for a handle that a failed insertion left behind) or holds a
  complete connection.\<close>

definition slot_ok :: "nat_table_entry \<Rightarrow> bool" where
  "slot_ok e \<longleftrightarrow>
     (if free_slot e
      then public_ip e = 0 \<and> public_port e = 0 \<and> timestamp e = 0 \<and> \<not> dst_nat e \<and> \<not> enabled e
      else \<not> invalid_conn e)"

definition nat_inv :: "NatApp \<Rightarrow> bool" where
  "nat_inv s \<longleftrightarrow>
     curCnt s = cnt used_slot (cache s) \<and> distinct_on used_slot conn_key (cache s) \<and>
     list_all slot_ok (cache s) \<and> length (temp s) = MAX_TEMP_ENTRIES \<and>
     length (PwrSaveIfs s) = IPA_MAX_NUM_WIFI_CLIENTS"

text \<open>What the body of a loop over the cache may do to a slot.\<close>

definition slot_kept :: "nat_table_entry \<Rightarrow> nat_table_entry \<Rightarrow> bool" where
  "slot_kept e e' \<longleftrightarrow> slot_ok e' \<and> (used_slot e' \<longrightarrow> used_slot e \<and> conn_key e' = conn_key e)"

definition slot_pres ::
  "(nat_table_entry \<Rightarrow> int \<Rightarrow> 'd \<Rightarrow> nat_table_entry \<times> int \<times> 'd) \<Rightarrow> bool" where
  "slot_pres body \<longleftrightarrow>
     (\<forall>e c d e' c' d'. slot_ok e \<longrightarrow> body e c d = (e', c', d') \<longrightarrow>
        slot_kept e e' \<and> c' = c - (if used_slot e \<and> free_slot e' then 1 else 0))"

lemma zero_entry_fields [simp]:
  "public_ip zero_entry = 0" "public_port zero_entry = 0" "timestamp zero_entry = 0"
  "private_ip zero_entry = 0" "target_ip zero_entry = 0" "\<not> dst_nat zero_entry" "rule_hdl zero_entry = 0"
  by (simp_all add: zero_entry_def)

lemma slot_presD:
  "slot_pres body \<Longrightarrow> slot_ok e \<Longrightarrow> body e c d = (e', c', d') \<Longrightarrow>
     slot_kept e e' \<and> c' = c - (if used_slot e \<and> free_slot e' then 1 else 0)"
  unfolding slot_pres_def by blast

lemma free_slot_zero [simp]: "free_slot zero_entry" "slot_ok zero_entry" "\<not> enabled zero_entry"
  by (simp_all add: free_slot_def slot_ok_def zero_entry_def)

lemma same_conn_key: "same_conn e r \<longleftrightarrow> conn_key e = conn_key r"
  by (simp add: same_conn_def conn_key_def)

lemma free_slot_key: "free_slot e \<longleftrightarrow> conn_key e = (0, 0, 0, 0, 0)"
  by (simp add: free_slot_def conn_key_def)

lemma slot_flags [slot_simps]:
  "free_slot (e\<lparr>enabled := b\<rparr>) = free_slot e" "free_slot (e\<lparr>rule_hdl := h\<rparr>) = free_slot e"
  "free_slot (e\<lparr>timestamp := ts\<rparr>) = free_slot e"
  "invalid_conn (e\<lparr>enabled := b\<rparr>) = invalid_conn e" "invalid_conn (e\<lparr>rule_hdl := h\<rparr>) = invalid_conn e"
  "invalid_conn (e\<lparr>timestamp := ts\<rparr>) = invalid_conn e"
  "conn_key (e\<lparr>enabled := b\<rparr>) = conn_key e" "conn_key (e\<lparr>rule_hdl := h\<rparr>) = conn_key e"
  "conn_key (e\<lparr>timestamp := ts\<rparr>) = conn_key e"
  by (simp_all add: free_slot_def conn_key_def invalid_conn_def)

lemma used_slotI [slot_simps]:
  "private_ip e \<noteq> 0 \<Longrightarrow> used_slot e" "target_ip e \<noteq> 0 \<Longrightarrow> used_slot e"
  by (simp_all add: free_slot_def)

lemma slot_ok_enabled: "slot_ok e \<Longrightarrow> enabled e \<Longrightarrow> used_slot e"
  by (auto simp: slot_ok_def split: if_splits)

lemma for_cache_kept:
  assumes "slot_pres body"
  shows "for_cache body es c d = (es', c', d') \<Longrightarrow> list_all slot_ok es \<Longrightarrow>
    list_all2 slot_kept es es' \<and> c' - cnt used_slot es' = c - cnt used_slot es"
proof (induction es arbitrary: c d es' c' d')
  case Nil
  then show ?case by simp
next
  case (Cons e es)
  obtain e1 c1 d1 where b: "body e c d = (e1, c1, d1)" by (cases "body e c d")
  obtain es1 c2 d2 where r: "for_cache body es c1 d1 = (es1, c2, d2)" by (cases "for_cache body es c1 d1")
  from Cons.prems b r have out: "es' = e1 # es1" "c' = c2" by auto
  from Cons.prems(2) have "slot_kept e e1 \<and> c1 = c - (if used_slot e \<and> free_slot e1 then 1 else 0)"
    by (intro slot_presD [OF assms _ b]) simp
  with Cons.IH [OF r] Cons.prems(2) out show ?case by (auto simp: slot_kept_def)
qed

lemma nat_inv_for_cache:
  assumes "nat_inv s" and "slot_pres body" and "for_cache body (cache s) (curCnt s) d = (es, c, d')"
    and "cache s' = es" "curCnt s' = c" "temp s' = temp s" "length (PwrSaveIfs s') = length (PwrSaveIfs s)"
  shows "nat_inv s'"
proof -
  from for_cache_kept [OF assms(2,3)] assms(1)
  have k: "list_all2 slot_kept (cache s) es" "c = cnt used_slot es" by (auto simp: nat_inv_def)
  then have "distinct_on used_slot conn_key es"
    using assms(1) distinct_on_all2 [OF list_all2_mono [OF k(1)], of used_slot conn_key]
    by (simp add: nat_inv_def slot_kept_def)
  moreover have "list_all slot_ok es"
    using k(1) by (auto simp: list_all2_conv_all_nth list_all_length slot_kept_def)
  ultimately show ?thesis using assms k by (simp add: nat_inv_def)
qed

lemma slot_pres_suspend: "slot_pres (suspend_slot D tbl ip)"
  by (auto simp: slot_pres_def slot_kept_def suspend_slot_def slot_ok_def slot_simps split: prod.splits if_splits)

lemma slot_pres_disable: "slot_pres (disable_slot D tbl ip)"
  by (auto simp: slot_pres_def slot_kept_def disable_slot_def slot_ok_def slot_simps split: prod.splits if_splits)

lemma slot_pres_restore: "slot_pres (restore_slot D tbl)"
  by (auto simp: slot_pres_def slot_kept_def restore_slot_def slot_ok_def slot_simps split: prod.splits if_splits)

lemma slot_pres_resume: "ip \<noteq> 0 \<Longrightarrow> slot_pres (resume_slot D tbl ip)"
  by (auto simp: slot_pres_def slot_kept_def resume_slot_def slot_ok_def slot_simps split: prod.splits if_splits)

lemma slot_pres_drop: "ip \<noteq> 0 \<Longrightarrow> slot_pres (drop_slot D tbl ip)"
  by (auto simp: slot_pres_def slot_kept_def drop_slot_def slot_ok_def slot_simps split: prod.splits if_splits)

section \<open>Every operation keeps the invariant\<close>

lemma AddTable_inv: "nat_inv s \<Longrightarrow> AddTable D ip s d = (r, s', d') \<Longrightarrow> nat_inv s'"
  by (auto simp: AddTable_def Let_def split: prod.splits if_splits
      intro: nat_inv_for_cache [OF _ slot_pres_restore]) (auto simp: nat_inv_def)

lemma Reset_inv: "nat_inv s \<Longrightarrow> nat_inv (Reset s)"
  by (auto simp: nat_inv_def Reset_def list_all_length slot_ok_def slot_simps cnt_def filter_map o_def
      intro: distinct_on_map split: if_splits)

lemma DeleteTable_inv: "nat_inv s \<Longrightarrow> DeleteTable D ip s d = (r, s', d') \<Longrightarrow> nat_inv s'"
  by (auto simp: DeleteTable_def Let_def split: prod.splits if_splits intro!: Reset_inv)
    (simp add: nat_inv_def)

lemma UpdatePwrSaveIf_inv: "nat_inv s \<Longrightarrow> UpdatePwrSaveIf D ip s d = (r, s', d') \<Longrightarrow> nat_inv s'"
  by (auto simp: UpdatePwrSaveIf_def Let_def split: prod.splits if_splits option.splits
      intro: nat_inv_for_cache [OF _ slot_pres_suspend])

lemma length_clear_pwr_save [simp]: "length (clear_pwr_save ip ps) = length ps"
  by (simp add: clear_pwr_save_def split: option.split)

lemma ResetPwrSaveIf_inv: "nat_inv s \<Longrightarrow> ResetPwrSaveIf D ip s d = (r, s', d') \<Longrightarrow> nat_inv s'"
  by (auto simp: ResetPwrSaveIf_def INVALID_IP_ADDR_def Let_def split: prod.splits if_splits
      intro: nat_inv_for_cache [OF _ slot_pres_resume])

lemma DelEntriesOnClntDiscon_inv:
  "nat_inv s \<Longrightarrow> DelEntriesOnClntDiscon D ip s d = (r, s', d') \<Longrightarrow> nat_inv s'"
  by (auto simp: DelEntriesOnClntDiscon_def Let_def split: prod.splits if_splits
      intro: nat_inv_for_cache [OF _ slot_pres_disable])

lemma DelEntriesOnSTAClntDiscon_inv:
  "nat_inv s \<Longrightarrow> DelEntriesOnSTAClntDiscon D ip s d = (r, s', d') \<Longrightarrow> nat_inv s'"
  by (auto simp: DelEntriesOnSTAClntDiscon_def INVALID_IP_ADDR_def Let_def split: prod.splits if_splits
      intro: nat_inv_for_cache [OF _ slot_pres_drop])

text \<open>Filling the first free slot, emptying a used one, and leaving a handle in a free one.\<close>

lemma nat_inv_fill:
  assumes "nat_inv s" and "i < length (cache s)" and "free_slot (cache s ! i)"
    and "\<not> invalid_conn e" and "first_idx (\<lambda>x. same_conn x e) (cache s) = None"
  shows "nat_inv (s\<lparr>cache := (cache s)[i := e], curCnt := curCnt s + 1\<rparr>)"
proof -
  have "used_slot e" using assms(4) by (auto simp: free_slot_def invalid_conn_def)
  with assms show ?thesis
    by (auto simp: nat_inv_def slot_simps slot_ok_def same_conn_key list_all_length nth_list_update
        intro: distinct_on_fill)
qed

lemma nat_inv_clear:
  "nat_inv s \<Longrightarrow> i < length (cache s) \<Longrightarrow> used_slot (cache s ! i) \<Longrightarrow>
     nat_inv (s\<lparr>cache := (cache s)[i := zero_entry], curCnt := curCnt s - 1\<rparr>)"
  by (auto simp: nat_inv_def slot_simps list_all_length nth_list_update)

lemma nat_inv_hdl:
  "nat_inv s \<Longrightarrow> i < length (cache s) \<Longrightarrow> free_slot (cache s ! i) \<Longrightarrow>
     nat_inv (s\<lparr>cache := (cache s)[i := (cache s ! i)\<lparr>rule_hdl := h\<rparr>]\<rparr>)"
  by (auto simp: nat_inv_def slot_simps list_all_length nth_list_update slot_ok_def split: if_splits)

lemma conn_key_fill [simp]: "conn_key (fill_slot r e) = conn_key r" "invalid_conn (fill_slot r e) = invalid_conn r"
  "same_conn x (fill_slot r e) = same_conn x r"
  by (simp_all add: fill_slot_def conn_key_def invalid_conn_def same_conn_def)

lemma AddEntry_inv: "nat_inv s \<Longrightarrow> AddEntry D rule s d = (r, s', d') \<Longrightarrow> nat_inv s'"
  by (auto simp: AddEntry_def ChkForDup_def Let_def split: prod.splits if_splits option.splits
      intro!: nat_inv_fill nat_inv_hdl dest: first_idx_SomeD)

lemma CacheEntry_inv: "nat_inv s \<Longrightarrow> nat_inv (CacheEntry rule s)"
  by (auto simp: CacheEntry_def ChkForDup_def split: option.splits
      intro!: nat_inv_fill dest: first_idx_SomeD simp: same_conn_def invalid_conn_def fill_slot_def)

lemma DeleteEntry_inv:
  assumes "nat_inv s" and "used_slot rule" and "DeleteEntry D rule s d = (r, s', d')"
  shows "nat_inv s'"
  using assms
  by (auto simp: DeleteEntry_def Let_def same_conn_key free_slot_key split: option.splits
      intro!: nat_inv_clear dest!: first_idx_SomeD)

text \<open>A round of \<open>FlushTempEntries\<close> works on the invariant like \<open>AddEntry\<close>.\<close>

lemma nat_inv_temp [simp]: "nat_inv (s\<lparr>temp := (temp s)[i := t]\<rparr>) = nat_inv s"
  by (simp add: nat_inv_def)

lemma flush_slot_inv: "nat_inv (fst sd) \<Longrightarrow> nat_inv (fst (flush_slot D ip isAdd isDummy i sd))"
  by (cases sd) (auto simp: flush_slot_def Let_def split: prod.splits if_splits dest!: AddEntry_inv [rotated])

lemma FlushTempEntries_inv:
  assumes "nat_inv s" shows "nat_inv (fst (FlushTempEntries D ip isAdd isDummy s d))"
proof -
  have "nat_inv (fst (fold (flush_slot D ip isAdd isDummy) is sd))" if "nat_inv (fst sd)" for "is" sd
    using that by (induction "is" arbitrary: sd) (simp_all add: flush_slot_inv)
  with assms show ?thesis by (simp add: FlushTempEntries_def)
qed

lemma AddTempEntry_inv: "nat_inv s \<Longrightarrow> nat_inv (AddTempEntry e s)"
  by (simp add: AddTempEntry_def split: option.split)

lemma DeleteTempEntry_inv: "nat_inv s \<Longrightarrow> nat_inv (DeleteTempEntry e s)"
  by (simp add: DeleteTempEntry_def split: option.split)

text \<open>The time-stamp loop changes nothing but time stamps, and only of enabled entries.\<close>

lemma update_ts_loop_map:
  "update_ts_loop D tou pub tbl es r d = (es', r', us, d') \<Longrightarrow>
     list_all2 (\<lambda>e e'. e' = e \<or> enabled e \<and> (\<exists>ts. e' = e\<lparr>timestamp := ts\<rparr>)) es es'"
proof (induction es arbitrary: r d es' r' us d')
  case Nil
  then show ?case by simp
next
  case (Cons e es)
  then show ?case
    by (auto simp: Let_def UpdateCTUdpTs_def split: prod.splits if_splits)
qed

lemma UpdateUDPTimeStamp_inv:
  assumes "nat_inv s" and "UpdateUDPTimeStamp D tou s d = (s', us, d')"
  shows "nat_inv s'"
proof -
  obtain es r where l: "update_ts_loop D tou (pub_ip_addr s) (nat_table_hdl s) (cache s) False d = (es, r, us, d')"
    and s': "s' = (if r then Read_TcpUdp_Timeout s else s)\<lparr>cache := es\<rparr>"
    using assms(2) by (auto simp: UpdateUDPTimeStamp_def Let_def split: prod.splits)
  have "list_all2 (\<lambda>e e'. slot_ok e \<longrightarrow> slot_ok e' \<and> free_slot e' = free_slot e \<and> conn_key e' = conn_key e)
      (cache s) es"
    by (rule list_all2_mono [OF update_ts_loop_map [OF l]])
      (auto simp: slot_simps slot_ok_def split: if_splits)
  moreover have "list_all slot_ok (cache s)" using assms(1) by (simp add: nat_inv_def)
  ultimately have k: "list_all2 (\<lambda>e e'. slot_ok e' \<and> free_slot e' = free_slot e \<and> conn_key e' = conn_key e)
      (cache s) es"
    by (auto simp: list_all2_conv_all_nth list_all_length)
  then have "cnt used_slot es = cnt used_slot (cache s)"
    by (induction rule: list_all2_induct) auto
  moreover have "list_all slot_ok es"
    using k by (auto simp: list_all2_conv_all_nth list_all_length)
  moreover have "distinct_on used_slot conn_key es"
    using assms(1) distinct_on_all2 [OF list_all2_mono [OF k], of used_slot conn_key]
    by (simp add: nat_inv_def)
  ultimately show ?thesis using assms(1) s' by (auto simp: nat_inv_def Read_TcpUdp_Timeout_def)
qed

section \<open>The operations as one component\<close>

datatype nat_op =
    Add_table u32 | Delete_table u32 | Add_entry nat_table_entry | Delete_entry nat_table_entry
  | Cache_entry nat_table_entry | Update_ts bool | Pwr_save u32 | Pwr_reset u32
  | Clnt_discon u32 | Sta_discon u32 | Add_temp nat_table_entry | Delete_temp nat_table_entry
  | Flush_temp u32 bool bool

fun nat_exec :: "'d nat_drv \<Rightarrow> NatApp \<times> 'd \<Rightarrow> nat_op \<Rightarrow> NatApp \<times> 'd" where
  "nat_exec D (s, d) (Add_table ip) = snd (AddTable D ip s d)"
| "nat_exec D (s, d) (Delete_table ip) = snd (DeleteTable D ip s d)"
| "nat_exec D (s, d) (Add_entry e) = snd (AddEntry D e s d)"
| "nat_exec D (s, d) (Delete_entry e) = snd (DeleteEntry D e s d)"
| "nat_exec D (s, d) (Cache_entry e) = (CacheEntry e s, d)"
| "nat_exec D (s, d) (Update_ts tou) = (let (s', us, d') = UpdateUDPTimeStamp D tou s d in (s', d'))"
| "nat_exec D (s, d) (Pwr_save ip) = snd (UpdatePwrSaveIf D ip s d)"
| "nat_exec D (s, d) (Pwr_reset ip) = snd (ResetPwrSaveIf D ip s d)"
| "nat_exec D (s, d) (Clnt_discon ip) = snd (DelEntriesOnClntDiscon D ip s d)"
| "nat_exec D (s, d) (Sta_discon ip) = snd (DelEntriesOnSTAClntDiscon D ip s d)"
| "nat_exec D (s, d) (Add_temp e) = (AddTempEntry e s, d)"
| "nat_exec D (s, d) (Delete_temp e) = (DeleteTempEntry e s, d)"
| "nat_exec D (s, d) (Flush_temp ip isAdd isDummy) = FlushTempEntries D ip isAdd isDummy s d"

text \<open>The only request that is restricted: a connection to delete has some key field set.\<close>

fun nat_legal :: "NatApp \<times> 'd \<Rightarrow> nat_op \<Rightarrow> bool" where
  "nat_legal sd (Delete_entry e) = used_slot e"
| "nat_legal sd x = True"

lemma triple: "x = (fst x, fst (snd x), snd (snd x))"
  by simp

lemmas nat_inv_ops =
  AddTable_inv [OF _ triple] DeleteTable_inv [OF _ triple] AddEntry_inv [OF _ triple]
  DeleteEntry_inv [OF _ _ triple] UpdateUDPTimeStamp_inv [OF _ triple] UpdatePwrSaveIf_inv [OF _ triple]
  ResetPwrSaveIf_inv [OF _ triple] DelEntriesOnClntDiscon_inv [OF _ triple]
  DelEntriesOnSTAClntDiscon_inv [OF _ triple] CacheEntry_inv AddTempEntry_inv DeleteTempEntry_inv
  FlushTempEntries_inv

lemma nat_exec_inv: "nat_inv (fst sd) \<Longrightarrow> nat_legal sd x \<Longrightarrow> nat_inv (fst (nat_exec D sd x))"
  by (cases sd; cases x) (simp_all add: nat_inv_ops case_prod_unfold Let_def)

interpretation natc: safe_component "\<lambda>sd x. Some (nat_exec D sd x)" "\<lambda>sd. nat_inv (fst sd)" nat_legal
  for D :: "'d nat_drv"
  by unfold_locales (metis nat_exec_inv option.inject, simp)

section \<open>The cache as a map of connections\<close>

abbreviation conn_map :: "NatApp \<Rightarrow> (u32 \<times> u32 \<times> u16 \<times> u16 \<times> u8) \<rightharpoonup> nat_table_entry" where
  "conn_map s \<equiv> slot_map used_slot conn_key (cache s)"

lemma nat_inv_distinct: "nat_inv s \<Longrightarrow> distinct_on used_slot conn_key (cache s)"
  by (simp add: nat_inv_def)

lemma ChkForDup_conn_map: "used_slot rule \<Longrightarrow> ChkForDup rule s \<longleftrightarrow> conn_key rule \<in> dom (conn_map s)"
  by (auto simp: ChkForDup_def same_conn_key slot_map_dom free_slot_key image_iff)

lemma free_slot_iff: "nat_inv s \<Longrightarrow> (\<exists>i. first_idx free_slot (cache s) = Some i) \<longleftrightarrow> curCnt s < int (length (cache s))"
proof -
  have "(\<exists>i. first_idx free_slot es = Some i) \<longleftrightarrow> cnt used_slot es < int (length es)" for es
  proof (induction es)
    case (Cons e es)
    then show ?case using cnt_le_length [of used_slot es] by (cases "free_slot e") auto
  qed simp
  then show "nat_inv s \<Longrightarrow> ?thesis" by (simp add: nat_inv_def)
qed

lemma valid_used: "\<not> invalid_conn e \<Longrightarrow> used_slot e"
  by (auto simp: invalid_conn_def free_slot_def)

text \<open>The slot that \<open>AddEntry\<close> writes: nothing is left in it from its previous owner.\<close>

lemma fill_free_slot:
  "slot_ok e \<Longrightarrow> free_slot e \<Longrightarrow>
     fill_slot r (e\<lparr>rule_hdl := h, enabled := b\<rparr>) = fill_slot r (zero_entry\<lparr>rule_hdl := h, enabled := b\<rparr>)"
  "slot_ok e \<Longrightarrow> free_slot e \<Longrightarrow>
     fill_slot r (e\<lparr>enabled := b, rule_hdl := h\<rparr>) = fill_slot r (zero_entry\<lparr>rule_hdl := h, enabled := b\<rparr>)"
  by (simp_all add: fill_slot_def slot_ok_def zero_entry_def)

lemma conn_map_fill:
  assumes "nat_inv s" and "first_idx free_slot (cache s) = Some i" and "used_slot e"
    and "conn_key e \<notin> dom (conn_map s)"
  shows "slot_map used_slot conn_key ((cache s)[i := e]) = (conn_map s)(conn_key e \<mapsto> e)"
  using assms first_idx_SomeD [OF assms(2)] by (intro slot_map_fill) (auto simp: nat_inv_def)

lemma conn_map_hdl:
  assumes "first_idx free_slot (cache s) = Some i"
  shows "slot_map used_slot conn_key ((cache s)[i := (cache s ! i)\<lparr>rule_hdl := h\<rparr>]) = conn_map s"
  using first_idx_SomeD [OF assms] by (intro slot_map_skip) (auto simp: slot_simps)

text \<open>The slot that \<open>AddEntry\<close> takes when there is room.\<close>

lemma AddEntry_slot:
  assumes "nat_inv s" and "\<not> invalid_conn rule" and "conn_key rule \<notin> dom (conn_map s)"
    and "curCnt s < int (length (cache s))"
  obtains i where "first_idx free_slot (cache s) = Some i" "slot_ok (cache s ! i)" "free_slot (cache s ! i)"
    "\<And>e. slot_map used_slot conn_key ((cache s)[i := fill_slot rule e]) =
       (conn_map s)(conn_key rule \<mapsto> fill_slot rule e)"
proof -
  from free_slot_iff [OF assms(1)] assms(4) obtain i where i: "first_idx free_slot (cache s) = Some i" by auto
  from first_idx_SomeD [OF i] assms(1) have "slot_ok (cache s ! i)" "free_slot (cache s ! i)"
    by (auto simp: nat_inv_def list_all_length)
  moreover have "slot_map used_slot conn_key ((cache s)[i := fill_slot rule e]) =
       (conn_map s)(conn_key rule \<mapsto> fill_slot rule e)" for e
    using conn_map_fill [OF assms(1) i, of "fill_slot rule e"] assms(2,3) by (simp add: valid_used)
  ultimately show thesis using that i by blast
qed

text \<open>All outcomes of \<open>AddEntry\<close>, with its conditions restated on the map.\<close>

lemma AddEntry_cases:
  assumes "nat_inv s" and "AddEntry D rule s d = (ret, s', d')"
    and alg: "alg \<longleftrightarrow> isAlgPort (protocol rule) (private_port rule) s \<or> isAlgPort (protocol rule) (target_port rule) s"
    and pwr: "pwr \<longleftrightarrow> isPwrSaveIf (private_ip rule) s \<or> isPwrSaveIf (target_ip rule) s"
    and can: "can \<longleftrightarrow> nat_table_hdl s \<noteq> 0 \<and> \<not> alg \<and> \<not> invalid_conn rule \<and>
      conn_key rule \<notin> dom (conn_map s) \<and> curCnt s < int (length (cache s))"
  shows "\<not> can \<Longrightarrow> s' = s \<and> d' = d \<and> (ret = 0 \<longleftrightarrow> nat_table_hdl s \<noteq> 0 \<and> \<not> alg \<and> invalid_conn rule)"
    and "can \<Longrightarrow> pwr \<Longrightarrow> ret = 0 \<and> d' = d \<and> curCnt s' = curCnt s + 1 \<and>
      conn_map s' = (conn_map s)(conn_key rule \<mapsto> fill_slot rule zero_entry)"
    and "can \<Longrightarrow> \<not> pwr \<Longrightarrow> \<exists>old r h.
      ipa_nat_add_ipv4_rule D (nat_table_hdl s) (rule_of rule) old d = (r, h, d') \<and>
      (if r < 0 then ret = -1 \<and> curCnt s' = curCnt s \<and> conn_map s' = conn_map s
       else ret = 0 \<and> curCnt s' = curCnt s + 1 \<and> conn_map s' =
         (conn_map s)(conn_key rule \<mapsto> fill_slot rule (zero_entry\<lparr>rule_hdl := h, enabled := True\<rparr>)))"
proof -
  have dup: "\<not> invalid_conn rule \<Longrightarrow> ChkForDup rule s \<longleftrightarrow> conn_key rule \<in> dom (conn_map s)"
    by (simp add: ChkForDup_conn_map valid_used)
  note fi = free_slot_iff [OF assms(1)]
  show "s' = s \<and> d' = d \<and> (ret = 0 \<longleftrightarrow> nat_table_hdl s \<noteq> 0 \<and> \<not> alg \<and> invalid_conn rule)" if "\<not> can"
    using assms(2) that dup fi unfolding AddEntry_def can alg
    by (auto split: if_splits option.splits simp del: first_idx_None)
  have zero: "zero_entry\<lparr>rule_hdl := 0, enabled := False\<rparr> = zero_entry" by (simp add: zero_entry_def)
  show "ret = 0 \<and> d' = d \<and> curCnt s' = curCnt s + 1 \<and>
      conn_map s' = (conn_map s)(conn_key rule \<mapsto> fill_slot rule zero_entry)" if c: "can" "pwr"
  proof -
    obtain i where i: "first_idx free_slot (cache s) = Some i" "slot_ok (cache s ! i)"
      "free_slot (cache s ! i)" "\<And>e. slot_map used_slot conn_key ((cache s)[i := fill_slot rule e]) =
        (conn_map s)(conn_key rule \<mapsto> fill_slot rule e)"
      using AddEntry_slot [OF assms(1)] c(1) unfolding can by blast
    moreover from c dup have "nat_table_hdl s \<noteq> 0" "\<not> isAlgPort (protocol rule) (private_port rule) s"
      "\<not> isAlgPort (protocol rule) (target_port rule) s" "\<not> invalid_conn rule" "\<not> ChkForDup rule s"
      "isPwrSaveIf (private_ip rule) s \<or> isPwrSaveIf (target_ip rule) s"
      by (auto simp: can alg pwr)
    ultimately have "AddEntry D rule s d = (0, s\<lparr>cache := (cache s)[i := fill_slot rule zero_entry],
        curCnt := curCnt s + 1\<rparr>, d)"
      using fill_free_slot(2) [of "cache s ! i" rule 0 False] by (simp add: AddEntry_def zero)
    with assms(2) i show ?thesis by auto
  qed
  show "\<exists>old r h. ipa_nat_add_ipv4_rule D (nat_table_hdl s) (rule_of rule) old d = (r, h, d') \<and>
      (if r < 0 then ret = -1 \<and> curCnt s' = curCnt s \<and> conn_map s' = conn_map s
       else ret = 0 \<and> curCnt s' = curCnt s + 1 \<and> conn_map s' =
         (conn_map s)(conn_key rule \<mapsto> fill_slot rule (zero_entry\<lparr>rule_hdl := h, enabled := True\<rparr>)))"
    if c: "can" "\<not> pwr"
  proof -
    obtain i where i: "first_idx free_slot (cache s) = Some i" "slot_ok (cache s ! i)"
      "free_slot (cache s ! i)" "\<And>e. slot_map used_slot conn_key ((cache s)[i := fill_slot rule e]) =
        (conn_map s)(conn_key rule \<mapsto> fill_slot rule e)"
      using AddEntry_slot [OF assms(1)] c(1) unfolding can by blast
    obtain r h d1 where drv: "ipa_nat_add_ipv4_rule D (nat_table_hdl s) (rule_of rule) (rule_hdl (cache s ! i)) d = (r, h, d1)"
      by (cases "ipa_nat_add_ipv4_rule D (nat_table_hdl s) (rule_of rule) (rule_hdl (cache s ! i)) d")
    from c dup have go: "nat_table_hdl s \<noteq> 0" "\<not> isAlgPort (protocol rule) (private_port rule) s"
      "\<not> isAlgPort (protocol rule) (target_port rule) s" "\<not> invalid_conn rule" "\<not> ChkForDup rule s"
      "\<not> isPwrSaveIf (private_ip rule) s" "\<not> isPwrSaveIf (target_ip rule) s"
      by (auto simp: can alg pwr)
    have "AddEntry D rule s d = (if r < 0 then (-1, s\<lparr>cache := (cache s)[i := (cache s ! i)\<lparr>rule_hdl := h\<rparr>]\<rparr>, d1)
       else (0, s\<lparr>cache := (cache s)[i := fill_slot rule (zero_entry\<lparr>rule_hdl := h, enabled := True\<rparr>)],
                  curCnt := curCnt s + 1\<rparr>, d1))"
      using go drv i(1) fill_free_slot(1) [OF i(2,3)] by (simp add: AddEntry_def)
    then have "d' = d1 \<and> (if r < 0 then ret = -1 \<and> curCnt s' = curCnt s \<and> conn_map s' = conn_map s
       else ret = 0 \<and> curCnt s' = curCnt s + 1 \<and> conn_map s' =
         (conn_map s)(conn_key rule \<mapsto> fill_slot rule (zero_entry\<lparr>rule_hdl := h, enabled := True\<rparr>)))"
      using assms(2) i(4) conn_map_hdl [OF i(1)] by (cases "r < 0") auto
    with drv show ?thesis by blast
  qed
qed

lemma DeleteEntry_conn_map:
  assumes "nat_inv s" and "used_slot rule" and "DeleteEntry D rule s d = (ret, s', d')"
  shows "ret = 0" and "conn_map s' = (conn_map s)(conn_key rule := None)"
    and "curCnt s' = curCnt s - (if conn_key rule \<in> dom (conn_map s) then 1 else 0)"
    and "d' = (case conn_map s (conn_key rule) of
           Some e \<Rightarrow> if enabled e then snd (ipa_nat_del_ipv4_rule D (nat_table_hdl s) (rule_hdl e) d) else d
         | None \<Rightarrow> d)"
    and "nat_table_hdl s' = nat_table_hdl s"
proof -
  have "ret = 0 \<and> conn_map s' = (conn_map s)(conn_key rule := None) \<and>
    curCnt s' = curCnt s - (if conn_key rule \<in> dom (conn_map s) then 1 else 0) \<and>
    d' = (case conn_map s (conn_key rule) of
           Some e \<Rightarrow> if enabled e then snd (ipa_nat_del_ipv4_rule D (nat_table_hdl s) (rule_hdl e) d) else d
         | None \<Rightarrow> d) \<and> nat_table_hdl s' = nat_table_hdl s"
  proof (cases "first_idx (\<lambda>e. same_conn e rule) (cache s)")
    case None
    then have "conn_key rule \<notin> dom (conn_map s)" by (auto simp: slot_map_dom same_conn_key)
    moreover have "ret = 0 \<and> s' = s \<and> d' = d"
      using None assms(3) by (simp add: DeleteEntry_def del: first_idx_None)
    ultimately show ?thesis by (auto simp: domIff)
  next
    case (Some i)
    from first_idx_SomeD [OF Some] have i: "i < length (cache s)" "conn_key (cache s ! i) = conn_key rule"
      by (simp_all add: same_conn_key)
    moreover from this assms(2) have u: "used_slot (cache s ! i)" by (simp add: free_slot_key)
    ultimately have "conn_map s (conn_key rule) = Some (cache s ! i)"
      using slot_map_SomeI [OF nat_inv_distinct [OF assms(1)], of "cache s ! i"] by simp
    moreover have "slot_map used_slot conn_key ((cache s)[i := zero_entry]) = (conn_map s)(conn_key rule := None)"
      using slot_map_clear [OF nat_inv_distinct [OF assms(1)] i(1) u] i(2) by simp
    ultimately show ?thesis using Some assms(3) by (auto simp: DeleteEntry_def Let_def)
  qed
  then show "ret = 0" and "conn_map s' = (conn_map s)(conn_key rule := None)"
    and "curCnt s' = curCnt s - (if conn_key rule \<in> dom (conn_map s) then 1 else 0)"
    and "d' = (case conn_map s (conn_key rule) of
           Some e \<Rightarrow> if enabled e then snd (ipa_nat_del_ipv4_rule D (nat_table_hdl s) (rule_hdl e) d) else d
         | None \<Rightarrow> d)" and "nat_table_hdl s' = nat_table_hdl s"
    by simp_all
qed

lemma AddEntry_frame:
  "AddEntry D rule s d = (ret, s', d') \<Longrightarrow>
     nat_table_hdl s' = nat_table_hdl s \<and> temp s' = temp s \<and> pub_ip_addr s' = pub_ip_addr s \<and>
     pALGPorts s' = pALGPorts s \<and> PwrSaveIfs s' = PwrSaveIfs s"
  by (auto simp: AddEntry_def Let_def split: if_splits option.splits prod.splits)


section \<open>Properties\<close>

lemma nat_inv_new:
  "GetInstance cfg ok1 ok2 j Inst_null = (Inst_live s, p) \<Longrightarrow>
     length (junk_PwrSaveIfs j) = IPA_MAX_NUM_WIFI_CLIENTS \<Longrightarrow> nat_inv s"
  by (auto simp: GetInstance_def Init_def new_NatApp_def nat_inv_def cnt_def distinct_on_def list_all_length Let_def
      split: option.splits if_splits)

text \<open>
  C18. The bookkeeping of the connection cache is right after any sequence of requests, for every
  behaviour of the NAT library: starting from the object that \<open>GetInstance\<close> builds, \<open>curCnt\<close> counts the
  occupied slots, no two occupied slots hold the same connection, an occupied slot has all five key
  fields set and a free one is blank and disabled.
\<close>

theorem NatApp_run_invariant:
  fixes D :: "'d nat_drv"
  assumes "GetInstance cfg ok1 ok2 j Inst_null = (Inst_live s, p)"
    and "length (junk_PwrSaveIfs j) = IPA_MAX_NUM_WIFI_CLIENTS"
    and "legal_run (\<lambda>sd x. Some (nat_exec D sd x)) nat_legal (s, d) xs"
  shows "\<exists>s' d'. run_steps (\<lambda>sd x. Some (nat_exec D sd x)) (s, d) xs = Some (s', d') \<and>
    curCnt s' = cnt used_slot (cache s') \<and> distinct_on used_slot conn_key (cache s') \<and>
    (\<forall>e \<in> set (cache s'). slot_ok e)"
proof -
  have "nat_inv (fst (s, d))" using nat_inv_new [OF assms(1,2)] by simp
  from natc.run_defined [OF this assms(3)] show ?thesis by (auto simp: nat_inv_def list_all_iff)
qed

text \<open>A NAT library for the examples: it accepts everything and hands out consecutive handles.\<close>

definition count_drv :: "u32 nat_drv" where
  "count_drv = \<lparr>ipa_nat_add_ipv4_tbl = \<lambda>ip n old d. (0, 1, d), ipa_nat_del_ipv4_tbl = \<lambda>t d. (0, d),
     ipa_nat_add_ipv4_rule = \<lambda>t r old d. (0, d, d + 1), ipa_nat_del_ipv4_rule = \<lambda>t h d. (0, d),
     ipa_nat_query_timestamp = \<lambda>t h old d. (0, d, d)\<rparr>"

definition ex_cfg :: natapp_config where
  "ex_cfg = \<lparr>cfg_nat_max_entries = 2, cfg_alg_ports = [\<lparr>alg_protocol = 6, alg_port = 21\<rparr>]\<rparr>"

definition ex_junk :: natapp_junk where
  "ex_junk = \<lparr>junk_pub_ip_addr_pre = 0, junk_tcp_timeout = 0, junk_udp_timeout = 0,
     junk_PwrSaveIfs = replicate 32 0\<rparr>"

definition ex_nat :: NatApp where
  "ex_nat = (new_NatApp ex_junk)\<lparr>cache := replicate 2 zero_entry, pALGPorts := cfg_alg_ports ex_cfg\<rparr>"

definition ex_conn :: nat_table_entry where
  "ex_conn = \<lparr>private_ip = 10, private_port = 80, target_ip = 20, target_port = 90, public_ip = 7,
     public_port = 99, protocol = 17, timestamp = 5, dst_nat = False, enabled = False, rule_hdl = 0\<rparr>"

lemma ex_nat_instance: "GetInstance (Some ex_cfg) True True ex_junk Inst_null = (Inst_live ex_nat, Inst_live ex_nat)"
  by (simp add: GetInstance_def Init_def ex_nat_def ex_cfg_def Let_def)

lemma ex_nat_cache: "cache ex_nat = [zero_entry, zero_entry]"
  by (simp add: ex_nat_def numeral_2_eq_2)

lemma ex_junk_length: "length (junk_PwrSaveIfs ex_junk) = IPA_MAX_NUM_WIFI_CLIENTS"
  by (simp add: ex_junk_def IPA_MAX_NUM_WIFI_CLIENTS_def)

theorem NatApp_run_invariant_witness:
  "\<exists>s' d'. run_steps (\<lambda>sd x. Some (nat_exec count_drv sd x)) (ex_nat, 3) [Add_table 7, Add_entry ex_conn] = Some (s', d') \<and>
    curCnt s' = cnt used_slot (cache s') \<and> distinct_on used_slot conn_key (cache s') \<and>
    (\<forall>e \<in> set (cache s'). slot_ok e)"
  by (rule NatApp_run_invariant [OF ex_nat_instance ex_junk_length]) simp

text \<open>
  C19. \<open>AddEntry\<close>, seen on the map from connections to cache entries. It can store a connection exactly
  when a table exists, neither port is an ALG port, the connection is complete and not cached, and
  \<open>curCnt\<close> is below the maximum; otherwise nothing changes, and \<open>0\<close> is returned only for an incomplete
  connection. A connection of a client in power save is stored disabled without touching the NAT table.
  Any other is inserted into the NAT table by one call; on failure the map is unchanged, on success it
  gains the connection, enabled, with the returned handle. The stored \<open>public_ip\<close> is always \<open>0\<close>.
\<close>

theorem AddEntry_refines_map:
  assumes "nat_inv s" and "AddEntry D rule s d = (ret, s', d')"
  shows "let alg = isAlgPort (protocol rule) (private_port rule) s \<or> isAlgPort (protocol rule) (target_port rule) s;
             pwr = isPwrSaveIf (private_ip rule) s \<or> isPwrSaveIf (target_ip rule) s
         in if nat_table_hdl s = 0 \<or> alg \<or> invalid_conn rule \<or> conn_key rule \<in> dom (conn_map s) \<or>
               int (length (cache s)) \<le> curCnt s
            then s' = s \<and> d' = d \<and> (ret = 0 \<longleftrightarrow> nat_table_hdl s \<noteq> 0 \<and> \<not> alg \<and> invalid_conn rule)
            else if pwr
            then ret = 0 \<and> d' = d \<and> conn_map s' = (conn_map s)(conn_key rule \<mapsto> fill_slot rule zero_entry)
            else \<exists>old r h. ipa_nat_add_ipv4_rule D (nat_table_hdl s) (rule_of rule) old d = (r, h, d') \<and>
              (if r < 0 then ret = -1 \<and> conn_map s' = conn_map s
               else ret = 0 \<and> conn_map s' = (conn_map s)(conn_key rule \<mapsto>
                 fill_slot rule (zero_entry\<lparr>rule_hdl := h, enabled := True\<rparr>)))"
  using AddEntry_cases [OF assms refl refl refl] unfolding Let_def by (simp add: not_le del: dom_def) (metis)

theorem AddEntry_refines_map_witness:
  "\<exists>ret s' d'. AddEntry count_drv ex_conn (ex_nat\<lparr>nat_table_hdl := 1\<rparr>) 3 = (ret, s', d') \<and>
     ret = 0 \<and> map_option rule_hdl (conn_map s' (conn_key ex_conn)) = Some 3"
proof -
  let ?s = "ex_nat\<lparr>nat_table_hdl := 1\<rparr>"
  obtain ret s' d' where a: "AddEntry count_drv ex_conn ?s 3 = (ret, s', d')"
    by (cases "AddEntry count_drv ex_conn ?s 3")
  have "nat_inv ?s" using nat_inv_new [OF ex_nat_instance ex_junk_length] by (simp add: nat_inv_def)
  from AddEntry_refines_map [OF this a] a show ?thesis
    by (simp add: ex_nat_cache)
      (simp add: ex_nat_def ex_conn_def ex_cfg_def isAlgPort_def isPwrSaveIf_def new_NatApp_def ex_junk_def
        invalid_conn_def conn_key_def count_drv_def fill_slot_def)
qed

text \<open>
  C20. Adding a connection and deleting it again is a round trip: the map of cached connections and
  \<open>curCnt\<close> are as before, and the NAT table got at most one insertion, undone by one deletion with the
  very handle the insertion returned.
\<close>

theorem AddEntry_DeleteEntry_roundtrip:
  assumes "nat_inv s" and "\<not> invalid_conn rule" and "AddEntry D rule s d = (0, s1, d1)"
    and "DeleteEntry D rule s1 d1 = (ret, s2, d2)"
  shows "ret = 0 \<and> conn_map s2 = conn_map s \<and> curCnt s2 = curCnt s \<and>
    (d2 = d \<and> (isPwrSaveIf (private_ip rule) s \<or> isPwrSaveIf (target_ip rule) s) \<or>
     (\<exists>old r h. 0 \<le> r \<and> ipa_nat_add_ipv4_rule D (nat_table_hdl s) (rule_of rule) old d = (r, h, d1) \<and>
        d2 = snd (ipa_nat_del_ipv4_rule D (nat_table_hdl s) h d1)))"
proof -
  note A = AddEntry_cases [OF assms(1,3) refl refl refl]
  note E = DeleteEntry_conn_map [OF AddEntry_inv [OF assms(1,3)] valid_used [OF assms(2)] assms(4)]
  from AddEntry_frame [OF assms(3)] have hdl: "nat_table_hdl s1 = nat_table_hdl s" by simp
  have can: "nat_table_hdl s \<noteq> 0 \<and>
      \<not> (isAlgPort (protocol rule) (private_port rule) s \<or> isAlgPort (protocol rule) (target_port rule) s) \<and>
      \<not> invalid_conn rule \<and> conn_key rule \<notin> dom (conn_map s) \<and> curCnt s < int (length (cache s))"
    by (rule ccontr) (use A(1) assms(2) in simp)
  then have undo: "((conn_map s)(conn_key rule \<mapsto> e))(conn_key rule := None) = conn_map s" for e
    by (auto simp: fun_eq_iff domIff)
  show ?thesis
  proof (cases "isPwrSaveIf (private_ip rule) s \<or> isPwrSaveIf (target_ip rule) s")
    case True
    with A(2) [OF can] have "d1 = d" "curCnt s1 = curCnt s + 1"
      "conn_map s1 = (conn_map s)(conn_key rule \<mapsto> fill_slot rule zero_entry)" by auto
    with E undo True show ?thesis by (simp add: fill_slot_def)
  next
    case False
    with A(3) [OF can] obtain old r h where
      "ipa_nat_add_ipv4_rule D (nat_table_hdl s) (rule_of rule) old d = (r, h, d1)" "\<not> r < 0"
      "curCnt s1 = curCnt s + 1" "conn_map s1 = (conn_map s)(conn_key rule \<mapsto>
         fill_slot rule (zero_entry\<lparr>rule_hdl := h, enabled := True\<rparr>))"
      by (auto split: if_splits)
    with E undo hdl show ?thesis by (auto simp: fill_slot_def not_less)
  qed
qed

theorem AddEntry_DeleteEntry_roundtrip_witness:
  "\<exists>s1 d1 ret s2 d2. AddEntry count_drv ex_conn (ex_nat\<lparr>nat_table_hdl := 1\<rparr>) 3 = (0, s1, d1) \<and>
     DeleteEntry count_drv ex_conn s1 d1 = (ret, s2, d2) \<and> conn_map s2 = Map.empty \<and> curCnt s2 = 0"
proof -
  let ?s = "ex_nat\<lparr>nat_table_hdl := 1\<rparr>"
  have "fst (AddEntry count_drv ex_conn ?s 3) = 0"
    by (simp add: AddEntry_def ChkForDup_def ex_nat_cache)
      (simp add: ex_nat_def ex_conn_def ex_cfg_def isAlgPort_def isPwrSaveIf_def new_NatApp_def ex_junk_def
        invalid_conn_def same_conn_def count_drv_def)
  then obtain s1 d1 where a: "AddEntry count_drv ex_conn ?s 3 = (0, s1, d1)"
    by (cases "AddEntry count_drv ex_conn ?s 3") auto
  obtain ret s2 d2 where b: "DeleteEntry count_drv ex_conn s1 d1 = (ret, s2, d2)"
    by (cases "DeleteEntry count_drv ex_conn s1 d1")
  have "nat_inv ?s" using nat_inv_new [OF ex_nat_instance ex_junk_length] by (simp add: nat_inv_def)
  from AddEntry_DeleteEntry_roundtrip [OF this _ a b] a b show ?thesis
    by (simp add: ex_nat_cache ex_conn_def invalid_conn_def) (simp add: ex_nat_def new_NatApp_def)
qed

text \<open>
  What the loops over the cache do, for every behaviour of the NAT library: the calls for the selected slots are made in slot order, and
  the connection in a slot is treated according to the answer to its own call. \<open>insert_all\<close> and \<open>delete_all\<close> collect the answers, \<open>answers\<close> finds
  the one for a connection.
\<close>

fun insert_all :: "'d nat_drv \<Rightarrow> u32 \<Rightarrow> nat_table_entry list \<Rightarrow> 'd \<Rightarrow> (int \<times> u32) list \<times> 'd" where
  "insert_all D tbl [] d = ([], d)"
| "insert_all D tbl (e # es) d =
     (let (r, h, d1) = ipa_nat_add_ipv4_rule D tbl (rule_of e) (rule_hdl e) d;
          (rs, d2) = insert_all D tbl es d1 in ((r, h) # rs, d2))"

fun delete_all :: "'d nat_drv \<Rightarrow> u32 \<Rightarrow> nat_table_entry list \<Rightarrow> 'd \<Rightarrow> int list \<times> 'd" where
  "delete_all D tbl [] d = ([], d)"
| "delete_all D tbl (e # es) d =
     (let (r, d1) = ipa_nat_del_ipv4_rule D tbl (rule_hdl e) d; (rs, d2) = delete_all D tbl es d1 in (r # rs, d2))"

definition answers :: "nat_table_entry list \<Rightarrow> 'r list \<Rightarrow> (u32 \<times> u32 \<times> u16 \<times> u16 \<times> u8) \<rightharpoonup> 'r" where
  "answers es rs = map_of (zip (map conn_key es) rs)"

lemma answers_simps [simp]: "answers [] rs = Map.empty" "answers (e # es) (r # rs) = (answers es rs)(conn_key e \<mapsto> r)"
  by (simp_all add: answers_def)

lemma answers_dom: "answers es rs k = Some r \<Longrightarrow> \<exists>e \<in> set es. conn_key e = k"
  by (auto simp: answers_def dest!: map_of_SomeD set_zip_leftD)

lemma answers_none: "(\<And>e. e \<in> set es \<Longrightarrow> conn_key e \<noteq> k) \<Longrightarrow> answers es rs k = None"
  by (cases "answers es rs k") (auto dest: answers_dom)

lemma answers_other:
  "private_ip e \<noteq> ip \<Longrightarrow> conn_key e = k \<Longrightarrow> answers (filter (\<lambda>x. private_ip x = ip \<and> Q x) es) rs k = None"
  by (rule answers_none) (auto simp: conn_key_def)

lemma answers_given: "length rs = length es \<Longrightarrow> e \<in> set es \<Longrightarrow> answers es rs (conn_key e) \<noteq> None"
  by (induction es rs rule: list_induct2') auto

definition resumed :: "(int \<times> u32) option \<Rightarrow> nat_table_entry \<Rightarrow> nat_table_entry option" where
  "resumed a e = (case a of None \<Rightarrow> Some e
     | Some (r, h) \<Rightarrow> if r < 0 then None else Some (e\<lparr>rule_hdl := h, enabled := True\<rparr>))"

definition suspended :: "int option \<Rightarrow> nat_table_entry \<Rightarrow> nat_table_entry" where
  "suspended a e = (case a of None \<Rightarrow> e | Some r \<Rightarrow> if r < 0 then e else e\<lparr>enabled := False, rule_hdl := 0\<rparr>)"

lemma insert_all_length: "length (fst (insert_all D tbl es d)) = length es"
  by (induction es arbitrary: d) (simp_all add: case_prod_unfold Let_def)

lemma slot_map_absent:
  assumes "distinct_on used_slot conn_key (e # es)" and "used_slot e"
  shows "slot_map used_slot conn_key es (conn_key e) = None"
  using assms by (cases "slot_map used_slot conn_key es (conn_key e)") (auto dest!: slot_map_SomeD)

lemma insert_loop:
  assumes body: "\<And>e c d. body e c d = (if P e
      then (let (ret, hdl, d') = ipa_nat_add_ipv4_rule D tbl (rule_of e) (rule_hdl e) d
            in if ret < 0 then (zero_entry, c - 1, d') else (e\<lparr>rule_hdl := hdl, enabled := True\<rparr>, c, d'))
      else (e, c, d))"
    and P: "\<And>e. P e \<Longrightarrow> used_slot e"
  shows "distinct_on used_slot conn_key es \<Longrightarrow> for_cache body es c d = (es', c', d') \<Longrightarrow> insert_all D tbl (filter P es) d = (rs, dd) \<Longrightarrow>
    d' = dd \<and> c' = c - int (length (filter (\<lambda>(r, h). r < 0) rs)) \<and>
    slot_map used_slot conn_key es' k = Option.bind (slot_map used_slot conn_key es k) (resumed (answers (filter P es) rs k))"
proof (induction es arbitrary: c d es' c' d' rs dd)
  case (Cons e es)
  note dist = slot_map_absent [OF Cons.prems(1)]
  have d1: "distinct_on used_slot conn_key es" using Cons.prems(1) by (simp split: if_splits)
  show ?case
  proof (cases "P e")
    case False
    obtain es1 c1 d2 where f: "for_cache body es c d = (es1, c1, d2)" by (cases "for_cache body es c d")
    have "insert_all D tbl (filter P es) d = (rs, dd)" using Cons.prems(3) False by simp
    note IH = Cons.IH [OF d1 f this]
    have "answers (filter P es) rs (conn_key e) = None" if "used_slot e"
    proof (rule ccontr)
      assume "answers (filter P es) rs (conn_key e) \<noteq> None"
      then obtain r where "answers (filter P es) rs (conn_key e) = Some r" by blast
      from answers_dom [OF this] obtain x where "x \<in> set es" "P x" "conn_key x = conn_key e" by auto
      with P [of x] Cons.prems(1) that show False by auto
    qed
    moreover have "es' = e # es1" "c' = c1" "d' = d2" using Cons.prems(2) False f by (simp_all add: body [of e c d])
    ultimately show ?thesis using IH by (auto simp: False resumed_def option.map_ident)
  next
    case True
    note u = P [OF True]
    obtain r h d1' where a: "ipa_nat_add_ipv4_rule D tbl (rule_of e) (rule_hdl e) d = (r, h, d1')"
      by (cases "ipa_nat_add_ipv4_rule D tbl (rule_of e) (rule_hdl e) d")
    let ?e = "if r < 0 then zero_entry else e\<lparr>rule_hdl := h, enabled := True\<rparr>" and ?c = "if r < 0 then c - 1 else c"
    obtain es1 c1 d2 where f: "for_cache body es ?c d1' = (es1, c1, d2)" by (cases "for_cache body es ?c d1'")
    obtain rs1 dd1 where i: "insert_all D tbl (filter P es) d1' = (rs1, dd1)" by (cases "insert_all D tbl (filter P es) d1'")
    note IH = Cons.IH [OF d1 f i]
    have out: "es' = ?e # es1" "c' = c1" "d' = d2" "rs = (r, h) # rs1" "dd = dd1"
      using Cons.prems(2,3) True a f i by (auto simp: body [of e c d] split: if_splits)
    have keys: "conn_key (e\<lparr>rule_hdl := h, enabled := True\<rparr>) = conn_key e" "used_slot (e\<lparr>rule_hdl := h, enabled := True\<rparr>)"
      using u by (simp_all add: conn_key_def free_slot_def)
    have "slot_map used_slot conn_key es' k =
        Option.bind (slot_map used_slot conn_key (e # es) k) (resumed (answers (filter P (e # es)) rs k))"
    proof (cases "k = conn_key e")
      case same: True
      with IH dist [OF u] u keys show ?thesis unfolding out by (simp add: True resumed_def)
    next
      case False
      with IH u keys show ?thesis unfolding out by (simp add: True)
    qed
    with IH show ?thesis unfolding out by auto
  qed
qed simp

lemma delete_loop:
  assumes body: "\<And>e c d. body e c d = (if P e
      then (let (ret, d1) = ipa_nat_del_ipv4_rule D tbl (rule_hdl e) d
            in if ret < 0 then (e, c, d1) else (e\<lparr>enabled := False, rule_hdl := 0\<rparr>, c, d1))
      else (e, c, d))"
    and P: "\<And>e. e \<in> set es \<Longrightarrow> P e \<Longrightarrow> used_slot e"
  shows "distinct_on used_slot conn_key es \<Longrightarrow> for_cache body es c d = (es', c', d') \<Longrightarrow> delete_all D tbl (filter P es) d = (rs, dd) \<Longrightarrow>
    d' = dd \<and> c' = c \<and>
    slot_map used_slot conn_key es' k = map_option (suspended (answers (filter P es) rs k)) (slot_map used_slot conn_key es k)"
  using P
proof (induction es arbitrary: c d es' c' d' rs dd)
  case (Cons e es)
  note dist = slot_map_absent [OF Cons.prems(1)]
  have d1: "distinct_on used_slot conn_key es" using Cons.prems(1) by (simp split: if_splits)
  have P: "\<And>x. x \<in> set es \<Longrightarrow> P x \<Longrightarrow> used_slot x" using Cons.prems(4) by simp
  show ?case
  proof (cases "P e")
    case False
    obtain es1 c1 d2 where f: "for_cache body es c d = (es1, c1, d2)" by (cases "for_cache body es c d")
    have "delete_all D tbl (filter P es) d = (rs, dd)" using Cons.prems(3) False by simp
    note IH = Cons.IH [OF d1 f this P]
    have "answers (filter P es) rs (conn_key e) = None" if "used_slot e"
    proof (rule ccontr)
      assume "answers (filter P es) rs (conn_key e) \<noteq> None"
      then obtain r where "answers (filter P es) rs (conn_key e) = Some r" by blast
      from answers_dom [OF this] obtain x where "x \<in> set es" "P x" "conn_key x = conn_key e" by auto
      with P [of x] Cons.prems(1) that show False by auto
    qed
    moreover have "es' = e # es1" "c' = c1" "d' = d2" using Cons.prems(2) False f by (simp_all add: body [of e c d])
    ultimately show ?thesis using IH by (auto simp: False suspended_def option.map_ident)
  next
    case True
    have u: "used_slot e" using Cons.prems(4) True by simp
    obtain r d1' where a: "ipa_nat_del_ipv4_rule D tbl (rule_hdl e) d = (r, d1')"
      by (cases "ipa_nat_del_ipv4_rule D tbl (rule_hdl e) d")
    let ?e = "if r < 0 then e else e\<lparr>enabled := False, rule_hdl := 0\<rparr>"
    obtain es1 c1 d2 where f: "for_cache body es c d1' = (es1, c1, d2)" by (cases "for_cache body es c d1'")
    obtain rs1 dd1 where i: "delete_all D tbl (filter P es) d1' = (rs1, dd1)" by (cases "delete_all D tbl (filter P es) d1'")
    note IH = Cons.IH [OF d1 f i P]
    have out: "es' = ?e # es1" "c' = c1" "d' = d2" "rs = r # rs1" "dd = dd1"
      using Cons.prems(2,3) True a f i by (auto simp: body [of e c d] split: if_splits)
    have keys: "conn_key (e\<lparr>enabled := False, rule_hdl := 0\<rparr>) = conn_key e" "used_slot (e\<lparr>enabled := False, rule_hdl := 0\<rparr>)"
      using u by (simp_all add: conn_key_def free_slot_def)
    with IH u show ?thesis unfolding out by (auto simp: True suspended_def)
  qed
qed simp

lemma clear_pwr_save_undo:
  assumes "first_idx (\<lambda>p. p = 0) ps = Some i" and "ip \<noteq> 0" and "ip \<notin> set ps"
  shows "clear_pwr_save ip (ps[i := ip]) = ps" and "ip \<in> set (ps[i := ip])"
proof -
  from first_idx_SomeD [OF assms(1)] have i: "i < length ps" "ps ! i = 0" by auto
  with assms(3) have "first_idx (\<lambda>p. p = ip) (ps[i := ip]) = Some i"
    by (intro first_idx_SomeI) auto
  with i show "clear_pwr_save ip (ps[i := ip]) = ps"
    by (simp add: clear_pwr_save_def) (metis list_update_id)
  show "ip \<in> set (ps[i := ip])" using i(1) by (rule set_update_memI)
qed

lemma AddEntry_power_save:
  "isPwrSaveIf (private_ip rule) s \<Longrightarrow> snd (snd (AddEntry D rule s d)) = d"
  by (simp add: AddEntry_def split: option.split)

text \<open>
  C27. Power save, for every behaviour of the NAT library. When client \<open>ip\<close> enters power save (it was not in it, and there is room to note it), the library is asked to delete the
  rules of exactly its enabled connections, in slot order; each becomes disabled unless the library refused that deletion, and no other connection changes. A
  new connection of the client is then cached without a call. When the client leaves again, the library is asked to insert exactly its disabled connections, in slot order; each is
  enabled with the handle returned, or, if the library refused that insertion, dropped from the cache. So every connection of another
  client is as before, one of the client is enabled with the same rule, and it is missing only if the library refused it.
\<close>

theorem power_save_roundtrip:
  assumes "nat_inv s" and "ip \<noteq> 0" and "ip \<notin> set (PwrSaveIfs s)" and "0 \<in> set (PwrSaveIfs s)"
    and "UpdatePwrSaveIf D ip s d = (r1, s1, d1)" and "ResetPwrSaveIf D ip s1 d1 = (r2, s2, d2)"
    and "on = filter (\<lambda>e. private_ip e = ip \<and> enabled e) (cache s)" and "delete_all D (nat_table_hdl s) on d = (dels, da)"
    and "off = filter (\<lambda>e. private_ip e = ip \<and> \<not> enabled e) (cache s1)" and "insert_all D (nat_table_hdl s) off d1 = (ins, db)"
  shows "r1 = 0 \<and> d1 = da \<and> isPwrSaveIf ip s1 \<and>
    conn_map s1 = (\<lambda>k. map_option (suspended (answers on dels k)) (conn_map s k)) \<and>
    (\<forall>rule. private_ip rule = ip \<longrightarrow> snd (snd (AddEntry D rule s1 d1)) = d1) \<and>
    d2 = db \<and> PwrSaveIfs s2 = PwrSaveIfs s \<and> curCnt s2 = curCnt s - int (length (filter (\<lambda>(r, h). r < 0) ins)) \<and>
    conn_map s2 = (\<lambda>k. Option.bind (conn_map s1 k) (resumed (answers off ins k))) \<and>
    (\<forall>k e. conn_map s k = Some e \<longrightarrow> (if private_ip e \<noteq> ip then conn_map s2 k = Some e
       else case conn_map s2 k of None \<Rightarrow> \<exists>r h. answers off ins k = Some (r, h) \<and> r < 0
            | Some e' \<Rightarrow> enabled e' \<and> rule_of e' = rule_of e))"
proof -
  obtain i where i: "first_idx (\<lambda>p. p = 0) (PwrSaveIfs s) = Some i"
    using first_idx_ex [OF assms(4), of "\<lambda>p. p = 0"] by auto
  have none: "first_idx (\<lambda>p. p = ip) (PwrSaveIfs s) = None" using assms(3) by auto
  let ?S = "suspend_slot D (nat_table_hdl s) ip" and ?R = "resume_slot D (nat_table_hdl s) ip"
  obtain es c dx where f: "for_cache ?S (cache s) (curCnt s) d = (es, c, dx)" by (cases "for_cache ?S (cache s) (curCnt s) d")
  have s1: "r1 = 0" "d1 = dx" "s1 = s\<lparr>PwrSaveIfs := (PwrSaveIfs s)[i := ip], cache := es, curCnt := c\<rparr>"
    using assms(2,5) f none i by (simp_all add: UpdatePwrSaveIf_def INVALID_IP_ADDR_def Let_def del: first_idx_None)
  have inv1: "nat_inv s1" by (rule UpdatePwrSaveIf_inv [OF assms(1,5)])
  obtain es2 c2 dy where g: "for_cache ?R (cache s1) (curCnt s1) d1 = (es2, c2, dy)" by (cases "for_cache ?R (cache s1) (curCnt s1) d1")
  have s2: "d2 = dy" "s2 = s1\<lparr>PwrSaveIfs := clear_pwr_save ip (PwrSaveIfs s1), cache := es2, curCnt := c2\<rparr>"
    using assms(2,6) g by (simp_all add: ResetPwrSaveIf_def INVALID_IP_ADDR_def s1(3))
  have used: "used_slot e" if "private_ip e = ip" for e using that assms(2) by (auto simp: free_slot_def)
  have S: "dx = da \<and> c = curCnt s \<and> slot_map used_slot conn_key es k = map_option (suspended (answers on dels k)) (conn_map s k)" for k
    unfolding assms(7) by (rule delete_loop [OF _ _ nat_inv_distinct [OF assms(1)] f assms(8) [unfolded assms(7)]])
      (simp_all add: suspend_slot_def used)
  have R: "dy = db \<and> c2 = curCnt s1 - int (length (filter (\<lambda>(r, h). r < 0) ins)) \<and>
      slot_map used_slot conn_key es2 k = Option.bind (conn_map s1 k) (resumed (answers off ins k))" for k
    unfolding assms(9) by (rule insert_loop [OF _ _ nat_inv_distinct [OF inv1] g assms(10) [unfolded assms(9)]])
      (simp_all add: resume_slot_def used)
  have m1: "conn_map s1 = (\<lambda>k. map_option (suspended (answers on dels k)) (conn_map s k))" using S s1(3) by auto
  have m2: "conn_map s2 = (\<lambda>k. Option.bind (conn_map s1 k) (resumed (answers off ins k)))" using R s2(2) by auto
  note ps = clear_pwr_save_undo [OF i assms(2,3)]
  have saving: "isPwrSaveIf ip s1" using ps(2) assms(2) by (auto simp: isPwrSaveIf_def s1(3))
  have len: "length ins = length off" using insert_all_length [of D "nat_table_hdl s" off d1] assms(10) by simp
  have outcome: "if private_ip e \<noteq> ip then conn_map s2 k = Some e
       else case conn_map s2 k of None \<Rightarrow> \<exists>r h. answers off ins k = Some (r, h) \<and> r < 0
            | Some e' \<Rightarrow> enabled e' \<and> rule_of e' = rule_of e" if e: "conn_map s k = Some e" for k e
  proof -
    let ?e = "suspended (answers on dels k) e"
    have k1: "conn_map s1 k = Some ?e" using e by (simp add: m1)
    have same: "private_ip ?e = private_ip e" "rule_of ?e = rule_of e" by (auto simp: suspended_def rule_of_def split: option.split)
    have key: "conn_key e = k" "conn_key ?e = k" using slot_map_SomeD [OF e] slot_map_SomeD [OF k1] by auto
    show ?thesis
    proof (cases "private_ip e = ip")
      case False
      have "answers on dels k = None" "answers off ins k = None"
        unfolding assms(7,9) by (rule answers_other [OF False key(1)])+
      with False k1 show ?thesis by (simp add: m2 suspended_def resumed_def)
    next
      case True
      have "enabled ?e \<or> ?e \<in> set off" using slot_map_SomeD [OF k1] same True by (auto simp: assms(9))
      with answers_given [OF len, of ?e] have a: "enabled ?e \<or> answers off ins k \<noteq> None" unfolding key(2) by blast
      with True k1 same(2) show ?thesis
        by (auto simp: m2 resumed_def rule_of_def split: option.split if_splits)
    qed
  qed
  have add: "\<forall>rule. private_ip rule = ip \<longrightarrow> snd (snd (AddEntry D rule s1 d1)) = d1"
    using saving AddEntry_power_save [of _ s1 D d1] by blast
  have "PwrSaveIfs s2 = PwrSaveIfs s \<and> curCnt s2 = curCnt s - int (length (filter (\<lambda>(r, h). r < 0) ins))"
    using S R ps(1) by (simp add: s2(2) s1(3))
  moreover have "d1 = da \<and> d2 = db" using S R s1(2) s2(1) by simp
  ultimately show ?thesis using s1(1) saving m1 add m2 outcome by blast
qed



text \<open>A library that refuses the insertions after the first ones: its state is the number of insertions it still accepts.\<close>

definition few_drv :: "u32 nat_drv" where
  "few_drv = count_drv\<lparr>ipa_nat_add_ipv4_rule := \<lambda>t r old d. if d = 0 then (-1, old, 0) else (0, d, d - 1)\<rparr>"

definition ex_two :: NatApp where
  "ex_two = ex_nat\<lparr>nat_table_hdl := 1, pub_ip_addr := 7, curCnt := 2,
     cache := map (\<lambda>t. ex_conn\<lparr>target_port := t, enabled := True, rule_hdl := 5\<rparr>) [90, 91]\<rparr>"

lemma ex_two_inv: "nat_inv ex_two"
  by (simp add: nat_inv_def ex_two_def ex_nat_def new_NatApp_def ex_junk_def ex_conn_def slot_ok_def free_slot_def invalid_conn_def conn_key_def
      distinct_on_def cnt_def IPA_MAX_NUM_WIFI_CLIENTS_def)

theorem power_save_roundtrip_witness:
  "\<exists>r1 s1 d1 r2 s2 d2. UpdatePwrSaveIf few_drv 10 ex_two 1 = (r1, s1, d1) \<and> ResetPwrSaveIf few_drv 10 s1 d1 = (r2, s2, d2) \<and>
     isPwrSaveIf 10 s1 \<and> PwrSaveIfs s2 = PwrSaveIfs ex_two \<and> curCnt s2 = 1"
proof -
  let ?d = "1 :: u32"
  obtain r1 s1 d1 where a: "UpdatePwrSaveIf few_drv 10 ex_two ?d = (r1, s1, d1)" by (cases "UpdatePwrSaveIf few_drv 10 ex_two ?d")
  obtain r2 s2 d2 where b: "ResetPwrSaveIf few_drv 10 s1 d1 = (r2, s2, d2)" by (cases "ResetPwrSaveIf few_drv 10 s1 d1")
  let ?on = "filter (\<lambda>e. private_ip e = 10 \<and> enabled e) (cache ex_two)" and ?off = "filter (\<lambda>e. private_ip e = 10 \<and> \<not> enabled e) (cache s1)"
  obtain dels da where c: "delete_all few_drv (nat_table_hdl ex_two) ?on ?d = (dels, da)" by (cases "delete_all few_drv (nat_table_hdl ex_two) ?on ?d")
  obtain ins db where e: "insert_all few_drv (nat_table_hdl ex_two) ?off d1 = (ins, db)" by (cases "insert_all few_drv (nat_table_hdl ex_two) ?off d1")
  have ps: "10 \<notin> set (PwrSaveIfs ex_two)" "0 \<in> set (PwrSaveIfs ex_two)" by (simp_all add: ex_two_def ex_nat_def new_NatApp_def ex_junk_def)
  note P = power_save_roundtrip [OF ex_two_inv _ ps a b refl c refl e]
  have s1: "cache s1 = map (\<lambda>t. ex_conn\<lparr>target_port := t, enabled := False, rule_hdl := 0\<rparr>) [90, 91] \<and> d1 = 1"
    using a ps by (auto simp: UpdatePwrSaveIf_def INVALID_IP_ADDR_def ex_two_def few_drv_def count_drv_def suspend_slot_def ex_conn_def)
  then have "ins = [(0, 1), (-1, 0)]" using e by (auto simp: ex_conn_def few_drv_def ex_two_def)
  with P a b show ?thesis by (simp add: ex_two_def)
qed

text \<open>
  C26. Losing and regaining the uplink, for every behaviour of the NAT library. After a successful \<open>DeleteTable\<close> every connection is still cached and none is
  enabled. A successful \<open>AddTable\<close> with the same public address asks the library, after creating the table, to insert every cached connection, in slot order, also those of clients in power
  save; each is in the NAT table again with the same rule and the handle returned, and it is dropped from the cache if and only if the library
  refused its insertion.
\<close>

theorem DeleteTable_AddTable_roundtrip:
  assumes "nat_inv s" and "DeleteTable D ip s d = (0, s1, d1)" and "AddTable D ip s1 d1 = (0, s2, d2)"
    and "conns = filter used_slot (cache s1)"
    and "ipa_nat_add_ipv4_tbl D ip (of_nat (length (cache s))) 0 d1 = (rt, h, dt)" and "insert_all D h conns dt = (ins, db)"
  shows "rt = 0 \<and> nat_table_hdl s1 = 0 \<and> nat_table_hdl s2 = h \<and> pub_ip_addr s = ip \<and> pub_ip_addr s2 = ip \<and> d2 = db \<and>
    conn_map s1 = (\<lambda>k. map_option (\<lambda>e. e\<lparr>enabled := False\<rparr>) (conn_map s k)) \<and>
    conn_map s2 = (\<lambda>k. Option.bind (conn_map s1 k) (resumed (answers conns ins k))) \<and>
    curCnt s2 = curCnt s - int (length (filter (\<lambda>(r, h). r < 0) ins)) \<and>
    (\<forall>k e. conn_map s k = Some e \<longrightarrow> (\<exists>r h. answers conns ins k = Some (r, h) \<and>
       (case conn_map s2 k of None \<Rightarrow> r < 0 | Some e' \<Rightarrow> 0 \<le> r \<and> enabled e' \<and> rule_hdl e' = h \<and> rule_of e' = rule_of e)))"
proof -
  have s1: "s1 = Reset (s\<lparr>pub_ip_addr_pre := ip\<rparr>)" "pub_ip_addr s = ip"
    using assms(2) by (auto simp: DeleteTable_def Let_def split: if_splits prod.splits)
  have inv1: "nat_inv s1" by (rule DeleteTable_inv [OF assms(1,2)])
  obtain es c dx where f: "for_cache (restore_slot D h) (cache s1) (curCnt s1) dt = (es, c, dx)"
    by (cases "for_cache (restore_slot D h) (cache s1) (curCnt s1) dt")
  have t: "length (cache s1) = length (cache s)" "nat_table_hdl s1 = 0" "pub_ip_addr_pre s1 = ip" "curCnt s1 = curCnt s"
    by (simp_all add: s1 Reset_def)
  have s2: "rt = 0" "d2 = dx" "s2 = s1\<lparr>nat_table_hdl := h, cache := es, curCnt := c, pub_ip_addr := ip\<rparr>"
    using assms(3,5) f t by (auto simp: AddTable_def Let_def split: if_splits)
  have "filter (\<lambda>e. private_ip e \<noteq> 0) (cache s1) = conns"
    unfolding assms(4) using inv1 by (intro filter_cong) (auto simp: nat_inv_def list_all_iff slot_ok_def invalid_conn_def free_slot_def)
  then have calls: "insert_all D h (filter (\<lambda>e. private_ip e \<noteq> 0) (cache s1)) dt = (ins, db)"
    "filter (\<lambda>e. private_ip e \<noteq> 0) (cache s1) = conns" using assms(6) by simp_all
  have R: "dx = db \<and> c = curCnt s1 - int (length (filter (\<lambda>(r, h). r < 0) ins)) \<and>
      slot_map used_slot conn_key es k = Option.bind (conn_map s1 k) (resumed (answers conns ins k))" for k
    unfolding calls(2) [symmetric] by (rule insert_loop [OF _ _ nat_inv_distinct [OF inv1] f calls(1)])
      (simp_all add: restore_slot_def free_slot_def)
  have m1: "conn_map s1 = (\<lambda>k. map_option (\<lambda>e. e\<lparr>enabled := False\<rparr>) (conn_map s k))"
  proof
    have "slot_map used_slot conn_key (map (\<lambda>e. e\<lparr>enabled := False\<rparr>) es) k = map_option (\<lambda>e. e\<lparr>enabled := False\<rparr>) (slot_map used_slot conn_key es k)" for es k
      by (induction es) (auto simp: free_slot_def conn_key_def)
    then show "conn_map s1 k = map_option (\<lambda>e. e\<lparr>enabled := False\<rparr>) (conn_map s k)" for k by (simp add: s1 Reset_def)
  qed
  have m2: "conn_map s2 = (\<lambda>k. Option.bind (conn_map s1 k) (resumed (answers conns ins k)))" using R s2(3) by auto
  have "\<exists>r h. answers conns ins k = Some (r, h) \<and>
       (case conn_map s2 k of None \<Rightarrow> r < 0 | Some e' \<Rightarrow> 0 \<le> r \<and> enabled e' \<and> rule_hdl e' = h \<and> rule_of e' = rule_of e)"
    if e: "conn_map s k = Some e" for k e
  proof -
    have k1: "conn_map s1 k = Some (e\<lparr>enabled := False\<rparr>)" using e by (simp add: m1)
    then have "e\<lparr>enabled := False\<rparr> \<in> set conns" "conn_key (e\<lparr>enabled := False\<rparr>) = k"
      unfolding assms(4) using slot_map_SomeD [OF k1] by auto
    with answers_given [of ins conns] insert_all_length [of D h conns dt] assms(6) obtain r h' where
      "answers conns ins k = Some (r, h')" by fastforce
    with k1 show ?thesis by (auto simp: m2 resumed_def rule_of_def)
  qed
  then show ?thesis using s1(2) s2 R t m1 m2 by simp
qed

theorem DeleteTable_AddTable_roundtrip_witness:
  "\<exists>s1 d1 s2 d2. DeleteTable few_drv 7 ex_two 1 = (0, s1, d1) \<and> AddTable few_drv 7 s1 d1 = (0, s2, d2) \<and>
     nat_table_hdl s2 = 1 \<and> curCnt s2 = 1"
proof -
  obtain s1 d1 where a: "DeleteTable few_drv 7 ex_two 1 = (0, s1, d1)" and s1: "cache s1 = map (\<lambda>e. e\<lparr>enabled := False\<rparr>) (cache ex_two)" "d1 = 1"
    by (simp add: DeleteTable_def few_drv_def count_drv_def ex_two_def Reset_def)
  have "fst (AddTable few_drv 7 s1 d1) = 0" by (simp add: AddTable_def few_drv_def count_drv_def Let_def split: prod.split)
  then obtain s2 d2 where b: "AddTable few_drv 7 s1 d1 = (0, s2, d2)" by (cases "AddTable few_drv 7 s1 d1") auto
  have t: "ipa_nat_add_ipv4_tbl few_drv 7 (of_nat (length (cache ex_two))) 0 d1 = (0, 1, d1)" by (simp add: few_drv_def count_drv_def)
  obtain ins db where e: "insert_all few_drv 1 (filter used_slot (cache s1)) d1 = (ins, db)" by (cases "insert_all few_drv 1 (filter used_slot (cache s1)) d1")
  then have "ins = [(0, 1), (-1, 5)]" by (auto simp: s1 ex_two_def ex_conn_def free_slot_def few_drv_def)
  with DeleteTable_AddTable_roundtrip [OF ex_two_inv a b refl t e] a b show ?thesis by (simp add: ex_two_def)
qed














text \<open>
  The singleton does not survive a failed construction: once \<open>Init\<close> has failed, \<open>GetInstance\<close> returns
  null that one time and the address of the deleted object ever after, whatever the configuration is by
  then; after a success it returns the same object ever after.
\<close>

theorem GetInstance_after_init:
  "case GetInstance cfg ok1 ok2 j Inst_null of
     (Inst_null, p) \<Rightarrow> fst (Init cfg ok1 ok2 (new_NatApp j)) \<noteq> 0 \<and>
       GetInstance cfg' ok1' ok2' j' p = (Inst_deleted, Inst_deleted)
   | (q, p) \<Rightarrow> fst (Init cfg ok1 ok2 (new_NatApp j)) = 0 \<and> q = Inst_live (snd (Init cfg ok1 ok2 (new_NatApp j))) \<and>
       GetInstance cfg' ok1' ok2' j' p = (q, q)"
  by (auto simp: GetInstance_def Let_def split: prod.splits if_splits natapp_ref.splits)

end
