(* ===== verification/NatSync.thy ===== *)
theory NatSync
  imports NatApp
begin

text \<open>
  The contract between the connection cache (\<open>NatApp\<close>) and the NAT library it drives. The locale \<open>rule_table\<close> states what
  the cache relies on; inside of it, every operation of the cache is shown to keep the cache and the rules in the table in step: the rules in the table are exactly
  those of the enabled cache entries, each under the handle that its entry has stored.
\<close>

section \<open>The contract\<close>

text \<open>The rules that the cache asks for: the default PDN, and a protocol that the library does not use as a mark.\<close>

definition plain_rule :: "ipa_nat_ipv4_rule \<Rightarrow> bool" where
  "plain_rule r \<longleftrightarrow> r_pdn_index r = 0 \<and> r_protocol r \<noteq> 255"

text \<open>The handles and rules of the enabled entries of the cache.\<close>

definition wanted_rules :: "nat_table_entry list \<Rightarrow> u32 \<rightharpoonup> ipa_nat_ipv4_rule" where
  "wanted_rules es h = map_option rule_of (slot_map enabled rule_hdl es h)"

definition mirrored :: "nat_table_entry list \<Rightarrow> (u32 \<rightharpoonup> ipa_nat_ipv4_rule) \<Rightarrow> bool" where
  "mirrored es m \<longleftrightarrow> distinct_on enabled rule_hdl es \<and> m = wanted_rules es"

text \<open>Requests of the system around the cache: no table is created while there is one, and no connection has the protocol number 255.\<close>

fun sync_legal :: "NatApp \<times> 'd \<Rightarrow> nat_op \<Rightarrow> bool" where
  "sync_legal sd (Add_table ip) \<longleftrightarrow> nat_table_hdl (fst sd) = 0"
| "sync_legal sd (Delete_entry e) \<longleftrightarrow> used_slot e"
| "sync_legal sd (Add_entry e) \<longleftrightarrow> protocol e \<noteq> 255"
| "sync_legal sd (Cache_entry e) \<longleftrightarrow> protocol e \<noteq> 255"
| "sync_legal sd (Add_temp e) \<longleftrightarrow> protocol e \<noteq> 255"
| "sync_legal sd x \<longleftrightarrow> True"

lemma sync_legal_nat: "sync_legal sd x \<Longrightarrow> nat_legal sd x"
  by (cases x) auto

lemma zero_entry_protocol [simp]: "protocol zero_entry = 0"
  by (simp add: zero_entry_def)

lemma mirrored_idle:
  "mirrored es m \<Longrightarrow> i < length es \<Longrightarrow> \<not> enabled (es ! i) \<Longrightarrow> \<not> enabled e \<Longrightarrow> mirrored (es[i := e]) m"
  by (auto simp: mirrored_def wanted_rules_def fun_eq_iff slot_map_skip intro: distinct_on_clear)

lemma mirrored_drop:
  "mirrored es m \<Longrightarrow> i < length es \<Longrightarrow> enabled (es ! i) \<Longrightarrow> \<not> enabled e \<Longrightarrow>
     mirrored (es[i := e]) (m(rule_hdl (es ! i) := None))"
  by (auto simp: mirrored_def wanted_rules_def fun_eq_iff slot_map_clear intro: distinct_on_clear)

lemma mirrored_fill:
  assumes m: "mirrored es m" and i: "i < length es" "\<not> enabled (es ! i)" and e: "enabled e" "m (rule_hdl e) = None"
  shows "mirrored (es[i := e]) (m(rule_hdl e \<mapsto> rule_of e))"
proof -
  have none: "slot_map enabled rule_hdl es (rule_hdl e) = None" using m e(2) by (simp add: mirrored_def wanted_rules_def)
  then have "\<forall>x \<in> set es. enabled x \<longrightarrow> rule_hdl x \<noteq> rule_hdl e" by (auto simp: slot_map_def find_None_iff)
  then have "distinct_on enabled rule_hdl (es[i := e])" using m by (intro distinct_on_fill) (auto simp: mirrored_def)
  with m show ?thesis by (auto simp: mirrored_def wanted_rules_def fun_eq_iff slot_map_fill [OF i e(1) none])
qed

lemma mirrored_cong:
  assumes "list_all2 (\<lambda>x y. enabled y = enabled x \<and> rule_hdl y = rule_hdl x \<and> rule_of y = rule_of x) es es'"
  shows "mirrored es' m = mirrored es m"
proof -
  have "(\<forall>k. (\<forall>z \<in> set es'. enabled z \<longrightarrow> rule_hdl z \<noteq> k) = (\<forall>z \<in> set es. enabled z \<longrightarrow> rule_hdl z \<noteq> k)) \<and>
      distinct_on enabled rule_hdl es' = distinct_on enabled rule_hdl es \<and> wanted_rules es' = wanted_rules es"
    using assms by (induction rule: list_all2_induct) (simp_all add: wanted_rules_def fun_eq_iff)
  then show ?thesis by (simp add: mirrored_def)
qed

lemma mirrored_rule: "mirrored es m \<Longrightarrow> e \<in> set es \<Longrightarrow> enabled e \<Longrightarrow> m (rule_hdl e) = Some (rule_of e)"
  by (simp add: mirrored_def wanted_rules_def slot_map_SomeI)

text \<open>A loop over the cache, seen as a sequence of updates of single slots.\<close>

lemma for_cache_slots:
  assumes body: "\<And>es i c d e' c' d'. Q es d \<Longrightarrow> i < length es \<Longrightarrow> S (es ! i) \<Longrightarrow> body (es ! i) c d = (e', c', d') \<Longrightarrow> Q (es[i := e']) d'"
  shows "for_cache body es c d = (es', c', d') \<Longrightarrow> \<forall>e \<in> set es. S e \<Longrightarrow> Q (pre @ es) d \<Longrightarrow> Q (pre @ es') d'"
proof (induction es arbitrary: pre c d es' c' d')
  case (Cons e es)
  obtain e1 c1 d1 where b: "body e c d = (e1, c1, d1)" by (cases "body e c d")
  obtain es1 c2 d2 where r: "for_cache body es c1 d1 = (es1, c2, d2)" by (cases "for_cache body es c1 d1")
  have "Q ((pre @ e # es)[length pre := e1]) d1" using body [OF Cons.prems(3), of "length pre" c e1 c1 d1] b Cons.prems(2) by simp
  then have "Q ((pre @ [e1]) @ es) d1" by simp
  from Cons.IH [OF r _ this] Cons.prems(1,2) b r show ?case by simp
qed simp

text \<open>The cache entries \<open>es\<close> and the library in state \<open>d\<close> are in step; \<open>tbl\<close> is the table handle, 0 when there is no table.\<close>

definition synced ::
  "nat \<Rightarrow> ('d \<Rightarrow> bool) \<Rightarrow> ('d \<Rightarrow> bool) \<Rightarrow> ('d \<Rightarrow> u32 \<rightharpoonup> ipa_nat_ipv4_rule) \<Rightarrow> u32 \<Rightarrow> nat_table_entry list \<Rightarrow> 'd \<Rightarrow> bool" where
  "synced n up down in_table tbl es d \<longleftrightarrow>
     length es = n \<and> (\<forall>e \<in> set es. protocol e \<noteq> 255) \<and>
     (tbl = 0 \<and> down d \<and> mirrored es Map.empty \<or> tbl = 1 \<and> up d \<and> mirrored es (in_table d))"

definition in_sync ::
  "nat \<Rightarrow> ('d \<Rightarrow> bool) \<Rightarrow> ('d \<Rightarrow> bool) \<Rightarrow> ('d \<Rightarrow> u32 \<rightharpoonup> ipa_nat_ipv4_rule) \<Rightarrow> NatApp \<times> 'd \<Rightarrow> bool" where
  "in_sync n up down in_table sd \<longleftrightarrow>
     nat_inv (fst sd) \<and> (\<forall>e \<in> set (temp (fst sd)). protocol e \<noteq> 255) \<and>
     synced n up down in_table (nat_table_hdl (fst sd)) (cache (fst sd)) (snd sd)"

text \<open>Only the operations on them change the waiting connections.\<close>

lemma nat_exec_temp:
  "(case x of Add_temp e \<Rightarrow> True | Delete_temp e \<Rightarrow> True | Flush_temp ip a b \<Rightarrow> True
     | _ \<Rightarrow> temp (fst (nat_exec D (s, d) x)) = temp s)"
  by (cases x) (auto simp: AddTable_def DeleteTable_def Reset_def AddEntry_def DeleteEntry_def CacheEntry_def UpdateUDPTimeStamp_def
      Read_TcpUdp_Timeout_def UpdatePwrSaveIf_def ResetPwrSaveIf_def DelEntriesOnClntDiscon_def DelEntriesOnSTAClntDiscon_def Let_def
      split: if_splits option.splits prod.splits)

locale rule_table =
  fixes D :: "'d nat_drv" and n :: nat
    and up :: "'d \<Rightarrow> bool" and down :: "'d \<Rightarrow> bool" and in_table :: "'d \<Rightarrow> u32 \<rightharpoonup> ipa_nat_ipv4_rule"
  assumes create: "down d \<Longrightarrow> \<exists>d'. ipa_nat_add_ipv4_tbl D ip (of_nat n) h d = (0, 1, d') \<and> up d' \<and> in_table d' = Map.empty"
    and destroy: "up d \<Longrightarrow> \<exists>d'. ipa_nat_del_ipv4_tbl D 1 d = (0, d') \<and> down d'"
    and add_rule: "up d \<Longrightarrow> plain_rule r \<Longrightarrow> \<exists>ret h' d'. ipa_nat_add_ipv4_rule D 1 r h d = (ret, h', d') \<and> up d' \<and>
      (if ret < 0 then in_table d' = in_table d else in_table d h' = None \<and> in_table d' = (in_table d)(h' \<mapsto> r))"
    and no_table: "down d \<Longrightarrow> \<exists>ret h'. ipa_nat_add_ipv4_rule D 0 r h d = (ret, h', d) \<and> ret < 0"
    and del_rule: "up d \<Longrightarrow> in_table d h = Some r \<Longrightarrow>
      \<exists>d'. ipa_nat_del_ipv4_rule D 1 h d = (0, d') \<and> up d' \<and> in_table d' = (in_table d)(h := None)"
    and query_rule: "up d \<Longrightarrow> in_table d h = Some r \<Longrightarrow> \<exists>ts'. ipa_nat_query_timestamp D 1 h ts d = (0, ts', d)"
begin

abbreviation in_step :: "u32 \<Rightarrow> nat_table_entry list \<Rightarrow> 'd \<Rightarrow> bool" where
  "in_step \<equiv> synced n up down in_table"

lemma step_idle:
  "in_step tbl es d \<Longrightarrow> i < length es \<Longrightarrow> \<not> enabled (es ! i) \<Longrightarrow> \<not> enabled e \<Longrightarrow> protocol e \<noteq> 255 \<Longrightarrow> in_step tbl (es[i := e]) d"
  by (auto simp: synced_def mirrored_idle dest!: set_update_subset_insert [THEN subsetD])

lemma step_up: "in_step tbl es d \<Longrightarrow> e \<in> set es \<Longrightarrow> enabled e \<Longrightarrow> tbl = 1 \<and> up d \<and> in_table d (rule_hdl e) = Some (rule_of e)"
  using mirrored_rule [of es Map.empty e] mirrored_rule [of es "in_table d" e] by (auto simp: synced_def)

lemma step_del:
  assumes "in_step tbl es d" and i: "i < length es" "enabled (es ! i)"
  shows "\<exists>d'. ipa_nat_del_ipv4_rule D tbl (rule_hdl (es ! i)) d = (0, d') \<and>
    (\<forall>e. \<not> enabled e \<longrightarrow> protocol e \<noteq> 255 \<longrightarrow> in_step tbl (es[i := e]) d')"
proof -
  have u: "tbl = 1" "up d" "in_table d (rule_hdl (es ! i)) = Some (rule_of (es ! i))" using step_up [OF assms(1) nth_mem [OF i(1)] i(2)] by auto
  from del_rule [OF u(2,3)] obtain d' where d': "ipa_nat_del_ipv4_rule D 1 (rule_hdl (es ! i)) d = (0, d')" "up d'"
    "in_table d' = (in_table d)(rule_hdl (es ! i) := None)" by auto
  have "in_step tbl (es[i := e]) d'" if "\<not> enabled e" "protocol e \<noteq> 255" for e
    using assms that u d' mirrored_drop [of es "in_table d" i e]
    by (auto simp: synced_def dest!: set_update_subset_insert [THEN subsetD])
  with d' u show ?thesis by blast
qed

lemma step_add:
  assumes s: "in_step tbl es d" and i: "i < length es" "\<not> enabled (es ! i)" and r: "plain_rule r"
  shows "\<exists>ret h' d'. ipa_nat_add_ipv4_rule D tbl r h d = (ret, h', d') \<and>
    (if ret < 0 then in_step tbl es d'
     else \<forall>e. enabled e \<longrightarrow> rule_hdl e = h' \<longrightarrow> rule_of e = r \<longrightarrow> in_step tbl (es[i := e]) d')"
proof (cases "tbl = 0")
  case True
  then show ?thesis using s no_table [of d r h] by (auto simp: synced_def)
next
  case False
  with s have u: "tbl = 1" "up d" by (auto simp: synced_def)
  from add_rule [OF u(2) r, of h] obtain ret h' d' where d': "ipa_nat_add_ipv4_rule D 1 r h d = (ret, h', d')" "up d'"
    "if ret < 0 then in_table d' = in_table d else in_table d h' = None \<and> in_table d' = (in_table d)(h' \<mapsto> r)" by auto
  have "in_step tbl (es[i := e]) d'" if "\<not> ret < 0" "enabled e" "rule_hdl e = h'" "rule_of e = r" for e
  proof -
    have "protocol e \<noteq> 255" using r that(4) by (auto simp: plain_rule_def rule_of_def)
    then show ?thesis using s i that u d' mirrored_fill [of es "in_table d" i e]
      by (auto simp: synced_def dest!: set_update_subset_insert [THEN subsetD])
  qed
  moreover have "in_step tbl es d'" if "ret < 0" using s u d' that by (auto simp: synced_def)
  ultimately show ?thesis using d'(1) u(1) by auto
qed

text \<open>The bodies of the loops over the cache.\<close>

lemma step_proto: "in_step tbl es d \<Longrightarrow> i < length es \<Longrightarrow> protocol (es ! i) \<noteq> 255"
  by (auto simp: synced_def)

lemma suspend_step:
  assumes "in_step tbl es d" and "i < length es" and "suspend_slot D tbl ip (es ! i) c d = (e', c', d')"
  shows "in_step tbl (es[i := e']) d'"
  using step_del [OF assms(1,2)] assms(1,3) step_proto [OF assms(1,2)]
  by (auto simp: suspend_slot_def split: if_splits)

lemma disable_step:
  assumes "in_step tbl es d" and "i < length es" and "disable_slot D tbl ip (es ! i) c d = (e', c', d')"
  shows "in_step tbl (es[i := e']) d'"
  using step_del [OF assms(1,2)] assms(1,3) step_proto [OF assms(1,2)]
  by (auto simp: disable_slot_def split: if_splits)

lemma drop_step:
  assumes "in_step tbl es d" and "i < length es" and "drop_slot D tbl ip (es ! i) c d = (e', c', d')"
  shows "in_step tbl (es[i := e']) d'"
  using step_del [OF assms(1,2)] step_idle [OF assms(1,2), of zero_entry] assms(1,3)
  by (auto simp: drop_slot_def split: if_splits)

lemma rule_of_flags: "rule_of (e\<lparr>rule_hdl := h, enabled := b\<rparr>) = rule_of e"
  by (simp add: rule_of_def)

lemma plain_rule_of: "plain_rule (rule_of e) \<longleftrightarrow> protocol e \<noteq> 255"
  by (simp add: plain_rule_def rule_of_def)

lemma enable_step:
  assumes s: "in_step tbl es d" "i < length es" "\<not> enabled (es ! i)" and e: "protocol (es ! i) \<noteq> 255"
    and c: "ipa_nat_add_ipv4_rule D tbl (rule_of (es ! i)) h d = (ret, h', d')"
  shows "in_step tbl (es[i := if ret < 0 then zero_entry else (es ! i)\<lparr>rule_hdl := h', enabled := True\<rparr>]) d'"
  using step_add [OF s, of "rule_of (es ! i)" h] e c step_idle [of tbl es d' i zero_entry] s(2,3)
  by (auto simp: plain_rule_of rule_of_flags split: if_splits)

lemma resume_step:
  assumes "in_step tbl es d" and "i < length es" and "resume_slot D tbl ip (es ! i) c d = (e', c', d')"
  shows "in_step tbl (es[i := e']) d'"
  using enable_step [OF assms(1,2) _ step_proto [OF assms(1,2)]] assms(1,3)
  by (fastforce simp: resume_slot_def split: if_splits prod.splits)

lemma restore_step:
  assumes "in_step tbl es d" and "i < length es" and "\<not> enabled (es ! i)" and "restore_slot D tbl (es ! i) c d = (e', c', d')"
  shows "in_step tbl (es[i := e']) d'"
  using enable_step [OF assms(1,2,3) step_proto [OF assms(1,2)]] assms(1,4)
  by (fastforce simp: restore_slot_def split: if_splits prod.splits)

text \<open>The operations. The invariant of the cache itself is kept by all of them.\<close>

lemma loop_step:
  assumes "\<And>es i c d e' c' d'. in_step tbl es d \<Longrightarrow> i < length es \<Longrightarrow> body (es ! i) c d = (e', c', d') \<Longrightarrow> in_step tbl (es[i := e']) d'"
    and "for_cache body es c d = (es', c', d')" and "in_step tbl es d"
  shows "in_step tbl es' d'"
  using for_cache_slots [of "in_step tbl" "\<lambda>_. True" body es c d es' c' d' "[]"] assms by simp

lemmas loops_step = loop_step [OF suspend_step] loop_step [OF resume_step] loop_step [OF disable_step] loop_step [OF drop_step]

lemma sync_Pwr_save: "in_step (nat_table_hdl s) (cache s) d \<Longrightarrow> UpdatePwrSaveIf D ip s d = (r, s', d') \<Longrightarrow> in_step (nat_table_hdl s') (cache s') d'"
  by (auto simp: UpdatePwrSaveIf_def Let_def split: if_splits option.splits prod.splits intro: loops_step)

lemma sync_Pwr_reset: "in_step (nat_table_hdl s) (cache s) d \<Longrightarrow> ResetPwrSaveIf D ip s d = (r, s', d') \<Longrightarrow> in_step (nat_table_hdl s') (cache s') d'"
  by (auto simp: ResetPwrSaveIf_def Let_def split: if_splits prod.splits intro: loops_step)

lemma sync_Clnt_discon: "in_step (nat_table_hdl s) (cache s) d \<Longrightarrow> DelEntriesOnClntDiscon D ip s d = (r, s', d') \<Longrightarrow> in_step (nat_table_hdl s') (cache s') d'"
  by (auto simp: DelEntriesOnClntDiscon_def Let_def split: if_splits prod.splits intro: loops_step)

lemma sync_Sta_discon: "in_step (nat_table_hdl s) (cache s) d \<Longrightarrow> DelEntriesOnSTAClntDiscon D ip s d = (r, s', d') \<Longrightarrow> in_step (nat_table_hdl s') (cache s') d'"
  by (auto simp: DelEntriesOnSTAClntDiscon_def Let_def split: if_splits prod.splits intro: loops_step)

lemma sync_Add_table:
  assumes s: "in_step (nat_table_hdl s) (cache s) d" and h: "nat_table_hdl s = 0" and a: "AddTable D ip s d = (r, s', d')"
  shows "in_step (nat_table_hdl s') (cache s') d'"
proof -
  have d: "down d" "length (cache s) = n" "\<forall>e \<in> set (cache s). protocol e \<noteq> 255" "mirrored (cache s) Map.empty"
    using s h by (auto simp: synced_def)
  then have off: "\<forall>e \<in> set (cache s). \<not> enabled e" using mirrored_rule by force
  from create [OF d(1), of ip "nat_table_hdl s"] obtain d1 where
    d1: "ipa_nat_add_ipv4_tbl D ip (of_nat (length (cache s))) (nat_table_hdl s) d = (0, 1, d1)" "up d1" "in_table d1 = Map.empty" using d(2) by auto
  have s1: "in_step 1 (cache s) d1" using d d1(2,3) by (simp add: synced_def)
  have "in_step 1 es d2" if "for_cache (restore_slot D 1) (cache s) (curCnt s) d1 = (es, c, d2)" for es c d2
    using for_cache_slots [of "in_step 1" "\<lambda>e. \<not> enabled e" "restore_slot D 1", OF _ that off, of "[]"] restore_step s1 by fastforce
  then show ?thesis using a d1(1) s1 by (auto simp: AddTable_def Let_def split: if_splits prod.splits)
qed

lemma mirrored_off: "mirrored (map (\<lambda>e. e\<lparr>enabled := False\<rparr>) es) Map.empty"
  by (induction es) (simp_all add: mirrored_def wanted_rules_def fun_eq_iff)

lemma sync_Delete_table:
  assumes s: "in_step (nat_table_hdl s) (cache s) d" and a: "DeleteTable D ip s d = (r, s', d')"
  shows "in_step (nat_table_hdl s') (cache s') d'"
proof (cases "nat_table_hdl s = 0 \<or> pub_ip_addr s \<noteq> ip")
  case True
  then show ?thesis using s a by (auto simp: DeleteTable_def split: if_splits)
next
  case False
  with s have u: "nat_table_hdl s = 1" "up d" by (auto simp: synced_def)
  from destroy [OF u(2)] obtain d1 where "ipa_nat_del_ipv4_tbl D 1 d = (0, d1)" "down d1" by auto
  with False u a s show ?thesis by (auto simp: DeleteTable_def Reset_def synced_def mirrored_off)
qed

lemma sync_Delete_entry:
  assumes s: "in_step (nat_table_hdl s) (cache s) d" and a: "DeleteEntry D e s d = (r, s', d')"
  shows "in_step (nat_table_hdl s') (cache s') d'"
proof (cases "first_idx (\<lambda>x. same_conn x e) (cache s)")
  case None
  then show ?thesis using s a by (simp add: DeleteEntry_def del: first_idx_None)
next
  case (Some i)
  then have i: "i < length (cache s)" using first_idx_SomeD by blast
  show ?thesis using step_del [OF s i] step_idle [OF s i, of zero_entry] Some a by (auto simp: DeleteEntry_def Let_def split: if_splits)
qed

lemma free_off: "nat_inv s \<Longrightarrow> first_idx free_slot (cache s) = Some i \<Longrightarrow> i < length (cache s) \<and> \<not> enabled (cache s ! i)"
  using first_idx_SomeD [of free_slot "cache s" i] by (auto simp: nat_inv_def list_all_length slot_ok_def split: if_splits)

lemma fill_slot_rule [simp]:
  "rule_of (fill_slot e x) = rule_of e" "rule_hdl (fill_slot e x) = rule_hdl x" "enabled (fill_slot e x) = enabled x" "protocol (fill_slot e x) = protocol e"
  by (simp_all add: fill_slot_def rule_of_def)

lemma sync_Cache_entry:
  assumes s: "in_step (nat_table_hdl s) (cache s) d" and "nat_inv s" and "protocol e \<noteq> 255"
  shows "in_step (nat_table_hdl (CacheEntry e s)) (cache (CacheEntry e s)) d"
  using assms free_off [of s] by (auto simp: CacheEntry_def intro!: step_idle split: option.split)

lemma sync_Add_entry:
  assumes s: "in_step (nat_table_hdl s) (cache s) d" and inv: "nat_inv s" and e: "protocol e \<noteq> 255" and a: "AddEntry D e s d = (r, s', d')"
  shows "in_step (nat_table_hdl s') (cache s') d'"
proof (cases "first_idx free_slot (cache s)")
  case None
  then show ?thesis using s a by (auto simp: AddEntry_def simp del: first_idx_None split: if_splits)
next
  case (Some i)
  with free_off [OF inv] have i: "i < length (cache s)" "\<not> enabled (cache s ! i)" by auto
  obtain ret h' d1 where c: "ipa_nat_add_ipv4_rule D (nat_table_hdl s) (rule_of e) (rule_hdl (cache s ! i)) d = (ret, h', d1)"
    by (cases "ipa_nat_add_ipv4_rule D (nat_table_hdl s) (rule_of e) (rule_hdl (cache s ! i)) d")
  have p: "plain_rule (rule_of e)" using e by (simp add: plain_rule_of)
  have "in_step (nat_table_hdl s) ((cache s)[i := fill_slot e ((cache s ! i)\<lparr>enabled := False, rule_hdl := 0\<rparr>)]) d"
    using step_idle [OF s i] e by simp
  moreover have "in_step (nat_table_hdl s) ((cache s)[i := (cache s ! i)\<lparr>rule_hdl := h'\<rparr>]) d1" if "ret < 0"
    using step_add [OF s i p, of "rule_hdl (cache s ! i)"] c that step_proto [OF s i(1)] i by (auto intro!: step_idle)
  moreover have "in_step (nat_table_hdl s) ((cache s)[i := fill_slot e ((cache s ! i)\<lparr>rule_hdl := h', enabled := True\<rparr>)]) d1" if "\<not> ret < 0"
    using step_add [OF s i p, of "rule_hdl (cache s ! i)"] c that by auto
  ultimately show ?thesis using s a Some c by (auto simp: AddEntry_def Let_def split: if_splits)
qed

lemma update_ts_same:
  assumes "in_step tbl es d" and "set fs \<subseteq> set es" and "update_ts_loop D tou pub tbl fs r d = (fs', r', us, d')"
  shows "d' = d"
  using assms(2,3)
proof (induction fs arbitrary: fs' r r' us)
  case (Cons e fs)
  have q: "\<exists>ts'. ipa_nat_query_timestamp D tbl (rule_hdl e) 0 d = (0, ts', d)" if "enabled e"
    using step_up [OF assms(1) _ that] query_rule [of d "rule_hdl e" "rule_of e" 0] Cons.prems(1) by auto
  then show ?case using Cons by (auto simp: Let_def split: if_splits prod.splits)
qed simp

lemma sync_Update_ts:
  assumes s: "in_step (nat_table_hdl s) (cache s) d" and a: "UpdateUDPTimeStamp D tou s d = (s', us, d')"
  shows "in_step (nat_table_hdl s') (cache s') d'"
proof -
  obtain es r where l: "update_ts_loop D tou (pub_ip_addr s) (nat_table_hdl s) (cache s) False d = (es, r, us, d')"
    and s': "nat_table_hdl s' = nat_table_hdl s" "cache s' = es"
    using a by (auto simp: UpdateUDPTimeStamp_def Read_TcpUdp_Timeout_def Let_def split: prod.splits if_splits)
  note m = update_ts_loop_map [OF l]
  have "list_all2 (\<lambda>x y. enabled y = enabled x \<and> rule_hdl y = rule_hdl x \<and> rule_of y = rule_of x) (cache s) es"
    by (rule list_all2_mono [OF m]) (auto simp: rule_of_def)
  then have "mirrored es t = mirrored (cache s) t" for t by (rule mirrored_cong)
  moreover have "length es = length (cache s)" "\<forall>e \<in> set es. protocol e \<noteq> 255"
    using m s by (fastforce simp: list_all2_conv_all_nth in_set_conv_nth synced_def)+
  ultimately show ?thesis using s s' update_ts_same [OF s _ l] by (auto simp: synced_def)
qed

text \<open>Connections that wait: none of them has the protocol 255.\<close>

abbreviation temp_ok :: "NatApp \<Rightarrow> bool" where
  "temp_ok s \<equiv> \<forall>e \<in> set (temp s). protocol e \<noteq> 255"

lemma AddEntry_temp: "AddEntry D e s d = (r, s', d') \<Longrightarrow> temp s' = temp s"
  by (auto simp: AddEntry_def Let_def split: if_splits option.splits prod.splits)

lemma temp_ok_upd: "temp_ok s \<Longrightarrow> protocol e \<noteq> 255 \<Longrightarrow> temp_ok (s\<lparr>temp := (temp s)[i := e]\<rparr>)"
  by (auto dest!: set_update_subset_insert [THEN subsetD])

abbreviation sync :: "NatApp \<times> 'd \<Rightarrow> bool" where
  "sync \<equiv> in_sync n up down in_table"

lemma sync_temp: "sync (s, d) \<Longrightarrow> protocol e \<noteq> 255 \<Longrightarrow> sync (s\<lparr>temp := (temp s)[i := e]\<rparr>, d)"
  using temp_ok_upd [of s e i] by (simp add: in_sync_def)

lemma flush_sync:
  assumes "sync sd" and "i < MAX_TEMP_ENTRIES"
  shows "sync (flush_slot D ip isAdd isDummy i sd)"
proof -
  obtain s d where sd: "sd = (s, d)" by (cases sd)
  let ?t = "temp s ! i" let ?t1 = "if isDummy then ?t\<lparr>private_ip := public_ip ?t, private_port := public_port ?t\<rparr> else ?t"
  let ?s = "s\<lparr>temp := (temp s)[i := ?t1]\<rparr>"
  have "protocol ?t \<noteq> 255" using assms sd by (simp add: in_sync_def nat_inv_def)
  then have t1: "protocol ?t1 \<noteq> 255" by simp
  obtain ret s2 d2 where a: "AddEntry D ?t1 ?s d = (ret, s2, d2)" by (cases "AddEntry D ?t1 ?s d")
  have z: "sync (s\<lparr>temp := (temp s)[i := zero_entry]\<rparr>, d)" using sync_temp assms(1) sd by simp
  have s1: "sync (?s, d)" using sync_temp [OF _ t1] assms(1) sd by simp
  have "sync (s2, d2)" using s1 AddEntry_inv [OF _ a] sync_Add_entry [OF _ _ t1 a] AddEntry_temp [OF a] by (simp add: in_sync_def)
  then show ?thesis using z assms(1) sd a sync_temp [of s2 d2 zero_entry i] by (auto simp: flush_slot_def Let_def simp del: if_split)
qed

lemma sync_Flush: "sync (s, d) \<Longrightarrow> sync (FlushTempEntries D ip isAdd isDummy s d)"
proof -
  have "sync (fold (flush_slot D ip isAdd isDummy) is sd)" if "sync sd" "\<forall>i \<in> set is. i < MAX_TEMP_ENTRIES" for "is" sd
    using that by (induction "is" arbitrary: sd) (simp_all add: flush_sync)
  then show "sync (s, d) \<Longrightarrow> ?thesis" by (simp add: FlushTempEntries_def)
qed

lemma sync_step:
  assumes s: "sync sd" and l: "sync_legal sd x"
  shows "sync (nat_exec D sd x)"
proof -
  obtain s d where sd: "sd = (s, d)" by (cases sd)
  let ?sd = "nat_exec D (s, d) x"
  have inv: "nat_inv (fst ?sd)" using nat_exec_inv [of "(s, d)" x D] sync_legal_nat [of "(s, d)" x] s l sd by (simp add: in_sync_def)
  have i: "nat_inv s" "temp_ok s" "in_step (nat_table_hdl s) (cache s) d" using s sd by (auto simp: in_sync_def)
  note ops = sync_Pwr_save [OF i(3) triple] sync_Pwr_reset [OF i(3) triple] sync_Clnt_discon [OF i(3) triple] sync_Sta_discon [OF i(3) triple]
    sync_Add_table [OF i(3) _ triple] sync_Delete_table [OF i(3) triple] sync_Delete_entry [OF i(3) triple]
    sync_Cache_entry [OF i(3,1)] sync_Add_entry [OF i(3,1) _ triple] sync_Update_ts [OF i(3) triple]
  show ?thesis
  proof (cases x)
    case (Add_temp e)
    then show ?thesis using s l sd sync_temp by (simp add: AddTempEntry_def split: option.split)
  next
    case (Delete_temp e)
    then show ?thesis using s sd sync_temp by (simp add: DeleteTempEntry_def split: option.split)
  next
    case Flush_temp
    then show ?thesis using s sd sync_Flush by simp
  qed (use i inv l sd ops nat_exec_temp [where D = D and s = s and d = d and x = x] in \<open>auto simp: in_sync_def Let_def case_prod_unfold\<close>)
qed

end

sublocale rule_table \<subseteq> cache_system: safe_component "\<lambda>sd x. Some (nat_exec D sd x)" "in_sync n up down in_table" sync_legal
  by unfold_locales (metis sync_step option.inject, simp)

end
