(* ===== verification/NatWords.thy ===== *)
theory NatWords
  imports IPA_Prelude
begin

text \<open>
  The machine arithmetic of the IPA NAT library (\<open>ipanat/src/ipa_nat_drvi.c\<close>, utility functions): packed fields of
  the table entries, table sizes, the two hash functions, and the checksum differences that the hardware adds to the
  headers of translated packets.
\<close>

unbundle bit_operations_syntax

section \<open>Halves of a 32-bit word\<close>

definition lo16 :: "u32 \<Rightarrow> u16" where "lo16 w = ucast w"
definition hi16 :: "u32 \<Rightarrow> u16" where "hi16 w = ucast (drop_bit 16 w)"
definition mk32 :: "u16 \<Rightarrow> u16 \<Rightarrow> u32" where "mk32 h l = push_bit 16 (ucast h) OR ucast l"

lemma bit16 [simp]: "16 \<le> n \<Longrightarrow> \<not> bit (w :: u16) n"
  by (simp add: impossible_bit)

lemma lo16_bit: "bit (lo16 w) n \<longleftrightarrow> n < 16 \<and> bit w n"
  by (auto simp: lo16_def bit_simps)

lemma hi16_bit: "bit (hi16 w) n \<longleftrightarrow> n < 16 \<and> bit w (n + 16)"
  by (auto simp: hi16_def bit_simps add.commute)

lemma mk32_bit: "bit (mk32 h l) n \<longleftrightarrow> (if n < 16 then bit l n else n < 32 \<and> bit h (n - 16))"
  by (auto simp: mk32_def bit_simps)

lemma lo16_mk32 [simp]: "lo16 (mk32 h l) = l"
  by (rule bit_word_eqI) (simp add: lo16_bit mk32_bit)

lemma hi16_mk32 [simp]: "hi16 (mk32 h l) = h"
  by (rule bit_word_eqI) (simp add: hi16_bit mk32_bit)

lemma mk32_halves [simp]: "mk32 (hi16 w) (lo16 w) = w"
  by (rule bit_word_eqI) (auto simp: lo16_bit hi16_bit mk32_bit)

lemma halves_0 [simp]: "lo16 0 = 0" "hi16 0 = 0" "mk32 0 0 = 0"
  by (simp_all add: lo16_def hi16_def mk32_def)

section \<open>Fields\<close>

datatype ipa_nat_rule_field_type = NEXT_INDEX_FIELD | PUBLIC_PORT_FILED | PRIVATE_PORT_FIELD | TARGET_PORT_FIELD
  | IP_CHKSUM_FIELD | ENABLE_FIELD | TIME_STAMP_FIELD | PROTOCOL_FIELD | TCP_UDP_CHKSUM_FIELD
  | SW_SPEC_PARAM_PREV_INDEX_FIELD | SW_SPEC_PARAM_INDX_TBL_ENTRY_FIELD | INDX_TBL_TBL_ENTRY_FIELD
  | INDX_TBL_NEXT_INDEX_FILED

definition Read8BitFieldValue :: "u32 \<Rightarrow> ipa_nat_rule_field_type \<Rightarrow> u8" where
  "Read8BitFieldValue param fld_type = (case fld_type of PROTOCOL_FIELD \<Rightarrow> ucast (drop_bit 24 param) | _ \<Rightarrow> 0)"

definition Read16BitFieldValue :: "u32 \<Rightarrow> ipa_nat_rule_field_type \<Rightarrow> u16" where
  "Read16BitFieldValue param fld_type =
     (case fld_type of
        NEXT_INDEX_FIELD \<Rightarrow> lo16 param
      | PUBLIC_PORT_FILED \<Rightarrow> hi16 param
      | ENABLE_FIELD \<Rightarrow> ucast (drop_bit 31 param)
      | SW_SPEC_PARAM_PREV_INDEX_FIELD \<Rightarrow> lo16 param
      | SW_SPEC_PARAM_INDX_TBL_ENTRY_FIELD \<Rightarrow> hi16 param
      | INDX_TBL_TBL_ENTRY_FIELD \<Rightarrow> lo16 param
      | INDX_TBL_NEXT_INDEX_FILED \<Rightarrow> hi16 param
      | IP_CHKSUM_FIELD \<Rightarrow> lo16 param
      | _ \<Rightarrow> 0)"

definition Read32BitFieldValue :: "u32 \<Rightarrow> ipa_nat_rule_field_type \<Rightarrow> u32" where
  "Read32BitFieldValue param fld_type = (case fld_type of TIME_STAMP_FIELD \<Rightarrow> take_bit 24 param | _ \<Rightarrow> 0)"

definition IPA_NAT_SW_PARAM_PREV_INDX_BYTE :: u8 where "IPA_NAT_SW_PARAM_PREV_INDX_BYTE = 0"
definition IPA_NAT_SW_PARAM_INDX_TBL_ENTRY_BYTE :: u8 where "IPA_NAT_SW_PARAM_INDX_TBL_ENTRY_BYTE = 1"

text \<open>The new value of \<open>rule->sw_spec_params\<close>.\<close>

definition UpdateSwSpecParams :: "u32 \<Rightarrow> u8 \<Rightarrow> u32 \<Rightarrow> u32" where
  "UpdateSwSpecParams sw_spec_params param_type v =
     (let temp = sw_spec_params
      in if IPA_NAT_SW_PARAM_INDX_TBL_ENTRY_BYTE = param_type
         then (temp AND 0x0000FFFF) OR push_bit 16 v
         else (temp AND 0xFFFF0000) OR v)"

lemma low_mask: "w AND 0xFFFF = (take_bit 16 w :: u32)"
proof -
  have "(0xFFFF :: u32) = mask 16" by (simp add: mask_eq_exp_minus_1)
  then show ?thesis by (simp add: take_bit_eq_mask)
qed

lemma high_mask: "w AND 0xFFFF0000 = (push_bit 16 (drop_bit 16 w) :: u32)"
proof -
  have e: "(0xFFFF0000 :: u32) = push_bit 16 (mask 16)" by (simp add: mask_eq_exp_minus_1 push_bit_eq_mult)
  show ?thesis unfolding e by (rule bit_word_eqI) (auto simp: bit_and_iff bit_push_bit_iff bit_mask_iff bit_drop_bit_eq)
qed

lemma UpdateSwSpecParams_prev:
  "UpdateSwSpecParams w IPA_NAT_SW_PARAM_PREV_INDX_BYTE (ucast v) = mk32 (hi16 w) v" for v :: u16
  unfolding UpdateSwSpecParams_def high_mask
  by (rule bit_word_eqI)
    (auto simp: IPA_NAT_SW_PARAM_PREV_INDX_BYTE_def IPA_NAT_SW_PARAM_INDX_TBL_ENTRY_BYTE_def mk32_bit hi16_bit bit_simps)

lemma UpdateSwSpecParams_indx:
  "UpdateSwSpecParams w IPA_NAT_SW_PARAM_INDX_TBL_ENTRY_BYTE (ucast v) = mk32 v (lo16 w)" for v :: u16
  unfolding UpdateSwSpecParams_def low_mask
  by (rule bit_word_eqI) (auto simp: mk32_bit lo16_bit bit_simps)

section \<open>Table sizes\<close>

definition EINVAL :: int where "EINVAL = 22"

text \<open>The loop: \<open>num\<close> is halved while \<open>tmp\<close> is doubled, until \<open>num\<close> is 1. It does not end for \<open>num = 0\<close>.\<close>

function GetNearest2Power_loop :: "u16 \<Rightarrow> u16 \<Rightarrow> u16 \<Rightarrow> u16" where
  "GetNearest2Power_loop number num tmp =
     (if num = 0 \<or> num = 1 then (if number \<noteq> tmp then tmp * 2 else tmp)
      else GetNearest2Power_loop number (drop_bit 1 num) (tmp * 2))"
  by pat_completeness auto
termination
proof (relation "measure (\<lambda>(number, num, tmp). unat num)", goal_cases)
  case 1
  show ?case by simp
next
  case (2 number num tmp)
  then have "0 < unat num" by (simp add: unat_gt_0)
  then show ?case by (simp add: drop_bit_Suc unat_div)
qed

declare GetNearest2Power_loop.simps [simp del]

text \<open>Result: the return value and \<open>*ret\<close>.\<close>

definition GetNearest2Power :: "u16 \<Rightarrow> int \<times> u16" where
  "GetNearest2Power num =
     (if 0 = num then (- EINVAL, 0) else if 1 = num then (0, 2) else (0, GetNearest2Power_loop num num 1))"

definition GetNearestEven :: "u16 \<Rightarrow> u16" where
  "GetNearestEven num = (if num < 2 then 2 else if num mod 2 \<noteq> 0 then num + 1 else num)"

section \<open>Hashes\<close>

text \<open>\<open>v4\<close>: \<open>ipv4_nat_cache.ver >= IPA_HW_v4_0\<close>.\<close>

definition dst_hash :: "bool \<Rightarrow> u32 \<Rightarrow> u32 \<Rightarrow> u16 \<Rightarrow> u16 \<Rightarrow> u8 \<Rightarrow> u16 \<Rightarrow> u16" where
  "dst_hash v4 public_ip trgt_ip trgt_port public_port proto sz =
     (let hash = lo16 trgt_ip XOR hi16 trgt_ip XOR trgt_port XOR public_port XOR ucast proto;
          hash = (if v4 then hash XOR (lo16 public_ip XOR hi16 public_ip) else hash);
          hash = hash AND sz
      in if 0 = hash then sz else hash)"

definition src_hash :: "u32 \<Rightarrow> u16 \<Rightarrow> u32 \<Rightarrow> u16 \<Rightarrow> u8 \<Rightarrow> u16 \<Rightarrow> u16" where
  "src_hash priv_ip priv_port trgt_ip trgt_port proto sz =
     (let hash = lo16 priv_ip XOR hi16 priv_ip XOR priv_port XOR lo16 trgt_ip XOR hi16 trgt_ip XOR trgt_port XOR ucast proto;
          hash = hash AND sz
      in if 0 = hash then sz else hash)"

lemma and_le: "h AND s \<le> (s :: u16)"
  by (simp add: word_and_le1)

lemma dst_hash_range: "sz \<noteq> 0 \<Longrightarrow> dst_hash v4 p t tp pp pr sz \<noteq> 0 \<and> dst_hash v4 p t tp pp pr sz \<le> sz"
  by (auto simp: dst_hash_def Let_def and_le)

lemma src_hash_range: "sz \<noteq> 0 \<Longrightarrow> src_hash p pp t tp pr sz \<noteq> 0 \<and> src_hash p pp t tp pr sz \<le> sz"
  by (auto simp: src_hash_def Let_def and_le)

section \<open>Checksum differences\<close>

text \<open>\<open>cksum += x; if (cksum >> 16) { cksum = (cksum & 0xFFFF); cksum += 1; }\<close>\<close>

definition add_carry :: "u32 \<Rightarrow> u32 \<Rightarrow> u32" where
  "add_carry cksum x = (let c = cksum + x in if drop_bit 16 c \<noteq> 0 then (c AND 0x0000FFFF) + 1 else c)"

definition ipa_nati_calc_ip_cksum :: "u32 \<Rightarrow> u32 \<Rightarrow> u16" where
  "ipa_nati_calc_ip_cksum pub_ip_addr priv_ip_addr =
     (let cksum = 0 + (pub_ip_addr AND 0xFFFF);
          cksum = add_carry cksum (drop_bit 16 pub_ip_addr);
          priv_ip_addr = NOT priv_ip_addr;
          cksum = add_carry cksum (priv_ip_addr AND 0xFFFF);
          cksum = add_carry cksum (drop_bit 16 priv_ip_addr)
      in ucast cksum)"

definition ipa_nati_calc_tcp_udp_cksum :: "u32 \<Rightarrow> u16 \<Rightarrow> u32 \<Rightarrow> u16 \<Rightarrow> u16" where
  "ipa_nati_calc_tcp_udp_cksum pub_ip_addr pub_port priv_ip_addr priv_port =
     (let cksum = 0 + (pub_ip_addr AND 0xFFFF);
          cksum = add_carry cksum (drop_bit 16 pub_ip_addr);
          cksum = add_carry cksum (ucast pub_port);
          priv_ip_addr = NOT priv_ip_addr;
          cksum = add_carry cksum (priv_ip_addr AND 0xFFFF);
          cksum = add_carry cksum (drop_bit 16 priv_ip_addr);
          priv_port = NOT priv_port;
          cksum = add_carry cksum (ucast priv_port)
      in ucast cksum)"

lemma low_high_ucast: "w AND 0xFFFF = ucast (lo16 w)" "drop_bit 16 w = ucast (hi16 w)" for w :: u32
  by (rule bit_word_eqI; auto simp: low_mask lo16_def hi16_def bit_simps dest: bit_imp_le_length)+

lemma half_not: "lo16 (NOT w) = NOT (lo16 w)" "hi16 (NOT w) = NOT (hi16 w)"
  by (rule bit_word_eqI; simp add: lo16_bit hi16_bit bit_not_iff)+

lemma unat_not16: "int (unat (NOT w)) = 65535 - int (unat w)" for w :: u16
proof -
  have "NOT w = - 1 - w" by (simp add: not_eq_complement)
  moreover have "unat (- 1 :: u16) = 65535" by (simp add: unsigned_minus_1_eq_mask mask_eq_exp_minus_1)
  ultimately have "unat (NOT w) = 65535 - unat w" by (simp add: unat_sub)
  moreover have "unat w \<le> 65535" using unsigned_less [of w, where ?'a = nat] by simp
  ultimately show ?thesis by simp
qed

lemmas uint_not16 = unat_not16 [simplified]

lemma unat_ucast16: "unat (ucast x :: u32) = unat x" for x :: u16
  by (simp add: unsigned_ucast_eq take_bit_nat_eq_self order_less_trans [OF unsigned_less])

text \<open>One's complement addition: the value stays below \<open>2 ^ 16\<close> and is the sum modulo 65535.\<close>

lemma add_carry_sum:
  fixes x :: u16
  assumes "unat c \<le> 65535"
  shows "unat (add_carry c (ucast x)) \<le> 65535 \<and>
    int (unat (add_carry c (ucast x))) mod 65535 = (int (unat c) + int (unat x)) mod 65535"
proof -
  have x: "unat x \<le> 65535" using unsigned_less [of x, where ?'a = nat] by simp
  let ?s = "c + ucast x :: u32"
  have s: "unat ?s = unat c + unat x" using assms x unat_ucast16 [of x] by (simp add: unat_word_ariths)
  have h: "drop_bit 16 ?s = 0 \<longleftrightarrow> unat ?s < 65536"
  proof -
    have "drop_bit 16 ?s = 0 \<longleftrightarrow> unat (drop_bit 16 ?s) = 0" by (simp add: unat_eq_zero)
    also have "unat (drop_bit 16 ?s) = unat ?s div 65536" by (simp add: drop_bit_eq_div unat_div)
    finally show ?thesis by (simp add: div_eq_0_iff)
  qed
  show ?thesis
  proof (cases "unat ?s < 65536")
    case True
    then show ?thesis using h s by (simp add: add_carry_def Let_def)
  next
    case False
    have "unat (?s AND 0xFFFF) = unat ?s mod 65536" by (simp add: low_mask take_bit_eq_mod unat_mod)
    then have "unat ((?s AND 0xFFFF) + 1) = unat ?s mod 65536 + 1" by (simp add: unat_word_ariths)
    moreover have "unat ?s mod 65536 = unat ?s - 65536" using False s assms x by (simp add: mod_if)
    ultimately have "unat (add_carry c (ucast x)) = unat c + unat x - 65535" using False h s by (simp add: add_carry_def Let_def)
    moreover have "int (unat c + unat x - 65535) mod 65535 = (int (unat c) + int (unat x)) mod 65535"
      using False s by (simp add: of_nat_diff minus_mod_self2)
    ultimately show ?thesis using assms x by simp
  qed
qed

text \<open>The two halves of an address, and the one's complement sum of numbers.\<close>

definition halves :: "u32 \<Rightarrow> int" where
  "halves ip = int (unat (lo16 ip)) + int (unat (hi16 ip))"

definition carry_sum :: "u16 list \<Rightarrow> u32" where
  "carry_sum xs = foldl (\<lambda>c x. add_carry c (ucast x)) 0 xs"

lemma carry_fold:
  "unat c \<le> 65535 \<Longrightarrow> unat (foldl (\<lambda>c x. add_carry c (ucast x)) c xs) \<le> 65535 \<and>
     int (unat (foldl (\<lambda>c x. add_carry c (ucast x)) c xs)) mod 65535 = (int (unat c) + (\<Sum>x\<leftarrow>xs. int (unat x))) mod 65535"
  for xs :: "u16 list"
proof (induction xs arbitrary: c)
  case Nil
  then show ?case by simp
next
  case (Cons x xs)
  note a = add_carry_sum [OF Cons.prems, of x]
  from Cons.IH [OF conjunct1 [OF a]] conjunct2 [OF a] show ?case
    by (simp add: add.assoc [symmetric]) (metis mod_add_left_eq)
qed

lemma carry_sum:
  "int (unat (ucast (carry_sum xs) :: u16)) mod 65535 = (\<Sum>x\<leftarrow>xs. int (unat x)) mod 65535"
proof -
  have "unat (carry_sum xs) \<le> 65535" "int (unat (carry_sum xs)) mod 65535 = (\<Sum>x\<leftarrow>xs. int (unat x)) mod 65535"
    using carry_fold [of 0 xs] by (simp_all add: carry_sum_def)
  then show ?thesis by (simp add: unsigned_ucast_eq take_bit_nat_eq_self)
qed

lemma add_carry_first: "add_carry 0 (ucast x) = ucast x" for x :: u16
proof -
  have "drop_bit 16 (ucast x :: u32) = 0" by (rule bit_word_eqI) (auto simp: bit_simps)
  then show ?thesis by (simp add: add_carry_def)
qed

lemma cksum_as_sums:
  "ipa_nati_calc_ip_cksum pub priv = ucast (carry_sum [lo16 pub, hi16 pub, NOT (lo16 priv), NOT (hi16 priv)])"
  "ipa_nati_calc_tcp_udp_cksum pub pport priv vport =
     ucast (carry_sum [lo16 pub, hi16 pub, pport, NOT (lo16 priv), NOT (hi16 priv), NOT vport])"
  by (simp_all add: ipa_nati_calc_ip_cksum_def ipa_nati_calc_tcp_udp_cksum_def carry_sum_def add_carry_first Let_def
      low_high_ucast half_not)

text \<open>
  The checksum differences are right. The 16-bit numbers that the driver gives the hardware are the
  one's complement differences: modulo 65535, the IP difference plus the halves of the private address is the sum of the halves of
  the public address, and the TCP/UDP difference also accounts for the ports. (Adding such a number to the one's complement sum of a header is
  what replacing the private by the public address and port does to it.)
\<close>

theorem checksum_differences:
  "(int (unat (ipa_nati_calc_ip_cksum pub priv)) + halves priv) mod 65535 = halves pub mod 65535 \<and>
   (int (unat (ipa_nati_calc_tcp_udp_cksum pub pport priv vport)) + halves priv + int (unat vport)) mod 65535 =
     (halves pub + int (unat pport)) mod 65535"
proof -
  have shift: "(a + t) mod 65535 = r mod 65535" if "a mod 65535 = S mod 65535" "S + t = r + 65535 * q" for a t r S q :: int
    by (metis that mod_add_left_eq mod_mult_self2)
  have 1: "(\<Sum>x\<leftarrow>[lo16 pub, hi16 pub, NOT (lo16 priv), NOT (hi16 priv)]. int (unat x)) + halves priv = halves pub + 65535 * 2"
    by (simp add: uint_not16 halves_def)
  have 2: "(\<Sum>x\<leftarrow>[lo16 pub, hi16 pub, pport, NOT (lo16 priv), NOT (hi16 priv), NOT vport]. int (unat x)) +
      (halves priv + int (unat vport)) = (halves pub + int (unat pport)) + 65535 * 3"
    by (simp add: uint_not16 halves_def)
  show ?thesis unfolding cksum_as_sums using shift [OF carry_sum 1] shift [OF carry_sum 2] by (simp add: add.assoc)
qed

text \<open>The nearest power of two.\<close>

lemma two_le: "2 \<le> unat w" if "w \<noteq> 0" "w \<noteq> 1" for w :: u16
proof -
  have "unat w \<noteq> 0" using that(1) by (simp add: unsigned_eq_0_iff)
  moreover have "unat w \<noteq> 1" using that(2) by (metis unsigned_1 unsigned_word_eqI)
  ultimately show ?thesis by linarith
qed

lemma GetNearest2Power_loop_eq:
  assumes "unat num = n div 2 ^ k" and "1 \<le> n div 2 ^ k" and "tmp = 2 ^ k" and "n = unat number"
  shows "\<exists>K. 2 ^ K \<le> n \<and> n < 2 ^ Suc K \<and> GetNearest2Power_loop number num tmp = (if n = 2 ^ K then 2 ^ K else 2 ^ Suc K)"
  using assms
proof (induction number num tmp arbitrary: k rule: GetNearest2Power_loop.induct)
  case (1 number num tmp)
  have n: "n < 2 ^ 16" using 1 unsigned_less [of number, where ?'a = nat] by simp
  show ?case
  proof (cases "num = 0 \<or> num = 1")
    case True
    with 1 have one: "n div 2 ^ k = 1" by auto
    have K: "2 ^ k \<le> n" "n < 2 ^ Suc k"
    proof -
      have "n mod 2 ^ k < 2 ^ k" by simp
      moreover have "n = 2 ^ k + n mod 2 ^ k" using one mult_div_mod_eq [of "2 ^ k" n] by simp
      ultimately show "2 ^ k \<le> n" "n < 2 ^ Suc k" unfolding power_Suc by linarith+
    qed
    have "(2::nat) ^ k < 2 ^ 16" using K(1) n by linarith
    then have "unat (of_nat (2 ^ k) :: u16) = 2 ^ k" by (simp only: unat_of_nat) simp
    then have "unat (2 ^ k :: u16) = 2 ^ k" by simp
    then have "number = 2 ^ k \<longleftrightarrow> n = 2 ^ k" using 1 by (metis unsigned_word_eqI)
    moreover have "GetNearest2Power_loop number num tmp = (if number \<noteq> tmp then tmp * 2 else tmp)"
      using True by (simp add: GetNearest2Power_loop.simps [of number num tmp])
    ultimately show ?thesis using K 1 by (intro exI [of _ k]) auto
  next
    case False
    have "2 \<le> unat num" using False by (simp add: two_le)
    then have "1 \<le> unat num div 2" by linarith
    moreover have "unat num div 2 = n div 2 ^ Suc k" using 1(2) by (simp only: power_Suc2 div_mult2_eq)
    moreover have "unat (drop_bit 1 num) = unat num div 2" by (simp add: drop_bit_Suc unat_div)
    ultimately have "\<exists>K. 2 ^ K \<le> n \<and> n < 2 ^ Suc K \<and>
        GetNearest2Power_loop number (drop_bit 1 num) (tmp * 2) = (if n = 2 ^ K then 2 ^ K else 2 ^ Suc K)"
      using False 1 by (intro 1(1) [of "Suc k"]) auto
    with False show ?thesis by (simp add: GetNearest2Power_loop.simps [of number num tmp])
  qed
qed

definition IPA_NAT_TABLE_ENTRY_SIZE :: u32 where "IPA_NAT_TABLE_ENTRY_SIZE = 32"
definition IPA_NAT_INDEX_TABLE_ENTRY_SIZE :: u32 where "IPA_NAT_INDEX_TABLE_ENTRY_SIZE = 4"

text \<open>The sizes that \<open>ipa_nati_alloc_table\<close> computes: base table, expansion table, bytes of memory. The products with the constants
  0.8 and 0.2 are truncated to whole numbers, which is division by five on the whole range of \<open>uint16_t\<close>.\<close>

definition alloc_sizes :: "u16 \<Rightarrow> (u16 \<times> u16 \<times> nat) option" where
  "alloc_sizes number_of_entries =
     (let table_entries = of_nat (unat number_of_entries * 4 div 5) :: u16;
          table_entries = (if table_entries = 0 then 1 else table_entries);
          (ret, table_entries) = GetNearest2Power table_entries
      in if ret \<noteq> 0 then None
         else let expn_table_entries = GetNearestEven (of_nat (unat number_of_entries div 5));
                  total_entries = table_entries + expn_table_entries
              in Some (table_entries, expn_table_entries,
                   unat IPA_NAT_TABLE_ENTRY_SIZE * unat total_entries + unat IPA_NAT_INDEX_TABLE_ENTRY_SIZE * unat total_entries))"

lemma GetNearest2Power_range:
  assumes "1 \<le> unat num" and "unat num \<le> 2 ^ L" and L: "1 \<le> L" "L \<le> 15"
  shows "\<exists>K p. GetNearest2Power num = (0, p) \<and> unat p = 2 ^ K \<and> 1 \<le> K \<and> K \<le> L \<and> unat num \<le> 2 ^ K"
proof (cases "num = 1")
  case True
  then show ?thesis using L by (intro exI [of _ 1] exI [of _ 2]) (auto simp: GetNearest2Power_def)
next
  case False
  with assms have n2: "2 \<le> unat num" by (intro two_le) auto
  from GetNearest2Power_loop_eq [of num "unat num" 0 1 num] assms(1) obtain K where
    K: "2 ^ K \<le> unat num" "unat num < 2 ^ Suc K"
      "GetNearest2Power_loop num num 1 = (if unat num = 2 ^ K then 2 ^ K else 2 ^ Suc K)" by auto
  have up: "unat (2 ^ j :: u16) = 2 ^ j" if "j \<le> 15" for j
  proof -
    have "(2::nat) ^ j < 2 ^ 16" using that by (intro power_strict_increasing) auto
    then have "unat (of_nat (2 ^ j) :: u16) = 2 ^ j" by (simp only: unat_of_nat) simp
    then show ?thesis by simp
  qed
  have pow: "(2::nat) ^ i \<le> 2 ^ j \<longleftrightarrow> i \<le> j" "(2::nat) ^ i < 2 ^ j \<longleftrightarrow> i < j" for i j by simp_all
  have eq: "GetNearest2Power num = (0, GetNearest2Power_loop num num 1)" using False n2 by (auto simp: GetNearest2Power_def)
  show ?thesis
  proof (cases "unat num = 2 ^ K")
    case True
    with n2 assms(2) have "1 \<le> K" "K \<le> L" using pow(1) [of K L] by (auto simp: Suc_le_eq intro: gr0I)
    with True K eq up [of K] L show ?thesis by auto
  next
    case nk: False
    with K assms(2) have "2 ^ K < (2::nat) ^ L" by linarith
    then have "Suc K \<le> L" using pow(2) [of K L] by simp
    with nk K eq up [of "Suc K"] L show ?thesis by (intro exI [of _ "Suc K"]) auto
  qed
qed

lemma GetNearest2Power_wraps:
  assumes "2 ^ 15 < unat num"
  shows "GetNearest2Power num = (0, 0)"
proof -
  from GetNearest2Power_loop_eq [of num "unat num" 0 1 num] assms obtain K where
    K: "2 ^ K \<le> unat num" "unat num < 2 ^ Suc K"
      "GetNearest2Power_loop num num 1 = (if unat num = 2 ^ K then 2 ^ K else 2 ^ Suc K)" by auto
  have "unat num < 2 ^ 16" using unsigned_less [of num, where ?'a = nat] by simp
  with K(1) have "(2::nat) ^ K < 2 ^ 16" by linarith
  moreover have "(2::nat) ^ 15 < 2 ^ Suc K" using K(2) assms by linarith
  ultimately have "K < 16" "15 < Suc K" by (simp_all only: power_strict_increasing_iff one_less_numeral_iff num.simps semiring_norm)
  then have [simp]: "K = 15" by simp
  have "num \<noteq> 0" "num \<noteq> 1" using assms by auto
  with K(3) assms show ?thesis by (simp add: GetNearest2Power_def)
qed

lemma GetNearestEven_range:
  assumes "unat num \<le> 65534"
  shows "2 \<le> unat (GetNearestEven num) \<and> even (unat (GetNearestEven num)) \<and> unat num \<le> unat (GetNearestEven num) \<and>
    unat (GetNearestEven num) \<le> max 2 (unat num + 1)"
proof (cases "num < 2")
  case True
  then show ?thesis by (simp add: GetNearestEven_def word_less_nat_alt)
next
  case False
  then have n: "2 \<le> unat num" by (simp add: word_less_nat_alt)
  have "num mod 2 = 0 \<longleftrightarrow> even (unat num)"
  proof -
    have "num mod 2 = 0 \<longleftrightarrow> unat (num mod 2) = 0" by (simp add: unsigned_eq_0_iff)
    then show ?thesis by (simp add: unat_mod even_iff_mod_2_eq_zero)
  qed
  moreover have "unat (num + 1) = unat num + 1" using assms by (simp add: unat_word_ariths)
  ultimately show ?thesis using False n by (auto simp: GetNearestEven_def)
qed

lemma alloc_sizes_upto:
  assumes "unat n * 4 div 5 \<le> 2 ^ L" "1 \<le> L" "L \<le> 15"
  shows "\<exists>te ee K. alloc_sizes n = Some (te, ee, 36 * (unat te + unat ee)) \<and> unat te = 2 ^ K \<and> 1 \<le> K \<and> K \<le> L \<and>
    unat n * 4 div 5 \<le> unat te \<and> 2 \<le> unat ee \<and> even (unat ee) \<and> unat n div 5 \<le> unat ee \<and> unat ee \<le> max 2 (unat n div 5 + 1)"
proof -
  have nb: "unat n < 65536" using unsigned_less [of n, where ?'a = nat] by simp
  define t where "t = (of_nat (unat n * 4 div 5) :: u16)"
  define t1 where "t1 = (if t = 0 then 1 else t)"
  have t: "unat t = unat n * 4 div 5" using nb by (simp only: t_def unat_of_nat) (simp add: mod_less)
  have t1: "unat t1 = max 1 (unat n * 4 div 5)" using t unsigned_eq_0_iff [of t, where ?'a = nat] by (auto simp: t1_def max_def)
  define e where "e = (of_nat (unat n div 5) :: u16)"
  have e: "unat e = unat n div 5" using nb by (simp only: e_def unat_of_nat) (simp add: mod_less)
  have ev: "2 \<le> unat (GetNearestEven e) \<and> even (unat (GetNearestEven e)) \<and> unat e \<le> unat (GetNearestEven e) \<and>
      unat (GetNearestEven e) \<le> max 2 (unat e + 1)" by (rule GetNearestEven_range) (use e nb in simp)
  have "(1 :: nat) \<le> 2 ^ L" by simp
  then have "1 \<le> unat t1" "unat t1 \<le> 2 ^ L" using assms(1) by (auto simp: t1)
  from GetNearest2Power_range [OF this assms(2,3)] obtain K p where
    p: "GetNearest2Power t1 = (0, p)" "unat p = 2 ^ K" "1 \<le> K" "K \<le> L" "unat t1 \<le> 2 ^ K" by blast
  have "(2::nat) ^ K \<le> 2 ^ 15" using p(4) assms(3) by (intro power_increasing) simp_all
  moreover have "unat n * 4 div 5 \<le> 2 ^ 15" using p t1 calculation by (simp add: max_def split: if_splits)
  then have "unat (GetNearestEven e) \<le> 8194" using ev e by (auto simp: max_def split: if_splits)
  ultimately have "unat p + unat (GetNearestEven e) < 65536" using p(2) by simp
  then have "unat (p + GetNearestEven e) = unat p + unat (GetNearestEven e)" by (simp add: unat_word_ariths)
  with p(1) have "alloc_sizes n = Some (p, GetNearestEven e, 36 * (unat p + unat (GetNearestEven e)))"
    by (simp add: alloc_sizes_def Let_def t_def [symmetric] t1_def [symmetric] e_def [symmetric] IPA_NAT_TABLE_ENTRY_SIZE_def
        IPA_NAT_INDEX_TABLE_ENTRY_SIZE_def)
  moreover have "unat n * 4 div 5 \<le> unat p" using p t1 by simp
  ultimately show ?thesis using p ev e by auto
qed

lemma alloc_sizes_wraps:
  assumes "2 ^ 15 < unat n * 4 div 5"
  shows "\<exists>ee b. alloc_sizes n = Some (0, ee, b)"
proof -
  have nb: "unat n < 65536" using unsigned_less [of n, where ?'a = nat] by simp
  define t where "t = (of_nat (unat n * 4 div 5) :: u16)"
  have t: "unat t = unat n * 4 div 5" using nb by (simp only: t_def unat_of_nat) (simp add: mod_less)
  then have "GetNearest2Power t = (0, 0)" "t \<noteq> 0" using assms by (auto intro: GetNearest2Power_wraps)
  then show ?thesis by (simp add: alloc_sizes_def Let_def t_def [symmetric])
qed

text \<open>
  The table sizes. For up to 40961 requested entries the base table has a power of two of entries, at least two and at most \<open>2 ^ 15\<close>, which is at
  least four fifths of the request; the expansion table has an even number, at least two and at least a fifth of the request; and
  the memory asked for is 36 bytes per entry with no overflow. From 40962 requested entries on, the power of two wraps to 0 and the
  base table is empty.
\<close>

theorem alloc_sizes_range:
  "if unat n \<le> 40961
   then \<exists>te ee K. alloc_sizes n = Some (te, ee, 36 * (unat te + unat ee)) \<and> unat te = 2 ^ K \<and> 1 \<le> K \<and> K \<le> 15 \<and>
     unat n * 4 div 5 \<le> unat te \<and> 2 \<le> unat ee \<and> even (unat ee) \<and> unat n div 5 \<le> unat ee
   else \<exists>ee b. alloc_sizes n = Some (0, ee, b)"
proof (cases "unat n \<le> 40961")
  case True
  then have "unat n * 4 div 5 \<le> 2 ^ 15" by auto
  from alloc_sizes_upto [OF this] True show ?thesis by (simp del: even_numeral) blast
next
  case False
  then have "2 ^ 15 < unat n * 4 div 5" by auto
  from alloc_sizes_wraps [OF this] False show ?thesis by simp
qed

end
