(* ===== verification/NatTable.thy ===== *)
theory NatTable
  imports NatApp NatWords
begin

text \<open>
  The IPA NAT library (\<open>ipanat/src/ipa_nat_drvi.c\<close>, \<open>ipa_nat_drv.c\<close>): the rule table and the index table that the hardware reads, with their
  expansion tables, the DMA commands that change them, and the rule handles.

  The tables are lists; an access outside of them makes the whole operation \<open>None\<close>. The kernel is reached through a record of
  functions: what the \<open>IPA_IOC_NAT_DMA\<close> request returns and does to the mapped memory, whether \<open>malloc\<close> gives memory and whether the mutex can be
  taken and released. Debug output (\<open>IPADBG\<close>, \<open>ipa_nat_dump_ipv4_table\<close>) is left out.
\<close>

section \<open>Data\<close>

record ipa_nat_rule =
  h_private_ip :: u32
  h_target_ip :: u32
  nxt_indx_pub_port :: u32
  h_private_port :: u16
  h_target_port :: u16
  ip_cksm_enbl :: u32
  ts_proto :: u32
  sw_spec_params :: u32
  h_rsvd2 :: u8
  h_rsvd3 :: "4 word"
  h_pdn_index :: "4 word"
  h_tcp_udp_chksum :: u16

record ipa_nat_sw_rule =
  s_private_ip :: u32
  s_target_ip :: u32
  s_next_index :: u16
  s_public_port :: u16
  s_private_port :: u16
  s_target_port :: u16
  s_ip_chksum :: u16
  s_rsvd1 :: "14 word"
  s_redirect :: "1 word"
  s_enable :: "1 word"
  s_time_stamp :: "24 word"
  s_protocol :: u8
  s_prev_index :: u16
  s_indx_tbl_entry :: u16
  s_rsvd2 :: u8
  s_rsvd3 :: "4 word"
  s_pdn_index :: "4 word"
  s_tcp_udp_chksum :: u16

text \<open>Records filled with zeros by \<open>memset\<close>.\<close>

definition zero_rule :: ipa_nat_rule where
  "zero_rule = \<lparr>h_private_ip = 0, h_target_ip = 0, nxt_indx_pub_port = 0, h_private_port = 0, h_target_port = 0,
     ip_cksm_enbl = 0, ts_proto = 0, sw_spec_params = 0, h_rsvd2 = 0, h_rsvd3 = 0, h_pdn_index = 0, h_tcp_udp_chksum = 0\<rparr>"

definition zero_sw_rule :: ipa_nat_sw_rule where
  "zero_sw_rule = \<lparr>s_private_ip = 0, s_target_ip = 0, s_next_index = 0, s_public_port = 0, s_private_port = 0, s_target_port = 0,
     s_ip_chksum = 0, s_rsvd1 = 0, s_redirect = 0, s_enable = 0, s_time_stamp = 0, s_protocol = 0, s_prev_index = 0,
     s_indx_tbl_entry = 0, s_rsvd2 = 0, s_rsvd3 = 0, s_pdn_index = 0, s_tcp_udp_chksum = 0\<rparr>"

text \<open>The bytes of a software rule read as a hardware rule: the two structs have the same layout.\<close>

definition rule_bytes :: "ipa_nat_sw_rule \<Rightarrow> ipa_nat_rule" where
  "rule_bytes r =
     \<lparr>h_private_ip = s_private_ip r, h_target_ip = s_target_ip r,
      nxt_indx_pub_port = mk32 (s_public_port r) (s_next_index r),
      h_private_port = s_private_port r, h_target_port = s_target_port r,
      ip_cksm_enbl = mk32 (ucast (s_rsvd1 r) OR push_bit 14 (ucast (s_redirect r)) OR push_bit 15 (ucast (s_enable r))) (s_ip_chksum r),
      ts_proto = push_bit 24 (ucast (s_protocol r)) OR ucast (s_time_stamp r),
      sw_spec_params = mk32 (s_indx_tbl_entry r) (s_prev_index r),
      h_rsvd2 = s_rsvd2 r, h_rsvd3 = s_rsvd3 r, h_pdn_index = s_pdn_index r, h_tcp_udp_chksum = s_tcp_udp_chksum r\<rparr>"

record ipa_nat_indx_tbl_sw_rule =
  x_tbl_entry :: u16
  x_next_index :: u16
  x_prev_index :: u16

datatype nat_table_type = IPA_NAT_BASE_TBL | IPA_NAT_EXPN_TBL | IPA_NAT_INDX_TBL | IPA_NAT_INDEX_EXPN_TBL

datatype del_type = IPA_NAT_DEL_TYPE_ONLY_ONE | IPA_NAT_DEL_TYPE_HEAD | IPA_NAT_DEL_TYPE_MIDDLE | IPA_NAT_DEL_TYPE_LAST

text \<open>The memory shared with the hardware.\<close>

record nat_mem =
  rules :: "ipa_nat_rule list"
  expn_rules :: "ipa_nat_rule list"
  index_table :: "u32 list"
  index_expn :: "u32 list"

text \<open>\<open>index_expn_table_meta\<close> and \<open>rule_id_array\<close> are \<open>NULL\<close> when they are empty lists.\<close>

record ip4_table =
  valid :: bool
  public_addr :: u32
  size :: u32
  tbl_addr_offset :: u32
  table_entries :: u16
  expn_table_entries :: u16
  mapped :: bool
  mem :: nat_mem
  index_expn_table_meta :: "u16 list"
  rule_id_array :: "u16 list"
  cur_tbl_cnt :: u16
  cur_expn_tbl_cnt :: u16

definition zero_table :: ip4_table where
  "zero_table = \<lparr>valid = False, public_addr = 0, size = 0, tbl_addr_offset = 0, table_entries = 0, expn_table_entries = 0,
     mapped = False, mem = \<lparr>rules = [], expn_rules = [], index_table = [], index_expn = []\<rparr>, index_expn_table_meta = [],
     rule_id_array = [], cur_tbl_cnt = 0, cur_expn_tbl_cnt = 0\<rparr>"

record ipa_nat_pdn_entry =
  pdn_public_ip :: u32
  src_metadata :: u32
  dst_metadata :: u32

text \<open>\<open>ipv4_nat_cache\<close> and the array \<open>pdns\<close>. \<open>v4\<close>: the hardware version is at least 4.0.\<close>

record nat_cache =
  ip4_tbl :: "ip4_table list"
  table_cnt :: u8
  v4 :: bool
  pdns :: "ipa_nat_pdn_entry list"

record ipa_ioc_nat_dma_one =
  dma_table_index :: u8
  base_addr :: nat_table_type
  dma_data :: u16
  dma_offset :: u32

record kern =
  nat_dma :: "ipa_ioc_nat_dma_one list \<Rightarrow> nat_mem \<Rightarrow> int \<times> nat_mem"
  malloc_ok :: bool
  lock_ok :: bool
  unlock_ok :: bool

definition EIO :: int where "EIO = 5"
definition ENOMEM :: int where "ENOMEM = 12"
definition IPA_NAT_INVALID_NAT_ENTRY :: u16 where "IPA_NAT_INVALID_NAT_ENTRY = 0"
definition IPA_NAT_FLAG_ENABLE_BIT_MASK :: u16 where "IPA_NAT_FLAG_ENABLE_BIT_MASK = 0x8000"
definition IPA_NAT_FLAG_DISABLE_BIT_MASK :: u16 where "IPA_NAT_FLAG_DISABLE_BIT_MASK = 0"
definition IPA_NAT_INVALID_PROTO_FIELD_VALUE :: u16 where "IPA_NAT_INVALID_PROTO_FIELD_VALUE = 0xFF00"
definition IPA_NAT_INVALID_PROTO_FIELD_CMP :: u8 where "IPA_NAT_INVALID_PROTO_FIELD_CMP = 0xFF"
definition IPA_NAT_RULE_FLAG_FIELD_OFFSET :: u32 where "IPA_NAT_RULE_FLAG_FIELD_OFFSET = 18"
definition IPA_NAT_RULE_NEXT_FIELD_OFFSET :: u32 where "IPA_NAT_RULE_NEXT_FIELD_OFFSET = 8"
definition IPA_NAT_RULE_PROTO_FIELD_OFFSET :: u32 where "IPA_NAT_RULE_PROTO_FIELD_OFFSET = 22"
definition IPA_NAT_INDEX_RULE_NEXT_FIELD_OFFSET :: u32 where "IPA_NAT_INDEX_RULE_NEXT_FIELD_OFFSET = 2"
definition IPA_NAT_INDEX_RULE_NAT_INDEX_FIELD_OFFSET :: u32 where "IPA_NAT_INDEX_RULE_NAT_INDEX_FIELD_OFFSET = 0"

section \<open>Arrays\<close>

definition aget :: "'a list \<Rightarrow> nat \<Rightarrow> 'a option" where
  "aget xs i = (if i < length xs then Some (xs ! i) else None)"

definition aset :: "'a list \<Rightarrow> nat \<Rightarrow> 'a \<Rightarrow> 'a list option" where
  "aset xs i v = (if i < length xs then Some (xs[i := v]) else None)"

definition get_rule :: "nat_mem \<Rightarrow> bool \<Rightarrow> u16 \<Rightarrow> ipa_nat_rule option" where
  "get_rule m expn i = aget (if expn then expn_rules m else rules m) (unat i)"

definition set_rule :: "nat_mem \<Rightarrow> bool \<Rightarrow> u16 \<Rightarrow> ipa_nat_rule \<Rightarrow> nat_mem option" where
  "set_rule m expn i r =
     (if expn then map_option (\<lambda>xs. m\<lparr>expn_rules := xs\<rparr>) (aset (expn_rules m) (unat i) r)
      else map_option (\<lambda>xs. m\<lparr>rules := xs\<rparr>) (aset (rules m) (unat i) r))"

definition get_index :: "nat_mem \<Rightarrow> bool \<Rightarrow> u16 \<Rightarrow> u32 option" where
  "get_index m expn i = aget (if expn then index_expn m else index_table m) (unat i)"

definition set_index :: "nat_mem \<Rightarrow> bool \<Rightarrow> u16 \<Rightarrow> u32 \<Rightarrow> nat_mem option" where
  "set_index m expn i w =
     (if expn then map_option (\<lambda>xs. m\<lparr>index_expn := xs\<rparr>) (aset (index_expn m) (unat i) w)
      else map_option (\<lambda>xs. m\<lparr>index_table := xs\<rparr>) (aset (index_table m) (unat i) w))"

section \<open>Rule handles\<close>

function make_rule_hdl_loop :: "u16 \<Rightarrow> nat \<Rightarrow> u16 list \<Rightarrow> nat \<Rightarrow> (u16 \<times> u16 list) option" where
  "make_rule_hdl_loop hdl sz ids i =
     (if i < sz
      then (case aget ids i of
              None \<Rightarrow> None
            | Some v \<Rightarrow> if IPA_NAT_INVALID_NAT_ENTRY = v then Some (of_nat (i + 1), ids[i := hdl])
                        else make_rule_hdl_loop hdl sz ids (i + 1))
      else Some (0, ids))"
  by pat_completeness auto
termination by (relation "measure (\<lambda>(hdl, sz, ids, i). sz - i)") auto

declare make_rule_hdl_loop.simps [simp del]

definition ipa_nati_make_rule_hdl :: "ip4_table \<Rightarrow> u16 \<Rightarrow> (u16 \<times> ip4_table) option" where
  "ipa_nati_make_rule_hdl t tbl_entry =
     (let (hdl, t) =
        (if tbl_entry \<ge> table_entries t
         then (push_bit 1 (tbl_entry - table_entries t) OR 1, t\<lparr>cur_expn_tbl_cnt := cur_expn_tbl_cnt t + 1\<rparr>)
         else (push_bit 1 tbl_entry, t\<lparr>cur_tbl_cnt := cur_tbl_cnt t + 1\<rparr>))
      in do { (h, ids) \<leftarrow> make_rule_hdl_loop hdl (unat (table_entries t) + unat (expn_table_entries t)) (rule_id_array t) 0;
              Some (h, t\<lparr>rule_id_array := ids\<rparr>) })"

text \<open>Result: \<open>*expn_tbl\<close> and \<open>*tbl_entry\<close>. For \<open>rule_hdl = 0\<close> the code reads \<open>rule_id_array[-1]\<close>.\<close>

definition ipa_nati_parse_ipv4_rule_hdl :: "ip4_table \<Rightarrow> u16 \<Rightarrow> (bool \<times> u16) option" where
  "ipa_nati_parse_ipv4_rule_hdl t hdl =
     (if unat hdl \<ge> unat (table_entries t) + unat (expn_table_entries t) then Some (False, IPA_NAT_INVALID_NAT_ENTRY)
      else if hdl = 0 then None
      else do { rule_id \<leftarrow> aget (rule_id_array t) (unat hdl - 1);
                Some (bit rule_id 0, drop_bit 1 rule_id) })"

section \<open>Offsets and DMA commands\<close>

definition ipa_nati_get_entry_offset :: "ip4_table \<Rightarrow> nat_table_type \<Rightarrow> u16 \<Rightarrow> u32" where
  "ipa_nati_get_entry_offset t tbl_type tbl_entry = IPA_NAT_TABLE_ENTRY_SIZE * ucast tbl_entry + tbl_addr_offset t"

definition ipa_nati_get_index_entry_offset :: "ip4_table \<Rightarrow> nat_table_type \<Rightarrow> u16 \<Rightarrow> u32" where
  "ipa_nati_get_index_entry_offset t tbl_type indx_tbl_entry =
     IPA_NAT_INDEX_TABLE_ENTRY_SIZE * ucast indx_tbl_entry + tbl_addr_offset t"

definition ipa_nati_write_next_index :: "kern \<Rightarrow> u8 \<Rightarrow> nat_table_type \<Rightarrow> u16 \<Rightarrow> u32 \<Rightarrow> ip4_table \<Rightarrow> ip4_table" where
  "ipa_nati_write_next_index K tbl_indx tbl_type v off t =
     (if \<not> malloc_ok K then t
      else t\<lparr>mem := snd (nat_dma K [\<lparr>dma_table_index = tbl_indx, base_addr = tbl_type, dma_data = v, dma_offset = off\<rparr>] (mem t))\<rparr>)"

definition ipa_nati_copy_ipv4_rule_to_hw :: "kern \<Rightarrow> ipa_nat_sw_rule \<Rightarrow> u16 \<Rightarrow> u8 \<Rightarrow> ip4_table \<Rightarrow> ip4_table option" where
  "ipa_nati_copy_ipv4_rule_to_hw K r entry tbl_index t =
     do { m \<leftarrow> (if entry < table_entries t then set_rule (mem t) False entry (rule_bytes r)
                else set_rule (mem t) True (entry - table_entries t) (rule_bytes r));
          let t = t\<lparr>mem := m\<rparr>;
          let prev_entry = s_prev_index r;
          if IPA_NAT_INVALID_NAT_ENTRY \<noteq> prev_entry
          then (let (tbl_type, prev_entry) = (if prev_entry < table_entries t then (IPA_NAT_BASE_TBL, prev_entry)
                                              else (IPA_NAT_EXPN_TBL, prev_entry - table_entries t));
                    off = ipa_nati_get_entry_offset t tbl_type prev_entry + IPA_NAT_RULE_NEXT_FIELD_OFFSET
                in Some (ipa_nati_write_next_index K tbl_index tbl_type entry off t))
          else Some t }"

text \<open>Here the offset is a \<open>uint16_t\<close>.\<close>

definition ipa_nati_copy_ipv4_index_rule_to_hw ::
  "kern \<Rightarrow> ipa_nat_indx_tbl_sw_rule \<Rightarrow> u16 \<Rightarrow> u8 \<Rightarrow> ip4_table \<Rightarrow> ip4_table option" where
  "ipa_nati_copy_ipv4_index_rule_to_hw K x entry tbl_index t =
     do { let w = mk32 (x_next_index x) (x_tbl_entry x);
          m \<leftarrow> (if entry < table_entries t then set_index (mem t) False entry w
                else set_index (mem t) True (entry - table_entries t) w);
          let t = t\<lparr>mem := m\<rparr>;
          let prev_entry = x_prev_index x;
          if IPA_NAT_INVALID_NAT_ENTRY \<noteq> prev_entry
          then (let (tbl_type, prev_entry) = (if prev_entry < table_entries t then (IPA_NAT_INDX_TBL, prev_entry)
                                              else (IPA_NAT_INDEX_EXPN_TBL, prev_entry - table_entries t));
                    off = (ucast (ipa_nati_get_index_entry_offset t tbl_type prev_entry) :: u16);
                    off = off + ucast IPA_NAT_INDEX_RULE_NEXT_FIELD_OFFSET
                in Some (ipa_nati_write_next_index K tbl_index tbl_type entry (ucast off) t))
          else Some t }"

definition ipa_nati_post_ipv4_dma_cmd :: "kern \<Rightarrow> u8 \<Rightarrow> u16 \<Rightarrow> ip4_table \<Rightarrow> int \<times> ip4_table" where
  "ipa_nati_post_ipv4_dma_cmd K tbl_indx entry t =
     (if \<not> malloc_ok K then (- ENOMEM, t)
      else let cmd = (if entry < table_entries t
                      then \<lparr>dma_table_index = tbl_indx, base_addr = IPA_NAT_BASE_TBL, dma_data = IPA_NAT_FLAG_ENABLE_BIT_MASK,
                            dma_offset = IPA_NAT_TABLE_ENTRY_SIZE * ucast entry + IPA_NAT_RULE_FLAG_FIELD_OFFSET\<rparr>
                      else \<lparr>dma_table_index = tbl_indx, base_addr = IPA_NAT_EXPN_TBL, dma_data = IPA_NAT_FLAG_ENABLE_BIT_MASK,
                            dma_offset = IPA_NAT_TABLE_ENTRY_SIZE * ucast (entry - table_entries t) + IPA_NAT_RULE_FLAG_FIELD_OFFSET
                              + tbl_addr_offset t\<rparr>);
               (ret, m) = nat_dma K [cmd] (mem t)
           in (if ret \<noteq> 0 then - EIO else 0, t\<lparr>mem := m\<rparr>))"

section \<open>Adding a rule\<close>

text \<open>The search for the end of a chain, the same loop for both tables: \<open>nx\<close> reads the next index of an entry of the expansion
  table. \<open>Some None\<close>: an entry that is its own successor.\<close>

partial_function (option) last_in_chain :: "('a \<Rightarrow> u16) \<Rightarrow> u16 \<Rightarrow> 'a list \<Rightarrow> u16 \<Rightarrow> u16 \<Rightarrow> u16 option option" where
  "last_in_chain nx te expn nxt_indx prev =
     (if nxt_indx \<noteq> IPA_NAT_INVALID_NAT_ENTRY
      then (case aget expn (unat (nxt_indx - te)) of
              None \<Rightarrow> None
            | Some r \<Rightarrow> if nxt_indx = nx r then Some None else last_in_chain nx te expn (nx r) nxt_indx)
      else Some (Some prev))"

declare last_in_chain.simps [code]

function free_entry_loop :: "('a \<Rightarrow> u16) \<Rightarrow> 'a list \<Rightarrow> nat \<Rightarrow> nat \<Rightarrow> u16 option" where
  "free_entry_loop flag tbl sz i =
     (if i < sz
      then (case aget tbl i of
              None \<Rightarrow> None
            | Some r \<Rightarrow> if flag r = 0 then Some (of_nat i) else free_entry_loop flag tbl sz (i + 1))
      else Some 0)"
  by pat_completeness auto
termination by (relation "measure (\<lambda>(flag, tbl, sz, i). sz - i)") auto

declare free_entry_loop.simps [simp del]

definition ipa_nati_expn_tbl_free_entry :: "ipa_nat_rule list \<Rightarrow> u16 \<Rightarrow> u16 option" where
  "ipa_nati_expn_tbl_free_entry expn_tbl sz =
     free_entry_loop (\<lambda>r. Read16BitFieldValue (ip_cksm_enbl r) ENABLE_FIELD) expn_tbl (unat sz) 1"

definition ipa_nati_index_expn_get_free_entry :: "u32 list \<Rightarrow> u16 \<Rightarrow> u16 option" where
  "ipa_nati_index_expn_get_free_entry indx_tbl sz =
     free_entry_loop (\<lambda>w. Read16BitFieldValue w INDX_TBL_TBL_ENTRY_FIELD) indx_tbl (unat sz) 1"

definition IPPROTO_TCP :: u8 where "IPPROTO_TCP = 6"
definition IPPROTO_UDP :: u8 where "IPPROTO_UDP = 17"

text \<open>The fields of the software rule, before the entry is chosen.\<close>

definition fill_sw_rule :: "u32 \<Rightarrow> ipa_nat_ipv4_rule \<Rightarrow> ipa_nat_sw_rule \<Rightarrow> ipa_nat_sw_rule" where
  "fill_sw_rule pub_ip c r =
     (let r = r\<lparr>s_private_ip := r_private_ip c, s_private_port := r_private_port c, s_protocol := r_protocol c,
                s_public_port := r_public_port c, s_target_ip := r_target_ip c, s_target_port := r_target_port c,
                s_pdn_index := ucast (r_pdn_index c)\<rparr>;
          r = r\<lparr>s_ip_chksum := ipa_nati_calc_ip_cksum pub_ip (r_private_ip c)\<rparr>;
          r = (if IPPROTO_TCP = s_protocol r \<or> IPPROTO_UDP = s_protocol r
               then r\<lparr>s_tcp_udp_chksum := ipa_nati_calc_tcp_udp_cksum pub_ip (r_public_port c) (r_private_ip c) (r_private_port c)\<rparr>
               else r)
      in r\<lparr>s_rsvd1 := 0, s_enable := 0, s_next_index := 0, s_time_stamp := 0, s_rsvd2 := 0, s_rsvd3 := 0, s_prev_index := 0,
           s_indx_tbl_entry := 0\<rparr>)"

text \<open>Result: the entry (0 when there is none) and \<open>*sw_rule\<close>.\<close>

definition ipa_nati_generate_tbl_rule ::
  "bool \<Rightarrow> ipa_nat_pdn_entry list \<Rightarrow> ipa_nat_ipv4_rule \<Rightarrow> ipa_nat_sw_rule \<Rightarrow> ip4_table \<Rightarrow> (u16 \<times> ipa_nat_sw_rule) option" where
  "ipa_nati_generate_tbl_rule ver4 ps c r t =
     do { pdn \<leftarrow> aget ps (unat (r_pdn_index c));
          let pub_ip = pdn_public_ip pdn;
          let r = fill_sw_rule pub_ip c r;
          let new_entry = dst_hash ver4 pub_ip (r_target_ip c) (r_target_port c) (r_public_port c) (r_protocol c) (table_entries t - 1);
          head \<leftarrow> get_rule (mem t) False new_entry;
          if Read16BitFieldValue (ip_cksm_enbl head) ENABLE_FIELD = 0 then Some (new_entry, r\<lparr>s_prev_index := 0\<rparr>)
          else do {
            let nxt_indx = Read16BitFieldValue (nxt_indx_pub_port head) NEXT_INDEX_FIELD;
            prev \<leftarrow> (if nxt_indx = IPA_NAT_INVALID_NAT_ENTRY then Some (Some new_entry)
                     else last_in_chain (\<lambda>r. Read16BitFieldValue (nxt_indx_pub_port r) NEXT_INDEX_FIELD) (table_entries t)
                       (expn_rules (mem t)) nxt_indx 0);
            case prev of
              None \<Rightarrow> Some (IPA_NAT_INVALID_NAT_ENTRY, r)
            | Some prev \<Rightarrow>
                do { let r = r\<lparr>s_prev_index := prev\<rparr>;
                     new_entry \<leftarrow> ipa_nati_expn_tbl_free_entry (expn_rules (mem t)) (expn_table_entries t);
                     if IPA_NAT_INVALID_NAT_ENTRY = new_entry then Some (IPA_NAT_INVALID_NAT_ENTRY, r)
                     else Some (new_entry + table_entries t, r) } } }"

definition ipa_nati_generate_index_rule ::
  "ipa_nat_ipv4_rule \<Rightarrow> ipa_nat_indx_tbl_sw_rule \<Rightarrow> ip4_table \<Rightarrow> (u16 \<times> ipa_nat_indx_tbl_sw_rule) option" where
  "ipa_nati_generate_index_rule c x t =
     do { let new_entry = src_hash (r_private_ip c) (r_private_port c) (r_target_ip c) (r_target_port c) (r_protocol c) (table_entries t - 1);
          head \<leftarrow> get_index (mem t) False new_entry;
          if Read16BitFieldValue head INDX_TBL_TBL_ENTRY_FIELD = 0 then Some (new_entry, x\<lparr>x_prev_index := 0\<rparr>)
          else do {
            let nxt_indx = Read16BitFieldValue head INDX_TBL_NEXT_INDEX_FILED;
            prev \<leftarrow> (if nxt_indx = IPA_NAT_INVALID_NAT_ENTRY then Some (Some new_entry)
                     else last_in_chain (\<lambda>w. Read16BitFieldValue w INDX_TBL_NEXT_INDEX_FILED) (table_entries t) (index_expn (mem t)) nxt_indx 0);
            case prev of
              None \<Rightarrow> Some (IPA_NAT_INVALID_NAT_ENTRY, x)
            | Some prev \<Rightarrow>
                do { let x = x\<lparr>x_prev_index := prev\<rparr>;
                     new_entry \<leftarrow> ipa_nati_index_expn_get_free_entry (index_expn (mem t)) (expn_table_entries t);
                     if IPA_NAT_INVALID_NAT_ENTRY = new_entry then Some (IPA_NAT_INVALID_NAT_ENTRY, x)
                     else if x_prev_index x = new_entry + table_entries t then Some (IPA_NAT_INVALID_NAT_ENTRY, x)
                     else Some (new_entry + table_entries t, x) } } }"

text \<open>Result: the return value, \<open>*rule\<close>, \<open>*index_sw_rule\<close>, \<open>*tbl_entry\<close>, \<open>*indx_tbl_entry\<close> and the table.\<close>

definition ipa_nati_generate_rule ::
  "bool \<Rightarrow> ipa_nat_pdn_entry list \<Rightarrow> ipa_nat_ipv4_rule \<Rightarrow> ipa_nat_sw_rule \<Rightarrow> ipa_nat_indx_tbl_sw_rule \<Rightarrow> ip4_table \<Rightarrow>
     (int \<times> ipa_nat_sw_rule \<times> ipa_nat_indx_tbl_sw_rule \<times> u16 \<times> u16 \<times> ip4_table) option" where
  "ipa_nati_generate_rule ver4 ps c r x t =
     do { (tbl_entry, r) \<leftarrow> ipa_nati_generate_tbl_rule ver4 ps c r t;
          if IPA_NAT_INVALID_NAT_ENTRY = tbl_entry then Some (- EINVAL, r, x, tbl_entry, 0, t)
          else do {
            let x = x\<lparr>x_tbl_entry := tbl_entry\<rparr>;
            (indx_tbl_entry, x) \<leftarrow> ipa_nati_generate_index_rule c x t;
            if IPA_NAT_INVALID_NAT_ENTRY = indx_tbl_entry then Some (- EINVAL, r, x, tbl_entry, indx_tbl_entry, t)
            else do {
              let r = r\<lparr>s_indx_tbl_entry := indx_tbl_entry\<rparr>;
              t \<leftarrow> (if indx_tbl_entry \<ge> table_entries t
                    then do { meta \<leftarrow> aset (index_expn_table_meta t) (unat (indx_tbl_entry - table_entries t)) (x_prev_index x);
                              Some (t\<lparr>index_expn_table_meta := meta\<rparr>) }
                    else Some t);
              Some (0, r, x, tbl_entry, indx_tbl_entry, t) } } }"

text \<open>The part of \<open>ipa_nati_add_ipv4_rule\<close> that works on one table: result, \<open>*rule_hdl\<close> and the table. A PDN index that is too large is
  read from \<open>pdns\<close> for the error message, outside of the array.\<close>

definition add_rule_to_table ::
  "kern \<Rightarrow> bool \<Rightarrow> ipa_nat_pdn_entry list \<Rightarrow> u8 \<Rightarrow> ipa_nat_ipv4_rule \<Rightarrow> u32 \<Rightarrow> ip4_table \<Rightarrow> (int \<times> u32 \<times> ip4_table) option" where
  "add_rule_to_table K ver4 ps tbl_index c hdl t =
     do { pdn \<leftarrow> aget ps (unat (r_pdn_index c));
          if pdn_public_ip pdn = 0 then Some (- EINVAL, hdl, t)
          else do {
            (ret, r, x, new_entry, new_index_tbl_entry, t) \<leftarrow>
               ipa_nati_generate_rule ver4 ps c zero_sw_rule \<lparr>x_tbl_entry = 0, x_next_index = 0, x_prev_index = 0\<rparr> t;
            if ret \<noteq> 0 then Some (- EINVAL, hdl, t)
            else do {
              t \<leftarrow> ipa_nati_copy_ipv4_rule_to_hw K r new_entry tbl_index t;
              t \<leftarrow> ipa_nati_copy_ipv4_index_rule_to_hw K x new_index_tbl_entry tbl_index t;
              let (ret, t) = ipa_nati_post_ipv4_dma_cmd K tbl_index new_entry t;
              if ret \<noteq> 0 then Some (- EIO, hdl, t)
              else do {
                (h, t) \<leftarrow> ipa_nati_make_rule_hdl t new_entry;
                Some (if h = 0 then - EINVAL else 0, ucast h, t) } } } }"

section \<open>Deleting a rule\<close>

definition ipa_nati_find_rule_pos :: "ip4_table \<Rightarrow> bool \<Rightarrow> u16 \<Rightarrow> del_type option" where
  "ipa_nati_find_rule_pos t expn_tbl tbl_entry =
     do { r \<leftarrow> get_rule (mem t) expn_tbl tbl_entry;
          let last = (Read16BitFieldValue (nxt_indx_pub_port r) NEXT_INDEX_FIELD = IPA_NAT_INVALID_NAT_ENTRY);
          Some (if expn_tbl then (if last then IPA_NAT_DEL_TYPE_LAST else IPA_NAT_DEL_TYPE_MIDDLE)
                else (if last then IPA_NAT_DEL_TYPE_ONLY_ONE else IPA_NAT_DEL_TYPE_HEAD)) }"

definition ipa_nati_find_index_rule_pos :: "ip4_table \<Rightarrow> u16 \<Rightarrow> del_type option" where
  "ipa_nati_find_index_rule_pos t tbl_entry =
     (if tbl_entry \<ge> table_entries t
      then do { w \<leftarrow> get_index (mem t) True (tbl_entry - table_entries t);
                Some (if Read16BitFieldValue w INDX_TBL_NEXT_INDEX_FILED = IPA_NAT_INVALID_NAT_ENTRY
                      then IPA_NAT_DEL_TYPE_LAST else IPA_NAT_DEL_TYPE_MIDDLE) }
      else do { w \<leftarrow> get_index (mem t) False tbl_entry;
                Some (if Read16BitFieldValue w INDX_TBL_NEXT_INDEX_FILED = IPA_NAT_INVALID_NAT_ENTRY
                      then IPA_NAT_DEL_TYPE_ONLY_ONE else IPA_NAT_DEL_TYPE_HEAD) })"

text \<open>\<open>ReorderCmds\<close>: the commands from the first one for an index table on come first.\<close>

definition index_cmd :: "ipa_ioc_nat_dma_one \<Rightarrow> bool" where
  "index_cmd d \<longleftrightarrow> base_addr d = IPA_NAT_INDX_TBL \<or> base_addr d = IPA_NAT_INDEX_EXPN_TBL"

definition ReorderCmds :: "kern \<Rightarrow> ipa_ioc_nat_dma_one list \<Rightarrow> ipa_ioc_nat_dma_one list" where
  "ReorderCmds K cmds =
     (let indx_tbl_start = (case first_idx index_cmd cmds of None \<Rightarrow> 0 | Some i \<Rightarrow> i)
      in if indx_tbl_start = 0 then cmds
         else if \<not> malloc_ok K then cmds
         else drop indx_tbl_start cmds @ take indx_tbl_start cmds)"

text \<open>The command that unlinks the rule: the base table part of \<open>ipa_nati_post_del_dma_cmd\<close>.\<close>

definition del_rule_cmd :: "u8 \<Rightarrow> ip4_table \<Rightarrow> ipa_nat_rule \<Rightarrow> u16 \<Rightarrow> del_type \<Rightarrow> ipa_ioc_nat_dma_one" where
  "del_rule_cmd tbl_indx t r cur_tbl_entry rule_pos =
     (let prev_entry = Read16BitFieldValue (sw_spec_params r) SW_SPEC_PARAM_PREV_INDEX_FIELD;
          (prev_tbl, prev_entry) = (if prev_entry \<ge> table_entries t then (IPA_NAT_EXPN_TBL, prev_entry - table_entries t)
                                    else (IPA_NAT_BASE_TBL, prev_entry));
          prev_off = ipa_nati_get_entry_offset t prev_tbl prev_entry + IPA_NAT_RULE_NEXT_FIELD_OFFSET
      in case rule_pos of
           IPA_NAT_DEL_TYPE_ONLY_ONE \<Rightarrow>
             \<lparr>dma_table_index = tbl_indx, base_addr = IPA_NAT_BASE_TBL, dma_data = IPA_NAT_FLAG_DISABLE_BIT_MASK,
              dma_offset = ipa_nati_get_entry_offset t IPA_NAT_BASE_TBL cur_tbl_entry + IPA_NAT_RULE_FLAG_FIELD_OFFSET\<rparr>
         | IPA_NAT_DEL_TYPE_HEAD \<Rightarrow>
             \<lparr>dma_table_index = tbl_indx, base_addr = IPA_NAT_BASE_TBL, dma_data = IPA_NAT_INVALID_PROTO_FIELD_VALUE,
              dma_offset = ipa_nati_get_entry_offset t IPA_NAT_BASE_TBL cur_tbl_entry + IPA_NAT_RULE_PROTO_FIELD_OFFSET\<rparr>
         | IPA_NAT_DEL_TYPE_MIDDLE \<Rightarrow>
             \<lparr>dma_table_index = tbl_indx, base_addr = prev_tbl,
              dma_data = Read16BitFieldValue (nxt_indx_pub_port r) NEXT_INDEX_FIELD, dma_offset = prev_off\<rparr>
         | IPA_NAT_DEL_TYPE_LAST \<Rightarrow>
             \<lparr>dma_table_index = tbl_indx, base_addr = prev_tbl, dma_data = IPA_NAT_INVALID_NAT_ENTRY, dma_offset = prev_off\<rparr>)"

text \<open>The commands that unlink the index entry. \<open>x_expn\<close> and \<open>indx_tbl_entry\<close> are the table and the entry inside of it. For a head the
  contents of its successor are copied into it.\<close>

definition del_index_cmds :: "u8 \<Rightarrow> ip4_table \<Rightarrow> bool \<Rightarrow> u16 \<Rightarrow> del_type \<Rightarrow> ipa_ioc_nat_dma_one list option" where
  "del_index_cmds tbl_indx t x_expn indx_tbl_entry indx_rule_pos =
     (let to_prev = (\<lambda>prev_entry v.
            let (tbl, prev_entry) = (if prev_entry \<ge> table_entries t then (IPA_NAT_INDEX_EXPN_TBL, prev_entry - table_entries t)
                                     else (IPA_NAT_INDX_TBL, prev_entry))
            in [\<lparr>dma_table_index = tbl_indx, base_addr = tbl, dma_data = v,
                 dma_offset = ipa_nati_get_index_entry_offset t tbl prev_entry + IPA_NAT_INDEX_RULE_NEXT_FIELD_OFFSET\<rparr>]);
          here = ipa_nati_get_index_entry_offset t IPA_NAT_INDX_TBL indx_tbl_entry
      in case indx_rule_pos of
           IPA_NAT_DEL_TYPE_ONLY_ONE \<Rightarrow>
             Some [\<lparr>dma_table_index = tbl_indx, base_addr = IPA_NAT_INDX_TBL, dma_data = IPA_NAT_INVALID_NAT_ENTRY,
                    dma_offset = here + IPA_NAT_INDEX_RULE_NAT_INDEX_FIELD_OFFSET\<rparr>]
         | IPA_NAT_DEL_TYPE_HEAD \<Rightarrow>
             do { w \<leftarrow> get_index (mem t) x_expn indx_tbl_entry;
                  let next_entry = Read16BitFieldValue w INDX_TBL_NEXT_INDEX_FILED - table_entries t;
                  nw \<leftarrow> get_index (mem t) True next_entry;
                  Some [\<lparr>dma_table_index = tbl_indx, base_addr = IPA_NAT_INDX_TBL,
                         dma_data = Read16BitFieldValue nw INDX_TBL_TBL_ENTRY_FIELD,
                         dma_offset = here + IPA_NAT_INDEX_RULE_NAT_INDEX_FIELD_OFFSET\<rparr>,
                        \<lparr>dma_table_index = tbl_indx, base_addr = IPA_NAT_INDX_TBL,
                         dma_data = Read16BitFieldValue nw INDX_TBL_NEXT_INDEX_FILED,
                         dma_offset = here + IPA_NAT_INDEX_RULE_NEXT_FIELD_OFFSET\<rparr>] }
         | IPA_NAT_DEL_TYPE_MIDDLE \<Rightarrow>
             do { prev_entry \<leftarrow> aget (index_expn_table_meta t) (unat indx_tbl_entry);
                  w \<leftarrow> get_index (mem t) x_expn indx_tbl_entry;
                  Some (to_prev prev_entry (Read16BitFieldValue w INDX_TBL_NEXT_INDEX_FILED)) }
         | IPA_NAT_DEL_TYPE_LAST \<Rightarrow>
             do { prev_entry \<leftarrow> aget (index_expn_table_meta t) (unat indx_tbl_entry);
                  Some (to_prev prev_entry IPA_NAT_INVALID_NAT_ENTRY) })"

text \<open>After the request: the rule that follows gets a new predecessor, and the deleted rule is cleared (unless it is a head).\<close>

definition del_rule_finish :: "bool \<Rightarrow> u16 \<Rightarrow> del_type \<Rightarrow> ip4_table \<Rightarrow> ip4_table option" where
  "del_rule_finish expn_tbl cur_tbl_entry rule_pos t =
     do { m \<leftarrow> (if IPA_NAT_DEL_TYPE_MIDDLE = rule_pos
                then do { r \<leftarrow> get_rule (mem t) expn_tbl cur_tbl_entry;
                          let prev_entry = Read16BitFieldValue (sw_spec_params r) SW_SPEC_PARAM_PREV_INDEX_FIELD;
                          let next_entry = Read16BitFieldValue (nxt_indx_pub_port r) NEXT_INDEX_FIELD - table_entries t;
                          nr \<leftarrow> get_rule (mem t) True next_entry;
                          set_rule (mem t) True next_entry
                            (nr\<lparr>sw_spec_params := UpdateSwSpecParams (sw_spec_params nr) IPA_NAT_SW_PARAM_PREV_INDX_BYTE (ucast prev_entry)\<rparr>) }
                else Some (mem t));
          let tbl = (IPA_NAT_DEL_TYPE_MIDDLE = rule_pos \<or> expn_tbl);
          m \<leftarrow> (if IPA_NAT_DEL_TYPE_HEAD \<noteq> rule_pos then set_rule m tbl cur_tbl_entry zero_rule else Some m);
          Some (t\<lparr>mem := m\<rparr>) }"

text \<open>The same for the index entry. \<open>indx_next_entry\<close> is the successor of a head, whose contents the head has taken over.\<close>

definition del_index_finish_head :: "u16 \<Rightarrow> u16 \<Rightarrow> ip4_table \<Rightarrow> ip4_table option" where
  "del_index_finish_head indx_tbl_entry indx_next_entry t =
     do { nw \<leftarrow> get_index (mem t) True indx_next_entry;
          let nn = Read16BitFieldValue nw INDX_TBL_NEXT_INDEX_FILED;
          meta \<leftarrow> (if nn \<noteq> 0 \<and> nn \<ge> table_entries t
                   then aset (index_expn_table_meta t) (unat (nn - table_entries t)) indx_tbl_entry
                   else Some (index_expn_table_meta t));
          m \<leftarrow> set_index (mem t) True indx_next_entry 0;
          w \<leftarrow> get_index m False indx_tbl_entry;
          let table_entry = Read16BitFieldValue w INDX_TBL_TBL_ENTRY_FIELD;
          let (expn, table_entry) = (if table_entry \<ge> table_entries t then (True, table_entry - table_entries t) else (False, table_entry));
          r \<leftarrow> get_rule m expn table_entry;
          m \<leftarrow> set_rule m expn table_entry
                 (r\<lparr>sw_spec_params := UpdateSwSpecParams (sw_spec_params r) IPA_NAT_SW_PARAM_INDX_TBL_ENTRY_BYTE (ucast indx_tbl_entry)\<rparr>);
          Some (t\<lparr>mem := m, index_expn_table_meta := meta\<rparr>) }"

definition del_index_finish_other :: "bool \<Rightarrow> u16 \<Rightarrow> del_type \<Rightarrow> ip4_table \<Rightarrow> ip4_table option" where
  "del_index_finish_other x_expn indx_tbl_entry indx_rule_pos t =
     do { meta \<leftarrow> (if IPA_NAT_DEL_TYPE_MIDDLE = indx_rule_pos
                   then do { w \<leftarrow> get_index (mem t) x_expn indx_tbl_entry;
                             let next_entry = Read16BitFieldValue w INDX_TBL_NEXT_INDEX_FILED;
                             let next_entry = (if next_entry \<ge> table_entries t then next_entry - table_entries t else next_entry);
                             p \<leftarrow> aget (index_expn_table_meta t) (unat indx_tbl_entry);
                             meta \<leftarrow> aset (index_expn_table_meta t) (unat next_entry) p;
                             aset meta (unat indx_tbl_entry) IPA_NAT_INVALID_NAT_ENTRY }
                   else Some (index_expn_table_meta t));
          m \<leftarrow> set_index (mem t) x_expn indx_tbl_entry 0;
          Some (t\<lparr>mem := m, index_expn_table_meta := meta\<rparr>) }"

definition ipa_nati_post_del_dma_cmd :: "kern \<Rightarrow> u8 \<Rightarrow> u16 \<Rightarrow> bool \<Rightarrow> del_type \<Rightarrow> ip4_table \<Rightarrow> (int \<times> ip4_table) option" where
  "ipa_nati_post_del_dma_cmd K tbl_indx cur_tbl_entry expn_tbl rule_pos t =
     (if \<not> malloc_ok K then Some (- ENOMEM, t)
      else do {
        r \<leftarrow> get_rule (mem t) expn_tbl cur_tbl_entry;
        if Read16BitFieldValue (ip_cksm_enbl r) ENABLE_FIELD = 0 then Some (- EINVAL, t)
        else do {
          let entry = Read16BitFieldValue (sw_spec_params r) SW_SPEC_PARAM_INDX_TBL_ENTRY_FIELD;
          let cmd = del_rule_cmd tbl_indx t r cur_tbl_entry rule_pos;
          indx_rule_pos \<leftarrow> ipa_nati_find_index_rule_pos t entry;
          let (x_expn, indx_tbl_entry) = (if entry \<ge> table_entries t then (True, entry - table_entries t) else (False, entry));
          xcmds \<leftarrow> del_index_cmds tbl_indx t x_expn indx_tbl_entry indx_rule_pos;
          w \<leftarrow> get_index (mem t) x_expn indx_tbl_entry;
          let indx_next_entry = Read16BitFieldValue w INDX_TBL_NEXT_INDEX_FILED - table_entries t;
          let (ret, m) = nat_dma K (ReorderCmds K (cmd # xcmds)) (mem t);
          let t = t\<lparr>mem := m\<rparr>;
          if ret \<noteq> 0 then Some (- EIO, t)
          else do {
            t \<leftarrow> del_rule_finish expn_tbl cur_tbl_entry rule_pos t;
            t \<leftarrow> (if indx_rule_pos = IPA_NAT_DEL_TYPE_HEAD then del_index_finish_head indx_tbl_entry indx_next_entry t
                  else del_index_finish_other x_expn indx_tbl_entry indx_rule_pos t);
            Some (0, t) } } })"

function del_dead_loop :: "nat \<Rightarrow> nat \<Rightarrow> ipa_nat_rule list \<Rightarrow> ipa_nat_rule list option" where
  "del_dead_loop sz i rs =
     (if i < sz
      then (case aget rs i of
              None \<Rightarrow> None
            | Some r \<Rightarrow>
                del_dead_loop sz (i + 1)
                  (if Read8BitFieldValue (ts_proto r) PROTOCOL_FIELD = IPA_NAT_INVALID_PROTO_FIELD_CMP \<and>
                      Read16BitFieldValue (nxt_indx_pub_port r) NEXT_INDEX_FIELD = IPA_NAT_INVALID_NAT_ENTRY
                   then rs[i := zero_rule] else rs))
      else Some rs)"
  by pat_completeness auto
termination by (relation "measure (\<lambda>(sz, i, rs). sz - i)") auto

declare del_dead_loop.simps [simp del]

definition ipa_nati_del_dead_ipv4_head_nodes :: "ip4_table \<Rightarrow> ip4_table option" where
  "ipa_nati_del_dead_ipv4_head_nodes t =
     do { rs \<leftarrow> del_dead_loop (unat (table_entries t)) 0 (rules (mem t));
          Some (t\<lparr>mem := (mem t)\<lparr>rules := rs\<rparr>\<rparr>) }"

text \<open>The part of \<open>ipa_nati_del_ipv4_rule\<close> that works on one table.\<close>

definition del_rule_from_table :: "kern \<Rightarrow> u8 \<Rightarrow> u32 \<Rightarrow> ip4_table \<Rightarrow> (int \<times> ip4_table) option" where
  "del_rule_from_table K tbl_indx hdl t =
     do { (expn_tbl, tbl_entry) \<leftarrow> ipa_nati_parse_ipv4_rule_hdl t (ucast hdl);
          if IPA_NAT_INVALID_NAT_ENTRY = tbl_entry then Some (- EINVAL, t)
          else if \<not> lock_ok K then Some (- 1, t)
          else if \<not> valid t then Some (- EINVAL, t)
          else do {
            rule_pos \<leftarrow> ipa_nati_find_rule_pos t expn_tbl tbl_entry;
            (ret, t) \<leftarrow> ipa_nati_post_del_dma_cmd K tbl_indx tbl_entry expn_tbl rule_pos t;
            if ret \<noteq> 0 then Some (- EINVAL, t)
            else do {
              t \<leftarrow> ipa_nati_del_dead_ipv4_head_nodes t;
              ids \<leftarrow> aset (rule_id_array t) (unat hdl - 1) IPA_NAT_INVALID_NAT_ENTRY;
              Some (if \<not> unlock_ok K then - 1 else 0, t\<lparr>rule_id_array := ids\<rparr>) } } }"

text \<open>Result: the return value and \<open>*time_stamp\<close>.\<close>

definition query_table :: "kern \<Rightarrow> u32 \<Rightarrow> u32 \<Rightarrow> ip4_table \<Rightarrow> (int \<times> u32) option" where
  "query_table K hdl time_stamp t =
     (if \<not> valid t then Some (- EINVAL, time_stamp)
      else if \<not> lock_ok K then Some (- 1, time_stamp)
      else do {
        (expn_tbl, tbl_entry) \<leftarrow> ipa_nati_parse_ipv4_rule_hdl t (ucast hdl);
        time_stamp \<leftarrow> (if mapped t then do { r \<leftarrow> get_rule (mem t) expn_tbl tbl_entry;
                                             Some (Read32BitFieldValue (ts_proto r) TIME_STAMP_FIELD) }
                       else Some time_stamp);
        Some (if \<not> unlock_ok K then - 1 else 0, time_stamp) })"

end
