(* ===== verification/NatChain.thy ===== *)
theory NatChain
  imports IPA_Prelude
begin

text \<open>
  Hash tables whose chains run through an expansion table. Both tables of the NAT hardware have this shape: entries \<open>0 ..< n\<close>
  are the base table (0 is never used), entries \<open>n ..< n + e\<close> the expansion table (its first one, \<open>n\<close>, is never used because
  \<open>0\<close> marks the end of a chain). \<open>used\<close>, \<open>nxt\<close> and \<open>prv\<close> read the entries; \<open>D b\<close> is the chain behind the head \<open>b\<close>. The
  lemmas say what inserting and removing an entry does to the chains, for any table that reads like this.
\<close>

fun dpath :: "(nat \<Rightarrow> nat) \<Rightarrow> (nat \<Rightarrow> nat) \<Rightarrow> nat \<Rightarrow> nat list \<Rightarrow> bool" where
  "dpath nxt prv b [] \<longleftrightarrow> nxt b = 0"
| "dpath nxt prv b (x # xs) \<longleftrightarrow> nxt b = x \<and> prv x = b \<and> dpath nxt prv x xs"

definition chained :: "nat \<Rightarrow> nat \<Rightarrow> (nat \<Rightarrow> bool) \<Rightarrow> (nat \<Rightarrow> nat) \<Rightarrow> (nat \<Rightarrow> nat) \<Rightarrow> (nat \<Rightarrow> nat list) \<Rightarrow> bool" where
  "chained n e used nxt prv D \<longleftrightarrow>
     (\<forall>b. b = 0 \<or> n \<le> b \<or> \<not> used b \<longrightarrow> D b = []) \<and>
     (\<forall>b < n. used b \<longrightarrow> b \<noteq> 0 \<and> dpath nxt prv b (D b)) \<and>
     (\<forall>b. distinct (D b) \<and> set (D b) \<subseteq> {n<..<n + e}) \<and>
     (\<forall>b b'. b \<noteq> b' \<longrightarrow> set (D b) \<inter> set (D b') = {}) \<and>
     (\<forall>x. n \<le> x \<and> x < n + e \<longrightarrow> (used x \<longleftrightarrow> (\<exists>b. x \<in> set (D b))))"

lemma dpath_cong:
  "(\<And>i. i \<in> set (b # xs) \<Longrightarrow> nxt' i = nxt i) \<Longrightarrow> (\<And>i. i \<in> set xs \<Longrightarrow> prv' i = prv i) \<Longrightarrow>
     dpath nxt' prv' b xs = dpath nxt prv b xs"
  by (induction xs arbitrary: b) auto

lemma dpath_append:
  "dpath nxt prv b (xs @ x # ys) \<longleftrightarrow> dpath (nxt(last (b # xs) := 0)) prv b xs \<and> nxt (last (b # xs)) = x \<and>
     prv x = last (b # xs) \<and> dpath nxt prv x ys" if "distinct (b # xs)"
  using that
proof (induction xs arbitrary: b)
  case Nil
  then show ?case by simp
next
  case (Cons y xs)
  then have "b \<noteq> last (y # xs)" by (metis distinct.simps(2) last_in_set list.discI)
  with Cons show ?case by auto
qed

text \<open>Parts of the invariant.\<close>

lemma chained_parts:
  assumes "chained n e used nxt prv D"
  shows "b = 0 \<or> n \<le> b \<or> \<not> used b \<Longrightarrow> D b = []"
    and "b < n \<Longrightarrow> used b \<Longrightarrow> b \<noteq> 0 \<and> dpath nxt prv b (D b)"
    and "distinct (D b)" "x \<in> set (D b) \<Longrightarrow> n < x \<and> x < n + e"
    and "x \<in> set (D b) \<Longrightarrow> x \<in> set (D b') \<Longrightarrow> b = b'"
    and "n \<le> x \<Longrightarrow> x < n + e \<Longrightarrow> used x \<longleftrightarrow> (\<exists>b. x \<in> set (D b))"
proof -
  show "b = 0 \<or> n \<le> b \<or> \<not> used b \<Longrightarrow> D b = []" "b < n \<Longrightarrow> used b \<Longrightarrow> b \<noteq> 0 \<and> dpath nxt prv b (D b)"
    "distinct (D b)" "x \<in> set (D b) \<Longrightarrow> n < x \<and> x < n + e"
    "n \<le> x \<Longrightarrow> x < n + e \<Longrightarrow> used x \<longleftrightarrow> (\<exists>b. x \<in> set (D b))"
    using assms unfolding chained_def by (blast, blast, blast, force, blast)
  show "x \<in> set (D b) \<Longrightarrow> x \<in> set (D b') \<Longrightarrow> b = b'" using assms unfolding chained_def by (metis disjoint_iff)
qed

lemma chained_head: "chained n e used nxt prv D \<Longrightarrow> x \<in> set (D b) \<Longrightarrow> b < n \<and> b \<noteq> 0 \<and> used b"
  using chained_parts(1) [of n e used nxt prv D b] by (metis empty_iff list.set(1) not_le)

lemma chained_0 [simp]: "chained n e used nxt prv D \<Longrightarrow> 0 < n \<Longrightarrow> \<not> used 0"
  using chained_parts(2) [of n e used nxt prv D 0] by auto

lemma chained_first: "chained n e used nxt prv D \<Longrightarrow> 0 < e \<Longrightarrow> \<not> used n"
  using chained_parts(6) [of n e used nxt prv D n] chained_parts(4) [of n e used nxt prv D n] by fastforce

lemma chained_used_expn: "chained n e used nxt prv D \<Longrightarrow> x \<in> set (D b) \<Longrightarrow> used x"
  using chained_parts(4,6) by (metis order.strict_implies_order)

text \<open>Whatever the tables are, a change of them that keeps every chain but one is a change of that one.\<close>

lemma chained_frame:
  assumes ch: "chained n e used nxt prv D"
    and b: "b < n" "b \<noteq> 0" "used' b"
    and same: "\<And>i. i < n + e \<Longrightarrow> i \<notin> set (b # D b) \<union> set xs \<Longrightarrow> used' i = used i \<and> nxt' i = nxt i \<and> prv' i = prv i"
    and xs: "distinct xs" "set xs \<subseteq> {n<..<n + e}" "\<And>x. x \<in> set xs \<Longrightarrow> used' x" "\<And>x. x \<in> set (D b) \<Longrightarrow> x \<notin> set xs \<Longrightarrow> \<not> used' x"
    and new: "\<And>x. x \<in> set xs \<Longrightarrow> x \<notin> set (D b) \<Longrightarrow> \<not> used x"
    and path: "dpath nxt' prv' b xs"
  shows "chained n e used' nxt' prv' (D(b := xs))"
proof -
  note P = chained_parts [OF ch]
  have other: "set (D b') \<inter> (set (b # D b) \<union> set xs) = {}" "b' < n \<Longrightarrow> b' \<notin> set (b # D b) \<union> set xs" if "b' \<noteq> b" for b'
  proof -
    show "set (D b') \<inter> (set (b # D b) \<union> set xs) = {}"
    proof (intro equalityI subsetI)
      fix x assume "x \<in> set (D b') \<inter> (set (b # D b) \<union> set xs)"
      then have x: "x \<in> set (D b')" "x = b \<or> x \<in> set (D b) \<or> x \<in> set xs" by auto
      have "x \<notin> set (D b)" using P(5) [OF x(1)] that by blast
      moreover have "x \<noteq> b" using P(4) [OF x(1)] b(1) by linarith
      ultimately show "x \<in> {}" using x new chained_used_expn [OF ch x(1)] by blast
    qed simp
    show "b' < n \<Longrightarrow> b' \<notin> set (b # D b) \<union> set xs" using P(4) xs(2) that by fastforce
  qed
  have frame: "used' i = used i \<and> nxt' i = nxt i \<and> prv' i = prv i" if "i = b' \<and> b' < n \<or> i \<in> set (D b')" "b' \<noteq> b" for i b'
    using that same [of i] other [OF that(2)] P(4) by (metis IntI empty_iff order_less_trans trans_less_add1)
  show ?thesis unfolding chained_def
  proof (intro conjI allI impI)
    fix b' assume "b' = 0 \<or> n \<le> b' \<or> \<not> used' b'"
    then show "(D(b := xs)) b' = []" using P(1) b frame by (cases "b' = b") (auto, metis not_le)
  next
    fix b' assume "b' < n" "used' b'"
    then show "b' \<noteq> 0" "dpath nxt' prv' b' ((D(b := xs)) b')"
      using P(2) frame b path dpath_cong [of b' "D b'" nxt' nxt prv' prv] by (cases "b' = b"; force)+
  next
    fix b' show "distinct ((D(b := xs)) b')" "set ((D(b := xs)) b') \<subseteq> {n<..<n + e}" using P(3,4) xs by auto
  next
    fix b1 b2 :: nat assume "b1 \<noteq> b2"
    then show "set ((D(b := xs)) b1) \<inter> set ((D(b := xs)) b2) = {}"
      using P(5) other(1) [of b1] other(1) [of b2] by (cases "b1 = b"; cases "b2 = b") (auto simp: disjoint_iff)
  next
    fix x assume x: "n \<le> x \<and> x < n + e"
    show "used' x \<longleftrightarrow> (\<exists>b'. x \<in> set ((D(b := xs)) b'))"
    proof (cases "x \<in> set (b # D b) \<union> set xs")
      case False
      with same x P(6) show ?thesis by (metis Un_iff fun_upd_apply insert_iff list.set(2))
    next
      case True
      with x b have "x \<in> set (D b) \<or> x \<in> set xs" by auto
      then show ?thesis using xs(3,4) P(5) by (metis fun_upd_apply)
    qed
  qed
qed

section \<open>Inserting and removing\<close>

lemma dpath_last: "dpath nxt prv b xs \<Longrightarrow> nxt (last (b # xs)) = 0"
  by (induction xs arbitrary: b) (auto split: if_splits)

lemma dpath_upd_last:
  "dpath nxt prv b xs \<Longrightarrow> distinct (b # xs) \<Longrightarrow> x \<notin> set (b # xs) \<Longrightarrow>
     (\<And>i. i \<in> set (b # xs) \<Longrightarrow> nxt' i = (if i = last (b # xs) then x else nxt i)) \<Longrightarrow>
     (\<And>i. i \<in> set xs \<Longrightarrow> prv' i = prv i) \<Longrightarrow> nxt' x = 0 \<Longrightarrow> prv' x = last (b # xs) \<Longrightarrow>
     dpath nxt' prv' b (xs @ [x])"
proof (induction xs arbitrary: b)
  case Nil
  then show ?case by simp
next
  case (Cons y xs)
  have "b \<noteq> last (y # xs)" using Cons.prems(2) by (metis distinct.simps(2) last_in_set list.discI)
  then have "nxt' b = y" using Cons.prems(1) Cons.prems(4) [of b] by auto
  moreover have "dpath nxt' prv' y (xs @ [x])" using Cons.prems by (intro Cons.IH) auto
  ultimately show ?case using Cons.prems(1,5) by auto
qed

lemma dpath_cut:
  "dpath nxt prv b (xs @ x # ys) \<Longrightarrow> distinct (b # xs @ x # ys) \<Longrightarrow> 0 \<notin> set xs \<Longrightarrow>
     (\<And>i. i \<in> set (b # xs @ ys) \<Longrightarrow> nxt' i = (if i = last (b # xs) then nxt x else nxt i)) \<Longrightarrow>
     (\<And>i. i \<in> set (xs @ ys) \<Longrightarrow> prv' i = (if i = nxt x then last (b # xs) else prv i)) \<Longrightarrow>
     dpath nxt' prv' b (xs @ ys)"
proof (induction xs arbitrary: b)
  case Nil
  show ?case
  proof (cases ys)
    case (Cons y zs)
    have y: "dpath nxt prv y zs" "nxt x = y" "b \<noteq> y" "b \<notin> set zs" "y \<notin> set zs" using Nil.prems(1,2) Cons by auto
    then have "dpath nxt' prv' y zs = dpath nxt prv y zs" using Nil.prems(4,5) Cons by (intro dpath_cong) auto
    with y Nil.prems(4) [of b] Nil.prems(5) [of y] Cons show ?thesis by simp
  qed (use Nil in auto)
next
  case (Cons z xs)
  have "b \<noteq> last (z # xs)"
  proof
    assume "b = last (z # xs)"
    then have "b \<in> set (z # xs)" by (metis last_in_set list.discI)
    with Cons.prems(2) show False by auto
  qed
  then have "nxt' b = z" using Cons.prems(1) Cons.prems(4) [of b] by auto
  moreover have "dpath nxt' prv' z (xs @ ys)" using Cons.prems by (intro Cons.IH) auto
  moreover have "nxt x \<noteq> z"
  proof -
    have "dpath nxt prv x ys" using Cons.prems(1,2) dpath_append [of b "z # xs" nxt prv x ys] by auto
    then have "nxt x \<in> set ys \<or> nxt x = 0" by (cases ys) auto
    then show ?thesis using Cons.prems(2,3) by auto
  qed
  ultimately show ?case using Cons.prems(1,5) by auto
qed

text \<open>The last entry of a chain and the entries around an entry of it.\<close>

lemma chained_distinct: "chained n e used nxt prv D \<Longrightarrow> b < n \<Longrightarrow> distinct (b # D b)"
  using chained_parts(3,4) [of n e used nxt prv D] by fastforce

lemma chained_last:
  assumes "chained n e used nxt prv D" "b < n" "used b"
  shows "nxt (last (b # D b)) = 0" "last (b # D b) < n + e" "used (last (b # D b))" "last (b # D b) \<noteq> 0"
proof -
  note P = chained_parts [OF assms(1)]
  show "nxt (last (b # D b)) = 0" using P(2) [OF assms(2,3)] dpath_last by blast
  have "last (b # D b) = b \<or> last (b # D b) \<in> set (D b)" by (cases "D b = []") (auto simp: last_in_set)
  then show "last (b # D b) < n + e" "used (last (b # D b))" "last (b # D b) \<noteq> 0"
    using P(2) [OF assms(2,3)] P(4) [of _ b] chained_used_expn [OF assms(1), of _ b] assms(2,3) by (auto, fastforce+)
qed

lemma chained_split:
  assumes "chained n e used nxt prv D" "D b = xs @ x # ys"
  shows "prv x = last (b # xs)" "nxt (last (b # xs)) = x" "nxt x = (if ys = [] then 0 else hd ys)" "dpath nxt prv b (xs @ x # ys)"
    "last (b # xs) < n + e" "used (last (b # xs))" "last (b # xs) \<noteq> x" "last (b # xs) \<notin> set ys" "last (b # xs) \<noteq> 0"
proof -
  have x: "x \<in> set (D b)" by (simp add: assms(2))
  note h = chained_head [OF assms(1) x]
  note d = chained_distinct [OF assms(1) conjunct1 [OF h], unfolded assms(2)]
  show p: "dpath nxt prv b (xs @ x # ys)" using chained_parts(2) [OF assms(1), of b] h assms(2) by auto
  then have s: "nxt (last (b # xs)) = x \<and> prv x = last (b # xs) \<and> dpath nxt prv x ys" using d by (subst (asm) dpath_append) auto
  then show "prv x = last (b # xs)" "nxt (last (b # xs)) = x" by auto
  from s show "nxt x = (if ys = [] then 0 else hd ys)" by (cases ys) auto
  have l: "last (b # xs) \<in> set (b # xs)" by (metis last_in_set list.discI)
  then show "last (b # xs) < n + e" "used (last (b # xs))" "last (b # xs) \<noteq> x" "last (b # xs) \<notin> set ys" "last (b # xs) \<noteq> 0"
    using chained_parts(4) [OF assms(1), of "last (b # xs)" b] chained_used_expn [OF assms(1), of "last (b # xs)" b] h d assms(2)
    by (auto simp del: last.simps)
qed

lemma chained_push:
  assumes ch: "chained n e used nxt prv D" and b: "b < n" "used b" and x: "n < x" "x < n + e" "\<not> used x"
    and used': "\<And>i. i < n + e \<Longrightarrow> used' i = (i = x \<or> used i)"
    and nxt': "\<And>i. i < n + e \<Longrightarrow> nxt' i = (if i = x then 0 else if i = last (b # D b) then x else nxt i)"
    and prv': "\<And>i. i < n + e \<Longrightarrow> prv' i = (if i = x then last (b # D b) else prv i)"
  shows "chained n e used' nxt' prv' (D(b := D b @ [x]))"
proof (rule chained_frame [OF ch b(1)])
  note P = chained_parts [OF ch]
  have nx: "x \<notin> set (D b)" using chained_used_expn [OF ch] x(3) by blast
  have l: "last (b # D b) \<in> set (b # D b)" by (metis last_in_set list.discI)
  show "b \<noteq> 0" "used' b" using P(2) b used' [of b] by auto
  show "distinct (D b @ [x])" "set (D b @ [x]) \<subseteq> {n<..<n + e}" using P(3,4) nx x by auto
  show "dpath nxt' prv' b (D b @ [x])"
  proof (rule dpath_upd_last)
    show "dpath nxt prv b (D b)" "distinct (b # D b)" using P(2) b chained_distinct [OF ch b(1)] by auto
    show "x \<notin> set (b # D b)" using nx x b by auto
    have lt: "i < n + e" if "i \<in> set (b # D b)" for i using that P(4) [of i b] b by auto
    show "nxt' i = (if i = last (b # D b) then x else nxt i)" if "i \<in> set (b # D b)" for i
      using nxt' [OF lt [OF that]] that \<open>x \<notin> set (b # D b)\<close> by auto
    show "prv' i = prv i" if "i \<in> set (D b)" for i using prv' [OF lt] that nx by auto
    show "nxt' x = 0" "prv' x = last (b # D b)" using nxt' [OF x(2)] prv' [OF x(2)] by auto
  qed
  show "used' i = used i \<and> nxt' i = nxt i \<and> prv' i = prv i" if "i < n + e" "i \<notin> set (b # D b) \<union> set (D b @ [x])" for i
    using that used' nxt' prv' l by auto
  show "used' y" if "y \<in> set (D b @ [x])" for y using that used' [of y] P(4) [of y b] chained_used_expn [OF ch, of y b] x by auto
  show "\<not> used' y" if "y \<in> set (D b)" "y \<notin> set (D b @ [x])" for y using that by simp
  show "\<not> used y" if "y \<in> set (D b @ [x])" "y \<notin> set (D b)" for y using that x by auto
qed

lemma chained_remove:
  assumes ch: "chained n e used nxt prv D" and split: "D b = xs @ x # ys"
    and used': "\<And>i. i < n + e \<Longrightarrow> used' i = (i \<noteq> x \<and> used i)"
    and nxt': "\<And>i. i < n + e \<Longrightarrow> i \<noteq> x \<Longrightarrow> nxt' i = (if i = last (b # xs) then nxt x else nxt i)"
    and prv': "\<And>i. i < n + e \<Longrightarrow> i \<noteq> x \<Longrightarrow> n < i \<Longrightarrow> prv' i = (if i = nxt x then last (b # xs) else prv i)"
    and prv_low: "\<And>i. i \<le> n \<Longrightarrow> prv' i = prv i"
  shows "chained n e used' nxt' prv' (D(b := xs @ ys))"
proof -
  note P = chained_parts [OF ch]
  have x: "x \<in> set (D b)" by (simp add: split)
  note h = chained_head [OF ch x]
  note d = chained_distinct [OF ch conjunct1 [OF h], unfolded split]
  note S = chained_split [OF ch split]
  have rng: "n < i \<and> i < n + e" if "i \<in> set (xs @ x # ys)" for i using P(4) [of i b] that split by auto
  have l: "last (b # xs) \<in> set (b # xs)" by (metis last_in_set list.discI)
  have nx: "nxt x = 0 \<or> nxt x \<in> set ys" using S(3) by (cases ys) auto
  show ?thesis
  proof (rule chained_frame [OF ch])
    show "b < n" "b \<noteq> 0" "used' b" using h d used' [of b] by auto
    show "distinct (xs @ ys)" "set (xs @ ys) \<subseteq> {n<..<n + e}" using d rng by auto
    show "dpath nxt' prv' b (xs @ ys)"
    proof (rule dpath_cut [OF S(4) d])
      show "0 \<notin> set xs" using rng [of 0] by auto
      show "nxt' i = (if i = last (b # xs) then nxt x else nxt i)" if "i \<in> set (b # xs @ ys)" for i
      proof -
        have "i < n + e" "i \<noteq> x" using that rng [of i] h d by auto
        then show ?thesis by (rule nxt')
      qed
      show "prv' i = (if i = nxt x then last (b # xs) else prv i)" if "i \<in> set (xs @ ys)" for i
      proof -
        have "i < n + e" "i \<noteq> x" "n < i" using that rng [of i] d by auto
        then show ?thesis by (rule prv')
      qed
    qed
    show "used' i = used i \<and> nxt' i = nxt i \<and> prv' i = prv i" if i: "i < n + e" "i \<notin> set (b # D b) \<union> set (xs @ ys)" for i
    proof -
      have "i \<noteq> x" "i \<noteq> last (b # xs)" "i = nxt x \<longrightarrow> i = 0" using i split l nx by auto
      then show ?thesis using used' [OF i(1)] nxt' [OF i(1)] prv' [OF i(1)] prv_low [of i] by (cases "n < i") auto
    qed
    show "used' y" if "y \<in> set (xs @ ys)" for y using that used' [of y] rng [of y] chained_used_expn [OF ch, of y b] split d by auto
    show "\<not> used' y" if "y \<in> set (D b)" "y \<notin> set (xs @ ys)" for y using that used' [of y] rng [of y] split by auto
    show "\<not> used y" if "y \<in> set (xs @ ys)" "y \<notin> set (D b)" for y using that split by auto
  qed
qed

lemma chained_new:
  assumes ch: "chained n e used nxt prv D" and b: "b < n" "b \<noteq> 0" "\<not> used b"
    and used': "\<And>i. i < n + e \<Longrightarrow> used' i = (i = b \<or> used i)"
    and nxt': "\<And>i. i < n + e \<Longrightarrow> nxt' i = (if i = b then 0 else nxt i)"
    and prv': "\<And>i. i < n + e \<Longrightarrow> i \<noteq> b \<Longrightarrow> prv' i = prv i"
  shows "chained n e used' nxt' prv' D"
proof -
  have D: "D b = []" using chained_parts(1) [OF ch] b by blast
  have "chained n e used' nxt' prv' (D(b := []))"
    by (rule chained_frame [OF ch b(1,2)]) (use b used' nxt' prv' D in auto)
  then show ?thesis using D by (metis fun_upd_triv)
qed

text \<open>Dropping heads without a chain, any number of them at once.\<close>

lemma chained_drop:
  assumes ch: "chained n e used nxt prv D"
    and Z: "\<And>i. i < n + e \<Longrightarrow> Z i \<Longrightarrow> i < n \<and> D i = []"
    and used': "\<And>i. i < n + e \<Longrightarrow> used' i = (\<not> Z i \<and> used i)" and out: "\<And>i. n \<le> i \<Longrightarrow> D i = []"
    and same: "\<And>i. i < n + e \<Longrightarrow> \<not> Z i \<Longrightarrow> nxt' i = nxt i \<and> prv' i = prv i"
  shows "chained n e used' nxt' prv' D"
proof -
  note P = chained_parts [OF ch]
  have nz: "\<not> Z i" if "i \<in> set (D b)" for i b using P(4) [OF that] Z [of i] by auto
  have path: "dpath nxt' prv' b (D b)" if "b < n" "used' b" for b
  proof -
    have zb: "\<not> Z b" "used b" using that used' [of b] by auto
    have "dpath nxt' prv' b (D b) = dpath nxt prv b (D b)"
      by (rule dpath_cong; use same nz [of _ b] P(4) [of _ b] zb that(1) in auto)
    then show ?thesis using P(2) [OF that(1) zb(2)] by simp
  qed
  show ?thesis unfolding chained_def
  proof (intro conjI allI impI)
    fix b assume "b = 0 \<or> n \<le> b \<or> \<not> used' b"
    then show "D b = []" using P(1) [of b] Z [of b] used' [of b] out [of b] by (cases "n \<le> b") auto
  next
    fix b assume "b < n" "used' b"
    then show "b \<noteq> 0" "dpath nxt' prv' b (D b)" using path P(2) used' [of b] by auto
  next
    fix b show "distinct (D b)" "set (D b) \<subseteq> {n<..<n + e}" using P(3,4) by auto
  next
    fix b b' :: nat assume "b \<noteq> b'"
    then show "set (D b) \<inter> set (D b') = {}" using P(5) by blast
  next
    fix x assume "n \<le> x \<and> x < n + e"
    then show "used' x \<longleftrightarrow> (\<exists>b. x \<in> set (D b))" using P(6) used' [of x] Z [of x] by auto
  qed
qed

end
