(* ===== verification/NatView.thy ===== *)
theory NatView
  imports NatTable NatChain
begin

text \<open>
  The NAT tables seen as functions of the global entry number (base table first, expansion table after it): reads, writes and DMA
  commands are function updates of this view, and each loop of the driver is an operation on chains.
\<close>

section \<open>The view\<close>

definition rule_at :: "nat_mem \<Rightarrow> nat \<Rightarrow> ipa_nat_rule" where "rule_at m i = (rules m @ expn_rules m) ! i"
definition index_at :: "nat_mem \<Rightarrow> nat \<Rightarrow> u32" where "index_at m i = (index_table m @ index_expn m) ! i"

definition shape :: "nat \<Rightarrow> nat \<Rightarrow> nat_mem \<Rightarrow> bool" where
  "shape n e m \<longleftrightarrow> length (rules m) = n \<and> length (expn_rules m) = e \<and> length (index_table m) = n \<and> length (index_expn m) = e"

definition upd_rule :: "nat \<Rightarrow> ipa_nat_rule \<Rightarrow> nat_mem \<Rightarrow> nat_mem" where
  "upd_rule i r m =
     (if i < length (rules m) then m\<lparr>rules := (rules m)[i := r]\<rparr>
      else m\<lparr>expn_rules := (expn_rules m)[i - length (rules m) := r]\<rparr>)"

definition upd_index :: "nat \<Rightarrow> u32 \<Rightarrow> nat_mem \<Rightarrow> nat_mem" where
  "upd_index i w m =
     (if i < length (index_table m) then m\<lparr>index_table := (index_table m)[i := w]\<rparr>
      else m\<lparr>index_expn := (index_expn m)[i - length (index_table m) := w]\<rparr>)"

lemma shape_upd [simp]: "shape n e (upd_rule i r m) = shape n e m" "shape n e (upd_index i w m) = shape n e m"
  by (simp_all add: shape_def upd_rule_def upd_index_def)

lemma view_other [simp]: "index_at (upd_rule i r m) = index_at m" "rule_at (upd_index i w m) = rule_at m"
  by (auto simp: fun_eq_iff index_at_def rule_at_def upd_rule_def upd_index_def)

lemma append_upd: "i < length xs + length ys \<Longrightarrow>
    (if i < length xs then xs[i := v] @ ys else xs @ ys[i - length xs := v]) ! j = (if i = j then v else (xs @ ys) ! j)"
  by (auto simp: nth_append nth_list_update)

lemma rule_at_upd: "shape n e m \<Longrightarrow> i < n + e \<Longrightarrow> rule_at (upd_rule i r m) = (rule_at m)(i := r)"
  using append_upd [of i "rules m" "expn_rules m" r]
  by (auto simp: fun_eq_iff rule_at_def upd_rule_def shape_def split: if_splits)

lemma index_at_upd: "shape n e m \<Longrightarrow> i < n + e \<Longrightarrow> index_at (upd_index i w m) = (index_at m)(i := w)"
  using append_upd [of i "index_table m" "index_expn m" w]
  by (auto simp: fun_eq_iff index_at_def upd_index_def shape_def split: if_splits)

text \<open>What is assumed of the dimensions of a table that is in use. The next pointer of an index entry is written through a 16-bit offset, hence at most
  \<open>2 ^ 14\<close> entries.\<close>

definition dims :: "ip4_table \<Rightarrow> nat \<Rightarrow> nat \<Rightarrow> bool" where
  "dims t n e \<longleftrightarrow> unat (table_entries t) = n \<and> unat (expn_table_entries t) = e \<and> 2 \<le> n \<and> n \<le> 16384 \<and> 2 \<le> e \<and> e \<le> 16384 \<and>
     tbl_addr_offset t = 0 \<and> shape n e (mem t) \<and> length (index_expn_table_meta t) = e \<and> length (rule_id_array t) = n + e \<and>
     valid t \<and> mapped t"

lemma unat_minus_te: "te \<le> w \<Longrightarrow> unat (w - te) = unat w - unat te" for te w :: u16
  by (simp add: unat_sub)

lemma less_te: "w < te \<longleftrightarrow> unat w < unat te" "te \<le> w \<longleftrightarrow> unat te \<le> unat w" for te w :: u16
  by (simp_all add: word_less_nat_alt word_le_nat_alt)

lemma entry_less:
  assumes "dims t n e"
  shows "w < table_entries t \<longleftrightarrow> unat w < n" "table_entries t \<le> w \<longleftrightarrow> n \<le> unat w"
    "n \<le> unat w \<Longrightarrow> unat (w - table_entries t) = unat w - n"
  using assms by (auto simp: dims_def less_te unat_minus_te)

lemma dims_shape: "dims t n e \<Longrightarrow> shape n e (mem t)"
  by (simp add: dims_def)

lemma dims_mem: "dims t n e \<Longrightarrow> shape n e m \<Longrightarrow> dims (t\<lparr>mem := m\<rparr>) n e"
  by (simp add: dims_def)

lemma get_rule_at:
  assumes "shape n e m" "i < n + e"
  shows "i < n \<Longrightarrow> unat w = i \<Longrightarrow> get_rule m False w = Some (rule_at m i)"
    and "n \<le> i \<Longrightarrow> unat w = i - n \<Longrightarrow> get_rule m True w = Some (rule_at m i)"
  using assms by (auto simp: get_rule_def aget_def rule_at_def shape_def nth_append)

lemma set_rule_at:
  assumes "shape n e m" "i < n + e"
  shows "i < n \<Longrightarrow> unat w = i \<Longrightarrow> set_rule m False w r = Some (upd_rule i r m)"
    and "n \<le> i \<Longrightarrow> unat w = i - n \<Longrightarrow> set_rule m True w r = Some (upd_rule i r m)"
  using assms by (auto simp: set_rule_def aset_def upd_rule_def shape_def)

lemma get_index_at:
  assumes "shape n e m" "i < n + e"
  shows "i < n \<Longrightarrow> unat w = i \<Longrightarrow> get_index m False w = Some (index_at m i)"
    and "n \<le> i \<Longrightarrow> unat w = i - n \<Longrightarrow> get_index m True w = Some (index_at m i)"
  using assms by (auto simp: get_index_def aget_def index_at_def shape_def nth_append)

lemma set_index_at:
  assumes "shape n e m" "i < n + e"
  shows "i < n \<Longrightarrow> unat w = i \<Longrightarrow> set_index m False w v = Some (upd_index i v m)"
    and "n \<le> i \<Longrightarrow> unat w = i - n \<Longrightarrow> set_index m True w v = Some (upd_index i v m)"
  using assms by (auto simp: set_index_def aset_def upd_index_def shape_def)

section \<open>The DMA requests\<close>

text \<open>What the hardware does with one command: a 16-bit write at a byte offset of one of the tables. The fields that the driver writes
  are the two halves of an index entry, and of a rule the next index, the flags and the upper half of the time stamp and protocol.\<close>

definition rule_write :: "ipa_nat_rule \<Rightarrow> nat \<Rightarrow> u16 \<Rightarrow> ipa_nat_rule" where
  "rule_write r f v =
     (if f = 8 then r\<lparr>nxt_indx_pub_port := mk32 (hi16 (nxt_indx_pub_port r)) v\<rparr>
      else if f = 18 then r\<lparr>ip_cksm_enbl := mk32 v (lo16 (ip_cksm_enbl r))\<rparr>
      else if f = 22 then r\<lparr>ts_proto := mk32 v (lo16 (ts_proto r))\<rparr> else r)"

definition index_write :: "u32 \<Rightarrow> nat \<Rightarrow> u16 \<Rightarrow> u32" where
  "index_write w f v = (if f = 0 then mk32 (hi16 w) v else if f = 2 then mk32 v (lo16 w) else w)"

definition dma_write :: "nat_mem \<Rightarrow> ipa_ioc_nat_dma_one \<Rightarrow> nat_mem" where
  "dma_write m c =
     (let off = unat (dma_offset c); v = dma_data c
      in case base_addr c of
           IPA_NAT_BASE_TBL \<Rightarrow> m\<lparr>rules := (rules m)[off div 32 := rule_write (rules m ! (off div 32)) (off mod 32) v]\<rparr>
         | IPA_NAT_EXPN_TBL \<Rightarrow> m\<lparr>expn_rules := (expn_rules m)[off div 32 := rule_write (expn_rules m ! (off div 32)) (off mod 32) v]\<rparr>
         | IPA_NAT_INDX_TBL \<Rightarrow> m\<lparr>index_table := (index_table m)[off div 4 := index_write (index_table m ! (off div 4)) (off mod 4) v]\<rparr>
         | IPA_NAT_INDEX_EXPN_TBL \<Rightarrow> m\<lparr>index_expn := (index_expn m)[off div 4 := index_write (index_expn m ! (off div 4)) (off mod 4) v]\<rparr>)"

text \<open>The kernel does what it is asked.\<close>

definition dma_works :: "kern \<Rightarrow> bool" where
  "dma_works K \<longleftrightarrow> malloc_ok K \<and> lock_ok K \<and> unlock_ok K \<and> (\<forall>cmds m. nat_dma K cmds m = (0, foldl dma_write m cmds))"

lemma unat_offset: "unat (a * ucast w + b :: u32) = unat a * unat w + unat b" if "unat a \<le> 32" "unat b < 32" for w :: u16
proof -
  have w: "unat w < 65536" using unsigned_less [of w, where ?'a = nat] by simp
  have "unat a * unat w \<le> 32 * 65535" using that(1) w by (intro mult_mono) auto
  then show ?thesis using that(2) by (simp add: unat_word_ariths unat_ucast16)
qed

lemma offset_parts:
  assumes "dims t n e"
  shows "f < 32 \<Longrightarrow> unat (ipa_nati_get_entry_offset t ty w + f) = 32 * unat w + unat f"
    and "f < 4 \<Longrightarrow> unat (ipa_nati_get_index_entry_offset t ty w + f) = 4 * unat w + unat f"
    and "f < 32 \<Longrightarrow> unat (IPA_NAT_TABLE_ENTRY_SIZE * ucast w + f) = 32 * unat w + unat f"
  using assms unat_offset [of IPA_NAT_TABLE_ENTRY_SIZE f w] unat_offset [of IPA_NAT_INDEX_TABLE_ENTRY_SIZE f w]
  by (auto simp: ipa_nati_get_entry_offset_def ipa_nati_get_index_entry_offset_def dims_def IPA_NAT_TABLE_ENTRY_SIZE_def
      IPA_NAT_INDEX_TABLE_ENTRY_SIZE_def word_less_nat_alt)

lemma dma_rule:
  assumes "shape n e m" "i < n + e" "f < 32"
  shows "i < n \<Longrightarrow> unat off = 32 * i + f \<Longrightarrow>
      dma_write m \<lparr>dma_table_index = x, base_addr = IPA_NAT_BASE_TBL, dma_data = v, dma_offset = off\<rparr> = upd_rule i (rule_write (rule_at m i) f v) m"
    and "n \<le> i \<Longrightarrow> unat off = 32 * (i - n) + f \<Longrightarrow>
      dma_write m \<lparr>dma_table_index = x, base_addr = IPA_NAT_EXPN_TBL, dma_data = v, dma_offset = off\<rparr> = upd_rule i (rule_write (rule_at m i) f v) m"
  using assms by (auto simp: dma_write_def Let_def upd_rule_def rule_at_def shape_def nth_append)

lemma dma_index:
  assumes "shape n e m" "i < n + e" "f < 4"
  shows "i < n \<Longrightarrow> unat off = 4 * i + f \<Longrightarrow>
      dma_write m \<lparr>dma_table_index = x, base_addr = IPA_NAT_INDX_TBL, dma_data = v, dma_offset = off\<rparr> = upd_index i (index_write (index_at m i) f v) m"
    and "n \<le> i \<Longrightarrow> unat off = 4 * (i - n) + f \<Longrightarrow>
      dma_write m \<lparr>dma_table_index = x, base_addr = IPA_NAT_INDEX_EXPN_TBL, dma_data = v, dma_offset = off\<rparr> = upd_index i (index_write (index_at m i) f v) m"
  using assms by (auto simp: dma_write_def Let_def upd_index_def index_at_def shape_def nth_append)

section \<open>Writing a new rule\<close>

definition link_rule :: "nat \<Rightarrow> u16 \<Rightarrow> nat_mem \<Rightarrow> nat_mem" where
  "link_rule p v m = upd_rule p ((rule_at m p)\<lparr>nxt_indx_pub_port := mk32 (hi16 (nxt_indx_pub_port (rule_at m p))) v\<rparr>) m"

definition link_index :: "nat \<Rightarrow> u16 \<Rightarrow> nat_mem \<Rightarrow> nat_mem" where
  "link_index p v m = upd_index p (mk32 v (lo16 (index_at m p))) m"

definition enable_rule :: "nat \<Rightarrow> nat_mem \<Rightarrow> nat_mem" where
  "enable_rule i m = upd_rule i ((rule_at m i)\<lparr>ip_cksm_enbl := mk32 0x8000 (lo16 (ip_cksm_enbl (rule_at m i)))\<rparr>) m"

lemma shape_link [simp]:
  "shape n e (link_rule p v m) = shape n e m" "shape n e (link_index p v m) = shape n e m" "shape n e (enable_rule i m) = shape n e m"
  by (simp_all add: link_rule_def link_index_def enable_rule_def)

lemma view_link [simp]:
  "index_at (link_rule p v m) = index_at m" "rule_at (link_index p v m) = rule_at m" "index_at (enable_rule i m) = index_at m"
  by (simp_all add: link_rule_def link_index_def enable_rule_def)

lemmas driver_consts = IPA_NAT_INVALID_NAT_ENTRY_def IPA_NAT_RULE_FLAG_FIELD_OFFSET_def IPA_NAT_RULE_NEXT_FIELD_OFFSET_def
  IPA_NAT_RULE_PROTO_FIELD_OFFSET_def IPA_NAT_INDEX_RULE_NEXT_FIELD_OFFSET_def IPA_NAT_INDEX_RULE_NAT_INDEX_FIELD_OFFSET_def
  IPA_NAT_FLAG_ENABLE_BIT_MASK_def IPA_NAT_FLAG_DISABLE_BIT_MASK_def IPA_NAT_INVALID_PROTO_FIELD_VALUE_def

text \<open>A command for the rule or index entry with global number \<open>p\<close>, in the form in which the driver computes it.\<close>

lemma dma_next_of_rule:
  assumes d: "dims t n e" and m: "shape n e m" and p: "unat p < n + e"
  shows "dma_write m (let (ty, q) = (if p < table_entries t then (IPA_NAT_BASE_TBL, p) else (IPA_NAT_EXPN_TBL, p - table_entries t))
           in \<lparr>dma_table_index = x, base_addr = ty, dma_data = v,
               dma_offset = ipa_nati_get_entry_offset t ty q + IPA_NAT_RULE_NEXT_FIELD_OFFSET\<rparr>) = link_rule (unat p) v m"
proof (cases "unat p < n")
  case True
  have "dma_write m \<lparr>dma_table_index = x, base_addr = IPA_NAT_BASE_TBL, dma_data = v,
      dma_offset = ipa_nati_get_entry_offset t IPA_NAT_BASE_TBL p + 8\<rparr> = upd_rule (unat p) (rule_write (rule_at m (unat p)) 8 v) m"
    by (rule dma_rule(1) [OF m p]) (use True offset_parts(1) [OF d, of 8] in auto)
  with True show ?thesis by (simp add: entry_less [OF d] link_rule_def rule_write_def driver_consts)
next
  case False
  have "dma_write m \<lparr>dma_table_index = x, base_addr = IPA_NAT_EXPN_TBL, dma_data = v,
      dma_offset = ipa_nati_get_entry_offset t IPA_NAT_EXPN_TBL (p - table_entries t) + 8\<rparr> =
      upd_rule (unat p) (rule_write (rule_at m (unat p)) 8 v) m"
    by (rule dma_rule(2) [OF m p]) (use False offset_parts(1) [OF d, of 8] entry_less(3) [OF d, of p] in auto)
  with False show ?thesis by (simp add: entry_less [OF d] link_rule_def rule_write_def driver_consts)
qed

lemma dma_next_of_index:
  assumes d: "dims t n e" and m: "shape n e m" and p: "unat p < n + e"
  shows "dma_write m (let (ty, q) = (if p < table_entries t then (IPA_NAT_INDX_TBL, p) else (IPA_NAT_INDEX_EXPN_TBL, p - table_entries t))
           in \<lparr>dma_table_index = x, base_addr = ty, dma_data = v,
               dma_offset = ipa_nati_get_index_entry_offset t ty q + IPA_NAT_INDEX_RULE_NEXT_FIELD_OFFSET\<rparr>) = link_index (unat p) v m"
proof (cases "unat p < n")
  case True
  have "dma_write m \<lparr>dma_table_index = x, base_addr = IPA_NAT_INDX_TBL, dma_data = v,
      dma_offset = ipa_nati_get_index_entry_offset t IPA_NAT_INDX_TBL p + 2\<rparr> = upd_index (unat p) (index_write (index_at m (unat p)) 2 v) m"
    by (rule dma_index(1) [OF m p]) (use True offset_parts(2) [OF d, of 2] in auto)
  with True show ?thesis by (simp add: entry_less [OF d] link_index_def index_write_def driver_consts)
next
  case False
  have "dma_write m \<lparr>dma_table_index = x, base_addr = IPA_NAT_INDEX_EXPN_TBL, dma_data = v,
      dma_offset = ipa_nati_get_index_entry_offset t IPA_NAT_INDEX_EXPN_TBL (p - table_entries t) + 2\<rparr> =
      upd_index (unat p) (index_write (index_at m (unat p)) 2 v) m"
    by (rule dma_index(2) [OF m p]) (use False offset_parts(2) [OF d, of 2] entry_less(3) [OF d, of p] in auto)
  with False show ?thesis by (simp add: entry_less [OF d] link_index_def index_write_def driver_consts)
qed

lemma set_rule_entry:
  assumes "dims t n e" "shape n e m" "unat w < n + e"
  shows "(if w < table_entries t then set_rule m False w r else set_rule m True (w - table_entries t) r) = Some (upd_rule (unat w) r m)"
  using set_rule_at [OF assms(2,3)] entry_less [OF assms(1), of w] by (cases "unat w < n") auto

lemma set_index_entry:
  assumes "dims t n e" "shape n e m" "unat w < n + e"
  shows "(if w < table_entries t then set_index m False w v else set_index m True (w - table_entries t) v) = Some (upd_index (unat w) v m)"
  using set_index_at [OF assms(2,3)] entry_less [OF assms(1), of w] by (cases "unat w < n") auto

lemma copy_rule:
  assumes d: "dims t n e" and K: "dma_works K" and i: "unat i < n + e" and p: "unat (s_prev_index r) < n + e"
  shows "ipa_nati_copy_ipv4_rule_to_hw K r i x t =
    Some (t\<lparr>mem := (if s_prev_index r = 0 then id else link_rule (unat (s_prev_index r)) i) (upd_rule (unat i) (rule_bytes r) (mem t))\<rparr>)"
proof -
  let ?m = "upd_rule (unat i) (rule_bytes r) (mem t)"
  have d': "dims (t\<lparr>mem := ?m\<rparr>) n e" using d dims_shape by (simp add: dims_mem)
  note l = dma_next_of_rule [OF d' dims_shape [OF d'] p, of x i]
  from K have K': "nat_dma K [c] m = (0, dma_write m c)" "malloc_ok K" for c m by (simp_all add: dma_works_def)
  show ?thesis
    using l by (auto simp: ipa_nati_copy_ipv4_rule_to_hw_def set_rule_entry [OF d dims_shape [OF d] i] ipa_nati_write_next_index_def K' driver_consts
      split: prod.split if_splits)
qed

lemma copy_index_rule:
  assumes d: "dims t n e" and K: "dma_works K" and i: "unat i < n + e" and p: "unat (x_prev_index w) < n + e"
  shows "ipa_nati_copy_ipv4_index_rule_to_hw K w i x t =
    Some (t\<lparr>mem := (if x_prev_index w = 0 then id else link_index (unat (x_prev_index w)) i)
       (upd_index (unat i) (mk32 (x_next_index w) (x_tbl_entry w)) (mem t))\<rparr>)"
proof -
  let ?m = "upd_index (unat i) (mk32 (x_next_index w) (x_tbl_entry w)) (mem t)"
  have d': "dims (t\<lparr>mem := ?m\<rparr>) n e" using d dims_shape by (simp add: dims_mem)
  note l = dma_next_of_index [OF d' dims_shape [OF d'] p, of x i]
  from K have K': "nat_dma K [c] m = (0, dma_write m c)" "malloc_ok K" for c m by (simp_all add: dma_works_def)
  have off: "ucast (ucast (ipa_nati_get_index_entry_offset T ty q) + ucast IPA_NAT_INDEX_RULE_NEXT_FIELD_OFFSET :: u16) =
      ipa_nati_get_index_entry_offset T ty q + IPA_NAT_INDEX_RULE_NEXT_FIELD_OFFSET" (is "?l = ?r")
    if "dims T n e" "unat q < 16384" for T ty q
  proof -
    have "unat (ipa_nati_get_index_entry_offset T ty q) = 4 * unat q" using offset_parts(2) [OF that(1), of 0 ty q] by simp
    moreover have "unat ?r = 4 * unat q + 2" using offset_parts(2) [OF that(1), of 2 ty q] by (simp add: driver_consts)
    ultimately have "unat ?l = unat ?r" using that(2)
      by (simp add: unsigned_ucast_eq take_bit_nat_eq_self unat_word_ariths driver_consts)
    then show ?thesis by (rule unsigned_word_eqI)
  qed
  have q: "unat q < 16384" if "(ty, q) = (if x_prev_index w < table_entries t then (IPA_NAT_INDX_TBL, x_prev_index w)
      else (IPA_NAT_INDEX_EXPN_TBL, x_prev_index w - table_entries t))" for ty q
    using that p d entry_less [OF d, of "x_prev_index w"] by (auto simp: dims_def split: if_splits)
  show ?thesis
    using l off [OF d'] q
    by (auto simp: ipa_nati_copy_ipv4_index_rule_to_hw_def set_index_entry [OF d dims_shape [OF d] i] ipa_nati_write_next_index_def K'
      Let_def driver_consts split: prod.split if_splits)
qed

lemma post_enable:
  assumes d: "dims t n e" and K: "dma_works K" and i: "unat i < n + e"
  shows "ipa_nati_post_ipv4_dma_cmd K x i t = (0, t\<lparr>mem := enable_rule (unat i) (mem t)\<rparr>)"
proof -
  from K have K': "nat_dma K [c] m = (0, dma_write m c)" "malloc_ok K" for c m by (simp_all add: dma_works_def)
  have z: "tbl_addr_offset t = 0" using d by (simp add: dims_def)
  show ?thesis
    using dma_rule [OF dims_shape [OF d] i, of 18 _ x "0x8000"] offset_parts(3) [OF d, of 18 i]
      offset_parts(3) [OF d, of 18 "i - table_entries t"] entry_less [OF d, of i]
    by (cases "unat i < n")
      (auto simp: ipa_nati_post_ipv4_dma_cmd_def K' z enable_rule_def rule_write_def driver_consts)
qed

end
