(* ===== verification/NatInv.thy ===== *)
theory NatInv
  imports NatView
begin

text \<open>
  The invariant of a NAT table in use: both tables are chained, the live rules and the used index entries point at each other, every entry
  is reached from its hash value, and the rule handles stand for the live rules. What adding and deleting an entry may do without
  breaking it is stated over the view; the driver's operations are in \<open>NatRun\<close>.
\<close>

section \<open>Reading entries\<close>

definition rnext :: "ipa_nat_rule \<Rightarrow> nat" where "rnext r = unat (Read16BitFieldValue (nxt_indx_pub_port r) NEXT_INDEX_FIELD)"
definition rprev :: "ipa_nat_rule \<Rightarrow> nat" where "rprev r = unat (Read16BitFieldValue (sw_spec_params r) SW_SPEC_PARAM_PREV_INDEX_FIELD)"
definition rindex :: "ipa_nat_rule \<Rightarrow> nat" where "rindex r = unat (Read16BitFieldValue (sw_spec_params r) SW_SPEC_PARAM_INDX_TBL_ENTRY_FIELD)"
definition enabled_rule :: "ipa_nat_rule \<Rightarrow> bool" where "enabled_rule r \<longleftrightarrow> Read16BitFieldValue (ip_cksm_enbl r) ENABLE_FIELD \<noteq> 0"
definition rproto :: "ipa_nat_rule \<Rightarrow> u8" where "rproto r = Read8BitFieldValue (ts_proto r) PROTOCOL_FIELD"
definition xnext :: "u32 \<Rightarrow> nat" where "xnext w = unat (Read16BitFieldValue w INDX_TBL_NEXT_INDEX_FILED)"
definition xentry :: "u32 \<Rightarrow> nat" where "xentry w = unat (Read16BitFieldValue w INDX_TBL_TBL_ENTRY_FIELD)"

lemmas reader_defs = rnext_def rprev_def rindex_def enabled_rule_def rproto_def xnext_def xentry_def Read16BitFieldValue_def
  Read8BitFieldValue_def

text \<open>A head that has been deleted while its chain was not empty stays enabled with protocol 255.\<close>

definition live_rule :: "ipa_nat_rule \<Rightarrow> bool" where
  "live_rule r \<longleftrightarrow> enabled_rule r \<and> rproto r \<noteq> IPA_NAT_INVALID_PROTO_FIELD_CMP"

text \<open>The client rule in an entry.\<close>

definition client_rule :: "ipa_nat_rule \<Rightarrow> ipa_nat_ipv4_rule" where
  "client_rule r = \<lparr>r_target_ip = h_target_ip r, r_private_ip = h_private_ip r, r_target_port = h_target_port r,
     r_private_port = h_private_port r, r_public_port = hi16 (nxt_indx_pub_port r), r_protocol = rproto r,
     r_pdn_index = ucast (h_pdn_index r)\<rparr>"

lemma enable_bit: "Read16BitFieldValue w ENABLE_FIELD = 0 \<longleftrightarrow> \<not> bit w 31"
proof -
  have "bit (ucast (drop_bit 31 w) :: u16) i \<longleftrightarrow> i = 0 \<and> bit w 31" for i
  proof -
    have "bit w (i + 31) \<Longrightarrow> i = 0" using bit_imp_le_length [of w "i + 31"] by auto
    then show ?thesis by (auto simp: bit_simps add.commute)
  qed
  then show ?thesis
    by (auto simp: Read16BitFieldValue_def bit_eq_iff [of "ucast (drop_bit 31 w) :: u16" 0] dest: spec [of _ "0 :: nat"])
qed

lemma enable_mk32: "Read16BitFieldValue (mk32 h l) ENABLE_FIELD = 0 \<longleftrightarrow> \<not> bit h 15"
  by (simp add: enable_bit mk32_bit)

section \<open>The loops of the driver\<close>

lemma last_in_chain_path:
  assumes "dpath nxt prv y ys" "distinct (y # ys)" "set (y # ys) \<subseteq> {n<..<n + e}" "unat w = y"
    and E: "length expn = e" "\<And>i. n \<le> i \<Longrightarrow> i < n + e \<Longrightarrow> unat (nx (expn ! (i - n))) = nxt i" and te: "unat te = n"
  shows "\<exists>l. last_in_chain nx te expn w p = Some (Some l) \<and> unat l = last (y # ys)"
  using assms(1-4)
proof (induction ys arbitrary: y w p)
  case (Nil y w p)
  have g: "aget expn (unat (w - te)) = Some (expn ! (y - n))" "w \<noteq> 0"
    using Nil.prems(3,4) E(1) te unat_minus_te [of te w] by (auto simp: aget_def word_le_nat_alt)
  have "unat (nx (expn ! (y - n))) = 0" using E(2) [of y] Nil.prems by auto
  then have "nx (expn ! (y - n)) = 0" by (simp add: unsigned_eq_0_iff)
  with g Nil.prems(4) show ?case
    by (simp add: last_in_chain.simps [of nx te expn w p] last_in_chain.simps [of nx te expn 0 w] IPA_NAT_INVALID_NAT_ENTRY_def)
next
  case (Cons z ys y w p)
  have g: "aget expn (unat (w - te)) = Some (expn ! (y - n))" "w \<noteq> 0"
    using Cons.prems(3,4) E(1) te unat_minus_te [of te w] by (auto simp: aget_def word_le_nat_alt)
  have z: "unat (nx (expn ! (y - n))) = z" "y \<noteq> z" using E(2) [of y] Cons.prems by auto
  with Cons.prems have "\<exists>l. last_in_chain nx te expn (nx (expn ! (y - n))) w = Some (Some l) \<and> unat l = last (z # ys)"
    by (intro Cons.IH) auto
  moreover have "w \<noteq> nx (expn ! (y - n))" using z Cons.prems(4) by auto
  ultimately show ?case using g by (simp add: last_in_chain.simps [of nx te expn w p] IPA_NAT_INVALID_NAT_ENTRY_def)
qed

lemma free_entry_loop_result:
  "1 \<le> i \<Longrightarrow> sz \<le> length tbl \<Longrightarrow> sz < 65536 \<Longrightarrow>
     \<exists>v. free_entry_loop flag tbl sz i = Some v \<and>
       (if v = 0 then \<forall>j. i \<le> j \<and> j < sz \<longrightarrow> flag (tbl ! j) \<noteq> 0 else i \<le> unat v \<and> unat v < sz \<and> flag (tbl ! unat v) = 0)"
proof (induction flag tbl sz i rule: free_entry_loop.induct)
  case (1 flag tbl sz i)
  show ?case
  proof (cases "i < sz \<and> flag (tbl ! i) \<noteq> 0")
    case True
    with 1 obtain v where v: "free_entry_loop flag tbl sz (i + 1) = Some v"
      "if v = 0 then \<forall>j. i + 1 \<le> j \<and> j < sz \<longrightarrow> flag (tbl ! j) \<noteq> 0 else i + 1 \<le> unat v \<and> unat v < sz \<and> flag (tbl ! unat v) = 0"
      by (auto simp: aget_def)
    have "free_entry_loop flag tbl sz i = Some v" using True 1 v by (simp add: free_entry_loop.simps [of flag tbl sz i] aget_def)
    moreover have "if v = 0 then \<forall>j. i \<le> j \<and> j < sz \<longrightarrow> flag (tbl ! j) \<noteq> 0 else i \<le> unat v \<and> unat v < sz \<and> flag (tbl ! unat v) = 0"
      using v(2) True by (auto split: if_splits) (metis Suc_leI le_neq_implies_less)
    ultimately show ?thesis by blast
  next
    case False
    show ?thesis
    proof (cases "i < sz")
      case True
      have "unat (of_nat i :: u16) = i" using True 1 by (simp add: unat_of_nat)
      with True False 1 show ?thesis by (auto simp: free_entry_loop.simps [of flag tbl sz i] aget_def unsigned_eq_0_iff)
    qed (auto simp: free_entry_loop.simps [of flag tbl sz i])
  qed
qed

lemma make_rule_hdl_loop_result:
  "sz = length ids \<Longrightarrow> sz < 65536 \<Longrightarrow> i \<le> k \<Longrightarrow> k < sz \<Longrightarrow> ids ! k = 0 \<Longrightarrow> (\<And>j. i \<le> j \<Longrightarrow> j < k \<Longrightarrow> ids ! j \<noteq> 0) \<Longrightarrow>
     make_rule_hdl_loop h sz ids i = Some (of_nat (k + 1), ids[k := h])"
proof (induction h sz ids i rule: make_rule_hdl_loop.induct)
  case (1 h sz ids i)
  show ?case
  proof (cases "i = k")
    case True
    with 1(2-6) show ?thesis by (subst make_rule_hdl_loop.simps) (simp add: aget_def IPA_NAT_INVALID_NAT_ENTRY_def)
  next
    case False
    have "make_rule_hdl_loop h sz ids (i + 1) = Some (of_nat (k + 1), ids[k := h])"
    proof (rule 1(1))
      show "aget ids i = Some (ids ! i)" "i < sz" "IPA_NAT_INVALID_NAT_ENTRY \<noteq> ids ! i"
        using False 1(2-6) 1(7) [of i] by (auto simp: aget_def IPA_NAT_INVALID_NAT_ENTRY_def)
    qed (use False 1(2-7) in auto)
    with False 1(2-6) 1(7) [of i] show ?thesis
      by (subst make_rule_hdl_loop.simps) (simp add: aget_def IPA_NAT_INVALID_NAT_ENTRY_def)
  qed
qed

lemma del_dead_loop_result:
  "sz = length rs \<Longrightarrow> del_dead_loop sz i rs =
     Some (take i rs @ map (\<lambda>r. if rproto r = IPA_NAT_INVALID_PROTO_FIELD_CMP \<and> rnext r = 0 then zero_rule else r) (drop i rs))"
proof (induction sz i rs rule: del_dead_loop.induct)
  case (1 sz i rs)
  let ?f = "\<lambda>r. if rproto r = IPA_NAT_INVALID_PROTO_FIELD_CMP \<and> rnext r = 0 then zero_rule else r"
  show ?case
  proof (cases "i < sz")
    case True
    have eq: "(if Read8BitFieldValue (ts_proto (rs ! i)) PROTOCOL_FIELD = IPA_NAT_INVALID_PROTO_FIELD_CMP \<and>
        Read16BitFieldValue (nxt_indx_pub_port (rs ! i)) NEXT_INDEX_FIELD = IPA_NAT_INVALID_NAT_ENTRY then rs[i := zero_rule] else rs) =
        rs[i := ?f (rs ! i)]"
      by (simp add: rproto_def rnext_def IPA_NAT_INVALID_NAT_ENTRY_def unsigned_eq_0_iff)
    have "del_dead_loop sz i rs = del_dead_loop sz (i + 1) (rs[i := ?f (rs ! i)])"
      using True 1(2) by (subst del_dead_loop.simps) (simp only: eq [symmetric] aget_def if_True option.case)
    also have "\<dots> = Some (take (i + 1) (rs[i := ?f (rs ! i)]) @ map ?f (drop (i + 1) (rs[i := ?f (rs ! i)])))"
    proof -
      have "aget rs i = Some (rs ! i)" using True 1(2) by (simp add: aget_def)
      from 1(1) [OF True this, unfolded eq] show ?thesis using 1(2) by simp
    qed
    also have "\<dots> = Some (take i rs @ map ?f (drop i rs))"
      using True 1(2) by (simp add: take_Suc_conv_app_nth Cons_nth_drop_Suc [symmetric])
    finally show ?thesis .
  next
    case False
    with 1(2) show ?thesis by (subst del_dead_loop.simps) simp
  qed
qed

section \<open>The invariant\<close>

definition on_chain :: "(nat \<Rightarrow> nat list) \<Rightarrow> nat \<Rightarrow> nat \<Rightarrow> bool" where
  "on_chain D b i \<longleftrightarrow> i = b \<or> i \<in> set (D b)"

text \<open>The hash values of a client rule, for table size \<open>te\<close>.\<close>

definition dst_slot :: "bool \<Rightarrow> ipa_nat_pdn_entry list \<Rightarrow> u16 \<Rightarrow> ipa_nat_ipv4_rule \<Rightarrow> nat" where
  "dst_slot ver4 ps te c = unat (dst_hash ver4 (pdn_public_ip (ps ! unat (r_pdn_index c))) (r_target_ip c) (r_target_port c)
     (r_public_port c) (r_protocol c) (te - 1))"

definition src_slot :: "u16 \<Rightarrow> ipa_nat_ipv4_rule \<Rightarrow> nat" where
  "src_slot te c = unat (src_hash (r_private_ip c) (r_private_port c) (r_target_ip c) (r_target_port c) (r_protocol c) (te - 1))"

text \<open>The entry that a rule id stands for.\<close>

definition id_entry :: "nat \<Rightarrow> u16 \<Rightarrow> nat" where
  "id_entry n v = (if bit v 0 then n + unat (drop_bit 1 v) else unat (drop_bit 1 v))"

definition rules_ok :: "nat \<Rightarrow> nat \<Rightarrow> (nat \<Rightarrow> ipa_nat_rule) \<Rightarrow> (nat \<Rightarrow> nat list) \<Rightarrow> bool" where
  "rules_ok n e R D \<longleftrightarrow>
     chained n e (\<lambda>i. enabled_rule (R i)) (\<lambda>i. rnext (R i)) (\<lambda>i. rprev (R i)) D \<and>
     (\<forall>i < n + e. enabled_rule (R i) \<and> \<not> live_rule (R i) \<longrightarrow> i < n \<and> D i \<noteq> [])"

definition index_ok :: "nat \<Rightarrow> nat \<Rightarrow> (nat \<Rightarrow> u32) \<Rightarrow> u16 list \<Rightarrow> (nat \<Rightarrow> nat list) \<Rightarrow> bool" where
  "index_ok n e I M X \<longleftrightarrow>
     chained n e (\<lambda>j. xentry (I j) \<noteq> 0) (\<lambda>j. xnext (I j)) (\<lambda>j. if j \<le> n then 0 else unat (M ! (j - n))) X"

definition links_ok :: "nat \<Rightarrow> nat \<Rightarrow> (nat \<Rightarrow> ipa_nat_rule) \<Rightarrow> (nat \<Rightarrow> u32) \<Rightarrow> bool" where
  "links_ok n e R I \<longleftrightarrow>
     (\<forall>i < n + e. live_rule (R i) \<longrightarrow> rindex (R i) < n + e \<and> xentry (I (rindex (R i))) = i) \<and>
     (\<forall>j < n + e. xentry (I j) \<noteq> 0 \<longrightarrow> xentry (I j) < n + e \<and> live_rule (R (xentry (I j))) \<and> rindex (R (xentry (I j))) = j)"

definition place_ok ::
  "(ipa_nat_ipv4_rule \<Rightarrow> nat) \<Rightarrow> (ipa_nat_ipv4_rule \<Rightarrow> nat) \<Rightarrow> nat \<Rightarrow> nat \<Rightarrow> (nat \<Rightarrow> ipa_nat_rule) \<Rightarrow> (nat \<Rightarrow> u32) \<Rightarrow>
     (nat \<Rightarrow> nat list) \<Rightarrow> (nat \<Rightarrow> nat list) \<Rightarrow> bool" where
  "place_ok dh sh n e R I D X \<longleftrightarrow>
     (\<forall>i < n + e. live_rule (R i) \<longrightarrow> on_chain D (dh (client_rule (R i))) i \<and> on_chain X (sh (client_rule (R i))) (rindex (R i)))"

definition ids_ok :: "nat \<Rightarrow> nat \<Rightarrow> (nat \<Rightarrow> ipa_nat_rule) \<Rightarrow> u16 list \<Rightarrow> bool" where
  "ids_ok n e R ids \<longleftrightarrow>
     (\<forall>h < n + e. ids ! h \<noteq> 0 \<longrightarrow>
        id_entry n (ids ! h) < n + e \<and> live_rule (R (id_entry n (ids ! h))) \<and> (bit (ids ! h) 0 \<or> id_entry n (ids ! h) < n)) \<and>
     (\<forall>h < n + e. \<forall>h' < n + e. ids ! h \<noteq> 0 \<and> ids ! h' \<noteq> 0 \<and> id_entry n (ids ! h) = id_entry n (ids ! h') \<longrightarrow> h = h') \<and>
     (\<forall>i < n + e. live_rule (R i) \<longrightarrow> (\<exists>h < n + e. ids ! h \<noteq> 0 \<and> id_entry n (ids ! h) = i))"

definition nat_inv_at ::
  "bool \<Rightarrow> ipa_nat_pdn_entry list \<Rightarrow> nat \<Rightarrow> nat \<Rightarrow> (nat \<Rightarrow> nat list) \<Rightarrow> (nat \<Rightarrow> nat list) \<Rightarrow> ip4_table \<Rightarrow> bool" where
  "nat_inv_at ver4 ps n e D X t \<longleftrightarrow>
     dims t n e \<and> length ps \<le> 16 \<and> rules_ok n e (rule_at (mem t)) D \<and>
     index_ok n e (index_at (mem t)) (index_expn_table_meta t) X \<and> links_ok n e (rule_at (mem t)) (index_at (mem t)) \<and>
     place_ok (dst_slot ver4 ps (table_entries t)) (src_slot (table_entries t)) n e (rule_at (mem t)) (index_at (mem t)) D X \<and>
     ids_ok n e (rule_at (mem t)) (rule_id_array t) \<and> rule_id_array t ! (n + e - 1) = 0"

definition nat_inv :: "bool \<Rightarrow> ipa_nat_pdn_entry list \<Rightarrow> ip4_table \<Rightarrow> bool" where
  "nat_inv ver4 ps t \<longleftrightarrow> (\<exists>n e D X. nat_inv_at ver4 ps n e D X t)"

text \<open>The rules in the table, by handle.\<close>

definition rule_map :: "ip4_table \<Rightarrow> u32 \<rightharpoonup> ipa_nat_ipv4_rule" where
  "rule_map t h =
     (let n = unat (table_entries t); e = unat (expn_table_entries t); k = unat h
      in if 0 < k \<and> k < n + e \<and> rule_id_array t ! (k - 1) \<noteq> 0
         then Some (client_rule (rule_at (mem t) (id_entry n (rule_id_array t ! (k - 1))))) else None)"

lemma live_enabled: "live_rule r \<Longrightarrow> enabled_rule r"
  by (simp add: live_rule_def)

lemma rules_ok_live_range: "rules_ok n e R D \<Longrightarrow> 0 < n \<Longrightarrow> 0 < e \<Longrightarrow> i < n + e \<Longrightarrow> live_rule (R i) \<Longrightarrow> i \<noteq> 0 \<and> i \<noteq> n"
  unfolding rules_ok_def using chained_0 chained_first live_enabled by metis

section \<open>Adding an entry\<close>

lemma links_add:
  assumes L: "links_ok n e R I" and i0: "i0 < n + e" "i0 \<noteq> 0" "\<not> live_rule (R i0)" and j0: "j0 < n + e" "xentry (I j0) = 0"
    and none: "\<not> live_rule (R 0)"
    and R': "\<And>i. i < n + e \<Longrightarrow> i \<noteq> i0 \<Longrightarrow> live_rule (R' i) = live_rule (R i) \<and> rindex (R' i) = rindex (R i)"
    and new: "live_rule (R' i0)" "rindex (R' i0) = j0"
    and I': "\<And>j. j < n + e \<Longrightarrow> xentry (I' j) = (if j = j0 then i0 else xentry (I j))"
  shows "links_ok n e R' I'"
  unfolding links_ok_def
proof (intro conjI allI impI)
  fix i assume i: "i < n + e" "live_rule (R' i)"
  have "rindex (R i) < n + e \<and> xentry (I (rindex (R i))) = i \<and> rindex (R i) \<noteq> j0" if "i \<noteq> i0"
    using that L i R' [OF i(1)] j0(2) none unfolding links_ok_def by auto
  then show "rindex (R' i) < n + e" "xentry (I' (rindex (R' i))) = i"
    using i R' [OF i(1)] I' new j0(1) by (cases "i = i0"; auto)+
next
  fix j assume j: "j < n + e" "xentry (I' j) \<noteq> 0"
  have "xentry (I j) < n + e \<and> live_rule (R (xentry (I j))) \<and> rindex (R (xentry (I j))) = j \<and> xentry (I j) \<noteq> i0" if "j \<noteq> j0"
    using that L j I' [OF j(1)] i0(3) unfolding links_ok_def by auto
  then show "xentry (I' j) < n + e" "live_rule (R' (xentry (I' j)))" "rindex (R' (xentry (I' j))) = j"
    using j I' [OF j(1)] R' [of "xentry (I j)"] new i0(1) by (cases "j = j0"; auto)+
qed

lemma ids_add:
  assumes "ids_ok n e R ids" and "length ids = n + e" and "h0 < n + e" "ids ! h0 = 0" and "v \<noteq> 0" "id_entry n v = i0" "i0 < n + e"
    and code: "bit v 0 \<or> i0 < n"
    and "\<not> live_rule (R i0)" "live_rule (R' i0)"
    and "\<And>i. i < n + e \<Longrightarrow> i \<noteq> i0 \<Longrightarrow> live_rule (R' i) = live_rule (R i)"
  shows "ids_ok n e R' (ids[h0 := v])"
proof -
  have nth: "ids[h0 := v] ! h = (if h = h0 then v else ids ! h)" for h using assms(2,3) by (simp add: nth_list_update)
  have ne: "id_entry n (ids ! h) \<noteq> i0" "id_entry n (ids ! h) < n + e" "live_rule (R (id_entry n (ids ! h)))"
    "bit (ids ! h) 0 \<or> id_entry n (ids ! h) < n"
    if "h < n + e" "ids ! h \<noteq> 0" for h
    using assms(1,9) that unfolding ids_ok_def by metis+
  show ?thesis unfolding ids_ok_def nth
  proof (intro conjI allI impI)
    fix h assume "h < n + e" "(if h = h0 then v else ids ! h) \<noteq> 0"
    then show "id_entry n (if h = h0 then v else ids ! h) < n + e" "live_rule (R' (id_entry n (if h = h0 then v else ids ! h)))"
      "bit (if h = h0 then v else ids ! h) 0 \<or> id_entry n (if h = h0 then v else ids ! h) < n"
      using assms ne [of h] by auto
  next
    fix h h' assume "h < n + e" "h' < n + e" "(if h = h0 then v else ids ! h) \<noteq> 0 \<and> (if h' = h0 then v else ids ! h') \<noteq> 0 \<and>
      id_entry n (if h = h0 then v else ids ! h) = id_entry n (if h' = h0 then v else ids ! h')"
    then show "h = h'" using assms(1,4,6) ne [of h] ne [of h'] unfolding ids_ok_def by (cases "h = h0"; cases "h' = h0") auto
  next
    fix i assume i: "i < n + e" "live_rule (R' i)"
    show "\<exists>h<n + e. (if h = h0 then v else ids ! h) \<noteq> 0 \<and> id_entry n (if h = h0 then v else ids ! h) = i"
    proof (cases "i = i0")
      case True
      then show ?thesis using assms(3,5,6) by (intro exI [of _ h0]) simp
    next
      case False
      then obtain h where "h < n + e" "ids ! h \<noteq> 0" "id_entry n (ids ! h) = i"
        using assms(1,11) i unfolding ids_ok_def by metis
      then show ?thesis using assms(4) by (intro exI [of _ h]) auto
    qed
  qed
qed

section \<open>Deleting an entry\<close>

text \<open>The rule at \<open>i0\<close>, with index entry \<open>j0\<close>, is deleted; \<open>y\<close> is the index entry that becomes free (\<open>j0\<close> or, when \<open>j0\<close> is a head with a chain, its
  successor, whose rule now has the index entry \<open>j0\<close>).\<close>

lemma links_del:
  assumes L: "links_ok n e R I" and i0: "i0 < n + e" "live_rule (R i0)" "rindex (R i0) = j0" and y: "y < n + e" "xentry (I y) \<noteq> 0"
    and live: "\<And>i. i < n + e \<Longrightarrow> live_rule (R' i) = (live_rule (R i) \<and> i \<noteq> i0)"
    and rindex: "\<And>i. i < n + e \<Longrightarrow> live_rule (R' i) \<Longrightarrow> rindex (R' i) = (if rindex (R i) = y then j0 else rindex (R i))"
    and used: "\<And>j. j < n + e \<Longrightarrow> xentry (I' j) = (if j = y then 0 else if j = j0 then xentry (I y) else xentry (I j))"
  shows "links_ok n e R' I'"
  unfolding links_ok_def
proof (intro conjI allI impI)
  have j0: "j0 < n + e" "xentry (I j0) = i0" using L i0 unfolding links_ok_def by auto
  fix i assume i: "i < n + e" "live_rule (R' i)"
  then have li: "live_rule (R i)" "i \<noteq> i0" "rindex (R i) < n + e" "xentry (I (rindex (R i))) = i" using live L unfolding links_ok_def by auto
  then have "rindex (R i) \<noteq> j0" using j0 by auto
  then show "rindex (R' i) < n + e" "xentry (I' (rindex (R' i))) = i" using li i rindex [OF i] used j0 by auto
next
  fix j assume j: "j < n + e" "xentry (I' j) \<noteq> 0"
  have j0: "j0 < n + e" "xentry (I j0) = i0" using L i0 unfolding links_ok_def by auto
  define k where "k = (if j = j0 then y else j)"
  have k: "k < n + e" "xentry (I' j) = xentry (I k)" "xentry (I k) \<noteq> 0" "j \<noteq> y" using j y used [OF j(1)] by (auto simp: k_def split: if_splits)
  then have r: "xentry (I k) < n + e" "live_rule (R (xentry (I k)))" "rindex (R (xentry (I k))) = k" using L unfolding links_ok_def by auto
  have "xentry (I k) \<noteq> i0" using r(3) i0(3) k(4) by (auto simp: k_def split: if_splits)
  then show "xentry (I' j) < n + e" "live_rule (R' (xentry (I' j)))" "rindex (R' (xentry (I' j))) = j"
    using r k live rindex [of "xentry (I k)"] by (auto simp: k_def split: if_splits)
qed

lemma ids_del:
  assumes "ids_ok n e R ids" and "length ids = n + e" and "h0 < n + e" "ids ! h0 \<noteq> 0" "id_entry n (ids ! h0) = i0"
    and live: "\<And>i. i < n + e \<Longrightarrow> live_rule (R' i) = (live_rule (R i) \<and> i \<noteq> i0)"
  shows "ids_ok n e R' (ids[h0 := 0])"
proof -
  have nth: "ids[h0 := 0] ! h = (if h = h0 then 0 else ids ! h)" for h using assms(2,3) by (simp add: nth_list_update)
  note I = assms(1) [unfolded ids_ok_def]
  show ?thesis unfolding ids_ok_def nth
  proof (intro conjI allI impI)
    fix h assume h: "h < n + e" "(if h = h0 then 0 else ids ! h) \<noteq> 0"
    then have "id_entry n (ids ! h) \<noteq> i0" "id_entry n (ids ! h) < n + e" "live_rule (R (id_entry n (ids ! h)))" "h \<noteq> h0"
      "bit (ids ! h) 0 \<or> id_entry n (ids ! h) < n" using I assms(3-5) by (auto split: if_splits)
    then show "id_entry n (if h = h0 then 0 else ids ! h) < n + e" "live_rule (R' (id_entry n (if h = h0 then 0 else ids ! h)))"
      "bit (if h = h0 then 0 else ids ! h) 0 \<or> id_entry n (if h = h0 then 0 else ids ! h) < n"
      using live by auto
  next
    fix h h' assume "h < n + e" "h' < n + e" "(if h = h0 then 0 else ids ! h) \<noteq> 0 \<and> (if h' = h0 then 0 else ids ! h') \<noteq> 0 \<and>
      id_entry n (if h = h0 then 0 else ids ! h) = id_entry n (if h' = h0 then 0 else ids ! h')"
    then show "h = h'" using I by (auto split: if_splits)
  next
    fix i assume i: "i < n + e" "live_rule (R' i)"
    then obtain h where h: "h < n + e" "ids ! h \<noteq> 0" "id_entry n (ids ! h) = i" "i \<noteq> i0" using I live by metis
    then show "\<exists>h<n + e. (if h = h0 then 0 else ids ! h) \<noteq> 0 \<and> id_entry n (if h = h0 then 0 else ids ! h) = i"
      using assms(5) by (intro exI [of _ h]) auto
  qed
qed

lemma place_del:
  assumes P: "place_ok dh sh n e R I D X" and L: "links_ok n e R I"
    and i0: "i0 < n + e" "live_rule (R i0)" "rindex (R i0) = j0"
    and live: "\<And>i. i < n + e \<Longrightarrow> live_rule (R' i) = (live_rule (R i) \<and> i \<noteq> i0)"
    and same: "\<And>i. i < n + e \<Longrightarrow> live_rule (R' i) \<Longrightarrow> client_rule (R' i) = client_rule (R i)"
    and rindex: "\<And>i. i < n + e \<Longrightarrow> live_rule (R' i) \<Longrightarrow> rindex (R' i) = (if rindex (R i) = y then j0 else rindex (R i))"
    and D': "\<And>b. set (D b) - {i0} \<subseteq> set (D' b)" and X': "\<And>b. set (X b) - {y} \<subseteq> set (X' b)"
    and y: "y = j0 \<or> (y \<in> set (X j0) \<and> (\<forall>b. y \<in> set (X b) \<longrightarrow> b = j0) \<and> \<not> (\<exists>c. sh c = y))"
  shows "place_ok dh sh n e R' I' D' X'"
  unfolding place_ok_def
proof (intro allI impI)
  fix i assume i: "i < n + e" "live_rule (R' i)"
  then have li: "live_rule (R i)" "i \<noteq> i0" using live by auto
  have pl: "on_chain D (dh (client_rule (R i))) i" "on_chain X (sh (client_rule (R i))) (rindex (R i))"
    using P li i unfolding place_ok_def by auto
  have rj: "rindex (R i) \<noteq> j0" using L li i i0 unfolding links_ok_def by metis
  have "on_chain X' (sh (client_rule (R i))) (rindex (R' i))"
  proof (cases "rindex (R i) = y")
    case True
    with rj y pl(2) have "sh (client_rule (R i)) = j0" unfolding on_chain_def by metis
    with True rindex [OF i] show ?thesis by (simp add: on_chain_def)
  next
    case False
    with rindex [OF i] pl(2) X' show ?thesis unfolding on_chain_def by auto
  qed
  then show "on_chain D' (dh (client_rule (R' i))) i \<and> on_chain X' (sh (client_rule (R' i))) (rindex (R' i))"
    using pl(1) li D' same [OF i] unfolding on_chain_def by auto
qed

end
