(* ===== verification/NatAdd.thy ===== *)
theory NatAdd
  imports NatInv
begin

text \<open>
  Adding a rule keeps the invariant of the table: where the rule and its index entry go, that the memory afterwards is again well formed, and that
  there is a rule handle for it.
\<close>

section \<open>Hash slots\<close>

lemma te_minus: "dims t n e \<Longrightarrow> table_entries t - 1 \<noteq> 0 \<and> unat (table_entries t - 1) = n - 1"
proof -
  assume d: "dims t n e"
  then have "1 \<le> table_entries t" by (auto simp: dims_def word_le_nat_alt)
  then have "unat (table_entries t - 1) = n - 1" using d by (simp add: unat_sub dims_def)
  then show ?thesis using d by (auto simp: dims_def simp flip: unsigned_eq_0_iff [where ?'a = nat])
qed

lemma hash_slot: "dims t n e \<Longrightarrow> h \<noteq> 0 \<and> h \<le> table_entries t - 1 \<Longrightarrow> 0 < unat h \<and> unat h < n"
  using te_minus [of t n e] by (auto simp: dims_def word_le_nat_alt unat_gt_0)

lemma dst_slot_range: "dims t n e \<Longrightarrow> 0 < dst_slot ver4 ps (table_entries t) c \<and> dst_slot ver4 ps (table_entries t) c < n"
  unfolding dst_slot_def using te_minus dst_hash_range by (intro hash_slot) auto

lemma src_slot_range: "dims t n e \<Longrightarrow> 0 < src_slot (table_entries t) c \<and> src_slot (table_entries t) c < n"
  unfolding src_slot_def using te_minus src_hash_range by (intro hash_slot) auto

section \<open>Where a new entry goes\<close>

text \<open>Entry \<open>i\<close> with predecessor \<open>p\<close> (0 for none) is a place for a new entry with hash slot \<open>b\<close>.\<close>

definition place_for :: "nat \<Rightarrow> nat \<Rightarrow> (nat \<Rightarrow> bool) \<Rightarrow> (nat \<Rightarrow> nat list) \<Rightarrow> nat \<Rightarrow> nat \<Rightarrow> nat \<Rightarrow> bool" where
  "place_for n e used D b i p \<longleftrightarrow>
     (\<not> used b \<and> i = b \<and> p = 0) \<or> (used b \<and> n < i \<and> i < n + e \<and> \<not> used i \<and> p = last (b # D b))"

lemma place_for_range:
  assumes "chained n e used nxt prv D" "0 < b" "b < n" "place_for n e used D b i p"
  shows "i < n + e" "0 < i" "\<not> used i" "p < n + e" "p = 0 \<or> used p" "p \<noteq> i"
proof -
  have "used b \<Longrightarrow> last (b # D b) < n + e \<and> used (last (b # D b))" using chained_last(2,3) [OF assms(1,3)] by blast
  then show "i < n + e" "0 < i" "\<not> used i" "p < n + e" "p = 0 \<or> used p" "p \<noteq> i"
    using assms(2-4) unfolding place_for_def by (auto simp del: last.simps)
qed

lemma chain_end:
  assumes ch: "chained n e used nxt prv D" and b: "b < n" "used b" "unat w = b" and te: "unat te = n"
    and E: "length expn = e" "\<And>i. n \<le> i \<Longrightarrow> i < n + e \<Longrightarrow> unat (nx (expn ! (i - n))) = nxt i" and h: "unat h = nxt b"
  shows "\<exists>l. (if h = 0 then Some (Some w) else last_in_chain nx te expn h 0) = Some (Some l) \<and> unat l = last (b # D b)"
proof (cases "D b")
  case Nil
  then have "h = 0" using chained_parts(2) [OF ch b(1,2)] h by (simp flip: unsigned_eq_0_iff [where ?'a = nat])
  then show ?thesis using Nil b by simp
next
  case (Cons y ys)
  note P = chained_parts [OF ch]
  have y: "nxt b = y" "dpath nxt prv y ys" using P(2) [OF b(1,2)] Cons by auto
  have in_D: "set (y # ys) \<subseteq> {n<..<n + e}" "distinct (y # ys)" using P(3) [of b] P(4) [of _ b] Cons by auto
  then have "h \<noteq> 0" using h y by auto
  moreover obtain l where "last_in_chain nx te expn h 0 = Some (Some l)" "unat l = last (y # ys)"
    using last_in_chain_path [OF y(2) in_D(2,1) _ E te] h y by metis
  ultimately show ?thesis using Cons by auto
qed

lemma dims_small: "dims t n e \<Longrightarrow> i < n + e \<Longrightarrow> unat (of_nat i :: u16) = i"
  by (simp add: dims_def unat_of_nat)

definition expn_full :: "nat \<Rightarrow> nat \<Rightarrow> (nat \<Rightarrow> bool) \<Rightarrow> bool" where
  "expn_full n e used \<longleftrightarrow> (\<forall>i. n < i \<and> i < n + e \<longrightarrow> used i)"

text \<open>The free entry found in an expansion table, as a global number.\<close>

lemma free_global:
  assumes d: "dims t n e" and len: "length tbl = e"
  shows "\<exists>v. free_entry_loop flag tbl (unat (expn_table_entries t)) 1 = Some v \<and>
    (if v = 0 then \<forall>i. n < i \<and> i < n + e \<longrightarrow> flag (tbl ! (i - n)) \<noteq> 0
     else n < unat (v + table_entries t) \<and> unat (v + table_entries t) < n + e \<and> flag (tbl ! (unat (v + table_entries t) - n)) = 0)"
proof -
  have s: "unat (expn_table_entries t) = e" "unat (table_entries t) = n" "e \<le> 16384" "n \<le> 16384" using d by (auto simp: dims_def)
  from free_entry_loop_result [of 1 e tbl flag] len s obtain v where v: "free_entry_loop flag tbl e 1 = Some v"
    "if v = 0 then \<forall>j. 1 \<le> j \<and> j < e \<longrightarrow> flag (tbl ! j) \<noteq> 0 else 1 \<le> unat v \<and> unat v < e \<and> flag (tbl ! unat v) = 0" by auto
  have sum: "unat (v + table_entries t) = unat v + n" if "unat v < e" using that s by (simp add: unat_word_ariths)
  have full: "flag (tbl ! (i - n)) \<noteq> 0" if "v = 0" "n < i" "i < n + e" for i
  proof -
    have "1 \<le> i - n" "i - n < e" using that by auto
    then show ?thesis using v(2) that(1) by auto
  qed
  show ?thesis using v sum full s by (intro exI [of _ v]) auto
qed

lemma generate_tbl_rule_result:
  fixes ver4 :: bool
  assumes d: "dims t n e" and ok: "rules_ok n e (rule_at (mem t)) D" and c: "unat (r_pdn_index c) < length ps"
  defines "pub \<equiv> pdn_public_ip (ps ! unat (r_pdn_index c))" and "b \<equiv> dst_slot ver4 ps (table_entries t) c"
  shows "\<exists>w r. ipa_nati_generate_tbl_rule ver4 ps c r0 t = Some (w, r) \<and>
    (w = 0 \<and> expn_full n e (\<lambda>i. enabled_rule (rule_at (mem t) i)) \<or> (\<exists>p. r = (fill_sw_rule pub c r0)\<lparr>s_prev_index := p\<rparr> \<and>
       place_for n e (\<lambda>i. enabled_rule (rule_at (mem t) i)) D b (unat w) (unat p)))"
proof -
  let ?R = "rule_at (mem t)"
  define bw where "bw = dst_hash ver4 pub (r_target_ip c) (r_target_port c) (r_public_port c) (r_protocol c) (table_entries t - 1)"
  have bw: "unat bw = b" by (simp add: bw_def b_def dst_slot_def pub_def)
  have b: "0 < b" "b < n" using dst_slot_range [OF d] by (auto simp: b_def)
  have sh: "shape n e (mem t)" using d by (rule dims_shape)
  have head: "get_rule (mem t) False bw = Some (?R b)" using get_rule_at(1) [OF sh _ _ bw] b by simp
  have pdn: "aget ps (unat (r_pdn_index c)) = Some (ps ! unat (r_pdn_index c))" using c by (simp add: aget_def)
  have ch: "chained n e (\<lambda>i. enabled_rule (?R i)) (\<lambda>i. rnext (?R i)) (\<lambda>i. rprev (?R i)) D" using ok by (simp add: rules_ok_def)
  let ?f = "(fill_sw_rule pub c r0) :: ipa_nat_sw_rule"
  show ?thesis
  proof (cases "enabled_rule (?R b)")
    case False
    then have "ipa_nati_generate_tbl_rule ver4 ps c r0 t = Some (bw, ?f\<lparr>s_prev_index := 0\<rparr>)"
      by (simp add: ipa_nati_generate_tbl_rule_def pdn pub_def [symmetric] bw_def [symmetric] head enabled_rule_def)
    with False bw show ?thesis unfolding place_for_def by (intro exI [of _ bw] exI [of _ "?f\<lparr>s_prev_index := 0\<rparr>"]) auto
  next
    case True
    let ?nx = "\<lambda>r. Read16BitFieldValue (nxt_indx_pub_port r) NEXT_INDEX_FIELD"
    have nth: "expn_rules (mem t) ! (i - n) = ?R i" if "n \<le> i" for i
      using that sh by (simp add: rule_at_def shape_def nth_append)
    have len: "length (expn_rules (mem t)) = e" using sh by (simp add: shape_def)
    obtain l where l: "(if ?nx (?R b) = 0 then Some (Some bw) else last_in_chain ?nx (table_entries t) (expn_rules (mem t)) (?nx (?R b)) 0)
        = Some (Some l)" "unat l = last (b # D b)"
      using chain_end [OF ch b(2) True bw _ len, of "table_entries t" ?nx "?nx (?R b)"] nth d by (auto simp: rnext_def dims_def)
    obtain v where v: "ipa_nati_expn_tbl_free_entry (expn_rules (mem t)) (expn_table_entries t) = Some v"
      "if v = 0 then expn_full n e (\<lambda>i. enabled_rule (?R i))
       else n < unat (v + table_entries t) \<and> unat (v + table_entries t) < n + e \<and> \<not> enabled_rule (?R (unat (v + table_entries t)))"
      using free_global [OF d len, of "\<lambda>r. Read16BitFieldValue (ip_cksm_enbl r) ENABLE_FIELD"] nth
      by (auto simp: ipa_nati_expn_tbl_free_entry_def enabled_rule_def expn_full_def split: if_splits)
    have "ipa_nati_generate_tbl_rule ver4 ps c r0 t =
        Some (if v = 0 then 0 else v + table_entries t, ?f\<lparr>s_prev_index := l\<rparr>)"
      using True l v by (simp add: ipa_nati_generate_tbl_rule_def pdn pub_def [symmetric] bw_def [symmetric] head enabled_rule_def
          IPA_NAT_INVALID_NAT_ENTRY_def)
    moreover have "v = 0 \<and> expn_full n e (\<lambda>i. enabled_rule (?R i)) \<or>
        v \<noteq> 0 \<and> place_for n e (\<lambda>i. enabled_rule (?R i)) D b (unat (v + table_entries t)) (unat l)"
      using True l(2) v(2) by (cases "v = 0") (auto simp: place_for_def)
    ultimately show ?thesis by (cases "v = 0") auto
  qed
qed

lemma generate_index_rule_result:
  fixes c :: ipa_nat_ipv4_rule
  assumes d: "dims t n e" and ok: "index_ok n e (index_at (mem t)) M X"
  defines "b \<equiv> src_slot (table_entries t) c"
  shows "\<exists>w x. ipa_nati_generate_index_rule c x0 t = Some (w, x) \<and>
    (w = 0 \<and> expn_full n e (\<lambda>j. xentry (index_at (mem t) j) \<noteq> 0) \<or> (\<exists>p. x = x0\<lparr>x_prev_index := p\<rparr> \<and>
       place_for n e (\<lambda>j. xentry (index_at (mem t) j) \<noteq> 0) X b (unat w) (unat p)))"
proof -
  let ?I = "index_at (mem t)"
  define bw where "bw = src_hash (r_private_ip c) (r_private_port c) (r_target_ip c) (r_target_port c) (r_protocol c) (table_entries t - 1)"
  have bw: "unat bw = b" by (simp add: bw_def b_def src_slot_def)
  have b: "0 < b" "b < n" using src_slot_range [OF d] by (auto simp: b_def)
  have sh: "shape n e (mem t)" using d by (rule dims_shape)
  have head: "get_index (mem t) False bw = Some (?I b)" using get_index_at(1) [OF sh _ _ bw] b by simp
  have ch: "chained n e (\<lambda>j. xentry (?I j) \<noteq> 0) (\<lambda>j. xnext (?I j)) (\<lambda>j. if j \<le> n then 0 else unat (M ! (j - n))) X"
    using ok by (simp add: index_ok_def)
  show ?thesis
  proof (cases "xentry (?I b) = 0")
    case True
    then have "ipa_nati_generate_index_rule c x0 t = Some (bw, x0\<lparr>x_prev_index := 0\<rparr>)"
      by (simp add: ipa_nati_generate_index_rule_def bw_def [symmetric] head xentry_def unsigned_eq_0_iff)
    with True bw show ?thesis unfolding place_for_def by (intro exI [of _ bw] exI [of _ "x0\<lparr>x_prev_index := 0\<rparr>"]) auto
  next
    case False
    let ?nx = "\<lambda>w. Read16BitFieldValue w INDX_TBL_NEXT_INDEX_FILED"
    have nth: "index_expn (mem t) ! (i - n) = ?I i" if "n \<le> i" for i
      using that sh by (simp add: index_at_def shape_def nth_append)
    have len: "length (index_expn (mem t)) = e" using sh by (simp add: shape_def)
    obtain l where l: "(if ?nx (?I b) = 0 then Some (Some bw) else last_in_chain ?nx (table_entries t) (index_expn (mem t)) (?nx (?I b)) 0)
        = Some (Some l)" "unat l = last (b # X b)"
      using chain_end [OF ch b(2) False bw _ len, of "table_entries t" ?nx "?nx (?I b)"] nth d by (auto simp: xnext_def dims_def)
    obtain v where v: "ipa_nati_index_expn_get_free_entry (index_expn (mem t)) (expn_table_entries t) = Some v"
      "if v = 0 then expn_full n e (\<lambda>j. xentry (?I j) \<noteq> 0)
       else n < unat (v + table_entries t) \<and> unat (v + table_entries t) < n + e \<and> xentry (?I (unat (v + table_entries t))) = 0"
      using free_global [OF d len, of "\<lambda>w. Read16BitFieldValue w INDX_TBL_TBL_ENTRY_FIELD"] nth
      by (auto simp: ipa_nati_index_expn_get_free_entry_def xentry_def unsigned_eq_0_iff expn_full_def split: if_splits)
    have ne: "v \<noteq> 0 \<Longrightarrow> l \<noteq> v + table_entries t" using chained_last(3) [OF ch b(2)] False l(2) v(2) by (auto split: if_splits)
    have "ipa_nati_generate_index_rule c x0 t =
        Some (if v = 0 then 0 else v + table_entries t, x0\<lparr>x_prev_index := l\<rparr>)"
      using False l v ne by (simp add: ipa_nati_generate_index_rule_def bw_def [symmetric] head xentry_def unsigned_eq_0_iff
          IPA_NAT_INVALID_NAT_ENTRY_def)
    moreover have "v = 0 \<and> expn_full n e (\<lambda>j. xentry (?I j) \<noteq> 0) \<or>
        v \<noteq> 0 \<and> place_for n e (\<lambda>j. xentry (?I j) \<noteq> 0) X b (unat (v + table_entries t)) (unat l)"
      using False l(2) v(2) by (cases "v = 0") (auto simp: place_for_def)
    ultimately show ?thesis by (cases "v = 0") auto
  qed
qed

section \<open>The tables after the entry is written\<close>

lemma chain_add:
  assumes ch: "chained n e used nxt prv D" and b: "0 < b" "b < n" and pf: "place_for n e used D b i p"
    and used': "\<And>k. k < n + e \<Longrightarrow> used' k = (k = i \<or> used k)"
    and nxt': "\<And>k. k < n + e \<Longrightarrow> nxt' k = (if k = i then 0 else if p \<noteq> 0 \<and> k = p then i else nxt k)"
    and prv': "\<And>k. k < n + e \<Longrightarrow> k \<noteq> i \<or> n < i \<Longrightarrow> prv' k = (if k = i then p else prv k)"
  shows "\<exists>D'. chained n e used' nxt' prv' D' \<and> on_chain D' b i \<and> (\<forall>c. set (D c) \<subseteq> set (D' c))"
proof (cases "used b")
  case True
  with pf have i: "n < i" "i < n + e" "\<not> used i" and p: "p = last (b # D b)" by (auto simp: place_for_def)
  have "p \<noteq> 0" using chained_last(4) [OF ch b(2) True] p by simp
  then have "chained n e used' nxt' prv' (D(b := D b @ [i]))"
    by (intro chained_push [OF ch b(2) True i]) (use used' nxt' prv' i p in \<open>simp_all del: last.simps\<close>)
  then show ?thesis by (intro exI [of _ "D(b := D b @ [i])"]) (auto simp: on_chain_def)
next
  case False
  with pf have i: "i = b" "p = 0" by (auto simp: place_for_def)
  have "chained n e used' nxt' prv' D"
  proof (rule chained_new [OF ch b(2)])
    show "b \<noteq> 0" "\<not> used b" using b False by auto
  qed (use used' nxt' prv' i in auto)
  then show ?thesis using i by (intro exI [of _ D]) (auto simp: on_chain_def)
qed

definition with_next :: "u16 \<Rightarrow> ipa_nat_rule \<Rightarrow> ipa_nat_rule" where
  "with_next v r = r\<lparr>nxt_indx_pub_port := mk32 (hi16 (nxt_indx_pub_port r)) v\<rparr>"

lemma with_next_simps [simp]:
  "enabled_rule (with_next v r) = enabled_rule r" "live_rule (with_next v r) = live_rule r" "rnext (with_next v r) = unat v"
  "rprev (with_next v r) = rprev r" "rindex (with_next v r) = rindex r" "client_rule (with_next v r) = client_rule r"
  "rproto (with_next v r) = rproto r"
  by (simp_all add: with_next_def live_rule_def reader_defs client_rule_def)

lemma rules_add:
  assumes ok: "rules_ok n e R D" and b: "0 < b" "b < n" and pf: "place_for n e (\<lambda>i. enabled_rule (R i)) D b i (unat p)"
    and i: "unat iw = i"
    and R': "R' = ((if p = 0 then R else R(unat p := with_next iw (R (unat p))))(i := r))"
    and r: "live_rule r" "rnext r = 0" "rprev r = unat p"
  shows "\<exists>D'. rules_ok n e R' D' \<and> on_chain D' b i \<and> (\<forall>c. set (D c) \<subseteq> set (D' c))"
proof -
  have ch: "chained n e (\<lambda>i. enabled_rule (R i)) (\<lambda>i. rnext (R i)) (\<lambda>i. rprev (R i)) D" using ok by (simp add: rules_ok_def)
  note rg = place_for_range [OF ch b pf]
  have p0: "p = 0 \<longleftrightarrow> unat p = 0" by (simp add: unsigned_eq_0_iff)
  have pi: "unat p \<noteq> i" using rg(6) .
  obtain D' where D': "chained n e (\<lambda>i. enabled_rule (R' i)) (\<lambda>i. rnext (R' i)) (\<lambda>i. rprev (R' i)) D'"
    "on_chain D' b i" "\<forall>c. set (D c) \<subseteq> set (D' c)"
  proof -
    have "\<exists>D'. chained n e (\<lambda>i. enabled_rule (R' i)) (\<lambda>i. rnext (R' i)) (\<lambda>i. rprev (R' i)) D' \<and>
        on_chain D' b i \<and> (\<forall>c. set (D c) \<subseteq> set (D' c))"
      by (rule chain_add [OF ch b pf]) (use R' r i p0 live_enabled [OF r(1)] in auto)
    then show ?thesis using that by blast
  qed
  moreover have "k < n \<and> D' k \<noteq> []" if k: "k < n + e" "enabled_rule (R' k)" "\<not> live_rule (R' k)" for k
  proof -
    have "k \<noteq> i" using k R' r(1) by auto
    then have "enabled_rule (R k)" "\<not> live_rule (R k)" using k R' by (auto split: if_splits)
    then have "k < n" "D k \<noteq> []" using ok k(1) by (auto simp: rules_ok_def)
    moreover have "set (D k) \<subseteq> set (D' k)" using D'(3) by blast
    ultimately show ?thesis by auto
  qed
  ultimately show ?thesis unfolding rules_ok_def by blast
qed

lemma xreaders [simp]: "xentry (mk32 h l) = unat l" "xnext (mk32 h l) = unat h"
  by (simp_all add: reader_defs)

lemma index_add:
  assumes ok: "index_ok n e I M X" and b: "0 < b" "b < n" and pf: "place_for n e (\<lambda>j. xentry (I j) \<noteq> 0) X b j (unat q)"
    and j: "unat jw = j" and i: "iw \<noteq> 0" and len: "length M = e"
    and I': "I' = ((if q = 0 then I else I(unat q := mk32 jw (lo16 (I (unat q)))))(j := mk32 0 iw))"
    and M': "M' = (if n \<le> j then M[j - n := q] else M)"
  shows "\<exists>X'. index_ok n e I' M' X' \<and> on_chain X' b j \<and> (\<forall>c. set (X c) \<subseteq> set (X' c))"
proof -
  have ch: "chained n e (\<lambda>j. xentry (I j) \<noteq> 0) (\<lambda>j. xnext (I j)) (\<lambda>j. if j \<le> n then 0 else unat (M ! (j - n))) X"
    using ok by (simp add: index_ok_def)
  note rg = place_for_range [OF ch b pf]
  have q0: "q = 0 \<longleftrightarrow> unat q = 0" by (simp add: unsigned_eq_0_iff)
  have e: "xentry (I (unat q)) = unat (lo16 (I (unat q)))" by (simp add: reader_defs)
  have i0: "unat iw \<noteq> 0" using i by (simp add: unsigned_eq_0_iff)
  show ?thesis unfolding index_ok_def
  proof (rule chain_add [OF ch b pf])
    fix k assume k: "k < n + e"
    show "(xentry (I' k) \<noteq> 0) = (k = j \<or> xentry (I k) \<noteq> 0)" using I' e i0 by auto
    show "xnext (I' k) = (if k = j then 0 else if unat q \<noteq> 0 \<and> k = unat q then j else xnext (I k))" using I' q0 j by auto
    assume kj: "k \<noteq> j \<or> n < j"
    have "j \<noteq> n" using pf b by (auto simp: place_for_def)
    then show "(if k \<le> n then 0 else unat (M' ! (k - n))) = (if k = j then unat q else if k \<le> n then 0 else unat (M ! (k - n)))"
      using kj rg(1) len M' by (auto simp: nth_list_update)
  qed
qed

section \<open>Rule handles\<close>

lemma small_word_bit: "unat x < 2 ^ k \<Longrightarrow> k \<le> j \<Longrightarrow> \<not> bit x j" for x :: u16
proof -
  assume x: "unat x < 2 ^ k" "k \<le> j"
  have "unat (take_bit k x) = unat x" using x(1) by (simp only: unsigned_take_bit_eq take_bit_nat_eq_self)
  then have "take_bit k x = x" by (rule unsigned_word_eqI)
  then show ?thesis using x(2) by (metis bit_take_bit_iff not_le)
qed

lemma id_encode:
  assumes d: "dims t n e" and i: "unat w < n + e" "unat w \<noteq> 0"
  defines "v \<equiv> (if table_entries t \<le> w then push_bit 1 (w - table_entries t) OR 1 else push_bit 1 w :: u16)"
  shows "v \<noteq> 0 \<and> id_entry n v = unat w \<and> (bit v 0 \<or> unat w < n)"
proof -
  have small: "drop_bit 1 (push_bit 1 x) = x" "drop_bit 1 (push_bit 1 x OR 1) = x" if "unat x < 16384" for x :: u16
  proof -
    have b: "\<not> bit x 15" using small_word_bit [of x 14 15] that by simp
    have k: "bit (push_bit 1 x) (1 + k) = bit x k" if "k < LENGTH(16)" for k
      using b that by (cases "k = 15") (simp_all only: bit_push_bit_iff possible_bit_word, auto)
    have o: "bit (1 :: u16) (1 + k) = False" for k by (simp add: bit_1_iff)
    show "drop_bit 1 (push_bit 1 x) = x" by (rule bit_word_eqI) (simp only: bit_drop_bit_eq comp_def k)
    show "drop_bit 1 (push_bit 1 x OR 1) = x" by (rule bit_word_eqI) (simp only: bit_drop_bit_eq comp_def bit_or_iff k o simp_thms)
  qed
  have b0: "\<not> bit (push_bit 1 x) 0" "bit (push_bit 1 x OR 1) 0" for x :: u16
    by (simp_all only: bit_or_iff bit_push_bit_iff) (simp_all add: bit_1_iff)
  have r: "n \<le> 16384" "e \<le> 16384" using d by (auto simp: dims_def)
  show ?thesis
  proof (cases "n \<le> unat w")
    case True
    then have "v = push_bit 1 (w - table_entries t) OR 1" "unat (w - table_entries t) = unat w - n"
      by (simp_all add: v_def entry_less [OF d])
    moreover have "v \<noteq> 0" using b0(2) calculation(1) by (metis bit_0_eq bot_apply bot_bool_def)
    ultimately show ?thesis using b0 small(2) r i True by (simp add: id_entry_def del: push_bit_Suc)
  next
    case False
    then have v: "v = push_bit 1 w" by (simp add: v_def entry_less [OF d])
    have "drop_bit 1 v = w" using small(1) r False v by simp
    moreover have "\<not> bit v 0" using b0(1) v by simp
    moreover have "v \<noteq> 0" using \<open>drop_bit 1 v = w\<close> i(2) by auto
    ultimately show ?thesis using False by (simp add: id_entry_def)
  qed
qed

text \<open>There is a free rule id, and not the last one: two entries of the table are never used.\<close>

lemma free_id:
  assumes ids: "ids_ok n e R ids" and ok: "rules_ok n e R D" and n: "2 \<le> n" "2 \<le> e"
  shows "\<exists>k. k + 1 < n + e \<and> ids ! k = 0 \<and> (\<forall>j < k. ids ! j \<noteq> 0)"
proof -
  have "\<exists>k. k + 1 < n + e \<and> ids ! k = 0"
  proof (rule ccontr)
    assume none: "\<not> ?thesis"
    let ?f = "\<lambda>h. id_entry n (ids ! h)"
    have used: "ids ! h \<noteq> 0" "h < n + e" if "h \<in> {..<n + e - 1}" for h using none that by auto
    have "inj_on ?f {..<n + e - 1}" using ids used unfolding ids_ok_def inj_on_def by blast
    moreover have "?f ` {..<n + e - 1} \<subseteq> {..<n + e} - {0, n}"
    proof (rule image_subsetI)
      fix h assume "h \<in> {..<n + e - 1}"
      from used [OF this] have "?f h < n + e" "live_rule (R (?f h))" using ids unfolding ids_ok_def by blast+
      moreover from rules_ok_live_range [OF ok _ _ this] n have "?f h \<noteq> 0" "?f h \<noteq> n" by auto
      ultimately show "?f h \<in> {..<n + e} - {0, n}" by blast
    qed
    ultimately have "n + e - 1 \<le> card ({..<n + e} - {0, n})" by (metis card_inj_on_le card_lessThan finite_Diff finite_lessThan)
    also have "\<dots> = n + e - 2" using n by (subst card_Diff_subset) auto
    finally show False using n by linarith
  qed
  then obtain k where k: "k + 1 < n + e" "ids ! k = 0" by blast
  define k0 where "k0 = (LEAST k. ids ! k = 0)"
  have "ids ! k0 = 0" "k0 \<le> k" unfolding k0_def using k(2) by (auto intro: LeastI Least_le)
  moreover have "\<forall>j < k0. ids ! j \<noteq> 0" unfolding k0_def by (metis not_less_Least)
  ultimately show ?thesis using k(1) by (intro exI [of _ k0]) auto
qed

section \<open>The new rule\<close>

definition new_rule :: "u32 \<Rightarrow> ipa_nat_ipv4_rule \<Rightarrow> u16 \<Rightarrow> u16 \<Rightarrow> ipa_nat_rule" where
  "new_rule pub c p j =
     (let r = rule_bytes ((fill_sw_rule pub c zero_sw_rule)\<lparr>s_prev_index := p, s_indx_tbl_entry := j\<rparr>)
      in r\<lparr>ip_cksm_enbl := mk32 0x8000 (lo16 (ip_cksm_enbl r))\<rparr>)"

lemma ucast_drop_push: "(ucast (drop_bit 24 (push_bit 24 (ucast p) :: u32)) :: u8) = p" for p :: u8
  by (rule bit_word_eqI) (auto simp: bit_simps)

lemma pdn_bits: "unat p < 16 \<Longrightarrow> (ucast (ucast p :: 4 word) :: u8) = p" for p :: u8
  by (rule unsigned_word_eqI [where ?'a = nat]) (simp add: unsigned_ucast_eq unsigned_take_bit_eq take_bit_nat_eq_self)

lemma enable_mask: "bit (0x8000 :: u16) 15"
proof -
  have "(0x8000 :: u16) = 2 ^ 15" by simp
  then show ?thesis by (simp only: bit_exp_iff possible_bit_word) simp
qed

lemma new_rule_facts:
  assumes "r_protocol c \<noteq> 255" "unat (r_pdn_index c) < 16"
  shows "live_rule (new_rule pub c p j)" "rnext (new_rule pub c p j) = 0" "rprev (new_rule pub c p j) = unat p"
    "rindex (new_rule pub c p j) = unat j" "client_rule (new_rule pub c p j) = c"
proof -
  have e: "enabled_rule (new_rule pub c p j)" by (simp add: enabled_rule_def new_rule_def Let_def enable_mk32 enable_mask)
  have pr: "rproto (new_rule pub c p j) = r_protocol c"
    by (simp add: rproto_def Read8BitFieldValue_def new_rule_def Let_def rule_bytes_def fill_sw_rule_def zero_sw_rule_def ucast_drop_push)
  show "live_rule (new_rule pub c p j)" using e pr assms(1) by (simp add: live_rule_def IPA_NAT_INVALID_PROTO_FIELD_CMP_def)
  show "rnext (new_rule pub c p j) = 0" "rprev (new_rule pub c p j) = unat p" "rindex (new_rule pub c p j) = unat j"
    by (simp_all add: reader_defs new_rule_def Let_def rule_bytes_def fill_sw_rule_def zero_sw_rule_def)
  show "client_rule (new_rule pub c p j) = c"
    using pr assms(2) by (simp add: client_rule_def) (simp add: new_rule_def Let_def rule_bytes_def fill_sw_rule_def zero_sw_rule_def pdn_bits)
qed

text \<open>The memory after both copies and the enabling request.\<close>

definition added_mem :: "u32 \<Rightarrow> ipa_nat_ipv4_rule \<Rightarrow> u16 \<Rightarrow> u16 \<Rightarrow> u16 \<Rightarrow> u16 \<Rightarrow> nat_mem \<Rightarrow> nat_mem" where
  "added_mem pub c i p j q m =
     enable_rule (unat i) ((if q = 0 then id else link_index (unat q) j) (upd_index (unat j) (mk32 0 i)
       ((if p = 0 then id else link_rule (unat p) i)
          (upd_rule (unat i) (rule_bytes ((fill_sw_rule pub c zero_sw_rule)\<lparr>s_prev_index := p, s_indx_tbl_entry := j\<rparr>)) m))))"

lemma added_view:
  assumes m: "shape n e m" and i: "unat i < n + e" "p \<noteq> i" "unat p < n + e" and j: "unat j < n + e" "q \<noteq> j" "unat q < n + e"
  shows "shape n e (added_mem pub c i p j q m)"
    and "rule_at (added_mem pub c i p j q m) =
      (if p = 0 then rule_at m else (rule_at m)(unat p := with_next i (rule_at m (unat p))))(unat i := new_rule pub c p j)"
    and "index_at (added_mem pub c i p j q m) =
      (if q = 0 then index_at m else (index_at m)(unat q := mk32 j (lo16 (index_at m (unat q)))))(unat j := mk32 0 i)"
proof -
  have ne: "unat p \<noteq> unat i" "unat q \<noteq> unat j" using i j by (auto dest: unsigned_word_eqI)
  let ?r = "rule_bytes ((fill_sw_rule pub c zero_sw_rule)\<lparr>s_prev_index := p, s_indx_tbl_entry := j\<rparr>)"
  define m1 where "m1 = (if p = 0 then id else link_rule (unat p) i) (upd_rule (unat i) ?r m)"
  define m2 where "m2 = (if q = 0 then id else link_index (unat q) j) (upd_index (unat j) (mk32 0 i) m1)"
  have a: "added_mem pub c i p j q m = enable_rule (unat i) m2" by (simp add: added_mem_def m1_def m2_def)
  have s1: "shape n e m1" "index_at m1 = index_at m" using m by (auto simp: m1_def)
  have s2: "shape n e m2" "rule_at m2 = rule_at m1" using s1 by (auto simp: m2_def)
  show "shape n e (added_mem pub c i p j q m)" using s2 by (simp add: a)
  have r1: "rule_at m1 = (if p = 0 then rule_at m else (rule_at m)(unat p := with_next i (rule_at m (unat p))))(unat i := ?r)"
    using m i ne by (auto simp: m1_def link_rule_def rule_at_upd [OF m] rule_at_upd [of n e "upd_rule (unat i) ?r m"] with_next_def fun_upd_twist)
  have "rule_at (enable_rule (unat i) m2) = (rule_at m2)(unat i := (rule_at m2 (unat i))\<lparr>ip_cksm_enbl := mk32 0x8000 (lo16 (ip_cksm_enbl (rule_at m2 (unat i))))\<rparr>)"
    using s2(1) i(1) by (simp add: enable_rule_def rule_at_upd)
  then show "rule_at (added_mem pub c i p j q m) =
      (if p = 0 then rule_at m else (rule_at m)(unat p := with_next i (rule_at m (unat p))))(unat i := new_rule pub c p j)"
    by (simp add: a s2(2) r1 new_rule_def Let_def)
  have "index_at m2 = (if q = 0 then index_at m else (index_at m)(unat q := mk32 j (lo16 (index_at m (unat q)))))(unat j := mk32 0 i)"
    using s1 j ne by (auto simp: m2_def link_index_def index_at_upd [OF s1(1)] index_at_upd [of n e "upd_index (unat j) (mk32 0 i) m1"] fun_upd_twist)
  then show "index_at (added_mem pub c i p j q m) =
      (if q = 0 then index_at m else (index_at m)(unat q := mk32 j (lo16 (index_at m (unat q)))))(unat j := mk32 0 i)"
    by (simp add: a)
qed

section \<open>The invariant after adding\<close>

text \<open>The table after a successful call.\<close>

definition added_table :: "u32 \<Rightarrow> ipa_nat_ipv4_rule \<Rightarrow> u16 \<Rightarrow> u16 \<Rightarrow> u16 \<Rightarrow> u16 \<Rightarrow> nat \<Rightarrow> ip4_table \<Rightarrow> ip4_table" where
  "added_table pub c i p j q k t =
     (let te = table_entries t;
          v = (if te \<le> i then push_bit 1 (i - te) OR 1 else push_bit 1 i);
          t = (if te \<le> j then t\<lparr>index_expn_table_meta := (index_expn_table_meta t)[unat (j - te) := q]\<rparr> else t);
          t = t\<lparr>mem := added_mem pub c i p j q (mem t)\<rparr>;
          t = (if te \<le> i then t\<lparr>cur_expn_tbl_cnt := cur_expn_tbl_cnt t + 1\<rparr> else t\<lparr>cur_tbl_cnt := cur_tbl_cnt t + 1\<rparr>)
      in t\<lparr>rule_id_array := (rule_id_array t)[k := v]\<rparr>)"

lemma added_table_fields [simp]:
  "table_entries (added_table pub c i p j q k t) = table_entries t"
  "expn_table_entries (added_table pub c i p j q k t) = expn_table_entries t"
  "mem (added_table pub c i p j q k t) = added_mem pub c i p j q (mem t)"
  "index_expn_table_meta (added_table pub c i p j q k t) =
     (if table_entries t \<le> j then (index_expn_table_meta t)[unat (j - table_entries t) := q] else index_expn_table_meta t)"
  "rule_id_array (added_table pub c i p j q k t) =
     (rule_id_array t)[k := if table_entries t \<le> i then push_bit 1 (i - table_entries t) OR 1 else push_bit 1 i]"
  by (simp_all add: added_table_def Let_def)

lemma dims_added: "dims t n e \<Longrightarrow> shape n e (added_mem pub c i p j q (mem t)) \<Longrightarrow> dims (added_table pub c i p j q k t) n e"
  by (auto simp: dims_def added_table_def Let_def)

text \<open>A place for the rule, a place for its index entry and a free rule id.\<close>

definition add_site ::
  "bool \<Rightarrow> ipa_nat_pdn_entry list \<Rightarrow> nat \<Rightarrow> nat \<Rightarrow> (nat \<Rightarrow> nat list) \<Rightarrow> (nat \<Rightarrow> nat list) \<Rightarrow> ip4_table \<Rightarrow> ipa_nat_ipv4_rule \<Rightarrow>
     u16 \<Rightarrow> u16 \<Rightarrow> u16 \<Rightarrow> u16 \<Rightarrow> nat \<Rightarrow> bool" where
  "add_site ver4 ps n e D X t c i p j q k \<longleftrightarrow>
     place_for n e (\<lambda>i. enabled_rule (rule_at (mem t) i)) D (dst_slot ver4 ps (table_entries t) c) (unat i) (unat p) \<and>
     place_for n e (\<lambda>j. xentry (index_at (mem t) j) \<noteq> 0) X (src_slot (table_entries t) c) (unat j) (unat q) \<and>
     k + 1 < n + e \<and> rule_id_array t ! k = 0 \<and> (\<forall>l < k. rule_id_array t ! l \<noteq> 0)"

lemma add_site_range:
  assumes inv: "nat_inv_at ver4 ps n e D X t" and s: "add_site ver4 ps n e D X t c i p j q k"
  shows "unat i < n + e" "unat i \<noteq> 0" "p \<noteq> i" "unat p < n + e" "unat j < n + e" "unat j \<noteq> 0" "q \<noteq> j" "unat q < n + e"
    "\<not> enabled_rule (rule_at (mem t) (unat i))" "xentry (index_at (mem t) (unat j)) = 0"
proof -
  have d: "dims t n e" using inv by (simp add: nat_inv_at_def)
  have r: "chained n e (\<lambda>i. enabled_rule (rule_at (mem t) i)) (\<lambda>i. rnext (rule_at (mem t) i)) (\<lambda>i. rprev (rule_at (mem t) i)) D"
    using inv by (simp add: nat_inv_at_def rules_ok_def)
  have x: "chained n e (\<lambda>j. xentry (index_at (mem t) j) \<noteq> 0) (\<lambda>j. xnext (index_at (mem t) j))
      (\<lambda>j. if j \<le> n then 0 else unat (index_expn_table_meta t ! (j - n))) X"
    using inv by (simp add: nat_inv_at_def index_ok_def)
  note R = place_for_range [OF r conjunct1 [OF dst_slot_range [OF d]] conjunct2 [OF dst_slot_range [OF d]]
      conjunct1 [OF s [unfolded add_site_def]]]
  note I = place_for_range [OF x conjunct1 [OF src_slot_range [OF d]] conjunct2 [OF src_slot_range [OF d]]
      conjunct1 [OF conjunct2 [OF s [unfolded add_site_def]]]]
  show "unat i < n + e" "unat i \<noteq> 0" "p \<noteq> i" "unat p < n + e" "\<not> enabled_rule (rule_at (mem t) (unat i))" using R by auto
  show "unat j < n + e" "unat j \<noteq> 0" "q \<noteq> j" "unat q < n + e" "xentry (index_at (mem t) (unat j)) = 0" using I by auto
qed

lemma added_inv:
  assumes inv: "nat_inv_at ver4 ps n e D X t" and s: "add_site ver4 ps n e D X t c i p j q k"
    and c: "r_protocol c \<noteq> 255" "unat (r_pdn_index c) < length ps"
  shows "nat_inv ver4 ps (added_table pub c i p j q k t)"
proof -
  note I = inv [unfolded nat_inv_at_def]
  have d: "dims t n e" using I by simp
  note rg = add_site_range [OF inv s]
  let ?t = "added_table pub c i p j q k t"
  let ?R = "rule_at (mem t)" and ?R' = "rule_at (mem ?t)" and ?I = "index_at (mem t)" and ?I' = "index_at (mem ?t)"
  note V = added_view [OF dims_shape [OF d] rg(1,3,4,5,7,8), of pub c]
  note N = new_rule_facts [OF c(1), of pub p j]
  have c16: "unat (r_pdn_index c) < 16" using c I by auto
  note S = s [unfolded add_site_def]
  from rules_add [of n e ?R D "dst_slot ver4 ps (table_entries t) c" "unat i" p i ?R' "new_rule pub c p j"] I S dst_slot_range [OF d] V(2) N(1-3) [OF c16]
  obtain D' where D': "rules_ok n e ?R' D'" "on_chain D' (dst_slot ver4 ps (table_entries t) c) (unat i)" "\<forall>b. set (D b) \<subseteq> set (D' b)"
    by (auto simp del: fun_upd_apply)
  have lens: "length (index_expn_table_meta t) = e" "length (rule_id_array t) = n + e" "2 \<le> n" "2 \<le> e" using d by (auto simp: dims_def)
  have i0: "i \<noteq> 0" using rg(2) by auto
  have M': "index_expn_table_meta ?t = (if n \<le> unat j then (index_expn_table_meta t)[unat j - n := q] else index_expn_table_meta t)"
    using entry_less [OF d, of j] by auto
  from index_add [of n e ?I "index_expn_table_meta t" X "src_slot (table_entries t) c" "unat j" q j i ?I' "index_expn_table_meta ?t"]
    I S src_slot_range [OF d] i0 lens(1) V(3) M'
  obtain X' where X': "index_ok n e ?I' (index_expn_table_meta ?t) X'" "on_chain X' (src_slot (table_entries t) c) (unat j)"
    "\<forall>b. set (X b) \<subseteq> set (X' b)" by auto
  have same: "live_rule (?R' l) = live_rule (?R l) \<and> rindex (?R' l) = rindex (?R l) \<and> client_rule (?R' l) = client_rule (?R l)"
    if "l \<noteq> unat i" for l using that by (simp add: V(2))
  have new: "?R' (unat i) = new_rule pub c p j" by (simp add: V(2))
  have nl: "\<not> live_rule (?R (unat i))" using rg(9) live_enabled by blast
  have L: "links_ok n e ?R' ?I'"
  proof (rule links_add [of n e ?R ?I "unat i" "unat j"])
    show "links_ok n e ?R ?I" using I by simp
    show "\<not> live_rule (?R 0)" using rules_ok_live_range [of n e ?R D 0] I lens by auto
    show "xentry (?I' l) = (if l = unat j then unat i else xentry (?I l))" for l by (auto simp: V(3) reader_defs)
  qed (use rg nl same new N [OF c16] in auto)
  have ids: "ids_ok n e ?R' (rule_id_array ?t)"
    unfolding added_table_fields
  proof (rule ids_add [of n e ?R "rule_id_array t"])
    show "ids_ok n e ?R (rule_id_array t)" using I by simp
    show "live_rule (rule_at (added_mem pub c i p j q (mem t)) (unat i))" using new N(1) [OF c16] by simp
  qed (use lens S rg nl same id_encode [OF d rg(1,2)] in auto)
  have place: "place_ok (dst_slot ver4 ps (table_entries t)) (src_slot (table_entries t)) n e ?R' ?I' D' X'"
    unfolding place_ok_def
  proof (intro allI impI)
    fix l assume l: "l < n + e" "live_rule (?R' l)"
    show "on_chain D' (dst_slot ver4 ps (table_entries t) (client_rule (?R' l))) l \<and>
        on_chain X' (src_slot (table_entries t) (client_rule (?R' l))) (rindex (?R' l))"
    proof (cases "l = unat i")
      case True
      then show ?thesis using new N [OF c16] D' X' by simp
    next
      case False
      then have "on_chain D (dst_slot ver4 ps (table_entries t) (client_rule (?R l))) l \<and>
          on_chain X (src_slot (table_entries t) (client_rule (?R l))) (rindex (?R l))"
        using I l same [OF False] unfolding place_ok_def by auto
      then show ?thesis using same [OF False] D'(3) X'(3) unfolding on_chain_def by auto
    qed
  qed
  have last: "rule_id_array ?t ! (n + e - 1) = 0"
  proof -
    have "k \<noteq> n + e - 1" using S by auto
    then show ?thesis using I by simp
  qed
  have "nat_inv_at ver4 ps n e D' X' ?t"
    using dims_added [OF d V(1)] I D'(1) X'(1) L ids place last by (simp add: nat_inv_at_def)
  then show ?thesis unfolding nat_inv_def by blast
qed

section \<open>The driver\<close>

lemma make_rule_hdl_free:
  assumes d: "dims t n e" and k: "k + 1 < n + e" "rule_id_array t ! k = 0" "\<forall>l < k. rule_id_array t ! l \<noteq> 0"
  shows "ipa_nati_make_rule_hdl t i =
    (let v = (if table_entries t \<le> i then push_bit 1 (i - table_entries t) OR 1 else push_bit 1 i);
         t' = (if table_entries t \<le> i then t\<lparr>cur_expn_tbl_cnt := cur_expn_tbl_cnt t + 1\<rparr> else t\<lparr>cur_tbl_cnt := cur_tbl_cnt t + 1\<rparr>)
     in Some (of_nat (k + 1), t'\<lparr>rule_id_array := (rule_id_array t)[k := v]\<rparr>))"
proof -
  have "make_rule_hdl_loop v (n + e) (rule_id_array t) 0 = Some (of_nat (k + 1), (rule_id_array t)[k := v])" for v
    using d k by (intro make_rule_hdl_loop_result) (auto simp: dims_def)
  then show ?thesis using d by (auto simp: ipa_nati_make_rule_hdl_def Let_def dims_def)
qed

text \<open>One of the two expansion tables has no free entry.\<close>

definition table_full :: "nat \<Rightarrow> nat \<Rightarrow> ip4_table \<Rightarrow> bool" where
  "table_full n e t \<longleftrightarrow> expn_full n e (\<lambda>i. enabled_rule (rule_at (mem t) i)) \<or> expn_full n e (\<lambda>j. xentry (index_at (mem t) j) \<noteq> 0)"

lemma generate_rule_result:
  assumes inv: "nat_inv_at ver4 ps n e D X t" and c: "unat (r_pdn_index c) < length ps"
  defines "pub \<equiv> pdn_public_ip (ps ! unat (r_pdn_index c))"
  shows "(\<exists>r x i j. ipa_nati_generate_rule ver4 ps c zero_sw_rule \<lparr>x_tbl_entry = 0, x_next_index = 0, x_prev_index = 0\<rparr> t =
      Some (- EINVAL, r, x, i, j, t)) \<and> table_full n e t \<or>
    (\<exists>i p j q. ipa_nati_generate_rule ver4 ps c zero_sw_rule \<lparr>x_tbl_entry = 0, x_next_index = 0, x_prev_index = 0\<rparr> t =
      Some (0, (fill_sw_rule pub c zero_sw_rule)\<lparr>s_prev_index := p, s_indx_tbl_entry := j\<rparr>,
        \<lparr>x_tbl_entry = i, x_next_index = 0, x_prev_index = q\<rparr>, i, j,
        if table_entries t \<le> j then t\<lparr>index_expn_table_meta := (index_expn_table_meta t)[unat (j - table_entries t) := q]\<rparr> else t) \<and>
      place_for n e (\<lambda>i. enabled_rule (rule_at (mem t) i)) D (dst_slot ver4 ps (table_entries t) c) (unat i) (unat p) \<and>
      place_for n e (\<lambda>j. xentry (index_at (mem t) j) \<noteq> 0) X (src_slot (table_entries t) c) (unat j) (unat q))"
    (is "?fail \<and> ?full \<or> ?good")
proof -
  note I = inv [unfolded nat_inv_at_def]
  have d: "dims t n e" using I by simp
  obtain i r where g: "ipa_nati_generate_tbl_rule ver4 ps c zero_sw_rule t = Some (i, r)"
    "i = 0 \<and> expn_full n e (\<lambda>i. enabled_rule (rule_at (mem t) i)) \<or> (\<exists>p. r = (fill_sw_rule pub c zero_sw_rule)\<lparr>s_prev_index := p\<rparr> \<and>
       place_for n e (\<lambda>i. enabled_rule (rule_at (mem t) i)) D (dst_slot ver4 ps (table_entries t) c) (unat i) (unat p))"
    using generate_tbl_rule_result [OF d _ c] I unfolding pub_def by metis
  let ?x = "\<lparr>x_tbl_entry = i, x_next_index = 0, x_prev_index = 0\<rparr>"
  obtain j x where x: "ipa_nati_generate_index_rule c ?x t = Some (j, x)"
    "j = 0 \<and> expn_full n e (\<lambda>j. xentry (index_at (mem t) j) \<noteq> 0) \<or> (\<exists>p. x = ?x\<lparr>x_prev_index := p\<rparr> \<and>
       place_for n e (\<lambda>j. xentry (index_at (mem t) j) \<noteq> 0) X (src_slot (table_entries t) c) (unat j) (unat p))"
    using generate_index_rule_result [OF d, of "index_expn_table_meta t" X c ?x] I by metis
  show ?thesis
  proof (cases "i = 0 \<or> j = 0")
    case True
    then have ?fail using g(1) x(1) by (auto simp: ipa_nati_generate_rule_def IPA_NAT_INVALID_NAT_ENTRY_def)
    moreover have ?full
    proof -
      have "0 < dst_slot ver4 ps (table_entries t) c" "0 < src_slot (table_entries t) c" using dst_slot_range [OF d] src_slot_range [OF d] by auto
      then show ?thesis using True g(2) x(2) by (auto simp: table_full_def place_for_def)
    qed
    ultimately show ?thesis by blast
  next
    case False
    with g x obtain p q where pq: "r = (fill_sw_rule pub c zero_sw_rule)\<lparr>s_prev_index := p\<rparr>" "x = ?x\<lparr>x_prev_index := q\<rparr>"
      "place_for n e (\<lambda>i. enabled_rule (rule_at (mem t) i)) D (dst_slot ver4 ps (table_entries t) c) (unat i) (unat p)"
      "place_for n e (\<lambda>j. xentry (index_at (mem t) j) \<noteq> 0) X (src_slot (table_entries t) c) (unat j) (unat q)" by auto
    have "unat j < n + e" using place_for_range(1) [OF _ _ _ pq(4)] src_slot_range [OF d] I unfolding index_ok_def by blast
    then have "aset (index_expn_table_meta t) (unat (j - table_entries t)) q = Some ((index_expn_table_meta t)[unat (j - table_entries t) := q])"
      if "table_entries t \<le> j" using that d entry_less [OF d, of j] by (auto simp: aset_def dims_def)
    then have "ipa_nati_generate_rule ver4 ps c zero_sw_rule \<lparr>x_tbl_entry = 0, x_next_index = 0, x_prev_index = 0\<rparr> t =
      Some (0, (fill_sw_rule pub c zero_sw_rule)\<lparr>s_prev_index := p, s_indx_tbl_entry := j\<rparr>,
        \<lparr>x_tbl_entry = i, x_next_index = 0, x_prev_index = q\<rparr>, i, j,
        if table_entries t \<le> j then t\<lparr>index_expn_table_meta := (index_expn_table_meta t)[unat (j - table_entries t) := q]\<rparr> else t)"
      using False g(1) x(1) pq(1,2)
      by (cases "table_entries t \<le> j") (simp_all add: ipa_nati_generate_rule_def IPA_NAT_INVALID_NAT_ENTRY_def)
    with pq(3,4) show ?thesis by blast
  qed
qed

lemma add_rule_result:
  assumes inv: "nat_inv_at ver4 ps n e D X t" and K: "dma_works K"
    and c: "unat (r_pdn_index c) < length ps" "pdn_public_ip (ps ! unat (r_pdn_index c)) \<noteq> 0"
  shows "add_rule_to_table K ver4 ps ti c h t = Some (- EINVAL, h, t) \<and> table_full n e t \<or>
    (\<exists>i p j q k. add_site ver4 ps n e D X t c i p j q k \<and>
       add_rule_to_table K ver4 ps ti c h t =
         Some (0, of_nat (k + 1), added_table (pdn_public_ip (ps ! unat (r_pdn_index c))) c i p j q k t))"
proof -
  let ?pub = "pdn_public_ip (ps ! unat (r_pdn_index c))"
  let ?gen = "ipa_nati_generate_rule ver4 ps c zero_sw_rule \<lparr>x_tbl_entry = 0, x_next_index = 0, x_prev_index = 0\<rparr> t"
  note I = inv [unfolded nat_inv_at_def]
  have d: "dims t n e" using I by simp
  have pdn: "aget ps (unat (r_pdn_index c)) = Some (ps ! unat (r_pdn_index c))" using c by (simp add: aget_def)
  have E: "EINVAL \<noteq> 0" by (simp add: EINVAL_def)
  from generate_rule_result [OF inv c(1)] show ?thesis
  proof (elim disjE exE conjE)
    fix r x i j assume full: "table_full n e t" and "?gen = Some (- EINVAL, r, x, i, j, t)"
    then have "add_rule_to_table K ver4 ps ti c h t = Some (- EINVAL, h, t)" using c(2) E by (simp add: add_rule_to_table_def pdn)
    with full show ?thesis by blast
  next
    fix i p j q
    let ?t1 = "if table_entries t \<le> j then t\<lparr>index_expn_table_meta := (index_expn_table_meta t)[unat (j - table_entries t) := q]\<rparr> else t"
    let ?r = "(fill_sw_rule ?pub c zero_sw_rule)\<lparr>s_prev_index := p, s_indx_tbl_entry := j\<rparr>"
    assume g: "?gen = Some (0, ?r, \<lparr>x_tbl_entry = i, x_next_index = 0, x_prev_index = q\<rparr>, i, j, ?t1)"
      and pl: "place_for n e (\<lambda>i. enabled_rule (rule_at (mem t) i)) D (dst_slot ver4 ps (table_entries t) c) (unat i) (unat p)"
        "place_for n e (\<lambda>j. xentry (index_at (mem t) j) \<noteq> 0) X (src_slot (table_entries t) c) (unat j) (unat q)"
    obtain k where k: "k + 1 < n + e" "rule_id_array t ! k = 0" "\<forall>l < k. rule_id_array t ! l \<noteq> 0"
      using free_id [of n e "rule_at (mem t)" "rule_id_array t" D] I by (auto simp: dims_def)
    have s: "add_site ver4 ps n e D X t c i p j q k" using pl k by (simp add: add_site_def)
    note rg = add_site_range [OF inv s]
    have d1: "dims ?t1 n e" "mem ?t1 = mem t" using d by (auto simp: dims_def)
    note copy1 = copy_rule [OF d1(1) K rg(1), of ?r]
    define m1 where "m1 = (if p = 0 then id else link_rule (unat p) i) (upd_rule (unat i) (rule_bytes ?r) (mem t))"
    have m1: "shape n e m1" using dims_shape [OF d] by (simp add: m1_def)
    have c1: "ipa_nati_copy_ipv4_rule_to_hw K ?r i ti ?t1 = Some (?t1\<lparr>mem := m1\<rparr>)" using copy1 rg(4) by (simp add: m1_def)
    note copy2 = copy_index_rule [OF dims_mem [OF d1(1) m1] K rg(5), of "\<lparr>x_tbl_entry = i, x_next_index = 0, x_prev_index = q\<rparr>"]
    define m2 where "m2 = (if q = 0 then id else link_index (unat q) j) (upd_index (unat j) (mk32 0 i) m1)"
    have m2: "shape n e m2" using m1 by (simp add: m2_def)
    have c2: "ipa_nati_copy_ipv4_index_rule_to_hw K \<lparr>x_tbl_entry = i, x_next_index = 0, x_prev_index = q\<rparr> j ti (?t1\<lparr>mem := m1\<rparr>) =
        Some (?t1\<lparr>mem := m2\<rparr>)" using copy2 rg(8) by (simp add: m2_def)
    have m3: "enable_rule (unat i) m2 = added_mem ?pub c i p j q (mem t)" by (simp add: added_mem_def m1_def m2_def)
    note post = post_enable [OF dims_mem [OF d1(1) m2] K rg(1), of ti]
    have d3: "dims (?t1\<lparr>mem := added_mem ?pub c i p j q (mem t)\<rparr>) n e"
      using m2 m3 [symmetric] by (intro dims_mem [OF d1(1)]) simp
    have ids: "rule_id_array ?t1 = rule_id_array t" by simp
    have "of_nat (k + 1) \<noteq> (0 :: u16)" "ucast (of_nat (k + 1) :: u16) = (of_nat (k + 1) :: u32)"
    proof -
      have u: "unat (of_nat (k + 1) :: u16) = k + 1" using dims_small [OF d k(1)] .
      then show "of_nat (k + 1) \<noteq> (0 :: u16)" by (metis add_is_0 one_neq_zero unsigned_0)
      have "k + 1 < 2 ^ 32" using k(1) d by (auto simp: dims_def)
      then have "unat (of_nat (k + 1) :: u32) = k + 1" by (simp only: unat_of_nat) simp
      then have "unat (ucast (of_nat (k + 1) :: u16) :: u32) = unat (of_nat (k + 1) :: u32)" using u unat_ucast16 by presburger
      then show "ucast (of_nat (k + 1) :: u16) = (of_nat (k + 1) :: u32)" by (rule unsigned_word_eqI)
    qed
    then have "add_rule_to_table K ver4 ps ti c h t = Some (0, of_nat (k + 1), added_table ?pub c i p j q k t)"
      using c(2) make_rule_hdl_free [OF d3, of k i] k
      by (simp add: add_rule_to_table_def pdn g c1 c2 post m3 added_table_def Let_def)
    with s show ?thesis by blast
  qed
qed

section \<open>The rules by handle\<close>

lemma handle_word: "dims t n e \<Longrightarrow> k + 1 < n + e \<Longrightarrow> unat (of_nat (k + 1) :: u32) = k + 1"
proof -
  assume "dims t n e" "k + 1 < n + e"
  then have "k + 1 < 2 ^ 32" by (auto simp: dims_def)
  then show ?thesis by (simp only: unat_of_nat) simp
qed

lemma rule_map_iff:
  assumes "dims t n e"
  shows "rule_map t h = (if 0 < unat h \<and> unat h < n + e \<and> rule_id_array t ! (unat h - 1) \<noteq> 0
    then Some (client_rule (rule_at (mem t) (id_entry n (rule_id_array t ! (unat h - 1))))) else None)"
  using assms by (simp add: rule_map_def Let_def dims_def)

lemma rule_map_added:
  assumes inv: "nat_inv_at ver4 ps n e D X t" and s: "add_site ver4 ps n e D X t c i p j q k"
    and c: "r_protocol c \<noteq> 255" "unat (r_pdn_index c) < length ps"
  shows "rule_map t (of_nat (k + 1)) = None"
    and "rule_map (added_table pub c i p j q k t) = (rule_map t)(of_nat (k + 1) \<mapsto> c)"
proof -
  note I = inv [unfolded nat_inv_at_def]
  have d: "dims t n e" using I by simp
  note rg = add_site_range [OF inv s]
  note V = added_view [OF dims_shape [OF d] rg(1,3,4,5,7,8), of pub c]
  have c16: "unat (r_pdn_index c) < 16" using c I by auto
  note N = new_rule_facts(5) [OF c(1) c16, of pub p j]
  have k: "k + 1 < n + e" "rule_id_array t ! k = 0" using s by (simp_all add: add_site_def)
  note hw = handle_word [OF d k(1)]
  have len: "length (rule_id_array t) = n + e" using d by (simp add: dims_def)
  show "rule_map t (of_nat (k + 1)) = None" unfolding rule_map_iff [OF d] hw using k by simp
  note d' = dims_added [OF d V(1), of k]
  show "rule_map (added_table pub c i p j q k t) = (rule_map t)(of_nat (k + 1) \<mapsto> c)"
  proof
    fix h :: u32
    show "rule_map (added_table pub c i p j q k t) h = ((rule_map t)(of_nat (k + 1) \<mapsto> c)) h"
    proof (cases "h = of_nat (k + 1)")
      case True
      then have "unat h = k + 1" using hw by simp
      with True show ?thesis using k len id_encode [OF d rg(1,2)] V(2) N by (auto simp: rule_map_iff [OF d'])
    next
      case False
      then have ne: "unat h \<noteq> k + 1" using hw by (metis unsigned_word_eqI)
      have "client_rule (rule_at (added_mem pub c i p j q (mem t)) (id_entry n (rule_id_array t ! (unat h - 1)))) =
          client_rule (rule_at (mem t) (id_entry n (rule_id_array t ! (unat h - 1))))"
        if h: "0 < unat h" "unat h < n + e" "rule_id_array t ! (unat h - 1) \<noteq> 0"
      proof -
        have "unat h - 1 < n + e" using h(2) by simp
        with I h(3) have "live_rule (rule_at (mem t) (id_entry n (rule_id_array t ! (unat h - 1))))" unfolding ids_ok_def by blast
        then have "id_entry n (rule_id_array t ! (unat h - 1)) \<noteq> unat i" using rg(9) live_enabled by metis
        then show ?thesis by (simp add: V(2))
      qed
      moreover have "(rule_id_array t)[k := v] ! (unat h - 1) = rule_id_array t ! (unat h - 1)" if "0 < unat h" for v
        using that ne by (intro nth_list_update_neq) auto
      ultimately show ?thesis using False
        by (cases "0 < unat h") (simp_all add: rule_map_iff [OF d'] rule_map_iff [OF d] del: of_nat_add One_nat_def)
    qed
  qed
qed

end
