(* ===== verification/NatDel.thy ===== *)
theory NatDel
  imports NatAdd
begin

text \<open>
  Deleting a rule keeps the invariant of the table. A rule in the expansion table is unlinked; the only rule of a slot is cleared; a head with a
  chain stays as a dead head until its chain is empty. In the index table a head takes over the contents of its successor.
\<close>

section \<open>The rule table\<close>

definition nextw :: "ipa_nat_rule \<Rightarrow> u16" where "nextw r = Read16BitFieldValue (nxt_indx_pub_port r) NEXT_INDEX_FIELD"
definition prevw :: "ipa_nat_rule \<Rightarrow> u16" where "prevw r = Read16BitFieldValue (sw_spec_params r) SW_SPEC_PARAM_PREV_INDEX_FIELD"
definition indexw :: "ipa_nat_rule \<Rightarrow> u16" where "indexw r = Read16BitFieldValue (sw_spec_params r) SW_SPEC_PARAM_INDX_TBL_ENTRY_FIELD"

lemma readers_unat: "rnext r = unat (nextw r)" "rprev r = unat (prevw r)" "rindex r = unat (indexw r)"
  by (simp_all add: rnext_def rprev_def rindex_def nextw_def prevw_def indexw_def)

definition with_prev :: "u16 \<Rightarrow> ipa_nat_rule \<Rightarrow> ipa_nat_rule" where
  "with_prev v r = r\<lparr>sw_spec_params := mk32 (hi16 (sw_spec_params r)) v\<rparr>"
definition with_index :: "u16 \<Rightarrow> ipa_nat_rule \<Rightarrow> ipa_nat_rule" where
  "with_index v r = r\<lparr>sw_spec_params := mk32 v (lo16 (sw_spec_params r))\<rparr>"
definition as_dead :: "ipa_nat_rule \<Rightarrow> ipa_nat_rule" where
  "as_dead r = r\<lparr>ts_proto := mk32 0xFF00 (lo16 (ts_proto r))\<rparr>"

lemma with_prev_simps [simp]:
  "enabled_rule (with_prev v r) = enabled_rule r" "live_rule (with_prev v r) = live_rule r" "rnext (with_prev v r) = rnext r"
  "rprev (with_prev v r) = unat v" "rindex (with_prev v r) = rindex r" "client_rule (with_prev v r) = client_rule r"
  "rproto (with_prev v r) = rproto r"
  by (simp_all add: with_prev_def live_rule_def reader_defs client_rule_def)

lemma with_index_simps [simp]:
  "enabled_rule (with_index v r) = enabled_rule r" "live_rule (with_index v r) = live_rule r" "rnext (with_index v r) = rnext r"
  "rprev (with_index v r) = rprev r" "rindex (with_index v r) = unat v" "client_rule (with_index v r) = client_rule r"
  "rproto (with_index v r) = rproto r"
  by (simp_all add: with_index_def live_rule_def reader_defs client_rule_def)

lemma as_dead_simps [simp]:
  "enabled_rule (as_dead r) = enabled_rule r" "rnext (as_dead r) = rnext r" "rprev (as_dead r) = rprev r"
  "rproto (as_dead r) = IPA_NAT_INVALID_PROTO_FIELD_CMP" "\<not> live_rule (as_dead r)"
proof -
  have "ucast (drop_bit 24 (mk32 0xFF00 l)) = (0xFF :: u8)" for l
  proof (rule bit_word_eqI)
    fix k :: nat assume k: "k < LENGTH(8)"
    have "bit (0xFF00 :: u16) (8 + k)"
    proof -
      have "(0xFF00 :: u16) = push_bit 8 (mask 8)" by (simp add: mask_eq_exp_minus_1 push_bit_eq_mult)
      then show ?thesis using k by (simp only: bit_push_bit_iff possible_bit_word bit_mask_iff) simp
    qed
    moreover have "bit (0xFF :: u8) k"
    proof -
      have "(0xFF :: u8) = mask 8" by (simp add: mask_eq_exp_minus_1)
      then show ?thesis using k by (simp only: bit_mask_iff possible_bit_word) simp
    qed
    ultimately show "bit (ucast (drop_bit 24 (mk32 0xFF00 l)) :: u8) k = bit (0xFF :: u8) k"
      using k by (simp add: bit_simps mk32_bit add.commute)
  qed
  then show p: "rproto (as_dead r) = IPA_NAT_INVALID_PROTO_FIELD_CMP"
    by (simp add: as_dead_def rproto_def Read8BitFieldValue_def IPA_NAT_INVALID_PROTO_FIELD_CMP_def)
  then show "\<not> live_rule (as_dead r)" by (simp add: live_rule_def)
qed (simp_all add: as_dead_def reader_defs)

lemma zero_rule_simps [simp]: "\<not> enabled_rule zero_rule" "\<not> live_rule zero_rule" "rnext zero_rule = 0" "rproto zero_rule = 0"
  by (simp_all add: zero_rule_def live_rule_def reader_defs)

text \<open>What deleting rule \<open>i\<close> does to the rules, before dead heads are swept.\<close>

definition rule_removed :: "nat \<Rightarrow> (nat \<Rightarrow> ipa_nat_rule) \<Rightarrow> nat \<Rightarrow> nat \<Rightarrow> ipa_nat_rule" where
  "rule_removed n R i =
     (if i < n then R(i := if rnext (R i) = 0 then zero_rule else as_dead (R i))
      else (let p = rprev (R i); x = rnext (R i);
                R1 = R(p := with_next (nextw (R i)) (R p));
                R2 = (if x = 0 then R1 else R1(x := with_prev (prevw (R i)) (R1 x)))
            in R2(i := zero_rule)))"

definition swept :: "nat \<Rightarrow> (nat \<Rightarrow> ipa_nat_rule) \<Rightarrow> nat \<Rightarrow> ipa_nat_rule" where
  "swept n R i = (if i < n \<and> rproto (R i) = IPA_NAT_INVALID_PROTO_FIELD_CMP \<and> rnext (R i) = 0 then zero_rule else R i)"

lemma chained_end:
  assumes "chained n e used nxt prv D" "b < n" "used b"
  shows "D b = [] \<longleftrightarrow> nxt b = 0"
proof (cases "D b")
  case Nil
  then show ?thesis using chained_parts(2) [OF assms] by simp
next
  case (Cons y ys)
  then show ?thesis using chained_parts(2) [OF assms] chained_parts(4) [OF assms(1), of y b] by auto
qed

lemma swept_ok:
  assumes ch: "chained n e (\<lambda>i. enabled_rule (R i)) (\<lambda>i. rnext (R i)) (\<lambda>i. rprev (R i)) D"
    and dead: "\<And>i. i < n + e \<Longrightarrow> enabled_rule (R i) \<Longrightarrow> \<not> live_rule (R i) \<Longrightarrow> i < n"
  shows "rules_ok n e (swept n R) D"
proof -
  let ?Z = "\<lambda>i. i < n \<and> rproto (R i) = IPA_NAT_INVALID_PROTO_FIELD_CMP \<and> rnext (R i) = 0"
  have empty: "D i = []" if "?Z i" for i
    using that chained_parts(1) [OF ch, of i] chained_end [OF ch, of i] by (cases "enabled_rule (R i)") auto
  have "chained n e (\<lambda>i. enabled_rule (swept n R i)) (\<lambda>i. rnext (swept n R i)) (\<lambda>i. rprev (swept n R i)) D"
  proof (rule chained_drop [OF ch, of ?Z])
    show "D i = []" if "n \<le> i" for i using chained_parts(1) [OF ch, of i] that by auto
  qed (use empty in \<open>auto simp: swept_def\<close>)
  moreover have "i < n \<and> D i \<noteq> []" if i: "i < n + e" "enabled_rule (swept n R i)" "\<not> live_rule (swept n R i)" for i
  proof -
    have nz: "\<not> ?Z i" "swept n R i = R i" using i(2) by (auto simp: swept_def split: if_splits)
    then have "i < n" using dead i by auto
    moreover have "rnext (R i) \<noteq> 0" using nz i \<open>i < n\<close> by (auto simp: live_rule_def)
    ultimately show ?thesis using chained_end [OF ch, of i] i nz by auto
  qed
  ultimately show ?thesis unfolding rules_ok_def by blast
qed

lemma swept_live: "live_rule (swept n R i) = live_rule (R i)" "live_rule (R i) \<Longrightarrow> swept n R i = R i"
  by (auto simp: swept_def live_rule_def)

lemma rule_removed_ok:
  assumes ok: "rules_ok n e R D" and i: "i < n + e" "live_rule (R i)" and n: "0 < n" "0 < e"
  shows "\<exists>D'. rules_ok n e (swept n (rule_removed n R i)) D' \<and> (\<forall>b. set (D b) - {i} \<subseteq> set (D' b))"
proof -
  let ?R = "rule_removed n R i"
  note O = ok [unfolded rules_ok_def]
  have ch: "chained n e (\<lambda>i. enabled_rule (R i)) (\<lambda>i. rnext (R i)) (\<lambda>i. rprev (R i)) D" using O by simp
  note en = live_enabled [OF i(2)]
  have "\<exists>D'. chained n e (\<lambda>i. enabled_rule (?R i)) (\<lambda>i. rnext (?R i)) (\<lambda>i. rprev (?R i)) D' \<and> (\<forall>b. set (D b) - {i} \<subseteq> set (D' b))"
  proof (cases "i < n")
    case base: True
    show ?thesis
    proof (cases "rnext (R i) = 0")
      case True
      have "chained n e (\<lambda>i. enabled_rule (?R i)) (\<lambda>i. rnext (?R i)) (\<lambda>i. rprev (?R i)) D"
      proof (rule chained_drop [OF ch, of "\<lambda>k. k = i"])
        show "k < n \<and> D k = []" if "k = i" for k using that base True chained_end [OF ch base] en by auto
        show "D k = []" if "n \<le> k" for k using chained_parts(1) [OF ch, of k] that by auto
      qed (use base True in \<open>auto simp: rule_removed_def\<close>)
      then show ?thesis by blast
    next
      case False
      then have "?R = R(i := as_dead (R i))" using base by (simp add: rule_removed_def)
      then have "(\<lambda>i. enabled_rule (?R i)) = (\<lambda>i. enabled_rule (R i))" "(\<lambda>i. rnext (?R i)) = (\<lambda>i. rnext (R i))"
        "(\<lambda>i. rprev (?R i)) = (\<lambda>i. rprev (R i))" by auto
      then show ?thesis using ch by (intro exI [of _ D]) auto
    qed
  next
    case False
    then obtain b where "i \<in> set (D b)" using chained_parts(6) [OF ch, of i] i en by auto
    then obtain xs ys where s: "D b = xs @ i # ys" by (meson split_list)
    note S = chained_split [OF ch s]
    have ni: "n < i" using chained_parts(4) [OF ch, of i b] s by simp
    have x: "rnext (R i) \<noteq> i" "rnext (R i) \<noteq> 0 \<Longrightarrow> rnext (R i) \<noteq> last (b # xs) \<and> n < rnext (R i)"
    proof -
      have d: "distinct (D b)" using chained_parts(3) [OF ch] .
      show "rnext (R i) \<noteq> i" using S(3) s d False n by (cases ys) auto
      show "rnext (R i) \<noteq> last (b # xs) \<and> n < rnext (R i)" if "rnext (R i) \<noteq> 0"
        using S(3,8) that s chained_parts(4) [OF ch, of "rnext (R i)" b] by (cases ys) (auto simp del: last.simps)
    qed
    have R: "?R k = (if k = i then zero_rule else if k = last (b # xs) then with_next (nextw (R i)) (R k)
        else if rnext (R i) \<noteq> 0 \<and> k = rnext (R i) then with_prev (prevw (R i)) (R k) else R k)" for k
      using False x S(1) by (auto simp: rule_removed_def Let_def simp del: last.simps)
    have "chained n e (\<lambda>i. enabled_rule (?R i)) (\<lambda>i. rnext (?R i)) (\<lambda>i. rprev (?R i)) (D(b := xs @ ys))"
    proof (rule chained_remove [OF ch s])
      fix k assume k: "k < n + e"
      show "enabled_rule (?R k) = (k \<noteq> i \<and> enabled_rule (R k))" by (simp add: R del: last.simps)
      assume ki: "k \<noteq> i"
      show "rnext (?R k) = (if k = last (b # xs) then rnext (R i) else rnext (R k))"
        using ki by (simp add: R readers_unat(1) [of "R i"] del: last.simps)
      assume "n < k"
      then show "rprev (?R k) = (if k = rnext (R i) then last (b # xs) else rprev (R k))"
        using ki x S(1) by (auto simp: R readers_unat(2) [of "R i", symmetric] simp del: last.simps)
    next
      fix k assume "k \<le> n"
      then show "rprev (?R k) = rprev (R k)" using x ni by (auto simp: R simp del: last.simps)
    qed
    moreover have "set (D c) - {i} \<subseteq> set ((D(b := xs @ ys)) c)" for c using s by auto
    ultimately show ?thesis by blast
  qed
  then obtain D' where D': "chained n e (\<lambda>i. enabled_rule (?R i)) (\<lambda>i. rnext (?R i)) (\<lambda>i. rprev (?R i)) D'"
    "\<forall>b. set (D b) - {i} \<subseteq> set (D' b)" by blast
  have "k < n" if "k < n + e" "enabled_rule (?R k)" "\<not> live_rule (?R k)" for k
    using that O by (auto simp: rule_removed_def Let_def split: if_splits)
  from swept_ok [OF D'(1) this] D'(2) show ?thesis by blast
qed

text \<open>Which rules are left, and what is kept of them.\<close>

lemma rule_removed_live:
  assumes ok: "rules_ok n e R D" and i: "i < n + e" "live_rule (R i)" and k: "k < n + e"
  shows "live_rule (rule_removed n R i k) = (live_rule (R k) \<and> k \<noteq> i)"
    and "k \<noteq> i \<Longrightarrow> client_rule (rule_removed n R i k) = client_rule (R k) \<and> rindex (rule_removed n R i k) = rindex (R k)"
  by (auto simp: rule_removed_def Let_def)

section \<open>The index table\<close>

definition xnextw :: "u32 \<Rightarrow> u16" where "xnextw w = Read16BitFieldValue w INDX_TBL_NEXT_INDEX_FILED"

lemma xnext_unat: "xnext w = unat (xnextw w)"
  by (simp add: xnext_def xnextw_def)

text \<open>The entry that becomes free, the entries and the predecessors after index entry \<open>j\<close> is deleted.\<close>

definition freed :: "nat \<Rightarrow> (nat \<Rightarrow> u32) \<Rightarrow> nat \<Rightarrow> nat" where
  "freed n I j = (if j < n \<and> xnext (I j) \<noteq> 0 then xnext (I j) else j)"

definition index_removed :: "nat \<Rightarrow> (nat \<Rightarrow> u32) \<Rightarrow> u16 list \<Rightarrow> nat \<Rightarrow> nat \<Rightarrow> u32" where
  "index_removed n I M j =
     (if j < n then (if xnext (I j) = 0 then I(j := 0) else I(j := I (xnext (I j)), xnext (I j) := 0))
      else (let p = unat (M ! (j - n)) in I(p := mk32 (xnextw (I j)) (lo16 (I p)), j := 0)))"

definition meta_removed :: "nat \<Rightarrow> (nat \<Rightarrow> u32) \<Rightarrow> u16 list \<Rightarrow> u16 \<Rightarrow> u16 list" where
  "meta_removed n I M jw =
     (let j = unat jw
      in if j < n then (if xnext (I j) = 0 \<or> xnext (I (xnext (I j))) < n then M else M[xnext (I (xnext (I j))) - n := jw])
         else if xnext (I j) = 0 then M else M[xnext (I j) - n := M ! (j - n), j - n := 0])"

lemma zero_index [simp]: "xentry 0 = 0" "xnext 0 = 0"
  by (simp_all add: reader_defs)

lemma index_removed_ok:
  assumes ok: "index_ok n e I M X" and j: "unat jw = j" "j < n + e" "xentry (I j) \<noteq> 0" and len: "length M = e" and n: "0 < n" "0 < e"
  shows "\<exists>X'. index_ok n e (index_removed n I M j) (meta_removed n I M jw) X' \<and> (\<forall>b. set (X b) - {freed n I j} \<subseteq> set (X' b))"
    and "freed n I j < n + e" "xentry (I (freed n I j)) \<noteq> 0"
    and "freed n I j = j \<or> (freed n I j \<in> set (X j) \<and> (\<forall>b. freed n I j \<in> set (X b) \<longrightarrow> b = j) \<and> n < freed n I j)"
    and "k < n + e \<Longrightarrow> xentry (index_removed n I M j k) =
      (if k = freed n I j then 0 else if k = j then xentry (I (freed n I j)) else xentry (I k))"
proof -
  let ?prv = "\<lambda>M j. if j \<le> n then 0 else unat (M ! (j - n))"
  have ch: "chained n e (\<lambda>j. xentry (I j) \<noteq> 0) (\<lambda>j. xnext (I j)) (?prv M) X" using ok by (simp add: index_ok_def)
  have goal: "(\<exists>X'. index_ok n e (index_removed n I M j) (meta_removed n I M jw) X' \<and> (\<forall>b. set (X b) - {freed n I j} \<subseteq> set (X' b))) \<and>
    freed n I j < n + e \<and> xentry (I (freed n I j)) \<noteq> 0 \<and>
    (freed n I j = j \<or> (freed n I j \<in> set (X j) \<and> (\<forall>b. freed n I j \<in> set (X b) \<longrightarrow> b = j) \<and> n < freed n I j)) \<and>
    (\<forall>k. xentry (index_removed n I M j k) =
      (if k = freed n I j then 0 else if k = j then xentry (I (freed n I j)) else xentry (I k)))"
  proof (cases "j < n")
    case base: True
    show ?thesis
    proof (cases "xnext (I j) = 0")
      case True
      have "chained n e (\<lambda>k. xentry (index_removed n I M j k) \<noteq> 0) (\<lambda>k. xnext (index_removed n I M j k)) (?prv (meta_removed n I M jw)) X"
      proof (rule chained_drop [OF ch, of "\<lambda>k. k = j"])
        show "k < n \<and> X k = []" if "k = j" for k using that base True chained_end [OF ch base] j by auto
        show "X k = []" if "n \<le> k" for k using chained_parts(1) [OF ch, of k] that by auto
      qed (use base True j in \<open>auto simp: index_removed_def meta_removed_def\<close>)
      then have "index_ok n e (index_removed n I M j) (meta_removed n I M jw) X" by (simp only: index_ok_def)
      moreover have f: "freed n I j = j" using True by (simp add: freed_def)
      moreover have "xentry (index_removed n I M j k) = (if k = j then 0 else if k = j then xentry (I j) else xentry (I k))" for k
        using base True by (simp add: index_removed_def)
      ultimately show ?thesis using j unfolding f by blast
    next
      case False
      then have "X j \<noteq> []" using chained_end [OF ch base] j by auto
      then obtain y ys where s: "X j = [] @ y # ys" by (cases "X j") auto
      note S = chained_split [OF ch s]
      have y: "xnext (I j) = y" "n < y" "y < n + e" "xentry (I y) \<noteq> 0"
        using S(2) s chained_parts(4) [OF ch, of y j] chained_used_expn [OF ch, of y j] by auto
      have uniq: "b = j" if "y \<in> set (X b)" for b using chained_parts(5) [OF ch that, of j] s by simp
      have xy: "xnext (I y) = 0 \<or> (n < xnext (I y) \<and> xnext (I y) < n + e \<and> xnext (I y) \<noteq> y)"
        using S(3) s chained_parts(3) [OF ch, of j] chained_parts(4) [OF ch, of "xnext (I y)" j] by (cases ys) auto
      have I': "index_removed n I M j = I(j := I y, y := 0)" using base False y by (simp add: index_removed_def)
      have "chained n e (\<lambda>k. xentry (index_removed n I M j k) \<noteq> 0) (\<lambda>k. xnext (index_removed n I M j k)) (?prv (meta_removed n I M jw)) (X(j := [] @ ys))"
      proof (rule chained_remove [OF ch s])
        fix k assume k: "k < n + e"
        show "(xentry (index_removed n I M j k) \<noteq> 0) = (k \<noteq> y \<and> xentry (I k) \<noteq> 0)" using y base j by (simp add: I')
        assume ky: "k \<noteq> y"
        show "xnext (index_removed n I M j k) = (if k = last [j] then xnext (I y) else xnext (I k))" using ky by (simp add: I')
        assume nk: "n < k"
        show "?prv (meta_removed n I M jw) k = (if k = xnext (I y) then last [j] else ?prv M k)"
          using xy ky nk k base False j y len by (auto simp: meta_removed_def Let_def nth_list_update)
      next
        fix k assume "k \<le> n"
        then show "?prv (meta_removed n I M jw) k = ?prv M k" by simp
      qed
      then have "index_ok n e (index_removed n I M j) (meta_removed n I M jw) (X(j := [] @ ys))" by (simp only: index_ok_def)
      moreover have "\<forall>b. set (X b) - {y} \<subseteq> set ((X(j := [] @ ys)) b)" using s by auto
      moreover have f: "freed n I j = y" using base False y by (simp add: freed_def)
      moreover have "xentry (index_removed n I M j k) = (if k = y then 0 else if k = j then xentry (I y) else xentry (I k))" for k
        by (simp add: I')
      moreover have "y \<in> set (X j)" using s by simp
      ultimately show ?thesis using y uniq unfolding f by blast
    qed
  next
    case False
    then obtain b where "j \<in> set (X b)" using chained_parts(6) [OF ch, of j] j by auto
    then obtain xs ys where s: "X b = xs @ j # ys" by (meson split_list)
    note S = chained_split [OF ch s]
    have nj: "n < j" using chained_parts(4) [OF ch, of j b] s by simp
    have p: "unat (M ! (j - n)) = last (b # xs)" using S(1) nj by simp
    have x: "xnext (I j) = 0 \<or> (n < xnext (I j) \<and> xnext (I j) < n + e \<and> xnext (I j) \<noteq> j)"
      using S(3) s chained_parts(3) [OF ch, of b] chained_parts(4) [OF ch, of "xnext (I j)" b] by (cases ys) auto
    have I': "index_removed n I M j = I(last (b # xs) := mk32 (xnextw (I j)) (lo16 (I (last (b # xs)))), j := 0)"
      using False by (simp add: index_removed_def Let_def p del: last.simps)
    have lo: "unat (lo16 w) = xentry w" for w by (simp add: reader_defs)
    have "chained n e (\<lambda>k. xentry (index_removed n I M j k) \<noteq> 0) (\<lambda>k. xnext (index_removed n I M j k)) (?prv (meta_removed n I M jw)) (X(b := xs @ ys))"
    proof (rule chained_remove [OF ch s])
      fix k assume k: "k < n + e"
      show "(xentry (index_removed n I M j k) \<noteq> 0) = (k \<noteq> j \<and> xentry (I k) \<noteq> 0)" by (simp add: I' lo del: last.simps)
      assume kj: "k \<noteq> j"
      show "xnext (index_removed n I M j k) = (if k = last (b # xs) then xnext (I j) else xnext (I k))"
        using kj by (simp add: I' xnext_unat [of "I j"] del: last.simps)
      assume nk: "n < k"
      show "?prv (meta_removed n I M jw) k = (if k = xnext (I j) then last (b # xs) else ?prv M k)"
        using x nk k kj nj False j len p by (auto simp: meta_removed_def Let_def nth_list_update simp del: last.simps)
    next
      fix k assume "k \<le> n"
      then show "?prv (meta_removed n I M jw) k = ?prv M k" by simp
    qed
    then have "index_ok n e (index_removed n I M j) (meta_removed n I M jw) (X(b := xs @ ys))" by (simp only: index_ok_def)
    moreover have "\<forall>c. set (X c) - {j} \<subseteq> set ((X(b := xs @ ys)) c)" using s by auto
    moreover have f: "freed n I j = j" using False by (simp add: freed_def)
    moreover have "xentry (index_removed n I M j k) = (if k = j then 0 else if k = j then xentry (I j) else xentry (I k))" for k
      by (simp add: I' lo del: last.simps)
    ultimately show ?thesis using j unfolding f by blast
  qed
  then show "\<exists>X'. index_ok n e (index_removed n I M j) (meta_removed n I M jw) X' \<and> (\<forall>b. set (X b) - {freed n I j} \<subseteq> set (X' b))"
    "freed n I j < n + e" "xentry (I (freed n I j)) \<noteq> 0"
    "freed n I j = j \<or> (freed n I j \<in> set (X j) \<and> (\<forall>b. freed n I j \<in> set (X b) \<longrightarrow> b = j) \<and> n < freed n I j)"
    "k < n + e \<Longrightarrow> xentry (index_removed n I M j k) =
      (if k = freed n I j then 0 else if k = j then xentry (I (freed n I j)) else xentry (I k))" by blast+
qed

section \<open>The commands and what follows them\<close>

lemma chain_neighbours:
  assumes ch: "chained n e used nxt prv D" and i: "n \<le> i" "i < n + e" "used i"
  shows "prv i < n + e" "prv i \<noteq> i" "prv i \<noteq> 0" "n < i" "nxt i = 0 \<or> n < nxt i \<and> nxt i < n + e \<and> nxt i \<noteq> i \<and> nxt i \<noteq> prv i"
proof -
  obtain b where "i \<in> set (D b)" using chained_parts(6) [OF ch i(1,2)] i by auto
  then obtain xs ys where s: "D b = xs @ i # ys" by (meson split_list)
  note S = chained_split [OF ch s]
  show "prv i < n + e" "prv i \<noteq> i" "prv i \<noteq> 0" "n < i" using S s chained_parts(4) [OF ch, of i b] by auto
  show "nxt i = 0 \<or> n < nxt i \<and> nxt i < n + e \<and> nxt i \<noteq> i \<and> nxt i \<noteq> prv i"
    using S(1,3,8) s chained_parts(3) [OF ch, of b] chained_parts(4) [OF ch, of "nxt i" b] by (cases ys) (auto simp del: last.simps)
qed

lemma loc_get:
  assumes "shape n e m" "i < n + e" "unat w = (if n \<le> i then i - n else i)"
  shows "get_rule m (n \<le> i) w = Some (rule_at m i)" "get_index m (n \<le> i) w = Some (index_at m i)"
    "set_rule m (n \<le> i) w r = Some (upd_rule i r m)" "set_index m (n \<le> i) w v = Some (upd_index i v m)"
  using assms get_rule_at [OF assms(1,2), of w] get_index_at [OF assms(1,2), of w] set_rule_at [OF assms(1,2), of w r]
    set_index_at [OF assms(1,2), of w v] by (auto split: if_splits)

definition rpos :: "nat \<Rightarrow> nat \<Rightarrow> ipa_nat_rule \<Rightarrow> del_type" where
  "rpos n i r = (if n \<le> i then (if rnext r = 0 then IPA_NAT_DEL_TYPE_LAST else IPA_NAT_DEL_TYPE_MIDDLE)
     else (if rnext r = 0 then IPA_NAT_DEL_TYPE_ONLY_ONE else IPA_NAT_DEL_TYPE_HEAD))"

definition xpos :: "nat \<Rightarrow> nat \<Rightarrow> u32 \<Rightarrow> del_type" where
  "xpos n j w = (if n \<le> j then (if xnext w = 0 then IPA_NAT_DEL_TYPE_LAST else IPA_NAT_DEL_TYPE_MIDDLE)
     else (if xnext w = 0 then IPA_NAT_DEL_TYPE_ONLY_ONE else IPA_NAT_DEL_TYPE_HEAD))"

lemma find_rule_pos_eq:
  assumes "shape n e (mem t)" "i < n + e" "unat w = (if n \<le> i then i - n else i)"
  shows "ipa_nati_find_rule_pos t (n \<le> i) w = Some (rpos n i (rule_at (mem t) i))"
  by (simp add: ipa_nati_find_rule_pos_def loc_get [OF assms] rpos_def rnext_def IPA_NAT_INVALID_NAT_ENTRY_def unsigned_eq_0_iff)

lemma find_index_pos_eq:
  assumes "dims t n e" "unat w < n + e"
  shows "ipa_nati_find_index_rule_pos t w = Some (xpos n (unat w) (index_at (mem t) (unat w)))"
proof -
  have "get_index (mem t) (n \<le> unat w) (if n \<le> unat w then w - table_entries t else w) = Some (index_at (mem t) (unat w))"
    using entry_less [OF assms(1), of w] by (intro loc_get [OF dims_shape [OF assms(1)] assms(2)]) auto
  then show ?thesis using entry_less [OF assms(1), of w]
    by (auto simp: ipa_nati_find_index_rule_pos_def xpos_def xnext_def IPA_NAT_INVALID_NAT_ENTRY_def unsigned_eq_0_iff split: if_splits)
qed

text \<open>The rule part: the command and the writes after it.\<close>

lemma rule_cmd_effect:
  assumes d: "dims t n e" and m: "shape n e m" "rule_at m i = r" and i: "i < n + e" "unat w = (if n \<le> i then i - n else i)"
    and p: "n \<le> i \<Longrightarrow> rprev r < n + e"
  shows "dma_write m (del_rule_cmd x t r w (rpos n i r)) =
    (if n \<le> i then link_rule (rprev r) (nextw r) m
     else if rnext r = 0 then upd_rule i (r\<lparr>ip_cksm_enbl := mk32 0 (lo16 (ip_cksm_enbl r))\<rparr>) m else upd_rule i (as_dead r) m)"
proof (cases "n \<le> i")
  case True
  have "unat (prevw r) < n + e" using p [OF True] by (simp add: readers_unat)
  note D = dma_next_of_rule [OF d m(1) this, of x "nextw r"]
  have 0: "rnext r = 0 \<Longrightarrow> nextw r = 0" by (simp add: readers_unat unsigned_eq_0_iff)
  show ?thesis using D True 0
    by (auto simp: del_rule_cmd_def rpos_def Let_def prevw_def [symmetric] nextw_def [symmetric] readers_unat(2) not_less [symmetric]
        IPA_NAT_INVALID_NAT_ENTRY_def split: if_splits)
next
  case False
  then have f: "unat (ipa_nati_get_entry_offset t IPA_NAT_BASE_TBL w + c) = 32 * i + unat c" if "c < 32" for c
    using offset_parts(1) [OF d that] i(2) by simp
  show ?thesis
    using False i m dma_rule(1) [OF m(1) i(1), of "18" _ x 0] f [of 18] dma_rule(1) [OF m(1) i(1), of "22" _ x "0xFF00"] f [of 22]
    by (auto simp: del_rule_cmd_def rpos_def Let_def rule_write_def driver_consts as_dead_def)
qed

lemma rule_side:
  assumes d: "dims t n e" and m: "shape n e m" and i: "i < n + e" "unat w = (if n \<le> i then i - n else i)"
    and p: "n \<le> i \<Longrightarrow> rprev (rule_at m i) < n + e \<and> rprev (rule_at m i) \<noteq> i"
    and x: "n \<le> i \<Longrightarrow> rnext (rule_at m i) = 0 \<or> n < rnext (rule_at m i) \<and> rnext (rule_at m i) < n + e \<and> rnext (rule_at m i) \<noteq> i"
  shows "\<exists>m'. del_rule_finish (n \<le> i) w (rpos n i (rule_at m i))
      (t\<lparr>mem := dma_write m (del_rule_cmd y t (rule_at m i) w (rpos n i (rule_at m i)))\<rparr>) = Some (t\<lparr>mem := m'\<rparr>) \<and>
    shape n e m' \<and> rule_at m' = rule_removed n (rule_at m) i \<and> index_at m' = index_at m"
proof -
  let ?r = "rule_at m i"
  define m1 where "m1 = dma_write m (del_rule_cmd y t ?r w (rpos n i ?r))"
  have m1: "m1 = (if n \<le> i then link_rule (rprev ?r) (nextw ?r) m
     else if rnext ?r = 0 then upd_rule i (?r\<lparr>ip_cksm_enbl := mk32 0 (lo16 (ip_cksm_enbl ?r))\<rparr>) m else upd_rule i (as_dead ?r) m)"
    unfolding m1_def by (rule rule_cmd_effect [OF d m refl i]) (use p in auto)
  have s1: "shape n e m1" "index_at m1 = index_at m" using m by (auto simp: m1)
  note L1 = loc_get [OF s1(1) i]
  show ?thesis unfolding m1_def [symmetric]
  proof (cases "n \<le> i")
    case base: False
    then show "\<exists>m'. del_rule_finish (n \<le> i) w (rpos n i ?r) (t\<lparr>mem := m1\<rparr>) = Some (t\<lparr>mem := m'\<rparr>) \<and>
        shape n e m' \<and> rule_at m' = rule_removed n (rule_at m) i \<and> index_at m' = index_at m"
    proof (cases "rnext ?r = 0")
      case True
      then show ?thesis using base L1 s1 i m rule_at_upd [OF m i(1)] rule_at_upd [OF s1(1) i(1)]
        by (intro exI [of _ "upd_rule i zero_rule m1"]) (auto simp: del_rule_finish_def rpos_def rule_removed_def m1)
    next
      case False
      then show ?thesis using base L1 s1 i m rule_at_upd [OF m i(1)]
        by (intro exI [of _ m1]) (auto simp: del_rule_finish_def rpos_def rule_removed_def m1)
    qed
  next
    case expn: True
    have r1: "rule_at m1 = (rule_at m)(rprev ?r := with_next (nextw ?r) (rule_at m (rprev ?r)))"
      using expn p rule_at_upd [OF m, of "rprev ?r"] by (simp add: m1 link_rule_def with_next_def)
    then have ri: "rule_at m1 i = ?r" using p [OF expn] by simp
    show "\<exists>m'. del_rule_finish (n \<le> i) w (rpos n i ?r) (t\<lparr>mem := m1\<rparr>) = Some (t\<lparr>mem := m'\<rparr>) \<and>
        shape n e m' \<and> rule_at m' = rule_removed n (rule_at m) i \<and> index_at m' = index_at m"
    proof (cases "rnext ?r = 0")
      case True
      then show ?thesis using expn L1 s1 i rule_at_upd [OF s1(1) i(1)] r1
        by (intro exI [of _ "upd_rule i zero_rule m1"]) (auto simp: del_rule_finish_def rpos_def rule_removed_def Let_def)
    next
      case False
      let ?x = "rnext ?r"
      have xr: "n < ?x" "?x < n + e" "?x \<noteq> i" using x [OF expn] False by auto
      have "unat (nextw ?r - table_entries t) = (if n \<le> ?x then ?x - n else ?x)" "(n \<le> ?x) = True"
        using entry_less(3) [OF d, of "nextw ?r"] xr by (auto simp: readers_unat)
      note LX = loc_get [OF s1(1) xr(2) this(1), unfolded this(2)]
      let ?m2 = "upd_rule ?x (with_prev (prevw ?r) (rule_at m1 ?x)) m1"
      have u: "UpdateSwSpecParams (sw_spec_params q) IPA_NAT_SW_PARAM_PREV_INDX_BYTE (ucast v) = mk32 (hi16 (sw_spec_params q)) v" for q and v :: u16
        by (rule UpdateSwSpecParams_prev)
      have s2: "shape n e ?m2" using s1 by simp
      note L2 = loc_get [OF s2 i]
      have "del_rule_finish (n \<le> i) w (rpos n i ?r) (t\<lparr>mem := m1\<rparr>) = Some (t\<lparr>mem := upd_rule i zero_rule ?m2\<rparr>)"
        using expn False L1 L2 LX ri u [of "rule_at m1 ?x" "prevw ?r"]
        by (simp add: del_rule_finish_def rpos_def nextw_def [symmetric] prevw_def [symmetric] with_prev_def)
      moreover have "rule_at (upd_rule i zero_rule ?m2) = rule_removed n (rule_at m) i"
      proof -
        have "rule_at (upd_rule i zero_rule ?m2) = (rule_at m1)(?x := with_prev (prevw ?r) (rule_at m1 ?x), i := zero_rule)"
          by (simp only: rule_at_upd [OF s2 i(1)] rule_at_upd [OF s1(1) xr(2)])
        then show ?thesis using expn False r1 by (simp add: rule_removed_def Let_def)
      qed
      ultimately show ?thesis using s2 s1 by (intro exI [of _ "upd_rule i zero_rule ?m2"]) simp
    qed
  qed
qed

text \<open>The index part.\<close>

lemma index_cmds_effect:
  assumes d: "dims t n e" and j: "j < n + e" "unat w = (if n \<le> j then j - n else j)"
    and p: "n \<le> j \<Longrightarrow> unat (index_expn_table_meta t ! (j - n)) < n + e"
    and x: "j < n \<Longrightarrow> xnext (index_at (mem t) j) = 0 \<or> n < xnext (index_at (mem t) j) \<and> xnext (index_at (mem t) j) < n + e"
  defines "I \<equiv> index_at (mem t)" and "M \<equiv> index_expn_table_meta t"
  shows "\<exists>cmds. del_index_cmds y t (n \<le> j) w (xpos n j (I j)) = Some cmds \<and> cmds \<noteq> [] \<and> (\<forall>c \<in> set cmds. index_cmd c) \<and>
    shape n e (foldl dma_write (mem t) cmds) \<and> rule_at (foldl dma_write (mem t) cmds) = rule_at (mem t) \<and>
    index_at (foldl dma_write (mem t) cmds) =
      (if n \<le> j then I(unat (M ! (j - n)) := mk32 (xnextw (I j)) (lo16 (I (unat (M ! (j - n))))))
       else if xnext (I j) = 0 then I(j := mk32 (hi16 (I j)) 0) else I(j := I (xnext (I j))))"
proof -
  have sh: "shape n e (mem t)" using d by (rule dims_shape)
  note L = loc_get [OF sh j]
  have len: "length (index_expn_table_meta t) = e" using d by (simp add: dims_def)
  show ?thesis
  proof (cases "n \<le> j")
    case True
    have pm: "aget (index_expn_table_meta t) (unat w) = Some (M ! (j - n))" using True j len by (simp add: aget_def M_def)
    define pw where "pw = M ! (j - n)"
    have pw: "unat pw < n + e" using p [OF True] by (simp add: pw_def M_def)
    note E = dma_next_of_index [OF d sh pw, of y "xnextw (I j)"]
    have 0: "xnext (I j) = 0 \<Longrightarrow> xnextw (I j) = 0" by (simp add: xnext_unat unsigned_eq_0_iff)
    let ?c = "let (ty, q) = (if pw < table_entries t then (IPA_NAT_INDX_TBL, pw) else (IPA_NAT_INDEX_EXPN_TBL, pw - table_entries t))
           in \<lparr>dma_table_index = y, base_addr = ty, dma_data = xnextw (I j),
               dma_offset = ipa_nati_get_index_entry_offset t ty q + IPA_NAT_INDEX_RULE_NEXT_FIELD_OFFSET\<rparr>"
    have "del_index_cmds y t (n \<le> j) w (xpos n j (I j)) = Some [?c]"
      using True L pm 0 by (auto simp: del_index_cmds_def xpos_def Let_def pw_def [symmetric] I_def [symmetric] xnextw_def [symmetric]
          not_less [symmetric] IPA_NAT_INVALID_NAT_ENTRY_def)
    moreover have "index_cmd ?c" by (simp add: index_cmd_def Let_def)
    moreover have "foldl dma_write (mem t) [?c] = link_index (unat pw) (xnextw (I j)) (mem t)" using E by simp
    ultimately show ?thesis using True sh index_at_upd [OF sh pw]
      by (intro exI [of _ "[?c]"]) (simp add: link_index_def pw_def [symmetric] I_def [symmetric] M_def [symmetric])
  next
    case base: False
    have wj: "unat w = j" "j < n" using base j by auto
    have off: "unat (ipa_nati_get_index_entry_offset t IPA_NAT_INDX_TBL w + c) = 4 * j + unat c" if "c < 4" for c
      using offset_parts(2) [OF d that] wj by simp
    have E0: "dma_write m \<lparr>dma_table_index = y, base_addr = IPA_NAT_INDX_TBL, dma_data = v,
        dma_offset = ipa_nati_get_index_entry_offset t IPA_NAT_INDX_TBL w + 0\<rparr> = upd_index j (mk32 (hi16 (index_at m j)) v) m"
      and E2: "dma_write m \<lparr>dma_table_index = y, base_addr = IPA_NAT_INDX_TBL, dma_data = v,
        dma_offset = ipa_nati_get_index_entry_offset t IPA_NAT_INDX_TBL w + 2\<rparr> = upd_index j (mk32 v (lo16 (index_at m j))) m"
      if "shape n e m" for m v
      using dma_index(1) [OF that j(1), of 0 "ipa_nati_get_index_entry_offset t IPA_NAT_INDX_TBL w + 0" y v]
        dma_index(1) [OF that j(1), of 2 "ipa_nati_get_index_entry_offset t IPA_NAT_INDX_TBL w + 2" y v] off [of 0] off [of 2] wj(2)
      by (simp_all add: index_write_def)
    show ?thesis
    proof (cases "xnext (I j) = 0")
      case True
      let ?c = "\<lparr>dma_table_index = y, base_addr = IPA_NAT_INDX_TBL, dma_data = 0, dma_offset = ipa_nati_get_index_entry_offset t IPA_NAT_INDX_TBL w + 0\<rparr>"
      have "del_index_cmds y t (n \<le> j) w (xpos n j (I j)) = Some [?c]"
        using base True by (simp add: del_index_cmds_def xpos_def Let_def driver_consts)
      moreover have "foldl dma_write (mem t) [?c] = upd_index j (mk32 (hi16 (I j)) 0) (mem t)"
        using E0 [OF sh, of 0] by (simp add: I_def)
      ultimately show ?thesis using base True sh index_at_upd [OF sh j(1)]
        by (intro exI [of _ "[?c]"]) (simp add: index_cmd_def I_def [symmetric])
    next
      case False
      let ?y = "xnext (I j)"
      have yr: "n < ?y" "?y < n + e" using x wj False by (auto simp: I_def)
      have "unat (xnextw (I j) - table_entries t) = (if n \<le> ?y then ?y - n else ?y)" "(n \<le> ?y) = True"
        using entry_less(3) [OF d, of "xnextw (I j)"] yr by (auto simp: xnext_unat)
      note LY = loc_get [OF sh yr(2) this(1), unfolded this(2)]
      let ?c1 = "\<lparr>dma_table_index = y, base_addr = IPA_NAT_INDX_TBL, dma_data = lo16 (I ?y),
        dma_offset = ipa_nati_get_index_entry_offset t IPA_NAT_INDX_TBL w + 0\<rparr>"
      let ?c2 = "\<lparr>dma_table_index = y, base_addr = IPA_NAT_INDX_TBL, dma_data = hi16 (I ?y),
        dma_offset = ipa_nati_get_index_entry_offset t IPA_NAT_INDX_TBL w + 2\<rparr>"
      have "del_index_cmds y t (n \<le> j) w (xpos n j (I j)) = Some [?c1, ?c2]"
        using base False L LY by (simp add: del_index_cmds_def xpos_def Let_def driver_consts I_def [symmetric] xnextw_def [symmetric])
          (simp add: Read16BitFieldValue_def xnextw_def)
      moreover have "foldl dma_write (mem t) [?c1, ?c2] = upd_index j (mk32 (hi16 (I ?y)) (lo16 (index_at (upd_index j (mk32 (hi16 (I j)) (lo16 (I ?y))) (mem t)) j)))
          (upd_index j (mk32 (hi16 (I j)) (lo16 (I ?y))) (mem t))"
        using E0 [OF sh, of "lo16 (I ?y)"] E2 [of "upd_index j (mk32 (hi16 (I j)) (lo16 (I ?y))) (mem t)" "hi16 (I ?y)"] sh
        by (simp add: I_def)
      ultimately show ?thesis using base False sh index_at_upd [OF sh j(1)] index_at_upd [of n e "upd_index j (mk32 (hi16 (I j)) (lo16 (I ?y))) (mem t)" j] j(1)
        by (intro exI [of _ "[?c1, ?c2]"]) (simp add: index_cmd_def I_def [symmetric])
    qed
  qed
qed

lemma index_finish_other:
  assumes d: "dims t n e" and j: "j < n + e" "unat w = (if n \<le> j then j - n else j)" "unat jw = j"
    and x: "n \<le> j \<Longrightarrow> xnext v = 0 \<or> n < xnext v \<and> xnext v < n + e"
    and head: "\<not> (j < n \<and> xnext v \<noteq> 0)" and v: "I j = v" "n \<le> j \<Longrightarrow> index_at (mem t) j = v"
  shows "del_index_finish_other (n \<le> j) w (xpos n j v) t =
    Some (t\<lparr>mem := upd_index j 0 (mem t), index_expn_table_meta := meta_removed n I (index_expn_table_meta t) jw\<rparr>)"
proof -
  note L = loc_get [OF dims_shape [OF d] j(1,2)]
  have len: "length (index_expn_table_meta t) = e" using d by (simp add: dims_def)
  show ?thesis
  proof (cases "n \<le> j \<and> xnext v \<noteq> 0")
    case True
    then have xr: "n < xnext v" "xnext v < n + e" "j - n < e" using x j(1) by auto
    have le: "table_entries t \<le> xnextw v" "unat (xnextw v - table_entries t) = xnext v - n"
      using entry_less [OF d, of "xnextw v"] xr by (auto simp: xnext_unat)
    have "aget (index_expn_table_meta t) (unat w) = Some (index_expn_table_meta t ! (j - n))" using True xr(3) j len by (simp add: aget_def)
    moreover have "aset (index_expn_table_meta t) (xnext v - n) q = Some ((index_expn_table_meta t)[xnext v - n := q])" for q
      using xr len by (simp add: aset_def)
    moreover have "aset ((index_expn_table_meta t)[xnext v - n := q]) (unat w) 0 = Some ((index_expn_table_meta t)[xnext v - n := q, j - n := 0])" for q
      using True xr(3) j len by (simp add: aset_def)
    ultimately show ?thesis using True L v j(3) le
      by (simp add: del_index_finish_other_def xpos_def meta_removed_def Let_def IPA_NAT_INVALID_NAT_ENTRY_def xnextw_def [symmetric])
  next
    case False
    then show ?thesis using L v j(3) head
      by (auto simp: del_index_finish_other_def xpos_def meta_removed_def Let_def)
  qed
qed

lemma index_finish_head:
  assumes d: "dims t n e" and j: "j < n" "unat jw = j" and y: "n < y" "y < n + e" "unat yw = y - n" "y = xnext (I j)"
    and vy: "index_at (mem t) y = I y" and vj: "index_at (mem t) j = I y"
    and x: "xnext (I y) = 0 \<or> n < xnext (I y) \<and> xnext (I y) < n + e" and k: "xentry (I y) < n + e"
  shows "del_index_finish_head jw yw t =
    Some (t\<lparr>mem := upd_rule (xentry (I y)) (with_index jw (rule_at (mem t) (xentry (I y)))) (upd_index y 0 (mem t)),
      index_expn_table_meta := meta_removed n I (index_expn_table_meta t) jw\<rparr>)"
proof -
  have sh: "shape n e (mem t)" using d by (rule dims_shape)
  have len: "length (index_expn_table_meta t) = e" using d by (simp add: dims_def)
  note LY = loc_get [OF sh y(2), of yw]
  have ly: "get_index (mem t) True yw = Some (I y)" "set_index (mem t) True yw 0 = Some (upd_index y 0 (mem t))"
    using LY(2,4) y vy by auto
  let ?m = "upd_index y 0 (mem t)"
  have sm: "shape n e ?m" using sh by simp
  have gj: "get_index ?m False jw = Some (I y)"
  proof -
    have "index_at ?m j = I y" using vj j y index_at_upd [OF sh y(2)] by simp
    then show ?thesis using loc_get(2) [OF sm, of j jw] j by simp
  qed
  let ?k = "Read16BitFieldValue (I y) INDX_TBL_TBL_ENTRY_FIELD"
  have kk: "unat ?k = xentry (I y)" by (simp add: xentry_def)
  define kx where "kx = (if table_entries t \<le> ?k then (True, ?k - table_entries t) else (False, ?k))"
  have kx: "fst kx = (n \<le> xentry (I y))" "unat (snd kx) = (if n \<le> xentry (I y) then xentry (I y) - n else xentry (I y))"
    using entry_less [OF d, of ?k] kk by (auto simp: kx_def)
  note LK = loc_get [OF sm k kx(2)]
  have meta: "(if xnextw (I y) \<noteq> 0 \<and> table_entries t \<le> xnextw (I y)
      then aset (index_expn_table_meta t) (unat (xnextw (I y) - table_entries t)) jw else Some (index_expn_table_meta t)) =
      Some (meta_removed n I (index_expn_table_meta t) jw)"
    using x j y len entry_less [OF d, of "xnextw (I y)"] by (auto simp: meta_removed_def Let_def aset_def xnext_unat [symmetric])
  have u: "UpdateSwSpecParams (sw_spec_params q) IPA_NAT_SW_PARAM_INDX_TBL_ENTRY_BYTE (ucast jw) = mk32 jw (lo16 (sw_spec_params q))" for q
    by (rule UpdateSwSpecParams_indx)
  show ?thesis
    using LK meta by (simp add: del_index_finish_head_def ly gj xnextw_def [symmetric] kx_def [symmetric] case_prod_beta kx(1) u with_index_def
        del: if_split)
qed

lemma reorder:
  assumes "malloc_ok K" "\<not> index_cmd c" "cmds \<noteq> []" "\<forall>d \<in> set cmds. index_cmd d"
  shows "ReorderCmds K (c # cmds) = cmds @ [c]"
  using assms by (cases cmds) (auto simp: ReorderCmds_def)

text \<open>All of \<open>ipa_nati_post_del_dma_cmd\<close> and the sweep, over the view.\<close>

definition reindexed :: "nat \<Rightarrow> (nat \<Rightarrow> u32) \<Rightarrow> u16 \<Rightarrow> (nat \<Rightarrow> ipa_nat_rule) \<Rightarrow> nat \<Rightarrow> ipa_nat_rule" where
  "reindexed n I jw R =
     (let y = freed n I (unat jw) in if y = unat jw then R else R(xentry (I y) := with_index jw (R (xentry (I y)))))"

end
