(* ===== verification/NatDelRule.thy ===== *)
theory NatDelRule
  imports NatDel
begin

text \<open>
  Deleting a rule by its handle: what the driver's functions compute on a table with the invariant, and that the table afterwards has it again and
  holds the same rules but that one.
\<close>

section \<open>Posting the commands\<close>

lemma post_del_result:
  assumes inv: "nat_inv_at ver4 ps n e D X t" and K: "dma_works K" and i: "i < n + e" "live_rule (rule_at (mem t) i)"
    and w: "unat w = (if n \<le> i then i - n else i)"
  defines "R \<equiv> rule_at (mem t)" and "I \<equiv> index_at (mem t)" and "M \<equiv> index_expn_table_meta t"
  defines "jw \<equiv> indexw (R i)"
  shows "\<exists>m'. ipa_nati_post_del_dma_cmd K ti w (n \<le> i) (rpos n i (R i)) t =
      Some (0, t\<lparr>mem := m', index_expn_table_meta := meta_removed n I M jw\<rparr>) \<and>
    shape n e m' \<and> rule_at m' = reindexed n I jw (rule_removed n R i) \<and> index_at m' = index_removed n I M (unat jw)"
proof -
  note V = inv [unfolded nat_inv_at_def]
  have d: "dims t n e" using V by simp
  have sh: "shape n e (mem t)" using d by (rule dims_shape)
  have nz: "0 < n" "0 < e" using d by (auto simp: dims_def)
  have rch: "chained n e (\<lambda>i. enabled_rule (R i)) (\<lambda>i. rnext (R i)) (\<lambda>i. rprev (R i)) D" using V by (simp add: rules_ok_def R_def)
  have xch: "chained n e (\<lambda>j. xentry (I j) \<noteq> 0) (\<lambda>j. xnext (I j)) (\<lambda>j. if j \<le> n then 0 else unat (M ! (j - n))) X"
    using V unfolding index_ok_def I_def M_def by blast
  define j where "j = unat jw"
  have en: "enabled_rule (R i)" using i(2) live_enabled by (simp add: R_def)
  have i0: "i \<noteq> 0" using rules_ok_live_range [of n e R D i] V i nz by (auto simp: R_def)
  have j: "j < n + e" "xentry (I j) = i" using V i unfolding links_ok_def j_def jw_def R_def I_def readers_unat by auto
  define jx where "jx = (if n \<le> j then jw - table_entries t else jw)"
  have jx: "unat jx = (if n \<le> j then j - n else j)" using entry_less(3) [OF d, of jw] by (auto simp: jx_def j_def)
  have jsplit: "(if table_entries t \<le> jw then (True, jw - table_entries t) else (False, jw)) = (n \<le> j, jx)"
    using entry_less(2) [OF d, of jw] by (auto simp: jx_def j_def)
  note NR = chain_neighbours [OF rch _ i(1) en]
  have NX: "unat (M ! (j - n)) < n + e" "unat (M ! (j - n)) \<noteq> j" "xnext (I j) = 0 \<or> n < xnext (I j) \<and> xnext (I j) < n + e" if "n \<le> j"
    using chain_neighbours [OF xch that j(1)] j i0 by auto
  have IR: "index_ok n e I M X" "length M = e" using V d by (auto simp: I_def M_def dims_def)
  note F = index_removed_ok [OF IR(1), of jw j, OF j_def [symmetric] j(1) _ IR(2) nz]
  have xe: "xentry (I j) \<noteq> 0" using j i0 by simp
  have NH: "xnext (I j) = 0 \<or> n < xnext (I j) \<and> xnext (I j) < n + e" if "j < n"
    using chained_parts(2) [OF xch that xe] chained_parts(4) [OF xch, of "xnext (I j)" j] by (cases "X j") auto
  obtain cmds where c: "del_index_cmds ti t (n \<le> j) jx (xpos n j (I j)) = Some cmds" "cmds \<noteq> []" "\<forall>c \<in> set cmds. index_cmd c"
    and mx: "shape n e (foldl dma_write (mem t) cmds)" "rule_at (foldl dma_write (mem t) cmds) = R"
    "index_at (foldl dma_write (mem t) cmds) =
      (if n \<le> j then I(unat (M ! (j - n)) := mk32 (xnextw (I j)) (lo16 (I (unat (M ! (j - n))))))
       else if xnext (I j) = 0 then I(j := mk32 (hi16 (I j)) 0) else I(j := I (xnext (I j))))"
    using index_cmds_effect [OF d j(1) jx, of ti] NX NH unfolding I_def [symmetric] M_def [symmetric] R_def [symmetric] by metis
  define m1 where "m1 = foldl dma_write (mem t) cmds"
  let ?cmd = "del_rule_cmd ti t (R i) w (rpos n i (R i))"
  have "rule_at m1 i = R i" "shape n e m1" using mx by (auto simp: m1_def)
  with rule_side [OF d _ i(1) w, of m1 ti] NR obtain m2 where
    m2: "del_rule_finish (n \<le> i) w (rpos n i (R i)) (t\<lparr>mem := dma_write m1 ?cmd\<rparr>) = Some (t\<lparr>mem := m2\<rparr>)"
    "shape n e m2" "rule_at m2 = rule_removed n R i" "index_at m2 = index_at m1"
    using mx(2) by (auto simp: m1_def)
  have ro: "ReorderCmds K (?cmd # cmds) = cmds @ [?cmd]"
  proof (rule reorder [OF _ _ c(2,3)])
    show "malloc_ok K" using K by (simp add: dma_works_def)
    show "\<not> index_cmd ?cmd" by (auto simp: index_cmd_def del_rule_cmd_def Let_def split: del_type.split)
  qed
  have dma: "nat_dma K (ReorderCmds K (?cmd # cmds)) (mem t) = (0, dma_write m1 ?cmd)"
    using K by (simp add: ro dma_works_def m1_def)
  let ?fin = "if xpos n j (I j) = IPA_NAT_DEL_TYPE_HEAD then del_index_finish_head jx (xnextw (I j) - table_entries t) (t\<lparr>mem := m2\<rparr>)
      else del_index_finish_other (n \<le> j) jx (xpos n j (I j)) (t\<lparr>mem := m2\<rparr>)"
  have post: "ipa_nati_post_del_dma_cmd K ti w (n \<le> i) (rpos n i (R i)) t = do { t \<leftarrow> ?fin; Some (0, t) }"
    using K en loc_get(1) [OF sh i(1) w] loc_get(2) [OF sh j(1) jx] find_index_pos_eq [OF d, of jw] j(1) c(1) dma m2(1)
    by (simp add: ipa_nati_post_del_dma_cmd_def dma_works_def enabled_rule_def jsplit R_def [symmetric] I_def [symmetric]
        indexw_def [symmetric] jw_def [symmetric] xnextw_def [symmetric] j_def [symmetric] Let_def del: if_split)
  have d2: "dims (t\<lparr>mem := m2\<rparr>) n e" using dims_mem [OF d m2(2)] .
  show ?thesis
  proof (cases "j < n \<and> xnext (I j) \<noteq> 0")
    case True
    let ?y = "xnext (I j)"
    have y: "n < ?y" "?y < n + e" using NH True by auto
    have yw: "unat (xnextw (I j) - table_entries t) = ?y - n" using entry_less(3) [OF d, of "xnextw (I j)"] y by (auto simp: xnext_unat)
    have fr: "freed n I j = ?y" using True by (simp add: freed_def)
    have used: "xentry (I ?y) \<noteq> 0" using F(3) [OF xe] fr by simp
    have k: "xentry (I ?y) < n + e" using V y(2) used unfolding links_ok_def I_def by auto
    have xx: "xnext (I ?y) = 0 \<or> n < xnext (I ?y) \<and> xnext (I ?y) < n + e"
      using chain_neighbours(5) [OF xch _ y(2) used] y by auto
    have hd: "xpos n j (I j) = IPA_NAT_DEL_TYPE_HEAD" "jx = jw" using True by (auto simp: xpos_def jx_def)
    have i2: "index_at m2 = I(j := I ?y)" using m2(4) mx(3) True by (simp add: m1_def)
    let ?m = "upd_rule (xentry (I ?y)) (with_index jw (rule_at m2 (xentry (I ?y)))) (upd_index ?y 0 m2)"
    have "?fin = Some (t\<lparr>mem := ?m, index_expn_table_meta := meta_removed n I M jw\<rparr>)"
      using index_finish_head [OF d2 conjunct1 [OF True] j_def [symmetric] y yw, of I] i2 True y xx k hd
      by (simp add: M_def)
    moreover have "rule_at ?m = reindexed n I jw (rule_removed n R i)"
      using rule_at_upd [of n e "upd_index ?y 0 m2" "xentry (I ?y)"] k m2 fr y True by (simp add: reindexed_def Let_def j_def [symmetric])
    moreover have "index_at ?m = index_removed n I M j"
      using index_at_upd [OF m2(2) y(2)] i2 True by (simp add: index_removed_def)
    ultimately show ?thesis using post m2(2) by (intro exI [of _ ?m]) (simp add: j_def)
  next
    case False
    have nh: "xpos n j (I j) \<noteq> IPA_NAT_DEL_TYPE_HEAD" using False by (auto simp: xpos_def)
    have vj: "index_at m2 j = I j" if "n \<le> j" using that m2(4) mx(3) NX by (simp add: m1_def)
    have fin: "?fin = Some (t\<lparr>mem := upd_index j 0 m2, index_expn_table_meta := meta_removed n I M jw\<rparr>)"
      using index_finish_other [OF d2 j(1) jx j_def [symmetric], of "I j" I] NX False vj nh by (simp add: M_def)
    moreover have "rule_at (upd_index j 0 m2) = reindexed n I jw (rule_removed n R i)"
      using m2(3) False by (auto simp: reindexed_def Let_def freed_def j_def [symmetric])
    moreover have "index_at (upd_index j 0 m2) = index_removed n I M j"
      using index_at_upd [OF m2(2) j(1)] m2(4) mx(3) False by (auto simp: m1_def index_removed_def Let_def)
    ultimately show ?thesis using post m2(2) by (intro exI [of _ "upd_index j 0 m2"]) (simp add: j_def)
  qed
qed

section \<open>The invariant after deleting\<close>

lemma sweep_result:
  assumes d: "dims t n e"
  shows "\<exists>m'. ipa_nati_del_dead_ipv4_head_nodes t = Some (t\<lparr>mem := m'\<rparr>) \<and> shape n e m' \<and>
    rule_at m' = swept n (rule_at (mem t)) \<and> index_at m' = index_at (mem t)"
proof -
  let ?f = "\<lambda>r. if rproto r = IPA_NAT_INVALID_PROTO_FIELD_CMP \<and> rnext r = 0 then zero_rule else r"
  let ?m = "(mem t)\<lparr>rules := map ?f (rules (mem t))\<rparr>"
  have l: "length (rules (mem t)) = n" "unat (table_entries t) = n" using d by (auto simp: dims_def shape_def)
  then have "ipa_nati_del_dead_ipv4_head_nodes t = Some (t\<lparr>mem := ?m\<rparr>)"
    by (simp add: ipa_nati_del_dead_ipv4_head_nodes_def del_dead_loop_result)
  moreover have "shape n e ?m" using d by (simp add: dims_def shape_def)
  moreover have "rule_at ?m = swept n (rule_at (mem t))"
    using l by (auto simp: fun_eq_iff rule_at_def swept_def nth_append)
  moreover have "index_at ?m = index_at (mem t)" by (simp add: fun_eq_iff index_at_def)
  ultimately show ?thesis by blast
qed

lemma rules_ok_cong:
  assumes "\<And>i. enabled_rule (R' i) = enabled_rule (R i)" "\<And>i. rnext (R' i) = rnext (R i)" "\<And>i. rprev (R' i) = rprev (R i)"
    "\<And>i. live_rule (R' i) = live_rule (R i)"
  shows "rules_ok n e R' D = rules_ok n e R D"
  unfolding rules_ok_def assms ..

lemma parse_handle:
  assumes inv: "nat_inv_at ver4 ps n e D X t" and h: "0 < unat h" "unat h < 65536"
  shows "ipa_nati_parse_ipv4_rule_hdl t (ucast h) =
    (if unat h < n + e then Some (bit (rule_id_array t ! (unat h - 1)) 0, drop_bit 1 (rule_id_array t ! (unat h - 1))) else Some (False, 0))"
proof -
  have d: "dims t n e" using inv by (simp add: nat_inv_at_def)
  have u: "unat (ucast h :: u16) = unat h" using h(2) by (simp add: unsigned_ucast_eq take_bit_nat_eq_self)
  then have "(ucast h :: u16) \<noteq> 0" using h(1) by (metis less_numeral_extra(3) unsigned_0)
  then show ?thesis using d h u by (auto simp: ipa_nati_parse_ipv4_rule_hdl_def dims_def aget_def IPA_NAT_INVALID_NAT_ENTRY_def)
qed

text \<open>A handle that stands for no rule is refused.\<close>

lemma del_rule_refused:
  assumes inv: "nat_inv_at ver4 ps n e D X t" and h: "0 < unat h" "unat h < 65536" and none: "rule_map t h = None"
  shows "del_rule_from_table K ti h t = Some (- EINVAL, t)"
proof -
  have d: "dims t n e" using inv by (simp add: nat_inv_at_def)
  have "unat h < n + e \<Longrightarrow> rule_id_array t ! (unat h - 1) = 0" using none h(1) by (auto simp: rule_map_iff [OF d] split: if_splits)
  then show ?thesis by (simp add: del_rule_from_table_def parse_handle [OF inv h] IPA_NAT_INVALID_NAT_ENTRY_def)
qed

text \<open>A handle that stands for a rule: the table without that rule.\<close>

lemma del_rule_result:
  assumes inv: "nat_inv_at ver4 ps n e D X t" and K: "dma_works K" and h: "0 < unat h" "unat h < n + e" "rule_id_array t ! (unat h - 1) \<noteq> 0"
  defines "i \<equiv> id_entry n (rule_id_array t ! (unat h - 1))"
  defines "R \<equiv> rule_at (mem t)" and "I \<equiv> index_at (mem t)" and "M \<equiv> index_expn_table_meta t"
  defines "jw \<equiv> indexw (R i)"
  shows "\<exists>m'. del_rule_from_table K ti h t =
      Some (0, t\<lparr>mem := m', index_expn_table_meta := meta_removed n I M jw, rule_id_array := (rule_id_array t)[unat h - 1 := 0]\<rparr>) \<and>
    shape n e m' \<and> rule_at m' = swept n (reindexed n I jw (rule_removed n R i)) \<and> index_at m' = index_removed n I M (unat jw)"
proof -
  note V = inv [unfolded nat_inv_at_def]
  have d: "dims t n e" using V by simp
  let ?v = "rule_id_array t ! (unat h - 1)"
  have hk: "unat h - 1 < n + e" using h by simp
  then have iv: "i < n + e" "live_rule (R i)" "bit ?v 0 \<or> i < n" using V h(3) unfolding ids_ok_def i_def R_def by blast+
  have loc: "bit ?v 0 = (n \<le> i)" "unat (drop_bit 1 ?v) = (if n \<le> i then i - n else i)" using iv(3) by (auto simp: i_def id_entry_def)
  have i0: "drop_bit 1 ?v \<noteq> 0"
  proof
    assume "drop_bit 1 ?v = 0"
    then have "i = 0 \<or> i = n" by (simp add: i_def id_entry_def)
    then show False using rules_ok_live_range [of n e R D i] V iv d by (auto simp: R_def dims_def)
  qed
  have h16: "unat h < 65536" using h d by (auto simp: dims_def)
  have parse: "ipa_nati_parse_ipv4_rule_hdl t (ucast h) = Some (n \<le> i, drop_bit 1 ?v)"
    using parse_handle [OF inv h(1) h16] h loc by simp
  have pos: "ipa_nati_find_rule_pos t (n \<le> i) (drop_bit 1 ?v) = Some (rpos n i (R i))"
    using find_rule_pos_eq [OF dims_shape [OF d] iv(1) loc(2)] by (simp add: R_def)
  from post_del_result [OF inv K iv(1) _ loc(2), of ti] iv(2) obtain m1 where
    m1: "ipa_nati_post_del_dma_cmd K ti (drop_bit 1 ?v) (n \<le> i) (rpos n i (R i)) t =
      Some (0, t\<lparr>mem := m1, index_expn_table_meta := meta_removed n I M jw\<rparr>)"
    "shape n e m1" "rule_at m1 = reindexed n I jw (rule_removed n R i)" "index_at m1 = index_removed n I M (unat jw)"
    unfolding R_def [symmetric] I_def [symmetric] M_def [symmetric] jw_def [symmetric] by blast
  let ?t1 = "t\<lparr>mem := m1, index_expn_table_meta := meta_removed n I M jw\<rparr>"
  have lm: "length (meta_removed n I M jw) = e" using d by (simp add: meta_removed_def Let_def M_def dims_def)
  have d1: "dims ?t1 n e" using d m1(2) lm by (simp add: dims_def)
  from sweep_result [OF d1] obtain m2 where m2: "ipa_nati_del_dead_ipv4_head_nodes ?t1 = Some (?t1\<lparr>mem := m2\<rparr>)" "shape n e m2"
    "rule_at m2 = swept n (rule_at m1)" "index_at m2 = index_at m1" by auto
  have "del_rule_from_table K ti h t = Some (0, ?t1\<lparr>mem := m2, rule_id_array := (rule_id_array t)[unat h - 1 := 0]\<rparr>)"
    using parse pos m1(1) m2(1) i0 K d hk
    by (simp add: del_rule_from_table_def IPA_NAT_INVALID_NAT_ENTRY_def dma_works_def dims_def aset_def)
  then show ?thesis using m1 m2 by (intro exI [of _ m2]) simp
qed


text \<open>The rules after deleting rule \<open>i\<close> with index entry \<open>jw\<close>, whose index table becomes \<open>index_removed n I M (unat jw)\<close>.\<close>

definition rules_after :: "nat \<Rightarrow> (nat \<Rightarrow> u32) \<Rightarrow> u16 \<Rightarrow> (nat \<Rightarrow> ipa_nat_rule) \<Rightarrow> nat \<Rightarrow> nat \<Rightarrow> ipa_nat_rule" where
  "rules_after n I jw R i = swept n (reindexed n I jw (rule_removed n R i))"

lemma rules_after_simps:
  fixes n I jw R i
  defines "S \<equiv> swept n (rule_removed n R i)" and "y \<equiv> freed n I (unat jw)"
  shows "enabled_rule (rules_after n I jw R i k) = enabled_rule (S k)" "rnext (rules_after n I jw R i k) = rnext (S k)"
    "rprev (rules_after n I jw R i k) = rprev (S k)" "live_rule (rules_after n I jw R i k) = live_rule (S k)"
    "client_rule (rules_after n I jw R i k) = client_rule (S k)"
    "live_rule (S k) \<Longrightarrow> rindex (rules_after n I jw R i k) = (if y \<noteq> unat jw \<and> k = xentry (I y) then unat jw else rindex (S k))"
  unfolding rules_after_def S_def by (auto simp: reindexed_def Let_def y_def [symmetric] swept_def)

lemma rules_after_ok:
  assumes ok: "rules_ok n e R D" and i: "i < n + e" "live_rule (R i)" and n: "0 < n" "0 < e"
  shows "\<exists>D'. rules_ok n e (rules_after n I jw R i) D' \<and> (\<forall>b. set (D b) - {i} \<subseteq> set (D' b))"
  using rule_removed_ok [OF ok i n] rules_ok_cong [of "rules_after n I jw R i" "swept n (rule_removed n R i)"]
  by (auto simp: rules_after_simps)

lemma rules_after_live:
  assumes ok: "rules_ok n e R D" and i: "i < n + e" "live_rule (R i)" and k: "k < n + e"
  shows "live_rule (rules_after n I jw R i k) = (live_rule (R k) \<and> k \<noteq> i)"
  using rule_removed_live(1) [OF ok i k] by (simp add: rules_after_simps swept_live)

lemma rules_after_kept:
  assumes ok: "rules_ok n e R D" and i: "i < n + e" "live_rule (R i)" "rindex (R i) = unat jw" and L: "links_ok n e R I"
    and y: "freed n I (unat jw) < n + e" "xentry (I (freed n I (unat jw))) \<noteq> 0"
    and k: "k < n + e" "live_rule (rules_after n I jw R i k)"
  shows "client_rule (rules_after n I jw R i k) = client_rule (R k)"
    and "rindex (rules_after n I jw R i k) = (if rindex (R k) = freed n I (unat jw) then unat jw else rindex (R k))"
proof -
  let ?y = "freed n I (unat jw)" and ?S = "swept n (rule_removed n R i)"
  have lk: "live_rule (R k)" "k \<noteq> i" "live_rule (rule_removed n R i k)"
    using rules_after_live [OF ok i(1,2) k(1)] k rule_removed_live(1) [OF ok i(1,2) k(1)] by auto
  then have S: "?S k = rule_removed n R i k" using swept_live(2) by blast
  note kr = rule_removed_live(2) [OF ok i(1,2) k(1) lk(2)]
  show "client_rule (rules_after n I jw R i k) = client_rule (R k)" using S kr by (simp add: rules_after_simps)
  have kl: "rindex (R k) < n + e" "xentry (I (rindex (R k))) = k" using L k(1) lk(1) unfolding links_ok_def by auto
  have ky: "k = xentry (I ?y) \<longleftrightarrow> rindex (R k) = ?y" using L y kl unfolding links_ok_def by metis
  have "?y = unat jw \<Longrightarrow> rindex (R k) \<noteq> ?y" using kl(2) L i lk(2) unfolding links_ok_def by metis
  then show "rindex (rules_after n I jw R i k) = (if rindex (R k) = ?y then unat jw else rindex (R k))"
    using rules_after_simps(6) [of n R i k I jw] lk(3) S kr ky by auto
qed

lemma deleted_at:
  assumes inv: "nat_inv_at ver4 ps n e D X t" and h: "0 < unat h" "unat h < n + e" "rule_id_array t ! (unat h - 1) \<noteq> 0"
  defines "i \<equiv> id_entry n (rule_id_array t ! (unat h - 1))"
  defines "jw \<equiv> indexw (rule_at (mem t) i)"
  shows "i < n + e" "live_rule (rule_at (mem t) i)" "rindex (rule_at (mem t) i) = unat jw" "unat jw < n + e"
    "xentry (index_at (mem t) (unat jw)) \<noteq> 0"
proof -
  note V = inv [unfolded nat_inv_at_def]
  have "unat h - 1 < n + e" using h by simp
  then show iv: "i < n + e" "live_rule (rule_at (mem t) i)" using V h(3) unfolding ids_ok_def i_def by blast+
  show "rindex (rule_at (mem t) i) = unat jw" by (simp add: jw_def readers_unat)
  have "i \<noteq> 0" using rules_ok_live_range [of n e "rule_at (mem t)" D i] V iv by (auto simp: dims_def)
  then show "unat jw < n + e" "xentry (index_at (mem t) (unat jw)) \<noteq> 0"
    using V iv unfolding links_ok_def jw_def readers_unat by auto
qed

lemma deleted_inv:
  assumes inv: "nat_inv_at ver4 ps n e D X t" and h: "0 < unat h" "unat h < n + e" "rule_id_array t ! (unat h - 1) \<noteq> 0"
  defines "i \<equiv> id_entry n (rule_id_array t ! (unat h - 1))"
  defines "R \<equiv> rule_at (mem t)" and "I \<equiv> index_at (mem t)" and "M \<equiv> index_expn_table_meta t"
  defines "jw \<equiv> indexw (R i)"
  assumes m': "shape n e m'" "rule_at m' = rules_after n I jw R i" "index_at m' = index_removed n I M (unat jw)"
  shows "nat_inv ver4 ps
    (t\<lparr>mem := m', index_expn_table_meta := meta_removed n I M jw, rule_id_array := (rule_id_array t)[unat h - 1 := 0]\<rparr>)"
    (is "nat_inv ver4 ps ?t")
proof -
  note V = inv [unfolded nat_inv_at_def]
  have d: "dims t n e" using V by simp
  have nz: "0 < n" "0 < e" using d by (auto simp: dims_def)
  have ok: "rules_ok n e R D" "links_ok n e R I" "index_ok n e I M X" using V by (auto simp: R_def I_def M_def)
  have len: "length M = e" "length (rule_id_array t) = n + e" using d by (auto simp: M_def dims_def)
  have iv: "i < n + e" "live_rule (R i)" "rindex (R i) = unat jw" and j: "unat jw < n + e" "xentry (I (unat jw)) \<noteq> 0"
    using deleted_at [OF inv h] by (simp_all add: R_def I_def jw_def i_def)
  define y where "y = freed n I (unat jw)"
  note F = index_removed_ok [OF ok(3) refl j len(1) nz, folded y_def]
  obtain X' where X': "index_ok n e (index_at m') (meta_removed n I M jw) X'" "\<forall>b. set (X b) - {y} \<subseteq> set (X' b)" using F(1) m'(3) by auto
  obtain D' where D': "rules_ok n e (rule_at m') D'" "\<forall>b. set (D b) - {i} \<subseteq> set (D' b)"
    using rules_after_ok [OF ok(1) iv(1,2) nz] m'(2) by metis
  note live = rules_after_live [OF ok(1) iv(1,2), of _ I jw, folded m'(2)]
  note kept = rules_after_kept [OF ok(1) iv ok(2), folded y_def m'(2), OF F(2,3)]
  have L: "links_ok n e (rule_at m') (index_at m')"
    by (rule links_del [OF ok(2) iv F(2,3)]) (use live kept F(5) m'(3) in auto)
  have P: "place_ok (dst_slot ver4 ps (table_entries t)) (src_slot (table_entries t)) n e (rule_at m') (index_at m') D' X'"
  proof (rule place_del [OF _ ok(2) iv, where y = y])
    show "place_ok (dst_slot ver4 ps (table_entries t)) (src_slot (table_entries t)) n e R I D X" using V by (simp add: R_def I_def)
    have "\<not> (\<exists>c. src_slot (table_entries t) c = y)" if "n < y" using src_slot_range [OF d] that by (metis less_asym)
    then show "y = unat jw \<or> y \<in> set (X (unat jw)) \<and> (\<forall>b. y \<in> set (X b) \<longrightarrow> b = unat jw) \<and> \<not> (\<exists>c. src_slot (table_entries t) c = y)"
      using F(4) by blast
  qed (use live kept D'(2) X'(2) in auto)
  have hk: "unat h - 1 < n + e" using h by simp
  have ids: "ids_ok n e (rule_at m') ((rule_id_array t)[unat h - 1 := 0])"
    using V live by (intro ids_del [of n e R]) (use hk h len in \<open>auto simp: R_def i_def\<close>)
  have dt: "dims ?t n e" using d m'(1) len by (simp add: dims_def meta_removed_def Let_def)
  have last: "(rule_id_array t)[unat h - 1 := 0] ! (n + e - 1) = 0" using V len hk by (cases "unat h - 1 = n + e - 1") auto
  have "nat_inv_at ver4 ps n e D' X' ?t" using V dt D'(1) X'(1) L P ids last by (simp add: nat_inv_at_def)
  then show ?thesis unfolding nat_inv_def by blast
qed

lemma rule_map_deleted:
  assumes inv: "nat_inv_at ver4 ps n e D X t" and h: "0 < unat h" "unat h < n + e" "rule_id_array t ! (unat h - 1) \<noteq> 0"
    and t': "dims t' n e" "rule_id_array t' = (rule_id_array t)[unat h - 1 := 0]"
    and same: "\<And>k. k < n + e \<Longrightarrow> live_rule (rule_at (mem t) k) \<Longrightarrow> k \<noteq> id_entry n (rule_id_array t ! (unat h - 1)) \<Longrightarrow>
      client_rule (rule_at (mem t') k) = client_rule (rule_at (mem t) k)"
  shows "rule_map t' = (rule_map t)(h := None)"
proof
  note V = inv [unfolded nat_inv_at_def]
  have d: "dims t n e" using V by simp
  have len: "length (rule_id_array t) = n + e" using d by (simp add: dims_def)
  fix g :: u32
  show "rule_map t' g = ((rule_map t)(h := None)) g"
  proof (cases "g = h")
    case True
    then show ?thesis using h len by (simp add: rule_map_iff [OF t'(1)] t'(2))
  next
    case False
    then have ne: "unat g \<noteq> unat h" by (metis unsigned_word_eqI)
    have id: "rule_id_array t' ! (unat g - 1) = rule_id_array t ! (unat g - 1)" if "0 < unat g"
      using that ne h(1) t'(2) by (metis One_nat_def Suc_pred nth_list_update_neq)
    have "client_rule (rule_at (mem t') (id_entry n (rule_id_array t ! (unat g - 1)))) =
        client_rule (rule_at (mem t) (id_entry n (rule_id_array t ! (unat g - 1))))"
      if g: "0 < unat g" "unat g < n + e" "rule_id_array t ! (unat g - 1) \<noteq> 0"
    proof -
      have "unat g - 1 < n + e" "unat h - 1 < n + e" "unat g - 1 \<noteq> unat h - 1" using g ne h by auto
      then show ?thesis using V g(3) h(3) same unfolding ids_ok_def by metis
    qed
    with id False show ?thesis
      by (cases "0 < unat g") (simp_all add: rule_map_iff [OF t'(1)] rule_map_iff [OF d] del: One_nat_def)
  qed
qed

lemma del_rule_ok:
  assumes inv: "nat_inv_at ver4 ps n e D X t" and K: "dma_works K" and h: "0 < unat h" "unat h < n + e" "rule_id_array t ! (unat h - 1) \<noteq> 0"
  shows "\<exists>t'. del_rule_from_table K ti h t = Some (0, t') \<and> nat_inv ver4 ps t' \<and> rule_map t' = (rule_map t)(h := None) \<and>
    table_entries t' = table_entries t \<and> expn_table_entries t' = expn_table_entries t"
proof -
  note V = inv [unfolded nat_inv_at_def]
  have d: "dims t n e" using V by simp
  let ?i = "id_entry n (rule_id_array t ! (unat h - 1))"
  let ?R = "rule_at (mem t)" and ?I = "index_at (mem t)" and ?M = "index_expn_table_meta t"
  let ?jw = "indexw (?R ?i)"
  note A = deleted_at [OF inv h]
  have len: "length ?M = e" "0 < n" "0 < e" using d by (auto simp: dims_def)
  obtain m' where del: "del_rule_from_table K ti h t = Some (0, t\<lparr>mem := m', index_expn_table_meta := meta_removed n ?I ?M ?jw,
      rule_id_array := (rule_id_array t)[unat h - 1 := 0]\<rparr>)" (is "_ = Some (0, ?t)")
    and m': "shape n e m'" "rule_at m' = rules_after n ?I ?jw ?R ?i" "index_at m' = index_removed n ?I ?M (unat ?jw)"
    using del_rule_result [OF inv K h, of ti] unfolding rules_after_def by blast
  have "index_ok n e ?I ?M X" using V by simp
  note F = index_removed_ok(2,3) [OF this refl A(4,5) len]
  have "rule_map ?t = (rule_map t)(h := None)"
  proof (rule rule_map_deleted [OF inv h])
    show "dims ?t n e" using d m'(1) len by (simp add: dims_def meta_removed_def Let_def)
    show "client_rule (rule_at (mem ?t) k) = client_rule (?R k)" if "k < n + e" "live_rule (?R k)" "k \<noteq> ?i" for k
      using rules_after_kept(1) [of n e ?R D ?i ?jw ?I k] rules_after_live [of n e ?R D ?i k ?I ?jw] V A F that m'(2) by simp
  qed simp
  then show ?thesis using del deleted_inv [OF inv h m'] by (intro exI [of _ ?t]) simp
qed

end
