(* ===== verification/NatDriver.thy ===== *)
theory NatDriver
  imports NatDelRule
begin

text \<open>
  The NAT library as its clients see it (\<open>ipanat/src/ipa_nat_drv.c\<close> and the entry points of \<open>ipa_nat_drvi.c\<close>): creating and deleting the table,
  adding, deleting and querying rules by handle, and the PDN table. The state is \<open>ipv4_nat_cache\<close> with the array \<open>pdns\<close>.
\<close>

section \<open>Creating the table\<close>

text \<open>What the system does while a table is created: opening \<open>/dev/ipa\<close> (when there is no descriptor yet), the version and memory requests, the two
  allocations, opening and mapping the NAT device, and the initialisation request.\<close>

record ipa_ioc_v4_nat_init =
  init_tbl_index :: u8
  ipv4_rules_offset :: u32
  expn_rules_offset :: u32
  index_offset :: u32
  index_expn_offset :: u32
  init_table_entries :: u16
  init_expn_table_entries :: u16
  init_ip_addr :: u32

record table_env =
  ipa_open_ok :: bool
  ver_ret :: int
  ver_is_v4 :: bool
  alloc_ret :: int
  alloc_offset :: u32
  meta_malloc_ok :: bool
  ids_malloc_ok :: bool
  nat_open_ok :: bool
  mmap_mem :: "nat_mem option"
  init_ioctl :: "ipa_ioc_v4_nat_init \<Rightarrow> int"

text \<open>\<open>GetIPAVer\<close>, \<open>CreateNatDevice\<close> and \<open>ipa_nati_alloc_table\<close>: the return value, the sizes with the bytes of memory, and the cache
  (whose version is known afterwards).\<close>

definition GetIPAVer :: "table_env \<Rightarrow> nat_cache \<Rightarrow> int \<times> nat_cache" where
  "GetIPAVer E c = (let c = c\<lparr>v4 := ver_is_v4 E\<rparr> in if ver_ret E \<noteq> 0 then (- EINVAL, c) else (0, c))"

definition CreateNatDevice :: "table_env \<Rightarrow> int" where
  "CreateNatDevice E = (if alloc_ret E \<noteq> 0 then - EINVAL else 0)"

definition ipa_nati_alloc_table :: "table_env \<Rightarrow> u16 \<Rightarrow> nat_cache \<Rightarrow> int \<times> (u16 \<times> u16 \<times> nat) \<times> nat_cache" where
  "ipa_nati_alloc_table E number_of_entries c =
     (case alloc_sizes number_of_entries of
        None \<Rightarrow> (- EINVAL, (0, 0, 0), c)
      | Some sizes \<Rightarrow>
          if \<not> ipa_open_ok E then (- EIO, sizes, c)
          else let (ret, c) = GetIPAVer E c
               in if ret \<noteq> 0 then (- EIO, sizes, c) else (CreateNatDevice E, sizes, c))"

definition set_table :: "nat \<Rightarrow> ip4_table \<Rightarrow> nat_cache \<Rightarrow> nat_cache" where
  "set_table i t c = c\<lparr>ip4_tbl := (ip4_tbl c)[i := t]\<rparr>"

text \<open>A failed allocation is reported as success.\<close>

definition ipa_nati_update_cache :: "table_env \<Rightarrow> nat \<Rightarrow> u32 \<Rightarrow> u16 \<Rightarrow> u16 \<Rightarrow> nat_cache \<Rightarrow> (int \<times> nat_cache) option" where
  "ipa_nati_update_cache E bytes pub_ip tbl_entries expn_tbl_entries c =
     do { let index = unat (table_cnt c);
          t \<leftarrow> aget (ip4_tbl c) index;
          let t = t\<lparr>valid := True, public_addr := pub_ip, size := of_nat bytes, tbl_addr_offset := alloc_offset E,
                    table_entries := tbl_entries, expn_table_entries := expn_tbl_entries\<rparr>;
          let need_meta = (index_expn_table_meta t = []);
          if need_meta \<and> \<not> meta_malloc_ok E then Some (0, set_table index t c)
          else do {
            let t = (if need_meta then t\<lparr>index_expn_table_meta := replicate (unat expn_tbl_entries) 0\<rparr> else t);
            let need_ids = (rule_id_array t = []);
            if need_ids \<and> \<not> ids_malloc_ok E then Some (0, set_table index t c)
            else do {
              let t = (if need_ids then t\<lparr>rule_id_array := replicate (unat tbl_entries + unat expn_tbl_entries) 0\<rparr> else t);
              if \<not> nat_open_ok E then Some (- EIO, set_table index t c)
              else (case mmap_mem E of
                      None \<Rightarrow> Some (- EINVAL, set_table index t c)
                    | Some m \<Rightarrow> Some (0, set_table index (t\<lparr>mapped := True, mem := m\<rparr>) c)) } } }"

text \<open>The four \<open>memset\<close> calls.\<close>

definition ipa_nati_reset_tbl :: "ip4_table \<Rightarrow> ip4_table option" where
  "ipa_nati_reset_tbl t =
     (let n = unat (table_entries t); e = unat (expn_table_entries t); m = mem t
      in if \<not> mapped t \<or> length (rules m) < n \<or> length (expn_rules m) < e \<or> length (index_table m) < n \<or> length (index_expn m) < e then None
         else Some (t\<lparr>mem := \<lparr>rules = replicate n zero_rule @ drop n (rules m), expn_rules = replicate e zero_rule @ drop e (expn_rules m),
                index_table = replicate n 0 @ drop n (index_table m), index_expn = replicate e 0 @ drop e (index_expn m)\<rparr>\<rparr>))"

definition ipa_nati_post_ipv4_init_cmd :: "table_env \<Rightarrow> u8 \<Rightarrow> ip4_table \<Rightarrow> int" where
  "ipa_nati_post_ipv4_init_cmd E tbl_index t =
     (let rules_off = tbl_addr_offset t;
          expn_off = rules_off + ucast (table_entries t) * IPA_NAT_TABLE_ENTRY_SIZE;
          index_off = expn_off + ucast (expn_table_entries t) * IPA_NAT_TABLE_ENTRY_SIZE;
          index_expn_off = index_off + ucast (table_entries t) * IPA_NAT_INDEX_TABLE_ENTRY_SIZE;
          ret = init_ioctl E \<lparr>init_tbl_index = tbl_index, ipv4_rules_offset = rules_off, expn_rules_offset = expn_off,
            index_offset = index_off, index_expn_offset = index_expn_off, init_table_entries = table_entries t - 1,
            init_expn_table_entries = expn_table_entries t, init_ip_addr = public_addr t\<rparr>
      in if ret \<noteq> 0 then - EINVAL else 0)"

text \<open>Result: the return value, \<open>*tbl_hdl\<close> and the cache.\<close>

definition ipa_nati_add_ipv4_tbl :: "table_env \<Rightarrow> u32 \<Rightarrow> u16 \<Rightarrow> nat_cache \<Rightarrow> (int \<times> u32 \<times> nat_cache) option" where
  "ipa_nati_add_ipv4_tbl E pub_ip number_of_entries c =
     do { let tbl_indx = table_cnt c;
          let (ret, (tbl_entries, expn_tbl_entries, bytes), c) = ipa_nati_alloc_table E number_of_entries c;
          if ret \<noteq> 0 then Some (- ENOMEM, 0, c)
          else do {
            (ret, c) \<leftarrow> ipa_nati_update_cache E bytes pub_ip tbl_entries expn_tbl_entries c;
            if ret \<noteq> 0 then Some (- EINVAL, 0, c)
            else do {
              t \<leftarrow> aget (ip4_tbl c) (unat tbl_indx);
              t \<leftarrow> ipa_nati_reset_tbl t;
              let c = set_table (unat tbl_indx) t c;
              if ipa_nati_post_ipv4_init_cmd E tbl_indx t \<noteq> 0 then Some (- EINVAL, 0, c)
              else do {
                pdn \<leftarrow> aget (pdns c) 0;
                let c = c\<lparr>pdns := (pdns c)[0 := pdn\<lparr>pdn_public_ip := pub_ip\<rparr>], table_cnt := table_cnt c + 1\<rparr>;
                Some (0, ucast (table_cnt c), c) } } } }"

section \<open>Deleting the table\<close>

record del_env =
  close_ok :: bool
  del_ioctl_ret :: int

text \<open>\<open>munmap\<close> takes the memory away before the steps that can fail.\<close>

definition ipa_nati_del_ipv4_table :: "kern \<Rightarrow> del_env \<Rightarrow> u32 \<Rightarrow> nat_cache \<Rightarrow> (int \<times> nat_cache) option" where
  "ipa_nati_del_ipv4_table K E tbl_hdl c =
     do { let index = unat (ucast (tbl_hdl - 1) :: u8);
          t \<leftarrow> aget (ip4_tbl c) index;
          if \<not> valid t then Some (- EINVAL, c)
          else if \<not> lock_ok K then Some (- 1, c)
          else do {
            let t = t\<lparr>mem := \<lparr>rules = [], expn_rules = [], index_table = [], index_expn = []\<rparr>\<rparr>;
            if \<not> close_ok E then Some (- EINVAL, set_table index t c)
            else if del_ioctl_ret E \<noteq> 0 then Some (- EINVAL, set_table index t c)
            else Some (if \<not> unlock_ok K then - 1 else 0, (set_table index zero_table c)\<lparr>table_cnt := table_cnt c - 1\<rparr>) } }"

section \<open>Rules and PDNs\<close>

definition ipa_nati_add_ipv4_rule :: "kern \<Rightarrow> u32 \<Rightarrow> ipa_nat_ipv4_rule \<Rightarrow> u32 \<Rightarrow> nat_cache \<Rightarrow> (int \<times> u32 \<times> nat_cache) option" where
  "ipa_nati_add_ipv4_rule K tbl_hdl clnt_rule hdl c =
     do { pdn \<leftarrow> aget (pdns c) (unat (r_pdn_index clnt_rule));
          if pdn_public_ip pdn = 0 then Some (- EINVAL, hdl, c)
          else do {
            t \<leftarrow> aget (ip4_tbl c) (unat (tbl_hdl - 1));
            (ret, hdl, t) \<leftarrow> add_rule_to_table K (v4 c) (pdns c) (ucast (tbl_hdl - 1)) clnt_rule hdl t;
            Some (ret, hdl, set_table (unat (tbl_hdl - 1)) t c) } }"

definition ipa_nati_del_ipv4_rule :: "kern \<Rightarrow> u32 \<Rightarrow> u32 \<Rightarrow> nat_cache \<Rightarrow> (int \<times> nat_cache) option" where
  "ipa_nati_del_ipv4_rule K tbl_hdl hdl c =
     do { let tbl_indx = (ucast (tbl_hdl - 1) :: u8);
          t \<leftarrow> aget (ip4_tbl c) (unat tbl_indx);
          (ret, t) \<leftarrow> del_rule_from_table K tbl_indx hdl t;
          Some (ret, set_table (unat tbl_indx) t c) }"

definition ipa_nati_query_timestamp :: "kern \<Rightarrow> u32 \<Rightarrow> u32 \<Rightarrow> u32 \<Rightarrow> nat_cache \<Rightarrow> (int \<times> u32) option" where
  "ipa_nati_query_timestamp K tbl_hdl hdl time_stamp c =
     do { t \<leftarrow> aget (ip4_tbl c) (unat (ucast (tbl_hdl - 1) :: u8)); query_table K hdl time_stamp t }"

text \<open>\<open>ret\<close>: what the \<open>IPA_IOC_NAT_MODIFY_PDN\<close> request returns.\<close>

definition ipa_nati_modify_pdn :: "int \<Rightarrow> u8 \<Rightarrow> ipa_nat_pdn_entry \<Rightarrow> nat_cache \<Rightarrow> (int \<times> nat_cache) option" where
  "ipa_nati_modify_pdn ret pdn_index entry c =
     (if ret \<noteq> 0 then Some (- EIO, c)
      else do { ps \<leftarrow> aset (pdns c) (unat pdn_index) entry; Some (0, c\<lparr>pdns := ps\<rparr>) })"

section \<open>The interface\<close>

definition IPA_NAT_MAX_IP4_TBLS :: u32 where "IPA_NAT_MAX_IP4_TBLS = 1"

definition ipa_nat_add_ipv4_tbl :: "table_env \<Rightarrow> u32 \<Rightarrow> u16 \<Rightarrow> u32 \<Rightarrow> nat_cache \<Rightarrow> (int \<times> u32 \<times> nat_cache) option" where
  "ipa_nat_add_ipv4_tbl E pub_ip number_of_entries tbl_hdl c =
     (if 0 = number_of_entries then Some (- EINVAL, tbl_hdl, c)
      else do { (ret, tbl_hdl, c) \<leftarrow> ipa_nati_add_ipv4_tbl E pub_ip number_of_entries c;
                Some (if ret \<noteq> 0 then - EINVAL else ret, tbl_hdl, c) })"

definition ipa_nat_del_ipv4_tbl :: "kern \<Rightarrow> del_env \<Rightarrow> u32 \<Rightarrow> nat_cache \<Rightarrow> (int \<times> nat_cache) option" where
  "ipa_nat_del_ipv4_tbl K E tbl_hdl c =
     (if 0 = tbl_hdl \<or> tbl_hdl > IPA_NAT_MAX_IP4_TBLS then Some (- EINVAL, c) else ipa_nati_del_ipv4_table K E tbl_hdl c)"

definition ipa_nat_add_ipv4_rule :: "kern \<Rightarrow> u32 \<Rightarrow> ipa_nat_ipv4_rule \<Rightarrow> u32 \<Rightarrow> nat_cache \<Rightarrow> (int \<times> u32 \<times> nat_cache) option" where
  "ipa_nat_add_ipv4_rule K tbl_hdl clnt_rule hdl c =
     (if 0 = tbl_hdl \<or> tbl_hdl > IPA_NAT_MAX_IP4_TBLS then Some (- EINVAL, hdl, c)
      else do { (ret, hdl, c) \<leftarrow> ipa_nati_add_ipv4_rule K tbl_hdl clnt_rule hdl c;
                Some (if ret \<noteq> 0 then - EINVAL else 0, hdl, c) })"

definition ipa_nat_del_ipv4_rule :: "kern \<Rightarrow> u32 \<Rightarrow> u32 \<Rightarrow> nat_cache \<Rightarrow> (int \<times> nat_cache) option" where
  "ipa_nat_del_ipv4_rule K tbl_hdl hdl c =
     (if 0 = tbl_hdl \<or> 0 = hdl then Some (- EINVAL, c) else ipa_nati_del_ipv4_rule K tbl_hdl hdl c)"

definition ipa_nat_query_timestamp :: "kern \<Rightarrow> u32 \<Rightarrow> u32 \<Rightarrow> u32 \<Rightarrow> nat_cache \<Rightarrow> (int \<times> u32) option" where
  "ipa_nat_query_timestamp K tbl_hdl hdl time_stamp c =
     (if 0 = tbl_hdl \<or> tbl_hdl > IPA_NAT_MAX_IP4_TBLS then Some (- EINVAL, time_stamp)
      else ipa_nati_query_timestamp K tbl_hdl hdl time_stamp c)"

definition ipa_nat_modify_pdn :: "int \<Rightarrow> u32 \<Rightarrow> u8 \<Rightarrow> ipa_nat_pdn_entry option \<Rightarrow> nat_cache \<Rightarrow> (int \<times> nat_cache) option" where
  "ipa_nat_modify_pdn ret tbl_hdl pdn_index pdn_info c =
     (if 0 = tbl_hdl \<or> tbl_hdl > IPA_NAT_MAX_IP4_TBLS then Some (- EINVAL, c)
      else case pdn_info of
             None \<Rightarrow> Some (- EINVAL, c)
           | Some entry \<Rightarrow>
               if unat pdn_index > length (pdns c) then Some (- EINVAL, c)
               else ipa_nati_modify_pdn ret pdn_index entry c)"

end
