(* ===== verification/NatContract.thy ===== *)
theory NatContract
  imports NatDriver
begin

text \<open>
  What the NAT library promises. The cache stands for a map from rule handles to client rules: adding and deleting rules are updates of that map, no call
  faults, and the hardware finds every rule of the map by following the chains from its two hash values.
\<close>

section \<open>The state of the library\<close>

definition drv_inv :: "nat_cache \<Rightarrow> bool" where
  "drv_inv c \<longleftrightarrow> (\<exists>t. ip4_tbl c = [t] \<and> nat_inv (v4 c) (pdns c) t)"

definition table_rules :: "nat_cache \<Rightarrow> u32 \<rightharpoonup> ipa_nat_ipv4_rule" where
  "table_rules c = (case ip4_tbl c of [t] \<Rightarrow> rule_map t | _ \<Rightarrow> Map.empty)"

text \<open>One of the two expansion tables has no free entry.\<close>

definition cache_full :: "nat_cache \<Rightarrow> bool" where
  "cache_full c \<longleftrightarrow> (\<exists>t. ip4_tbl c = [t] \<and> table_full (unat (table_entries t)) (unat (expn_table_entries t)) t)"

text \<open>A client rule that the library is meant for: its PDN index is an index of \<open>pdns\<close>, and its protocol is not the mark of a dead head.\<close>

definition rule_ok :: "nat_cache \<Rightarrow> ipa_nat_ipv4_rule \<Rightarrow> bool" where
  "rule_ok c r \<longleftrightarrow> unat (r_pdn_index r) < length (pdns c) \<and> r_protocol r \<noteq> 255"

definition pdn_up :: "nat_cache \<Rightarrow> ipa_nat_ipv4_rule \<Rightarrow> bool" where
  "pdn_up c r \<longleftrightarrow> pdn_public_ip (pdns c ! unat (r_pdn_index r)) \<noteq> 0"

lemma nat_inv_dims: "nat_inv_at ver4 ps n e D X t \<Longrightarrow> unat (table_entries t) = n \<and> unat (expn_table_entries t) = e"
  by (simp add: nat_inv_at_def dims_def)

lemma added_table_handle: "dims t n e \<Longrightarrow> k + 1 < n + e \<Longrightarrow> (of_nat (k + 1) :: u32) \<noteq> 0"
  using handle_word [of t n e k] by (metis add_is_0 one_neq_zero unsigned_0)

lemma add_outcome:
  assumes inv: "drv_inv c" and K: "dma_works K" and r: "rule_ok c r"
  shows "\<exists>ret h' c'. ipa_nat_add_ipv4_rule K 1 r h c = Some (ret, h', c') \<and> drv_inv c' \<and> pdns c' = pdns c \<and> v4 c' = v4 c \<and>
    (if ret = 0 then pdn_up c r \<and> h' \<noteq> 0 \<and> table_rules c h' = None \<and> table_rules c' = (table_rules c)(h' \<mapsto> r)
     else ret = - EINVAL \<and> c' = c \<and> h' = h \<and> (\<not> pdn_up c r \<or> cache_full c))"
proof -
  from inv obtain t n e D X where t: "ip4_tbl c = [t]" and I: "nat_inv_at (v4 c) (pdns c) n e D X t" by (auto simp: drv_inv_def nat_inv_def)
  have pdn: "aget (pdns c) (unat (r_pdn_index r)) = Some (pdns c ! unat (r_pdn_index r))" using r by (simp add: aget_def rule_ok_def)
  have E: "EINVAL \<noteq> 0" by (simp add: EINVAL_def)
  have tab: "aget (ip4_tbl c) 0 = Some t" "set_table 0 t' c = c\<lparr>ip4_tbl := [t']\<rparr>" for t' by (simp_all add: aget_def set_table_def t)
  have same: "c\<lparr>ip4_tbl := [t]\<rparr> = c" using t by simp
  have c: "unat (r_pdn_index r) < length (pdns c)" "r_protocol r \<noteq> 255" using r by (auto simp: rule_ok_def)
  show ?thesis
  proof (cases "pdn_up c r")
    case False
    then show ?thesis using inv E by (simp add: ipa_nat_add_ipv4_rule_def ipa_nati_add_ipv4_rule_def IPA_NAT_MAX_IP4_TBLS_def pdn pdn_up_def)
  next
    case True
    then have p: "pdn_public_ip (pdns c ! unat (r_pdn_index r)) \<noteq> 0" by (simp add: pdn_up_def)
    have call: "ipa_nat_add_ipv4_rule K 1 r h c = (case add_rule_to_table K (v4 c) (pdns c) 0 r h t of
        None \<Rightarrow> None | Some (ret, h', t') \<Rightarrow> Some (if ret \<noteq> 0 then - EINVAL else 0, h', c\<lparr>ip4_tbl := [t']\<rparr>))"
      by (simp add: ipa_nat_add_ipv4_rule_def ipa_nati_add_ipv4_rule_def IPA_NAT_MAX_IP4_TBLS_def pdn p tab split: option.split)
    from add_rule_result [OF I K c(1) p, of 0 h] show ?thesis
    proof (elim disjE conjE exE)
      assume "add_rule_to_table K (v4 c) (pdns c) 0 r h t = Some (- EINVAL, h, t)" "table_full n e t"
      then have "ipa_nat_add_ipv4_rule K 1 r h c = Some (- EINVAL, h, c)" "cache_full c"
        using call E same t nat_inv_dims [OF I] by (simp_all add: cache_full_def)
      then show ?thesis using inv E by simp
    next
      fix i q j s k
      let ?t = "added_table (pdn_public_ip (pdns c ! unat (r_pdn_index r))) r i q j s k t"
      assume site: "add_site (v4 c) (pdns c) n e D X t r i q j s k"
        and a: "add_rule_to_table K (v4 c) (pdns c) 0 r h t = Some (0, of_nat (k + 1), ?t)"
      have d: "dims t n e" "k + 1 < n + e" using I site by (simp_all add: nat_inv_at_def add_site_def)
      have "drv_inv (c\<lparr>ip4_tbl := [?t]\<rparr>)" using added_inv [OF I site c(2,1)] by (simp add: drv_inv_def)
      moreover have "table_rules c (of_nat (k + 1)) = None"
        "table_rules (c\<lparr>ip4_tbl := [?t]\<rparr>) = (table_rules c)(of_nat (k + 1) \<mapsto> r)"
        using rule_map_added [OF I site c(2,1)] by (simp_all add: table_rules_def t del: of_nat_add)
      moreover have "ipa_nat_add_ipv4_rule K 1 r h c = Some (0, of_nat (k + 1), c\<lparr>ip4_tbl := [?t]\<rparr>)"
        using a call by (simp del: of_nat_add)
      ultimately show ?thesis using True added_table_handle [OF d] by (simp del: of_nat_add)
    qed
  qed
qed

lemma del_outcome:
  assumes inv: "drv_inv c" and K: "dma_works K" and h: "0 < unat h" "unat h < 65536"
  shows "\<exists>ret c'. ipa_nat_del_ipv4_rule K 1 h c = Some (ret, c') \<and> drv_inv c' \<and> pdns c' = pdns c \<and> v4 c' = v4 c \<and>
    (if table_rules c h = None then ret = - EINVAL \<and> c' = c else ret = 0 \<and> table_rules c' = (table_rules c)(h := None))"
proof -
  from inv obtain t n e D X where t: "ip4_tbl c = [t]" and I: "nat_inv_at (v4 c) (pdns c) n e D X t" by (auto simp: drv_inv_def nat_inv_def)
  have tab: "aget (ip4_tbl c) 0 = Some t" "set_table 0 t' c = c\<lparr>ip4_tbl := [t']\<rparr>" for t' by (simp_all add: aget_def set_table_def t)
  have same: "c\<lparr>ip4_tbl := [t]\<rparr> = c" using t by simp
  have h0: "h \<noteq> 0" using h(1) by auto
  have d: "dims t n e" using I by (simp add: nat_inv_at_def)
  have call: "ipa_nat_del_ipv4_rule K 1 h c = (case del_rule_from_table K 0 h t of None \<Rightarrow> None | Some (ret, t') \<Rightarrow> Some (ret, c\<lparr>ip4_tbl := [t']\<rparr>))"
    using h0 by (simp add: ipa_nat_del_ipv4_rule_def ipa_nati_del_ipv4_rule_def tab split: option.split)
  show ?thesis
  proof (cases "rule_map t h")
    case None
    then have "ipa_nat_del_ipv4_rule K 1 h c = Some (- EINVAL, c)" using call del_rule_refused [OF I h] same by simp
    with None inv t show ?thesis by (simp add: table_rules_def)
  next
    case (Some r)
    then have "unat h < n + e" "rule_id_array t ! (unat h - 1) \<noteq> 0" by (auto simp: rule_map_iff [OF d] split: if_splits)
    from del_rule_ok [OF I K h(1) this, of 0] obtain t' where
      "del_rule_from_table K 0 h t = Some (0, t')" "nat_inv (v4 c) (pdns c) t'" "rule_map t' = (rule_map t)(h := None)" by auto
    with Some call t show ?thesis by (simp add: drv_inv_def table_rules_def)
  qed
qed

section \<open>A new table\<close>

text \<open>Everything the library asks of the system while it creates a table of \<open>entries\<close> works, and the mapped memory is as large as was asked for.\<close>

definition env_works :: "table_env \<Rightarrow> u16 \<Rightarrow> bool" where
  "env_works E entries \<longleftrightarrow> ipa_open_ok E \<and> ver_ret E = 0 \<and> alloc_ret E = 0 \<and> alloc_offset E = 0 \<and> meta_malloc_ok E \<and> ids_malloc_ok E \<and>
     nat_open_ok E \<and> (\<forall>cmd. init_ioctl E cmd = 0) \<and>
     (case (mmap_mem E, alloc_sizes entries) of (Some m, Some (te, ee, b)) \<Rightarrow> shape (unat te) (unat ee) m | _ \<Rightarrow> False)"

definition fresh_cache :: "nat_cache \<Rightarrow> bool" where
  "fresh_cache c \<longleftrightarrow> ip4_tbl c = [zero_table] \<and> table_cnt c = 0 \<and> 1 \<le> length (pdns c) \<and> length (pdns c) \<le> 16"

text \<open>Empty tables satisfy the invariant.\<close>

lemma chained_empty: "(\<And>i. i < n + e \<Longrightarrow> \<not> used i) \<Longrightarrow> chained n e used nxt prv (\<lambda>_. [])"
proof -
  assume none: "\<And>i. i < n + e \<Longrightarrow> \<not> used i"
  have "\<not> used b" if "b < n" for b using none [of b] that by simp
  with none show ?thesis unfolding chained_def by simp
qed

lemma empty_inv:
  assumes d: "dims t n e" and ps: "length ps \<le> 16"
    and z: "\<And>i. i < n + e \<Longrightarrow> rule_at (mem t) i = zero_rule" "\<And>i. i < n + e \<Longrightarrow> index_at (mem t) i = 0"
    and ids: "rule_id_array t = replicate (n + e) 0"
  shows "nat_inv ver4 ps t" "rule_map t = Map.empty"
proof -
  have nz: "n + e - 1 < n + e" using d by (auto simp: dims_def)
  have nl: "\<not> live_rule (rule_at (mem t) i)" "\<not> enabled_rule (rule_at (mem t) i)" "xentry (index_at (mem t) i) = 0" if "i < n + e" for i
    using z [OF that] by simp_all
  have "rules_ok n e (rule_at (mem t)) (\<lambda>_. [])" unfolding rules_ok_def using nl by (blast intro: chained_empty)
  moreover have "index_ok n e (index_at (mem t)) (index_expn_table_meta t) (\<lambda>_. [])"
    unfolding index_ok_def using nl(3) by (intro chained_empty) simp
  moreover have "links_ok n e (rule_at (mem t)) (index_at (mem t))" using nl by (simp add: links_ok_def)
  moreover have "place_ok dh sh n e (rule_at (mem t)) (index_at (mem t)) (\<lambda>_. []) (\<lambda>_. [])" for dh sh using nl by (simp add: place_ok_def)
  moreover have "ids_ok n e (rule_at (mem t)) (rule_id_array t)" using nl ids by (simp add: ids_ok_def)
  ultimately have "nat_inv_at ver4 ps n e (\<lambda>_. []) (\<lambda>_. []) t" using d ps ids nz by (simp add: nat_inv_at_def)
  then show "nat_inv ver4 ps t" unfolding nat_inv_def by blast
  show "rule_map t = Map.empty"
  proof
    fix h :: u32
    show "rule_map t h = None" using ids by (cases "unat h < n + e") (auto simp: rule_map_iff [OF d])
  qed
qed

definition new_table :: "u32 \<Rightarrow> nat \<Rightarrow> u16 \<Rightarrow> u16 \<Rightarrow> ip4_table" where
  "new_table ip bytes te ee =
     (let n = unat te; e = unat ee
      in \<lparr>valid = True, public_addr = ip, size = of_nat bytes, tbl_addr_offset = 0, table_entries = te, expn_table_entries = ee, mapped = True,
          mem = \<lparr>rules = replicate n zero_rule, expn_rules = replicate e zero_rule, index_table = replicate n 0, index_expn = replicate e 0\<rparr>,
          index_expn_table_meta = replicate e 0, rule_id_array = replicate (n + e) 0, cur_tbl_cnt = 0, cur_expn_tbl_cnt = 0\<rparr>)"

lemma create_computes:
  assumes c: "fresh_cache c" and E: "env_works E entries" "alloc_sizes entries = Some (te, ee, b)" and e: "entries \<noteq> 0"
  shows "ipa_nat_add_ipv4_tbl E ip entries h c =
    Some (0, 1, c\<lparr>ip4_tbl := [new_table ip b te ee], v4 := ver_is_v4 E, pdns := (pdns c)[0 := (pdns c ! 0)\<lparr>pdn_public_ip := ip\<rparr>], table_cnt := 1\<rparr>)"
proof -
  from E obtain m where m: "mmap_mem E = Some m" "shape (unat te) (unat ee) m" by (auto simp: env_works_def split: option.splits)
  have s: "ipa_open_ok E" "ver_ret E = 0" "alloc_ret E = 0" "alloc_offset E = 0" "meta_malloc_ok E" "ids_malloc_ok E" "nat_open_ok E"
    "\<And>cmd. init_ioctl E cmd = 0" using E by (auto simp: env_works_def)
  have f: "ip4_tbl c = [zero_table]" "table_cnt c = 0" "0 < length (pdns c)" using c by (auto simp: fresh_cache_def)
  have alloc: "ipa_nati_alloc_table E entries c = (0, (te, ee, b), c\<lparr>v4 := ver_is_v4 E\<rparr>)"
    by (simp add: ipa_nati_alloc_table_def E(2) s GetIPAVer_def CreateNatDevice_def Let_def)
  let ?t = "(new_table ip b te ee)\<lparr>mem := m\<rparr>"
  have upd: "ipa_nati_update_cache E b ip te ee (c\<lparr>v4 := ver_is_v4 E\<rparr>) = Some (0, c\<lparr>v4 := ver_is_v4 E, ip4_tbl := [?t]\<rparr>)"
    by (simp add: ipa_nati_update_cache_def aget_def f s m set_table_def zero_table_def new_table_def Let_def)
  have reset: "ipa_nati_reset_tbl ?t = Some (new_table ip b te ee)"
    using m(2) by (simp add: ipa_nati_reset_tbl_def new_table_def Let_def shape_def)
  show ?thesis
    using e f reset
    by (simp add: ipa_nat_add_ipv4_tbl_def ipa_nati_add_ipv4_tbl_def alloc upd aget_def set_table_def ipa_nati_post_ipv4_init_cmd_def s Let_def)
qed

lemma create_outcome:
  assumes c: "fresh_cache c" and E: "env_works E entries" and e: "entries \<noteq> 0" "unat entries \<le> 20480"
  shows "\<exists>c'. ipa_nat_add_ipv4_tbl E ip entries h c = Some (0, 1, c') \<and> drv_inv c' \<and> table_rules c' = Map.empty \<and>
    pdns c' = (pdns c)[0 := (pdns c ! 0)\<lparr>pdn_public_ip := ip\<rparr>]"
proof -
  have "unat entries * 4 div 5 \<le> 2 ^ 14" using e(2) by auto
  from alloc_sizes_upto [OF this] obtain te ee K where
    a: "alloc_sizes entries = Some (te, ee, 36 * (unat te + unat ee))" "unat te = 2 ^ K" "1 \<le> K" "K \<le> 14" "2 \<le> unat ee"
      "unat ee \<le> max 2 (unat entries div 5 + 1)" by auto
  have "(2::nat) ^ K \<le> 2 ^ 14" "(2::nat) ^ 1 \<le> 2 ^ K" using a(3,4) by (intro power_increasing; simp)+
  then have n: "2 \<le> unat te" "unat te \<le> 16384" "unat ee \<le> 16384" using a(2,6) e(2) by (auto simp: max_def split: if_splits)
  let ?t = "new_table ip (36 * (unat te + unat ee)) te ee"
  have d: "dims ?t (unat te) (unat ee)" using n a(5) by (simp add: dims_def new_table_def Let_def shape_def)
  have l: "length ((pdns c)[0 := p]) \<le> 16" for p using c by (simp add: fresh_cache_def)
  have z: "i < unat te + unat ee \<Longrightarrow> rule_at (mem ?t) i = zero_rule" "i < unat te + unat ee \<Longrightarrow> index_at (mem ?t) i = 0" for i
    by (simp_all add: rule_at_def index_at_def new_table_def Let_def nth_append)
  have ids: "rule_id_array ?t = replicate (unat te + unat ee) 0" by (simp add: new_table_def Let_def)
  show ?thesis using create_computes [OF c E a(1) e(1), of ip h] empty_inv(1) [OF d l z ids] empty_inv(2) [OF d l z ids]
    by (simp add: drv_inv_def table_rules_def)
qed

section \<open>Lookup\<close>

text \<open>The entries that the hardware visits from slot \<open>b\<close> on, at most \<open>f\<close> of them.\<close>

fun follow :: "(nat \<Rightarrow> nat) \<Rightarrow> nat \<Rightarrow> nat \<Rightarrow> nat list" where
  "follow nxt 0 b = []"
| "follow nxt (Suc f) b = (if b = 0 then [] else b # follow nxt f (nxt b))"

lemma follow_path: "dpath nxt prv b xs \<Longrightarrow> 0 \<notin> set (b # xs) \<Longrightarrow> length xs < f \<Longrightarrow> follow nxt f b = b # xs"
proof (induction xs arbitrary: b f)
  case Nil
  then show ?case by (cases f; cases "f - 1") auto
next
  case (Cons x xs)
  then show ?case by (cases f) auto
qed

lemma follow_chain:
  assumes ch: "chained n e used nxt prv D" and b: "b < n" "used b" and i: "on_chain D b i"
  shows "i \<in> set (follow nxt (n + e) b)"
proof -
  note P = chained_parts [OF ch]
  have d: "distinct (b # D b)" "0 \<notin> set (b # D b)" using chained_distinct [OF ch b(1)] P(2) [OF b] P(4) [of 0 b] by auto
  have "set (b # D b) \<subseteq> {0<..<n + e}" using d(2) P(4) [of _ b] b(1) by (auto, fastforce)
  then have "card (set (b # D b)) \<le> n + e - 1" by (metis card_greaterThanLessThan card_mono diff_zero finite_greaterThanLessThan minus_nat.diff_0 diff_Suc_1 One_nat_def diff_diff_left plus_1_eq_Suc add.commute)
  then have "length (D b) < n + e" using d(1) b(1) distinct_card [OF d(1)] by simp
  then show ?thesis using follow_path [OF _ d(2)] P(2) [OF b] i by (auto simp: on_chain_def)
qed

lemma found:
  assumes I: "nat_inv_at ver4 ps n e D X t" and r: "rule_map t h = Some r"
  shows "\<exists>i \<in> set (follow (\<lambda>i. rnext (rule_at (mem t) i)) (n + e) (dst_slot ver4 ps (table_entries t) r)).
    live_rule (rule_at (mem t) i) \<and> client_rule (rule_at (mem t) i) = r \<and>
    (\<exists>j \<in> set (follow (\<lambda>j. xnext (index_at (mem t) j)) (n + e) (src_slot (table_entries t) r)). xentry (index_at (mem t) j) = i)"
proof -
  note V = I [unfolded nat_inv_at_def]
  have d: "dims t n e" using V by simp
  let ?R = "rule_at (mem t)" and ?I = "index_at (mem t)"
  define i where "i = id_entry n (rule_id_array t ! (unat h - 1))"
  have h: "0 < unat h" "unat h < n + e" "rule_id_array t ! (unat h - 1) \<noteq> 0" and c: "client_rule (?R i) = r"
    using r by (auto simp: rule_map_iff [OF d] i_def split: if_splits)
  note A = deleted_at [OF I h, folded i_def]
  have rch: "chained n e (\<lambda>i. enabled_rule (?R i)) (\<lambda>i. rnext (?R i)) (\<lambda>i. rprev (?R i)) D" using V by (simp add: rules_ok_def)
  have xch: "chained n e (\<lambda>j. xentry (?I j) \<noteq> 0) (\<lambda>j. xnext (?I j)) (\<lambda>j. if j \<le> n then 0 else unat (index_expn_table_meta t ! (j - n))) X"
    using V unfolding index_ok_def by blast
  have on: "on_chain D (dst_slot ver4 ps (table_entries t) r) i" "on_chain X (src_slot (table_entries t) r) (rindex (?R i))"
    using V A c unfolding place_ok_def by blast+
  have j: "rindex (?R i) < n + e" "xentry (?I (rindex (?R i))) = i" using V A unfolding links_ok_def by auto
  have "i \<noteq> 0" using rules_ok_live_range [of n e ?R D i] V A by (auto simp: dims_def)
  then have used: "enabled_rule (?R (dst_slot ver4 ps (table_entries t) r))" "xentry (?I (src_slot (table_entries t) r)) \<noteq> 0"
    using on A(2) j chained_head [OF rch] chained_head [OF xch] live_enabled unfolding on_chain_def by metis+
  have "i \<in> set (follow (\<lambda>i. rnext (?R i)) (n + e) (dst_slot ver4 ps (table_entries t) r))"
    using follow_chain [OF rch _ used(1) on(1)] dst_slot_range [OF d] by blast
  moreover have "rindex (?R i) \<in> set (follow (\<lambda>j. xnext (?I j)) (n + e) (src_slot (table_entries t) r))"
    using follow_chain [OF xch _ used(2) on(2)] src_slot_range [OF d] by blast
  ultimately show ?thesis using A(2) c j(2) by blast
qed

section \<open>Runs\<close>

datatype nat_req = Nat_add u32 ipa_nat_ipv4_rule u32 | Nat_del u32 u32 | Nat_query u32 u32 u32

fun nat_step :: "kern \<Rightarrow> nat_cache \<Rightarrow> nat_req \<Rightarrow> nat_cache option" where
  "nat_step K c (Nat_add tbl r h) = map_option (\<lambda>(ret, h, c). c) (ipa_nat_add_ipv4_rule K tbl r h c)"
| "nat_step K c (Nat_del tbl h) = map_option snd (ipa_nat_del_ipv4_rule K tbl h c)"
| "nat_step K c (Nat_query tbl h ts) = map_option (\<lambda>_. c) (ipa_nat_query_timestamp K tbl h ts c)"

text \<open>Requests that a client may make: a table handle that the delete call can take (it is the only one that does not check it), a rule handle of 16 bits (which
  the query does not check for 0), and rules as above.\<close>

fun nat_legal :: "nat_cache \<Rightarrow> nat_req \<Rightarrow> bool" where
  "nat_legal c (Nat_add tbl r h) \<longleftrightarrow> rule_ok c r"
| "nat_legal c (Nat_del tbl h) \<longleftrightarrow> tbl \<le> IPA_NAT_MAX_IP4_TBLS \<and> unat h < 65536"
| "nat_legal c (Nat_query tbl h ts) \<longleftrightarrow> 0 < unat h \<and> unat h < 65536"

lemma table_handle: "tbl \<le> IPA_NAT_MAX_IP4_TBLS \<Longrightarrow> tbl = 0 \<or> tbl = 1"
proof -
  assume "tbl \<le> IPA_NAT_MAX_IP4_TBLS"
  then have "unat tbl \<le> 1" by (simp add: IPA_NAT_MAX_IP4_TBLS_def word_le_nat_alt)
  then have "unat tbl = 0 \<or> unat tbl = 1" by linarith
  then show ?thesis by (metis unsigned_0 unsigned_1 unsigned_word_eqI)
qed

lemma query_outcome:
  assumes inv: "drv_inv c" and K: "dma_works K" and h: "0 < unat h" "unat h < 65536"
  shows "\<exists>ts'. ipa_nat_query_timestamp K 1 h ts c = Some (0, ts')"
proof -
  from inv obtain t n e D X where t: "ip4_tbl c = [t]" and I: "nat_inv_at (v4 c) (pdns c) n e D X t" by (auto simp: drv_inv_def nat_inv_def)
  note V = I [unfolded nat_inv_at_def]
  have d: "dims t n e" using V by simp
  have sh: "shape n e (mem t)" using d by (rule dims_shape)
  let ?v = "rule_id_array t ! (unat h - 1)"
  have "\<exists>r. get_rule (mem t) (bit ?v 0) (drop_bit 1 ?v) = Some r" if "unat h < n + e"
  proof (cases "?v = 0")
    case True
    then show ?thesis using get_rule_at(1) [OF sh, of 0 0] d by (auto simp: dims_def)
  next
    case False
    note A = deleted_at(1) [OF I h(1) that False]
    have "unat h - 1 < n + e" using that by simp
    then have "bit ?v 0 \<or> id_entry n ?v < n" using V False unfolding ids_ok_def by blast
    then have "get_rule (mem t) (n \<le> id_entry n ?v) (drop_bit 1 ?v) = Some (rule_at (mem t) (id_entry n ?v))" "(n \<le> id_entry n ?v) = bit ?v 0"
      using loc_get(1) [OF sh A, of "drop_bit 1 ?v"] by (auto simp: id_entry_def split: if_splits)
    then show ?thesis by simp
  qed
  moreover have "\<exists>r. get_rule (mem t) False 0 = Some r" using get_rule_at(1) [OF sh, of 0 0] d by (auto simp: dims_def)
  ultimately show ?thesis using parse_handle [OF I h] K d t
    by (auto simp: ipa_nat_query_timestamp_def ipa_nati_query_timestamp_def query_table_def IPA_NAT_MAX_IP4_TBLS_def aget_def dims_def dma_works_def)
qed

lemma nat_step_ok:
  assumes inv: "dma_works K \<and> drv_inv c" and legal: "nat_legal c x"
  shows "\<exists>c'. nat_step K c x = Some c' \<and> drv_inv c'"
proof (cases x)
  case (Nat_add tbl r h)
  show ?thesis
  proof (cases "tbl = 0 \<or> tbl > IPA_NAT_MAX_IP4_TBLS")
    case True
    then show ?thesis using inv Nat_add by (auto simp: ipa_nat_add_ipv4_rule_def)
  next
    case False
    then have "tbl = 1" using table_handle [of tbl] by (simp add: not_less)
    then show ?thesis using add_outcome [of c K r h] inv legal Nat_add by fastforce
  qed
next
  case (Nat_del tbl h)
  show ?thesis
  proof (cases "tbl = 0 \<or> h = 0")
    case True
    then show ?thesis using inv Nat_del by (auto simp: ipa_nat_del_ipv4_rule_def)
  next
    case False
    then have "tbl = 1" "0 < unat h" "unat h < 65536" using legal Nat_del table_handle [of tbl] by (auto simp: unat_gt_0)
    with del_outcome [of c K h] inv obtain ret c' where "ipa_nat_del_ipv4_rule K tbl h c = Some (ret, c')" "drv_inv c'" by blast
    then show ?thesis using Nat_del by simp
  qed
next
  case (Nat_query tbl h ts)
  show ?thesis
  proof (cases "tbl = 0 \<or> tbl > IPA_NAT_MAX_IP4_TBLS")
    case True
    then show ?thesis using inv Nat_query by (auto simp: ipa_nat_query_timestamp_def)
  next
    case False
    then have "tbl = 1" using table_handle [of tbl] by (simp add: not_less)
    then show ?thesis using query_outcome [of c K h ts] inv legal Nat_query by auto
  qed
qed

interpretation nat_lib: safe_component "nat_step K" "\<lambda>c. dma_works K \<and> drv_inv c" nat_legal for K
  by unfold_locales (use nat_step_ok in fastforce)+

end
