(* ===== verification/NatProps.thy ===== *)
theory NatProps
  imports NatContract
begin

text \<open>
  The theorems about the NAT library: adding and deleting rules, the safety of every run, lookup, and creation of the table, each with a concrete instance; and what a
  request that fails half way leaves behind.
\<close>

section \<open>A small table\<close>

text \<open>A concrete kernel, system and cache: a table of sixteen base and four expansion entries, and rules with equal hash values.\<close>

definition demo_kern :: kern where
  "demo_kern = \<lparr>nat_dma = (\<lambda>cmds m. (0, foldl dma_write m cmds)), malloc_ok = True, lock_ok = True, unlock_ok = True\<rparr>"

definition demo_env :: table_env where
  "demo_env = \<lparr>ipa_open_ok = True, ver_ret = 0, ver_is_v4 = False, alloc_ret = 0, alloc_offset = 0, meta_malloc_ok = True, ids_malloc_ok = True,
     nat_open_ok = True, mmap_mem = Some \<lparr>rules = replicate 16 zero_rule, expn_rules = replicate 4 zero_rule,
       index_table = replicate 16 0, index_expn = replicate 4 0\<rparr>, init_ioctl = (\<lambda>_. 0)\<rparr>"

definition demo_fresh :: nat_cache where
  "demo_fresh = \<lparr>ip4_tbl = [zero_table], table_cnt = 0, v4 = False, pdns = [\<lparr>pdn_public_ip = 0, src_metadata = 0, dst_metadata = 0\<rparr>]\<rparr>"

definition demo_rule :: "u16 \<Rightarrow> ipa_nat_ipv4_rule" where
  "demo_rule port = \<lparr>r_target_ip = 0x08080808, r_private_ip = 0xC0A80102, r_target_port = 173, r_private_port = port, r_public_port = port,
     r_protocol = 17, r_pdn_index = 0\<rparr>"

definition demo_cache :: nat_cache where
  "demo_cache = (case ipa_nat_add_ipv4_tbl demo_env 0x0A000001 16 0 demo_fresh of Some (ret, h, c) \<Rightarrow> c | None \<Rightarrow> demo_fresh)"

definition demo_one :: nat_cache where
  "demo_one = (case ipa_nat_add_ipv4_rule demo_kern 1 (demo_rule 4) 0 demo_cache of Some (ret, h, c) \<Rightarrow> c | None \<Rightarrow> demo_fresh)"

text \<open>A kernel that refuses the enabling request, and the caches after it.\<close>

definition no_enable :: kern where
  "no_enable = demo_kern\<lparr>nat_dma := (\<lambda>cmds m. if map dma_data cmds = [0x8000] then (- 1, m) else (0, foldl dma_write m cmds))\<rparr>"

definition demo_broken :: nat_cache where
  "demo_broken = (case ipa_nat_add_ipv4_rule no_enable 1 (demo_rule 20) 0 demo_one of Some (ret, h, c) \<Rightarrow> c | None \<Rightarrow> demo_fresh)"

definition demo_loop :: nat_cache where
  "demo_loop = (case ipa_nat_add_ipv4_rule demo_kern 1 (demo_rule 36) 0 demo_broken of Some (ret, h, c) \<Rightarrow> c | None \<Rightarrow> demo_fresh)"

lemma demo_kern_works: "dma_works demo_kern"
  by (simp add: dma_works_def demo_kern_def)

lemma demo_env_works: "env_works demo_env 16" "fresh_cache demo_fresh"
proof -
  have "alloc_sizes 16 = Some (16, 4, 720)" by code_simp
  then show "env_works demo_env 16" by (simp add: env_works_def demo_env_def shape_def)
  show "fresh_cache demo_fresh" by (simp add: fresh_cache_def demo_fresh_def)
qed

lemma demo_cache_inv: "drv_inv demo_cache"
  using create_outcome [OF demo_env_works(2,1), of "0x0A000001" 0] by (auto simp: demo_cache_def)

lemma demo_rules_ok: "rule_ok demo_cache (demo_rule port)" "rule_ok demo_one (demo_rule port)"
proof -
  have "length (pdns demo_cache) = 1" "length (pdns demo_one) = 1" by code_simp+
  then show "rule_ok demo_cache (demo_rule port)" "rule_ok demo_one (demo_rule port)" by (simp_all add: rule_ok_def demo_rule_def)
qed

lemma demo_one_inv: "drv_inv demo_one"
  using add_outcome [OF demo_cache_inv demo_kern_works demo_rules_ok(1), of 4 0] by (auto simp: demo_one_def)

lemma nat_step_pdns:
  assumes inv: "dma_works K \<and> drv_inv c" and legal: "nat_legal c x" and st: "nat_step K c x = Some c'"
  shows "pdns c' = pdns c"
  using st by (cases x) (auto simp: ipa_nat_add_ipv4_rule_def ipa_nati_add_ipv4_rule_def ipa_nat_del_ipv4_rule_def ipa_nati_del_ipv4_rule_def
      set_table_def Let_def split: if_splits Option.bind_splits)

lemma nat_legal_run: "dma_works K \<Longrightarrow> drv_inv c \<Longrightarrow> list_all (nat_legal c) xs \<Longrightarrow> legal_run (nat_step K) nat_legal c xs"
proof (induction xs arbitrary: c)
  case (Cons x xs)
  obtain c' where c': "nat_step K c x = Some c'" "drv_inv c'" using nat_step_ok [of K c x] Cons.prems by auto
  have "pdns c' = pdns c" using nat_step_pdns [OF _ _ c'(1)] Cons.prems by auto
  then have "nat_legal c' y = nat_legal c y" for y by (cases y) (simp_all add: rule_ok_def)
  then have "nat_legal c' = nat_legal c" by (rule ext)
  with Cons c' show ?case by simp
qed simp

section \<open>Properties\<close>

text \<open>
  C6. Adding a rule is an update of the handle map. On a table in use, with a kernel that performs its DMA requests, the call always returns. When it returns 0,
  the handle it gives is not 0 and was free, the handles stand for the same rules as before and the new handle for the new rule, and the table is again consistent.
  Otherwise nothing has changed, the error is \<open>-EINVAL\<close>, and either the PDN of the rule has no address or one of the two expansion tables is full.
\<close>

theorem nat_add_rule_refines:
  assumes "drv_inv c" and "dma_works K" and "rule_ok c r"
  shows "\<exists>ret h' c'. ipa_nat_add_ipv4_rule K 1 r h c = Some (ret, h', c') \<and> drv_inv c' \<and>
    (if ret = 0 then pdn_up c r \<and> h' \<noteq> 0 \<and> table_rules c h' = None \<and> table_rules c' = (table_rules c)(h' \<mapsto> r)
     else ret = - EINVAL \<and> c' = c \<and> h' = h \<and> (\<not> pdn_up c r \<or> cache_full c))"
  using add_outcome [OF assms, of h] by blast

theorem nat_add_rule_refines_witness:
  "drv_inv demo_one \<and> dma_works demo_kern \<and> rule_ok demo_one (demo_rule 20) \<and>
   (\<exists>ret h' c'. ipa_nat_add_ipv4_rule demo_kern 1 (demo_rule 20) 0 demo_one = Some (ret, h', c') \<and> drv_inv c' \<and>
    (if ret = 0 then pdn_up demo_one (demo_rule 20) \<and> h' \<noteq> 0 \<and> table_rules demo_one h' = None \<and>
       table_rules c' = (table_rules demo_one)(h' \<mapsto> demo_rule 20)
     else ret = - EINVAL \<and> c' = demo_one \<and> h' = 0 \<and> (\<not> pdn_up demo_one (demo_rule 20) \<or> cache_full demo_one)))"
  using nat_add_rule_refines [OF demo_one_inv demo_kern_works demo_rules_ok(2), of 20 0] demo_one_inv demo_kern_works demo_rules_ok(2) by blast

text \<open>
  C4. Deleting by handle removes exactly that rule. For every 16-bit handle the call returns: a handle that stands for no rule is refused with \<open>-EINVAL\<close> and
  changes nothing; otherwise the handle map loses that handle and keeps all the others with their rules, whichever of the
  twelve combinations of positions the rule and its index entry have in their chains.
\<close>

theorem nat_del_rule_refines:
  assumes "drv_inv c" and "dma_works K" and "0 < unat h" and "unat h < 65536"
  shows "\<exists>ret c'. ipa_nat_del_ipv4_rule K 1 h c = Some (ret, c') \<and> drv_inv c' \<and>
    (if table_rules c h = None then ret = - EINVAL \<and> c' = c else ret = 0 \<and> table_rules c' = (table_rules c)(h := None))"
  using del_outcome [OF assms] by blast

theorem nat_del_rule_refines_witness:
  "drv_inv demo_one \<and> dma_works demo_kern \<and> 0 < unat (1 :: u32) \<and> unat (1 :: u32) < 65536 \<and>
   (\<exists>ret c'. ipa_nat_del_ipv4_rule demo_kern 1 1 demo_one = Some (ret, c') \<and> drv_inv c' \<and>
    (if table_rules demo_one 1 = None then ret = - EINVAL \<and> c' = demo_one else ret = 0 \<and> table_rules c' = (table_rules demo_one)(1 := None)))"
  using nat_del_rule_refines [OF demo_one_inv demo_kern_works, of 1] demo_one_inv demo_kern_works by simp

text \<open>
  C8. The library never faults. From a consistent table every sequence of legal requests (adding rules, deleting and querying 16-bit handles, with any table handle where it is
  checked) runs to its end: no access outside of a table, no chain that does not end, and the table is consistent after every one of them.
\<close>

theorem nat_library_safe:
  assumes "dma_works K" and "drv_inv c" and "list_all (nat_legal c) xs"
  shows "\<exists>c'. run_steps (nat_step K) c xs = Some c' \<and> drv_inv c'"
  using nat_lib.run_defined [of K c xs] nat_legal_run [of K c xs] assms by blast

theorem nat_library_safe_witness:
  "\<exists>c'. run_steps (nat_step demo_kern) demo_cache
      [Nat_add 1 (demo_rule 4) 0, Nat_add 1 (demo_rule 20) 0, Nat_query 1 2 0, Nat_del 1 1, Nat_add 2 (demo_rule 4) 0, Nat_del 1 1, Nat_del 1 2] = Some c' \<and> drv_inv c'"
  by (rule nat_library_safe [OF demo_kern_works demo_cache_inv]) (simp add: demo_rules_ok IPA_NAT_MAX_IP4_TBLS_def)

text \<open>
  C7. The hardware finds every rule. For every handle in use, following the chain of the rule table from the destination hash of its rule reaches an enabled entry with
  exactly that rule, and following the chain of the index table from the source hash reaches an index entry that points to it.
\<close>

theorem every_rule_is_found:
  assumes "drv_inv c" and "ip4_tbl c = [t]" and "table_rules c h = Some r"
  shows "\<exists>i \<in> set (follow (\<lambda>i. rnext (rule_at (mem t) i)) (unat (table_entries t) + unat (expn_table_entries t))
      (dst_slot (v4 c) (pdns c) (table_entries t) r)).
    live_rule (rule_at (mem t) i) \<and> client_rule (rule_at (mem t) i) = r \<and>
    (\<exists>j \<in> set (follow (\<lambda>j. xnext (index_at (mem t) j)) (unat (table_entries t) + unat (expn_table_entries t)) (src_slot (table_entries t) r)).
      xentry (index_at (mem t) j) = i)"
proof -
  from assms obtain n e D X where I: "nat_inv_at (v4 c) (pdns c) n e D X t" by (auto simp: drv_inv_def nat_inv_def)
  show ?thesis using found [OF I, of h r] nat_inv_dims [OF I] assms(2,3) by (simp add: table_rules_def)
qed

theorem every_rule_is_found_witness:
  "\<exists>i \<in> set (follow (\<lambda>i. rnext (rule_at (mem (hd (ip4_tbl demo_one))) i)) 20 (dst_slot False (pdns demo_one) 16 (demo_rule 4))).
    client_rule (rule_at (mem (hd (ip4_tbl demo_one))) i) = demo_rule 4"
proof -
  have t: "ip4_tbl demo_one = [hd (ip4_tbl demo_one)]" using demo_one_inv by (auto simp: drv_inv_def)
  have "table_rules demo_one 1 = Some (demo_rule 4)" by code_simp
  from every_rule_is_found [OF demo_one_inv t this] obtain i where i: "i \<in> set (follow (\<lambda>i. rnext (rule_at (mem (hd (ip4_tbl demo_one))) i))
      (unat (table_entries (hd (ip4_tbl demo_one))) + unat (expn_table_entries (hd (ip4_tbl demo_one))))
      (dst_slot (v4 demo_one) (pdns demo_one) (table_entries (hd (ip4_tbl demo_one))) (demo_rule 4)))"
    "client_rule (rule_at (mem (hd (ip4_tbl demo_one))) i) = demo_rule 4" by blast
  moreover have "v4 demo_one = False" "table_entries (hd (ip4_tbl demo_one)) = 16" "expn_table_entries (hd (ip4_tbl demo_one)) = 4" by code_simp+
  ultimately show ?thesis by (intro bexI [of _ i]) simp_all
qed

text \<open>
  A new table is empty and consistent. For up to 20480 entries, on a fresh cache and a system that does what is asked, creating the table succeeds with handle 1, no rule
  handle stands for a rule, the table is consistent, and the public address is the address of PDN 0.
\<close>

theorem nat_table_created:
  assumes "fresh_cache c" and "env_works E entries" and "entries \<noteq> 0" and "unat entries \<le> 20480"
  shows "\<exists>c'. ipa_nat_add_ipv4_tbl E ip entries h c = Some (0, 1, c') \<and> drv_inv c' \<and> table_rules c' = Map.empty \<and>
    pdns c' = (pdns c)[0 := (pdns c ! 0)\<lparr>pdn_public_ip := ip\<rparr>]"
  using create_outcome [OF assms, of ip h] .

theorem nat_table_created_witness:
  "\<exists>c'. ipa_nat_add_ipv4_tbl demo_env 7 16 0 demo_fresh = Some (0, 1, c') \<and> drv_inv c' \<and> table_rules c' = Map.empty"
  using nat_table_created [OF demo_env_works(2,1), of 7 0] by auto

text \<open>
  A failed request ruins a chain. The second of two rules with the same hash values is linked before it is enabled. When the request that enables it fails, the call
  returns an error but leaves the link; the next rule with these hash values is then written into the same entry with itself as its predecessor, and becomes its own successor, although that call
  succeeds.
\<close>

theorem failed_enable_makes_loop:
  "map_option (\<lambda>(ret, h, c). (ret, h)) (ipa_nat_add_ipv4_rule no_enable 1 (demo_rule 20) 0 demo_one) = Some (- EINVAL, 0) \<and>
   map_option (\<lambda>(ret, h, c). (ret, h)) (ipa_nat_add_ipv4_rule demo_kern 1 (demo_rule 36) 0 demo_broken) = Some (0, 2) \<and>
   list_all (\<lambda>t. live_rule (rule_at (mem t) 17) \<and> rnext (rule_at (mem t) 17) = 17 \<and> rprev (rule_at (mem t) 17) = 17) (ip4_tbl demo_loop)"
proof (intro conjI)
  show "map_option (\<lambda>(ret, h, c). (ret, h)) (ipa_nat_add_ipv4_rule no_enable 1 (demo_rule 20) 0 demo_one) = Some (- EINVAL, 0)" by code_simp
  show "map_option (\<lambda>(ret, h, c). (ret, h)) (ipa_nat_add_ipv4_rule demo_kern 1 (demo_rule 36) 0 demo_broken) = Some (0, 2)" by code_simp
  show "list_all (\<lambda>t. live_rule (rule_at (mem t) 17) \<and> rnext (rule_at (mem t) 17) = 17 \<and> rprev (rule_at (mem t) 17) = 17) (ip4_tbl demo_loop)" by code_simp
qed

end
