(* ===== verification/NatSystem.thy ===== *)
theory NatSystem
  imports NatSync NatProps
begin

text \<open>
  The connection cache on top of the NAT library. The library is made into a driver of the cache, it is shown to keep the contract \<open>rule_table\<close>, and the
  two together are shown to stay in step: the rules in the hardware table are those of the enabled connections of the cache, whatever requests come.
\<close>

section \<open>The library as a driver\<close>

text \<open>The state of the driver is \<open>None\<close> after a fault (an access outside of a table, or a chain that does not end).\<close>

definition lib_drv :: "kern \<Rightarrow> table_env \<Rightarrow> del_env \<Rightarrow> nat_cache option nat_drv" where
  "lib_drv K E X =
     nat_drv.make
      (\<lambda>ip entries h d. case d \<bind> NatDriver.ipa_nat_add_ipv4_tbl E ip entries h of
         None \<Rightarrow> (- 1, h, None) | Some (ret, h', c) \<Rightarrow> (ret, h', Some c))
      (\<lambda>tbl d. case d \<bind> NatDriver.ipa_nat_del_ipv4_tbl K X tbl of
         None \<Rightarrow> (- 1, None) | Some (ret, c) \<Rightarrow> (ret, Some c))
      (\<lambda>tbl r h d. case d \<bind> NatDriver.ipa_nat_add_ipv4_rule K tbl r h of
         None \<Rightarrow> (- 1, h, None) | Some (ret, h', c) \<Rightarrow> (ret, h', Some c))
      (\<lambda>tbl h d. case d \<bind> NatDriver.ipa_nat_del_ipv4_rule K tbl h of
         None \<Rightarrow> (- 1, None) | Some (ret, c) \<Rightarrow> (ret, Some c))
      (\<lambda>tbl h ts d. case d \<bind> NatDriver.ipa_nat_query_timestamp K tbl h ts of
         None \<Rightarrow> (- 1, ts, None) | Some (ret, ts') \<Rightarrow> (ret, ts', d))"

text \<open>The calls of the system that the library makes succeed, for tables of \<open>n\<close> entries.\<close>

definition sys_works :: "kern \<Rightarrow> table_env \<Rightarrow> del_env \<Rightarrow> nat \<Rightarrow> bool" where
  "sys_works K E X n \<longleftrightarrow> dma_works K \<and> env_works E (of_nat n) \<and> close_ok X \<and> del_ioctl_ret X = 0 \<and> 0 < n \<and> n \<le> 20480"

definition lib_up :: "kern \<Rightarrow> table_env \<Rightarrow> del_env \<Rightarrow> nat \<Rightarrow> nat_cache option \<Rightarrow> bool" where
  "lib_up K E X n d \<longleftrightarrow> (case d of None \<Rightarrow> False | Some c \<Rightarrow>
     sys_works K E X n \<and> drv_inv c \<and> table_cnt c = 1 \<and> 1 \<le> length (pdns c) \<and> length (pdns c) \<le> 16)"

definition lib_down :: "kern \<Rightarrow> table_env \<Rightarrow> del_env \<Rightarrow> nat \<Rightarrow> nat_cache option \<Rightarrow> bool" where
  "lib_down K E X n d \<longleftrightarrow> (case d of None \<Rightarrow> False | Some c \<Rightarrow> sys_works K E X n \<and> fresh_cache c)"

definition lib_rules :: "nat_cache option \<Rightarrow> u32 \<rightharpoonup> ipa_nat_ipv4_rule" where
  "lib_rules d = (case d of None \<Rightarrow> Map.empty | Some c \<Rightarrow> table_rules c)"

lemma add_rule_keeps:
  "NatDriver.ipa_nat_add_ipv4_rule K tbl r h c = Some (ret, h', c') \<Longrightarrow> table_cnt c' = table_cnt c"
  by (auto simp: ipa_nat_add_ipv4_rule_def ipa_nati_add_ipv4_rule_def set_table_def Let_def split: if_splits Option.bind_splits)

lemma del_rule_keeps:
  "NatDriver.ipa_nat_del_ipv4_rule K tbl h c = Some (ret, c') \<Longrightarrow> table_cnt c' = table_cnt c"
  by (auto simp: ipa_nat_del_ipv4_rule_def ipa_nati_del_ipv4_rule_def set_table_def Let_def split: if_splits Option.bind_splits)

lemma table_rules_handle: "drv_inv c \<Longrightarrow> table_rules c h = Some r \<Longrightarrow> 0 < unat h \<and> unat h < 65536"
  by (auto simp: drv_inv_def NatInv.nat_inv_def nat_inv_at_def table_rules_def rule_map_iff dims_def split: if_splits)

lemma lib_create:
  assumes "lib_down K E X n d"
  shows "\<exists>d'. nat_drv.ipa_nat_add_ipv4_tbl (lib_drv K E X) ip (of_nat n) h d = (0, 1, d') \<and> lib_up K E X n d' \<and> lib_rules d' = Map.empty"
proof -
  from assms obtain c where d: "d = Some c" and s: "sys_works K E X n" and f: "fresh_cache c" by (auto simp: lib_down_def split: option.splits)
  have u: "unat (of_nat n :: u16) = n" using s by (simp add: sys_works_def unat_of_nat)
  then have e: "of_nat n \<noteq> (0 :: u16)" "unat (of_nat n :: u16) \<le> 20480" "env_works E (of_nat n)" using s by (auto simp: sys_works_def)
  from create_outcome [OF f e(3,1,2), of ip h] obtain c' where c': "NatDriver.ipa_nat_add_ipv4_tbl E ip (of_nat n) h c = Some (0, 1, c')"
    "drv_inv c'" "table_rules c' = Map.empty" "length (pdns c') = length (pdns c)" by auto
  obtain te ee b where "alloc_sizes (of_nat n) = Some (te, ee, b)" using e(3) by (auto simp: env_works_def split: option.splits)
  from create_computes [OF f e(3) this e(1), of ip h] c'(1) have "table_cnt c' = 1" by auto
  with c' s f show ?thesis by (auto simp: lib_drv_def nat_drv.make_def d lib_up_def lib_rules_def fresh_cache_def)
qed

lemma lib_destroy:
  assumes "lib_up K E X n d"
  shows "\<exists>d'. nat_drv.ipa_nat_del_ipv4_tbl (lib_drv K E X) 1 d = (0, d') \<and> lib_down K E X n d'"
proof -
  from assms obtain c t where d: "d = Some c" and s: "sys_works K E X n" and c: "table_cnt c = 1" "1 \<le> length (pdns c)" "length (pdns c) \<le> 16"
    and t: "ip4_tbl c = [t]" "valid t"
    by (auto simp: lib_up_def drv_inv_def NatInv.nat_inv_def nat_inv_at_def dims_def split: option.splits)
  show ?thesis using s c t
    by (auto simp: lib_drv_def nat_drv.make_def d ipa_nat_del_ipv4_tbl_def ipa_nati_del_ipv4_table_def IPA_NAT_MAX_IP4_TBLS_def aget_def set_table_def
        lib_down_def fresh_cache_def sys_works_def dma_works_def Let_def)
qed

lemma lib_add:
  assumes "lib_up K E X n d" and r: "plain_rule r"
  shows "\<exists>ret h' d'. nat_drv.ipa_nat_add_ipv4_rule (lib_drv K E X) 1 r h d = (ret, h', d') \<and> lib_up K E X n d' \<and>
    (if ret < 0 then lib_rules d' = lib_rules d else lib_rules d h' = None \<and> lib_rules d' = (lib_rules d)(h' \<mapsto> r))"
proof -
  from assms(1) obtain c where d: "d = Some c" and s: "sys_works K E X n" "drv_inv c" and c: "table_cnt c = 1" "1 \<le> length (pdns c)" "length (pdns c) \<le> 16"
    by (auto simp: lib_up_def split: option.splits)
  have "rule_ok c r" using r c by (auto simp: plain_rule_def rule_ok_def)
  moreover have "dma_works K" using s(1) by (simp add: sys_works_def)
  ultimately obtain ret h' c' where a: "NatDriver.ipa_nat_add_ipv4_rule K 1 r h c = Some (ret, h', c')" "drv_inv c'" "pdns c' = pdns c"
    and b: "if ret = 0 then pdn_up c r \<and> h' \<noteq> 0 \<and> table_rules c h' = None \<and> table_rules c' = (table_rules c)(h' \<mapsto> r)
            else ret = - EINVAL \<and> c' = c \<and> h' = h \<and> (\<not> pdn_up c r \<or> cache_full c)"
    using add_outcome [OF s(2), of K r h] by blast
  have call: "nat_drv.ipa_nat_add_ipv4_rule (lib_drv K E X) 1 r h d = (ret, h', Some c')" using a(1) by (simp add: lib_drv_def nat_drv.make_def d)
  have up: "lib_up K E X n (Some c')" using s c a(2,3) add_rule_keeps [OF a(1)] by (simp add: lib_up_def)
  show ?thesis using call up b by (cases "ret = 0") (simp_all add: d lib_rules_def EINVAL_def)
qed

lemma lib_del:
  assumes "lib_up K E X n d" and r: "lib_rules d h = Some r"
  shows "\<exists>d'. nat_drv.ipa_nat_del_ipv4_rule (lib_drv K E X) 1 h d = (0, d') \<and> lib_up K E X n d' \<and> lib_rules d' = (lib_rules d)(h := None)"
proof -
  from assms(1) obtain c where d: "d = Some c" and s: "sys_works K E X n" "drv_inv c" and c: "table_cnt c = 1" "1 \<le> length (pdns c)" "length (pdns c) \<le> 16"
    by (auto simp: lib_up_def split: option.splits)
  have h: "table_rules c h = Some r" using r by (simp add: lib_rules_def d)
  from del_outcome [OF s(2) _ conjunct1 [OF table_rules_handle [OF s(2) h]] conjunct2 [OF table_rules_handle [OF s(2) h]], of K] h s(1) obtain c' where
    a: "NatDriver.ipa_nat_del_ipv4_rule K 1 h c = Some (0, c')" "drv_inv c'" "pdns c' = pdns c" "table_rules c' = (table_rules c)(h := None)"
    by (auto simp: sys_works_def)
  then show ?thesis using s c del_rule_keeps [OF a(1)] by (auto simp: lib_drv_def nat_drv.make_def d lib_up_def lib_rules_def)
qed

lemma lib_query:
  assumes "lib_up K E X n d" and r: "lib_rules d h = Some r"
  shows "\<exists>ts'. nat_drv.ipa_nat_query_timestamp (lib_drv K E X) 1 h ts d = (0, ts', d)"
proof -
  from assms(1) obtain c where d: "d = Some c" and s: "sys_works K E X n" "drv_inv c" by (auto simp: lib_up_def split: option.splits)
  have h: "table_rules c h = Some r" using r by (simp add: lib_rules_def d)
  from query_outcome [OF s(2) _ conjunct1 [OF table_rules_handle [OF s(2) h]] conjunct2 [OF table_rules_handle [OF s(2) h]], of K ts] s(1)
  show ?thesis by (auto simp: sys_works_def lib_drv_def nat_drv.make_def d)
qed

interpretation hw: rule_table "lib_drv K E X" n "lib_up K E X n" "lib_down K E X n" lib_rules for K E X n
proof unfold_locales
  show "\<exists>ret h'. nat_drv.ipa_nat_add_ipv4_rule (lib_drv K E X) 0 r h d = (ret, h', d) \<and> ret < 0" if "lib_down K E X n d" for d r h
    using that by (auto simp: lib_down_def lib_drv_def nat_drv.make_def ipa_nat_add_ipv4_rule_def EINVAL_def split: option.splits)
qed (fact lib_create lib_destroy lib_add lib_del lib_query)+

section \<open>The two together\<close>

lemma boot_sync:
  assumes g: "GetInstance cfg ok1 ok2 j Inst_null = (Inst_live s, p)" "length (junk_PwrSaveIfs j) = IPA_MAX_NUM_WIFI_CLIENTS"
    and c: "fresh_cache c" "sys_works K E X (length (cache s))"
  shows "in_sync (length (cache s)) (lib_up K E X (length (cache s))) (lib_down K E X (length (cache s))) lib_rules (s, Some c)"
proof -
  have s: "\<forall>e \<in> set (cache s) \<union> set (temp s). e = zero_entry" "nat_table_hdl s = 0"
    using g(1) by (auto simp: GetInstance_def Init_def new_NatApp_def Let_def split: option.splits if_splits)
  have "mirrored es Map.empty" if "\<forall>e \<in> set es. e = zero_entry" for es
    using that by (induction es) (simp_all add: mirrored_def wanted_rules_def fun_eq_iff)
  moreover have "protocol e \<noteq> 255" if "e \<in> set (cache s) \<union> set (temp s)" for e
  proof -
    have "e = zero_entry" using s(1) that by blast
    then show ?thesis by simp
  qed
  ultimately show ?thesis using s c nat_inv_new [OF g] by (simp add: in_sync_def synced_def lib_down_def)
qed

text \<open>
  C3. The connection cache and the hardware table stay in step. The cache is built by \<open>GetInstance\<close>, the library starts with no table, and its calls of
  the system succeed. Then after any sequence of requests (tables created and deleted, connections added, deleted and cached, clients entering and leaving power save
  or disconnecting, time stamps, waiting connections) the library has not faulted, the enabled cache entries have different handles, and the rules in the
  table are exactly the rules of the enabled entries under the handles stored there: no rule is leaked and none is missing. Without a table, no entry is enabled.
\<close>

theorem cache_mirrors_table:
  assumes "GetInstance cfg ok1 ok2 j Inst_null = (Inst_live s, p)" and "length (junk_PwrSaveIfs j) = IPA_MAX_NUM_WIFI_CLIENTS"
    and "fresh_cache c" and "sys_works K E X (length (cache s))"
    and "legal_run (\<lambda>sd x. Some (nat_exec (lib_drv K E X) sd x)) sync_legal (s, Some c) xs"
  shows "\<exists>s' c'. run_steps (\<lambda>sd x. Some (nat_exec (lib_drv K E X) sd x)) (s, Some c) xs = Some (s', Some c') \<and>
    distinct_on enabled rule_hdl (cache s') \<and>
    (if nat_table_hdl s' = 0 then \<forall>e \<in> set (cache s'). \<not> enabled e else table_rules c' = wanted_rules (cache s'))"
proof -
  from hw.cache_system.run_defined [OF boot_sync [OF assms(1-4)] assms(5)] obtain s' d' where
    r: "run_steps (\<lambda>sd x. Some (nat_exec (lib_drv K E X) sd x)) (s, Some c) xs = Some (s', d')" and
    i: "in_sync (length (cache s)) (lib_up K E X (length (cache s))) (lib_down K E X (length (cache s))) lib_rules (s', d')" by force
  have "\<not> enabled e" if "nat_table_hdl s' = 0" "e \<in> set (cache s')" for e
    using i that mirrored_rule [of "cache s'" Map.empty e] by (auto simp: in_sync_def synced_def)
  with r i show ?thesis
    by (auto simp: in_sync_def synced_def mirrored_def lib_up_def lib_down_def lib_rules_def split: option.splits)
qed

definition demo_cfg :: natapp_config where
  "demo_cfg = \<lparr>cfg_nat_max_entries = 16, cfg_alg_ports = [\<lparr>alg_protocol = 6, alg_port = 21\<rparr>]\<rparr>"

definition demo_app :: NatApp where
  "demo_app = (new_NatApp ex_junk)\<lparr>cache := replicate 16 zero_entry, pALGPorts := cfg_alg_ports demo_cfg\<rparr>"

theorem cache_mirrors_table_witness:
  "\<exists>s' c'. run_steps (\<lambda>sd x. Some (nat_exec (lib_drv demo_kern demo_env \<lparr>close_ok = True, del_ioctl_ret = 0\<rparr>) sd x)) (demo_app, Some demo_fresh)
      [Add_table 7, Add_entry ex_conn, Pwr_save 10, Add_temp ex_conn, Pwr_reset 10, Delete_entry ex_conn, Flush_temp 10 True False, Delete_table 7] = Some (s', Some c') \<and>
    distinct_on enabled rule_hdl (cache s') \<and>
    (if nat_table_hdl s' = 0 then \<forall>e \<in> set (cache s'). \<not> enabled e else table_rules c' = wanted_rules (cache s'))"
proof (rule cache_mirrors_table [OF _ ex_junk_length demo_env_works(2)])
  show "GetInstance (Some demo_cfg) True True ex_junk Inst_null = (Inst_live demo_app, Inst_live demo_app)"
    by (simp add: GetInstance_def Init_def demo_app_def demo_cfg_def Let_def)
  show "sys_works demo_kern demo_env \<lparr>close_ok = True, del_ioctl_ret = 0\<rparr> (length (cache demo_app))"
    using demo_kern_works demo_env_works(1) by (simp add: sys_works_def demo_app_def)
  show "legal_run (\<lambda>sd x. Some (nat_exec (lib_drv demo_kern demo_env \<lparr>close_ok = True, del_ioctl_ret = 0\<rparr>) sd x)) sync_legal (demo_app, Some demo_fresh)
      [Add_table 7, Add_entry ex_conn, Pwr_save 10, Add_temp ex_conn, Pwr_reset 10, Delete_entry ex_conn, Flush_temp 10 True False, Delete_table 7]"
    by (simp add: demo_app_def new_NatApp_def ex_conn_def free_slot_def)
qed

end
