(* ===== verification/NatIfaces.thy ===== *)
theory NatIfaces
  imports IPA_Prelude
begin

text \<open>
  The table of NAT interfaces in the configuration of IPACM (\<open>ipacm/src/IPACM_Config.cpp\<close>): which interfaces the hardware has been set up for, per IP family. The
  array is allocated once with an entry for every configured interface. \<open>None\<close>: an access outside the array.

  Names are C strings without their terminator.
\<close>

section \<open>Data\<close>

datatype ipa_ip_type = IPA_IP_v4 | IPA_IP_v6 | IPA_IP_MAX

record NatIfaces =
  iface_name :: string
  v4_up :: bool
  v6_up :: bool

record nat_cfg =
  pNatIfaces :: "NatIfaces list"
  ipa_nat_iface_entries :: nat
  ipa_num_ipa_interfaces :: nat

definition zero_iface :: NatIfaces where
  "zero_iface = \<lparr>iface_name = '''', v4_up = False, v6_up = False\<rparr>"

definition Config_init_nat :: "nat \<Rightarrow> nat_cfg" where
  "Config_init_nat num = \<lparr>pNatIfaces = replicate num zero_iface, ipa_nat_iface_entries = 0, ipa_num_ipa_interfaces = num\<rparr>"

text \<open>\<open>strncmp(a, b, n) == 0\<close> and \<open>strlcpy\<close> into \<open>n\<close> bytes.\<close>

definition strncmp_eq :: "string \<Rightarrow> string \<Rightarrow> nat \<Rightarrow> bool" where
  "strncmp_eq a b n \<longleftrightarrow> take n a = take n b"

definition strlcpy :: "string \<Rightarrow> nat \<Rightarrow> string" where
  "strlcpy src n = take (n - 1) src"

section \<open>Operations\<close>

text \<open>The search loops; \<open>n\<close> entries are left, from \<open>i\<close> on.\<close>

fun find_iface :: "('a \<Rightarrow> bool) \<Rightarrow> 'a list \<Rightarrow> nat \<Rightarrow> nat \<Rightarrow> nat option option" where
  "find_iface P arr i 0 = Some None"
| "find_iface P arr i (Suc n) =
     (if i \<ge> length arr then None else if P (arr ! i) then Some (Some i) else find_iface P arr (Suc i) n)"

definition set_up :: "ipa_ip_type \<Rightarrow> NatIfaces \<Rightarrow> NatIfaces" where
  "set_up ip_type e =
     (let e = (if ip_type = IPA_IP_v4 then e\<lparr>v4_up := True\<rparr> else e)
      in if ip_type = IPA_IP_v6 then e\<lparr>v6_up := True\<rparr> else e)"

definition AddNatIfaces :: "string \<Rightarrow> ipa_ip_type \<Rightarrow> nat_cfg \<Rightarrow> nat_cfg option" where
  "AddNatIfaces dev_name ip_type s =
     do { found \<leftarrow> find_iface (\<lambda>e. strncmp_eq dev_name (iface_name e) 16) (pNatIfaces s) 0 (ipa_nat_iface_entries s);
          case found of
            Some i \<Rightarrow> Some (s\<lparr>pNatIfaces := (pNatIfaces s)[i := set_up ip_type (pNatIfaces s ! i)]\<rparr>)
          | None \<Rightarrow>
              (let i = ipa_nat_iface_entries s; s = s\<lparr>ipa_nat_iface_entries := i + 1\<rparr>
               in if i + 1 < ipa_num_ipa_interfaces s
                  then if i < length (pNatIfaces s)
                       then Some (s\<lparr>pNatIfaces := (pNatIfaces s)[i := set_up ip_type ((pNatIfaces s ! i)\<lparr>iface_name := strlcpy dev_name 16\<rparr>)]\<rparr>)
                       else None
                  else Some s) }"

text \<open>The entries after the deleted one move down; \<open>n\<close> moves are left.\<close>

fun shift_down :: "NatIfaces list \<Rightarrow> nat \<Rightarrow> nat \<Rightarrow> NatIfaces list option" where
  "shift_down arr i 0 = Some arr"
| "shift_down arr i (Suc n) =
     (if Suc i \<ge> length arr then None else shift_down (arr[i := arr ! Suc i, Suc i := zero_iface]) (Suc i) n)"

definition DelNatIfaces :: "string \<Rightarrow> nat_cfg \<Rightarrow> nat_cfg option" where
  "DelNatIfaces dev_name s =
     do { found \<leftarrow> find_iface (\<lambda>e. dev_name = iface_name e) (pNatIfaces s) 0 (ipa_nat_iface_entries s);
          case found of
            None \<Rightarrow> Some s
          | Some i \<Rightarrow>
              do { arr \<leftarrow> shift_down ((pNatIfaces s)[i := zero_iface]) i (ipa_nat_iface_entries s - 1 - i);
                   Some (s\<lparr>pNatIfaces := arr, ipa_nat_iface_entries := ipa_nat_iface_entries s - 1\<rparr>) } }"

definition CheckNatIfaces :: "string \<Rightarrow> ipa_ip_type \<Rightarrow> nat_cfg \<Rightarrow> int option" where
  "CheckNatIfaces dev_name ip_type s =
     do { found \<leftarrow> find_iface (\<lambda>e. dev_name = iface_name e) (pNatIfaces s) 0 (ipa_nat_iface_entries s);
          case found of
            None \<Rightarrow> Some (-1)
          | Some i \<Rightarrow>
              Some (if ip_type = IPA_IP_v4 \<and> v4_up (pNatIfaces s ! i) then 0
                    else if ip_type = IPA_IP_v6 \<and> v6_up (pNatIfaces s ! i) then 0 else -1) }"

definition GetNatIfaces :: "int \<Rightarrow> nat_cfg \<Rightarrow> (int \<times> string list) option" where
  "GetNatIfaces nIfaces s =
     (if nIfaces \<le> 0 then Some (-1, [])
      else if nat nIfaces > length (pNatIfaces s) then None
      else Some (0, map iface_name (take (nat nIfaces) (pNatIfaces s))))"

section \<open>The table as a map\<close>

text \<open>The interfaces in the table; the rest of the array is blank.\<close>

definition ifaces :: "nat_cfg \<Rightarrow> NatIfaces list" where
  "ifaces s = take (ipa_nat_iface_entries s) (pNatIfaces s)"

definition cfg_ok :: "nat_cfg \<Rightarrow> bool" where
  "cfg_ok s \<longleftrightarrow> length (pNatIfaces s) = ipa_num_ipa_interfaces s \<and> ipa_nat_iface_entries s < ipa_num_ipa_interfaces s \<and>
     distinct (map iface_name (ifaces s)) \<and> (\<forall>e \<in> set (ifaces s). length (iface_name e) \<le> 15) \<and>
     drop (ipa_nat_iface_entries s) (pNatIfaces s) = replicate (ipa_num_ipa_interfaces s - ipa_nat_iface_entries s) zero_iface"

definition iface_map :: "nat_cfg \<Rightarrow> string \<rightharpoonup> bool \<times> bool" where
  "iface_map s = map_of (map (\<lambda>e. (iface_name e, v4_up e, v6_up e)) (ifaces s))"

definition mark_up :: "ipa_ip_type \<Rightarrow> bool \<times> bool \<Rightarrow> bool \<times> bool" where
  "mark_up ip_type p = (fst p \<or> ip_type = IPA_IP_v4, snd p \<or> ip_type = IPA_IP_v6)"

lemma init_ok: "0 < num \<Longrightarrow> cfg_ok (Config_init_nat num) \<and> iface_map (Config_init_nat num) = Map.empty"
  by (simp add: cfg_ok_def Config_init_nat_def ifaces_def iface_map_def)

lemma find_iface_first:
  "i + n \<le> length arr \<Longrightarrow> find_iface P arr i n = Some (map_option (\<lambda>k. i + k) (first_idx P (take n (drop i arr))))"
proof (induction P arr i n rule: find_iface.induct)
  case (2 P arr i n)
  have "take (Suc n) (drop i arr) = arr ! i # take n (drop (Suc i) arr)" using 2(2) by (simp add: Cons_nth_drop_Suc [symmetric])
  with 2 show ?case by (auto simp: option.map_comp comp_def)
qed simp

lemma find_in_table:
  assumes "cfg_ok s"
  shows "find_iface P (pNatIfaces s) 0 (ipa_nat_iface_entries s) = Some (first_idx P (ifaces s))"
proof -
  have "ipa_nat_iface_entries s \<le> length (pNatIfaces s)" using assms by (auto simp: cfg_ok_def)
  then show ?thesis using find_iface_first [of 0 "ipa_nat_iface_entries s" "pNatIfaces s" P] by (simp add: ifaces_def option.map_ident)
qed

lemma first_idx_cong: "(\<And>x. x \<in> set xs \<Longrightarrow> P x = Q x) \<Longrightarrow> first_idx P xs = first_idx Q xs"
  by (induction xs) auto

lemma strncmp_16: "length b \<le> 15 \<Longrightarrow> strncmp_eq a b 16 \<longleftrightarrow> a = b"
proof
  assume b: "length b \<le> 15" and "strncmp_eq a b 16"
  then have "take 16 a = b" by (simp add: strncmp_eq_def)
  moreover from this have "length a \<le> 15" using b by (auto simp: min_def split: if_splits)
  ultimately show "a = b" by simp
qed (simp add: strncmp_eq_def)

lemma table_split:
  assumes "cfg_ok s"
  shows "pNatIfaces s = ifaces s @ replicate (ipa_num_ipa_interfaces s - ipa_nat_iface_entries s) zero_iface" "length (ifaces s) = ipa_nat_iface_entries s"
proof -
  show "pNatIfaces s = ifaces s @ replicate (ipa_num_ipa_interfaces s - ipa_nat_iface_entries s) zero_iface"
    using assms append_take_drop_id [of "ipa_nat_iface_entries s" "pNatIfaces s"] by (simp add: cfg_ok_def ifaces_def)
  show "length (ifaces s) = ipa_nat_iface_entries s" using assms by (auto simp: cfg_ok_def ifaces_def)
qed

lemma iface_map_at: "cfg_ok s \<Longrightarrow> i < length (ifaces s) \<Longrightarrow> iface_map s (iface_name (ifaces s ! i)) = Some (v4_up (ifaces s ! i), v6_up (ifaces s ! i))"
  unfolding iface_map_def by (rule map_of_is_SomeI) (auto simp: cfg_ok_def comp_def)

text \<open>A table that holds the interfaces \<open>es\<close>.\<close>

lemma table_of:
  assumes "length es < n" "distinct (map iface_name es)" "\<forall>e \<in> set es. length (iface_name e) \<le> 15"
  shows "cfg_ok \<lparr>pNatIfaces = es @ replicate (n - length es) zero_iface, ipa_nat_iface_entries = length es, ipa_num_ipa_interfaces = n\<rparr>"
    "ifaces \<lparr>pNatIfaces = es @ replicate (n - length es) zero_iface, ipa_nat_iface_entries = length es, ipa_num_ipa_interfaces = n\<rparr> = es"
  using assms by (auto simp: cfg_ok_def ifaces_def)

lemma cfg_eq: "cfg_ok s \<Longrightarrow> s = \<lparr>pNatIfaces = ifaces s @ replicate (ipa_num_ipa_interfaces s - length (ifaces s)) zero_iface,
    ipa_nat_iface_entries = length (ifaces s), ipa_num_ipa_interfaces = ipa_num_ipa_interfaces s\<rparr>"
  using table_split [of s] by simp

lemma set_up_fields [simp]: "iface_name (set_up t e) = iface_name e" "(v4_up (set_up t e), v6_up (set_up t e)) = mark_up t (v4_up e, v6_up e)"
  by (auto simp: set_up_def mark_up_def)

lemma map_of_upd:
  "i < length es \<Longrightarrow> distinct (map iface_name es) \<Longrightarrow> iface_name e = iface_name (es ! i) \<Longrightarrow>
     map_of (map (\<lambda>e. (iface_name e, v4_up e, v6_up e)) (es[i := e])) = (map_of (map (\<lambda>e. (iface_name e, v4_up e, v6_up e)) es))(iface_name e \<mapsto> (v4_up e, v6_up e))"
proof (induction es arbitrary: i)
  case (Cons x es)
  show ?case
  proof (cases i)
    case (Suc j)
    then have "iface_name x \<noteq> iface_name e" using Cons.prems by auto
    then show ?thesis using Suc Cons by (auto simp: fun_eq_iff)
  qed (use Cons in \<open>auto simp: fun_eq_iff\<close>)
qed simp

lemma AddNatIfaces_map:
  assumes ok: "cfg_ok s" and len: "length dev \<le> 15" and room: "iface_map s dev \<noteq> None \<or> ipa_nat_iface_entries s + 1 < ipa_num_ipa_interfaces s"
  shows "\<exists>s'. AddNatIfaces dev t s = Some s' \<and> cfg_ok s' \<and> ipa_num_ipa_interfaces s' = ipa_num_ipa_interfaces s \<and>
    iface_map s' = (iface_map s)(dev \<mapsto> mark_up t (case iface_map s dev of None \<Rightarrow> (False, False) | Some p \<Rightarrow> p))"
proof -
  let ?es = "ifaces s" and ?n = "ipa_num_ipa_interfaces s"
  have d: "distinct (map iface_name ?es)" "\<forall>e \<in> set ?es. length (iface_name e) \<le> 15" "length ?es < ?n"
    using ok table_split(2) [OF ok] room by (auto simp: cfg_ok_def iface_map_def ifaces_def)
  have f: "find_iface (\<lambda>e. strncmp_eq dev (iface_name e) 16) (pNatIfaces s) 0 (ipa_nat_iface_entries s) = Some (first_idx (\<lambda>e. iface_name e = dev) ?es)"
    unfolding find_in_table [OF ok] using d(2) strncmp_16 by (auto intro!: first_idx_cong)
  show ?thesis
  proof (cases "first_idx (\<lambda>e. iface_name e = dev) ?es")
    case (Some i)
    then have i: "i < length ?es" "iface_name (?es ! i) = dev" using first_idx_SomeD by blast+
    let ?e = "set_up t (?es ! i)" let ?es' = "?es[i := ?e]"
    let ?s = "\<lparr>pNatIfaces = ?es' @ replicate (?n - length ?es') zero_iface, ipa_nat_iface_entries = length ?es', ipa_num_ipa_interfaces = ?n\<rparr>"
    have "map iface_name ?es' = map iface_name ?es" by (metis i(1) list_update_id map_update set_up_fields(1))
    moreover have "\<forall>e \<in> set ?es'. length (iface_name e) \<le> 15"
      using d(2) i(1) set_update_subset_insert [of ?es i ?e] by (fastforce dest: nth_mem)
    ultimately have "cfg_ok ?s" "ifaces ?s = ?es'" using table_of [of ?es' ?n] d(1,3) by simp_all
    moreover have "AddNatIfaces dev t s = Some ?s"
      using f Some table_split [OF ok] i(1) cfg_eq [OF ok] by (simp add: AddNatIfaces_def list_update_append nth_append)
    moreover have "iface_map s dev = Some (v4_up (?es ! i), v6_up (?es ! i))"
      using i iface_map_at [OF ok] by blast
    ultimately show ?thesis using map_of_upd [OF i(1) d(1), of ?e] i(2) by (auto simp: iface_map_def)
  next
    case None
    then have n: "iface_map s dev = None" by (auto simp: iface_map_def map_of_eq_None_iff image_iff)
    then have r: "length ?es + 1 < ?n" using room table_split(2) [OF ok] by simp
    let ?e = "set_up t (zero_iface\<lparr>iface_name := dev\<rparr>)" let ?es' = "?es @ [?e]"
    let ?s = "\<lparr>pNatIfaces = ?es' @ replicate (?n - length ?es') zero_iface, ipa_nat_iface_entries = length ?es', ipa_num_ipa_interfaces = ?n\<rparr>"
    have "distinct (map iface_name ?es')" using None d(1) by (auto simp: image_iff)
    then have "cfg_ok ?s" "ifaces ?s = ?es'" using table_of [of ?es' ?n] d r len by auto
    moreover have "AddNatIfaces dev t s = Some ?s"
    proof -
      obtain k where k: "?n - length ?es = Suc k" using r by (metis Suc_diff_Suc add_lessD1)
      then have k': "?n - length ?es' = k" by simp
      show ?thesis using f None table_split [OF ok] r k len cfg_eq [OF ok] unfolding k'
        by (simp add: AddNatIfaces_def list_update_append nth_append strlcpy_def Let_def)
    qed
    ultimately show ?thesis using n by (auto simp: iface_map_def map_add_def zero_iface_def split: option.split)
  qed
qed

lemma shift_down_eq: "shift_down (xs @ zero_iface # ys @ zs) (length xs) (length ys) = Some (xs @ ys @ zero_iface # zs)"
proof (induction ys arbitrary: xs)
  case (Cons y ys)
  have "(xs @ zero_iface # (y # ys) @ zs)[length xs := y, Suc (length xs) := zero_iface] = (xs @ [y]) @ zero_iface # ys @ zs"
    by (simp add: list_update_append)
  with Cons [of "xs @ [y]"] show ?case by (simp add: nth_append)
qed simp

lemma DelNatIfaces_map:
  assumes ok: "cfg_ok s"
  shows "\<exists>s'. DelNatIfaces dev s = Some s' \<and> cfg_ok s' \<and> ipa_num_ipa_interfaces s' = ipa_num_ipa_interfaces s \<and> iface_map s' = (iface_map s)(dev := None)"
proof -
  let ?es = "ifaces s" and ?n = "ipa_num_ipa_interfaces s"
  have d: "distinct (map iface_name ?es)" "\<forall>e \<in> set ?es. length (iface_name e) \<le> 15" "length ?es < ?n"
    using ok table_split(2) [OF ok] by (auto simp: cfg_ok_def)
  have f: "find_iface (\<lambda>e. dev = iface_name e) (pNatIfaces s) 0 (ipa_nat_iface_entries s) = Some (first_idx (\<lambda>e. dev = iface_name e) ?es)"
    unfolding find_in_table [OF ok] ..
  show ?thesis
  proof (cases "first_idx (\<lambda>e. dev = iface_name e) ?es")
    case None
    then have "iface_map s dev = None" by (auto simp: iface_map_def map_of_eq_None_iff image_iff)
    then show ?thesis using f None ok by (auto simp: DelNatIfaces_def fun_eq_iff)
  next
    case (Some i)
    then have i: "i < length ?es" "iface_name (?es ! i) = dev" using first_idx_SomeD by blast+
    obtain xs x ys where es: "?es = xs @ x # ys" and l: "length xs = i" "iface_name x = dev"
      using id_take_nth_drop [OF i(1)] i by (metis length_take min.absorb4)
    let ?es' = "xs @ ys"
    let ?s = "\<lparr>pNatIfaces = ?es' @ replicate (?n - length ?es') zero_iface, ipa_nat_iface_entries = length ?es', ipa_num_ipa_interfaces = ?n\<rparr>"
    have le: "length ?es = Suc (length xs + length ys)" using es by simp
    have d': "distinct (map iface_name ?es')" "dev \<notin> iface_name ` set ?es'"
      using d(1) l(2) unfolding es by auto
    then have "cfg_ok ?s" "ifaces ?s = ?es'" using table_of [of ?es' ?n] d(2,3) unfolding es by auto
    moreover have "DelNatIfaces dev s = Some ?s"
    proof -
      let ?zs = "replicate (?n - length ?es) zero_iface"
      have "(pNatIfaces s)[i := zero_iface] = xs @ zero_iface # ys @ ?zs"
        unfolding table_split(1) [OF ok] table_split(2) [OF ok, symmetric] using es l(1) by (simp add: list_update_append)
      moreover have "?es' @ replicate (?n - length ?es') zero_iface = xs @ ys @ zero_iface # ?zs"
        using d(3) le by (simp add: Suc_diff_Suc replicate_Suc [symmetric] del: replicate_Suc)
      moreover have "ipa_nat_iface_entries s - 1 - i = length ys" "ipa_nat_iface_entries s - 1 = length ?es'" using le l(1) table_split(2) [OF ok] by auto
      ultimately show ?thesis using f Some shift_down_eq [of xs ys ?zs] l(1) by (simp add: DelNatIfaces_def)
    qed
    moreover have "map_of (map (\<lambda>e. (iface_name e, v4_up e, v6_up e)) ?es') =
        (map_of (map (\<lambda>e. (iface_name e, v4_up e, v6_up e)) ?es))(dev := None)"
    proof -
      have n: "map_of (map (\<lambda>e. (iface_name e, v4_up e, v6_up e)) xs) dev = None" "map_of (map (\<lambda>e. (iface_name e, v4_up e, v6_up e)) ys) dev = None"
        using d'(2) by (auto simp: map_of_eq_None_iff)
      show ?thesis unfolding es by (use n l(2) in \<open>auto simp: fun_eq_iff map_add_def split: option.split\<close>)
    qed
    ultimately show ?thesis by (auto simp: iface_map_def)
  qed
qed

lemma CheckNatIfaces_map:
  assumes ok: "cfg_ok s"
  shows "CheckNatIfaces dev t s = Some (case iface_map s dev of None \<Rightarrow> -1 | Some (a, b) \<Rightarrow> if t = IPA_IP_v4 \<and> a \<or> t = IPA_IP_v6 \<and> b then 0 else -1)"
proof -
  let ?es = "ifaces s"
  have d: "distinct (map iface_name ?es)" using ok by (auto simp: cfg_ok_def)
  have f: "find_iface (\<lambda>e. dev = iface_name e) (pNatIfaces s) 0 (ipa_nat_iface_entries s) = Some (first_idx (\<lambda>e. dev = iface_name e) ?es)"
    unfolding find_in_table [OF ok] ..
  show ?thesis
  proof (cases "first_idx (\<lambda>e. dev = iface_name e) ?es")
    case None
    then have "iface_map s dev = None" by (auto simp: iface_map_def map_of_eq_None_iff image_iff)
    then show ?thesis using f None by (simp add: CheckNatIfaces_def)
  next
    case (Some i)
    then have i: "i < length ?es" "iface_name (?es ! i) = dev" using first_idx_SomeD by blast+
    then have "iface_map s dev = Some (v4_up (?es ! i), v6_up (?es ! i))" using iface_map_at [OF ok] by blast
    moreover have "pNatIfaces s ! i = ?es ! i" using i(1) by (simp add: ifaces_def)
    ultimately show ?thesis using f Some by (simp add: CheckNatIfaces_def)
  qed
qed

lemma find_iface_leaves: "i + k = length arr \<Longrightarrow> \<forall>e \<in> set arr. \<not> P e \<Longrightarrow> find_iface P arr i (Suc k) = None"
  by (induction k arbitrary: i) auto

text \<open>
  The last entry of the array is never filled: the addition that should take it only raises the number of entries, and from the second such addition on, a search for
  an unknown interface leaves the array.
\<close>

lemma table_overflow:
  assumes ok: "cfg_ok s" and full: "ipa_nat_iface_entries s + 1 = ipa_num_ipa_interfaces s" and new: "iface_map s a = None" "iface_map s b = None"
    and names: "a \<noteq> []" "b \<noteq> []"
  shows "\<exists>s1 s2. AddNatIfaces a t s = Some s1 \<and> pNatIfaces s1 = pNatIfaces s \<and> AddNatIfaces b u s1 = Some s2 \<and> CheckNatIfaces a t s2 = None"
proof -
  let ?es = "ifaces s" and ?n = "ipa_num_ipa_interfaces s"
  have "?n - ipa_nat_iface_entries s = Suc 0" using full by simp
  then have arr: "pNatIfaces s = ?es @ [zero_iface]" "length ?es + 1 = ?n" using table_split [OF ok] full by simp_all
  have no: "\<not> strncmp_eq x (iface_name e) 16" "x \<noteq> iface_name e" if "x \<in> {a, b}" "e \<in> set (?es @ [zero_iface])" for x e
  proof -
    show x: "x \<noteq> iface_name e" using that new names by (auto simp: iface_map_def map_of_eq_None_iff zero_iface_def image_iff)
    have "length (iface_name e) \<le> 15" using that(2) ok by (auto simp: cfg_ok_def zero_iface_def)
    then show "\<not> strncmp_eq x (iface_name e) 16" using x strncmp_16 by blast
  qed
  have f1: "find_iface (\<lambda>e. strncmp_eq a (iface_name e) 16) (pNatIfaces s) 0 (ipa_nat_iface_entries s) = Some None"
    unfolding find_in_table [OF ok] using no [of a] by simp
  let ?s1 = "s\<lparr>ipa_nat_iface_entries := ?n\<rparr>" and ?s2 = "s\<lparr>ipa_nat_iface_entries := Suc ?n\<rparr>"
  have "AddNatIfaces a t s = Some ?s1" using f1 full by (simp add: AddNatIfaces_def)
  moreover have f2: "find_iface (\<lambda>e. strncmp_eq b (iface_name e) 16) (pNatIfaces s) 0 ?n = Some None"
    unfolding arr(1) using find_iface_first [of 0 ?n "?es @ [zero_iface]"] arr(2) no [of b] by simp
  then have "AddNatIfaces b u ?s1 = Some ?s2" by (simp add: AddNatIfaces_def)
  moreover have "find_iface (\<lambda>e. a = iface_name e) (pNatIfaces s) 0 (Suc ?n) = None"
    by (rule find_iface_leaves) (use arr no(2) [of a] in auto)
  then have "CheckNatIfaces a t ?s2 = None" by (simp add: CheckNatIfaces_def)
  ultimately show ?thesis by auto
qed

section \<open>Runs\<close>

datatype cfg_op = Cfg_add string ipa_ip_type | Cfg_del string

fun cfg_step :: "nat_cfg \<Rightarrow> cfg_op \<Rightarrow> nat_cfg option" where
  "cfg_step s (Cfg_add dev t) = AddNatIfaces dev t s"
| "cfg_step s (Cfg_del dev) = DelNatIfaces dev s"

text \<open>A new interface finds an entry that the code fills.\<close>

fun cfg_legal :: "nat_cfg \<Rightarrow> cfg_op \<Rightarrow> bool" where
  "cfg_legal s (Cfg_add dev t) \<longleftrightarrow> length dev \<le> 15 \<and> (iface_map s dev \<noteq> None \<or> ipa_nat_iface_entries s + 1 < ipa_num_ipa_interfaces s)"
| "cfg_legal s (Cfg_del dev) \<longleftrightarrow> True"

fun cfg_spec :: "cfg_op \<Rightarrow> (string \<rightharpoonup> bool \<times> bool) \<Rightarrow> string \<rightharpoonup> bool \<times> bool" where
  "cfg_spec (Cfg_add dev t) m = m(dev \<mapsto> mark_up t (case m dev of None \<Rightarrow> (False, False) | Some p \<Rightarrow> p))"
| "cfg_spec (Cfg_del dev) m = m(dev := None)"

lemma cfg_step_map:
  "cfg_ok s \<Longrightarrow> cfg_legal s x \<Longrightarrow> \<exists>s'. cfg_step s x = Some s' \<and> cfg_ok s' \<and> iface_map s' = cfg_spec x (iface_map s)"
  using AddNatIfaces_map [of s] DelNatIfaces_map [of s] by (cases x) fastforce+

interpretation nat_table: safe_component cfg_step cfg_ok cfg_legal
  by unfold_locales (use cfg_step_map in fastforce)+

lemma cfg_run_map:
  "cfg_ok s \<Longrightarrow> legal_run cfg_step cfg_legal s xs \<Longrightarrow> run_steps cfg_step s xs = Some s' \<Longrightarrow> iface_map s' = fold cfg_spec xs (iface_map s)"
proof (induction xs arbitrary: s)
  case (Cons x xs)
  from Cons.prems cfg_step_map [of s x] obtain t where "cfg_step s x = Some t" "cfg_ok t" "iface_map t = cfg_spec x (iface_map s)" by auto
  with Cons show ?case by simp
qed simp

text \<open>
  C38. As long as fewer interfaces are in the table than the configuration allows for, every sequence of additions and deletions stays inside the array, and a check answers
  exactly whether the interface has been set up for that family and not been deleted since.
\<close>

theorem nat_ifaces_refine_map:
  assumes "0 < num" and "legal_run cfg_step cfg_legal (Config_init_nat num) xs"
  shows "\<exists>s. run_steps cfg_step (Config_init_nat num) xs = Some s \<and> iface_map s = fold cfg_spec xs Map.empty \<and>
    (\<forall>dev t. CheckNatIfaces dev t s = Some (case fold cfg_spec xs Map.empty dev of
       None \<Rightarrow> -1 | Some (v4, v6) \<Rightarrow> if t = IPA_IP_v4 \<and> v4 \<or> t = IPA_IP_v6 \<and> v6 then 0 else -1))"
proof -
  have i: "cfg_ok (Config_init_nat num)" "iface_map (Config_init_nat num) = Map.empty" using init_ok [OF assms(1)] by auto
  from nat_table.run_defined [OF i(1) assms(2)] obtain s where s: "run_steps cfg_step (Config_init_nat num) xs = Some s" "cfg_ok s" by blast
  then have "iface_map s = fold cfg_spec xs Map.empty" using cfg_run_map [OF i(1) assms(2) s(1)] i(2) by simp
  then show ?thesis using s CheckNatIfaces_map [OF s(2)] by auto
qed

theorem nat_ifaces_refine_map_witness:
  "\<exists>s. run_steps cfg_step (Config_init_nat 3) [Cfg_add ''wlan0'' IPA_IP_v4, Cfg_add ''rmnet_data0'' IPA_IP_v6, Cfg_add ''wlan0'' IPA_IP_v6, Cfg_del ''rmnet_data0''] = Some s \<and>
     CheckNatIfaces ''wlan0'' IPA_IP_v6 s = Some 0 \<and> CheckNatIfaces ''rmnet_data0'' IPA_IP_v6 s = Some (-1)"
proof -
  let ?xs = "[Cfg_add ''wlan0'' IPA_IP_v4, Cfg_add ''rmnet_data0'' IPA_IP_v6, Cfg_add ''wlan0'' IPA_IP_v6, Cfg_del ''rmnet_data0'']"
  have "legal_run cfg_step cfg_legal (Config_init_nat 3) ?xs" by code_simp
  from nat_ifaces_refine_map [OF _ this] obtain s where
    "run_steps cfg_step (Config_init_nat 3) ?xs = Some s" "\<forall>dev t. CheckNatIfaces dev t s = Some (case fold cfg_spec ?xs Map.empty dev of
       None \<Rightarrow> -1 | Some (v4, v6) \<Rightarrow> if t = IPA_IP_v4 \<and> v4 \<or> t = IPA_IP_v6 \<and> v6 then 0 else -1)" by auto
  then show ?thesis by (simp add: mark_up_def)
qed

end
