(* ===== verification/Neighbor.thy ===== *)
theory Neighbor
  imports CmdQueue NatIfaces
begin

text \<open>
  The neighbour cache of IPACM (\<open>ipacm/src/IPACM_Neighbor.cpp\<close>) and the lookup of interfaces it uses (\<open>IPACM_Iface::iface_ipa_index_query\<close>). The cache remembers
  for up to a hundred clients, by their MAC address, the interface they were last seen on and their IPv4 address. Events of the bridge are reported for the real interface.

  \<open>None\<close>: an access outside an array, or the data of an event read as a different type. The kernel's answer to \<open>SIOCGIFNAME\<close> is the parameter \<open>K\<close>; \<open>mem\<close> is the block
  \<open>malloc\<close> returns, with whatever it holds, or \<open>None\<close>. The events posted to the queue are recorded in order. The build is the one without \<open>FEATURE_L2TP\<close>.
\<close>

section \<open>Data\<close>

type_synonym mac = "u8 list"

record ipa_ifi_dev_name_t =
  ifi_name :: string
  netlink_interface_index :: int

record iface_cfg =
  iface_table :: "ipa_ifi_dev_name_t list option"
  num_ifaces :: nat
  ipa_virtual_iface_name :: string

record ipacm_event_data_all =
  iptype :: ipa_ip_type
  if_index :: int
  ipv4_addr :: u32
  ipv6_addr :: "u32 list"
  mac_addr :: mac
  da_iface_name :: string

datatype ipa_wlan_hdr_attrib_val = WLAN_HDR_ATTRIB_MAC_ADDR mac | WLAN_HDR_ATTRIB_STA_ID u8

record ipacm_event_data_wlan_ex =
  wx_if_index :: int
  num_of_attribs :: u8
  attribs :: "ipa_wlan_hdr_attrib_val list"

datatype neigh_param = Param_wlan_ex ipacm_event_data_wlan_ex | Param_all ipacm_event_data_all

record ipa_neighbor_client =
  nc_mac_addr :: mac
  iface_index :: int
  v4_addr :: u32
  ipa_if_num :: int
  nc_iface_name :: string

record IPACM_Neighbor =
  num_neighbor_client :: nat
  circular_index :: nat
  neighbor_client :: "ipa_neighbor_client list"
  nb_cfg :: iface_cfg
  nb_posted :: "ipacm_event_data_all ipacm_cmd_q_data list"

abbreviation IPA_MAX_NUM_NEIGHBOR_CLIENTS :: nat where
  "IPA_MAX_NUM_NEIGHBOR_CLIENTS \<equiv> 100"

definition zero_mac :: mac where
  "zero_mac = [0, 0, 0, 0, 0, 0]"

definition zero_client :: ipa_neighbor_client where
  "zero_client = \<lparr>nc_mac_addr = zero_mac, iface_index = 0, v4_addr = 0, ipa_if_num = 0, nc_iface_name = ''''\<rparr>"

definition Neighbor_new :: "iface_cfg \<Rightarrow> IPACM_Neighbor" where
  "Neighbor_new cfg = \<lparr>num_neighbor_client = 0, circular_index = 0, neighbor_client = replicate IPA_MAX_NUM_NEIGHBOR_CLIENTS zero_client,
     nb_cfg = cfg, nb_posted = []\<rparr>"

section \<open>The interfaces of the configuration\<close>

definition iface_ipa_index_query :: "(int \<Rightarrow> string option) \<Rightarrow> int \<Rightarrow> iface_cfg \<Rightarrow> (int \<times> iface_cfg) option" where
  "iface_ipa_index_query K interface_index cfg =
     (case iface_table cfg of
        None \<Rightarrow> Some (-1, cfg)
      | Some tab \<Rightarrow>
          do { known \<leftarrow> find_iface (\<lambda>e. interface_index = netlink_interface_index e) tab 0 (num_ifaces cfg);
               case known of
                 Some i \<Rightarrow> Some (int i, cfg)
               | None \<Rightarrow>
                   (case K interface_index of
                      None \<Rightarrow> Some (IPACM_FAILURE, cfg)
                    | Some ifr_name \<Rightarrow>
                        do { found \<leftarrow> find_iface (\<lambda>e. strncmp_eq ifr_name (ifi_name e) 16) tab 0 (num_ifaces cfg);
                             case found of
                               None \<Rightarrow> Some (-1, cfg)
                             | Some i \<Rightarrow> Some (int i, cfg\<lparr>iface_table := Some (tab[i := (tab ! i)\<lparr>netlink_interface_index := interface_index\<rparr>])\<rparr>) }) })"

definition nb_query :: "(int \<Rightarrow> string option) \<Rightarrow> int \<Rightarrow> IPACM_Neighbor \<Rightarrow> (int \<times> IPACM_Neighbor) option" where
  "nb_query K index s = do { (idx, cfg) \<leftarrow> iface_ipa_index_query K index (nb_cfg s); Some (idx, s\<lparr>nb_cfg := cfg\<rparr>) }"

section \<open>Changes of the cache\<close>

text \<open>The search for a client, by its MAC address.\<close>

definition find_client :: "mac \<Rightarrow> IPACM_Neighbor \<Rightarrow> nat option option" where
  "find_client m s = find_iface (\<lambda>c. nc_mac_addr c = m) (neighbor_client s) 0 (num_neighbor_client s)"

definition set_client :: "nat \<Rightarrow> ipa_neighbor_client \<Rightarrow> IPACM_Neighbor \<Rightarrow> IPACM_Neighbor" where
  "set_client i c s = s\<lparr>neighbor_client := (neighbor_client s)[i := c]\<rparr>"

text \<open>The entries after the deleted one move down; \<open>n\<close> moves are left. The last of them stays as a copy in the slot after the used ones.\<close>

fun shift_clients :: "ipa_neighbor_client list \<Rightarrow> nat \<Rightarrow> nat \<Rightarrow> ipa_neighbor_client list option" where
  "shift_clients arr i 0 = Some arr"
| "shift_clients arr i (Suc n) =
     (if Suc i \<ge> length arr then None
      else shift_clients (arr[i := (arr ! Suc i)\<lparr>nc_iface_name := strlcpy (nc_iface_name (arr ! Suc i)) 16\<rparr>]) (Suc i) n)"

definition clean_client :: "nat \<Rightarrow> IPACM_Neighbor \<Rightarrow> IPACM_Neighbor option" where
  "clean_client i s =
     do { arr \<leftarrow> shift_clients ((neighbor_client s)[i := zero_client]) i (num_neighbor_client s - 1 - i);
          Some (s\<lparr>neighbor_client := arr, num_neighbor_client := num_neighbor_client s - 1\<rparr>) }"

text \<open>A new client takes the next free slot, with the address \<open>addr\<close>; when there is none, the slot at \<open>circular_index\<close>, without an address.\<close>

definition cache_client :: "ipacm_event_data_all \<Rightarrow> int \<Rightarrow> u32 \<Rightarrow> IPACM_Neighbor \<Rightarrow> IPACM_Neighbor option" where
  "cache_client d idx addr s =
     (let c = \<lparr>nc_mac_addr = mac_addr d, iface_index = if_index d, v4_addr = addr, ipa_if_num = idx, nc_iface_name = strlcpy (da_iface_name d) 16\<rparr>;
          n = num_neighbor_client s
      in if n < IPA_MAX_NUM_NEIGHBOR_CLIENTS
         then if n < length (neighbor_client s) then Some ((set_client n c s)\<lparr>num_neighbor_client := n + 1\<rparr>) else None
         else if circular_index s < length (neighbor_client s)
              then Some ((set_client (circular_index s) (c\<lparr>v4_addr := 0\<rparr>) s)\<lparr>circular_index := (circular_index s + 1) mod IPA_MAX_NUM_NEIGHBOR_CLIENTS\<rparr>)
              else None)"

section \<open>Posting events\<close>

definition out_event :: "ipa_cm_event_id \<Rightarrow> ipa_cm_event_id" where
  "out_event ev = (if ev = IPA_NEW_NEIGH_EVENT then IPA_NEIGH_CLIENT_IP_ADDR_ADD_EVENT else IPA_NEIGH_CLIENT_IP_ADDR_DEL_EVENT)"

definition nb_post :: "ipa_cm_event_id \<Rightarrow> ipacm_event_data_all \<Rightarrow> IPACM_Neighbor \<Rightarrow> IPACM_Neighbor" where
  "nb_post ev d s = s\<lparr>nb_posted := nb_posted s @ [\<lparr>event = ev, evt_data = Some d\<rparr>]\<rparr>"

text \<open>The cached address of a client, filled into the block \<open>d\<close>.\<close>

definition cached_data :: "ipa_neighbor_client \<Rightarrow> ipacm_event_data_all \<Rightarrow> ipacm_event_data_all" where
  "cached_data c d = d\<lparr>iptype := IPA_IP_v4, if_index := iface_index c, ipv4_addr := v4_addr c, mac_addr := nc_mac_addr c,
     da_iface_name := strlcpy (nc_iface_name c) 16\<rparr>"

definition zero_data :: ipacm_event_data_all where
  "zero_data = \<lparr>iptype = IPA_IP_v4, if_index = 0, ipv4_addr = 0, ipv6_addr = [0, 0, 0, 0], mac_addr = zero_mac, da_iface_name = ''''\<rparr>"

section \<open>Events\<close>

definition client_mac_addr :: "ipa_wlan_hdr_attrib_val list \<Rightarrow> mac" where
  "client_mac_addr as = foldl (\<lambda>m a. case a of WLAN_HDR_ATTRIB_MAC_ADDR m' \<Rightarrow> m' | WLAN_HDR_ATTRIB_STA_ID _ \<Rightarrow> m) zero_mac as"

definition table_name :: "int \<Rightarrow> iface_cfg \<Rightarrow> string option" where
  "table_name idx cfg =
     (case iface_table cfg of
        None \<Rightarrow> None
      | Some tab \<Rightarrow> if 0 \<le> idx \<and> nat idx < length tab then Some (ifi_name (tab ! nat idx)) else None)"

definition wlan_client_add_ex :: "(int \<Rightarrow> string option) \<Rightarrow> ipacm_event_data_all option \<Rightarrow> ipacm_event_data_wlan_ex \<Rightarrow> IPACM_Neighbor \<Rightarrow> IPACM_Neighbor option" where
  "wlan_client_add_ex K mem d s =
     do { (idx, s) \<leftarrow> nb_query K (wx_if_index d) s;
          if idx = IPACM_FAILURE then Some s
          else if unat (num_of_attribs d) > length (attribs d) then None
          else do {
            found \<leftarrow> find_client (client_mac_addr (take (unat (num_of_attribs d)) (attribs d))) s;
            case found of
              None \<Rightarrow> Some s
            | Some i \<Rightarrow>
                do { name \<leftarrow> table_name idx (nb_cfg s);
                     if ipa_virtual_iface_name (nb_cfg s) = name then Some s
                     else let c = (neighbor_client s ! i)\<lparr>iface_index := wx_if_index d\<rparr>; s = set_client i c s
                          in if idx \<noteq> ipa_if_num c \<or> v4_addr c = 0 \<or> mem = None then Some s
                             else do { (idx, s) \<leftarrow> nb_query K (iface_index c) (nb_post IPA_NEIGH_CLIENT_IP_ADDR_ADD_EVENT
                                         ((cached_data c zero_data)\<lparr>da_iface_name := nc_iface_name c\<rparr>) s);
                                       Some s } } } }"

text \<open>On the bridge: the event is given the client's real interface, in place, and posted. \<open>learn\<close>: the IPv4 address is cached.\<close>

definition neigh_bridge :: "(int \<Rightarrow> string option) \<Rightarrow> ipacm_event_data_all option \<Rightarrow> ipa_cm_event_id \<Rightarrow> bool \<Rightarrow> ipacm_event_data_all \<Rightarrow> IPACM_Neighbor
    \<Rightarrow> (IPACM_Neighbor \<times> ipacm_event_data_all) option" where
  "neigh_bridge K mem ev learn d s =
     do { found \<leftarrow> find_client (mac_addr d) s;
          case found of
            None \<Rightarrow> Some (s, d)
          | Some i \<Rightarrow>
              (let c = neighbor_client s ! i;
                   d = d\<lparr>if_index := iface_index c, da_iface_name := strlcpy (nc_iface_name c) 16\<rparr>;
                   s = (if learn then set_client i (c\<lparr>v4_addr := ipv4_addr d\<rparr>) s else s)
               in if mem = None then Some (s, d)
                  else do { (idx, s) \<leftarrow> nb_query K (if_index d) (nb_post (out_event ev) d s); Some (s, d) }) }"

definition post_copy :: "ipacm_event_data_all option \<Rightarrow> ipa_cm_event_id \<Rightarrow> ipacm_event_data_all \<Rightarrow> IPACM_Neighbor \<Rightarrow> IPACM_Neighbor" where
  "post_copy mem ev d s = (if mem = None then s else nb_post (out_event ev) d s)"

definition neigh_v4 :: "ipacm_event_data_all option \<Rightarrow> ipa_cm_event_id \<Rightarrow> int \<Rightarrow> ipacm_event_data_all \<Rightarrow> IPACM_Neighbor \<Rightarrow> IPACM_Neighbor option" where
  "neigh_v4 mem ev idx d s =
     do { found \<leftarrow> find_client (mac_addr d) s;
          s \<leftarrow> (if ev = IPA_NEW_NEIGH_EVENT
                then (case found of
                        Some i \<Rightarrow> Some (set_client i ((neighbor_client s ! i)\<lparr>iface_index := if_index d, ipa_if_num := idx, v4_addr := ipv4_addr d,
                                      nc_iface_name := strlcpy (da_iface_name d) 16\<rparr>) s)
                      | None \<Rightarrow> cache_client d idx (ipv4_addr d) s)
                else (case found of Some i \<Rightarrow> clean_client i s | None \<Rightarrow> Some s));
          Some (post_copy mem ev d s) }"

text \<open>No address: the client's link is up or down.\<close>

definition neigh_no_addr :: "ipacm_event_data_all option \<Rightarrow> ipa_cm_event_id \<Rightarrow> int \<Rightarrow> ipacm_event_data_all \<Rightarrow> IPACM_Neighbor \<Rightarrow> IPACM_Neighbor option" where
  "neigh_no_addr mem ev idx d s =
     (let bridge = (ipa_virtual_iface_name (nb_cfg s) = da_iface_name d) in
      do { found \<leftarrow> find_client (mac_addr d) s;
           case found of
             None \<Rightarrow> if ev = IPA_NEW_NEIGH_EVENT \<and> \<not> bridge then cache_client d idx 0 s else Some s
           | Some i \<Rightarrow>
               (let c = neighbor_client s ! i;
                    c = (if \<not> bridge \<and> if_index d \<noteq> iface_index c
                         then c\<lparr>iface_index := if_index d, nc_iface_name := strlcpy (da_iface_name d) 16\<rparr> else c);
                    s = set_client i c s;
                    clean = (\<lambda>s. if ev = IPA_DEL_NEIGH_EVENT then clean_client i s else Some s)
                in if \<not> bridge \<and> v4_addr c \<noteq> 0
                   then (case mem of None \<Rightarrow> Some s | Some blk \<Rightarrow> clean (nb_post (out_event ev) (cached_data c blk) s))
                   else clean s) })"

definition IPV4_ADDR_LINKLOCAL :: u32 where
  "IPV4_ADDR_LINKLOCAL = 0xA9FE0000"

definition link_local :: "u32 \<Rightarrow> bool" where
  "link_local a \<longleftrightarrow> and a 0xFFFF0000 = IPV4_ADDR_LINKLOCAL"

definition neigh_event :: "(int \<Rightarrow> string option) \<Rightarrow> ipacm_event_data_all option \<Rightarrow> ipa_cm_event_id \<Rightarrow> ipacm_event_data_all \<Rightarrow> IPACM_Neighbor
    \<Rightarrow> (IPACM_Neighbor \<times> ipacm_event_data_all) option" where
  "neigh_event K mem ev d s =
     do { (idx, s) \<leftarrow> nb_query K (if_index d) s;
          let bridge = (ipa_virtual_iface_name (nb_cfg s) = da_iface_name d) in
          if idx = IPACM_FAILURE then Some (s, d)
          else if iptype d = IPA_IP_v4
          then if ipv4_addr d = 0 \<or> link_local (ipv4_addr d) then Some (s, d)
               else if bridge then neigh_bridge K mem ev True d s
               else map_option (\<lambda>s. (s, d)) (neigh_v4 mem ev idx d s)
          else if \<exists>w \<in> set (ipv6_addr d). w \<noteq> 0
          then if bridge then neigh_bridge K mem ev False d s else Some (post_copy mem ev d s, d)
          else map_option (\<lambda>s. (s, d)) (neigh_no_addr mem ev idx d s) }"

definition event_callback_neighbor :: "(int \<Rightarrow> string option) \<Rightarrow> ipacm_event_data_all option \<Rightarrow> ipa_cm_event_id \<Rightarrow> neigh_param \<Rightarrow> IPACM_Neighbor
    \<Rightarrow> (IPACM_Neighbor \<times> neigh_param) option" where
  "event_callback_neighbor K mem ev p s =
     (if ev = IPA_WLAN_CLIENT_ADD_EVENT_EX
      then (case p of Param_wlan_ex d \<Rightarrow> map_option (\<lambda>s. (s, p)) (wlan_client_add_ex K mem d s) | Param_all _ \<Rightarrow> None)
      else (case p of Param_all d \<Rightarrow> map_option (\<lambda>(s, d). (s, Param_all d)) (neigh_event K mem ev d s) | Param_wlan_ex _ \<Rightarrow> None))"

section \<open>The cache as a map\<close>

definition used :: "IPACM_Neighbor \<Rightarrow> ipa_neighbor_client list" where
  "used s = take (num_neighbor_client s) (neighbor_client s)"

definition clients :: "IPACM_Neighbor \<Rightarrow> mac \<rightharpoonup> ipa_neighbor_client" where
  "clients s = slot_map (\<lambda>_. True) nc_mac_addr (used s)"

definition client_ok :: "string \<Rightarrow> ipa_neighbor_client \<Rightarrow> bool" where
  "client_ok bridge c \<longleftrightarrow> length (nc_iface_name c) \<le> 15 \<and> nc_iface_name c \<noteq> bridge \<and> \<not> link_local (v4_addr c)"

definition table_ok :: "iface_cfg \<Rightarrow> bool" where
  "table_ok cfg \<longleftrightarrow> (\<forall>tab. iface_table cfg = Some tab \<longrightarrow> length tab = num_ifaces cfg)"

text \<open>The invariant: no array is left, no MAC address is cached twice, and no client is cached for the bridge or with a link-local address.\<close>

definition nb_ok :: "IPACM_Neighbor \<Rightarrow> bool" where
  "nb_ok s \<longleftrightarrow> length (neighbor_client s) = IPA_MAX_NUM_NEIGHBOR_CLIENTS \<and> num_neighbor_client s \<le> IPA_MAX_NUM_NEIGHBOR_CLIENTS \<and>
     circular_index s < IPA_MAX_NUM_NEIGHBOR_CLIENTS \<and> distinct (map nc_mac_addr (used s)) \<and>
     (\<forall>c \<in> set (used s). client_ok (ipa_virtual_iface_name (nb_cfg s)) c) \<and> table_ok (nb_cfg s)"

lemma link_local_0 [simp]: "\<not> link_local 0"
  by (simp add: link_local_def IPV4_ADDR_LINKLOCAL_def)

lemma strlcpy_id [simp]: "length n \<le> 15 \<Longrightarrow> strlcpy n 16 = n"
  by (simp add: strlcpy_def)

lemma Neighbor_new_ok: "table_ok cfg \<Longrightarrow> nb_ok (Neighbor_new cfg)"
  by (simp add: nb_ok_def Neighbor_new_def used_def)

lemma slot_map_upd_same:
  "i < length cs \<Longrightarrow> key y = key (cs ! i) \<Longrightarrow> distinct (map key cs) \<Longrightarrow>
     slot_map (\<lambda>_. True) key (cs[i := y]) = (slot_map (\<lambda>_. True) key cs)(key y \<mapsto> y)"
proof (induction cs arbitrary: i)
  case (Cons x cs)
  show ?case
  proof (cases i)
    case (Suc j)
    with Cons.prems have "key x \<noteq> key y" by auto
    with Suc Cons show ?thesis by (auto simp: fun_eq_iff)
  qed (use Cons in \<open>auto simp: fun_eq_iff\<close>)
qed simp

lemma slot_map_append: "slot_map U key (xs @ ys) = slot_map U key ys ++ slot_map U key xs"
  by (induction xs) (auto simp: fun_eq_iff map_add_def)

lemma slot_map_fresh: "(\<forall>x \<in> set xs. key x \<noteq> k) \<Longrightarrow> slot_map U key xs k = None"
  by (induction xs) auto

lemma slot_map_remove:
  "i < length cs \<Longrightarrow> distinct (map key cs) \<Longrightarrow>
     slot_map (\<lambda>_. True) key (take i cs @ drop (Suc i) cs) = (slot_map (\<lambda>_. True) key cs)(key (cs ! i) := None)"
proof (induction cs arbitrary: i)
  case (Cons x cs)
  show ?case
  proof (cases i)
    case 0
    have "slot_map (\<lambda>_. True) key cs (key x) = None" using Cons.prems by (intro slot_map_fresh) (metis distinct.simps(2) image_eqI list.set_map list.simps(9))
    with 0 show ?thesis by (auto simp: fun_eq_iff)
  next
    case (Suc j)
    with Cons.prems have "key x \<noteq> key (cs ! j)" by auto
    with Suc Cons show ?thesis by (auto simp: fun_eq_iff)
  qed
qed simp

text \<open>What the search finds.\<close>

lemma find_client_None:
  assumes "nb_ok s" "clients s m = None"
  shows "find_client m s = Some None" "\<forall>c \<in> set (used s). nc_mac_addr c \<noteq> m"
proof -
  show "\<forall>c \<in> set (used s). nc_mac_addr c \<noteq> m" using assms(2) slot_map_dom [of "\<lambda>_. True" nc_mac_addr "used s"] by (auto simp: clients_def domIff)
  then show "find_client m s = Some None" using assms(1) find_iface_first [of 0 "num_neighbor_client s" "neighbor_client s"]
    by (simp add: find_client_def nb_ok_def used_def)
qed

lemma find_client_Some:
  assumes "nb_ok s" "clients s m = Some c"
  obtains i where "find_client m s = Some (Some i)" "i < num_neighbor_client s" "neighbor_client s ! i = c" "used s ! i = c" "nc_mac_addr c = m"
    "length (used s) = num_neighbor_client s" "c \<in> set (used s)"
proof -
  have c: "c \<in> set (used s)" "nc_mac_addr c = m" using slot_map_SomeD [OF assms(2) [unfolded clients_def]] by simp_all
  then obtain i where i: "first_idx (\<lambda>c. nc_mac_addr c = m) (used s) = Some i"
    using first_idx_ex [of c "used s" "\<lambda>c. nc_mac_addr c = m"] by auto
  have len: "length (used s) = num_neighbor_client s" using assms(1) by (simp add: used_def nb_ok_def)
  have "i < length (used s)" "nc_mac_addr (used s ! i) = m" using first_idx_SomeD [OF i] by auto
  moreover obtain j where "j < length (used s)" "used s ! j = c" using c(1) by (auto simp: in_set_conv_nth)
  moreover have "distinct (map nc_mac_addr (used s))" using assms(1) by (simp add: nb_ok_def)
  ultimately have "i < length (used s)" "used s ! i = c" using c(2) nth_eq_iff_index_eq [of "map nc_mac_addr (used s)" i j] by auto
  moreover have "find_client m s = Some (Some i)" using i assms(1) find_iface_first [of 0 "num_neighbor_client s" "neighbor_client s"]
    by (simp add: find_client_def nb_ok_def used_def option.map_ident)
  ultimately show ?thesis using that \<open>i < length (used s)\<close> len c by (simp add: used_def)
qed

text \<open>The three ways the cache changes.\<close>

lemma set_client_ok:
  assumes ok: "nb_ok s" and i: "i < num_neighbor_client s" and m: "nc_mac_addr c = nc_mac_addr (used s ! i)" and c: "client_ok (ipa_virtual_iface_name (nb_cfg s)) c"
  shows "nb_ok (set_client i c s)" "clients (set_client i c s) = (clients s)(nc_mac_addr c \<mapsto> c)"
proof -
  have u: "used (set_client i c s) = (used s)[i := c]" "i < length (used s)" using ok i by (simp_all add: used_def set_client_def take_update_swap nb_ok_def)
  have mm: "map nc_mac_addr ((used s)[i := c]) = map nc_mac_addr (used s)" using m by (simp add: map_update list_update_same_conv u(2))
  show "nb_ok (set_client i c s)" using ok c mm unfolding nb_ok_def u by (auto simp: set_client_def dest: set_update_subset_insert [THEN subsetD])
  show "clients (set_client i c s) = (clients s)(nc_mac_addr c \<mapsto> c)" unfolding clients_def u(1) using slot_map_upd_same u(2) m ok by (metis nb_ok_def)
qed

lemma shift_clients_take:
  "i + n < length arr \<Longrightarrow> (\<forall>j \<le> n. length (nc_iface_name (arr ! (i + j))) \<le> 15) \<Longrightarrow>
     \<exists>arr'. shift_clients arr i n = Some arr' \<and> length arr' = length arr \<and> take (i + n) arr' = take i arr @ take n (drop (Suc i) arr)"
proof (induction n arbitrary: arr i)
  case (Suc n)
  let ?a = "arr[i := arr ! Suc i]"
  have name: "length (nc_iface_name (arr ! Suc i)) \<le> 15" using Suc.prems(2) [rule_format, of 1] by simp
  have "\<forall>j \<le> n. length (nc_iface_name (?a ! (Suc i + j))) \<le> 15" using Suc.prems(2) [rule_format, of "Suc _"] by simp
  then obtain arr' where a: "shift_clients ?a (Suc i) n = Some arr'" "length arr' = length arr"
      "take (Suc i + n) arr' = take (Suc i) ?a @ take n (drop (Suc (Suc i)) ?a)"
    using Suc.IH [of "Suc i" ?a] Suc.prems(1) by auto
  have "take (Suc i) ?a = take i arr @ [arr ! Suc i]" using Suc.prems(1) by (simp add: take_Suc_conv_app_nth)
  moreover have "drop (Suc i) arr = arr ! Suc i # drop (Suc (Suc i)) arr" using Suc.prems(1) by (simp add: Cons_nth_drop_Suc)
  ultimately show ?case using a name Suc.prems(1) by simp
qed simp

lemma slot_map_replace:
  "i < length cs \<Longrightarrow> distinct (map key cs) \<Longrightarrow> (\<forall>c \<in> set cs. key c \<noteq> key y) \<Longrightarrow>
     slot_map (\<lambda>_. True) key (cs[i := y]) = ((slot_map (\<lambda>_. True) key cs)(key (cs ! i) := None))(key y \<mapsto> y)"
proof (induction cs arbitrary: i)
  case (Cons x cs)
  show ?case
  proof (cases i)
    case 0
    have "slot_map (\<lambda>_. True) key cs (key x) = None"
      using Cons.prems by (intro slot_map_fresh) (metis distinct.simps(2) image_eqI list.set_map list.simps(9))
    with 0 show ?thesis by (auto simp: fun_eq_iff)
  next
    case (Suc j)
    with Cons.prems have "key x \<noteq> key (cs ! j)" by auto
    with Suc Cons show ?thesis by (auto simp: fun_eq_iff)
  qed
qed simp

text \<open>An entry is forgotten; the slots after it move down.\<close>

lemma clean_client_ok:
  assumes ok: "nb_ok s" and i: "i < num_neighbor_client s"
  shows "\<exists>s'. clean_client i s = Some s' \<and> nb_ok s' \<and> clients s' = (clients s)(nc_mac_addr (used s ! i) := None) \<and> nb_cfg s' = nb_cfg s \<and> nb_posted s' = nb_posted s"
proof -
  let ?n = "num_neighbor_client s" and ?arr = "neighbor_client s" let ?a = "?arr[i := zero_client]"
  have n: "?n \<le> 100" "length ?arr = 100" "distinct (map nc_mac_addr (used s))" "length (used s) = ?n" using ok by (auto simp: nb_ok_def used_def)
  have used: "used s ! j = ?arr ! j" if "j < ?n" for j using that by (simp add: used_def)
  have names: "length (nc_iface_name (?a ! (i + j))) \<le> 15" if "j \<le> ?n - 1 - i" for j
  proof (cases j)
    case (Suc k)
    with that i have "i + j < ?n" by simp
    then have "?arr ! (i + j) \<in> set (used s)" using used n by (metis nth_mem)
    then show ?thesis using Suc ok by (auto simp: nb_ok_def client_ok_def)
  qed (use i n in \<open>simp add: zero_client_def\<close>)
  have e: "i + (?n - 1 - i) = ?n - 1" and lt: "?n - 1 < length ?a" using i n by simp_all
  from shift_clients_take [of i "?n - 1 - i" ?a, unfolded e, OF lt] names n(2)
  obtain arr where arr: "shift_clients ?a i (?n - 1 - i) = Some arr" "length arr = 100" "take (?n - 1) arr = take i ?a @ take (?n - 1 - i) (drop (Suc i) ?a)"
    by (metis length_list_update)
  let ?s' = "s\<lparr>neighbor_client := arr, num_neighbor_client := ?n - 1\<rparr>"
  have u: "used ?s' = take i (used s) @ drop (Suc i) (used s)"
    using arr(3) i by (simp add: used_def drop_take min_def)
  have d: "distinct (map nc_mac_addr (used ?s'))" unfolding u
    using distinct_take [OF n(3), of i] distinct_drop [OF n(3), of "Suc i"] set_take_disj_set_drop_if_distinct [OF n(3), of i "Suc i"]
    by (simp add: take_map drop_map)
  have "nb_ok ?s'" using ok d arr(2) n i unfolding nb_ok_def u by (auto dest: in_set_takeD in_set_dropD)
  moreover have "clients ?s' = (clients s)(nc_mac_addr (used s ! i) := None)" unfolding clients_def u using slot_map_remove i n by metis
  ultimately show ?thesis using arr(1) by (simp add: clean_client_def)
qed

text \<open>A new client; the one whose slot is taken, if any.\<close>

definition victim :: "IPACM_Neighbor \<Rightarrow> mac option" where
  "victim s = (if num_neighbor_client s < IPA_MAX_NUM_NEIGHBOR_CLIENTS then None else Some (nc_mac_addr (neighbor_client s ! circular_index s)))"

definition new_client :: "ipacm_event_data_all \<Rightarrow> int \<Rightarrow> u32 \<Rightarrow> ipa_neighbor_client" where
  "new_client d idx addr = \<lparr>nc_mac_addr = mac_addr d, iface_index = if_index d, v4_addr = addr, ipa_if_num = idx, nc_iface_name = da_iface_name d\<rparr>"

definition remember :: "mac option \<Rightarrow> ipa_neighbor_client \<Rightarrow> (mac \<rightharpoonup> ipa_neighbor_client) \<Rightarrow> (mac \<rightharpoonup> ipa_neighbor_client)" where
  "remember v c m = (case v of None \<Rightarrow> m(nc_mac_addr c \<mapsto> c) | Some old \<Rightarrow> (m(old := None))(nc_mac_addr c \<mapsto> c\<lparr>v4_addr := 0\<rparr>))"

lemma cache_client_ok:
  assumes ok: "nb_ok s" and fresh: "clients s (mac_addr d) = None" and name: "length (da_iface_name d) \<le> 15" "da_iface_name d \<noteq> ipa_virtual_iface_name (nb_cfg s)"
    and addr: "\<not> link_local addr"
  shows "\<exists>s'. cache_client d idx addr s = Some s' \<and> nb_ok s' \<and> clients s' = remember (victim s) (new_client d idx addr) (clients s) \<and>
    nb_cfg s' = nb_cfg s \<and> nb_posted s' = nb_posted s"
proof -
  let ?n = "num_neighbor_client s" and ?c = "new_client d idx addr" and ?i = "circular_index s"
  have n: "length (neighbor_client s) = 100" "distinct (map nc_mac_addr (used s))" "?i < 100" using ok by (auto simp: nb_ok_def)
  have no: "\<forall>c \<in> set (used s). nc_mac_addr c \<noteq> mac_addr d" by (rule find_client_None(2) [OF ok fresh])
  have c: "client_ok (ipa_virtual_iface_name (nb_cfg s)) ?c" "client_ok (ipa_virtual_iface_name (nb_cfg s)) (?c\<lparr>v4_addr := 0\<rparr>)"
    "nc_mac_addr ?c = mac_addr d" using name addr by (auto simp: client_ok_def new_client_def)
  show ?thesis
  proof (cases "?n < 100")
    case True
    let ?s' = "(set_client ?n ?c s)\<lparr>num_neighbor_client := ?n + 1\<rparr>"
    have u: "used ?s' = used s @ [?c]" using True n by (simp add: used_def set_client_def take_Suc_conv_app_nth)
    have "nb_ok ?s'" using ok True c(1) no unfolding nb_ok_def u by (auto simp: set_client_def new_client_def)
    moreover have "clients ?s' = (clients s)(mac_addr d \<mapsto> ?c)" using fresh c(3) unfolding clients_def u
      by (auto simp: slot_map_append fun_eq_iff map_add_def split: option.splits)
    ultimately show ?thesis using True n name c(3) by (auto simp: cache_client_def remember_def victim_def new_client_def set_client_def Let_def)
  next
    case False
    with ok have num: "?n = 100" by (simp add: nb_ok_def)
    let ?y = "?c\<lparr>v4_addr := 0\<rparr>" let ?s' = "(set_client ?i ?y s)\<lparr>circular_index := (?i + 1) mod 100\<rparr>"
    have us: "used s = neighbor_client s" using num n by (simp add: used_def)
    have u: "used ?s' = (used s)[?i := ?y]" using num n by (simp add: used_def set_client_def)
    have "distinct (map nc_mac_addr ((used s)[?i := ?y]))" using n(2) no c(3) by (fastforce simp: map_update intro!: distinct_list_update)
    then have "nb_ok ?s'" using ok c(2) unfolding nb_ok_def u by (auto simp: set_client_def dest: set_update_subset_insert [THEN subsetD])
    moreover have "clients ?s' = ((clients s)(nc_mac_addr (used s ! ?i) := None))(mac_addr d \<mapsto> ?y)" unfolding clients_def u
      using slot_map_replace [of ?i "used s" nc_mac_addr ?y] n no c(3) us by simp
    ultimately show ?thesis using False n name c(3) us by (auto simp: cache_client_def remember_def victim_def new_client_def set_client_def Let_def)
  qed
qed

text \<open>Looking up an interface keeps the configuration in order and touches nothing else.\<close>

lemma find_iface_total: "n \<le> length tab \<Longrightarrow> \<exists>r. find_iface P tab 0 n = Some r \<and> (\<forall>i. r = Some i \<longrightarrow> i < n)"
  using find_iface_first [of 0 n tab P] by (auto simp: option.map_ident dest: first_idx_SomeD)

lemma iface_ipa_index_query_ok:
  assumes "table_ok cfg"
  shows "\<exists>idx cfg'. iface_ipa_index_query K index cfg = Some (idx, cfg') \<and> table_ok cfg' \<and> ipa_virtual_iface_name cfg' = ipa_virtual_iface_name cfg \<and>
    (idx = IPACM_FAILURE \<or> (\<exists>name. table_name idx cfg' = Some name))"
proof (cases "iface_table cfg")
  case (Some tab)
  then have len: "length tab = num_ifaces cfg" using assms by (simp add: table_ok_def)
  have found: "\<exists>r. find_iface P tab 0 (num_ifaces cfg) = Some r \<and> (\<forall>i. r = Some i \<longrightarrow> i < length tab)" for P
    using find_iface_total [of "num_ifaces cfg" tab] len by simp
  obtain r1 where r1: "find_iface (\<lambda>e. index = netlink_interface_index e) tab 0 (num_ifaces cfg) = Some r1" "\<forall>i. r1 = Some i \<longrightarrow> i < length tab"
    using found by blast
  show ?thesis
  proof (cases r1)
    case r: None
    show ?thesis
    proof (cases "K index")
      case k: (Some n)
      obtain r2 where r2: "find_iface (\<lambda>e. strncmp_eq n (ifi_name e) 16) tab 0 (num_ifaces cfg) = Some r2" "\<forall>i. r2 = Some i \<longrightarrow> i < length tab"
        using found by blast
      show ?thesis using Some r1 r k r2 assms
        by (cases r2) (auto simp: iface_ipa_index_query_def table_ok_def table_name_def IPACM_FAILURE_def)
    qed (use Some r1 r assms in \<open>auto simp: iface_ipa_index_query_def\<close>)
  qed (use Some r1 assms in \<open>auto simp: iface_ipa_index_query_def table_name_def\<close>)
qed (auto simp: iface_ipa_index_query_def IPACM_FAILURE_def assms)

lemma nb_query_ok:
  assumes "nb_ok s"
  shows "\<exists>idx cfg. nb_query K index s = Some (idx, s\<lparr>nb_cfg := cfg\<rparr>) \<and> nb_ok (s\<lparr>nb_cfg := cfg\<rparr>) \<and> ipa_virtual_iface_name cfg = ipa_virtual_iface_name (nb_cfg s) \<and>
    (idx = IPACM_FAILURE \<or> (\<exists>name. table_name idx cfg = Some name))"
proof -
  obtain idx cfg where "iface_ipa_index_query K index (nb_cfg s) = Some (idx, cfg)" "table_ok cfg" "ipa_virtual_iface_name cfg = ipa_virtual_iface_name (nb_cfg s)"
    "idx = IPACM_FAILURE \<or> (\<exists>name. table_name idx cfg = Some name)" using iface_ipa_index_query_ok [of "nb_cfg s" K index] assms by (auto simp: nb_ok_def)
  then show ?thesis using assms by (intro exI [of _ idx] exI [of _ cfg]) (simp add: nb_query_def nb_ok_def used_def)
qed

section \<open>What the events mean\<close>

text \<open>
  The events as operations on the map of clients: the new map and what is posted. \<open>v\<close> is the client that a new one replaces, \<open>bridge\<close> the name of the bridge.
\<close>

type_synonym neigh_result = "(mac \<rightharpoonup> ipa_neighbor_client) \<times> ipacm_event_data_all ipacm_cmd_q_data list"

definition sent :: "ipacm_event_data_all option \<Rightarrow> ipa_cm_event_id \<Rightarrow> ipacm_event_data_all \<Rightarrow> ipacm_event_data_all ipacm_cmd_q_data list" where
  "sent mem ev d = (if mem = None then [] else [\<lparr>event = ev, evt_data = Some d\<rparr>])"

definition real_iface :: "(mac \<rightharpoonup> ipa_neighbor_client) \<Rightarrow> ipacm_event_data_all \<Rightarrow> ipacm_event_data_all" where
  "real_iface m d = (case m (mac_addr d) of None \<Rightarrow> d | Some c \<Rightarrow> d\<lparr>if_index := iface_index c, da_iface_name := nc_iface_name c\<rparr>)"

definition bridge_spec :: "ipacm_event_data_all option \<Rightarrow> ipa_cm_event_id \<Rightarrow> bool \<Rightarrow> ipacm_event_data_all \<Rightarrow> (mac \<rightharpoonup> ipa_neighbor_client) \<Rightarrow> neigh_result" where
  "bridge_spec mem ev learn d m =
     (case m (mac_addr d) of
        None \<Rightarrow> (m, [])
      | Some c \<Rightarrow> (if learn then m(mac_addr d \<mapsto> c\<lparr>v4_addr := ipv4_addr d\<rparr>) else m, sent mem (out_event ev) (real_iface m d)))"

definition v4_spec :: "mac option \<Rightarrow> ipacm_event_data_all option \<Rightarrow> ipa_cm_event_id \<Rightarrow> int \<Rightarrow> ipacm_event_data_all \<Rightarrow> (mac \<rightharpoonup> ipa_neighbor_client) \<Rightarrow> neigh_result" where
  "v4_spec v mem ev idx d m =
     (if ev = IPA_NEW_NEIGH_EVENT
      then if mac_addr d \<in> dom m then m(mac_addr d \<mapsto> new_client d idx (ipv4_addr d)) else remember v (new_client d idx (ipv4_addr d)) m
      else m(mac_addr d := None),
      sent mem (out_event ev) d)"

definition moved :: "string \<Rightarrow> ipacm_event_data_all \<Rightarrow> ipa_neighbor_client \<Rightarrow> ipa_neighbor_client" where
  "moved bridge d c = (if da_iface_name d = bridge \<or> if_index d = iface_index c then c else c\<lparr>iface_index := if_index d, nc_iface_name := da_iface_name d\<rparr>)"

definition no_addr_spec :: "mac option \<Rightarrow> string \<Rightarrow> ipacm_event_data_all option \<Rightarrow> ipa_cm_event_id \<Rightarrow> int \<Rightarrow> ipacm_event_data_all \<Rightarrow> (mac \<rightharpoonup> ipa_neighbor_client) \<Rightarrow> neigh_result" where
  "no_addr_spec v bridge mem ev idx d m =
     (case m (mac_addr d) of
        None \<Rightarrow> (if ev = IPA_NEW_NEIGH_EVENT \<and> da_iface_name d \<noteq> bridge then remember v (new_client d idx 0) m else m, [])
      | Some c \<Rightarrow>
          (let c = moved bridge d c; known = (da_iface_name d \<noteq> bridge \<and> v4_addr c \<noteq> 0)
           in (if ev = IPA_DEL_NEIGH_EVENT \<and> \<not> (known \<and> mem = None) then m(mac_addr d := None) else m(mac_addr d \<mapsto> c),
               if known then sent mem (out_event ev) (cached_data c (the mem)) else [])))"

text \<open>The result \<open>r\<close> of the specification is what the state \<open>s'\<close> after the event says.\<close>

definition does :: "IPACM_Neighbor \<Rightarrow> neigh_result \<Rightarrow> IPACM_Neighbor \<Rightarrow> bool" where
  "does s r s' \<longleftrightarrow> nb_ok s' \<and> clients s' = fst r \<and> nb_posted s' = nb_posted s @ snd r \<and> ipa_virtual_iface_name (nb_cfg s') = ipa_virtual_iface_name (nb_cfg s)"

named_theorems nb_frame \<open>what a change of another field keeps\<close>

lemma frame_cfg [nb_frame]: "clients (s\<lparr>nb_cfg := cfg\<rparr>) = clients s" "victim (s\<lparr>nb_cfg := cfg\<rparr>) = victim s"
  by (simp_all add: clients_def used_def victim_def)

lemma frame_post [nb_frame]: "clients (nb_post ev d s) = clients s" "nb_ok (nb_post ev d s) = nb_ok s" "nb_cfg (nb_post ev d s) = nb_cfg s"
  "nb_posted (nb_post ev d s) = nb_posted s @ [\<lparr>event = ev, evt_data = Some d\<rparr>]" "used (nb_post ev d s) = used s" "num_neighbor_client (nb_post ev d s) = num_neighbor_client s"
  by (simp_all add: nb_post_def clients_def used_def nb_ok_def)

lemma frame_set [nb_frame]: "nb_cfg (set_client i c s) = nb_cfg s" "nb_posted (set_client i c s) = nb_posted s" "num_neighbor_client (set_client i c s) = num_neighbor_client s"
  by (simp_all add: set_client_def)

lemma frame_copy [nb_frame]: "clients (post_copy mem ev d s) = clients s" "nb_ok (post_copy mem ev d s) = nb_ok s" "nb_cfg (post_copy mem ev d s) = nb_cfg s"
  "nb_posted (post_copy mem ev d s) = nb_posted s @ sent mem (out_event ev) d"
  by (simp_all add: post_copy_def nb_frame sent_def)

lemma query_does:
  assumes "does s r t"
  obtains idx u where "nb_query K index t = Some (idx, u)" "does s r u"
  using nb_query_ok [of t K index] assms by (fastforce simp: does_def nb_frame)

lemma real_client: "nb_ok s \<Longrightarrow> clients s m = Some c \<Longrightarrow> client_ok (ipa_virtual_iface_name (nb_cfg s)) c"
  by (metis find_client_Some nb_ok_def)

lemma neigh_bridge_does:
  assumes ok: "nb_ok s" and addr: "learn \<longrightarrow> \<not> link_local (ipv4_addr d)"
  shows "\<exists>s'. neigh_bridge K mem ev learn d s = Some (s', real_iface (clients s) d) \<and> does s (bridge_spec mem ev learn d (clients s)) s'"
proof (cases "clients s (mac_addr d)")
  case None
  then show ?thesis using find_client_None(1) [OF ok None] ok by (simp add: neigh_bridge_def bridge_spec_def does_def real_iface_def)
next
  case (Some c)
  from find_client_Some [OF ok Some] obtain i where i: "find_client (mac_addr d) s = Some (Some i)" "i < num_neighbor_client s" "neighbor_client s ! i = c"
    "used s ! i = c" "nc_mac_addr c = mac_addr d" by metis
  have c: "client_ok (ipa_virtual_iface_name (nb_cfg s)) c" by (rule real_client [OF ok Some])
  let ?c = "c\<lparr>v4_addr := ipv4_addr d\<rparr>" and ?d = "real_iface (clients s) d"
  let ?s = "if learn then set_client i ?c s else s" and ?m = "if learn then (clients s)(mac_addr d \<mapsto> ?c) else clients s"
  have c': "learn \<longrightarrow> client_ok (ipa_virtual_iface_name (nb_cfg s)) ?c" using c addr by (simp add: client_ok_def)
  have s: "nb_ok ?s" "clients ?s = ?m" "nb_cfg ?s = nb_cfg s" "nb_posted ?s = nb_posted s"
    using set_client_ok [of s i ?c] ok i c' by (auto simp: nb_frame)
  have d: "d\<lparr>if_index := iface_index c, da_iface_name := strlcpy (nc_iface_name c) 16\<rparr> = ?d" using c Some by (simp add: real_iface_def client_ok_def)
  have step: "neigh_bridge K mem ev learn d s = (if mem = None then Some (?s, ?d) else do { (idx, u) \<leftarrow> nb_query K (if_index ?d) (nb_post (out_event ev) ?d ?s); Some (u, ?d) })"
    using i Some by (simp add: neigh_bridge_def Let_def d [symmetric])
  show ?thesis
  proof (cases mem)
    case None
    then show ?thesis using step s Some by (simp add: does_def bridge_spec_def sent_def)
  next
    case mem: (Some b)
    then have "does s (bridge_spec mem ev learn d (clients s)) (nb_post (out_event ev) ?d ?s)" using s Some by (auto simp: does_def bridge_spec_def sent_def nb_frame)
    from query_does [OF this, of K "if_index ?d"] obtain idx u where "nb_query K (if_index ?d) (nb_post (out_event ev) ?d ?s) = Some (idx, u)"
      "does s (bridge_spec mem ev learn d (clients s)) u" by metis
    then show ?thesis using step mem by simp
  qed
qed

lemma neigh_v4_does:
  assumes ok: "nb_ok s" and name: "length (da_iface_name d) \<le> 15" "da_iface_name d \<noteq> ipa_virtual_iface_name (nb_cfg s)" and addr: "\<not> link_local (ipv4_addr d)"
  shows "\<exists>s'. neigh_v4 mem ev idx d s = Some s' \<and> does s (v4_spec (victim s) mem ev idx d (clients s)) s'"
proof (cases "clients s (mac_addr d)")
  case None
  from find_client_None(1) [OF ok None] cache_client_ok [OF ok None name addr, of idx] ok None show ?thesis
    by (auto simp: neigh_v4_def v4_spec_def does_def nb_frame fun_upd_idem)
next
  case (Some c)
  from find_client_Some [OF ok Some] obtain i where i: "find_client (mac_addr d) s = Some (Some i)" "i < num_neighbor_client s" "neighbor_client s ! i = c"
    "used s ! i = c" "nc_mac_addr c = mac_addr d" by metis
  let ?c = "new_client d idx (ipv4_addr d)"
  have c: "c\<lparr>iface_index := if_index d, ipa_if_num := idx, v4_addr := ipv4_addr d, nc_iface_name := strlcpy (da_iface_name d) 16\<rparr> = ?c" "nc_mac_addr ?c = mac_addr d"
    using i(5) name(1) by (simp_all add: new_client_def)
  have "client_ok (ipa_virtual_iface_name (nb_cfg s)) ?c" using name addr by (simp add: client_ok_def new_client_def)
  then have "nb_ok (set_client i ?c s)" "clients (set_client i ?c s) = (clients s)(mac_addr d \<mapsto> ?c)" using set_client_ok [of s i ?c] ok i c(2) by auto
  then show ?thesis using i c(1) Some clean_client_ok [OF ok i(2)] by (auto simp: neigh_v4_def v4_spec_def does_def nb_frame)
qed

lemma neigh_no_addr_does:
  assumes ok: "nb_ok s" and name: "length (da_iface_name d) \<le> 15"
  shows "\<exists>s'. neigh_no_addr mem ev idx d s = Some s' \<and> does s (no_addr_spec (victim s) (ipa_virtual_iface_name (nb_cfg s)) mem ev idx d (clients s)) s'"
proof (cases "clients s (mac_addr d)")
  case None
  from find_client_None(1) [OF ok None] cache_client_ok [OF ok None name, of 0 idx] ok None show ?thesis
    by (auto simp: neigh_no_addr_def no_addr_spec_def does_def)
next
  case (Some c)
  from find_client_Some [OF ok Some] obtain i where i: "find_client (mac_addr d) s = Some (Some i)" "i < num_neighbor_client s" "neighbor_client s ! i = c"
    "used s ! i = c" "nc_mac_addr c = mac_addr d" by metis
  let ?br = "ipa_virtual_iface_name (nb_cfg s)" let ?c = "moved ?br d c" let ?s = "set_client i ?c s"
  have c: "client_ok ?br ?c" "nc_mac_addr ?c = mac_addr d" using real_client [OF ok Some] name i(5) by (auto simp: client_ok_def moved_def)
  then have s: "nb_ok ?s" "clients ?s = (clients s)(mac_addr d \<mapsto> ?c)" using set_client_ok [of s i ?c] ok i by auto
  have eq: "(if ?br \<noteq> da_iface_name d \<and> if_index d \<noteq> iface_index c then c\<lparr>iface_index := if_index d, nc_iface_name := strlcpy (da_iface_name d) 16\<rparr> else c) = ?c"
    using name by (auto simp: moved_def)
  have u: "nc_mac_addr (used ?s ! i) = mac_addr d" using c i ok by (simp add: used_def set_client_def nb_ok_def)
  have clean: "\<exists>s'. clean_client i t = Some s' \<and> nb_ok s' \<and> clients s' = (clients s)(mac_addr d := None) \<and> nb_cfg s' = nb_cfg s \<and> nb_posted s' = nb_posted t"
    if "t = ?s \<or> t = nb_post e x ?s" for t e x
    using clean_client_ok [of t i] that s i u by (auto simp: nb_frame)
  let ?known = "?br \<noteq> da_iface_name d \<and> v4_addr ?c \<noteq> 0"
  have step: "neigh_no_addr mem ev idx d s =
      (let clean = (\<lambda>s. if ev = IPA_DEL_NEIGH_EVENT then clean_client i s else Some s)
       in if ?known then (case mem of None \<Rightarrow> Some ?s | Some blk \<Rightarrow> clean (nb_post (out_event ev) (cached_data ?c blk) ?s)) else clean ?s)"
    unfolding neigh_no_addr_def by (simp only: i(1,3) Let_def eq bind.bind_lunit option.case)
  show ?thesis
  proof (cases "?known")
    case False
    then have "neigh_no_addr mem ev idx d s = (if ev = IPA_DEL_NEIGH_EVENT then clean_client i ?s else Some ?s)" using step by (simp only: Let_def if_False)
    moreover have "no_addr_spec (victim s) ?br mem ev idx d (clients s) =
        (if ev = IPA_DEL_NEIGH_EVENT then (clients s)(mac_addr d := None) else (clients s)(mac_addr d \<mapsto> ?c), [])"
      using False Some by (auto simp: no_addr_spec_def Let_def)
    ultimately show ?thesis using s clean [of ?s] by (cases "ev = IPA_DEL_NEIGH_EVENT") (auto simp: does_def nb_frame)
  next
    case known: True
    show ?thesis
    proof (cases mem)
      case None
      have "neigh_no_addr mem ev idx d s = Some ?s" using step known None by simp
      moreover have "no_addr_spec (victim s) ?br mem ev idx d (clients s) = ((clients s)(mac_addr d \<mapsto> ?c), [])"
        using known None Some by (auto simp: no_addr_spec_def Let_def sent_def)
      ultimately show ?thesis using s by (auto simp: does_def nb_frame)
    next
      case mem: (Some blk)
      let ?t = "nb_post (out_event ev) (cached_data ?c blk) ?s"
      have "neigh_no_addr mem ev idx d s = (if ev = IPA_DEL_NEIGH_EVENT then clean_client i ?t else Some ?t)"
        using step known mem by (simp add: Let_def)
      moreover have "no_addr_spec (victim s) ?br mem ev idx d (clients s) =
          (if ev = IPA_DEL_NEIGH_EVENT then (clients s)(mac_addr d := None) else (clients s)(mac_addr d \<mapsto> ?c), [\<lparr>event = out_event ev, evt_data = Some (cached_data ?c blk)\<rparr>])"
        using known mem Some by (auto simp: no_addr_spec_def Let_def sent_def)
      ultimately show ?thesis using s clean [of ?t "out_event ev" "cached_data ?c blk"] by (cases "ev = IPA_DEL_NEIGH_EVENT") (auto simp: does_def nb_frame)
    qed
  qed
qed

text \<open>The two kinds of events.\<close>

definition has_addr :: "ipacm_event_data_all \<Rightarrow> bool" where
  "has_addr d \<longleftrightarrow> iptype d = IPA_IP_v4 \<or> (\<exists>w \<in> set (ipv6_addr d). w \<noteq> 0)"

definition ignored :: "int \<Rightarrow> ipacm_event_data_all \<Rightarrow> bool" where
  "ignored idx d \<longleftrightarrow> idx = IPACM_FAILURE \<or> iptype d = IPA_IP_v4 \<and> (ipv4_addr d = 0 \<or> link_local (ipv4_addr d))"

definition neigh_spec :: "mac option \<Rightarrow> string \<Rightarrow> ipacm_event_data_all option \<Rightarrow> ipa_cm_event_id \<Rightarrow> int \<Rightarrow> ipacm_event_data_all \<Rightarrow> (mac \<rightharpoonup> ipa_neighbor_client) \<Rightarrow> neigh_result" where
  "neigh_spec v bridge mem ev idx d m =
     (if ignored idx d then (m, [])
      else if \<not> has_addr d then no_addr_spec v bridge mem ev idx d m
      else if da_iface_name d = bridge then bridge_spec mem ev (iptype d = IPA_IP_v4) d m
      else if iptype d = IPA_IP_v4 then v4_spec v mem ev idx d m
      else (m, sent mem (out_event ev) d))"

definition neigh_out :: "string \<Rightarrow> int \<Rightarrow> ipacm_event_data_all \<Rightarrow> (mac \<rightharpoonup> ipa_neighbor_client) \<Rightarrow> ipacm_event_data_all" where
  "neigh_out bridge idx d m = (if \<not> ignored idx d \<and> has_addr d \<and> da_iface_name d = bridge then real_iface m d else d)"

definition wlan_spec :: "string \<Rightarrow> string option \<Rightarrow> ipacm_event_data_all option \<Rightarrow> int \<Rightarrow> mac \<Rightarrow> int \<Rightarrow> (mac \<rightharpoonup> ipa_neighbor_client) \<Rightarrow> neigh_result" where
  "wlan_spec bridge name mem idx mc index m =
     (case m mc of
        None \<Rightarrow> (m, [])
      | Some c \<Rightarrow>
          if idx = IPACM_FAILURE \<or> name = Some bridge then (m, [])
          else let c = c\<lparr>iface_index := index\<rparr>
               in (m(mc \<mapsto> c), if idx = ipa_if_num c \<and> v4_addr c \<noteq> 0 then sent mem IPA_NEIGH_CLIENT_IP_ADDR_ADD_EVENT (cached_data c zero_data) else []))"

lemma does_query: "nb_query K index s = Some (idx, t) \<Longrightarrow> nb_ok s \<Longrightarrow>
    nb_ok t \<and> clients t = clients s \<and> victim t = victim s \<and> nb_posted t = nb_posted s \<and> ipa_virtual_iface_name (nb_cfg t) = ipa_virtual_iface_name (nb_cfg s) \<and>
    (idx = IPACM_FAILURE \<or> (\<exists>name. table_name idx (nb_cfg t) = Some name))"
  using nb_query_ok [of s K index] by (auto simp: nb_frame)

lemma does_same: "nb_posted t = nb_posted s \<Longrightarrow> ipa_virtual_iface_name (nb_cfg t) = ipa_virtual_iface_name (nb_cfg s) \<Longrightarrow> does t r u = does s r u"
  by (simp add: does_def)

lemma neigh_event_does:
  assumes ok: "nb_ok s" and name: "length (da_iface_name d) \<le> 15" and q: "nb_query K (if_index d) s = Some (idx, t)"
  shows "\<exists>s'. neigh_event K mem ev d s = Some (s', neigh_out (ipa_virtual_iface_name (nb_cfg s)) idx d (clients s)) \<and>
    does s (neigh_spec (victim s) (ipa_virtual_iface_name (nb_cfg s)) mem ev idx d (clients s)) s'"
proof -
  let ?br = "ipa_virtual_iface_name (nb_cfg s)"
  from does_query [OF q ok] have t: "nb_ok t" "clients t = clients s" "victim t = victim s" "nb_posted t = nb_posted s" "ipa_virtual_iface_name (nb_cfg t) = ?br" by auto
  have start: "neigh_event K mem ev d s =
      (if ignored idx d then Some (t, d)
       else if iptype d = IPA_IP_v4 then if ?br = da_iface_name d then neigh_bridge K mem ev True d t else map_option (\<lambda>s. (s, d)) (neigh_v4 mem ev idx d t)
       else if \<exists>w \<in> set (ipv6_addr d). w \<noteq> 0 then if ?br = da_iface_name d then neigh_bridge K mem ev False d t else Some (post_copy mem ev d t, d)
       else map_option (\<lambda>s. (s, d)) (neigh_no_addr mem ev idx d t))"
    by (simp add: neigh_event_def q t(5) ignored_def Let_def)
  consider (ign) "ignored idx d"
    | (bridge) "\<not> ignored idx d" "has_addr d" "?br = da_iface_name d"
    | (v4) "\<not> ignored idx d" "iptype d = IPA_IP_v4" "?br \<noteq> da_iface_name d"
    | (v6) "\<not> ignored idx d" "iptype d \<noteq> IPA_IP_v4" "has_addr d" "?br \<noteq> da_iface_name d"
    | (none) "\<not> ignored idx d" "\<not> has_addr d"
    by (auto simp: has_addr_def)
  then show ?thesis
  proof cases
    case ign
    then show ?thesis using start t by (simp add: neigh_spec_def neigh_out_def does_def)
  next
    case bridge
    then have e: "neigh_event K mem ev d s = neigh_bridge K mem ev (iptype d = IPA_IP_v4) d t" using start by (auto simp: has_addr_def)
    have "iptype d = IPA_IP_v4 \<longrightarrow> \<not> link_local (ipv4_addr d)" using bridge(1) by (simp add: ignored_def)
    from neigh_bridge_does [OF t(1) this, of K mem ev] e bridge show ?thesis
      by (auto simp: neigh_spec_def neigh_out_def t does_same [OF t(4,5)])
  next
    case v4
    from v4 have "\<not> link_local (ipv4_addr d)" by (simp add: ignored_def)
    from neigh_v4_does [OF t(1) name _ this, of mem ev idx] v4 start show ?thesis
      by (auto simp: neigh_spec_def neigh_out_def has_addr_def t does_same [OF t(4,5)])
  next
    case v6
    then show ?thesis using start t by (auto simp: neigh_spec_def neigh_out_def has_addr_def does_def nb_frame)
  next
    case none
    from neigh_no_addr_does [OF t(1) name, of mem ev idx] none start show ?thesis
      by (auto simp: neigh_spec_def neigh_out_def has_addr_def t does_same [OF t(4,5)])
  qed
qed

lemma wlan_client_add_ex_does:
  assumes ok: "nb_ok s" and len: "unat (num_of_attribs d) \<le> length (attribs d)" and q: "nb_query K (wx_if_index d) s = Some (idx, t)"
  shows "\<exists>s'. wlan_client_add_ex K mem d s = Some s' \<and>
    does s (wlan_spec (ipa_virtual_iface_name (nb_cfg s)) (table_name idx (nb_cfg t)) mem idx (client_mac_addr (take (unat (num_of_attribs d)) (attribs d))) (wx_if_index d) (clients s)) s'"
proof -
  let ?br = "ipa_virtual_iface_name (nb_cfg s)" and ?m = "client_mac_addr (take (unat (num_of_attribs d)) (attribs d))"
  from does_query [OF q ok] have t: "nb_ok t" "clients t = clients s" "nb_posted t = nb_posted s" "ipa_virtual_iface_name (nb_cfg t) = ?br"
    "idx = IPACM_FAILURE \<or> (\<exists>name. table_name idx (nb_cfg t) = Some name)" by auto
  show ?thesis
  proof (cases "clients s ?m")
    case None
    then have "find_client ?m t = Some None" using find_client_None(1) t by metis
    then show ?thesis using len q t None by (auto simp: wlan_client_add_ex_def wlan_spec_def does_def)
  next
    case (Some c)
    then have Some': "clients t ?m = Some c" using t by simp
    from find_client_Some [OF t(1) Some'] obtain i where i: "find_client ?m t = Some (Some i)" "i < num_neighbor_client t" "neighbor_client t ! i = c"
      "used t ! i = c" "nc_mac_addr c = ?m" by metis
    let ?c = "c\<lparr>iface_index := wx_if_index d\<rparr>" let ?t = "set_client i ?c t"
    let ?a = "(cached_data ?c zero_data)\<lparr>da_iface_name := nc_iface_name ?c\<rparr>"
    have c: "client_ok ?br ?c" using real_client [OF t(1) Some'] t(4) by (simp add: client_ok_def)
    then have u: "nb_ok ?t" "clients ?t = (clients s)(?m \<mapsto> ?c)" using set_client_ok [of t i ?c] t i by auto
    have a: "?a = cached_data ?c zero_data" using c by (simp add: client_ok_def cached_data_def)
    show ?thesis
    proof (cases "idx = IPACM_FAILURE \<or> table_name idx (nb_cfg t) = Some ?br")
      case True
      then show ?thesis using len q t i Some by (auto simp: wlan_client_add_ex_def wlan_spec_def does_def)
    next
      case False
      then obtain n where n: "table_name idx (nb_cfg t) = Some n" "n \<noteq> ?br" using t(5) by auto
      have step: "wlan_client_add_ex K mem d s = (if idx \<noteq> ipa_if_num ?c \<or> v4_addr ?c = 0 \<or> mem = None then Some ?t
          else do { (idx, s) \<leftarrow> nb_query K (iface_index ?c) (nb_post IPA_NEIGH_CLIENT_IP_ADDR_ADD_EVENT ?a ?t); Some s })"
        using False n len q t(4) i by (simp add: wlan_client_add_ex_def Let_def)
      show ?thesis
      proof (cases "idx \<noteq> ipa_if_num ?c \<or> v4_addr ?c = 0 \<or> mem = None")
        case True
        then show ?thesis using step False Some u t by (auto simp: wlan_spec_def does_def sent_def nb_frame Let_def)
      next
        case send: False
        then have "does s (wlan_spec ?br (table_name idx (nb_cfg t)) mem idx ?m (wx_if_index d) (clients s)) (nb_post IPA_NEIGH_CLIENT_IP_ADDR_ADD_EVENT ?a ?t)"
          using False Some u t a by (auto simp: wlan_spec_def does_def sent_def nb_frame Let_def)
        from query_does [OF this, of K "iface_index ?c"] send step show ?thesis by (metis (no_types, lifting) bind.bind_lunit case_prod_conv)
      qed
    qed
  qed
qed

section \<open>Any sequence of events\<close>

type_synonym neigh_request = "(int \<Rightarrow> string option) \<times> ipacm_event_data_all option \<times> ipa_cm_event_id \<times> neigh_param"

definition nb_step :: "IPACM_Neighbor \<Rightarrow> neigh_request \<Rightarrow> IPACM_Neighbor option" where
  "nb_step s r = (case r of (K, mem, ev, p) \<Rightarrow> map_option fst (event_callback_neighbor K mem ev p s))"

text \<open>The events the cache registered for, with the data they carry; names are C strings of 16 bytes.\<close>

definition param_ok :: "ipa_cm_event_id \<Rightarrow> neigh_param \<Rightarrow> bool" where
  "param_ok ev p \<longleftrightarrow>
     (case p of
        Param_wlan_ex d \<Rightarrow> ev = IPA_WLAN_CLIENT_ADD_EVENT_EX \<and> unat (num_of_attribs d) \<le> length (attribs d)
      | Param_all d \<Rightarrow> ev \<in> {IPA_NEW_NEIGH_EVENT, IPA_DEL_NEIGH_EVENT} \<and> length (da_iface_name d) \<le> 15)"

text \<open>What may be posted: an event for a client on a real interface, with an IPv4 address that is neither blank nor link-local, or with IPv6 data.\<close>

definition post_ok :: "string \<Rightarrow> ipacm_event_data_all ipacm_cmd_q_data \<Rightarrow> bool" where
  "post_ok bridge e \<longleftrightarrow> event e \<in> {IPA_NEIGH_CLIENT_IP_ADDR_ADD_EVENT, IPA_NEIGH_CLIENT_IP_ADDR_DEL_EVENT} \<and>
     (case evt_data e of
        None \<Rightarrow> False
      | Some d \<Rightarrow> da_iface_name d \<noteq> bridge \<and> (iptype d = IPA_IP_v4 \<longrightarrow> ipv4_addr d \<noteq> 0 \<and> \<not> link_local (ipv4_addr d)))"

definition nb_inv :: "string \<Rightarrow> IPACM_Neighbor \<Rightarrow> bool" where
  "nb_inv bridge s \<longleftrightarrow> nb_ok s \<and> ipa_virtual_iface_name (nb_cfg s) = bridge \<and> (\<forall>e \<in> set (nb_posted s). post_ok bridge e)"

lemma event_sent: "set (sent mem ev d) \<subseteq> {\<lparr>event = ev, evt_data = Some d\<rparr>}" "out_event ev \<in> {IPA_NEIGH_CLIENT_IP_ADDR_ADD_EVENT, IPA_NEIGH_CLIENT_IP_ADDR_DEL_EVENT}"
  by (auto simp: sent_def out_event_def)

lemma sent_ok: "post_ok br \<lparr>event = ev, evt_data = Some d\<rparr> \<Longrightarrow> \<forall>e \<in> set (sent mem ev d). post_ok br e"
  by (simp add: sent_def)

lemma cached_data_ok: "client_ok br c \<Longrightarrow> v4_addr c \<noteq> 0 \<Longrightarrow> ev \<in> {IPA_NEIGH_CLIENT_IP_ADDR_ADD_EVENT, IPA_NEIGH_CLIENT_IP_ADDR_DEL_EVENT} \<Longrightarrow>
    post_ok br \<lparr>event = ev, evt_data = Some (cached_data c d)\<rparr>"
  by (auto simp: post_ok_def cached_data_def client_ok_def)

lemma neigh_spec_posts:
  assumes m: "\<And>c. m (mac_addr d) = Some c \<Longrightarrow> client_ok br c" and name: "length (da_iface_name d) \<le> 15"
  shows "\<forall>e \<in> set (snd (neigh_spec v br mem ev idx d m)). post_ok br e"
proof -
  have out: "out_event ev \<in> {IPA_NEIGH_CLIENT_IP_ADDR_ADD_EVENT, IPA_NEIGH_CLIENT_IP_ADDR_DEL_EVENT}" by (rule event_sent(2))
  consider (ign) "ignored idx d" | (none) "\<not> ignored idx d" "\<not> has_addr d" | (bridge) "\<not> ignored idx d" "has_addr d" "da_iface_name d = br"
    | (real) "\<not> ignored idx d" "has_addr d" "da_iface_name d \<noteq> br" by blast
  then show ?thesis
  proof cases
    case ign
    then show ?thesis by (simp add: neigh_spec_def)
  next
    case none
    have "post_ok br \<lparr>event = out_event ev, evt_data = Some (cached_data (moved br d c) blk)\<rparr>" if "m (mac_addr d) = Some c" "v4_addr (moved br d c) \<noteq> 0" for c blk
      using that m [OF that(1)] name out by (intro cached_data_ok) (auto simp: moved_def client_ok_def)
    then show ?thesis using none by (auto simp: neigh_spec_def no_addr_spec_def Let_def sent_def split: option.splits)
  next
    case bridge
    have "post_ok br \<lparr>event = out_event ev, evt_data = Some (real_iface m d)\<rparr>" if "m (mac_addr d) = Some c" for c
      using that m [OF that] bridge(1) out by (auto simp: post_ok_def real_iface_def ignored_def client_ok_def)
    then show ?thesis using bridge by (auto simp: neigh_spec_def bridge_spec_def sent_def split: option.splits)
  next
    case real
    then have "post_ok br \<lparr>event = out_event ev, evt_data = Some d\<rparr>" using out by (auto simp: post_ok_def ignored_def)
    then have "\<forall>e \<in> set (sent mem (out_event ev) d). post_ok br e" by (rule sent_ok)
    then show ?thesis using real by (auto simp: neigh_spec_def v4_spec_def)
  qed
qed

lemma wlan_spec_posts:
  assumes m: "\<And>c. m mc = Some c \<Longrightarrow> client_ok br c"
  shows "\<forall>e \<in> set (snd (wlan_spec br name mem idx mc index m)). post_ok br e"
proof -
  have "post_ok br \<lparr>event = IPA_NEIGH_CLIENT_IP_ADDR_ADD_EVENT, evt_data = Some (cached_data (c\<lparr>iface_index := index\<rparr>) zero_data)\<rparr>"
    if "m mc = Some c" "v4_addr c \<noteq> 0" for c
    using that m [OF that(1)] by (intro cached_data_ok) (auto simp: client_ok_def)
  then show ?thesis by (auto simp: wlan_spec_def Let_def sent_def split: option.splits)
qed

lemma nb_step_ok:
  assumes inv: "nb_inv br s" and p: "param_ok ev p"
  shows "\<exists>s'. nb_step s (K, mem, ev, p) = Some s' \<and> nb_inv br s'"
proof -
  from inv have ok: "nb_ok s" and br: "ipa_virtual_iface_name (nb_cfg s) = br" and posts: "\<forall>e \<in> set (nb_posted s). post_ok br e" by (auto simp: nb_inv_def)
  have m: "client_ok br c" if "clients s x = Some c" for x c using real_client [OF ok that] br by simp
  have finish: "nb_inv br s'" if "does s r s'" "\<forall>e \<in> set (snd r). post_ok br e" for r s'
    using that posts br by (auto simp: does_def nb_inv_def)
  show ?thesis
  proof (cases p)
    case (Param_wlan_ex d)
    from nb_query_ok [OF ok, of K "wx_if_index d"] obtain idx t where q: "nb_query K (wx_if_index d) s = Some (idx, t)" by auto
    from wlan_client_add_ex_does [OF ok _ q, of mem] p Param_wlan_ex br obtain s' where
      "wlan_client_add_ex K mem d s = Some s'" and d: "does s (wlan_spec br (table_name idx (nb_cfg t)) mem idx (client_mac_addr (take (unat (num_of_attribs d)) (attribs d))) (wx_if_index d) (clients s)) s'"
      by (auto simp: param_ok_def)
    moreover have "nb_inv br s'" using m by (intro finish [OF d] wlan_spec_posts) auto
    ultimately show ?thesis using Param_wlan_ex p by (auto simp: nb_step_def event_callback_neighbor_def param_ok_def)
  next
    case (Param_all d)
    from nb_query_ok [OF ok, of K "if_index d"] obtain idx t where q: "nb_query K (if_index d) s = Some (idx, t)" by auto
    have name: "length (da_iface_name d) \<le> 15" using p Param_all by (simp add: param_ok_def)
    from neigh_event_does [OF ok name q, of mem ev] br obtain s' where
      "neigh_event K mem ev d s = Some (s', neigh_out br idx d (clients s))" and d: "does s (neigh_spec (victim s) br mem ev idx d (clients s)) s'" by auto
    moreover have "nb_inv br s'" using m name by (intro finish [OF d] neigh_spec_posts) auto
    ultimately show ?thesis using Param_all p by (auto simp: nb_step_def event_callback_neighbor_def param_ok_def)
  qed
qed

interpretation neighbor: safe_component nb_step "nb_inv br" "\<lambda>s r. case r of (K, mem, ev, p) \<Rightarrow> param_ok ev p" for br
proof unfold_locales
  fix s s' :: IPACM_Neighbor and x :: neigh_request
  obtain K mem ev p where x: "x = (K, mem, ev, p)" by (cases x)
  assume inv: "nb_inv br s" and legal: "case x of (K, mem, ev, p) \<Rightarrow> param_ok ev p"
  from nb_step_ok [OF inv, of ev p K mem] legal x obtain t where t: "nb_step s x = Some t" "nb_inv br t" by auto
  then show "\<exists>s'. nb_step s x = Some s'" by blast
  assume "nb_step s x = Some s'"
  with t show "nb_inv br s'" by simp
qed

lemma legal_neigh: "(\<forall>(K, mem, ev, p) \<in> set rs. param_ok ev p) \<Longrightarrow> legal_run nb_step (\<lambda>s r. case r of (K, mem, ev, p) \<Rightarrow> param_ok ev p) s rs"
  by (induction rs arbitrary: s) (auto split: option.splits)

section \<open>Properties\<close>

text \<open>
  C15. Whatever neighbour events arrive, in any order and with any shortage of memory, the cache never leaves its arrays, never holds a client twice and never remembers
  the bridge as a client's interface; every event it posts names a real interface, never the bridge, and an IPv4 event carries an address that is neither blank nor link-local.
\<close>

theorem neighbor_run_safe:
  assumes "table_ok cfg" "\<forall>(K, mem, ev, p) \<in> set rs. param_ok ev p"
  shows "\<exists>s. run_steps nb_step (Neighbor_new cfg) rs = Some s \<and> nb_ok s \<and> (\<forall>e \<in> set (nb_posted s). post_ok (ipa_virtual_iface_name cfg) e)"
proof -
  have "nb_inv (ipa_virtual_iface_name cfg) (Neighbor_new cfg)" using Neighbor_new_ok [OF assms(1)] by (simp add: nb_inv_def Neighbor_new_def)
  from neighbor.run_defined [OF this legal_neigh [OF assms(2)]] show ?thesis by (auto simp: nb_inv_def)
qed

definition demo_ifaces :: iface_cfg where
  "demo_ifaces = \<lparr>iface_table = Some [\<lparr>ifi_name = ''wlan0'', netlink_interface_index = 5\<rparr>, \<lparr>ifi_name = ''bridge0'', netlink_interface_index = 7\<rparr>],
     num_ifaces = 2, ipa_virtual_iface_name = ''bridge0''\<rparr>"

definition demo_neigh :: "int \<Rightarrow> string \<Rightarrow> ipacm_event_data_all" where
  "demo_neigh index name = \<lparr>iptype = IPA_IP_v4, if_index = index, ipv4_addr = 0xC0A80105, ipv6_addr = [0, 0, 0, 0], mac_addr = [2, 0, 0, 0, 0, 9], da_iface_name = name\<rparr>"

lemma demo_table: "table_ok demo_ifaces"
  by (simp add: table_ok_def demo_ifaces_def)

lemma demo_query: "nb_query (\<lambda>_. None) 5 (Neighbor_new demo_ifaces) = Some (0, Neighbor_new demo_ifaces)"
  by (simp add: nb_query_def iface_ipa_index_query_def Neighbor_new_def demo_ifaces_def numeral_2_eq_2)

lemma neighbor_run_safe_witness:
  "\<exists>s. run_steps nb_step (Neighbor_new demo_ifaces)
      [(\<lambda>_. None, Some zero_data, IPA_NEW_NEIGH_EVENT, Param_all (demo_neigh 5 ''wlan0'')), (\<lambda>_. None, None, IPA_DEL_NEIGH_EVENT, Param_all (demo_neigh 7 ''bridge0''))] = Some s \<and>
    nb_ok s \<and> (\<forall>e \<in> set (nb_posted s). post_ok ''bridge0'' e)"
proof -
  have "ipa_virtual_iface_name demo_ifaces = ''bridge0''" by (simp add: demo_ifaces_def)
  then show ?thesis
    using neighbor_run_safe [OF demo_table, of "[(\<lambda>_. None, Some zero_data, IPA_NEW_NEIGH_EVENT, Param_all (demo_neigh 5 ''wlan0'')),
      (\<lambda>_. None, None, IPA_DEL_NEIGH_EVENT, Param_all (demo_neigh 7 ''bridge0''))]"]
    by (simp add: param_ok_def demo_neigh_def)
qed

text \<open>
  C13. The array with its recycled slots behaves as a map from MAC addresses: an event for a client on a real interface learns it, moves it or forgets it, one on the bridge
  is rewritten to the interface the client was learned on, and the events posted depend on nothing but the event and that map. A new client in a full cache replaces the one
  whose turn it is.
\<close>

theorem neighbor_refines_map:
  assumes "nb_ok s" "length (da_iface_name d) \<le> 15" "nb_query K (if_index d) s = Some (idx, t)" "ev \<in> {IPA_NEW_NEIGH_EVENT, IPA_DEL_NEIGH_EVENT}"
  shows "\<exists>s'. event_callback_neighbor K mem ev (Param_all d) s = Some (s', Param_all (neigh_out (ipa_virtual_iface_name (nb_cfg s)) idx d (clients s))) \<and>
    nb_ok s' \<and> (clients s', nb_posted s') =
      (let (m, posts) = neigh_spec (victim s) (ipa_virtual_iface_name (nb_cfg s)) mem ev idx d (clients s) in (m, nb_posted s @ posts))"
  using neigh_event_does [OF assms(1-3), of mem ev] assms(4) by (auto simp: event_callback_neighbor_def does_def split: prod.splits)

lemma neighbor_refines_map_witness:
  "\<exists>s'. event_callback_neighbor (\<lambda>_. None) (Some zero_data) IPA_NEW_NEIGH_EVENT (Param_all (demo_neigh 5 ''wlan0'')) (Neighbor_new demo_ifaces)
       = Some (s', Param_all (demo_neigh 5 ''wlan0'')) \<and>
     nb_ok s' \<and> clients s' = [[2, 0, 0, 0, 0, 9] \<mapsto> new_client (demo_neigh 5 ''wlan0'') 0 0xC0A80105] \<and>
     nb_posted s' = [\<lparr>event = IPA_NEIGH_CLIENT_IP_ADDR_ADD_EVENT, evt_data = Some (demo_neigh 5 ''wlan0'')\<rparr>]"
proof -
  have ll: "\<not> ignored 0 (demo_neigh 5 ''wlan0'')" by (simp add: ignored_def demo_neigh_def link_local_def IPV4_ADDR_LINKLOCAL_def IPACM_FAILURE_def)
  have s: "clients (Neighbor_new demo_ifaces) = Map.empty" "victim (Neighbor_new demo_ifaces) = None" "ipa_virtual_iface_name (nb_cfg (Neighbor_new demo_ifaces)) = ''bridge0''"
    "nb_posted (Neighbor_new demo_ifaces) = []"
    by (simp_all add: clients_def used_def victim_def Neighbor_new_def demo_ifaces_def fun_eq_iff)
  have d: "mac_addr (demo_neigh 5 ''wlan0'') = [2, 0, 0, 0, 0, 9]" "da_iface_name (demo_neigh 5 ''wlan0'') = ''wlan0''" "iptype (demo_neigh 5 ''wlan0'') = IPA_IP_v4"
    "ipv4_addr (demo_neigh 5 ''wlan0'') = 0xC0A80105" "if_index (demo_neigh 5 ''wlan0'') = 5" by (simp_all add: demo_neigh_def)
  have q: "nb_query (\<lambda>_. None) (if_index (demo_neigh 5 ''wlan0'')) (Neighbor_new demo_ifaces) = Some (0, Neighbor_new demo_ifaces)" using demo_query d(5) by simp
  have l: "length (da_iface_name (demo_neigh 5 ''wlan0'')) \<le> 15" using d(2) by simp
  have spec: "neigh_spec None ''bridge0'' (Some zero_data) IPA_NEW_NEIGH_EVENT 0 (demo_neigh 5 ''wlan0'') Map.empty =
      ([[2, 0, 0, 0, 0, 9] \<mapsto> new_client (demo_neigh 5 ''wlan0'') 0 0xC0A80105], [\<lparr>event = IPA_NEIGH_CLIENT_IP_ADDR_ADD_EVENT, evt_data = Some (demo_neigh 5 ''wlan0'')\<rparr>])"
    "neigh_out ''bridge0'' 0 (demo_neigh 5 ''wlan0'') Map.empty = demo_neigh 5 ''wlan0''"
    using ll d by (simp_all add: neigh_spec_def neigh_out_def has_addr_def v4_spec_def remember_def new_client_def sent_def out_event_def)
  show ?thesis using neighbor_refines_map [OF Neighbor_new_ok [OF demo_table] l q, of IPA_NEW_NEIGH_EVENT "Some zero_data"] by (simp add: s spec)
qed

text \<open>
  A client that is learned when the cache is full is cached without its address, although the address is known and posted: when it reconnects, nothing is posted for it.
\<close>

lemma recycled_slot_loses_address:
  assumes ok: "nb_ok s" and full: "num_neighbor_client s = 100" "clients s (mac_addr d) = None"
    and d: "length (da_iface_name d) \<le> 15" "da_iface_name d \<noteq> ipa_virtual_iface_name (nb_cfg s)" "iptype d = IPA_IP_v4" "\<not> ignored idx d"
    and q: "nb_query K (if_index d) s = Some (idx, t)"
  shows "\<exists>s' c. event_callback_neighbor K (Some blk) IPA_NEW_NEIGH_EVENT (Param_all d) s = Some (s', Param_all d) \<and>
    last (nb_posted s') = \<lparr>event = IPA_NEIGH_CLIENT_IP_ADDR_ADD_EVENT, evt_data = Some d\<rparr> \<and> clients s' (mac_addr d) = Some c \<and> v4_addr c = 0 \<and> ipv4_addr d \<noteq> 0"
  using neigh_event_does [OF ok d(1) q, of "Some blk" IPA_NEW_NEIGH_EVENT] d full
  by (auto simp: event_callback_neighbor_def does_def neigh_spec_def neigh_out_def has_addr_def v4_spec_def remember_def victim_def new_client_def sent_def out_event_def
      ignored_def domIff)

end
