(* ===== verification/Conntrack.thy ===== *)
theory Conntrack
  imports NatSystem NatIfaces Neighbor
begin

text \<open>
  The conntrack listener of IPACM (\<open>ipacm/src/IPACM_ConntrackListener.cpp\<close>) on top of the connection cache (\<open>NatApp\<close>) and, through it, of the NAT library: it follows the WAN interface and the clients, turns
  messages of the kernel's connection tracking into NAT entries, and decides for each whether it enters the hardware table, waits for its client, or is ignored.
  Also the private subnets of the configuration (\<open>ipacm/inc/IPACM_Config.h\<close>), which it consults.

  The attributes of a connection are what the getters of libnetfilter\_conntrack return, in network byte order. \<open>None\<close>: a null pointer followed, or the data of an event read
  as a different type. The build is the one without \<open>CT_OPT\<close>; debug output is left out.
\<close>

section \<open>Private subnets\<close>

record ipa_private_subnet =
  subnet_addr :: u32
  subnet_mask :: u32

record subnet_cfg =
  private_subnet_table :: "ipa_private_subnet list"
  ipa_num_private_subnet :: nat
  subnet_events :: "int list"

abbreviation IPA_MAX_PRIVATE_SUBNET_ENTRIES :: nat where
  "IPA_MAX_PRIVATE_SUBNET_ENTRIES \<equiv> 3"

definition isPrivateSubnet :: "u32 \<Rightarrow> subnet_cfg \<Rightarrow> bool" where
  "isPrivateSubnet ip_addr s \<longleftrightarrow>
     first_idx (\<lambda>e. subnet_addr e = and (subnet_mask e) ip_addr) (take (ipa_num_private_subnet s) (private_subnet_table s)) \<noteq> None"

text \<open>The mask of an added subnet is always \<open>255.255.255.0\<close>. When there is no memory for the event, \<open>IPACM_FAILURE\<close> is returned as a \<open>bool\<close>: true.\<close>

definition AddPrivateSubnet :: "bool \<Rightarrow> u32 \<Rightarrow> int \<Rightarrow> subnet_cfg \<Rightarrow> bool \<times> subnet_cfg" where
  "AddPrivateSubnet mem_ok ip_addr ipa_if_index s =
     (if first_idx (\<lambda>e. subnet_addr e = ip_addr) (take (ipa_num_private_subnet s) (private_subnet_table s)) \<noteq> None then (True, s)
      else if ipa_num_private_subnet s < IPA_MAX_PRIVATE_SUBNET_ENTRIES
      then let n = ipa_num_private_subnet s;
               s = s\<lparr>private_subnet_table := (private_subnet_table s)[n := \<lparr>subnet_addr = ip_addr, subnet_mask = push_bit 8 (drop_bit 8 (- 1))\<rparr>],
                     ipa_num_private_subnet := n + 1\<rparr>
           in (True, if mem_ok then s\<lparr>subnet_events := subnet_events s @ [ipa_if_index]\<rparr> else s)
      else (False, s))"

text \<open>Only the addresses move down; \<open>n\<close> moves are left.\<close>

fun shift_subnets :: "ipa_private_subnet list \<Rightarrow> nat \<Rightarrow> nat \<Rightarrow> ipa_private_subnet list" where
  "shift_subnets tab i 0 = tab"
| "shift_subnets tab i (Suc n) = shift_subnets (tab[i := (tab ! i)\<lparr>subnet_addr := subnet_addr (tab ! Suc i)\<rparr>]) (Suc i) n"

definition DelPrivateSubnet :: "bool \<Rightarrow> u32 \<Rightarrow> int \<Rightarrow> subnet_cfg \<Rightarrow> bool \<times> subnet_cfg" where
  "DelPrivateSubnet mem_ok ip_addr ipa_if_index s =
     (case first_idx (\<lambda>e. subnet_addr e = ip_addr) (take (ipa_num_private_subnet s) (private_subnet_table s)) of
        None \<Rightarrow> (False, s)
      | Some i \<Rightarrow>
          let n = ipa_num_private_subnet s;
              s = s\<lparr>private_subnet_table := shift_subnets (private_subnet_table s) i (n - 1 - i), ipa_num_private_subnet := n - 1\<rparr>
          in (True, if mem_ok then s\<lparr>subnet_events := subnet_events s @ [ipa_if_index]\<rparr> else s))"

section \<open>The listener\<close>

text \<open>The threads it starts, in order, and the updates of the kernel's message filters it asks for (\<open>IPACM_ConntrackClient\<close>) are recorded.\<close>

datatype ct_thread = TCPRegisterWithConnTrack | UDPRegisterWithConnTrack | UDPConnTimeoutUpdate

datatype ct_filter = UpdateUDPFilters | UpdateTCPFilters

record ipacm_event_iface_up =
  ifname :: string
  up_ipv4_addr :: u32
  is_sta :: bool

record ct_listener =
  isCTReg :: bool
  isNatThreadStart :: bool
  WanUp :: bool
  nat_inst :: bool
  StaClntCnt :: int
  nat_iface_ipv4_addr :: "u32 list"
  nonnat_iface_ipv4_addr :: "u32 list"
  sta_clnt_ipv4_addr :: "u32 list"
  wan_ifname :: string
  wan_ipaddr :: u32
  isStaMode :: bool
  ct_threads :: "ct_thread list"
  ct_filters :: "(ct_filter \<times> ipacm_event_iface_up) list"

abbreviation MAX_IFACE_ADDRESS :: nat where
  "MAX_IFACE_ADDRESS \<equiv> 50"

abbreviation MAX_STA_CLNT_IFACES :: nat where
  "MAX_STA_CLNT_IFACES \<equiv> 10"

text \<open>\<open>nat_inst\<close>: whether \<open>NatApp::GetInstance()\<close> gave an object. The constructor leaves three members as it finds them in memory.\<close>

definition new_listener :: "bool \<Rightarrow> string \<Rightarrow> u32 \<Rightarrow> bool \<Rightarrow> ct_listener" where
  "new_listener inst junk_ifname junk_ipaddr junk_sta =
     \<lparr>isCTReg = False, isNatThreadStart = False, WanUp = False, nat_inst = inst, StaClntCnt = 0,
      nat_iface_ipv4_addr = replicate MAX_IFACE_ADDRESS 0, nonnat_iface_ipv4_addr = replicate MAX_IFACE_ADDRESS 0,
      sta_clnt_ipv4_addr = replicate MAX_STA_CLNT_IFACES 0, wan_ifname = junk_ifname, wan_ipaddr = junk_ipaddr, isStaMode = junk_sta,
      ct_threads = [], ct_filters = []\<rparr>"

text \<open>What is around it: the configuration, the kernel's \<open>SIOCGIFNAME\<close>, the address of the WAN interface, and whether memory and threads can be had.\<close>

record ct_env =
  env_nat_cfg :: nat_cfg
  env_subnets :: subnet_cfg
  env_ifname :: "int \<Rightarrow> string option"
  ipacm_ip_passthrough_mode :: bool
  getWANIP :: u32
  env_malloc :: bool
  thread_ok :: "ct_thread \<Rightarrow> bool"

type_synonym 'd ct_sys = "ct_listener \<times> NatApp \<times> 'd"

text \<open>Calls of methods of \<open>nat_inst\<close>, in order.\<close>

definition nat_calls :: "'d nat_drv \<Rightarrow> nat_op list \<Rightarrow> 'd ct_sys \<Rightarrow> 'd ct_sys option" where
  "nat_calls D ops sys =
     (case sys of (L, sd) \<Rightarrow> if ops = [] then Some sys else if nat_inst L then Some (L, fold (\<lambda>x sd. nat_exec D sd x) ops sd) else None)"

section \<open>Threads\<close>

definition CreateConnTrackThreads :: "ct_env \<Rightarrow> ct_listener \<Rightarrow> int \<times> ct_listener" where
  "CreateConnTrackThreads E L =
     (if \<not> isCTReg L
      then if \<not> thread_ok E TCPRegisterWithConnTrack then (-1, L)
           else let L = L\<lparr>ct_threads := ct_threads L @ [TCPRegisterWithConnTrack]\<rparr>
                in if \<not> thread_ok E UDPRegisterWithConnTrack then (-1, L)
                   else (0, L\<lparr>ct_threads := ct_threads L @ [UDPRegisterWithConnTrack], isCTReg := True\<rparr>)
      else (0, L))"

definition CreateNatThreads :: "ct_env \<Rightarrow> ct_listener \<Rightarrow> int \<times> ct_listener" where
  "CreateNatThreads E L =
     (if \<not> isNatThreadStart L
      then if \<not> thread_ok E UDPConnTimeoutUpdate then (-1, L)
           else (0, L\<lparr>ct_threads := ct_threads L @ [UDPConnTimeoutUpdate], isNatThreadStart := True\<rparr>)
      else (0, L))"

section \<open>Clients\<close>

text \<open>Result: the return value and \<open>*NatIface\<close>.\<close>

definition CheckNatIface :: "ct_env \<Rightarrow> ipacm_event_data_all \<Rightarrow> (int \<times> bool) option" where
  "CheckNatIface E data =
     (if ipv4_addr data = 0 \<or> iptype data \<noteq> IPA_IP_v4 then Some (-1, False)
      else if \<not> env_malloc E then Some (-1, False)
      else do { (ret, names) \<leftarrow> GetNatIfaces (int (ipa_nat_iface_entries (env_nat_cfg E))) (env_nat_cfg E);
                if ret \<noteq> 0 then Some (-1, False)
                else case env_ifname E (if_index data) of
                       None \<Rightarrow> Some (-1, False)
                     | Some ifr_name \<Rightarrow> Some (0, first_idx (\<lambda>n. strncmp_eq ifr_name n 16) names \<noteq> None) })"

definition HandleNonNatIPAddr :: "'d nat_drv \<Rightarrow> ct_env \<Rightarrow> ipacm_event_data_all \<Rightarrow> bool \<Rightarrow> 'd ct_sys \<Rightarrow> 'd ct_sys option" where
  "HandleNonNatIPAddr D E data AddOp sys =
     (let (L, sd) = sys; ip = ipv4_addr data in
      if isStaMode L then Some sys
      else if AddOp
      then do { (ret, NatIface) \<leftarrow> CheckNatIface E data;
                if \<not> NatIface \<and> ret = 0
                then case first_idx (\<lambda>a. a = 0) (nonnat_iface_ipv4_addr L) of
                       None \<Rightarrow> Some sys
                     | Some i \<Rightarrow> nat_calls D [Flush_temp ip True True] (L\<lparr>nonnat_iface_ipv4_addr := (nonnat_iface_ipv4_addr L)[i := ip]\<rparr>, sd)
                else Some sys }
      else case first_idx (\<lambda>a. a = ip) (nonnat_iface_ipv4_addr L) of
             None \<Rightarrow> Some sys
           | Some i \<Rightarrow> nat_calls D [Flush_temp ip False False, Clnt_discon ip] (L\<lparr>nonnat_iface_ipv4_addr := (nonnat_iface_ipv4_addr L)[i := 0]\<rparr>, sd))"

definition HandleNeighIpAddrAddEvt :: "'d nat_drv \<Rightarrow> ct_env \<Rightarrow> ipacm_event_data_all \<Rightarrow> 'd ct_sys \<Rightarrow> 'd ct_sys option" where
  "HandleNeighIpAddrAddEvt D E data sys =
     (let (L, sd) = sys; ip = ipv4_addr data in
      do { (ret, NatIface) \<leftarrow> CheckNatIface E data;
           if NatIface \<and> ret = 0
           then case first_idx (\<lambda>a. a = ip \<or> a = 0) (nat_iface_ipv4_addr L) of
                  None \<Rightarrow> Some sys
                | Some j \<Rightarrow> nat_calls D [Pwr_reset ip, Flush_temp ip True False]
                              (L\<lparr>nat_iface_ipv4_addr := (nat_iface_ipv4_addr L)[j := ip]\<rparr>, sd)
           else Some sys })"

text \<open>The loop over the addresses: the new array and the calls made.\<close>

fun neigh_del_loop :: "u32 \<Rightarrow> u32 list \<Rightarrow> u32 list \<times> nat_op list" where
  "neigh_del_loop ip [] = ([], [])"
| "neigh_del_loop ip (a # as) =
     (let (as', ops) = neigh_del_loop ip as
      in if a = ip then (0 # as', Flush_temp ip False False # Clnt_discon ip # ops) else (a # as', ops))"

definition HandleNeighIpAddrDelEvt :: "'d nat_drv \<Rightarrow> u32 \<Rightarrow> 'd ct_sys \<Rightarrow> 'd ct_sys option" where
  "HandleNeighIpAddrDelEvt D ip sys =
     (let (L, sd) = sys in
      if ip = 0 then Some sys
      else let (as, ops) = neigh_del_loop ip (nat_iface_ipv4_addr L)
           in nat_calls D ops (L\<lparr>nat_iface_ipv4_addr := as\<rparr>, sd))"

definition HandleSTAClientAddEvt :: "'d nat_drv \<Rightarrow> u32 \<Rightarrow> 'd ct_sys \<Rightarrow> 'd ct_sys option" where
  "HandleSTAClientAddEvt D ip sys =
     (let (L, sd) = sys in
      if StaClntCnt L \<ge> int MAX_STA_CLNT_IFACES then Some sys
      else let L = (case first_idx (\<lambda>a. a \<noteq> 0 \<and> a = ip \<or> a = 0) (sta_clnt_ipv4_addr L) of
                      None \<Rightarrow> L
                    | Some i \<Rightarrow> if sta_clnt_ipv4_addr L ! i \<noteq> 0 then L
                                else L\<lparr>sta_clnt_ipv4_addr := (sta_clnt_ipv4_addr L)[i := ip], StaClntCnt := StaClntCnt L + 1\<rparr>)
           in nat_calls D [Flush_temp ip True False] (L, sd))"

definition HandleSTAClientDelEvt :: "'d nat_drv \<Rightarrow> u32 \<Rightarrow> 'd ct_sys \<Rightarrow> 'd ct_sys option" where
  "HandleSTAClientDelEvt D ip sys =
     (let (L, sd) = sys in
      case first_idx (\<lambda>a. a \<noteq> 0 \<and> a = ip) (sta_clnt_ipv4_addr L) of
        None \<Rightarrow> nat_calls D [Flush_temp ip False False] sys
      | Some i \<Rightarrow> nat_calls D [Sta_discon ip, Flush_temp ip False False]
                    (L\<lparr>sta_clnt_ipv4_addr := (sta_clnt_ipv4_addr L)[i := 0], StaClntCnt := StaClntCnt L - 1\<rparr>, sd))"

section \<open>The WAN interface\<close>

definition TriggerWANDown :: "'d nat_drv \<Rightarrow> u32 \<Rightarrow> 'd ct_sys \<Rightarrow> 'd ct_sys" where
  "TriggerWANDown D wan_addr sys =
     (let (L, s, d) = sys in
      if nat_inst L
      then let (ret, s, d) = DeleteTable D wan_addr s d
           in if ret \<noteq> 0 then (L, s, d) else (L\<lparr>WanUp := False, wan_ipaddr := 0\<rparr>, s, d)
      else sys)"

text \<open>The last part, once an older WAN interface is gone.\<close>

definition wan_is_up :: "'d nat_drv \<Rightarrow> ct_env \<Rightarrow> ipacm_event_iface_up \<Rightarrow> 'd ct_sys \<Rightarrow> 'd ct_sys" where
  "wan_is_up D E wanup_data sys =
     (let (L, sd) = sys;
          L = L\<lparr>WanUp := True, isStaMode := is_sta wanup_data, wan_ipaddr := up_ipv4_addr wanup_data, wan_ifname := ifname wanup_data\<rparr>;
          sd = (if nat_inst L then nat_exec D sd (Add_table (up_ipv4_addr wanup_data)) else sd)
      in (snd (CreateNatThreads E L), sd))"

definition TriggerWANUp :: "'d nat_drv \<Rightarrow> ct_env \<Rightarrow> ipacm_event_iface_up \<Rightarrow> 'd ct_sys \<Rightarrow> 'd ct_sys" where
  "TriggerWANUp D E wanup_data sys =
     (let (L, sd) = sys in
      if up_ipv4_addr wanup_data = 0 then sys
      else if WanUp L
      then if wan_ipaddr L \<noteq> up_ipv4_addr wanup_data then wan_is_up D E wanup_data (TriggerWANDown D (wan_ipaddr L) sys) else sys
      else wan_is_up D E wanup_data sys)"

section \<open>Messages of connection tracking\<close>

datatype nf_conntrack_msg_type = NFCT_T_UNKNOWN | NFCT_T_NEW | NFCT_T_UPDATE | NFCT_T_DESTROY

record nf_conntrack =
  ATTR_STATUS :: u32
  ATTR_ORIG_L4PROTO :: u8
  ATTR_REPL_L4PROTO :: u8
  ATTR_ORIG_IPV4_SRC :: u32
  ATTR_ORIG_IPV4_DST :: u32
  ATTR_ORIG_PORT_SRC :: u16
  ATTR_ORIG_PORT_DST :: u16
  ATTR_REPL_IPV4_SRC :: u32
  ATTR_REPL_IPV4_DST :: u32
  ATTR_REPL_PORT_SRC :: u16
  ATTR_REPL_PORT_DST :: u16
  ATTR_TCP_STATE :: u8

record ipacm_ct_evt_data =
  ct :: nf_conntrack
  ct_type :: nf_conntrack_msg_type

text \<open>Constants of the kernel's headers; \<open>ntohl\<close> is \<open>htonl\<close>.\<close>

definition IPS_SRC_NAT :: u32 where "IPS_SRC_NAT = 16"
definition IPS_DST_NAT :: u32 where "IPS_DST_NAT = 32"
definition TCP_CONNTRACK_ESTABLISHED :: u8 where "TCP_CONNTRACK_ESTABLISHED = 3"
definition TCP_CONNTRACK_FIN_WAIT :: u8 where "TCP_CONNTRACK_FIN_WAIT = 4"

definition ntohs :: "u16 \<Rightarrow> u16" where
  "ntohs x = or (push_bit 8 x) (drop_bit 8 x)"

definition PopulateTCPorUDPEntry :: "nf_conntrack \<Rightarrow> u32 \<Rightarrow> nat_table_entry \<Rightarrow> nat_table_entry" where
  "PopulateTCPorUDPEntry c status rule =
     (if status = IPS_DST_NAT
      then rule\<lparr>dst_nat := True,
                target_ip := htonl (ATTR_ORIG_IPV4_SRC c), target_port := ntohs (ATTR_ORIG_PORT_SRC c),
                public_port := ntohs (ATTR_ORIG_PORT_DST c),
                private_ip := htonl (ATTR_REPL_IPV4_SRC c), private_port := ntohs (ATTR_REPL_PORT_SRC c)\<rparr>
      else if status = IPS_SRC_NAT
      then rule\<lparr>dst_nat := False,
                target_ip := htonl (ATTR_ORIG_IPV4_DST c), target_port := ntohs (ATTR_ORIG_PORT_DST c),
                public_port := ntohs (ATTR_REPL_PORT_DST c),
                private_ip := htonl (ATTR_ORIG_IPV4_SRC c), private_port := ntohs (ATTR_ORIG_PORT_SRC c)\<rparr>
      else rule)"

text \<open>Result: whether the entry is wanted, \<open>*isTempEntry\<close>, and the rule, changed for a client that is not translated.\<close>

definition AddIface :: "ct_env \<Rightarrow> ct_listener \<Rightarrow> nat_table_entry \<Rightarrow> bool \<times> bool \<times> nat_table_entry" where
  "AddIface E L rule =
     (if ipacm_ip_passthrough_mode E \<and> private_ip rule = getWANIP E then (True, False, rule)
      else if first_idx (\<lambda>a. a \<noteq> 0 \<and> (private_ip rule = a \<or> target_ip rule = a)) (nat_iface_ipv4_addr L) \<noteq> None then (True, False, rule)
      else if \<not> isStaMode L \<and> first_idx (\<lambda>a. a \<noteq> 0 \<and> (private_ip rule = a \<or> target_ip rule = a)) (nonnat_iface_ipv4_addr L) \<noteq> None
      then (True, False, rule\<lparr>private_ip := public_ip rule, private_port := public_port rule\<rparr>)
      else if isPrivateSubnet (private_ip rule) (env_subnets E) \<or> isPrivateSubnet (target_ip rule) (env_subnets E) then (True, True, rule)
      else (False, False, rule))"

definition STA_CLNT_SUBNET_MASK :: u32 where
  "STA_CLNT_SUBNET_MASK = 0xFFFFFF00"

definition CheckSTAClient :: "ct_listener \<Rightarrow> nat_table_entry \<Rightarrow> bool \<Rightarrow> bool" where
  "CheckSTAClient L rule isTempEntry =
     (if \<not> isStaMode L \<or> StaClntCnt L = 0 then isTempEntry
      else if and (sta_clnt_ipv4_addr L ! 0) STA_CLNT_SUBNET_MASK \<noteq> and (target_ip rule) STA_CLNT_SUBNET_MASK then isTempEntry
      else if first_idx (\<lambda>a. target_ip rule = a) (take (nat (StaClntCnt L)) (sta_clnt_ipv4_addr L)) \<noteq> None then isTempEntry
      else True)"

definition add_entry_ops :: "ct_listener \<Rightarrow> nat_table_entry \<Rightarrow> bool \<Rightarrow> nat_op list" where
  "add_entry_ops L rule isTempEntry = (if \<not> WanUp L then [Cache_entry rule] else if isTempEntry then [Add_temp rule] else [Add_entry rule])"

definition AddORDeleteNatEntry :: "ct_listener \<Rightarrow> nf_conntrack \<Rightarrow> nf_conntrack_msg_type \<Rightarrow> nat_table_entry \<Rightarrow> bool \<Rightarrow> nat_op list" where
  "AddORDeleteNatEntry L c type rule isTempEntry =
     (if \<not> nat_inst L then []
      else if protocol rule = IPPROTO_TCP
      then if ATTR_TCP_STATE c = TCP_CONNTRACK_ESTABLISHED then add_entry_ops L rule isTempEntry
           else if ATTR_TCP_STATE c = TCP_CONNTRACK_FIN_WAIT \<or> type = NFCT_T_DESTROY then [Delete_entry rule, Delete_temp rule]
           else []
      else if protocol rule = IPPROTO_UDP
      then if type = NFCT_T_NEW then add_entry_ops L rule isTempEntry
           else if type = NFCT_T_DESTROY then [Delete_entry rule, Delete_temp rule]
           else []
      else [])"

text \<open>Which side is translated: from the status flags or, without them, from the WAN address. \<open>None\<close>: the message is ignored.\<close>

definition nat_status :: "ct_listener \<Rightarrow> nf_conntrack \<Rightarrow> u32 option" where
  "nat_status L c =
     (let status = ATTR_STATUS c in
      if and IPS_DST_NAT status \<noteq> 0 then Some IPS_DST_NAT
      else if and IPS_SRC_NAT status \<noteq> 0 then Some IPS_SRC_NAT
      else let orig_src_ip = htonl (ATTR_ORIG_IPV4_SRC c); orig_dst_ip = htonl (ATTR_ORIG_IPV4_DST c)
           in if orig_src_ip = 0 \<or> orig_dst_ip = 0 then None
              else if orig_src_ip = wan_ipaddr L then Some IPS_SRC_NAT
              else if orig_dst_ip = wan_ipaddr L then Some IPS_DST_NAT
              else None)"

text \<open>The calls of \<open>NatApp\<close> that a message leads to.\<close>

definition ProcessTCPorUDPMsg :: "ct_env \<Rightarrow> ct_listener \<Rightarrow> nf_conntrack \<Rightarrow> nf_conntrack_msg_type \<Rightarrow> nat_op list" where
  "ProcessTCPorUDPMsg E L c type =
     (case nat_status L c of
        None \<Rightarrow> []
      | Some status \<Rightarrow>
          let rule = (PopulateTCPorUDPEntry c status (zero_entry\<lparr>protocol := ATTR_REPL_L4PROTO c\<rparr>))\<lparr>public_ip := wan_ipaddr L\<rparr>
          in if private_ip rule \<noteq> wan_ipaddr L
             then let (isAdd, isTempEntry, rule) = AddIface E L rule
                  in if \<not> isAdd then [] else AddORDeleteNatEntry L c type rule (CheckSTAClient L rule isTempEntry)
             else if isStaMode L then []
             else let rule = rule\<lparr>private_port := public_port rule\<rparr>
                  in AddORDeleteNatEntry L c type rule (CheckSTAClient L rule False))"

definition ProcessCTMessage :: "'d nat_drv \<Rightarrow> ct_env \<Rightarrow> ipacm_ct_evt_data \<Rightarrow> 'd ct_sys \<Rightarrow> 'd ct_sys option" where
  "ProcessCTMessage D E msg sys =
     (let l4proto = ATTR_ORIG_L4PROTO (ct msg) in
      if l4proto \<noteq> IPPROTO_UDP \<and> l4proto \<noteq> IPPROTO_TCP then Some sys
      else nat_calls D (ProcessTCPorUDPMsg E (fst sys) (ct msg) (ct_type msg)) sys)"

section \<open>Events\<close>

datatype ct_param = P_ct ipacm_ct_evt_data | P_iface ipacm_event_iface_up | P_all ipacm_event_data_all

definition event_callback_ct :: "'d nat_drv \<Rightarrow> ct_env \<Rightarrow> ipa_cm_event_id \<Rightarrow> ct_param option \<Rightarrow> 'd ct_sys \<Rightarrow> 'd ct_sys option" where
  "event_callback_ct D E ev data sys =
     (case data of
        None \<Rightarrow> Some sys
      | Some p \<Rightarrow>
          if ev = IPA_PROCESS_CT_MESSAGE then (case p of P_ct d \<Rightarrow> ProcessCTMessage D E d sys | _ \<Rightarrow> None)
          else if ev = IPA_HANDLE_WAN_UP
          then (case p of P_iface d \<Rightarrow> (case sys of (L, sd) \<Rightarrow> Some (TriggerWANUp D E d (snd (CreateConnTrackThreads E L), sd))) | _ \<Rightarrow> None)
          else if ev = IPA_HANDLE_WAN_DOWN
          then (case p of P_iface d \<Rightarrow> Some (if WanUp (fst sys) then TriggerWANDown D (up_ipv4_addr d) sys else sys) | _ \<Rightarrow> None)
          else if ev = IPA_HANDLE_WLAN_UP \<or> ev = IPA_HANDLE_LAN_UP
          then (case p of
                  P_iface d \<Rightarrow>
                    (case sys of (L, sd) \<Rightarrow>
                       Some (if WanUp L
                             then let L = snd (CreateConnTrackThreads E L)
                                  in (L\<lparr>ct_filters := ct_filters L @ [(UpdateUDPFilters, d), (UpdateTCPFilters, d)]\<rparr>, sd)
                             else sys))
                | _ \<Rightarrow> None)
          else if ev = IPA_NEIGH_CLIENT_IP_ADDR_ADD_EVENT then (case p of P_all d \<Rightarrow> HandleNonNatIPAddr D E d True sys | _ \<Rightarrow> None)
          else if ev = IPA_NEIGH_CLIENT_IP_ADDR_DEL_EVENT then (case p of P_all d \<Rightarrow> HandleNonNatIPAddr D E d False sys | _ \<Rightarrow> None)
          else Some sys)"

section \<open>Any use of the listener\<close>

text \<open>Everything that reaches the listener, and the calls of the rest of IPACM to \<open>NatApp\<close>: power save of clients and the time stamps.\<close>

datatype ct_req =
    Ct_event ct_env ipa_cm_event_id "ct_param option"
  | Ct_neigh_add ct_env ipacm_event_data_all
  | Ct_neigh_del u32
  | Ct_sta_add u32
  | Ct_sta_del u32
  | Ct_start_threads ct_env
  | Ct_power_save u32
  | Ct_power_reset u32
  | Ct_timestamps bool

fun ct_step :: "'d nat_drv \<Rightarrow> 'd ct_sys \<Rightarrow> ct_req \<Rightarrow> 'd ct_sys option" where
  "ct_step D sys (Ct_event E ev p) = event_callback_ct D E ev p sys"
| "ct_step D sys (Ct_neigh_add E d) = HandleNeighIpAddrAddEvt D E d sys"
| "ct_step D sys (Ct_neigh_del ip) = HandleNeighIpAddrDelEvt D ip sys"
| "ct_step D sys (Ct_sta_add ip) = HandleSTAClientAddEvt D ip sys"
| "ct_step D sys (Ct_sta_del ip) = HandleSTAClientDelEvt D ip sys"
| "ct_step D (L, sd) (Ct_start_threads E) = Some (snd (CreateConnTrackThreads E L), sd)"
| "ct_step D (L, sd) (Ct_power_save ip) = Some (L, nat_exec D sd (Pwr_save ip))"
| "ct_step D (L, sd) (Ct_power_reset ip) = Some (L, nat_exec D sd (Pwr_reset ip))"
| "ct_step D (L, sd) (Ct_timestamps tou) = Some (L, nat_exec D sd (Update_ts tou))"

definition env_ok :: "ct_env \<Rightarrow> bool" where
  "env_ok E \<longleftrightarrow> ipa_nat_iface_entries (env_nat_cfg E) \<le> length (pNatIfaces (env_nat_cfg E))"

text \<open>The events come with data of their type, and the table of NAT interfaces has not overflown.\<close>

fun ct_legal :: "ct_req \<Rightarrow> bool" where
  "ct_legal (Ct_event E ev p) \<longleftrightarrow> env_ok E \<and>
     (case p of
        None \<Rightarrow> True
      | Some (P_ct _) \<Rightarrow> ev = IPA_PROCESS_CT_MESSAGE
      | Some (P_iface _) \<Rightarrow> ev \<in> {IPA_HANDLE_WAN_UP, IPA_HANDLE_WAN_DOWN, IPA_HANDLE_WLAN_UP, IPA_HANDLE_LAN_UP}
      | Some (P_all _) \<Rightarrow> ev \<in> {IPA_NEIGH_CLIENT_IP_ADDR_ADD_EVENT, IPA_NEIGH_CLIENT_IP_ADDR_DEL_EVENT})"
| "ct_legal (Ct_neigh_add E d) \<longleftrightarrow> env_ok E"
| "ct_legal _ \<longleftrightarrow> True"

text \<open>Calls that neither create nor delete the table, for TCP or UDP.\<close>

fun plain_op :: "nat_op \<Rightarrow> bool" where
  "plain_op (Add_table _) = False"
| "plain_op (Delete_table _) = False"
| "plain_op (Add_entry e) = (protocol e \<in> {IPPROTO_TCP, IPPROTO_UDP})"
| "plain_op (Delete_entry e) = (protocol e \<in> {IPPROTO_TCP, IPPROTO_UDP})"
| "plain_op (Cache_entry e) = (protocol e \<in> {IPPROTO_TCP, IPPROTO_UDP})"
| "plain_op (Add_temp e) = (protocol e \<in> {IPPROTO_TCP, IPPROTO_UDP})"
| "plain_op _ = True"

lemma plain_op_legal: "plain_op x \<Longrightarrow> sync_legal sd x"
  by (cases x) (auto simp: free_slot_def IPPROTO_TCP_def IPPROTO_UDP_def)

lemma flush_slot_table: "nat_table_hdl (fst (flush_slot D ip a b i sd)) = nat_table_hdl (fst sd) \<and> pub_ip_addr (fst (flush_slot D ip a b i sd)) = pub_ip_addr (fst sd)"
  by (cases sd) (auto simp: flush_slot_def Let_def split: prod.split dest!: AddEntry_frame)

lemma nat_exec_table:
  assumes "plain_op x"
  shows "nat_table_hdl (fst (nat_exec D (s, d) x)) = nat_table_hdl s \<and> pub_ip_addr (fst (nat_exec D (s, d) x)) = pub_ip_addr s"
proof (cases x)
  case (Flush_temp ip a b)
  have "nat_table_hdl (fst (fold (flush_slot D ip a b) is sd)) = nat_table_hdl (fst sd) \<and> pub_ip_addr (fst (fold (flush_slot D ip a b) is sd)) = pub_ip_addr (fst sd)" for "is" sd
    by (induction "is" arbitrary: sd) (simp_all add: flush_slot_table)
  then show ?thesis using Flush_temp by (simp add: FlushTempEntries_def)
next
  case (Add_entry e)
  then show ?thesis using AddEntry_frame [of D e s d] by (cases "AddEntry D e s d") auto
qed (use assms in \<open>auto simp: DeleteEntry_def CacheEntry_def UpdateUDPTimeStamp_def Read_TcpUdp_Timeout_def UpdatePwrSaveIf_def ResetPwrSaveIf_def DelEntriesOnClntDiscon_def
    DelEntriesOnSTAClntDiscon_def AddTempEntry_def DeleteTempEntry_def Let_def split: if_splits option.splits prod.splits\<close>)

lemma plain_calls_table:
  "\<forall>x \<in> set ops. plain_op x \<Longrightarrow> nat_table_hdl (fst (fold (\<lambda>x sd. nat_exec D sd x) ops sd)) = nat_table_hdl (fst sd) \<and>
     pub_ip_addr (fst (fold (\<lambda>x sd. nat_exec D sd x) ops sd)) = pub_ip_addr (fst sd)"
proof (induction ops arbitrary: sd)
  case (Cons x ops)
  then show ?case using nat_exec_table [of x D "fst sd" "snd sd"] by simp
qed simp

text \<open>Only calls of this kind come out of messages.\<close>

lemma AddORDelete_plain: "\<forall>x \<in> set (AddORDeleteNatEntry L c t rule tmp). plain_op x"
  by (auto simp: AddORDeleteNatEntry_def add_entry_ops_def)

lemma ProcessTCPorUDPMsg_plain: "\<forall>x \<in> set (ProcessTCPorUDPMsg E L c t). plain_op x"
  using AddORDelete_plain by (auto simp: ProcessTCPorUDPMsg_def Let_def split: option.split prod.split)

lemma ProcessTCPorUDPMsg_null: "\<not> nat_inst L \<Longrightarrow> ProcessTCPorUDPMsg E L c t = []"
  by (auto simp: ProcessTCPorUDPMsg_def AddORDeleteNatEntry_def Let_def split: option.split prod.split)

lemma neigh_del_loop_ops: "neigh_del_loop ip as = (as', ops) \<Longrightarrow>
    as' = map (\<lambda>a. if a = ip then 0 else a) as \<and> ops = concat (map (\<lambda>_. [Flush_temp ip False False, Clnt_discon ip]) (filter (\<lambda>a. a = ip) as))"
  by (induction as arbitrary: as' ops) (auto simp: Let_def split: prod.splits if_splits)

lemma CheckNatIface_defined: "env_ok E \<Longrightarrow> \<exists>ret b. CheckNatIface E d = Some (ret, b)"
  by (auto simp: CheckNatIface_def GetNatIfaces_def env_ok_def split: option.split)

section \<open>Listener, cache and table in step\<close>

definition ct_inv ::
  "nat \<Rightarrow> ('d \<Rightarrow> bool) \<Rightarrow> ('d \<Rightarrow> bool) \<Rightarrow> ('d \<Rightarrow> u32 \<rightharpoonup> ipa_nat_ipv4_rule) \<Rightarrow> 'd ct_sys \<Rightarrow> bool" where
  "ct_inv n up down in_table sys \<longleftrightarrow>
     (case sys of (L, s, d) \<Rightarrow>
        in_sync n up down in_table (s, d) \<and> nat_inst L \<and> length (nat_iface_ipv4_addr L) = MAX_IFACE_ADDRESS \<and>
        length (nonnat_iface_ipv4_addr L) = MAX_IFACE_ADDRESS \<and> length (sta_clnt_ipv4_addr L) = MAX_STA_CLNT_IFACES \<and>
        (WanUp L \<longleftrightarrow> nat_table_hdl s \<noteq> 0) \<and> (WanUp L \<longrightarrow> wan_ipaddr L = pub_ip_addr s \<and> wan_ipaddr L \<noteq> 0))"

text \<open>What the rest of the listener may change without touching that.\<close>

definition same_wan :: "ct_listener \<Rightarrow> ct_listener \<Rightarrow> bool" where
  "same_wan L L' \<longleftrightarrow> nat_inst L' = nat_inst L \<and> WanUp L' = WanUp L \<and> wan_ipaddr L' = wan_ipaddr L \<and>
     length (nat_iface_ipv4_addr L') = length (nat_iface_ipv4_addr L) \<and> length (nonnat_iface_ipv4_addr L') = length (nonnat_iface_ipv4_addr L) \<and>
     length (sta_clnt_ipv4_addr L') = length (sta_clnt_ipv4_addr L)"

lemma same_wan_refl [simp]: "same_wan L L"
  by (simp add: same_wan_def)

lemma same_wan_threads [simp]: "same_wan L (snd (CreateConnTrackThreads E L))" "same_wan L (snd (CreateNatThreads E L))"
  by (simp_all add: same_wan_def CreateConnTrackThreads_def CreateNatThreads_def Let_def)

lemma same_wan_inv: "ct_inv n up down tab (L, sd) \<Longrightarrow> same_wan L L' \<Longrightarrow> ct_inv n up down tab (L', sd)"
  by (cases sd) (auto simp: ct_inv_def same_wan_def)

context rule_table
begin

abbreviation ct_ok :: "'d ct_sys \<Rightarrow> bool" where
  "ct_ok \<equiv> ct_inv n up down in_table"

lemma fold_sync: "sync sd \<Longrightarrow> \<forall>x \<in> set ops. plain_op x \<Longrightarrow> sync (fold (\<lambda>x sd. nat_exec D sd x) ops sd)"
proof (induction ops arbitrary: sd)
  case (Cons x ops)
  then have "sync (nat_exec D sd x)" by (intro sync_step) (simp_all add: plain_op_legal)
  with Cons show ?case by simp
qed simp

lemma ct_exec:
  assumes i: "ct_ok (L, sd)" and w: "same_wan L L'" and ops: "\<forall>x \<in> set ops. plain_op x"
  shows "ct_ok (L', fold (\<lambda>x sd. nat_exec D sd x) ops sd)"
proof -
  obtain s d where sd: "sd = (s, d)" by (cases sd)
  obtain s' d' where r: "fold (\<lambda>x sd. nat_exec D sd x) ops (s, d) = (s', d')" by (cases "fold (\<lambda>x sd. nat_exec D sd x) ops (s, d)")
  have "sync (s', d')" using fold_sync [of sd ops] i ops sd r by (simp add: ct_inv_def)
  moreover have "nat_table_hdl s' = nat_table_hdl s" "pub_ip_addr s' = pub_ip_addr s" using plain_calls_table [OF ops, of D "(s, d)"] r by simp_all
  ultimately show ?thesis using i w sd r by (auto simp: ct_inv_def same_wan_def)
qed

lemma ct_calls:
  assumes i: "ct_ok (L, sd)" and w: "same_wan L L'" and ops: "\<forall>x \<in> set ops. plain_op x"
  shows "\<exists>sys'. nat_calls D ops (L', sd) = Some sys' \<and> ct_ok sys'"
proof -
  have "nat_inst L'" using i w by (cases sd) (simp add: ct_inv_def same_wan_def)
  then show ?thesis using ct_exec [OF assms] by (auto simp: nat_calls_def simp del: split_paired_Ex)
qed

lemma wan_down_ok:
  assumes i: "ct_ok (L, s, d)"
  shows "ct_ok (TriggerWANDown D ip (L, s, d))" "WanUp L \<Longrightarrow> ip = wan_ipaddr L \<Longrightarrow> \<not> WanUp (fst (TriggerWANDown D ip (L, s, d)))"
proof -
  have s: "sync (s, d)" "nat_inst L" using i by (auto simp: ct_inv_def)
  obtain ret s' d' where r: "DeleteTable D ip s d = (ret, s', d')" by (cases "DeleteTable D ip s d")
  have s': "sync (s', d')" using sync_step [OF s(1), of "Delete_table ip"] r by simp
  have out: "if nat_table_hdl s = 0 \<or> pub_ip_addr s \<noteq> ip then ret \<noteq> 0 \<and> s' = s \<and> d' = d else ret = 0 \<and> nat_table_hdl s' = 0"
  proof (cases "nat_table_hdl s = 0 \<or> pub_ip_addr s \<noteq> ip")
    case False
    with s have u: "nat_table_hdl s = 1" "up d" by (auto simp: in_sync_def synced_def)
    from destroy [OF u(2)] obtain d1 where "nat_drv.ipa_nat_del_ipv4_tbl D 1 d = (0, d1)" by auto
    with False u r show ?thesis by (auto simp: DeleteTable_def Reset_def)
  qed (use r in \<open>auto simp: DeleteTable_def split: if_splits\<close>)
  show "ct_ok (TriggerWANDown D ip (L, s, d))" using i s' out r by (auto simp: TriggerWANDown_def ct_inv_def split: if_splits)
  show "\<not> WanUp (fst (TriggerWANDown D ip (L, s, d)))" if "WanUp L" "ip = wan_ipaddr L"
    using that i out r s(2) by (auto simp: TriggerWANDown_def ct_inv_def)
qed

lemma wan_is_up_ok:
  assumes i: "ct_ok (L, s, d)" and down: "\<not> WanUp L" and ip: "up_ipv4_addr w \<noteq> 0"
  shows "ct_ok (wan_is_up D E w (L, s, d))"
proof -
  have s: "sync (s, d)" "nat_inst L" "nat_table_hdl s = 0" using i down by (auto simp: ct_inv_def)
  obtain ret s' d' where r: "AddTable D (up_ipv4_addr w) s d = (ret, s', d')" by (cases "AddTable D (up_ipv4_addr w) s d")
  have s': "sync (s', d')" using sync_step [OF s(1), of "Add_table (up_ipv4_addr w)"] r s(3) by simp
  have "down d" "length (cache s) = n" using s by (auto simp: in_sync_def synced_def)
  then obtain d1 where "nat_drv.ipa_nat_add_ipv4_tbl D (up_ipv4_addr w) (of_nat (length (cache s))) (nat_table_hdl s) d = (0, 1, d1)"
    using create [of d "up_ipv4_addr w" "nat_table_hdl s"] by auto
  then have t: "nat_table_hdl s' = 1" "pub_ip_addr s' = up_ipv4_addr w" using r by (auto simp: AddTable_def Let_def split: if_splits prod.splits)
  let ?L = "L\<lparr>WanUp := True, isStaMode := is_sta w, wan_ipaddr := up_ipv4_addr w, wan_ifname := ifname w\<rparr>"
  have "ct_ok (?L, s', d')" using i s' t ip by (simp add: ct_inv_def)
  then have "ct_ok (snd (CreateNatThreads E ?L), s', d')" by (rule same_wan_inv) simp
  then show ?thesis using s(2) r by (simp add: wan_is_up_def)
qed

lemma wan_up_ok:
  assumes i: "ct_ok sys"
  shows "ct_ok (TriggerWANUp D E w sys)"
proof -
  obtain L s d where sys: "sys = (L, s, d)" by (cases sys)
  show ?thesis
  proof (cases "up_ipv4_addr w = 0 \<or> WanUp L \<and> wan_ipaddr L = up_ipv4_addr w")
    case True
    then show ?thesis using i sys by (auto simp: TriggerWANUp_def)
  next
    case False
    then have ip: "up_ipv4_addr w \<noteq> 0" by simp
    show ?thesis
    proof (cases "WanUp L")
      case up: True
      obtain L' s' d' where t: "TriggerWANDown D (wan_ipaddr L) (L, s, d) = (L', s', d')" by (cases "TriggerWANDown D (wan_ipaddr L) (L, s, d)")
      have "ct_ok (L', s', d')" "\<not> WanUp L'" using wan_down_ok [of L s d "wan_ipaddr L"] i sys t up by auto
      from wan_is_up_ok [OF this ip, of E] show ?thesis using False up sys t by (simp add: TriggerWANUp_def)
    next
      case False
      then show ?thesis using wan_is_up_ok [of L s d w E] i sys ip by (simp add: TriggerWANUp_def)
    qed
  qed
qed

lemma ct_event_ok:
  assumes i: "ct_ok sys" and e: "ct_legal (Ct_event E ev p)"
  shows "\<exists>sys'. event_callback_ct D E ev p sys = Some sys' \<and> ct_ok sys'"
proof -
  obtain L s d where sys: "sys = (L, s, d)" by (cases sys)
  have env: "env_ok E" using e by simp
  have L: "nat_inst L" "length (nonnat_iface_ipv4_addr L) = MAX_IFACE_ADDRESS" using i sys by (auto simp: ct_inv_def)
  show ?thesis
  proof (cases p)
    case None
    then show ?thesis using i by (simp add: event_callback_ct_def)
  next
    case p: (Some q)
    show ?thesis
    proof (cases q)
      case (P_ct m)
      have "\<exists>sys'. nat_calls D (ProcessTCPorUDPMsg E L (ct m) (ct_type m)) (L, s, d) = Some sys' \<and> ct_ok sys'"
        using i sys by (intro ct_calls ProcessTCPorUDPMsg_plain) auto
      then show ?thesis using P_ct p e i sys by (auto simp: event_callback_ct_def ProcessCTMessage_def Let_def simp del: split_paired_Ex)
    next
      case (P_iface w)
      have 1: "ct_ok (snd (CreateConnTrackThreads E L), s, d)" using i sys by (auto intro: same_wan_inv)
      have 2: "ct_ok ((snd (CreateConnTrackThreads E L))\<lparr>ct_filters := fs\<rparr>, s, d)" for fs using 1 by (rule same_wan_inv) (simp add: same_wan_def)
      have 3: "ct_ok (TriggerWANDown D (up_ipv4_addr w) sys)" using i sys wan_down_ok(1) by simp
      show ?thesis using P_iface p e sys i wan_up_ok [OF 1] 2 3
        by (auto simp: event_callback_ct_def Let_def simp del: split_paired_Ex)
    next
      case (P_all x)
      have w: "same_wan L (L\<lparr>nonnat_iface_ipv4_addr := (nonnat_iface_ipv4_addr L)[k := a]\<rparr>)" for k a by (simp add: same_wan_def)
      have calls: "\<exists>sys'. nat_calls D ops (L\<lparr>nonnat_iface_ipv4_addr := (nonnat_iface_ipv4_addr L)[k := a]\<rparr>, s, d) = Some sys' \<and> ct_ok sys'"
        if "\<forall>x \<in> set ops. plain_op x" for ops k a using ct_calls [OF _ w that] i sys by simp
      have "\<exists>sys'. HandleNonNatIPAddr D E x add sys = Some sys' \<and> ct_ok sys'" for add
        using calls CheckNatIface_defined [OF env, of x] i sys
        by (cases add) (auto simp: HandleNonNatIPAddr_def Let_def simp del: split_paired_Ex split: option.split)
      then show ?thesis using P_all p e by (auto simp: event_callback_ct_def simp del: split_paired_Ex)
    qed
  qed
qed

lemma ct_step_ok:
  assumes i: "ct_ok sys" and r: "ct_legal r"
  shows "\<exists>sys'. ct_step D sys r = Some sys' \<and> ct_ok sys'"
proof -
  obtain L s d where sys: "sys = (L, s, d)" by (cases sys)
  have w: "same_wan L (L\<lparr>nat_iface_ipv4_addr := (nat_iface_ipv4_addr L)[k := a]\<rparr>)" "same_wan L (L\<lparr>nat_iface_ipv4_addr := map f (nat_iface_ipv4_addr L)\<rparr>)"
    "same_wan L (L\<lparr>sta_clnt_ipv4_addr := (sta_clnt_ipv4_addr L)[k := a], StaClntCnt := c\<rparr>)" for k a f c by (simp_all add: same_wan_def)
  note calls = ct_calls [OF i [unfolded sys]]
  have exec: "ct_ok (L, nat_exec D (s, d) x)" if "plain_op x" for x using ct_exec [of L "(s, d)" L "[x]"] i sys that by simp
  show ?thesis
  proof (cases r)
    case (Ct_event E ev p)
    then show ?thesis using ct_event_ok [OF i] r by simp
  next
    case (Ct_neigh_add E x)
    then show ?thesis using CheckNatIface_defined [of E x] r i sys calls [OF w(1)]
      by (auto simp: HandleNeighIpAddrAddEvt_def Let_def simp del: split_paired_Ex split: option.split)
  next
    case (Ct_neigh_del ip)
    obtain as ops where l: "neigh_del_loop ip (nat_iface_ipv4_addr L) = (as, ops)" by (cases "neigh_del_loop ip (nat_iface_ipv4_addr L)")
    note l' = neigh_del_loop_ops [OF l]
    have "\<forall>x \<in> set ops. plain_op x" using l' by auto
    then show ?thesis using Ct_neigh_del i sys l l' calls [OF w(2)] by (auto simp: HandleNeighIpAddrDelEvt_def simp del: split_paired_Ex)
  next
    case (Ct_sta_add ip)
    then show ?thesis using i sys calls [OF w(3), of "[Flush_temp ip True False]"] calls [of L "[Flush_temp ip True False]"]
      by (auto simp: HandleSTAClientAddEvt_def Let_def simp del: split_paired_Ex split: option.split)
  next
    case (Ct_sta_del ip)
    then show ?thesis using i sys calls [OF w(3), of "[Sta_discon ip, Flush_temp ip False False]"] calls [of L "[Flush_temp ip False False]"]
      by (auto simp: HandleSTAClientDelEvt_def simp del: split_paired_Ex split: option.split)
  next
    case (Ct_start_threads E)
    then show ?thesis using i sys by (auto intro: same_wan_inv)
  qed (use exec sys in \<open>auto simp del: nat_exec.simps\<close>)
qed

end

sublocale rule_table \<subseteq> ct_system: safe_component "ct_step D" "ct_inv n up down in_table" "\<lambda>sys r. ct_legal r"
  by unfold_locales (metis ct_step_ok option.inject, metis ct_step_ok)

lemma legal_ct: "list_all ct_legal rs \<Longrightarrow> legal_run (ct_step D) (\<lambda>sys r. ct_legal r) sys rs"
  by (induction rs arbitrary: sys) (auto split: option.split)

section \<open>A client that leaves\<close>

definition client_gone :: "u32 \<Rightarrow> NatApp \<Rightarrow> bool" where
  "client_gone ip s \<longleftrightarrow> (\<forall>e \<in> set (cache s). private_ip e = ip \<longrightarrow> \<not> enabled e) \<and> (\<forall>t \<in> set (temp s). private_ip t \<noteq> ip \<and> target_ip t \<noteq> ip)"

lemma flush_drops:
  assumes "ip \<noteq> 0" "n \<le> length (temp s)"
  shows "\<exists>s'. fold (flush_slot D ip False b) [0..<n] (s, d) = (s', d) \<and> cache s' = cache s \<and> length (temp s') = length (temp s) \<and>
    (\<forall>i < n. private_ip (temp s' ! i) \<noteq> ip \<and> target_ip (temp s' ! i) \<noteq> ip)"
  using assms(2)
proof (induction n)
  case (Suc n)
  then obtain s1 where s1: "fold (flush_slot D ip False b) [0..<n] (s, d) = (s1, d)" "cache s1 = cache s" "length (temp s1) = length (temp s)"
    "\<forall>i < n. private_ip (temp s1 ! i) \<noteq> ip \<and> target_ip (temp s1 ! i) \<noteq> ip" by auto
  let ?t = "temp s1 ! n" let ?s = "if private_ip ?t = ip \<or> target_ip ?t = ip then s1\<lparr>temp := (temp s1)[n := zero_entry]\<rparr> else s1"
  have "flush_slot D ip False b n (s1, d) = (?s, d)" by (simp add: flush_slot_def Let_def)
  moreover have "\<forall>i < Suc n. private_ip (temp ?s ! i) \<noteq> ip \<and> target_ip (temp ?s ! i) \<noteq> ip"
    using s1 Suc.prems assms(1) by (auto simp: less_Suc_eq nth_list_update)
  ultimately show ?case using s1 by (intro exI [of _ ?s]) auto
qed simp

lemma clnt_discon_temp: "temp (fst (nat_exec D (s, d) (Clnt_discon ip))) = temp s"
  by (auto simp: DelEntriesOnClntDiscon_def Let_def split: prod.split)

context rule_table
begin

lemma disable_all:
  assumes "for_cache (disable_slot D tbl ip) es c d = (es', c', d')" "in_step tbl (pre @ es) d"
  shows "\<forall>e \<in> set es'. private_ip e = ip \<longrightarrow> \<not> enabled e"
  using assms
proof (induction es arbitrary: pre c d es' c' d')
  case (Cons e es)
  obtain e1 c1 d1 where b: "disable_slot D tbl ip e c d = (e1, c1, d1)" by (cases "disable_slot D tbl ip e c d")
  obtain es1 c2 d2 where r: "for_cache (disable_slot D tbl ip) es c1 d1 = (es1, c2, d2)" by (cases "for_cache (disable_slot D tbl ip) es c1 d1")
  have "in_step tbl ((pre @ e # es)[length pre := e1]) d1" using disable_step [OF Cons.prems(2), of "length pre" ip c e1 c1 d1] b by simp
  then have "in_step tbl ((pre @ [e1]) @ es) d1" by simp
  from Cons.IH [OF r this] have es1: "\<forall>e \<in> set es1. private_ip e = ip \<longrightarrow> \<not> enabled e" .
  have "private_ip e1 = ip \<longrightarrow> \<not> enabled e1"
    using step_del [OF Cons.prems(2), of "length pre"] b by (auto simp: disable_slot_def split: if_splits)
  with es1 Cons.prems(1) b r show ?case by auto
qed simp

lemma discon_gone:
  assumes s: "sync (s, d)" and ip: "ip \<noteq> 0"
  shows "client_gone ip (fst (fold (\<lambda>x sd. nat_exec D sd x) [Flush_temp ip False b, Clnt_discon ip] (s, d)))"
proof -
  have len: "length (temp s) = MAX_TEMP_ENTRIES" using s by (simp add: in_sync_def NatApp.nat_inv_def)
  with flush_drops [OF ip, of MAX_TEMP_ENTRIES s D b d] obtain s1 where
    f: "FlushTempEntries D ip False b s d = (s1, d)" "length (temp s1) = MAX_TEMP_ENTRIES"
       "\<forall>i < MAX_TEMP_ENTRIES. private_ip (temp s1 ! i) \<noteq> ip \<and> target_ip (temp s1 ! i) \<noteq> ip" by (auto simp: FlushTempEntries_def)
  have "sync (s1, d)" using sync_Flush [OF s, of ip False b] f(1) by simp
  then have step: "in_step (nat_table_hdl s1) ([] @ cache s1) d" by (simp add: in_sync_def)
  obtain es c d1 where l: "for_cache (disable_slot D (nat_table_hdl s1) ip) (cache s1) (curCnt s1) d = (es, c, d1)"
    by (cases "for_cache (disable_slot D (nat_table_hdl s1) ip) (cache s1) (curCnt s1) d")
  have "\<forall>t \<in> set (temp s1). private_ip t \<noteq> ip \<and> target_ip t \<noteq> ip" using f(2,3) by (auto simp: in_set_conv_nth)
  with disable_all [OF l step] show ?thesis using ip l f(1) by (auto simp: client_gone_def DelEntriesOnClntDiscon_def INVALID_IP_ADDR_def)
qed

lemma repeat_gone:
  assumes "sync sd" "ip \<noteq> 0" "k \<noteq> (0 :: nat)"
  shows "client_gone ip (fst (fold (\<lambda>x sd. nat_exec D sd x) (concat (replicate k [Flush_temp ip False b, Clnt_discon ip])) sd))"
  using assms(1,3)
proof (induction k arbitrary: sd)
  case (Suc k)
  let ?sd = "fold (\<lambda>x sd. nat_exec D sd x) [Flush_temp ip False b, Clnt_discon ip] sd"
  have "sync ?sd" using Suc.prems(1) by (rule fold_sync) simp
  moreover have "client_gone ip (fst ?sd)" using discon_gone [OF _ assms(2), of "fst sd" "snd sd" b] Suc.prems(1) by simp
  ultimately show ?case using Suc.IH [of ?sd] by (cases k) simp_all
qed simp

lemma neigh_del_gone:
  assumes i: "ct_ok (L, s, d)" and ip: "ip \<in> set (nat_iface_ipv4_addr L)" "ip \<noteq> 0"
  shows "\<exists>L' s' d'. HandleNeighIpAddrDelEvt D ip (L, s, d) = Some (L', s', d') \<and> ct_ok (L', s', d') \<and> client_gone ip s' \<and> ip \<notin> set (nat_iface_ipv4_addr L')"
proof -
  obtain as ops where l: "neigh_del_loop ip (nat_iface_ipv4_addr L) = (as, ops)" by (cases "neigh_del_loop ip (nat_iface_ipv4_addr L)")
  note l' = neigh_del_loop_ops [OF l]
  let ?k = "length (filter (\<lambda>a. a = ip) (nat_iface_ipv4_addr L))"
  have ops: "ops = concat (replicate ?k [Flush_temp ip False False, Clnt_discon ip])" using l' by (simp add: map_replicate_const)
  have k: "?k \<noteq> 0" using ip(1) by (auto simp: filter_empty_conv)
  obtain s' d' where r: "fold (\<lambda>x sd. nat_exec D sd x) ops (s, d) = (s', d')" by (cases "fold (\<lambda>x sd. nat_exec D sd x) ops (s, d)")
  have sync: "sync (s, d)" and inst: "nat_inst L" using i by (auto simp: ct_inv_def)
  have gone: "client_gone ip s'" using repeat_gone [OF sync ip(2) k, of False] r unfolding ops by simp
  have "ct_ok (L\<lparr>nat_iface_ipv4_addr := as\<rparr>, s', d')" using ct_exec [OF i, of "L\<lparr>nat_iface_ipv4_addr := as\<rparr>" ops] l' r by (auto simp: same_wan_def)
  moreover have "ops \<noteq> []" using k by (cases ?k) (auto simp: ops)
  moreover have "ip \<notin> set as" using l' ip(2) by auto
  ultimately show ?thesis using gone r l inst ip(2) by (simp add: HandleNeighIpAddrDelEvt_def nat_calls_def)
qed

end

section \<open>Properties\<close>

text \<open>The start of IPACM: the connection cache from \<open>GetInstance\<close>, a library without a table, and a new listener; calls of the system succeed.\<close>

definition ct_boot :: "kern \<Rightarrow> table_env \<Rightarrow> del_env \<Rightarrow> ct_listener \<Rightarrow> NatApp \<Rightarrow> nat_cache \<Rightarrow> bool" where
  "ct_boot K E X L s c \<longleftrightarrow>
     (\<exists>cfg ok1 ok2 j p. GetInstance cfg ok1 ok2 j Inst_null = (Inst_live s, p) \<and> length (junk_PwrSaveIfs j) = IPA_MAX_NUM_WIFI_CLIENTS) \<and>
     fresh_cache c \<and> sys_works K E X (length (cache s)) \<and> L = new_listener True (wan_ifname L) (wan_ipaddr L) (isStaMode L)"

definition hw_inv :: "kern \<Rightarrow> table_env \<Rightarrow> del_env \<Rightarrow> nat \<Rightarrow> nat_cache option ct_sys \<Rightarrow> bool" where
  "hw_inv K E X n = ct_inv n (lib_up K E X n) (lib_down K E X n) lib_rules"

lemma ct_boot_inv:
  assumes "ct_boot K E X L s c"
  shows "hw_inv K E X (length (cache s)) (L, s, Some c)"
proof -
  from assms obtain cfg ok1 ok2 j p where g: "GetInstance cfg ok1 ok2 j Inst_null = (Inst_live s, p)" "length (junk_PwrSaveIfs j) = IPA_MAX_NUM_WIFI_CLIENTS"
    and c: "fresh_cache c" "sys_works K E X (length (cache s))" and L: "L = new_listener True (wan_ifname L) (wan_ipaddr L) (isStaMode L)"
    by (auto simp: ct_boot_def)
  have "nat_table_hdl s = 0" using g(1) by (auto simp: GetInstance_def Init_def new_NatApp_def Let_def split: option.splits if_splits)
  moreover have "nat_inst L \<and> \<not> WanUp L \<and> length (nat_iface_ipv4_addr L) = MAX_IFACE_ADDRESS \<and> length (nonnat_iface_ipv4_addr L) = MAX_IFACE_ADDRESS \<and>
      length (sta_clnt_ipv4_addr L) = MAX_STA_CLNT_IFACES" by (subst L, subst (2) L, subst (3) L, subst (4) L, subst (5) L) (simp add: new_listener_def)
  ultimately show ?thesis using boot_sync [OF g c] unfolding hw_inv_def ct_inv_def by simp
qed

lemma hw_inv_run: "hw_inv K E X n sys \<Longrightarrow> list_all ct_legal rs \<Longrightarrow> \<exists>sys'. run_steps (ct_step (lib_drv K E X)) sys rs = Some sys' \<and> hw_inv K E X n sys'"
  using hw.ct_system.run_defined [OF _ legal_ct] unfolding hw_inv_def by blast

lemma hw_inv_table:
  assumes "hw_inv K E X n (L, s, d)"
  obtains c where "d = Some c" "distinct_on enabled rule_hdl (cache s)"
    "if WanUp L then nat_table_hdl s \<noteq> 0 \<and> wan_ipaddr L = pub_ip_addr s \<and> table_rules c = wanted_rules (cache s) else nat_table_hdl s = 0 \<and> (\<forall>e \<in> set (cache s). \<not> enabled e)"
proof -
  have i: "in_sync n (lib_up K E X n) (lib_down K E X n) lib_rules (s, d)" "WanUp L \<longleftrightarrow> nat_table_hdl s \<noteq> 0" "WanUp L \<longrightarrow> wan_ipaddr L = pub_ip_addr s"
    using assms by (auto simp: hw_inv_def ct_inv_def)
  obtain c where c: "d = Some c" using i(1) by (auto simp: in_sync_def synced_def lib_up_def lib_down_def split: option.splits)
  have "\<not> enabled e" if "nat_table_hdl s = 0" "e \<in> set (cache s)" for e
    using i(1) that mirrored_rule [of "cache s" Map.empty e] by (auto simp: in_sync_def synced_def)
  then show thesis using that c i by (auto simp: in_sync_def synced_def mirrored_def lib_rules_def split: if_splits)
qed

text \<open>
  C2. From connection tracking to the hardware. After any sequence of events (the WAN interface up and down, clients of all kinds coming and going, messages of
  connection tracking, power save, time stamps, threads that cannot be started), the listener, the connection cache and the NAT library have not faulted and agree: there is a table in the hardware exactly while the
  WAN interface is up, it is the table of the current WAN address, and its rules are exactly those of the enabled connections of the cache.
\<close>

theorem conntrack_drives_hardware:
  assumes "ct_boot K E X L s c" and "list_all ct_legal rs"
  shows "\<exists>L' s' c'. run_steps (ct_step (lib_drv K E X)) (L, s, Some c) rs = Some (L', s', Some c') \<and> distinct_on enabled rule_hdl (cache s') \<and>
    (if WanUp L' then nat_table_hdl s' \<noteq> 0 \<and> wan_ipaddr L' = pub_ip_addr s' \<and> table_rules c' = wanted_rules (cache s')
     else nat_table_hdl s' = 0 \<and> (\<forall>e \<in> set (cache s'). \<not> enabled e))"
proof -
  from hw_inv_run [OF ct_boot_inv [OF assms(1)] assms(2)] obtain L' s' d' where
    "run_steps (ct_step (lib_drv K E X)) (L, s, Some c) rs = Some (L', s', d')" "hw_inv K E X (length (cache s)) (L', s', d')" by (metis prod_cases3)
  then show ?thesis by (metis hw_inv_table)
qed

text \<open>
  C14. A client that leaves takes its rules along: whatever happened before, when a client that is translated leaves, no rule of the hardware table is its own any more, its cached connections are
  disabled, and none of its connections is waiting.
\<close>

theorem client_leaves_no_rules:
  assumes "ct_boot K E X L0 s0 c0" and "list_all ct_legal rs" and "run_steps (ct_step (lib_drv K E X)) (L0, s0, Some c0) rs = Some (L, s, d)"
    and "ip \<in> set (nat_iface_ipv4_addr L)" and "ip \<noteq> 0"
  shows "\<exists>L' s' c'. HandleNeighIpAddrDelEvt (lib_drv K E X) ip (L, s, d) = Some (L', s', Some c') \<and> client_gone ip s' \<and> ip \<notin> set (nat_iface_ipv4_addr L') \<and>
    (\<forall>h r. WanUp L' \<longrightarrow> table_rules c' h = Some r \<longrightarrow> r_private_ip r \<noteq> ip)"
proof -
  let ?n = "length (cache s0)"
  have "hw_inv K E X ?n (L, s, d)" using hw_inv_run [OF ct_boot_inv [OF assms(1)] assms(2)] assms(3) by simp
  then obtain L' s' d' where h: "HandleNeighIpAddrDelEvt (lib_drv K E X) ip (L, s, d) = Some (L', s', d')" "hw_inv K E X ?n (L', s', d')" "client_gone ip s'"
    "ip \<notin> set (nat_iface_ipv4_addr L')" using hw.neigh_del_gone [OF _ assms(4,5)] unfolding hw_inv_def by metis
  from hw_inv_table [OF h(2)] obtain c' where c: "d' = Some c'" "WanUp L' \<longrightarrow> table_rules c' = wanted_rules (cache s')" by metis
  have "r_private_ip r \<noteq> ip" if "wanted_rules (cache s') k = Some r" for k r
    using that h(3) by (auto simp: wanted_rules_def client_gone_def rule_of_def dest!: slot_map_SomeD)
  then show ?thesis using h c by metis
qed

definition ex_ifaces :: nat_cfg where
  "ex_ifaces = \<lparr>pNatIfaces = [\<lparr>iface_name = ''rndis0'', v4_up = True, v6_up = False\<rparr>, zero_iface], ipa_nat_iface_entries = 1, ipa_num_ipa_interfaces = 2\<rparr>"

definition ex_env :: ct_env where
  "ex_env = \<lparr>env_nat_cfg = ex_ifaces, env_subnets = \<lparr>private_subnet_table = [\<lparr>subnet_addr = 0xC0A80100, subnet_mask = 0xFFFFFF00\<rparr>], ipa_num_private_subnet = 1, subnet_events = []\<rparr>,
     env_ifname = (\<lambda>i. if i = 9 then Some ''rndis0'' else None), ipacm_ip_passthrough_mode = False, getWANIP = 0, env_malloc = True, thread_ok = (\<lambda>_. True)\<rparr>"

definition ex_client :: ipacm_event_data_all where
  "ex_client = \<lparr>iptype = IPA_IP_v4, if_index = 9, ipv4_addr = 0xC0A80105, ipv6_addr = [0, 0, 0, 0], mac_addr = [2, 0, 0, 0, 0, 9], da_iface_name = ''rndis0''\<rparr>"

definition ex_wan :: ipacm_event_iface_up where
  "ex_wan = \<lparr>ifname = ''rmnet0'', up_ipv4_addr = 0x0A000001, is_sta = False\<rparr>"

text \<open>192.168.1.5:4660 talks to 8.8.8.8:53 over UDP through 10.0.0.1:8192, opened from inside.\<close>

definition ex_msg :: nf_conntrack where
  "ex_msg = \<lparr>ATTR_STATUS = IPS_SRC_NAT, ATTR_ORIG_L4PROTO = 17, ATTR_REPL_L4PROTO = 17, ATTR_ORIG_IPV4_SRC = 0x0501A8C0, ATTR_ORIG_IPV4_DST = 0x08080808,
     ATTR_ORIG_PORT_SRC = 0x3412, ATTR_ORIG_PORT_DST = 0x3500, ATTR_REPL_IPV4_SRC = 0x08080808, ATTR_REPL_IPV4_DST = 0x0100000A,
     ATTR_REPL_PORT_SRC = 0x3500, ATTR_REPL_PORT_DST = 0x0020, ATTR_TCP_STATE = 0\<rparr>"

definition ex_del_env :: del_env where
  "ex_del_env = \<lparr>close_ok = True, del_ioctl_ret = 0\<rparr>"

definition ex_listener :: ct_listener where
  "ex_listener = new_listener True '''' 0 False"

lemma ex_boot: "ct_boot demo_kern demo_env ex_del_env ex_listener demo_app demo_fresh"
proof -
  have "GetInstance (Some demo_cfg) True True ex_junk Inst_null = (Inst_live demo_app, Inst_live demo_app)"
    by (simp add: GetInstance_def Init_def demo_app_def demo_cfg_def Let_def)
  moreover have "sys_works demo_kern demo_env ex_del_env (length (cache demo_app))"
    using demo_kern_works demo_env_works(1) by (simp add: sys_works_def demo_app_def ex_del_env_def)
  moreover have "ex_listener = new_listener True (wan_ifname ex_listener) (wan_ipaddr ex_listener) (isStaMode ex_listener)"
    by (simp add: ex_listener_def new_listener_def)
  ultimately show ?thesis using ex_junk_length demo_env_works(2) unfolding ct_boot_def by blast
qed

theorem conntrack_drives_hardware_witness:
  "\<exists>L' s' c'. run_steps (ct_step (lib_drv demo_kern demo_env ex_del_env)) (ex_listener, demo_app, Some demo_fresh)
      [Ct_event ex_env IPA_HANDLE_WAN_UP (Some (P_iface ex_wan)), Ct_neigh_add ex_env ex_client,
       Ct_event ex_env IPA_PROCESS_CT_MESSAGE (Some (P_ct \<lparr>ct = ex_msg, ct_type = NFCT_T_NEW\<rparr>)), Ct_power_save 0xC0A80105,
       Ct_neigh_del 0xC0A80105, Ct_event ex_env IPA_HANDLE_WAN_DOWN (Some (P_iface ex_wan))] = Some (L', s', Some c') \<and> distinct_on enabled rule_hdl (cache s') \<and>
    (if WanUp L' then nat_table_hdl s' \<noteq> 0 \<and> wan_ipaddr L' = pub_ip_addr s' \<and> table_rules c' = wanted_rules (cache s')
     else nat_table_hdl s' = 0 \<and> (\<forall>e \<in> set (cache s'). \<not> enabled e))"
  by (rule conntrack_drives_hardware [OF ex_boot]) (simp add: env_ok_def ex_env_def ex_ifaces_def)

lemma ex_client_nat: "CheckNatIface ex_env ex_client = Some (0, True)"
  by (simp add: CheckNatIface_def ex_client_def ex_env_def ex_ifaces_def GetNatIfaces_def strncmp_eq_def)

theorem client_leaves_no_rules_witness:
  "\<exists>L s d L' s' c'. run_steps (ct_step (lib_drv demo_kern demo_env ex_del_env)) (ex_listener, demo_app, Some demo_fresh) [Ct_neigh_add ex_env ex_client] = Some (L, s, d) \<and>
    HandleNeighIpAddrDelEvt (lib_drv demo_kern demo_env ex_del_env) 0xC0A80105 (L, s, d) = Some (L', s', Some c') \<and> client_gone 0xC0A80105 s' \<and>
    0xC0A80105 \<notin> set (nat_iface_ipv4_addr L') \<and> (\<forall>h r. WanUp L' \<longrightarrow> table_rules c' h = Some r \<longrightarrow> r_private_ip r \<noteq> 0xC0A80105)"
proof -
  let ?D = "lib_drv demo_kern demo_env ex_del_env" and ?L = "ex_listener\<lparr>nat_iface_ipv4_addr := (nat_iface_ipv4_addr ex_listener)[0 := 0xC0A80105]\<rparr>"
  obtain s d where f: "fold (\<lambda>x sd. nat_exec ?D sd x) [Pwr_reset 0xC0A80105, Flush_temp 0xC0A80105 True False] (demo_app, Some demo_fresh) = (s, d)"
    by (cases "fold (\<lambda>x sd. nat_exec ?D sd x) [Pwr_reset 0xC0A80105, Flush_temp 0xC0A80105 True False] (demo_app, Some demo_fresh)")
  have ip: "ipv4_addr ex_client = 0xC0A80105" by (simp add: ex_client_def)
  have first: "first_idx (\<lambda>a. a = 0xC0A80105 \<or> a = 0) (nat_iface_ipv4_addr ex_listener) = Some 0" by (simp add: ex_listener_def new_listener_def numeral_nat)
  have inst: "nat_inst ex_listener" by (simp add: ex_listener_def new_listener_def)
  have r: "run_steps (ct_step ?D) (ex_listener, demo_app, Some demo_fresh) [Ct_neigh_add ex_env ex_client] = Some (?L, s, d)"
    using f first inst by (simp add: HandleNeighIpAddrAddEvt_def ex_client_nat ip nat_calls_def del: nat_exec.simps)
  have "0xC0A80105 \<in> set (nat_iface_ipv4_addr ?L)" by (simp add: ex_listener_def new_listener_def numeral_nat)
  from client_leaves_no_rules [OF ex_boot _ r this] r show ?thesis by (auto simp: env_ok_def ex_env_def ex_ifaces_def)
qed

text \<open>The message about the same connection, had it been opened from the other side.\<close>

definition mirrored_msg :: "nf_conntrack \<Rightarrow> nf_conntrack \<Rightarrow> bool" where
  "mirrored_msg c c' \<longleftrightarrow>
     ATTR_ORIG_IPV4_SRC c' = ATTR_REPL_IPV4_SRC c \<and> ATTR_ORIG_PORT_SRC c' = ATTR_REPL_PORT_SRC c \<and>
     ATTR_ORIG_IPV4_DST c' = ATTR_REPL_IPV4_DST c \<and> ATTR_ORIG_PORT_DST c' = ATTR_REPL_PORT_DST c \<and>
     ATTR_REPL_IPV4_SRC c' = ATTR_ORIG_IPV4_SRC c \<and> ATTR_REPL_PORT_SRC c' = ATTR_ORIG_PORT_SRC c \<and>
     ATTR_REPL_IPV4_DST c' = ATTR_ORIG_IPV4_DST c \<and> ATTR_REPL_PORT_DST c' = ATTR_ORIG_PORT_DST c \<and>
     ATTR_REPL_L4PROTO c' = ATTR_REPL_L4PROTO c \<and> ATTR_TCP_STATE c' = ATTR_TCP_STATE c"

fun inbound :: "nat_op \<Rightarrow> nat_op" where
  "inbound (Add_entry e) = Add_entry (e\<lparr>dst_nat := True\<rparr>)"
| "inbound (Delete_entry e) = Delete_entry (e\<lparr>dst_nat := True\<rparr>)"
| "inbound (Cache_entry e) = Cache_entry (e\<lparr>dst_nat := True\<rparr>)"
| "inbound (Add_temp e) = Add_temp (e\<lparr>dst_nat := True\<rparr>)"
| "inbound (Delete_temp e) = Delete_temp (e\<lparr>dst_nat := True\<rparr>)"
| "inbound x = x"

lemma inbound_ops:
  "ATTR_TCP_STATE c' = ATTR_TCP_STATE c \<Longrightarrow> AddORDeleteNatEntry L c' t (r\<lparr>dst_nat := True\<rparr>) tmp = map inbound (AddORDeleteNatEntry L c t r tmp)"
  by (simp add: AddORDeleteNatEntry_def add_entry_ops_def)

lemma inbound_iface: "AddIface E L (r\<lparr>dst_nat := True\<rparr>) = (case AddIface E L r of (a, tmp, r') \<Rightarrow> (a, tmp, r'\<lparr>dst_nat := True\<rparr>))"
  by (simp add: AddIface_def)

lemma inbound_sta: "CheckSTAClient L (r\<lparr>dst_nat := True\<rparr>) tmp = CheckSTAClient L r tmp"
  by (simp add: CheckSTAClient_def)

text \<open>
  C16. A connection is the same entry from whichever side it was opened: the message about a connection opened from inside (source translated) and the message about the same
  two end points opened from outside (destination translated) lead to the same calls of the cache, with the same entry but for the direction flag. So one
  direction's end deletes what the other's start has added.
\<close>

theorem direction_does_not_matter:
  assumes "mirrored_msg c c'" and "nat_status L c = Some IPS_SRC_NAT" and "nat_status L c' = Some IPS_DST_NAT"
    and "ATTR_REPL_IPV4_SRC c = ATTR_ORIG_IPV4_DST c" and "ATTR_REPL_PORT_SRC c = ATTR_ORIG_PORT_DST c"
  shows "ProcessTCPorUDPMsg E L c' t = map inbound (ProcessTCPorUDPMsg E L c t)"
proof -
  let ?r = "(PopulateTCPorUDPEntry c IPS_SRC_NAT (zero_entry\<lparr>protocol := ATTR_REPL_L4PROTO c\<rparr>))\<lparr>public_ip := wan_ipaddr L\<rparr>"
  have r: "(PopulateTCPorUDPEntry c' IPS_DST_NAT (zero_entry\<lparr>protocol := ATTR_REPL_L4PROTO c'\<rparr>))\<lparr>public_ip := wan_ipaddr L\<rparr> = ?r\<lparr>dst_nat := True\<rparr>"
    using assms(1,4,5) by (simp add: PopulateTCPorUDPEntry_def mirrored_msg_def IPS_DST_NAT_def IPS_SRC_NAT_def)
  have st: "ATTR_TCP_STATE c' = ATTR_TCP_STATE c" using assms(1) by (simp add: mirrored_msg_def)
  obtain a tmp r' where ai: "AddIface E L ?r = (a, tmp, r')" by (cases "AddIface E L ?r")
  have ai': "AddIface E L (?r\<lparr>dst_nat := True\<rparr>) = (a, tmp, r'\<lparr>dst_nat := True\<rparr>)" using ai inbound_iface by simp
  have f: "private_ip (?r\<lparr>dst_nat := True\<rparr>) = private_ip ?r" "public_port (?r\<lparr>dst_nat := True\<rparr>) = public_port ?r"
    "(?r\<lparr>dst_nat := True\<rparr>)\<lparr>private_port := p\<rparr> = (?r\<lparr>private_port := p\<rparr>)\<lparr>dst_nat := True\<rparr>" for p by simp_all
  show ?thesis unfolding ProcessTCPorUDPMsg_def assms(2,3) option.case r Let_def f ai ai' prod.case inbound_sta inbound_ops [OF st] by simp
qed


definition ex_up :: ct_listener where
  "ex_up = ex_listener\<lparr>WanUp := True, wan_ipaddr := 0x0A000001, nat_iface_ipv4_addr := (nat_iface_ipv4_addr ex_listener)[0 := 0xC0A80105]\<rparr>"

definition ex_msg_in :: nf_conntrack where
  "ex_msg_in = \<lparr>ATTR_STATUS = IPS_DST_NAT, ATTR_ORIG_L4PROTO = 17, ATTR_REPL_L4PROTO = 17, ATTR_ORIG_IPV4_SRC = 0x08080808, ATTR_ORIG_IPV4_DST = 0x0100000A,
     ATTR_ORIG_PORT_SRC = 0x3500, ATTR_ORIG_PORT_DST = 0x0020, ATTR_REPL_IPV4_SRC = 0x0501A8C0, ATTR_REPL_IPV4_DST = 0x08080808,
     ATTR_REPL_PORT_SRC = 0x3412, ATTR_REPL_PORT_DST = 0x3500, ATTR_TCP_STATE = 0\<rparr>"

text \<open>The rule of the example.\<close>

definition ex_rule :: nat_table_entry where
  "ex_rule = zero_entry\<lparr>private_ip := 0xC0A80105, private_port := 4660, target_ip := 0x08080808, target_port := 53, public_ip := 0x0A000001, public_port := 8192, protocol := 17\<rparr>"

lemma ex_populate: "(PopulateTCPorUDPEntry ex_msg IPS_SRC_NAT (zero_entry\<lparr>protocol := ATTR_REPL_L4PROTO ex_msg\<rparr>))\<lparr>public_ip := wan_ipaddr ex_up\<rparr> = ex_rule"
  by (simp add: PopulateTCPorUDPEntry_def ex_msg_def ex_up_def ex_rule_def IPS_DST_NAT_def IPS_SRC_NAT_def htonl_def ntohs_def zero_entry_def)

lemma ex_status: "nat_status ex_up ex_msg = Some IPS_SRC_NAT" "nat_status ex_up ex_msg_in = Some IPS_DST_NAT"
  by (simp_all add: nat_status_def ex_msg_def ex_msg_in_def IPS_SRC_NAT_def IPS_DST_NAT_def)

lemma ex_ops: "ProcessTCPorUDPMsg ex_env ex_up ex_msg NFCT_T_NEW = [Add_entry ex_rule]"
proof -
  have "nat_iface_ipv4_addr ex_up = 0xC0A80105 # replicate 49 0" by (simp add: ex_up_def ex_listener_def new_listener_def numeral_nat)
  then have "AddIface ex_env ex_up ex_rule = (True, False, ex_rule)" by (simp add: AddIface_def ex_env_def ex_rule_def)
  moreover have "CheckSTAClient ex_up ex_rule False = False" by (simp add: CheckSTAClient_def ex_up_def ex_listener_def new_listener_def)
  moreover have "AddORDeleteNatEntry ex_up ex_msg NFCT_T_NEW ex_rule False = [Add_entry ex_rule]"
    by (simp add: AddORDeleteNatEntry_def add_entry_ops_def ex_up_def ex_listener_def new_listener_def ex_rule_def IPPROTO_TCP_def IPPROTO_UDP_def)
  moreover have "private_ip ex_rule \<noteq> wan_ipaddr ex_up" by (simp add: ex_rule_def ex_up_def)
  ultimately show ?thesis unfolding ProcessTCPorUDPMsg_def ex_status option.case ex_populate Let_def by simp
qed

theorem direction_does_not_matter_witness:
  "ProcessTCPorUDPMsg ex_env ex_up ex_msg_in NFCT_T_NEW = [Add_entry (ex_rule\<lparr>dst_nat := True\<rparr>)]"
  using direction_does_not_matter [OF _ ex_status, of ex_env NFCT_T_NEW] ex_ops by (simp add: mirrored_msg_def ex_msg_def ex_msg_in_def)

section \<open>What the listener loses\<close>

text \<open>
  The list of STA clients keeps a hole when a client leaves, and \<open>CheckSTAClient\<close> looks at the first \<open>StaClntCnt\<close> slots: a client behind the hole is taken for unknown, and its connections are held back as waiting ones.
\<close>

lemma sta_hole_hides_client:
  assumes "sta_clnt_ipv4_addr L = [a, b, c] @ replicate 7 0" "StaClntCnt L = 3" "nat_inst L" "distinct [a, b, c, 0]" "isStaMode L"
    and "target_ip r = c" "and a STA_CLNT_SUBNET_MASK = and c STA_CLNT_SUBNET_MASK"
  shows "\<exists>L' sd'. HandleSTAClientDelEvt D b (L, sd) = Some (L', sd') \<and> c \<in> set (sta_clnt_ipv4_addr L') \<and> CheckSTAClient L r False = False \<and> CheckSTAClient L' r False = True"
  using assms by (auto simp: HandleSTAClientDelEvt_def nat_calls_def CheckSTAClient_def numeral_nat split: prod.split)

text \<open>
  Every repeated event of a client that is not translated takes a further slot of its list, so that one client fills it.
\<close>

lemma repeated_client_fills_list:
  assumes "nonnat_iface_ipv4_addr L = replicate k ip @ replicate (50 - k) 0" "k < 50" "ip \<noteq> 0" "ipv4_addr d = ip" "\<not> isStaMode L" "nat_inst L"
    and "CheckNatIface E d = Some (0, False)"
  shows "\<exists>L' sd'. HandleNonNatIPAddr D E d True (L, sd) = Some (L', sd') \<and> nonnat_iface_ipv4_addr L' = replicate (Suc k) ip @ replicate (50 - Suc k) 0"
proof -
  have e: "replicate (50 - k) (0 :: u32) = 0 # replicate (50 - Suc k) 0" using assms(2) by (cases "50 - k") auto
  have "first_idx (\<lambda>a. a = 0) (replicate k ip @ replicate (50 - k) (0 :: u32)) = Some k"
    unfolding e using assms(2,3) by (intro first_idx_SomeI) (auto simp: nth_append)
  moreover have "(replicate k ip @ replicate (50 - k) 0)[k := ip] = replicate (Suc k) ip @ replicate (50 - Suc k) 0"
    unfolding e by (simp add: list_update_append replicate_append_same)
  ultimately show ?thesis using assms by (simp add: HandleNonNatIPAddr_def nat_calls_def split: prod.split)
qed

text \<open>The deletion of a private subnet moves the addresses of the later ones but not their masks.\<close>

lemma deleted_subnet_leaves_mask:
  "let s = \<lparr>private_subnet_table = [\<lparr>subnet_addr = 0x0A010000, subnet_mask = 0xFFFF0000\<rparr>, \<lparr>subnet_addr = 0xC0A80100, subnet_mask = 0xFFFFFF00\<rparr>, \<lparr>subnet_addr = 0, subnet_mask = 0\<rparr>],
        ipa_num_private_subnet = 2, subnet_events = []\<rparr>
   in isPrivateSubnet 0xC0A80105 s \<and> \<not> isPrivateSubnet 0xC0A80105 (snd (DelPrivateSubnet True 0x0A010000 0 s))"
  by (simp add: isPrivateSubnet_def DelPrivateSubnet_def)

text \<open>When only the thread for UDP cannot be started, the next attempt starts a second one for TCP.\<close>

lemma tcp_thread_started_twice:
  assumes "\<not> isCTReg L" "ct_threads L = []" "thread_ok E1 TCPRegisterWithConnTrack" "\<not> thread_ok E1 UDPRegisterWithConnTrack"
    and "thread_ok E2 TCPRegisterWithConnTrack" "thread_ok E2 UDPRegisterWithConnTrack"
  shows "ct_threads (snd (CreateConnTrackThreads E2 (snd (CreateConnTrackThreads E1 L)))) = [TCPRegisterWithConnTrack, TCPRegisterWithConnTrack, UDPRegisterWithConnTrack]"
  using assms by (simp add: CreateConnTrackThreads_def Let_def)

text \<open>The keys of the cached connections, which decide what is cached.\<close>

lemma conn_map_keys: "dom (conn_map s) = {k \<in> set (map conn_key (cache s)). k \<noteq> (0, 0, 0, 0, 0)}"
  by (auto simp: slot_map_dom free_slot_key)

lemma disable_keys: "for_cache (disable_slot D tbl ip) es c d = (es', c', d') \<Longrightarrow> map conn_key es' = map conn_key es"
proof (induction es arbitrary: c d es' c' d')
  case (Cons e es)
  obtain e1 c1 d1 where b: "disable_slot D tbl ip e c d = (e1, c1, d1)" by (cases "disable_slot D tbl ip e c d")
  obtain es1 c2 d2 where r: "for_cache (disable_slot D tbl ip) es c1 d1 = (es1, c2, d2)" by (cases "for_cache (disable_slot D tbl ip) es c1 d1")
  have "conn_key e1 = conn_key e" using b by (auto simp: disable_slot_def conn_key_def split: if_splits prod.splits)
  then show ?case using Cons.IH [OF r] Cons.prems b r by auto
qed simp

lemma discon_keys:
  assumes "ip \<noteq> 0" "length (temp s) = MAX_TEMP_ENTRIES"
  shows "map conn_key (cache (fst (fold (\<lambda>x sd. nat_exec D sd x) [Flush_temp ip False b, Clnt_discon ip] (s, d)))) = map conn_key (cache s)"
proof -
  from flush_drops [OF assms(1), of MAX_TEMP_ENTRIES s D b d] assms(2) obtain s1 where
    f: "FlushTempEntries D ip False b s d = (s1, d)" "cache s1 = cache s" by (auto simp: FlushTempEntries_def)
  then show ?thesis using disable_keys [of D "nat_table_hdl s1" ip "cache s1" "curCnt s1" d]
    by (auto simp: DelEntriesOnClntDiscon_def INVALID_IP_ADDR_def assms(1) Let_def split: prod.split)
qed

text \<open>
  The entry of a client that is not translated is stored under the public address. When the client leaves, \<open>DelEntriesOnClntDiscon\<close> looks for the client's own address and
  finds nothing; and since the listener has forgotten the client, the end of the connection is looked up under the client's address too. The entry stays for good.
\<close>

lemma dummy_entry_outlives_client:
  assumes s: "NatApp.nat_inv s" and k: "k \<in> dom (conn_map s)" "fst k \<noteq> ip" and ip: "ip \<noteq> 0" "ipv4_addr d = ip"
    and L: "\<not> isStaMode L" "nat_inst L" "ip \<in> set (nonnat_iface_ipv4_addr L)"
    and c: "ATTR_ORIG_L4PROTO c = IPPROTO_UDP" "ATTR_REPL_L4PROTO c = IPPROTO_UDP"
    and later: "\<And>i. first_idx (\<lambda>a. a = ip) (nonnat_iface_ipv4_addr L) = Some i \<Longrightarrow>
      ProcessTCPorUDPMsg E (L\<lparr>nonnat_iface_ipv4_addr := (nonnat_iface_ipv4_addr L)[i := 0]\<rparr>) c NFCT_T_DESTROY = [Delete_entry r, Delete_temp r]" "private_ip r = ip" "used_slot r"
  shows "\<exists>L1 sd1 L2 s2 d2. HandleNonNatIPAddr D E d False (L, s, dd) = Some (L1, sd1) \<and>
    ProcessCTMessage D E \<lparr>ct = c, ct_type = NFCT_T_DESTROY\<rparr> (L1, sd1) = Some (L2, s2, d2) \<and> k \<in> dom (conn_map s2)"
proof -
  obtain i where i: "first_idx (\<lambda>a. a = ip) (nonnat_iface_ipv4_addr L) = Some i"
    using first_idx_ex [OF L(3), of "\<lambda>a. a = ip"] by auto
  let ?L = "L\<lparr>nonnat_iface_ipv4_addr := (nonnat_iface_ipv4_addr L)[i := 0]\<rparr>"
  obtain s1 d1 where f: "fold (\<lambda>x sd. nat_exec D sd x) [Flush_temp ip False False, Clnt_discon ip] (s, dd) = (s1, d1)"
    by (cases "fold (\<lambda>x sd. nat_exec D sd x) [Flush_temp ip False False, Clnt_discon ip] (s, dd)")
  have len: "length (temp s) = MAX_TEMP_ENTRIES" using s by (simp add: NatApp.nat_inv_def)
  have "map conn_key (cache s1) = map conn_key (cache s)" using discon_keys [OF ip(1) len, of D False dd] f by simp
  then have k1: "k \<in> dom (conn_map s1)" using k(1) unfolding conn_map_keys by simp
  have inv1: "NatApp.nat_inv s1" using nat_exec_inv [of "nat_exec D (s, dd) (Flush_temp ip False False)" "Clnt_discon ip" D]
      nat_exec_inv [of "(s, dd)" "Flush_temp ip False False" D] s f by simp
  have one: "HandleNonNatIPAddr D E d False (L, s, dd) = Some (?L, s1, d1)" using f i L ip(2) by (simp add: HandleNonNatIPAddr_def nat_calls_def)
  obtain ret s2 d2 where del: "DeleteEntry D r s1 d1 = (ret, s2, d2)" by (cases "DeleteEntry D r s1 d1")
  have "k \<noteq> conn_key r" using k(2) later(2) by (auto simp: conn_key_def)
  then have k2: "k \<in> dom (conn_map s2)" using DeleteEntry_conn_map(2) [OF inv1 later(3) del] k1 by auto
  have c2: "cache (DeleteTempEntry r s2) = cache s2" by (simp add: DeleteTempEntry_def split: option.split)
  have two: "ProcessCTMessage D E \<lparr>ct = c, ct_type = NFCT_T_DESTROY\<rparr> (?L, s1, d1) = Some (?L, DeleteTempEntry r s2, d2)"
    using later(1) [OF i] c(1) del L(2) by (simp add: ProcessCTMessage_def nat_calls_def)
  show ?thesis using one two k2 c2
    by (intro exI [of _ ?L] exI [of _ "(s1, d1)"] exI [of _ "DeleteTempEntry r s2"] exI [of _ d2]) simp
qed


end
