(* ===== verification/LinkedList.thy ===== *)
theory LinkedList
  imports IPA_Prelude
begin

text \<open>
  The list of the location services (\<open>gps/utils/linked_list.c\<close>): doubly linked elements with a data pointer and a function that disposes
  of it, added at the head and removed at the tail, with flushing and searching.

  List objects and elements live in stores. A \<open>void **\<close> argument is \<open>None\<close> for \<open>NULL\<close> and otherwise the contents of the variable it points to. The calls of
  the dispose functions, which work on the data only, are recorded in order.
\<close>

section \<open>Data\<close>

datatype linked_list_err_type =
    eLINKED_LIST_SUCCESS | eLINKED_LIST_FAILURE_GENERAL | eLINKED_LIST_INVALID_PARAMETER
  | eLINKED_LIST_INVALID_HANDLE | eLINKED_LIST_UNAVAILABLE_RESOURCE | eLINKED_LIST_INSUFFICIENT_BUFFER

record list_element =
  el_next :: "ptr option"
  el_prev :: "ptr option"
  data_ptr :: ptr
  dealloc_func :: "ptr option"

record list_state =
  p_head :: "ptr option"
  p_tail :: "ptr option"

record ll_world =
  elems :: "list_element heap"
  list_objs :: "list_state heap"
  deallocs :: "(ptr \<times> ptr) list"

definition upd_elem :: "(list_element \<Rightarrow> list_element) \<Rightarrow> ptr \<Rightarrow> ll_world \<Rightarrow> ll_world option" where
  "upd_elem f a w = map_option (\<lambda>h. w\<lparr>elems := h\<rparr>) (store_upd f (elems w) a)"

definition upd_list :: "(list_state \<Rightarrow> list_state) \<Rightarrow> ptr \<Rightarrow> ll_world \<Rightarrow> ll_world option" where
  "upd_list f l w = map_option (\<lambda>h. w\<lparr>list_objs := h\<rparr>) (store_upd f (list_objs w) l)"

text \<open>\<open>if(e->dealloc_func != NULL) e->dealloc_func(e->data_ptr);\<close>\<close>

definition dispose :: "list_element \<Rightarrow> ll_world \<Rightarrow> ll_world" where
  "dispose n w = (case dealloc_func n of None \<Rightarrow> w | Some f \<Rightarrow> w\<lparr>deallocs := deallocs w @ [(f, data_ptr n)]\<rparr>)"

section \<open>Operations\<close>

definition linked_list_init :: "ptr option option \<Rightarrow> ptr option \<Rightarrow> ll_world \<Rightarrow> linked_list_err_type \<times> ptr option option \<times> ll_world" where
  "linked_list_init list_data calloc w =
     (case list_data of
        None \<Rightarrow> (eLINKED_LIST_INVALID_PARAMETER, None, w)
      | Some old \<Rightarrow>
          (case calloc of
             None \<Rightarrow> (eLINKED_LIST_FAILURE_GENERAL, Some old, w)
           | Some tmp_list \<Rightarrow>
               (eLINKED_LIST_SUCCESS, Some (Some tmp_list), w\<lparr>list_objs := (list_objs w)(tmp_list \<mapsto> \<lparr>p_head = None, p_tail = None\<rparr>)\<rparr>)))"

partial_function (option) flush_loop :: "ptr \<Rightarrow> ll_world \<Rightarrow> ll_world option" where
  "flush_loop l w =
     do { st \<leftarrow> deref (list_objs w) l;
          case p_head st of
            None \<Rightarrow> Some w
          | Some e \<Rightarrow>
              do { n \<leftarrow> deref (elems w) e;
                   let w = dispose n w;
                   w \<leftarrow> upd_list (\<lambda>st. st\<lparr>p_head := el_next n\<rparr>) l (w\<lparr>elems := free_at (elems w) e\<rparr>);
                   flush_loop l w } }"

declare flush_loop.simps [code]

definition linked_list_flush :: "ptr option \<Rightarrow> ll_world \<Rightarrow> (linked_list_err_type \<times> ll_world) option" where
  "linked_list_flush list_data w =
     (case list_data of
        None \<Rightarrow> Some (eLINKED_LIST_INVALID_HANDLE, w)
      | Some l \<Rightarrow>
          do { w \<leftarrow> flush_loop l w;
               w \<leftarrow> upd_list (\<lambda>st. st\<lparr>p_tail := None\<rparr>) l w;
               Some (eLINKED_LIST_SUCCESS, w) })"

definition linked_list_destroy :: "ptr option option \<Rightarrow> ll_world \<Rightarrow> (linked_list_err_type \<times> ptr option option \<times> ll_world) option" where
  "linked_list_destroy list_data w =
     (case list_data of
        None \<Rightarrow> Some (eLINKED_LIST_INVALID_HANDLE, None, w)
      | Some p_list \<Rightarrow>
          do { (ret, w) \<leftarrow> linked_list_flush p_list w;
               let w = (case p_list of None \<Rightarrow> w | Some l \<Rightarrow> w\<lparr>list_objs := free_at (list_objs w) l\<rparr>);
               Some (eLINKED_LIST_SUCCESS, Some None, w) })"

definition linked_list_add :: "ptr option \<Rightarrow> ptr option \<Rightarrow> ptr option \<Rightarrow> ptr option \<Rightarrow> ll_world \<Rightarrow> (linked_list_err_type \<times> ll_world) option" where
  "linked_list_add list_data data_obj dealloc malloc w =
     (case list_data of
        None \<Rightarrow> Some (eLINKED_LIST_INVALID_HANDLE, w)
      | Some l \<Rightarrow>
          (case data_obj of
             None \<Rightarrow> Some (eLINKED_LIST_INVALID_PARAMETER, w)
           | Some d \<Rightarrow>
               (case malloc of
                  None \<Rightarrow> Some (eLINKED_LIST_FAILURE_GENERAL, w)
                | Some elem \<Rightarrow>
                    do { st \<leftarrow> deref (list_objs w) l;
                         let tmp = p_head st;
                         w \<leftarrow> upd_list (\<lambda>st. st\<lparr>p_head := Some elem\<rparr>) l
                               (w\<lparr>elems := (elems w)(elem \<mapsto> \<lparr>el_next = tmp, el_prev = None, data_ptr = d, dealloc_func = dealloc\<rparr>)\<rparr>);
                         w \<leftarrow> (case tmp of
                                 Some t \<Rightarrow> upd_elem (\<lambda>n. n\<lparr>el_prev := Some elem\<rparr>) t w
                               | None \<Rightarrow> upd_list (\<lambda>st. st\<lparr>p_tail := p_head st\<rparr>) l w);
                         Some (eLINKED_LIST_SUCCESS, w) })))"

definition linked_list_remove :: "ptr option \<Rightarrow> ptr option option \<Rightarrow> ll_world \<Rightarrow> (linked_list_err_type \<times> ptr option option \<times> ll_world) option" where
  "linked_list_remove list_data data_obj w =
     (case list_data of
        None \<Rightarrow> Some (eLINKED_LIST_INVALID_HANDLE, data_obj, w)
      | Some l \<Rightarrow>
          (case data_obj of
             None \<Rightarrow> Some (eLINKED_LIST_INVALID_PARAMETER, None, w)
           | Some old \<Rightarrow>
               do { st \<leftarrow> deref (list_objs w) l;
                    case p_tail st of
                      None \<Rightarrow> Some (eLINKED_LIST_UNAVAILABLE_RESOURCE, Some old, w)
                    | Some tmp \<Rightarrow>
                        do { n \<leftarrow> deref (elems w) tmp;
                             w \<leftarrow> upd_list (\<lambda>st. st\<lparr>p_tail := el_prev n\<rparr>) l w;
                             w \<leftarrow> (case el_prev n of
                                     Some p \<Rightarrow> upd_elem (\<lambda>n. n\<lparr>el_next := None\<rparr>) p w
                                   | None \<Rightarrow> upd_list (\<lambda>st. st\<lparr>p_head := p_tail st\<rparr>) l w);
                             n \<leftarrow> deref (elems w) tmp;
                             Some (eLINKED_LIST_SUCCESS, Some (Some (data_ptr n)), w\<lparr>elems := free_at (elems w) tmp\<rparr>) } }))"

definition linked_list_empty :: "ptr option \<Rightarrow> ll_world \<Rightarrow> int option" where
  "linked_list_empty list_data w =
     (case list_data of
        None \<Rightarrow> Some (- 3)
      | Some l \<Rightarrow> do { st \<leftarrow> deref (list_objs w) l; Some (if p_head st = None then 1 else 0) })"

text \<open>The search for the first element whose data is equal to \<open>data_0\<close>.\<close>

partial_function (option) search_loop :: "(ptr \<Rightarrow> bool) \<Rightarrow> list_element heap \<Rightarrow> ptr option \<Rightarrow> ptr option option" where
  "search_loop eq h tmp =
     (case tmp of
        None \<Rightarrow> Some None
      | Some a \<Rightarrow> do { n \<leftarrow> deref h a; if eq (data_ptr n) then Some (Some a) else search_loop eq h (el_next n) })"

declare search_loop.simps [code]

text \<open>The branch \<open>if (rm_if_found)\<close>; \<open>copied\<close>: the data went to the caller.\<close>

definition search_rm :: "ptr \<Rightarrow> ptr \<Rightarrow> bool \<Rightarrow> ll_world \<Rightarrow> ll_world option" where
  "search_rm l tmp copied w =
     do { n \<leftarrow> deref (elems w) tmp;
          w \<leftarrow> (case el_prev n of
                  None \<Rightarrow> upd_list (\<lambda>st. st\<lparr>p_head := el_next n\<rparr>) l w
                | Some p \<Rightarrow> upd_elem (\<lambda>m. m\<lparr>el_next := el_next n\<rparr>) p w);
          n \<leftarrow> deref (elems w) tmp;
          w \<leftarrow> (case el_next n of
                  None \<Rightarrow> upd_list (\<lambda>st. st\<lparr>p_tail := el_prev n\<rparr>) l w
                | Some q \<Rightarrow> upd_elem (\<lambda>m. m\<lparr>el_prev := el_prev n\<rparr>) q w);
          w \<leftarrow> upd_elem (\<lambda>m. m\<lparr>el_prev := None, el_next := None\<rparr>) tmp w;
          n \<leftarrow> deref (elems w) tmp;
          let w = (if copied then w else dispose n w);
          Some (w\<lparr>elems := free_at (elems w) tmp\<rparr>) }"

definition linked_list_search ::
  "ptr option \<Rightarrow> ptr option option \<Rightarrow> ('k \<Rightarrow> ptr \<Rightarrow> bool) option \<Rightarrow> 'k \<Rightarrow> bool \<Rightarrow> ll_world \<Rightarrow> (linked_list_err_type \<times> ptr option option \<times> ll_world) option" where
  "linked_list_search list_data data_p equal data_0 rm_if_found w =
     (case (list_data, equal) of
        (Some l, Some eq) \<Rightarrow>
          do { st \<leftarrow> deref (list_objs w) l;
               if p_tail st = None then Some (eLINKED_LIST_UNAVAILABLE_RESOURCE, data_p, w)
               else do {
                 let data_p = map_option (\<lambda>_. None) data_p;
                 found \<leftarrow> search_loop (eq data_0) (elems w) (p_head st);
                 case found of
                   None \<Rightarrow> Some (eLINKED_LIST_SUCCESS, data_p, w)
                 | Some tmp \<Rightarrow>
                     do { n \<leftarrow> deref (elems w) tmp;
                          let data_p = map_option (\<lambda>_. Some (data_ptr n)) data_p;
                          w \<leftarrow> (if rm_if_found then search_rm l tmp (data_p \<noteq> None) w else Some w);
                          Some (eLINKED_LIST_SUCCESS, data_p, w) } } }
      | _ \<Rightarrow> Some (eLINKED_LIST_INVALID_HANDLE, data_p, w))"

section \<open>The list a structure stands for\<close>

text \<open>\<open>dseg h pr p cs lst q\<close>: from \<open>p\<close> on, the elements \<open>cs\<close> (addresses with data and dispose function) are linked in both directions; \<open>pr\<close> is what precedes the
  first of them, \<open>lst\<close> the last one (or \<open>pr\<close>), and \<open>q\<close> what follows it.\<close>

fun dseg :: "list_element heap \<Rightarrow> ptr option \<Rightarrow> ptr option \<Rightarrow> (ptr \<times> ptr \<times> ptr option) list \<Rightarrow> ptr option \<Rightarrow> ptr option \<Rightarrow> bool" where
  "dseg h pr p [] lst q \<longleftrightarrow> p = q \<and> lst = pr"
| "dseg h pr p ((a, d, f) # cs) lst q \<longleftrightarrow>
     p = Some a \<and> (\<exists>r. h a = Some \<lparr>el_next = r, el_prev = pr, data_ptr = d, dealloc_func = f\<rparr> \<and> dseg h (Some a) r cs lst q)"

definition is_list :: "ll_world \<Rightarrow> ptr \<Rightarrow> (ptr \<times> ptr \<times> ptr option) list \<Rightarrow> bool" where
  "is_list w l cs \<longleftrightarrow>
     (\<exists>st. list_objs w l = Some st \<and> dseg (elems w) None (p_head st) cs (p_tail st) None) \<and> distinct (map fst cs)"

lemma dseg_append:
  "dseg h pr p (cs @ ds) lst q \<longleftrightarrow> (\<exists>m r. dseg h pr p cs m r \<and> dseg h m r ds lst q)"
  by (induction h pr p cs lst q rule: dseg.induct) auto

lemma dseg_cong: "(\<And>a. a \<in> fst ` set cs \<Longrightarrow> h' a = h a) \<Longrightarrow> dseg h' pr p cs lst q = dseg h pr p cs lst q"
  by (induction h pr p cs lst q rule: dseg.induct) auto

lemma dseg_upd [simp]: "a \<notin> fst ` set cs \<Longrightarrow> dseg (h(a := v)) pr p cs lst q = dseg h pr p cs lst q"
  by (rule dseg_cong) auto

lemma dseg_ends: "dseg h None p cs lst None \<Longrightarrow> (p = None) = (cs = []) \<and> (lst = None) = (cs = [])"
proof -
  have "dseg h pr p cs lst q \<Longrightarrow> cs \<noteq> [] \<Longrightarrow> p \<noteq> None \<and> lst \<noteq> None" for pr q
    by (induction h pr p cs lst q rule: dseg.induct) (auto split: if_splits, metis dseg.simps(1) option.distinct(1))
  then show "dseg h None p cs lst None \<Longrightarrow> ?thesis" by (cases cs) auto
qed

text \<open>Changing the two ends of a segment.\<close>

lemma dseg_last:
  "cs \<noteq> [] \<Longrightarrow> dseg h pr p cs lst q \<Longrightarrow> lst = Some (fst (last cs)) \<and> (\<exists>n. h (fst (last cs)) = Some n \<and> el_next n = q)"
  by (induction h pr p cs lst q rule: dseg.induct) (auto split: if_splits)

lemma dseg_set_next:
  assumes "dseg h pr p cs (Some b) q" and "cs \<noteq> []" and "h b = Some n" and "distinct (map fst cs)"
  shows "dseg (h(b \<mapsto> n\<lparr>el_next := q'\<rparr>)) pr p cs (Some b) q'"
proof -
  obtain xs a d f where cs: "cs = xs @ [(a, d, f)]" using assms(2) by (metis prod_cases3 rev_exhaust)
  then have "a = b" using assms(1) by (auto simp: dseg_append)
  with cs assms show ?thesis by (auto simp: dseg_append)
qed

lemma dseg_set_prev:
  assumes "dseg h pr (Some b) cs lst q" and "cs \<noteq> []" and "h b = Some n" and "distinct (map fst cs)"
  shows "dseg (h(b \<mapsto> n\<lparr>el_prev := pr'\<rparr>)) pr' (Some b) cs lst q"
  using assms by (cases cs) auto

lemma upd_elem_Some: "elems w a = Some n \<Longrightarrow> upd_elem f a w = Some (w\<lparr>elems := (elems w)(a \<mapsto> f n)\<rparr>)"
  by (simp add: upd_elem_def heap_simps)

lemma upd_list_Some: "list_objs w l = Some st \<Longrightarrow> upd_list f l w = Some (w\<lparr>list_objs := (list_objs w)(l \<mapsto> f st)\<rparr>)"
  by (simp add: upd_list_def heap_simps)

lemmas ll_upd = upd_elem_Some upd_list_Some deref_def free_at_def

text \<open>What an operation on list \<open>l\<close> may touch: its own elements; those no longer in the list are freed.\<close>

definition only_list :: "ptr \<Rightarrow> (ptr \<times> ptr \<times> ptr option) list \<Rightarrow> (ptr \<times> ptr \<times> ptr option) list \<Rightarrow> ll_world \<Rightarrow> ll_world \<Rightarrow> bool" where
  "only_list l cs cs' w w' \<longleftrightarrow>
     (\<forall>a. a \<notin> fst ` set cs \<union> fst ` set cs' \<longrightarrow> elems w' a = elems w a) \<and>
     (\<forall>a \<in> fst ` set cs - fst ` set cs'. elems w' a = None) \<and> (\<forall>a \<in> fst ` set cs' - fst ` set cs. elems w a = None) \<and> (\<forall>k. k \<noteq> l \<longrightarrow> list_objs w' k = list_objs w k)"

lemma only_list_refl [simp]: "only_list l cs cs w w"
  by (simp add: only_list_def)

lemma dseg_alloc: "dseg h pr p cs lst q \<Longrightarrow> fst ` set cs \<subseteq> dom h"
  by (induction h pr p cs lst q rule: dseg.induct) auto

lemma is_list_alloc: "is_list w l cs \<Longrightarrow> fst ` set cs \<subseteq> dom (elems w)"
  unfolding is_list_def using dseg_alloc by blast

lemma list_add_ok:
  assumes r: "is_list w l cs" and a: "elems w a = None"
  shows "\<exists>w'. linked_list_add (Some l) (Some d) f (Some a) w = Some (eLINKED_LIST_SUCCESS, w') \<and>
    is_list w' l ((a, d, f) # cs) \<and> only_list l cs ((a, d, f) # cs) w w' \<and> deallocs w' = deallocs w"
proof -
  from r obtain st where st: "list_objs w l = Some st" and s: "dseg (elems w) None (p_head st) cs (p_tail st) None" and di: "distinct (map fst cs)"
    by (auto simp: is_list_def)
  have na: "a \<notin> fst ` set cs" using is_list_alloc [OF r] a by auto
  show ?thesis
  proof (cases cs)
    case Nil
    with st s a show ?thesis by (simp add: linked_list_add_def ll_upd is_list_def only_list_def)
  next
    case (Cons c cs')
    obtain b e g where c: "c = (b, e, g)" by (cases c)
    from s Cons c obtain q where b: "p_head st = Some b" "elems w b = Some \<lparr>el_next = q, el_prev = None, data_ptr = e, dealloc_func = g\<rparr>"
      "dseg (elems w) (Some b) q cs' (p_tail st) None" by auto
    have n: "a \<noteq> b" "b \<notin> fst ` set cs'" "a \<notin> fst ` set cs'" using na di Cons c by auto
    show ?thesis using st a b n di na by (auto simp: linked_list_add_def ll_upd is_list_def only_list_def Cons c)
  qed
qed

lemma list_remove_ok:
  assumes r: "is_list w l (cs @ [(a, d, f)])"
  shows "\<exists>w'. linked_list_remove (Some l) (Some old) w = Some (eLINKED_LIST_SUCCESS, Some (Some d), w') \<and>
    is_list w' l cs \<and> only_list l (cs @ [(a, d, f)]) cs w w' \<and> deallocs w' = deallocs w"
proof -
  from r obtain st pr where st: "list_objs w l = Some st" "p_tail st = Some a"
    and s: "dseg (elems w) None (p_head st) cs pr (Some a)" "elems w a = Some \<lparr>el_next = None, el_prev = pr, data_ptr = d, dealloc_func = f\<rparr>"
    and di: "distinct (map fst cs)" "a \<notin> fst ` set cs"
    by (auto simp: is_list_def dseg_append)
  show ?thesis
  proof (cases pr)
    case None
    then have cs: "cs = []" using s(1) dseg_last [of cs "elems w" None "p_head st" pr] by (cases "cs = []") auto
    with None st s show ?thesis by (auto simp: linked_list_remove_def ll_upd is_list_def only_list_def)
  next
    case (Some b)
    then have ne: "cs \<noteq> []" using s(1) by auto
    obtain n where b: "b = fst (last cs)" "elems w b = Some n" "b \<in> fst ` set cs" using dseg_last [OF ne s(1)] Some ne by auto
    have s': "dseg ((elems w)(b \<mapsto> n\<lparr>el_next := None\<rparr>)) None (p_head st) cs (Some b) None"
      using dseg_set_next [OF s(1) [unfolded Some] ne b(2) di(1)] .
    have "a \<noteq> b" using b(3) di(2) by auto
    with Some st s s' b di show ?thesis by (auto simp: linked_list_remove_def ll_upd is_list_def only_list_def)
  qed
qed

lemma list_remove_empty:
  "is_list w l [] \<Longrightarrow> linked_list_remove (Some l) (Some old) w = Some (eLINKED_LIST_UNAVAILABLE_RESOURCE, Some old, w)"
  by (auto simp: is_list_def linked_list_remove_def deref_def)

text \<open>The calls made for the elements of a list.\<close>

definition disposed :: "(ptr \<times> ptr option) list \<Rightarrow> (ptr \<times> ptr) list" where
  "disposed xs = concat (map (\<lambda>(d, f). case f of None \<Rightarrow> [] | Some f \<Rightarrow> [(f, d)]) xs)"

lemma flush_loop_ok:
  assumes "list_objs w l = Some st" "dseg (elems w) pr (p_head st) cs lst None" "distinct (map fst cs)"
  shows "\<exists>w'. flush_loop l w = Some w' \<and> list_objs w' = (list_objs w)(l \<mapsto> st\<lparr>p_head := None\<rparr>) \<and>
    elems w' = (\<lambda>a. if a \<in> fst ` set cs then None else elems w a) \<and> deallocs w' = deallocs w @ disposed (map snd cs)"
  using assms
proof (induction cs arbitrary: w st pr)
  case Nil
  then show ?case by (subst flush_loop.simps) (auto simp: deref_def disposed_def fun_eq_iff)
next
  case (Cons c cs)
  obtain a d f where c: "c = (a, d, f)" by (cases c)
  from Cons.prems c obtain q where h: "p_head st = Some a" "elems w a = Some \<lparr>el_next = q, el_prev = pr, data_ptr = d, dealloc_func = f\<rparr>"
    "dseg (elems w) (Some a) q cs lst None" by auto
  let ?w = "(dispose \<lparr>el_next = q, el_prev = pr, data_ptr = d, dealloc_func = f\<rparr> w)\<lparr>elems := (elems w)(a := None), list_objs := (list_objs w)(l \<mapsto> st\<lparr>p_head := q\<rparr>)\<rparr>"
  have "a \<notin> fst ` set cs" using Cons.prems(3) c by auto
  then have "dseg (elems ?w) (Some a) (p_head (st\<lparr>p_head := q\<rparr>)) cs lst None" using h(3) by simp
  moreover have "list_objs ?w l = Some (st\<lparr>p_head := q\<rparr>)" "distinct (map fst cs)" using Cons.prems(3) c by simp_all
  ultimately obtain w' where w': "flush_loop l ?w = Some w'" "list_objs w' = (list_objs ?w)(l \<mapsto> st\<lparr>p_head := q, p_head := None\<rparr>)"
    "elems w' = (\<lambda>x. if x \<in> fst ` set cs then None else elems ?w x)" "deallocs w' = deallocs ?w @ disposed (map snd cs)"
    using Cons.IH by blast
  have "flush_loop l w = flush_loop l ?w"
    by (subst flush_loop.simps) (simp add: ll_upd Cons.prems(1) h(1,2) dispose_def split: option.split)
  moreover have "deallocs ?w = deallocs w @ disposed [(d, f)]" by (simp add: dispose_def disposed_def split: option.split)
  ultimately show ?case using w' c by (auto simp: disposed_def fun_eq_iff)
qed

lemma list_flush_ok:
  assumes "is_list w l cs"
  shows "\<exists>w'. linked_list_flush (Some l) w = Some (eLINKED_LIST_SUCCESS, w') \<and>
    is_list w' l [] \<and> only_list l cs [] w w' \<and> deallocs w' = deallocs w @ disposed (map snd cs)"
proof -
  from assms obtain st where st: "list_objs w l = Some st" "dseg (elems w) None (p_head st) cs (p_tail st) None" "distinct (map fst cs)"
    by (auto simp: is_list_def)
  from flush_loop_ok [OF this] obtain w' where "flush_loop l w = Some w'" "list_objs w' = (list_objs w)(l \<mapsto> st\<lparr>p_head := None\<rparr>)"
    "elems w' = (\<lambda>a. if a \<in> fst ` set cs then None else elems w a)" "deallocs w' = deallocs w @ disposed (map snd cs)" by blast
  then show ?thesis by (auto simp: linked_list_flush_def ll_upd is_list_def only_list_def)
qed

lemma search_loop_ok:
  "dseg h pr p cs lst None \<Longrightarrow> search_loop eq h p = Some (map_option fst (find (\<lambda>(a, d, f). eq d) cs))"
proof (induction cs arbitrary: p pr)
  case Nil
  then show ?case by (subst search_loop.simps) simp
next
  case (Cons c cs)
  then show ?case by (cases c, subst search_loop.simps) (auto simp: deref_def)
qed

lemma search_rm_ok:
  assumes r: "is_list w l (xs @ (a, d, f) # ys)"
  shows "\<exists>w'. search_rm l a copied w = Some w' \<and> is_list w' l (xs @ ys) \<and> only_list l (xs @ (a, d, f) # ys) (xs @ ys) w w' \<and>
    deallocs w' = deallocs w @ (if copied then [] else disposed [(d, f)])"
proof -
  from r obtain st pr nx where st: "list_objs w l = Some st"
    and s: "dseg (elems w) None (p_head st) xs pr (Some a)" "elems w a = Some \<lparr>el_next = nx, el_prev = pr, data_ptr = d, dealloc_func = f\<rparr>"
      "dseg (elems w) (Some a) nx ys (p_tail st) None"
    and di: "distinct (map fst xs)" "distinct (map fst ys)" "a \<notin> fst ` set xs" "a \<notin> fst ` set ys" "fst ` set xs \<inter> fst ` set ys = {}"
    by (auto simp: is_list_def dseg_append)
  have "xs = [] \<and> pr = None \<and> p_head st = Some a \<or>
      (\<exists>b n. xs \<noteq> [] \<and> pr = Some b \<and> b \<in> fst ` set xs \<and> elems w b = Some n)"
    using s(1) dseg_last [OF _ s(1)] by (cases "xs = []") auto
  then consider (first) "xs = []" "pr = None" "p_head st = Some a"
    | (inner) b n where "xs \<noteq> []" "pr = Some b" "b \<in> fst ` set xs" "elems w b = Some n" by blast
  then obtain w1 st1 where w1: "(case pr of None \<Rightarrow> upd_list (\<lambda>st. st\<lparr>p_head := nx\<rparr>) l w | Some p \<Rightarrow> upd_elem (\<lambda>m. m\<lparr>el_next := nx\<rparr>) p w) = Some w1"
      "list_objs w1 = (list_objs w)(l \<mapsto> st1)" "p_tail st1 = p_tail st" "deallocs w1 = deallocs w"
      "dseg (elems w1) None (p_head st1) xs pr nx" "\<forall>x. x \<notin> fst ` set xs \<longrightarrow> elems w1 x = elems w x"
  proof cases
    case first
    then show ?thesis using that [of "w\<lparr>list_objs := (list_objs w)(l \<mapsto> st\<lparr>p_head := nx\<rparr>)\<rparr>" "st\<lparr>p_head := nx\<rparr>"] st by (simp add: ll_upd)
  next
    case inner
    have "\<forall>x. x \<notin> fst ` set xs \<longrightarrow> ((elems w)(b \<mapsto> n\<lparr>el_next := nx\<rparr>)) x = elems w x" using inner(3) by force
    then show ?thesis
      using that [of "w\<lparr>elems := (elems w)(b \<mapsto> n\<lparr>el_next := nx\<rparr>)\<rparr>" st] inner dseg_set_next [OF s(1) [unfolded inner(2)] inner(1,4) di(1)]
      by (simp add: ll_upd map_upd_triv [of "list_objs w" l, OF st])
  qed
  have a1: "elems w1 a = elems w a" using w1(6) di(3) by simp
  have s1: "dseg (elems w1) (Some a) nx ys (p_tail st1) None" 
  proof -
    have "dseg (elems w1) (Some a) nx ys (p_tail st) None = dseg (elems w) (Some a) nx ys (p_tail st) None"
      by (rule dseg_cong) (use w1(6) di(5) in blast)
    then show ?thesis using s(3) w1(3) by simp
  qed
  obtain w2 st2 where w2: "(case nx of None \<Rightarrow> upd_list (\<lambda>st. st\<lparr>p_tail := pr\<rparr>) l w1 | Some q \<Rightarrow> upd_elem (\<lambda>m. m\<lparr>el_prev := pr\<rparr>) q w1) = Some w2"
      "list_objs w2 = (list_objs w)(l \<mapsto> st2)" "deallocs w2 = deallocs w" "dseg (elems w2) None (p_head st2) (xs @ ys) (p_tail st2) None"
      "\<forall>x. x \<notin> fst ` set xs \<union> fst ` set ys \<longrightarrow> elems w2 x = elems w x"
  proof (cases ys)
    case Nil
    then have "nx = None" using s1 by simp
    then show ?thesis using that [of "w1\<lparr>list_objs := (list_objs w)(l \<mapsto> st1\<lparr>p_tail := pr\<rparr>)\<rparr>" "st1\<lparr>p_tail := pr\<rparr>"] w1 Nil by (simp add: ll_upd)
  next
    case (Cons c ys')
    obtain b e g where c: "c = (b, e, g)" by (cases c)
    obtain n where b: "nx = Some b" "elems w1 b = Some n" "b \<in> fst ` set ys" "b \<notin> fst ` set xs" using s1 Cons c di(5) by auto
    have "dseg ((elems w1)(b \<mapsto> n\<lparr>el_prev := pr\<rparr>)) pr nx ys (p_tail st1) None"
      using dseg_set_prev [of "elems w1" "Some a" b ys "p_tail st1" None n pr] s1 b Cons di(2) by simp
    moreover have "dseg ((elems w1)(b \<mapsto> n\<lparr>el_prev := pr\<rparr>)) None (p_head st1) xs pr nx" using w1(5) b(4) by simp
    ultimately have "dseg ((elems w1)(b \<mapsto> n\<lparr>el_prev := pr\<rparr>)) None (p_head st1) (xs @ ys) (p_tail st1) None" by (auto simp: dseg_append)
    then show ?thesis using that [of "w1\<lparr>elems := (elems w1)(b \<mapsto> n\<lparr>el_prev := pr\<rparr>)\<rparr>" st1] w1 b by (auto simp: ll_upd)
  qed
  let ?n = "\<lparr>el_next = None, el_prev = None, data_ptr = d, dealloc_func = f\<rparr>"
  let ?w = "(if copied then w2 else dispose ?n w2)\<lparr>elems := (elems w2)(a := None)\<rparr>"
  have a2: "elems w2 a = elems w a" using w2(5) di(3,4) by simp
  have rm: "search_rm l a copied w = Some ?w"
    using s(2) a1 a2 w1(1) w2(1) by (auto simp: search_rm_def deref_def free_at_def upd_elem_Some dispose_def split: option.split)
  have "dseg ((elems w2)(a := None)) None (p_head st2) (xs @ ys) (p_tail st2) None" using w2(4) di(3,4) by (subst dseg_upd) auto
  then have "is_list ?w l (xs @ ys)"
    using w2(2) di by (auto simp: is_list_def dispose_def split: option.split)
  moreover have "only_list l (xs @ (a, d, f) # ys) (xs @ ys) w ?w"
    using w2(2,5) di by (auto simp: only_list_def dispose_def split: option.split)
  moreover have "deallocs ?w = deallocs w @ (if copied then [] else disposed [(d, f)])"
    using w2(3) by (simp add: dispose_def disposed_def split: option.split)
  ultimately show ?thesis using rm by blast
qed

lemma find_split: "find P xs = Some x \<Longrightarrow> \<exists>us vs. xs = us @ x # vs \<and> P x \<and> (\<forall>u \<in> set us. \<not> P u)"
proof (induction xs)
  case (Cons y ys)
  show ?case
  proof (cases "P y")
    case True
    with Cons.prems show ?thesis by (intro exI [of _ "[]"] exI [of _ ys]) auto
  next
    case False
    with Cons obtain us vs where "ys = us @ x # vs" "P x" "\<forall>u \<in> set us. \<not> P u" by auto
    with False show ?thesis by (intro exI [of _ "y # us"] exI [of _ vs]) auto
  qed
qed simp

lemma list_search_ok:
  assumes r: "is_list w l cs" and ne: "cs \<noteq> []"
  shows "\<exists>w' cs'. linked_list_search (Some l) out (Some eq) k rm w =
      Some (eLINKED_LIST_SUCCESS, map_option (\<lambda>_. map_option fst (find (\<lambda>(d, f). eq k d) (map snd cs))) out, w') \<and>
    is_list w' l cs' \<and> only_list l cs cs' w w' \<and>
    (case find (\<lambda>(d, f). eq k d) (map snd cs) of
       None \<Rightarrow> cs' = cs \<and> deallocs w' = deallocs w
     | Some x \<Rightarrow> map snd cs' = (if rm then remove1 x (map snd cs) else map snd cs) \<and>
         deallocs w' = deallocs w @ (if rm \<and> out = None then disposed [x] else []))"
proof -
  from r obtain st where st: "list_objs w l = Some st" "dseg (elems w) None (p_head st) cs (p_tail st) None" by (auto simp: is_list_def)
  have tail: "p_tail st \<noteq> None" using dseg_ends [OF st(2)] ne by simp
  note loop = search_loop_ok [OF st(2), of "eq k"]
  have fm: "find (\<lambda>(d, f). eq k d) (map snd cs) = map_option snd (find (\<lambda>(a, d, f). eq k d) cs)"
    by (induction cs) auto
  show ?thesis
  proof (cases "find (\<lambda>(a, d, f). eq k d) cs")
    case None
    then show ?thesis using loop fm st tail r by (auto simp: linked_list_search_def deref_def intro!: exI [of _ w] exI [of _ cs])
  next
    case (Some c)
    obtain a d f where c: "c = (a, d, f)" by (cases c)
    from find_split [OF Some] obtain xs ys where cs: "cs = xs @ (a, d, f) # ys" "case (a, d, f) of (a, d, f) \<Rightarrow> eq k d" "\<forall>u \<in> set xs. \<not> (case u of (a, d, f) \<Rightarrow> eq k d)" unfolding c by blast
    then have n: "elems w a = Some n \<Longrightarrow> data_ptr n = d" "\<exists>n. elems w a = Some n" for n using st(2) by (auto simp: dseg_append)
    have rem: "remove1 (d, f) (map snd cs) = map snd (xs @ ys)" using cs by (auto simp: remove1_append)
    from search_rm_ok [OF r [unfolded cs(1)], of "out \<noteq> None"] n cs(1) Some c loop fm st tail r rem
    show ?thesis by (cases rm) (auto simp: linked_list_search_def deref_def option.map_comp o_def intro!: exI [of _ "if rm then xs @ ys else cs"])
  qed
qed

section \<open>Requests\<close>

datatype 'k list_req = L_add ptr "ptr option" "ptr option" | L_remove | L_flush | L_search bool 'k bool

text \<open>A request to the structure, and the same request to a plain list of data with dispose functions. The first component of the result is the return value, the
  second what the caller's variable holds afterwards (which was \<open>NULL\<close>).\<close>

fun list_exec :: "('k \<Rightarrow> ptr \<Rightarrow> bool) \<Rightarrow> ptr \<Rightarrow> ll_world \<Rightarrow> 'k list_req \<Rightarrow> ((linked_list_err_type \<times> ptr option) \<times> ll_world) option" where
  "list_exec eq l w (L_add d f m) = do { (ret, w) \<leftarrow> linked_list_add (Some l) (Some d) f m w; Some ((ret, None), w) }"
| "list_exec eq l w L_remove = do { (ret, out, w) \<leftarrow> linked_list_remove (Some l) (Some None) w; Some ((ret, out \<bind> (\<lambda>x. x)), w) }"
| "list_exec eq l w L_flush = do { (ret, w) \<leftarrow> linked_list_flush (Some l) w; Some ((ret, None), w) }"
| "list_exec eq l w (L_search given k rm) =
     do { (ret, out, w) \<leftarrow> linked_list_search (Some l) (if given then Some None else None) (Some eq) k rm w; Some ((ret, out \<bind> (\<lambda>x. x)), w) }"

fun list_spec ::
  "('k \<Rightarrow> ptr \<Rightarrow> bool) \<Rightarrow> (ptr \<times> ptr option) list \<Rightarrow> 'k list_req \<Rightarrow>
     (linked_list_err_type \<times> ptr option) \<times> (ptr \<times> ptr option) list \<times> (ptr \<times> ptr) list" where
  "list_spec eq xs (L_add d f None) = ((eLINKED_LIST_FAILURE_GENERAL, None), xs, [])"
| "list_spec eq xs (L_add d f (Some a)) = ((eLINKED_LIST_SUCCESS, None), (d, f) # xs, [])"
| "list_spec eq xs L_remove =
     (if xs = [] then ((eLINKED_LIST_UNAVAILABLE_RESOURCE, None), xs, [])
      else ((eLINKED_LIST_SUCCESS, Some (fst (last xs))), butlast xs, []))"
| "list_spec eq xs L_flush = ((eLINKED_LIST_SUCCESS, None), [], disposed xs)"
| "list_spec eq xs (L_search given k rm) =
     (if xs = [] then ((eLINKED_LIST_UNAVAILABLE_RESOURCE, None), xs, [])
      else case find (\<lambda>(d, f). eq k d) xs of
             None \<Rightarrow> ((eLINKED_LIST_SUCCESS, None), xs, [])
           | Some x \<Rightarrow> ((eLINKED_LIST_SUCCESS, if given then Some (fst x) else None),
               if rm then remove1 x xs else xs, if rm \<and> \<not> given then disposed [x] else []))"

text \<open>\<open>malloc\<close> returns memory that is not in use.\<close>

fun malloc_fresh :: "ll_world \<Rightarrow> 'k list_req \<Rightarrow> bool" where
  "malloc_fresh w (L_add d f (Some a)) \<longleftrightarrow> elems w a = None"
| "malloc_fresh w x \<longleftrightarrow> True"

lemma list_step:
  assumes r: "is_list w l cs" and m: "malloc_fresh w x" and sp: "list_spec eq (map snd cs) x = (out, xs', calls)"
  shows "\<exists>w' cs'. list_exec eq l w x = Some (out, w') \<and> is_list w' l cs' \<and> map snd cs' = xs' \<and>
    only_list l cs cs' w w' \<and> deallocs w' = deallocs w @ calls"
proof (cases x)
  case (L_add d f mal)
  show ?thesis
  proof (cases mal)
    case None
    with r sp L_add show ?thesis by (auto simp: linked_list_add_def)
  next
    case (Some a)
    with list_add_ok [OF r, of a d f] m sp L_add obtain w' where w': "linked_list_add (Some l) (Some d) f (Some a) w = Some (eLINKED_LIST_SUCCESS, w')"
      "is_list w' l ((a, d, f) # cs)" "only_list l cs ((a, d, f) # cs) w w'" "deallocs w' = deallocs w" by auto
    show ?thesis using w' sp L_add Some by (intro exI [of _ w'] exI [of _ "(a, d, f) # cs"]) auto
  qed
next
  case L_remove
  show ?thesis
  proof (cases "cs = []")
    case True
    with r sp L_remove list_remove_empty [of w l None] show ?thesis by auto
  next
    case False
    then obtain ds a d f where cs: "cs = ds @ [(a, d, f)]" by (metis prod_cases3 rev_exhaust)
    from list_remove_ok [OF r [unfolded cs], of None] obtain w' where w': "linked_list_remove (Some l) (Some None) w = Some (eLINKED_LIST_SUCCESS, Some (Some d), w')"
      "is_list w' l ds" "only_list l cs ds w w'" "deallocs w' = deallocs w" unfolding cs by blast
    show ?thesis using w' sp L_remove cs by (intro exI [of _ w'] exI [of _ ds]) (auto simp: butlast_append)
  qed
next
  case L_flush
  with list_flush_ok [OF r] sp show ?thesis by auto
next
  case (L_search given k rm)
  show ?thesis
  proof (cases "cs = []")
    case True
    with r sp L_search show ?thesis by (auto simp: linked_list_search_def is_list_def deref_def)
  next
    case False
    from list_search_ok [OF r this, of "if given then Some None else None" eq k rm] sp L_search False show ?thesis
      by (auto split: option.splits if_splits)
  qed
qed

fun list_run :: "('k \<Rightarrow> ptr \<Rightarrow> bool) \<Rightarrow> ptr \<Rightarrow> ll_world \<Rightarrow> 'k list_req list \<Rightarrow> ((linked_list_err_type \<times> ptr option) list \<times> ll_world) option" where
  "list_run eq l w [] = Some ([], w)"
| "list_run eq l w (x # xs) = do { (out, w) \<leftarrow> list_exec eq l w x; (outs, w) \<leftarrow> list_run eq l w xs; Some (out # outs, w) }"

fun spec_run ::
  "('k \<Rightarrow> ptr \<Rightarrow> bool) \<Rightarrow> (ptr \<times> ptr option) list \<Rightarrow> 'k list_req list \<Rightarrow>
     (linked_list_err_type \<times> ptr option) list \<times> (ptr \<times> ptr option) list \<times> (ptr \<times> ptr) list" where
  "spec_run eq vs [] = ([], vs, [])"
| "spec_run eq vs (x # xs) =
     (let (out, vs, calls) = list_spec eq vs x; (outs, vs, calls') = spec_run eq vs xs in (out # outs, vs, calls @ calls'))"

lemma only_list_trans: "only_list l cs ds w w1 \<Longrightarrow> only_list l ds es w1 w2 \<Longrightarrow> only_list l cs es w w2"
proof -
  assume 1: "only_list l cs ds w w1" and 2: "only_list l ds es w1 w2"
  note u = 1 [unfolded only_list_def] 2 [unfolded only_list_def]
  have "elems w2 a = elems w a" if "a \<notin> fst ` set cs \<union> fst ` set es" for a
    using u that by (cases "a \<in> fst ` set ds") (metis DiffI Un_iff)+
  moreover have "elems w2 a = None" if "a \<in> fst ` set cs - fst ` set es" for a
    using u that by (cases "a \<in> fst ` set ds") (metis DiffI DiffE Un_iff)+
  moreover have "elems w a = None" if "a \<in> fst ` set es - fst ` set cs" for a
    using u that by (cases "a \<in> fst ` set ds") (metis DiffI DiffE Un_iff)+
  ultimately show ?thesis using u unfolding only_list_def by metis
qed

lemma list_run_refines:
  "is_list w l cs \<Longrightarrow> legal_run (\<lambda>w x. map_option snd (list_exec eq l w x)) malloc_fresh w xs \<Longrightarrow> spec_run eq (map snd cs) xs = (outs, vs, calls) \<Longrightarrow>
     \<exists>w' cs'. list_run eq l w xs = Some (outs, w') \<and> is_list w' l cs' \<and> map snd cs' = vs \<and> only_list l cs cs' w w' \<and> deallocs w' = deallocs w @ calls"
proof (induction xs arbitrary: w cs outs calls)
  case (Cons x xs)
  obtain out vs1 calls1 where sp: "list_spec eq (map snd cs) x = (out, vs1, calls1)" by (cases "list_spec eq (map snd cs) x")
  from Cons.prems(2) have "malloc_fresh w x" by simp
  from list_step [OF Cons.prems(1) this sp] obtain w1 cs1 where 1: "list_exec eq l w x = Some (out, w1)" "is_list w1 l cs1" "map snd cs1 = vs1"
    "only_list l cs cs1 w w1" "deallocs w1 = deallocs w @ calls1" by blast
  obtain outs' calls' where rest: "spec_run eq vs1 xs = (outs', vs, calls')" "outs = out # outs'" "calls = calls1 @ calls'"
    using Cons.prems(3) sp by (auto simp: Let_def split: prod.splits)
  from Cons.IH [OF 1(2)] 1(1,3) rest(1) Cons.prems(2) obtain w2 cs2 where "list_run eq l w1 xs = Some (outs', w2)" "is_list w2 l cs2" "map snd cs2 = vs"
    "only_list l cs1 cs2 w1 w2" "deallocs w2 = deallocs w1 @ calls'" by auto
  with 1 rest only_list_trans show ?case by fastforce
qed auto

section \<open>Property\<close>

text \<open>
  C11. The doubly linked list is a list. Every sequence of requests (adding at the head, removing at the tail, searching with or without removal, flushing), with a \<open>malloc\<close> that
  fails or gives unused memory, never follows a bad pointer and always ends; every return value and every data pointer handed out is the one of the
  same requests on a plain list; the dispose functions are called for exactly the data that is dropped and not handed out, in order; elements that have
  left the list are freed and no other memory or list is touched.
\<close>

theorem linked_list_refines_list:
  assumes "is_list w l cs" and "legal_run (\<lambda>w x. map_option snd (list_exec eq l w x)) malloc_fresh w xs"
    and "spec_run eq (map snd cs) xs = (outs, vs, calls)"
  shows "\<exists>w' cs'. list_run eq l w xs = Some (outs, w') \<and> is_list w' l cs' \<and> map snd cs' = vs \<and>
    only_list l cs cs' w w' \<and> deallocs w' = deallocs w @ calls"
  using list_run_refines [OF assms] .

theorem linked_list_refines_list_witness:
  "\<exists>w' cs'. list_run (=) 1 \<lparr>elems = Map.empty, list_objs = [1 \<mapsto> \<lparr>p_head = None, p_tail = None\<rparr>], deallocs = []\<rparr>
      [L_add 10 (Some 7) (Some 100), L_add 11 None (Some 101), L_add 12 (Some 7) (Some 102), L_search False (11::nat) False, L_search True 12 True, L_remove, L_remove, L_remove]
    = Some ([(eLINKED_LIST_SUCCESS, None), (eLINKED_LIST_SUCCESS, None), (eLINKED_LIST_SUCCESS, None), (eLINKED_LIST_SUCCESS, None),
        (eLINKED_LIST_SUCCESS, Some 12), (eLINKED_LIST_SUCCESS, Some 10), (eLINKED_LIST_SUCCESS, Some 11), (eLINKED_LIST_UNAVAILABLE_RESOURCE, None)], w') \<and>
    is_list w' 1 cs' \<and> map snd cs' = [] \<and>
    only_list 1 [] cs' \<lparr>elems = Map.empty, list_objs = [1 \<mapsto> \<lparr>p_head = None, p_tail = None\<rparr>], deallocs = []\<rparr> w' \<and> deallocs w' = [] @ []"
proof -
  let ?w = "\<lparr>elems = Map.empty, list_objs = [1 \<mapsto> \<lparr>p_head = None, p_tail = None\<rparr>], deallocs = []\<rparr>"
  let ?xs = "[L_add 10 (Some 7) (Some 100), L_add 11 None (Some 101), L_add 12 (Some 7) (Some 102), L_search False (11::nat) False, L_search True 12 True, L_remove, L_remove, L_remove]"
  have "is_list ?w 1 []" by (simp add: is_list_def)
  moreover have "legal_run (\<lambda>w x. map_option snd (list_exec (=) 1 w x)) malloc_fresh ?w ?xs"
    by code_simp
  moreover have "spec_run (=) (map snd []) ?xs = ([(eLINKED_LIST_SUCCESS, None), (eLINKED_LIST_SUCCESS, None), (eLINKED_LIST_SUCCESS, None), (eLINKED_LIST_SUCCESS, None),
        (eLINKED_LIST_SUCCESS, Some 12), (eLINKED_LIST_SUCCESS, Some 10), (eLINKED_LIST_SUCCESS, Some 11), (eLINKED_LIST_UNAVAILABLE_RESOURCE, None)], [], [])"
    by simp
  ultimately show ?thesis using linked_list_refines_list [of ?w 1 "[]" "(=)" ?xs] by simp
qed

end
