(* ===== verification/MsgQueue.thy ===== *)
theory MsgQueue
  imports LinkedList "HOL-Library.Sublist"
begin

text \<open>
  The message queue of the location services (\<open>gps/utils/msg_q.c\<close>): a linked list behind a mutex, with a condition variable on which receivers wait, and
  the two calls that \<open>gps/utils/MsgTask.cpp\<close> makes of it.

  Every critical section is one atomic step. A condition variable is the list of the threads that wait on it, together with those that have been woken and not yet
  got the mutex back. \<open>pthread_cond_signal\<close> wakes one of the waiting threads, which one is an argument; waiting threads may also wake without a signal.
\<close>

section \<open>Data\<close>

datatype msq_q_err_type =
    eMSG_Q_SUCCESS | eMSG_Q_FAILURE_GENERAL | eMSG_Q_INVALID_PARAMETER
  | eMSG_Q_INVALID_HANDLE | eMSG_Q_UNAVAILABLE_RESOURCE | eMSG_Q_INSUFFICIENT_BUFFER

fun convert_linked_list_err_type :: "linked_list_err_type \<Rightarrow> msq_q_err_type" where
  "convert_linked_list_err_type eLINKED_LIST_SUCCESS = eMSG_Q_SUCCESS"
| "convert_linked_list_err_type eLINKED_LIST_INVALID_PARAMETER = eMSG_Q_INVALID_PARAMETER"
| "convert_linked_list_err_type eLINKED_LIST_INVALID_HANDLE = eMSG_Q_INVALID_HANDLE"
| "convert_linked_list_err_type eLINKED_LIST_UNAVAILABLE_RESOURCE = eMSG_Q_UNAVAILABLE_RESOURCE"
| "convert_linked_list_err_type eLINKED_LIST_INSUFFICIENT_BUFFER = eMSG_Q_INSUFFICIENT_BUFFER"
| "convert_linked_list_err_type eLINKED_LIST_FAILURE_GENERAL = eMSG_Q_FAILURE_GENERAL"

type_synonym tid = nat

record msg_q =
  msg_list :: "ptr option"
  unblocked :: bool
  waiting :: "tid list"
  woken :: "tid list"

record mq_world =
  lw :: ll_world
  queues :: "msg_q heap"

definition put_q :: "ptr \<Rightarrow> msg_q \<Rightarrow> mq_world \<Rightarrow> mq_world" where
  "put_q q m w = w\<lparr>queues := (queues w)(q \<mapsto> m)\<rparr>"

definition drop_q :: "ptr \<Rightarrow> mq_world \<Rightarrow> mq_world" where
  "drop_q q w = w\<lparr>queues := free_at (queues w) q\<rparr>"

text \<open>\<open>pthread_cond_signal\<close>: thread number \<open>pick\<close> of those that wait (counted round) is woken.\<close>

definition cond_signal :: "nat \<Rightarrow> msg_q \<Rightarrow> msg_q" where
  "cond_signal pick m =
     (if waiting m = [] then m
      else let t = waiting m ! (pick mod length (waiting m)) in m\<lparr>waiting := remove1 t (waiting m), woken := woken m @ [t]\<rparr>)"

definition cond_broadcast :: "msg_q \<Rightarrow> msg_q" where
  "cond_broadcast m = m\<lparr>waiting := [], woken := woken m @ waiting m\<rparr>"

section \<open>Creation and destruction\<close>

text \<open>The last four arguments: the memory for the queue and for its list, and whether the mutex and the condition variable can be made.\<close>

definition msg_q_init ::
  "ptr option option \<Rightarrow> ptr option \<Rightarrow> ptr option \<Rightarrow> bool \<Rightarrow> bool \<Rightarrow> mq_world \<Rightarrow> (msq_q_err_type \<times> ptr option option \<times> mq_world) option" where
  "msg_q_init msg_q_data calloc list_calloc mutex_ok cond_ok w =
     (case msg_q_data of
        None \<Rightarrow> Some (eMSG_Q_INVALID_PARAMETER, None, w)
      | Some old \<Rightarrow>
          (case calloc of
             None \<Rightarrow> Some (eMSG_Q_FAILURE_GENERAL, Some old, w)
           | Some q \<Rightarrow>
               let (ret, var, l1) = linked_list_init (Some None) list_calloc (lw w);
                   m = \<lparr>msg_list = (case var of None \<Rightarrow> None | Some p \<Rightarrow> p), unblocked = False, waiting = [], woken = []\<rparr>;
                   w1 = put_q q m (w\<lparr>lw := l1\<rparr>)
               in if ret \<noteq> eLINKED_LIST_SUCCESS then Some (eMSG_Q_FAILURE_GENERAL, Some old, drop_q q w1)
                  else if \<not> mutex_ok \<or> \<not> cond_ok
                  then do { (ret, var, l2) \<leftarrow> linked_list_destroy (Some (msg_list m)) l1;
                            Some (eMSG_Q_FAILURE_GENERAL, Some old, drop_q q (w1\<lparr>lw := l2\<rparr>)) }
                  else Some (eMSG_Q_SUCCESS, Some (Some q), w1)))"

definition msg_q_init2 :: "ptr option \<Rightarrow> ptr option \<Rightarrow> bool \<Rightarrow> bool \<Rightarrow> mq_world \<Rightarrow> (ptr option \<times> mq_world) option" where
  "msg_q_init2 calloc list_calloc mutex_ok cond_ok w =
     do { (ret, q, w) \<leftarrow> msg_q_init (Some None) calloc list_calloc mutex_ok cond_ok w;
          Some (if ret \<noteq> eMSG_Q_SUCCESS then None else q \<bind> (\<lambda>x. x), w) }"

text \<open>\<open>*msg_q_data\<close> is not checked: destroying a null queue follows a null pointer.\<close>

definition msg_q_destroy :: "ptr option option \<Rightarrow> mq_world \<Rightarrow> (msq_q_err_type \<times> ptr option option \<times> mq_world) option" where
  "msg_q_destroy msg_q_data w =
     (case msg_q_data of
        None \<Rightarrow> Some (eMSG_Q_INVALID_HANDLE, None, w)
      | Some p \<Rightarrow>
          do { q \<leftarrow> p;
               m \<leftarrow> deref (queues w) q;
               (ret, var, l1) \<leftarrow> linked_list_destroy (Some (msg_list m)) (lw w);
               Some (eMSG_Q_SUCCESS, Some None, drop_q q (w\<lparr>lw := l1\<rparr>)) })"

section \<open>Sending and receiving\<close>

definition msg_q_snd ::
  "ptr option \<Rightarrow> ptr option \<Rightarrow> ptr option \<Rightarrow> ptr option \<Rightarrow> nat \<Rightarrow> mq_world \<Rightarrow> (msq_q_err_type \<times> mq_world) option" where
  "msg_q_snd msg_q_data msg_obj dealloc malloc pick w =
     (case msg_q_data of
        None \<Rightarrow> Some (eMSG_Q_INVALID_HANDLE, w)
      | Some q \<Rightarrow>
          if msg_obj = None then Some (eMSG_Q_INVALID_PARAMETER, w)
          else do {
            m \<leftarrow> deref (queues w) q;
            if unblocked m then Some (eMSG_Q_UNAVAILABLE_RESOURCE, w)
            else do {
              (ret, l1) \<leftarrow> linked_list_add (msg_list m) msg_obj dealloc malloc (lw w);
              Some (convert_linked_list_err_type ret, put_q q (cond_signal pick m) (w\<lparr>lw := l1\<rparr>)) } })"

text \<open>A receiver returns, or it waits on the condition variable.\<close>

datatype rcv_result = Returned msq_q_err_type "ptr option option" | Waits

text \<open>One test of the loop in \<open>msg_q_rcv\<close>, and what follows the loop.\<close>

definition rcv_test :: "tid \<Rightarrow> ptr \<Rightarrow> ptr option option \<Rightarrow> mq_world \<Rightarrow> (rcv_result \<times> mq_world) option" where
  "rcv_test t q msg_obj w =
     do { m \<leftarrow> deref (queues w) q;
          e \<leftarrow> linked_list_empty (msg_list m) (lw w);
          if e \<noteq> 0 \<and> \<not> unblocked m then Some (Waits, put_q q (m\<lparr>waiting := waiting m @ [t]\<rparr>) w)
          else do {
            (ret, out, l1) \<leftarrow> linked_list_remove (msg_list m) msg_obj (lw w);
            Some (Returned (convert_linked_list_err_type ret) out, w\<lparr>lw := l1\<rparr>) } }"

definition msg_q_rcv :: "tid \<Rightarrow> ptr option \<Rightarrow> ptr option option \<Rightarrow> mq_world \<Rightarrow> (rcv_result \<times> mq_world) option" where
  "msg_q_rcv t msg_q_data msg_obj w =
     (case msg_q_data of
        None \<Rightarrow> Some (Returned eMSG_Q_INVALID_HANDLE msg_obj, w)
      | Some q \<Rightarrow>
          if msg_obj = None then Some (Returned eMSG_Q_INVALID_PARAMETER None, w)
          else do {
            m \<leftarrow> deref (queues w) q;
            if unblocked m then Some (Returned eMSG_Q_UNAVAILABLE_RESOURCE msg_obj, w)
            else rcv_test t q msg_obj w })"

text \<open>\<open>pthread_cond_wait\<close> returns in thread \<open>t\<close>, and the loop goes on.\<close>

definition rcv_resume :: "tid \<Rightarrow> ptr \<Rightarrow> ptr option option \<Rightarrow> mq_world \<Rightarrow> (rcv_result \<times> mq_world) option" where
  "rcv_resume t q msg_obj w =
     do { m \<leftarrow> deref (queues w) q;
          rcv_test t q msg_obj (put_q q (m\<lparr>woken := remove1 t (woken m)\<rparr>) w) }"

definition msg_q_flush :: "ptr option \<Rightarrow> mq_world \<Rightarrow> (msq_q_err_type \<times> mq_world) option" where
  "msg_q_flush msg_q_data w =
     (case msg_q_data of
        None \<Rightarrow> Some (eMSG_Q_INVALID_HANDLE, w)
      | Some q \<Rightarrow>
          do { m \<leftarrow> deref (queues w) q;
               (ret, l1) \<leftarrow> linked_list_flush (msg_list m) (lw w);
               Some (convert_linked_list_err_type ret, w\<lparr>lw := l1\<rparr>) })"

definition msg_q_unblock :: "ptr option \<Rightarrow> mq_world \<Rightarrow> (msq_q_err_type \<times> mq_world) option" where
  "msg_q_unblock msg_q_data w =
     (case msg_q_data of
        None \<Rightarrow> Some (eMSG_Q_INVALID_HANDLE, w)
      | Some q \<Rightarrow>
          do { m \<leftarrow> deref (queues w) q;
               if unblocked m then Some (eMSG_Q_UNAVAILABLE_RESOURCE, w)
               else Some (eMSG_Q_SUCCESS, put_q q (cond_broadcast (m\<lparr>unblocked := True\<rparr>)) w) })"

section \<open>The threads\<close>

text \<open>\<open>sent\<close>: the messages accepted, in order; \<open>gone\<close>: those no longer in the queue; \<open>got\<close>: those that a receiver returned.\<close>

record mq_sys =
  mw :: mq_world
  sent :: "ptr list"
  gone :: "ptr list"
  got :: "(tid \<times> ptr) list"

datatype mq_event =
    Send ptr "ptr option" "ptr option" nat | Receive tid | Resume tid | Spurious tid | Flush | Unblock

fun note_result :: "tid \<Rightarrow> rcv_result \<times> mq_world \<Rightarrow> mq_sys \<Rightarrow> mq_sys" where
  "note_result t (Returned eMSG_Q_SUCCESS (Some (Some msg)), w) s = s\<lparr>mw := w, gone := gone s @ [msg], got := got s @ [(t, msg)]\<rparr>"
| "note_result t (r, w) s = s\<lparr>mw := w\<rparr>"

fun mq_exec :: "ptr \<Rightarrow> mq_sys \<Rightarrow> mq_event \<Rightarrow> mq_sys option" where
  "mq_exec q s (Send msg f a pick) =
     map_option (\<lambda>(ret, w). s\<lparr>mw := w, sent := (if ret = eMSG_Q_SUCCESS then sent s @ [msg] else sent s)\<rparr>) (msg_q_snd (Some q) (Some msg) f a pick (mw s))"
| "mq_exec q s (Receive t) = map_option (\<lambda>rw. note_result t rw s) (msg_q_rcv t (Some q) (Some None) (mw s))"
| "mq_exec q s (Resume t) = map_option (\<lambda>rw. note_result t rw s) (rcv_resume t q (Some None) (mw s))"
| "mq_exec q s (Spurious t) =
     map_option (\<lambda>m. s\<lparr>mw := put_q q (m\<lparr>waiting := remove1 t (waiting m), woken := woken m @ [t]\<rparr>) (mw s)\<rparr>) (queues (mw s) q)"
| "mq_exec q s Flush = map_option (\<lambda>(ret, w). s\<lparr>mw := w, gone := sent s\<rparr>) (msg_q_flush (Some q) (mw s))"
| "mq_exec q s Unblock = map_option (\<lambda>(ret, w). s\<lparr>mw := w\<rparr>) (msg_q_unblock (Some q) (mw s))"

text \<open>What may happen next: \<open>malloc\<close> gives unused memory, a thread that waits does nothing else, and only woken threads resume.\<close>

fun mq_legal :: "ptr \<Rightarrow> mq_sys \<Rightarrow> mq_event \<Rightarrow> bool" where
  "mq_legal q s (Send msg f a pick) = (case a of None \<Rightarrow> True | Some a \<Rightarrow> elems (lw (mw s)) a = None)"
| "mq_legal q s (Receive t) = (case queues (mw s) q of None \<Rightarrow> True | Some m \<Rightarrow> t \<notin> set (waiting m) \<and> t \<notin> set (woken m))"
| "mq_legal q s (Resume t) = (case queues (mw s) q of None \<Rightarrow> True | Some m \<Rightarrow> t \<in> set (woken m))"
| "mq_legal q s (Spurious t) = (case queues (mw s) q of None \<Rightarrow> True | Some m \<Rightarrow> t \<in> set (waiting m))"
| "mq_legal q s x = True"

inductive mq_reach :: "ptr \<Rightarrow> mq_sys \<Rightarrow> bool" for q :: ptr where
  boot: "msg_q_init2 (Some q) (Some l) True True w0 = Some (Some q, w) \<Longrightarrow> mq_reach q \<lparr>mw = w, sent = [], gone = [], got = []\<rparr>"
| step: "mq_reach q s \<Longrightarrow> mq_legal q s x \<Longrightarrow> mq_exec q s x = Some s' \<Longrightarrow> mq_reach q s'"

section \<open>The invariant\<close>

abbreviation msgs :: "(ptr \<times> ptr \<times> ptr option) list \<Rightarrow> ptr list" where
  "msgs cs \<equiv> rev (map (\<lambda>c. fst (snd c)) cs)"

text \<open>While a thread waits without having been woken, there are at least as many woken threads as messages.\<close>

definition mq_inv :: "ptr \<Rightarrow> mq_sys \<Rightarrow> bool" where
  "mq_inv q s \<longleftrightarrow>
     (\<exists>m l cs. queues (mw s) q = Some m \<and> msg_list m = Some l \<and> is_list (lw (mw s)) l cs \<and> sent s = gone s @ msgs cs \<and>
        subseq (map snd (got s)) (gone s) \<and> (waiting m \<noteq> [] \<longrightarrow> \<not> unblocked m \<and> length cs \<le> length (woken m)))"

lemma mq_invI:
  "queues (mw s) q = Some m \<Longrightarrow> msg_list m = Some l \<Longrightarrow> is_list (lw (mw s)) l cs \<Longrightarrow> sent s = gone s @ msgs cs \<Longrightarrow>
     subseq (map snd (got s)) (gone s) \<Longrightarrow> (waiting m \<noteq> [] \<Longrightarrow> \<not> unblocked m \<and> length cs \<le> length (woken m)) \<Longrightarrow> mq_inv q s"
  unfolding mq_inv_def by blast

lemma list_is_empty: "is_list w l cs \<Longrightarrow> linked_list_empty (Some l) w = Some (if cs = [] then 1 else 0)"
  using dseg_ends by (auto simp: is_list_def linked_list_empty_def deref_def)

lemma cond_signal_fields [simp]: "msg_list (cond_signal pick m) = msg_list m" "unblocked (cond_signal pick m) = unblocked m"
  by (simp_all add: cond_signal_def Let_def)

lemma cond_signal_woken:
  "waiting (cond_signal pick m) \<noteq> [] \<Longrightarrow> waiting m \<noteq> [] \<and> length (woken (cond_signal pick m)) = length (woken m) + 1"
  by (auto simp: cond_signal_def Let_def split: if_splits)

lemma put_q_simps [simp]: "lw (put_q q m w) = lw w" "queues (put_q q m w) q = Some m" "put_q q m (put_q q m' w) = put_q q m w"
  by (simp_all add: put_q_def)

text \<open>One test of the receiving loop, by a thread that is not counted among the woken ones any more.\<close>

lemma rcv_test_inv:
  assumes q: "queues w q = Some m" "msg_list m = Some l" "is_list (lw w) l cs"
    and s: "sent s = gone s @ msgs cs" "subseq (map snd (got s)) (gone s)"
    and wt: "waiting m \<noteq> [] \<longrightarrow> \<not> unblocked m \<and> length cs \<le> length (woken m) + 1"
  shows "\<exists>rw. rcv_test t q (Some None) w = Some rw \<and> mq_inv q (note_result t rw s)"
proof (cases "cs = []")
  case True
  show ?thesis
  proof (cases "unblocked m")
    case False
    with True q s show ?thesis
      by (auto simp: rcv_test_def deref_def list_is_empty [OF q(3)] intro!: mq_invI [where cs = "[]" and m = "m\<lparr>waiting := waiting m @ [t]\<rparr>"])
  next
    case unb: True
    have "rcv_test t q (Some None) w = Some (Returned eMSG_Q_UNAVAILABLE_RESOURCE (Some None), w)"
      using True q unb list_remove_empty [of "lw w" l None] by (simp add: rcv_test_def deref_def list_is_empty [OF q(3)])
    with True q s wt unb show ?thesis by (auto intro!: mq_invI [where cs = "[]" and m = m])
  qed
next
  case False
  then obtain ds a d f where cs: "cs = ds @ [(a, d, f)]" by (metis prod_cases3 rev_exhaust)
  from list_remove_ok [OF q(3) [unfolded cs], of None] obtain l1 where
    l1: "linked_list_remove (Some l) (Some None) (lw w) = Some (eLINKED_LIST_SUCCESS, Some (Some d), l1)" "is_list l1 l ds" by blast
  have "rcv_test t q (Some None) w = Some (Returned eMSG_Q_SUCCESS (Some (Some d)), w\<lparr>lw := l1\<rparr>)"
    using False q l1 by (simp add: rcv_test_def deref_def list_is_empty [OF q(3)])
  moreover have "mq_inv q (s\<lparr>mw := w\<lparr>lw := l1\<rparr>, gone := gone s @ [d], got := got s @ [(t, d)]\<rparr>)"
    using q l1(2) s wt cs by (auto intro!: mq_invI [where cs = ds and m = m])
  ultimately show ?thesis by simp
qed

lemma mq_progress:
  assumes inv: "mq_inv q s" and legal: "mq_legal q s x"
  shows "\<exists>s'. mq_exec q s x = Some s' \<and> mq_inv q s'"
proof -
  from inv obtain m l cs where q: "queues (mw s) q = Some m" "msg_list m = Some l" "is_list (lw (mw s)) l cs"
    and g: "sent s = gone s @ msgs cs" "subseq (map snd (got s)) (gone s)"
    and wt: "waiting m \<noteq> [] \<longrightarrow> \<not> unblocked m \<and> length cs \<le> length (woken m)" by (auto simp: mq_inv_def)
  show ?thesis
  proof (cases x)
    case (Send msg f a pick)
    show ?thesis
    proof (cases "unblocked m \<or> a = None")
      case True
      have "mq_inv q (s\<lparr>mw := put_q q (cond_signal pick m) (mw s)\<rparr>)"
        using q g wt cond_signal_woken [of pick m] by (auto intro!: mq_invI [where m = "cond_signal pick m" and cs = cs])
      moreover have "mq_exec q s x = Some (if unblocked m then s else s\<lparr>mw := put_q q (cond_signal pick m) (mw s)\<rparr>)"
        using Send True q by (auto simp: msg_q_snd_def deref_def linked_list_add_def)
      ultimately show ?thesis using inv by simp
    next
      case False
      then obtain b where a: "a = Some b" "elems (lw (mw s)) b = None" using legal Send by auto
      from list_add_ok [OF q(3) a(2), of msg f] obtain l1 where
        "linked_list_add (Some l) (Some msg) f (Some b) (lw (mw s)) = Some (eLINKED_LIST_SUCCESS, l1)" "is_list l1 l ((b, msg, f) # cs)" by blast
      then show ?thesis using Send False a q g wt cond_signal_woken [of pick m]
        by (auto simp: msg_q_snd_def deref_def intro!: mq_invI [where m = "cond_signal pick m" and cs = "(b, msg, f) # cs"])
    qed
  next
    case (Receive t)
    show ?thesis
    proof (cases "unblocked m")
      case True
      then show ?thesis using Receive inv q by (simp add: msg_q_rcv_def deref_def)
    next
      case False
      then show ?thesis using Receive rcv_test_inv [OF q g, of t] wt q by (auto simp: msg_q_rcv_def deref_def)
    qed
  next
    case (Resume t)
    let ?m = "m\<lparr>woken := remove1 t (woken m)\<rparr>"
    have "t \<in> set (woken m)" using legal Resume q by simp
    then have len: "length (woken m) = length (woken ?m) + 1" by (simp add: length_remove1) (metis Suc_pred length_pos_if_in_set)
    have "\<exists>rw. rcv_test t q (Some None) (put_q q ?m (mw s)) = Some rw \<and> mq_inv q (note_result t rw s)"
      by (rule rcv_test_inv [where m = ?m and l = l and cs = cs]) (use q g wt len in auto)
    then show ?thesis using Resume q by (auto simp: rcv_resume_def deref_def)
  next
    case (Spurious t)
    then show ?thesis using legal q g wt
      by (auto intro!: mq_invI [where m = "m\<lparr>waiting := remove1 t (waiting m), woken := woken m @ [t]\<rparr>" and cs = cs])
  next
    case Flush
    from list_flush_ok [OF q(3)] obtain l1 where "linked_list_flush (Some l) (lw (mw s)) = Some (eLINKED_LIST_SUCCESS, l1)" "is_list l1 l []" by blast
    then show ?thesis using Flush q g wt
      by (auto simp: msg_q_flush_def deref_def intro!: mq_invI [where m = m and cs = "[]"])
  next
    case Unblock
    then show ?thesis using inv q g wt
      by (auto simp: msg_q_unblock_def deref_def cond_broadcast_def intro!: mq_invI [where m = "cond_broadcast (m\<lparr>unblocked := True\<rparr>)" and cs = cs])
  qed
qed

lemma boot_inv:
  assumes "msg_q_init2 (Some q) (Some l) True True w0 = Some (Some q, w)"
  shows "mq_inv q \<lparr>mw = w, sent = [], gone = [], got = []\<rparr>"
  using assms
  by (auto simp: msg_q_init2_def msg_q_init_def linked_list_init_def Let_def is_list_def
      intro!: mq_invI [where cs = "[]" and l = l and m = "\<lparr>msg_list = Some l, unblocked = False, waiting = [], woken = []\<rparr>"])

lemma mq_reach_inv: "mq_reach q s \<Longrightarrow> mq_inv q s"
proof (induction rule: mq_reach.induct)
  case (boot l w0 w)
  then show ?case by (rule boot_inv)
next
  case (step s x s')
  then show ?case using mq_progress [of q s x] by auto
qed

lemma mq_reach_run:
  "mq_reach q s \<Longrightarrow> legal_run (mq_exec q) (mq_legal q) s xs \<Longrightarrow> run_steps (mq_exec q) s xs = Some s' \<Longrightarrow> mq_reach q s'"
  by (induction xs arbitrary: s) (auto split: Option.bind_splits intro: mq_reach.step)

section \<open>The task\<close>

text \<open>\<open>LocMsgDestroy\<close> deletes the message; \<open>LocMsgDestroy_ptr\<close> stands for the address of that function. \<open>run\<close> gets the message that \<open>msg_q_rcv\<close>
  returned; the messages it processes and then deletes are returned.\<close>

definition LocMsgDestroy_ptr :: ptr where "LocMsgDestroy_ptr = 1"

definition sendMsg :: "ptr option \<Rightarrow> ptr option \<Rightarrow> ptr option \<Rightarrow> nat \<Rightarrow> mq_world \<Rightarrow> mq_world option" where
  "sendMsg mQ msg malloc pick w =
     (case msg of
        None \<Rightarrow> Some w
      | Some _ \<Rightarrow> map_option snd (msg_q_snd mQ msg (Some LocMsgDestroy_ptr) malloc pick w))"

fun MsgTask_run :: "rcv_result \<Rightarrow> (bool \<times> ptr list) option" where
  "MsgTask_run (Returned ret (Some (Some msg))) = Some (if eMSG_Q_SUCCESS \<noteq> ret then (False, []) else (True, [msg]))"
| "MsgTask_run (Returned ret out) = (if eMSG_Q_SUCCESS \<noteq> ret then Some (False, []) else None)"
| "MsgTask_run Waits = None"

definition MsgTask_delete :: "ptr option \<Rightarrow> mq_world \<Rightarrow> mq_world option" where
  "MsgTask_delete mQ w =
     do { (ret, w) \<leftarrow> msg_q_flush mQ w;
          (ret, mQ, w) \<leftarrow> msg_q_destroy (Some mQ) w;
          Some w }"

section \<open>Property\<close>

definition demo_mq :: mq_sys where
  "demo_mq = \<lparr>mw = \<lparr>lw = \<lparr>elems = Map.empty, list_objs = [2 \<mapsto> \<lparr>p_head = None, p_tail = None\<rparr>], deallocs = []\<rparr>,
     queues = [1 \<mapsto> \<lparr>msg_list = Some 2, unblocked = False, waiting = [], woken = []\<rparr>]\<rparr>, sent = [], gone = [], got = []\<rparr>"

text \<open>
  C10. The message queue delivers in order and loses no wake-up. In every state that any interleaving of senders, receivers, spurious wake-ups, flushing and unblocking can reach: every
  further call returns without following a bad pointer; the messages accepted are, in order, those that have left the queue followed by those in it, and the receivers
  have got messages in the order of sending, each at most once; and while a thread waits that has not been woken, the queue has not been unblocked and there are at least as many woken receivers on their way to the
  queue as there are messages in it, so that no message waits for a thread that nobody will wake.
\<close>

theorem msg_q_delivers:
  assumes "mq_reach q s"
  shows "\<exists>m l cs. queues (mw s) q = Some m \<and> msg_list m = Some l \<and> is_list (lw (mw s)) l cs \<and>
    sent s = gone s @ msgs cs \<and> subseq (map snd (got s)) (gone s) \<and>
    (waiting m \<noteq> [] \<longrightarrow> \<not> unblocked m \<and> length cs \<le> length (woken m)) \<and>
    (\<forall>x. mq_legal q s x \<longrightarrow> (\<exists>s'. mq_exec q s x = Some s'))"
proof -
  have inv: "mq_inv q s" using mq_reach_inv [OF assms] .
  then obtain m l cs where "queues (mw s) q = Some m" "msg_list m = Some l" "is_list (lw (mw s)) l cs"
    "sent s = gone s @ msgs cs" "subseq (map snd (got s)) (gone s)"
    "waiting m \<noteq> [] \<longrightarrow> \<not> unblocked m \<and> length cs \<le> length (woken m)" by (auto simp: mq_inv_def)
  moreover have "\<forall>x. mq_legal q s x \<longrightarrow> (\<exists>s'. mq_exec q s x = Some s')" using mq_progress [OF inv] by blast
  ultimately show ?thesis by auto
qed

theorem msg_q_delivers_witness:
  "\<exists>s. run_steps (mq_exec 1) demo_mq [Receive 5, Send 10 None (Some 100) 0, Receive 6, Resume 5, Send 11 (Some 7) (Some 100) 3, Send 12 None None 0] = Some s \<and>
     got s = [(6, 10)] \<and>
     (\<exists>m l cs. queues (mw s) 1 = Some m \<and> msg_list m = Some l \<and> is_list (lw (mw s)) l cs \<and>
        sent s = gone s @ msgs cs \<and> subseq (map snd (got s)) (gone s) \<and>
        (waiting m \<noteq> [] \<longrightarrow> \<not> unblocked m \<and> length cs \<le> length (woken m)) \<and>
        (\<forall>x. mq_legal 1 s x \<longrightarrow> (\<exists>s'. mq_exec 1 s x = Some s')))"
proof -
  let ?xs = "[Receive 5, Send 10 None (Some 100) 0, Receive 6, Resume 5, Send 11 (Some 7) (Some 100) 3, Send 12 None None 0]"
  have "mq_reach 1 demo_mq" unfolding demo_mq_def
    by (rule mq_reach.boot [of 1 2 "\<lparr>lw = \<lparr>elems = Map.empty, list_objs = Map.empty, deallocs = []\<rparr>, queues = Map.empty\<rparr>"])
      (simp add: msg_q_init2_def msg_q_init_def linked_list_init_def put_q_def)
  moreover have "legal_run (mq_exec 1) (mq_legal 1) demo_mq ?xs" by code_simp
  moreover have got: "map_option got (run_steps (mq_exec 1) demo_mq ?xs) = Some [(6, 10)]" by code_simp
  obtain s where s: "run_steps (mq_exec 1) demo_mq ?xs = Some s" "got s = [(6, 10)]" using map_option_eq_Some [THEN iffD1, OF got] by blast
  ultimately have "mq_reach 1 s" by (blast intro: mq_reach_run)
  from msg_q_delivers [OF this] s show ?thesis by blast
qed

end
