(* ===== verification/LocHeap.thy ===== *)
theory LocHeap
  imports IPA_Prelude
begin

text \<open>
  The rank-ordered binary tree of the location utilities (\<open>gps/utils/LocHeap.cpp\<close>), used by the timer
  service. Nodes keep the size of their subtree; \<open>push\<close> swaps data downwards and descends into the
  smaller subtree, \<open>pop\<close> swaps the top's data down to a leaf and removes that leaf, \<open>remove\<close> searches
  by address and prunes subtrees by rank. The ranking is the virtual method \<open>LocRankable::outRanks\<close>, an
  argument \<open>R\<close> here; data are addresses.
\<close>

section \<open>Nodes\<close>

datatype 'a heap_tree = NoNode | LocHeapNode (mSize: int) (mLeft: "'a heap_tree") (mData: 'a) (mRight: "'a heap_tree")
  where "mSize NoNode = 0"

definition new_node :: "'a \<Rightarrow> 'a heap_tree" where
  "new_node x = LocHeapNode 1 NoNode x NoNode"

text \<open>\<open>LocHeapNode::push\<close>: \<open>x\<close> is the data of the incoming (single) node. On \<open>NoNode\<close> this is the
  assignment that \<open>LocHeap::push\<close> does for an empty tree.\<close>

fun push_node :: "('a \<Rightarrow> 'a \<Rightarrow> bool) \<Rightarrow> 'a \<Rightarrow> 'a heap_tree \<Rightarrow> 'a heap_tree" where
  "push_node R x NoNode = new_node x"
| "push_node R x (LocHeapNode n l d r) =
     (let (d', x') = (if R x d then (x, d) else (d, x))
      in case l of
           NoNode \<Rightarrow> LocHeapNode (n + 1) (new_node x') d' r
         | LocHeapNode _ _ _ _ \<Rightarrow>
             (case r of
                NoNode \<Rightarrow> LocHeapNode (n + 1) l d' (new_node x')
              | LocHeapNode _ _ _ _ \<Rightarrow>
                  if mSize l \<le> mSize r
                  then LocHeapNode (n + 1) (push_node R x' l) d' r
                  else LocHeapNode (n + 1) l d' (push_node R x' r)))"

text \<open>
  \<open>LocHeapNode::pop\<close>: \<open>pop_node R d t\<close> pops the node \<open>t\<close> after the caller has swapped the data \<open>d\<close>
  into it, so that a pop of a whole tree starts with the tree's own data. The data that leaves is
  \<open>d\<close>, in the leaf that is detached.
\<close>

fun pop_node :: "('a \<Rightarrow> 'a \<Rightarrow> bool) \<Rightarrow> 'a \<Rightarrow> 'a heap_tree \<Rightarrow> 'a \<times> 'a heap_tree" where
  "pop_node R d NoNode = (d, NoNode)"
| "pop_node R d (LocHeapNode n NoNode _ NoNode) = (d, NoNode)"
| "pop_node R d (LocHeapNode n NoNode _ r) =
     (let (p, r') = pop_node R d r in (p, LocHeapNode (n - 1) NoNode (mData r) r'))"
| "pop_node R d (LocHeapNode n l _ NoNode) =
     (let (p, l') = pop_node R d l in (p, LocHeapNode (n - 1) l' (mData l) NoNode))"
| "pop_node R d (LocHeapNode n l _ r) =
     (if R (mData l) (mData r)
      then (let (p, l') = pop_node R d l in (p, LocHeapNode (n - 1) l' (mData l) r))
      else (let (p, r') = pop_node R d r in (p, LocHeapNode (n - 1) l (mData r) r')))"

text \<open>\<open>LocHeapNode::remove\<close>: \<open>None\<close> when no node was removed.\<close>

fun remove_node :: "('a \<Rightarrow> 'a \<Rightarrow> bool) \<Rightarrow> 'a \<Rightarrow> 'a heap_tree \<Rightarrow> ('a \<times> 'a heap_tree) option" where
  "remove_node R x NoNode = None"
| "remove_node R x (LocHeapNode n l d r) =
     (if x = d then Some (pop_node R d (LocHeapNode n l d r))
      else if \<not> R x d then
        (case remove_node R x l of
           Some (p, l') \<Rightarrow> Some (p, LocHeapNode (n - 1) l' d r)
         | None \<Rightarrow>
             (case remove_node R x r of
                Some (p, r') \<Rightarrow> Some (p, LocHeapNode (n - 1) l d r')
              | None \<Rightarrow> None))
      else None)"

text \<open>\<open>LocHeapNode::checkNodes\<close>, the consistency check of the source's own tests.\<close>

fun checkNodes :: "('a \<Rightarrow> 'a \<Rightarrow> bool) \<Rightarrow> 'a heap_tree \<Rightarrow> bool" where
  "checkNodes R NoNode = True"
| "checkNodes R (LocHeapNode n l d r) =
     ((l = NoNode \<or> \<not> R (mData l) d \<and> checkNodes R l) \<and>
      (r = NoNode \<or> \<not> R (mData r) d \<and> checkNodes R r) \<and>
      n - mSize l - mSize r = 1)"

section \<open>The heap\<close>

definition heap_push :: "('a \<Rightarrow> 'a \<Rightarrow> bool) \<Rightarrow> 'a \<Rightarrow> 'a heap_tree \<Rightarrow> 'a heap_tree" where
  "heap_push R x t = push_node R x t"

definition heap_peek :: "'a heap_tree \<Rightarrow> 'a option" where
  "heap_peek t = (case t of NoNode \<Rightarrow> None | LocHeapNode n l d r \<Rightarrow> Some d)"

definition heap_pop :: "('a \<Rightarrow> 'a \<Rightarrow> bool) \<Rightarrow> 'a heap_tree \<Rightarrow> 'a option \<times> 'a heap_tree" where
  "heap_pop R t =
     (case t of
        NoNode \<Rightarrow> (None, NoNode)
      | LocHeapNode n l d r \<Rightarrow> (let (p, t') = pop_node R d t in (Some p, t')))"

definition heap_remove :: "('a \<Rightarrow> 'a \<Rightarrow> bool) \<Rightarrow> 'a \<Rightarrow> 'a heap_tree \<Rightarrow> 'a option \<times> 'a heap_tree" where
  "heap_remove R x t =
     (case remove_node R x t of
        None \<Rightarrow> (None, t)
      | Some (p, t') \<Rightarrow> (Some p, t'))"

section \<open>Contents\<close>

fun mset_heap :: "'a heap_tree \<Rightarrow> 'a multiset" where
  "mset_heap NoNode = {#}"
| "mset_heap (LocHeapNode n l d r) = {#d#} + mset_heap l + mset_heap r"

lemma mset_heap_empty [simp]: "mset_heap t = {#} \<longleftrightarrow> t = NoNode"
  by (cases t) auto

lemma new_node_simps [simp]:
  "mset_heap (new_node x) = {#x#}" "mSize (new_node x) = 1" "mData (new_node x) = x"
  "checkNodes R (new_node x)" "new_node x \<noteq> NoNode"
  by (simp_all add: new_node_def)

text \<open>No ordering is needed for contents: every operation moves data around and loses none.\<close>

lemma mset_push_node: "mset_heap (push_node R x t) = add_mset x (mset_heap t)"
  by (induction R x t rule: push_node.induct) (auto simp: Let_def split: heap_tree.splits prod.splits if_splits)

lemma snd_pop_node:
  "snd (pop_node R d (LocHeapNode n l e r)) =
     (if l = NoNode \<and> r = NoNode then NoNode
      else if r = NoNode \<or> l \<noteq> NoNode \<and> R (mData l) (mData r)
      then LocHeapNode (n - 1) (snd (pop_node R d l)) (mData l) r
      else LocHeapNode (n - 1) l (mData r) (snd (pop_node R d r)))"
  by (cases l; cases r) (simp_all add: split_beta)

lemma pop_node_fst [simp]: "fst (pop_node R d t) = d"
  by (induction R d t rule: pop_node.induct) (auto split: prod.splits)

lemma mset_pop_node: "t \<noteq> NoNode \<Longrightarrow> add_mset (mData t) (mset_heap (snd (pop_node R d t))) = mset_heap t"
  by (induction R d t rule: pop_node.induct) (auto split: prod.splits)

lemma remove_node_mset:
  "remove_node R x t = Some (p, t') \<Longrightarrow> p = x \<and> add_mset x (mset_heap t') = mset_heap t"
proof (induction R x t arbitrary: p t' rule: remove_node.induct)
  case (2 R x n l d r)
  show ?case
  proof (cases "x = d")
    case True
    with 2(3) have "(p, t') = pop_node R d (LocHeapNode n l d r)" by simp
    then have "p = d" "t' = snd (pop_node R d (LocHeapNode n l d r))"
      by (metis fst_conv pop_node_fst, metis snd_conv)
    with True mset_pop_node [of "LocHeapNode n l d r" R d] show ?thesis by simp
  next
    case False
    with 2 show ?thesis by (auto split: if_splits option.splits)
  qed
qed simp

section \<open>Rankings\<close>

definition heap_ok :: "('a \<Rightarrow> bool) \<Rightarrow> ('a \<Rightarrow> 'a \<Rightarrow> bool) \<Rightarrow> 'a heap_tree \<Rightarrow> bool" where
  "heap_ok valid R t \<longleftrightarrow> checkNodes R t \<and> (\<forall>x \<in># mset_heap t. valid x)"

text \<open>
  What the heap needs of \<open>LocRankable::ranks\<close> on the data it holds: outranking is asymmetric and, when it
  fails twice in a row, fails end to end.
\<close>

locale ranking =
  fixes valid :: "'a \<Rightarrow> bool" and R :: "'a \<Rightarrow> 'a \<Rightarrow> bool"
  assumes asym: "valid a \<Longrightarrow> valid b \<Longrightarrow> R a b \<Longrightarrow> \<not> R b a"
    and negtrans: "valid a \<Longrightarrow> valid b \<Longrightarrow> valid c \<Longrightarrow> \<not> R a b \<Longrightarrow> \<not> R b c \<Longrightarrow> \<not> R a c"
begin

lemma irrefl: "valid a \<Longrightarrow> \<not> R a a"
  using asym by blast

lemma top_ranks:
  "checkNodes R t \<Longrightarrow> (\<forall>x \<in># mset_heap t. valid x) \<Longrightarrow> y \<in># mset_heap t \<Longrightarrow> \<not> R y (mData t)"
proof (induction t arbitrary: y)
  case (LocHeapNode n l d r)
  have sub: "\<not> R y d" if "s = l \<or> s = r" "y \<in># mset_heap s" for s
  proof -
    from that have "s \<noteq> NoNode" by auto
    with that LocHeapNode.prems have "\<not> R (mData s) d" "checkNodes R s" by auto
    moreover have "\<not> R y (mData s)" using that LocHeapNode calculation(2) by auto
    moreover have "mData s \<in># mset_heap s" using \<open>s \<noteq> NoNode\<close> by (cases s) auto
    ultimately show ?thesis
      using negtrans [of y "mData s" d] that LocHeapNode.prems(2) by auto
  qed
  from LocHeapNode.prems(3) have "y = d \<or> y \<in># mset_heap l \<or> y \<in># mset_heap r" by auto
  with sub irrefl LocHeapNode.prems(2) show ?case by auto
qed simp

lemma push_node_size: "mSize (push_node R x t) = mSize t + 1"
  by (cases t) (auto simp: Let_def split: heap_tree.splits prod.splits)

lemma push_node_neq [simp]: "push_node R x t \<noteq> NoNode"
  by (cases t) (auto simp: Let_def split: heap_tree.splits prod.splits)

lemma push_node_top: "mData (push_node R x t) = (if t = NoNode \<or> R x (mData t) then x else mData t)"
  by (cases t) (auto simp: Let_def split: heap_tree.splits prod.splits)

text \<open>Pushing into a subtree data that does not outrank the parent keeps the parent on top.\<close>

lemma push_node_below:
  "t \<noteq> NoNode \<Longrightarrow> \<not> R (mData t) d \<Longrightarrow> \<not> R x d \<Longrightarrow> \<not> R (mData (push_node R x t)) d"
  by (simp add: push_node_top)

lemma push_node_check:
  "checkNodes R t \<Longrightarrow> \<forall>y \<in># mset_heap t. valid y \<Longrightarrow> valid x \<Longrightarrow> checkNodes R (push_node R x t)"
proof (induction t arbitrary: x)
  case (LocHeapNode n l d r)
  define d' x' where "d' = (if R x d then x else d)" and "x' = (if R x d then d else x)"
  have v: "valid d" "valid d'" "valid x'" using LocHeapNode.prems by (auto simp: d'_def x'_def)
  have x'd: "\<not> R x' d'" using LocHeapNode.prems v asym by (auto simp: d'_def x'_def)
  have sub: "\<not> R (mData s) d'" if "s = l \<or> s = r" "s \<noteq> NoNode" for s
  proof -
    have "mData s \<in># mset_heap s" using that(2) by (cases s) auto
    then have vs: "valid (mData s)" using that LocHeapNode.prems(2) by auto
    have sd: "\<not> R (mData s) d" using that LocHeapNode.prems(1) by auto
    have "\<not> R d d'" using v asym irrefl LocHeapNode.prems(3) by (auto simp: d'_def)
    from negtrans [OF vs v(1,2) sd this] show ?thesis .
  qed
  have IH: "checkNodes R (push_node R x' l)" if "l \<noteq> NoNode"
    using LocHeapNode.IH(1) [of x'] that LocHeapNode.prems v by auto
  have IH': "checkNodes R (push_node R x' r)" if "r \<noteq> NoNode"
    using LocHeapNode.IH(2) [of x'] that LocHeapNode.prems v by auto
  have "(if R x d then (x, d) else (d, x)) = (d', x')" by (simp add: d'_def x'_def)
  then have eq: "push_node R x (LocHeapNode n l d r) =
     (if l = NoNode then LocHeapNode (n + 1) (new_node x') d' r
      else if r = NoNode then LocHeapNode (n + 1) l d' (new_node x')
      else if mSize l \<le> mSize r then LocHeapNode (n + 1) (push_node R x' l) d' r
      else LocHeapNode (n + 1) l d' (push_node R x' r))"
    by (simp split: heap_tree.split)
  from LocHeapNode.prems(1) have n: "n = 1 + mSize l + mSize r" "l = NoNode \<or> checkNodes R l" "r = NoNode \<or> checkNodes R r"
    by auto
  show ?case
  proof (cases "l = NoNode \<or> r = NoNode")
    case True
    with sub [of l] sub [of r] x'd n show ?thesis unfolding eq by auto
  next
    case False
    with sub [of l] sub [of r] x'd n IH IH' show ?thesis unfolding eq
      by (simp add: push_node_size push_node_below)
  qed
qed simp

text \<open>Popping: the children's data move up, \<open>d\<close> leaves.\<close>

lemma pop_node_size: "checkNodes R t \<Longrightarrow> t \<noteq> NoNode \<Longrightarrow> mSize (snd (pop_node R d t)) = mSize t - 1"
  by (induction t) (auto simp: snd_pop_node)

lemma top_in: "t \<noteq> NoNode \<Longrightarrow> mData t \<in># mset_heap t"
  by (cases t) auto

lemma pop_node_below:
  assumes "checkNodes R t" and "\<forall>y \<in># mset_heap t. valid y" and "t \<noteq> NoNode"
  shows "snd (pop_node R d t) = NoNode \<or> \<not> R (mData (snd (pop_node R d t))) (mData t)"
proof (cases "snd (pop_node R d t) = NoNode")
  case False
  then have "mData (snd (pop_node R d t)) \<in># mset_heap (snd (pop_node R d t))" by (rule top_in)
  then have "mData (snd (pop_node R d t)) \<in># mset_heap t"
    using mset_pop_node [OF assms(3), of R d] by (metis insert_noteq_member multi_member_split union_single_eq_member add_mset_commute)
  with top_ranks [OF assms(1,2)] show ?thesis by blast
qed simp

lemma pop_node_check:
  "checkNodes R t \<Longrightarrow> \<forall>y \<in># mset_heap t. valid y \<Longrightarrow> checkNodes R (snd (pop_node R d t))"
proof (induction t)
  case (LocHeapNode n l e r)
  from LocHeapNode.prems(1) have n: "n = 1 + mSize l + mSize r" and
    ok: "checkNodes R l" "checkNodes R r" by auto
  have v: "\<forall>y \<in># mset_heap l. valid y" "\<forall>y \<in># mset_heap r. valid y" using LocHeapNode.prems(2) by auto
  have nr: "\<not> R (mData r) (mData l)" if "l \<noteq> NoNode" "r \<noteq> NoNode" "R (mData l) (mData r)"
    using that top_in v asym by blast
  show ?case
    using n ok nr v LocHeapNode.IH pop_node_below [of l d] pop_node_below [of r d]
      pop_node_size [of l d] pop_node_size [of r d]
    by (auto simp: snd_pop_node)
qed simp

text \<open>Removing: the pruning by rank never cuts off the subtree that holds the data.\<close>

lemma remove_node_None:
  "checkNodes R t \<Longrightarrow> \<forall>y \<in># mset_heap t. valid y \<Longrightarrow> remove_node R x t = None \<longleftrightarrow> x \<notin># mset_heap t"
proof (induction t)
  case (LocHeapNode n l d r)
  have "\<not> R x d" if "x \<in># mset_heap (LocHeapNode n l d r)"
    using top_ranks [OF LocHeapNode.prems that] by simp
  with LocHeapNode show ?case by (auto split: option.splits)
qed simp

lemma remove_node_check:
  "checkNodes R t \<Longrightarrow> \<forall>y \<in># mset_heap t. valid y \<Longrightarrow> remove_node R x t = Some (p, t') \<Longrightarrow>
     checkNodes R t' \<and> mSize t' = mSize t - 1"
proof (induction t arbitrary: p t')
  case (LocHeapNode n l d r)
  have below: "s' = NoNode \<or> \<not> R (mData s') d"
    if "remove_node R x s = Some (q, s')" "s = l \<or> s = r" for s q s'
  proof (cases "s' = NoNode")
    case False
    have "mData s' \<in># mset_heap s"
      using remove_node_mset [OF that(1)] top_in [OF False] by (metis union_iff add_mset_add_single)
    then have "mData s' \<in># mset_heap (LocHeapNode n l d r)" using that(2) by auto
    from top_ranks [OF LocHeapNode.prems(1,2) this] show ?thesis by simp
  qed simp
  show ?case
  proof (cases "x = d")
    case True
    with LocHeapNode.prems(3) have "t' = snd (pop_node R d (LocHeapNode n l d r))" by (metis option.inject remove_node.simps(2) snd_conv)
    with pop_node_check [OF LocHeapNode.prems(1,2)] pop_node_size [OF LocHeapNode.prems(1)] show ?thesis by simp
  next
    case False
    from LocHeapNode.prems have ok: "checkNodes R l" "checkNodes R r" "\<forall>y \<in># mset_heap l. valid y"
      "\<forall>y \<in># mset_heap r. valid y" by auto
    consider l' where "remove_node R x l = Some (p, l')" "t' = LocHeapNode (n - 1) l' d r"
      | r' where "remove_node R x r = Some (p, r')" "t' = LocHeapNode (n - 1) l d r'"
      using LocHeapNode.prems(3) False by (auto split: if_splits option.splits)
    then show ?thesis
    proof cases
      case 1
      with LocHeapNode.IH(1) [OF ok(1,3) 1(1)] below [OF 1(1)] LocHeapNode.prems(1) show ?thesis by auto
    next
      case 2
      with LocHeapNode.IH(2) [OF ok(2,4) 2(1)] below [OF 2(1)] LocHeapNode.prems(1) show ?thesis by auto
    qed
  qed
qed simp

text \<open>The contract of the heap, over the multiset of its data.\<close>

lemma heap_push_ok:
  "heap_ok valid R t \<Longrightarrow> valid x \<Longrightarrow>
     heap_ok valid R (heap_push R x t) \<and> mset_heap (heap_push R x t) = add_mset x (mset_heap t)"
  by (auto simp: heap_ok_def heap_push_def mset_push_node push_node_check)

lemma heap_peek_ok:
  "heap_ok valid R t \<Longrightarrow> heap_peek t = Some x \<Longrightarrow> x \<in># mset_heap t \<and> (\<forall>y \<in># mset_heap t. \<not> R y x)"
proof -
  assume ok: "heap_ok valid R t" and "heap_peek t = Some x"
  then have "t \<noteq> NoNode" "x = mData t" by (cases t; simp add: heap_peek_def)+
  with ok top_in [of t] top_ranks [of t] show ?thesis unfolding heap_ok_def by blast
qed

lemma heap_pop_ok:
  assumes "heap_ok valid R t" and "heap_pop R t = (res, t')"
  shows "res = heap_peek t" and "heap_ok valid R t'"
    and "mset_heap t = (case res of None \<Rightarrow> {#} | Some x \<Rightarrow> add_mset x (mset_heap t'))"
    and "res = None \<Longrightarrow> t' = NoNode"
proof -
  have "res = heap_peek t \<and> heap_ok valid R t' \<and> (res = None \<longrightarrow> t' = NoNode) \<and>
      mset_heap t = (case res of None \<Rightarrow> {#} | Some x \<Rightarrow> add_mset x (mset_heap t'))"
  proof (cases t)
    case NoNode
    with assms show ?thesis by (auto simp: heap_pop_def heap_peek_def)
  next
    case (LocHeapNode n l d r)
    have "res = Some d" "t' = snd (pop_node R d t)"
      using assms(2) LocHeapNode by (auto simp: heap_pop_def split_beta)
    moreover have m: "add_mset d (mset_heap (snd (pop_node R d t))) = mset_heap t"
      using mset_pop_node [of t R d] LocHeapNode by simp
    moreover have "heap_ok valid R (snd (pop_node R d t))"
      using pop_node_check [of t d] assms(1) m unfolding heap_ok_def by (metis union_iff add_mset_add_single)
    ultimately show ?thesis using LocHeapNode by (simp add: heap_peek_def)
  qed
  then show "res = heap_peek t" and "heap_ok valid R t'"
    and "mset_heap t = (case res of None \<Rightarrow> {#} | Some x \<Rightarrow> add_mset x (mset_heap t'))"
    and "res = None \<Longrightarrow> t' = NoNode" by auto
qed

lemma heap_remove_ok:
  assumes "heap_ok valid R t" and "heap_remove R x t = (res, t')"
  shows "heap_ok valid R t'" and "mset_heap t' = mset_heap t - {#x#}"
    and "res = (if x \<in># mset_heap t then Some x else None)"
proof -
  have ok: "checkNodes R t" "\<forall>y \<in># mset_heap t. valid y" using assms(1) by (auto simp: heap_ok_def)
  have "heap_ok valid R t' \<and> mset_heap t' = mset_heap t - {#x#} \<and> res = (if x \<in># mset_heap t then Some x else None)"
  proof (cases "remove_node R x t")
    case None
    then show ?thesis using assms remove_node_None [OF ok, of x]
      by (auto simp: heap_remove_def)
  next
    case (Some q)
    then obtain p s where q: "remove_node R x t = Some (p, s)" by (cases q) auto
    note m = remove_node_mset [OF q] and c = remove_node_check [OF ok q]
    from q assms(2) have "res = Some p" "t' = s" by (auto simp: heap_remove_def)
    moreover have "mset_heap s = mset_heap t - {#x#}" "x \<in># mset_heap t"
      unfolding conjunct2 [OF m, symmetric] by simp_all
    ultimately show ?thesis using m c ok(2) by (auto simp: heap_ok_def dest: in_diffD)
  qed
  then show "heap_ok valid R t'" and "mset_heap t' = mset_heap t - {#x#}"
    and "res = (if x \<in># mset_heap t then Some x else None)" by auto
qed

end

end
