(* ===== verification/LocTimer.thy ===== *)
theory LocTimer
  imports LocHeap
begin

text \<open>
  The timer service of the location utilities (\<open>gps/utils/LocTimer.cpp\<close>). Clients start and stop
  \<open>LocTimer\<close> objects; a started timer is a \<open>LocTimerDelegate\<close> that a message thread inserts into one of two
  containers (timers and alarms, selected by \<open>wakeOnExpire\<close>), each a \<open>LocHeap\<close> ranked by expiry time and
  backed by one kernel timer. A poll thread turns a kernel expiry into a message.

  All heap work happens while messages are processed one by one, so the model is a queue of messages and
  atomic steps: client calls, kernel expiries, and the processing of the oldest message. \<open>None\<close> is a use of
  a deleted object; a step that reads the heap demands that all delegates in it are alive.
\<close>

section \<open>State\<close>

record timespec =
  tv_sec :: int
  tv_nsec :: int

record LocTimerDelegate =
  mClient :: "ptr option"
  mFutureTime :: timespec
  mContainer :: "bool option"

text \<open>\<open>dev_time\<close> and \<open>polled\<close> are the kernel's side: the armed time of the device and whether it is in the
  epoll set.\<close>

record LocTimerContainer =
  mTree :: "ptr heap_tree"
  dev_time :: "timespec option"
  polled :: bool

datatype timer_msg = MsgTimerPush bool ptr | MsgTimerRemove bool ptr | MsgTimerExpire bool

text \<open>\<open>clients\<close>: the \<open>mTimer\<close> member of every live \<open>LocTimer\<close>; \<open>fired\<close>: the calls of \<open>timeOutCallback\<close>.\<close>

record timer_sys =
  delegates :: "LocTimerDelegate heap"
  clients :: "ptr \<rightharpoonup> ptr option"
  conts :: "bool \<Rightarrow> LocTimerContainer"
  msgq :: "timer_msg list"
  fired :: "ptr list"

section \<open>Ranking by time\<close>

text \<open>A C \<open>int\<close> that is assigned a wider value.\<close>

definition c_int :: "int \<Rightarrow> int" where
  "c_int x = sint (word_of_int x :: 32 word)"

definition ranks :: "timespec \<Rightarrow> timespec \<Rightarrow> int" where
  "ranks self timer =
     (let rank = c_int (tv_sec timer - tv_sec self)
      in if 0 = rank then c_int (tv_nsec timer - tv_nsec self) else rank)"

definition time_outRanks :: "timespec \<Rightarrow> timespec \<Rightarrow> bool" where
  "time_outRanks a b \<longleftrightarrow> ranks a b > 0"

definition outRanks :: "LocTimerDelegate heap \<Rightarrow> ptr \<Rightarrow> ptr \<Rightarrow> bool" where
  "outRanks ds a b =
     (case (ds a, ds b) of
        (Some x, Some y) \<Rightarrow> time_outRanks (mFutureTime x) (mFutureTime y)
      | _ \<Rightarrow> False)"

section \<open>Containers\<close>

definition upd_cont :: "bool \<Rightarrow> (LocTimerContainer \<Rightarrow> LocTimerContainer) \<Rightarrow> timer_sys \<Rightarrow> timer_sys" where
  "upd_cont w f s = s\<lparr>conts := (conts s)(w := f (conts s w))\<rparr>"

definition sendMsg :: "timer_msg \<Rightarrow> timer_sys \<Rightarrow> timer_sys" where
  "sendMsg m s = s\<lparr>msgq := msgq s @ [m]\<rparr>"

text \<open>Reading the heap touches delegates; all of them must be alive.\<close>

definition heap_live :: "bool \<Rightarrow> timer_sys \<Rightarrow> unit option" where
  "heap_live w s = (if \<forall>p \<in># mset_heap (mTree (conts s w)). delegates s p \<noteq> None then Some () else None)"

definition getSoonestTimer :: "bool \<Rightarrow> timer_sys \<Rightarrow> ptr option" where
  "getSoonestTimer w s = heap_peek (mTree (conts s w))"

definition updateSoonestTime :: "ptr option \<Rightarrow> bool \<Rightarrow> timer_sys \<Rightarrow> timer_sys option" where
  "updateSoonestTime priorTop w s =
     (let curTop = getSoonestTimer w s
      in if curTop \<noteq> priorTop then
           (case curTop of
              None \<Rightarrow> Some (upd_cont w (\<lambda>c. c\<lparr>polled := False, dev_time := None\<rparr>) s)
            | Some t \<Rightarrow>
                do { d \<leftarrow> deref (delegates s) t;
                     _ \<leftarrow> (case priorTop of None \<Rightarrow> Some () | Some p \<Rightarrow> map_option (\<lambda>_. ()) (deref (delegates s) p));
                     (if (case priorTop of None \<Rightarrow> True | Some p \<Rightarrow> outRanks (delegates s) t p)
                      then Some (upd_cont w (\<lambda>c. c\<lparr>polled := True, dev_time := Some (mFutureTime d)\<rparr>) s)
                      else Some s) })
         else Some s)"

text \<open>\<open>MsgTimerPush::proc\<close>\<close>

definition proc_push :: "bool \<Rightarrow> ptr \<Rightarrow> timer_sys \<Rightarrow> timer_sys option" where
  "proc_push w t s =
     do { _ \<leftarrow> heap_live w s;
          _ \<leftarrow> deref (delegates s) t;
          let priorTop = getSoonestTimer w s;
          let s1 = upd_cont w (\<lambda>c. c\<lparr>mTree := heap_push (outRanks (delegates s)) t (mTree c)\<rparr>) s;
          updateSoonestTime priorTop w s1 }"

text \<open>\<open>MsgTimerRemove::proc\<close>; it ends with \<open>delete mTimer\<close>.\<close>

definition proc_remove :: "bool \<Rightarrow> ptr \<Rightarrow> timer_sys \<Rightarrow> timer_sys option" where
  "proc_remove w t s =
     do { _ \<leftarrow> heap_live w s;
          _ \<leftarrow> deref (delegates s) t;
          let priorTop = getSoonestTimer w s;
          let (removed, tree) = heap_remove (outRanks (delegates s)) t (mTree (conts s w));
          let s1 = upd_cont w (\<lambda>c. c\<lparr>mTree := tree\<rparr>) s;
          s2 \<leftarrow> (if priorTop = removed then updateSoonestTime None w s1 else Some s1);
          Some (s2\<lparr>delegates := free_at (delegates s2) t\<rparr>) }"

section \<open>Clients\<close>

definition destroyLocked :: "ptr \<Rightarrow> timer_sys \<Rightarrow> timer_sys option" where
  "destroyLocked t s =
     do { d \<leftarrow> deref (delegates s) t;
          (case mContainer d of
             None \<Rightarrow> Some (s\<lparr>delegates := (delegates s)(t \<mapsto> d\<lparr>mClient := None\<rparr>)\<rparr>)
           | Some w \<Rightarrow> Some (sendMsg (MsgTimerRemove w t)
               (s\<lparr>delegates := (delegates s)(t \<mapsto> d\<lparr>mClient := None, mContainer := None\<rparr>)\<rparr>))) }"

definition stop :: "ptr \<Rightarrow> timer_sys \<Rightarrow> (bool \<times> timer_sys) option" where
  "stop c s =
     do { mTimer \<leftarrow> clients s c;
          (case mTimer of
             None \<Rightarrow> Some (False, s)
           | Some t \<Rightarrow> map_option (Pair True) (destroyLocked t (s\<lparr>clients := (clients s)(c \<mapsto> None)\<rparr>))) }"

definition future_time :: "timespec \<Rightarrow> u32 \<Rightarrow> timespec" where
  "future_time now timeOutInMs =
     (let sec = tv_sec now + uint timeOutInMs div 1000;
          nsec = tv_nsec now + (uint timeOutInMs mod 1000) * 1000000
      in if nsec \<ge> 1000000000
         then \<lparr>tv_sec = sec + nsec div 1000000000, tv_nsec = nsec mod 1000000000\<rparr>
         else \<lparr>tv_sec = sec, tv_nsec = nsec\<rparr>)"

text \<open>\<open>have_cont\<close>: \<open>LocTimerContainer::get\<close> found or made the container; \<open>p\<close>: what \<open>new\<close> returns.\<close>

definition start :: "ptr \<Rightarrow> u32 \<Rightarrow> bool \<Rightarrow> timespec \<Rightarrow> bool \<Rightarrow> ptr \<Rightarrow> timer_sys \<Rightarrow> (bool \<times> timer_sys) option" where
  "start c timeOutInMs wakeOnExpire now have_cont p s =
     do { mTimer \<leftarrow> clients s c;
          (if mTimer = None \<and> have_cont then
             Some (True, sendMsg (MsgTimerPush wakeOnExpire p)
               (s\<lparr>clients := (clients s)(c \<mapsto> Some p),
                  delegates := (delegates s)(p \<mapsto> \<lparr>mClient = Some c, mFutureTime = future_time now timeOutInMs,
                                                  mContainer = Some wakeOnExpire\<rparr>)\<rparr>))
           else Some (False, s)) }"

definition new_client :: "ptr \<Rightarrow> timer_sys \<Rightarrow> timer_sys" where
  "new_client c s = s\<lparr>clients := (clients s)(c \<mapsto> None)\<rparr>"

definition delete_client :: "ptr \<Rightarrow> timer_sys \<Rightarrow> timer_sys option" where
  "delete_client c s = do { (_, s1) \<leftarrow> stop c s; Some (s1\<lparr>clients := (clients s1)(c := None)\<rparr>) }"

section \<open>Expiry\<close>

text \<open>\<open>LocTimerDelegate::expire\<close>\<close>

definition delegate_expire :: "ptr \<Rightarrow> timer_sys \<Rightarrow> timer_sys option" where
  "delegate_expire t s =
     do { d \<leftarrow> deref (delegates s) t;
          (case mClient d of
             None \<Rightarrow> Some s
           | Some c \<Rightarrow> do { (ok, s1) \<leftarrow> stop c s; Some (if ok then s1\<lparr>fired := fired s1 @ [c]\<rparr> else s1) }) }"

definition popIfOutRanks :: "timespec \<Rightarrow> bool \<Rightarrow> timer_sys \<Rightarrow> (ptr option \<times> timer_sys) option" where
  "popIfOutRanks now w s =
     (case getSoonestTimer w s of
        None \<Rightarrow> Some (None, s)
      | Some t \<Rightarrow>
          do { _ \<leftarrow> heap_live w s;
               d \<leftarrow> deref (delegates s) t;
               (if \<not> time_outRanks now (mFutureTime d)
                then (let (x, tree) = heap_pop (outRanks (delegates s)) (mTree (conts s w))
                      in Some (x, upd_cont w (\<lambda>c. c\<lparr>mTree := tree\<rparr>) s))
                else Some (None, s)) })"

partial_function (option) expire_loop ::
  "timespec \<Rightarrow> bool \<Rightarrow> ptr option \<Rightarrow> timer_sys \<Rightarrow> timer_sys option" where
  "expire_loop now w timer s =
     (case timer of
        None \<Rightarrow> Some s
      | Some t \<Rightarrow>
          do { s1 \<leftarrow> delegate_expire t s;
               (timer', s2) \<leftarrow> popIfOutRanks now w s1;
               expire_loop now w timer' s2 })"

text \<open>\<open>MsgTimerExpire::proc\<close>\<close>

definition proc_expire :: "timespec \<Rightarrow> bool \<Rightarrow> timer_sys \<Rightarrow> timer_sys option" where
  "proc_expire now w s =
     do { _ \<leftarrow> heap_live w s;
          let (timer, tree) = heap_pop (outRanks (delegates s)) (mTree (conts s w));
          s1 \<leftarrow> expire_loop now w timer (upd_cont w (\<lambda>c. c\<lparr>mTree := tree\<rparr>) s);
          updateSoonestTime None w s1 }"

text \<open>\<open>LocTimerContainer::expire\<close>, called by the poll thread when the kernel timer fires.\<close>

definition poll_expire :: "bool \<Rightarrow> timer_sys \<Rightarrow> timer_sys" where
  "poll_expire w s = sendMsg (MsgTimerExpire w) (upd_cont w (\<lambda>c. c\<lparr>dev_time := None, polled := False\<rparr>) s)"

text \<open>The message thread takes the oldest message.\<close>

definition proc_msg :: "timespec \<Rightarrow> timer_sys \<Rightarrow> timer_sys option" where
  "proc_msg now s =
     (case msgq s of
        [] \<Rightarrow> Some s
      | m # ms \<Rightarrow>
          (let s1 = s\<lparr>msgq := ms\<rparr>
           in case m of
                MsgTimerPush w t \<Rightarrow> proc_push w t s1
              | MsgTimerRemove w t \<Rightarrow> proc_remove w t s1
              | MsgTimerExpire w \<Rightarrow> proc_expire now w s1))"

section \<open>Time\<close>

definition valid_time :: "timespec \<Rightarrow> bool" where
  "valid_time t \<longleftrightarrow> 0 \<le> tv_sec t \<and> tv_sec t < 2 ^ 31 \<and> 0 \<le> tv_nsec t \<and> tv_nsec t < 1000000000"

definition earlier :: "timespec \<Rightarrow> timespec \<Rightarrow> bool" where
  "earlier a b \<longleftrightarrow> tv_sec a < tv_sec b \<or> tv_sec a = tv_sec b \<and> tv_nsec a < tv_nsec b"

lemma c_int_id: "- (2 ^ 31) \<le> x \<Longrightarrow> x < 2 ^ 31 \<Longrightarrow> c_int x = x"
  unfolding c_int_def by (simp add: int_word_sint)

lemma time_outRanks_earlier: "valid_time a \<Longrightarrow> valid_time b \<Longrightarrow> time_outRanks a b \<longleftrightarrow> earlier a b"
  by (auto simp: time_outRanks_def ranks_def earlier_def valid_time_def Let_def c_int_id)

definition timer_valid :: "LocTimerDelegate heap \<Rightarrow> ptr \<Rightarrow> bool" where
  "timer_valid ds p = (case ds p of None \<Rightarrow> False | Some d \<Rightarrow> valid_time (mFutureTime d))"

interpretation tmr: ranking "timer_valid ds" "outRanks ds" for ds
  by unfold_locales
    (auto simp: timer_valid_def outRanks_def time_outRanks_earlier earlier_def split: option.splits)

section \<open>The life of a delegate\<close>

text \<open>The messages about one delegate that are still in the queue, oldest first.\<close>

datatype life_ev = PushE bool | RemE bool

fun evs :: "timer_msg list \<Rightarrow> ptr \<Rightarrow> life_ev list" where
  "evs [] p = []"
| "evs (MsgTimerPush w t # ms) p = (if t = p then PushE w # evs ms p else evs ms p)"
| "evs (MsgTimerRemove w t # ms) p = (if t = p then RemE w # evs ms p else evs ms p)"
| "evs (MsgTimerExpire w # ms) p = evs ms p"

lemma evs_append [simp]: "evs (xs @ ys) p = evs xs p @ evs ys p"
  by (induction xs p rule: evs.induct) auto

abbreviation timers_in :: "timer_sys \<Rightarrow> bool \<Rightarrow> ptr multiset" where
  "timers_in s w \<equiv> mset_heap (mTree (conts s w))"

text \<open>
  The states of an address: its delegate, the messages about it, and how often each container holds it.
  A freed address is nowhere; a delegate waits to be inserted, is cancelled before that, ticks in its
  container, is stopped with its removal on the way, or is done (taken out) with its removal on the way.
\<close>

inductive life_state :: "LocTimerDelegate option \<Rightarrow> life_ev list \<Rightarrow> (bool \<Rightarrow> nat) \<Rightarrow> bool" where
  Freed: "life_state None [] (\<lambda>_. 0)"
| Waiting: "valid_time (mFutureTime d) \<Longrightarrow> mContainer d = Some w \<Longrightarrow> mClient d \<noteq> None \<Longrightarrow>
    life_state (Some d) [PushE w] (\<lambda>_. 0)"
| Cancelled: "valid_time (mFutureTime d) \<Longrightarrow> mContainer d = None \<Longrightarrow> mClient d = None \<Longrightarrow>
    life_state (Some d) [PushE w, RemE w] (\<lambda>_. 0)"
| Ticking: "valid_time (mFutureTime d) \<Longrightarrow> mContainer d = Some w \<Longrightarrow> mClient d \<noteq> None \<Longrightarrow>
    life_state (Some d) [] ((\<lambda>_. 0)(w := Suc 0))"
| Stopped: "valid_time (mFutureTime d) \<Longrightarrow> mContainer d = None \<Longrightarrow> mClient d = None \<Longrightarrow>
    life_state (Some d) [RemE w] ((\<lambda>_. 0)(w := Suc 0))"
| Done: "valid_time (mFutureTime d) \<Longrightarrow> mContainer d = None \<Longrightarrow> mClient d = None \<Longrightarrow>
    life_state (Some d) [RemE w] (\<lambda>_. 0)"

inductive_cases life_PushE: "life_state x (PushE w # es) h"
inductive_cases life_RemE: "life_state x (RemE w # es) h"
inductive_cases life_SomeE: "life_state (Some d) es h"
inductive_cases life_NoneE: "life_state None es h"

lemma life_push:
  "life_state x (PushE w # es) h \<Longrightarrow>
     (\<exists>d. x = Some d \<and> valid_time (mFutureTime d)) \<and> h = (\<lambda>_. 0) \<and> life_state x es (h(w := Suc 0))"
  by (erule life_PushE) (auto intro: life_state.intros)

lemma life_remove:
  "life_state x (RemE w # es) h \<Longrightarrow>
     (\<exists>d. x = Some d \<and> mClient d = None) \<and> es = [] \<and> h w \<le> 1 \<and> h(w := 0) = (\<lambda>_. 0)"
  by (erule life_RemE) auto

lemma life_destroy:
  "life_state (Some d) es h \<Longrightarrow> mContainer d = Some w \<Longrightarrow>
     life_state (Some (d\<lparr>mClient := None, mContainer := None\<rparr>)) (es @ [RemE w]) h"
  by (erule life_SomeE) (auto intro: life_state.intros)

text \<open>Taking a delegate out of its container and then destroying it, if that has not been done before.\<close>

lemma life_pop:
  assumes "life_state (Some d) es h" and "h w = Suc 0"
  shows "(mContainer d = Some w \<and> mClient d \<noteq> None \<and>
      life_state (Some (d\<lparr>mClient := None, mContainer := None\<rparr>)) (es @ [RemE w]) (h(w := 0))) \<or>
    (mClient d = None \<and> life_state (Some d) es (h(w := 0)))"
proof -
  have z: "(\<lambda>_. 0 :: nat)(w := 0) = (\<lambda>_. 0)" by auto
  show ?thesis using assms
    by (elim life_SomeE) (auto split: if_splits simp: z intro!: life_state.Done)
qed

lemma life_live: "life_state x es h \<Longrightarrow> h v = Suc 0 \<Longrightarrow> x \<noteq> None"
  by (auto elim: life_state.cases)

lemma life_client: "life_state (Some d) es h \<Longrightarrow> mClient d = Some c \<Longrightarrow> \<exists>w. mContainer d = Some w"
  by (erule life_SomeE) auto

definition life_ok :: "timer_sys \<Rightarrow> ptr \<Rightarrow> bool" where
  "life_ok s p = life_state (delegates s p) (evs (msgq s) p) (\<lambda>w. count (timers_in s w) p)"

definition links_ok :: "timer_sys \<Rightarrow> bool" where
  "links_ok s \<longleftrightarrow>
     (\<forall>c t. clients s c = Some (Some t) \<longleftrightarrow> (\<exists>d. delegates s t = Some d \<and> mClient d = Some c))"

text \<open>A container with timers in it is armed for the soonest one, unless its expiry is being handled.\<close>

definition armed_ok :: "timer_sys \<Rightarrow> bool \<Rightarrow> bool" where
  "armed_ok s w \<longleftrightarrow>
     (case getSoonestTimer w s of
        None \<Rightarrow> True
      | Some t \<Rightarrow> MsgTimerExpire w \<in> set (msgq s) \<or>
          polled (conts s w) \<and> dev_time (conts s w) = map_option mFutureTime (delegates s t))"

definition heaps_ok :: "timer_sys \<Rightarrow> bool" where
  "heaps_ok s \<longleftrightarrow> (\<forall>w. heap_ok (timer_valid (delegates s)) (outRanks (delegates s)) (mTree (conts s w)))"

definition timers_ok :: "timer_sys \<Rightarrow> bool" where
  "timers_ok s \<longleftrightarrow> heaps_ok s \<and> (\<forall>p. life_ok s p) \<and> links_ok s \<and> (\<forall>w. armed_ok s w)"

text \<open>Heaps only look at the times of the delegates in them.\<close>

lemma checkNodes_cong:
  "(\<And>a b. a \<in># mset_heap t \<Longrightarrow> b \<in># mset_heap t \<Longrightarrow> R' a b = R a b) \<Longrightarrow> checkNodes R' t = checkNodes R t"
proof (induction t)
  case (LocHeapNode n l d r)
  have "R' (mData s) d = R (mData s) d" if "s = l \<or> s = r" "s \<noteq> NoNode" for s
    using LocHeapNode.prems [of "mData s" d] that tmr.top_in [of s] by auto
  with LocHeapNode show ?case by auto
qed simp

lemma heap_ok_store:
  assumes "\<And>p. p \<in># mset_heap t \<Longrightarrow> map_option mFutureTime (ds' p) = map_option mFutureTime (ds p)"
  shows "heap_ok (timer_valid ds') (outRanks ds') t = heap_ok (timer_valid ds) (outRanks ds) t"
proof -
  have "timer_valid ds' p = timer_valid ds p" if "p \<in># mset_heap t" for p
    using assms [OF that] by (auto simp: timer_valid_def split: option.splits)
  moreover have "outRanks ds' a b = outRanks ds a b" if "a \<in># mset_heap t" "b \<in># mset_heap t" for a b
    using assms [OF that(1)] assms [OF that(2)] by (auto simp: outRanks_def split: option.splits)
  ultimately show ?thesis
    unfolding heap_ok_def using checkNodes_cong [of t "outRanks ds'" "outRanks ds"] by auto
qed

lemma timer_valid_live: "timer_valid ds p \<Longrightarrow> ds p \<noteq> None"
  by (auto simp: timer_valid_def split: option.splits)

lemma heap_live_ok: "heaps_ok s \<Longrightarrow> heap_live w s = Some ()"
  using timer_valid_live by (auto simp: heap_live_def heaps_ok_def heap_ok_def)

lemma peek_live:
  assumes "heaps_ok s" and "getSoonestTimer w s = Some t"
  shows "t \<in># timers_in s w" and "\<exists>d. delegates s t = Some d \<and> valid_time (mFutureTime d)"
proof -
  have "heap_ok (timer_valid (delegates s)) (outRanks (delegates s)) (mTree (conts s w))"
    using assms(1) by (simp add: heaps_ok_def)
  from tmr.heap_peek_ok [OF this] assms(2) show "t \<in># timers_in s w" by (simp add: getSoonestTimer_def)
  then show "\<exists>d. delegates s t = Some d \<and> valid_time (mFutureTime d)"
    using assms(1) by (force simp: heaps_ok_def heap_ok_def timer_valid_def split: option.splits)
qed

lemma upd_cont_simps [simp]:
  "delegates (upd_cont w f s) = delegates s" "clients (upd_cont w f s) = clients s"
  "msgq (upd_cont w f s) = msgq s" "fired (upd_cont w f s) = fired s"
  "conts (upd_cont w f s) v = (if v = w then f (conts s w) else conts s v)"
  by (auto simp: upd_cont_def)

lemma sendMsg_simps [simp]:
  "delegates (sendMsg m s) = delegates s" "clients (sendMsg m s) = clients s" "conts (sendMsg m s) = conts s"
  "fired (sendMsg m s) = fired s" "msgq (sendMsg m s) = msgq s @ [m]"
  by (auto simp: sendMsg_def)

lemma updateSoonestTime_frame:
  assumes "updateSoonestTime pt w s = Some s'"
  shows "delegates s' = delegates s" "clients s' = clients s" "msgq s' = msgq s" "fired s' = fired s"
    "mTree (conts s' v) = mTree (conts s v)" "v \<noteq> w \<Longrightarrow> conts s' v = conts s v"
  using assms
  by (auto simp: updateSoonestTime_def Let_def split: if_splits option.splits Option.bind_splits)

lemma life_ok_cong:
  "delegates s' p = delegates s p \<Longrightarrow> evs (msgq s') p = evs (msgq s) p \<Longrightarrow>
     (\<And>w. count (timers_in s' w) p = count (timers_in s w) p) \<Longrightarrow> life_ok s' p = life_ok s p"
  by (simp add: life_ok_def)

lemma links_ok_cong:
  "delegates s' = delegates s \<Longrightarrow> clients s' = clients s \<Longrightarrow> links_ok s' = links_ok s"
  by (simp add: links_ok_def)

lemma heaps_okD: "heaps_ok s \<Longrightarrow> heap_ok (timer_valid (delegates s)) (outRanks (delegates s)) (mTree (conts s w))"
  by (simp add: heaps_ok_def)

text \<open>After \<open>updateSoonestTime\<close> with a null argument the container is armed.\<close>

lemma armed_after_update:
  assumes "heaps_ok s"
  shows "\<exists>s'. updateSoonestTime None w s = Some s' \<and> armed_ok s' w"
proof (cases "getSoonestTimer w s")
  case None
  then show ?thesis by (simp add: updateSoonestTime_def armed_ok_def)
next
  case (Some t)
  then obtain d where "delegates s t = Some d" using peek_live [OF assms Some] by blast
  with Some show ?thesis
    by (simp add: updateSoonestTime_def deref_def armed_ok_def) (simp add: getSoonestTimer_def)
qed

lemma armed_ok_cong:
  assumes "conts s' w = conts s w" and "MsgTimerExpire w \<in> set (msgq s) \<Longrightarrow> MsgTimerExpire w \<in> set (msgq s')"
    and "\<And>t. t \<in># timers_in s w \<Longrightarrow> map_option mFutureTime (delegates s' t) = map_option mFutureTime (delegates s t)"
    and "armed_ok s w"
  shows "armed_ok s' w"
proof (cases "getSoonestTimer w s")
  case None
  then show ?thesis using assms(1) by (simp add: armed_ok_def getSoonestTimer_def)
next
  case (Some t)
  then have "t \<in># timers_in s w"
    by (auto simp: getSoonestTimer_def heap_peek_def split: heap_tree.splits)
  from assms(3) [OF this] Some assms(1,2,4) show ?thesis by (auto simp: armed_ok_def getSoonestTimer_def)
qed

text \<open>A step that ends by re-arming container \<open>w\<close>.\<close>

lemma timers_ok_rearmed:
  assumes "heaps_ok s" and "\<And>p. life_ok s p" and "links_ok s" and "\<And>v. v \<noteq> w \<Longrightarrow> armed_ok s v"
    and "delegates s' = delegates s" "clients s' = clients s" "msgq s' = msgq s"
    and "\<And>v. mTree (conts s' v) = mTree (conts s v)" and "\<And>v. v \<noteq> w \<Longrightarrow> conts s' v = conts s v"
    and "armed_ok s' w"
  shows "timers_ok s'"
proof -
  have "heaps_ok s'" using assms(1,5,8) by (simp add: heaps_ok_def)
  moreover have "life_ok s' p" for p
    using assms(2) [of p] life_ok_cong [of s' p s] assms(5,7,8) by simp
  moreover have "links_ok s'" using assms(3,5,6) by (simp add: links_ok_def)
  moreover have "armed_ok s' v" for v
  proof (cases "v = w")
    case False
    from assms(9) [OF False] show ?thesis
      by (rule armed_ok_cong [OF _ _ _ assms(4) [OF False]]) (simp_all add: assms(5,7))
  qed (simp add: assms(10))
  ultimately show ?thesis by (simp add: timers_ok_def)
qed

lemma heap_peek_push:
  "heap_peek (heap_push R x t) =
     Some (case heap_peek t of None \<Rightarrow> x | Some y \<Rightarrow> if R x y then x else y)"
  by (cases t) (auto simp: heap_peek_def heap_push_def new_node_def Let_def split: heap_tree.splits prod.splits)

lemma proc_push_ok:
  assumes ok: "timers_ok s" and q: "msgq s = MsgTimerPush w t # ms"
  shows "\<exists>s'. proc_push w t (s\<lparr>msgq := ms\<rparr>) = Some s' \<and> timers_ok s'"
proof -
  let ?R = "outRanks (delegates s)" and ?v = "timer_valid (delegates s)"
  let ?c = "\<lambda>c. c\<lparr>mTree := heap_push ?R t (mTree c)\<rparr>"
  define s1 where "s1 = upd_cont w ?c (s\<lparr>msgq := ms\<rparr>)"
  from ok have h: "heaps_ok s" and life: "\<And>p. life_ok s p" and links: "links_ok s" and arm: "\<And>v. armed_ok s v"
    by (auto simp: timers_ok_def)
  from life_push [of "delegates s t" w "evs ms t" "\<lambda>v. count (timers_in s v) t"] life [of t] q
  obtain d where d: "delegates s t = Some d" "valid_time (mFutureTime d)"
    and lt: "(\<lambda>v. count (timers_in s v) t) = (\<lambda>_. 0)"
      "life_state (delegates s t) (evs ms t) ((\<lambda>v. count (timers_in s v) t)(w := Suc 0))"
    by (auto simp: life_ok_def)
  have v: "?v t" using d by (simp add: timer_valid_def)
  note P = tmr.heap_push_ok [OF heaps_okD [OF h] v]
  have h1: "heaps_ok s1" using h P by (auto simp: heaps_ok_def s1_def)
  have cnt: "count (timers_in s1 v) p = count (timers_in s v) p + (if p = t \<and> v = w then 1 else 0)" for v p
    using P [of w] by (simp add: s1_def)
  have ds: "delegates s1 = delegates s" "clients s1 = clients s" "msgq s1 = ms" by (simp_all add: s1_def)
  have life1: "life_ok s1 p" for p
  proof (cases "p = t")
    case False
    with cnt q show ?thesis using life [of p] life_ok_cong [of s1 p s] by (simp add: ds)
  next
    case True
    have "(\<lambda>v. count (timers_in s1 v) t) = (\<lambda>v. count (timers_in s v) t)(w := Suc 0)"
      using cnt lt(1) by (auto simp: fun_eq_iff)
    with lt(2) True show ?thesis by (simp add: life_ok_def ds)
  qed
  have arm1: "armed_ok s1 v" if "v \<noteq> w" for v
    by (rule armed_ok_cong [OF _ _ _ arm [of v]]) (use that q in \<open>auto simp: s1_def\<close>)
  have top: "getSoonestTimer w s1 = Some (case getSoonestTimer w s of None \<Rightarrow> t | Some p \<Rightarrow> if ?R t p then t else p)"
    by (simp add: getSoonestTimer_def s1_def heap_peek_push)
  have pl: "proc_push w t (s\<lparr>msgq := ms\<rparr>) = updateSoonestTime (getSoonestTimer w s) w s1"
    using d heap_live_ok [of "s\<lparr>msgq := ms\<rparr>" w] h
    by (simp add: proc_push_def deref_def s1_def heaps_ok_def getSoonestTimer_def)
  show ?thesis
  proof (cases "getSoonestTimer w s1 = getSoonestTimer w s")
    case True
    then have "proc_push w t (s\<lparr>msgq := ms\<rparr>) = Some s1" using pl by (simp add: updateSoonestTime_def)
    moreover have "armed_ok s1 w"
      using arm [of w] True q by (auto simp: armed_ok_def ds s1_def split: option.splits)
    then have "armed_ok s1 v" for v using arm1 by (cases "v = w") auto
    ultimately show ?thesis
      using h1 life1 links links_ok_cong [of s1 s] by (auto simp: timers_ok_def ds)
  next
    case False
    let ?s2 = "upd_cont w (\<lambda>c. c\<lparr>polled := True, dev_time := Some (mFutureTime d)\<rparr>) s1"
    from False top have t: "getSoonestTimer w s1 = Some t" "\<forall>p. getSoonestTimer w s = Some p \<longrightarrow> ?R t p"
      by (auto split: option.splits if_splits)
    have "proc_push w t (s\<lparr>msgq := ms\<rparr>) = Some ?s2"
      unfolding pl using False t d peek_live(2) [OF h, of w]
      by (auto simp: updateSoonestTime_def Let_def deref_def ds split: option.splits)
    moreover have "timers_ok ?s2"
      by (rule timers_ok_rearmed [OF h1 life1, of w])
        (use arm1 links t(1) d in \<open>auto simp: links_ok_def ds armed_ok_def getSoonestTimer_def\<close>)
    ultimately show ?thesis by blast
  qed
qed

lemma heap_peek_remove:
  "heap_peek t = Some d \<Longrightarrow> x \<noteq> d \<Longrightarrow> heap_peek (snd (heap_remove R x t)) = Some d"
  by (cases t) (auto simp: heap_peek_def heap_remove_def split: option.splits)

text \<open>Freeing a delegate that is in no container and in no message.\<close>

lemma timers_ok_free:
  assumes ok: "heaps_ok s" "links_ok s" "\<And>w. armed_ok s w" "\<And>p. p \<noteq> t \<Longrightarrow> life_ok s p"
    and gone: "\<And>w. count (timers_in s w) t = 0" "evs (msgq s) t = []"
    and d: "delegates s t = Some d" "mClient d = None"
  shows "timers_ok (s\<lparr>delegates := free_at (delegates s) t\<rparr>)"
proof -
  let ?s = "s\<lparr>delegates := free_at (delegates s) t\<rparr>"
  have ne: "p \<noteq> t" if "p \<in># timers_in s w" for p w
    using that gone(1) [of w] by (metis count_eq_zero_iff)
  have "heaps_ok ?s"
    unfolding heaps_ok_def
  proof
    fix w
    from heap_ok_store [of "mTree (conts s w)" "free_at (delegates s) t" "delegates s"] ok(1) ne
    show "heap_ok (timer_valid (delegates ?s)) (outRanks (delegates ?s)) (mTree (conts ?s w))"
      by (simp add: heaps_ok_def free_at_def)
  qed
  moreover have "life_ok ?s p" for p
  proof (cases "p = t")
    case True
    then show ?thesis using gone by (simp add: life_ok_def free_at_def Freed)
  next
    case False
    with ok(4) life_ok_cong [of ?s p s] show ?thesis by (simp add: free_at_def)
  qed
  moreover have "links_ok ?s" using ok(2) d by (auto simp: links_ok_def free_at_def)
  moreover have "armed_ok ?s w" for w
    by (rule armed_ok_cong [OF _ _ _ ok(3)]) (use ne in \<open>auto simp: free_at_def\<close>)
  ultimately show ?thesis by (simp add: timers_ok_def)
qed

lemma proc_remove_ok:
  assumes ok: "timers_ok s" and q: "msgq s = MsgTimerRemove w t # ms"
  shows "\<exists>s'. proc_remove w t (s\<lparr>msgq := ms\<rparr>) = Some s' \<and> timers_ok s'"
proof -
  let ?R = "outRanks (delegates s)"
  from ok have h: "heaps_ok s" and life: "\<And>p. life_ok s p" and links: "links_ok s" and arm: "\<And>v. armed_ok s v"
    by (auto simp: timers_ok_def)
  from life_remove [of "delegates s t" w "evs ms t" "\<lambda>v. count (timers_in s v) t"] life [of t] q
  obtain d where d: "delegates s t = Some d" "mClient d = None" and e: "evs ms t = []"
    and c: "count (timers_in s w) t \<le> 1" "(\<lambda>v. count (timers_in s v) t)(w := 0) = (\<lambda>_. 0)"
    by (auto simp: life_ok_def)
  obtain removed tree where rm: "heap_remove ?R t (mTree (conts s w)) = (removed, tree)"
    by (cases "heap_remove ?R t (mTree (conts s w))")
  note R = tmr.heap_remove_ok [OF heaps_okD [OF h] rm]
  define s1 where "s1 = upd_cont w (\<lambda>c. c\<lparr>mTree := tree\<rparr>) (s\<lparr>msgq := ms\<rparr>)"
  have ds: "delegates s1 = delegates s" "clients s1 = clients s" "msgq s1 = ms" by (simp_all add: s1_def)
  have h1: "heaps_ok s1" using h R(1) by (auto simp: heaps_ok_def s1_def)
  have cnt: "count (timers_in s1 v) p = count (timers_in s v) p - (if p = t \<and> v = w then 1 else 0)" for v p
    using R(2) by (simp add: s1_def)
  have gone: "count (timers_in s1 v) t = 0" for v
    using fun_cong [OF c(2), of v] c(1) cnt [of v t] by (cases "v = w") auto
  have life1: "life_ok s1 p" if "p \<noteq> t" for p
    using life [of p] life_ok_cong [of s1 p s] cnt q that by (simp add: ds)
  have links1: "links_ok s1" using links by (simp add: links_ok_def ds)
  have arm1: "armed_ok s1 v" if "v \<noteq> w" for v
    by (rule armed_ok_cong [OF _ _ _ arm [of v]]) (use that q in \<open>auto simp: s1_def\<close>)
  have eq: "proc_remove w t (s\<lparr>msgq := ms\<rparr>) =
      (if getSoonestTimer w s = removed then updateSoonestTime None w s1 else Some s1)
        \<bind> (\<lambda>s2. Some (s2\<lparr>delegates := free_at (delegates s2) t\<rparr>))"
    using d heap_live_ok [of "s\<lparr>msgq := ms\<rparr>" w] h rm
    by (simp add: proc_remove_def deref_def s1_def heaps_ok_def getSoonestTimer_def)
  have "\<exists>s2. (if getSoonestTimer w s = removed then updateSoonestTime None w s1 else Some s1) = Some s2 \<and>
      timers_ok (s2\<lparr>delegates := free_at (delegates s2) t\<rparr>)"
  proof (cases "getSoonestTimer w s = removed")
    case True
    from armed_after_update [OF h1, of w] obtain s2 where
      s2: "updateSoonestTime None w s1 = Some s2" "armed_ok s2 w" by blast
    note F = updateSoonestTime_frame [OF s2(1)]
    have "timers_ok (s2\<lparr>delegates := free_at (delegates s2) t\<rparr>)"
    proof (rule timers_ok_free)
      show "heaps_ok s2" using h1 F(1,5) by (simp add: heaps_ok_def)
      show "links_ok s2" using links1 F(1,2) by (simp add: links_ok_def)
      show "life_ok s2 p" if "p \<noteq> t" for p
        using life1 [OF that] life_ok_cong [of s2 p s1] F(1,3,5) by simp
      show "armed_ok s2 v" for v
      proof (cases "v = w")
        case False
        from F(6) [OF False] show ?thesis
          by (rule armed_ok_cong [OF _ _ _ arm1 [OF False]]) (simp_all add: F(1,3))
      qed (simp add: s2(2))
    qed (use d gone e F in \<open>simp_all add: ds\<close>)
    with True s2(1) show ?thesis by simp
  next
    case False
    have top: "getSoonestTimer w s1 = getSoonestTimer w s"
    proof (cases "removed = None")
      case True
      with rm have "tree = mTree (conts s w)" by (auto simp: heap_remove_def split: option.splits prod.splits)
      then show ?thesis by (simp add: getSoonestTimer_def s1_def)
    next
      case removed: False
      with R(3) have "removed = Some t" by (auto split: if_splits)
      with False R(3) obtain p where p: "getSoonestTimer w s = Some p" "t \<noteq> p"
        by (cases "getSoonestTimer w s") (auto simp: getSoonestTimer_def heap_peek_def split: heap_tree.splits if_splits)
      with heap_peek_remove [of "mTree (conts s w)" p t ?R] rm show ?thesis
        by (simp add: getSoonestTimer_def s1_def)
    qed
    have "armed_ok s1 w" using arm [of w] q top by (auto simp: armed_ok_def ds s1_def split: option.splits)
    then have "armed_ok s1 v" for v using arm1 by (cases "v = w") auto
    with timers_ok_free [OF h1 links1 _ life1 gone, of d] d e False show ?thesis by (simp add: ds)
  qed
  with eq show ?thesis by auto
qed

text \<open>The part of the invariant that also holds while an expiry is being handled.\<close>

definition core_ok :: "timer_sys \<Rightarrow> bool" where
  "core_ok s \<longleftrightarrow> heaps_ok s \<and> (\<forall>p. life_ok s p) \<and> links_ok s"

definition same_times :: "timer_sys \<Rightarrow> timer_sys \<Rightarrow> bool" where
  "same_times s s' \<longleftrightarrow> (\<forall>p. map_option mFutureTime (delegates s' p) = map_option mFutureTime (delegates s p))"

definition stopped :: "ptr \<Rightarrow> ptr \<Rightarrow> LocTimerDelegate \<Rightarrow> bool \<Rightarrow> timer_sys \<Rightarrow> timer_sys" where
  "stopped c t d w s = sendMsg (MsgTimerRemove w t) (s\<lparr>clients := (clients s)(c \<mapsto> None),
     delegates := (delegates s)(t \<mapsto> d\<lparr>mClient := None, mContainer := None\<rparr>)\<rparr>)"

lemma stop_eq:
  "clients s c = Some (Some t) \<Longrightarrow> delegates s t = Some d \<Longrightarrow> mContainer d = Some w \<Longrightarrow>
     stop c s = Some (True, stopped c t d w s)"
  by (simp add: stop_def destroyLocked_def deref_def stopped_def)

lemma stopped_simps [simp]:
  "conts (stopped c t d w s) = conts s" "fired (stopped c t d w s) = fired s"
  "msgq (stopped c t d w s) = msgq s @ [MsgTimerRemove w t]"
  "clients (stopped c t d w s) = (clients s)(c \<mapsto> None)"
  by (simp_all add: stopped_def)

lemma same_times_stopped: "delegates s t = Some d \<Longrightarrow> same_times s (stopped c t d w s)"
  by (simp add: same_times_def stopped_def)

lemma heaps_ok_same_times:
  "same_times s s' \<Longrightarrow> (\<And>w. mTree (conts s' w) = mTree (conts s w)) \<Longrightarrow> heaps_ok s' = heaps_ok s"
  using heap_ok_store [of "mTree (conts s w)" "delegates s'" "delegates s" for w]
  by (simp add: heaps_ok_def same_times_def)

lemma armed_ok_same_times:
  assumes "same_times s s'" and "conts s' w = conts s w" and "set (msgq s) \<subseteq> set (msgq s')" and "armed_ok s w"
  shows "armed_ok s' w"
  using assms by (intro armed_ok_cong [OF assms(2) _ _ assms(4)]) (auto simp: same_times_def)

lemma links_okD:
  "links_ok s \<Longrightarrow> delegates s t = Some d \<Longrightarrow> mClient d = Some c \<Longrightarrow> clients s c = Some (Some t)"
  "links_ok s \<Longrightarrow> clients s c = Some (Some t) \<Longrightarrow> \<exists>d. delegates s t = Some d \<and> mClient d = Some c"
  by (auto simp: links_ok_def)

lemma links_stopped:
  assumes "links_ok s" and "clients s c = Some (Some t)" and "delegates s t = Some d" "mClient d = Some c"
  shows "links_ok (stopped c t d w s)"
  unfolding links_ok_def
proof (intro allI)
  fix c' t'
  have L: "clients s c' = Some (Some t') \<longleftrightarrow> (\<exists>d. delegates s t' = Some d \<and> mClient d = Some c')"
    using assms(1) by (simp add: links_ok_def)
  show "clients (stopped c t d w s) c' = Some (Some t') \<longleftrightarrow>
      (\<exists>d'. delegates (stopped c t d w s) t' = Some d' \<and> mClient d' = Some c')"
  proof (cases "t' = t")
    case True
    with L assms(2-4) show ?thesis by (auto simp: stopped_def)
  next
    case False
    with L assms(2) show ?thesis by (auto simp: stopped_def)
  qed
qed

lemma core_stopped:
  assumes "heaps_ok s" and "links_ok s" and "\<And>p. p \<noteq> t \<Longrightarrow> life_ok s p"
    and "clients s c = Some (Some t)" and "delegates s t = Some d" "mClient d = Some c"
    and "life_state (Some (d\<lparr>mClient := None, mContainer := None\<rparr>)) (evs (msgq s) t @ [RemE w])
           (\<lambda>v. count (timers_in s v) t)"
  shows "core_ok (stopped c t d w s)"
proof -
  have "life_ok (stopped c t d w s) p" for p
  proof (cases "p = t")
    case True
    with assms(7) show ?thesis by (simp add: life_ok_def stopped_def)
  next
    case False
    with assms(3) [OF False] show ?thesis by (simp add: life_ok_def stopped_def)
  qed
  with links_stopped [OF assms(2,4-6)] heaps_ok_same_times [OF same_times_stopped [OF assms(5)]] assms(1)
  show ?thesis by (simp add: core_ok_def)
qed

lemma stop_ok:
  assumes "timers_ok s" and "clients s c = Some m"
  shows "\<exists>b s'. stop c s = Some (b, s') \<and> timers_ok s' \<and> clients s' = (clients s)(c \<mapsto> None)"
proof (cases m)
  case None
  with assms show ?thesis by (auto simp: stop_def fun_upd_idem)
next
  case (Some t)
  from assms(1) have ok: "heaps_ok s" "\<And>p. life_ok s p" "links_ok s" "\<And>v. armed_ok s v"
    by (auto simp: timers_ok_def)
  from links_okD(2) [OF ok(3)] assms(2) Some obtain d where d: "delegates s t = Some d" "mClient d = Some c"
    by blast
  from ok(2) [of t] d have l: "life_state (Some d) (evs (msgq s) t) (\<lambda>v. count (timers_in s v) t)"
    by (simp add: life_ok_def)
  from life_client [OF l d(2)] obtain w where w: "mContainer d = Some w" by blast
  have "core_ok (stopped c t d w s)"
    using core_stopped [OF ok(1,3,2) _ d life_destroy [OF l w]] assms(2) Some by simp
  moreover have "armed_ok (stopped c t d w s) v" for v
    by (rule armed_ok_same_times [OF same_times_stopped [OF d(1)] _ _ ok(4)]) auto
  ultimately show ?thesis
    using stop_eq [OF _ d(1) w] assms(2) Some by (auto simp: timers_ok_def core_ok_def)
qed

lemma start_ok:
  assumes ok: "timers_ok s" and c: "clients s c = Some m" and p: "delegates s p = None"
    and t: "valid_time (future_time now ms)"
  shows "\<exists>b s'. start c ms w now have_cont p s = Some (b, s') \<and> timers_ok s' \<and> (b \<longleftrightarrow> m = None \<and> have_cont)"
proof (cases "m = None \<and> have_cont")
  case False
  with ok c show ?thesis by (auto simp: start_def)
next
  case True
  let ?d = "\<lparr>mClient = Some c, mFutureTime = future_time now ms, mContainer = Some w\<rparr>"
  let ?s = "sendMsg (MsgTimerPush w p) (s\<lparr>clients := (clients s)(c \<mapsto> Some p), delegates := (delegates s)(p \<mapsto> ?d)\<rparr>)"
  from ok have h: "heaps_ok s" and life: "\<And>p. life_ok s p" and links: "links_ok s" and arm: "\<And>v. armed_ok s v"
    by (auto simp: timers_ok_def)
  from life [of p] p have lp: "life_state None (evs (msgq s) p) (\<lambda>v. count (timers_in s v) p)"
    by (simp add: life_ok_def)
  then have nowhere: "evs (msgq s) p = []" "(\<lambda>v. count (timers_in s v) p) = (\<lambda>_. 0)"
    by (auto elim: life_NoneE)
  have ne: "q \<noteq> p" if "q \<in># timers_in s v" for q v
    using that fun_cong [OF nowhere(2), of v] by (metis count_eq_zero_iff)
  have "heaps_ok ?s"
    unfolding heaps_ok_def
  proof
    fix v
    from heap_ok_store [of "mTree (conts s v)" "(delegates s)(p \<mapsto> ?d)" "delegates s"] heaps_okD [OF h] ne
    show "heap_ok (timer_valid (delegates ?s)) (outRanks (delegates ?s)) (mTree (conts ?s v))" by simp
  qed
  moreover have "life_ok ?s q" for q
  proof (cases "q = p")
    case True
    have "life_state (Some ?d) [PushE w] (\<lambda>_. 0)" using t by (intro Waiting) auto
    with True nowhere show ?thesis by (simp add: life_ok_def)
  next
    case False
    with life [of q] show ?thesis by (simp add: life_ok_def)
  qed
  moreover have "links_ok ?s"
    unfolding links_ok_def
  proof (intro allI)
    fix c' t'
    have "clients s c' = Some (Some t') \<longleftrightarrow> (\<exists>d. delegates s t' = Some d \<and> mClient d = Some c')"
      using links by (simp add: links_ok_def)
    moreover have "\<nexists>d. delegates s t' = Some d \<and> mClient d = Some c"
      using links_okD(1) [OF links, of t' _ c] c True by auto
    ultimately show "clients ?s c' = Some (Some t') \<longleftrightarrow> (\<exists>d. delegates ?s t' = Some d \<and> mClient d = Some c')"
      using p by auto
  qed
  moreover have "armed_ok ?s v" for v
    by (rule armed_ok_cong [OF _ _ _ arm]) (use ne in auto)
  ultimately show ?thesis using True c by (auto simp: start_def timers_ok_def)
qed

lemma timers_ok_clients:
  assumes "timers_ok s" and "clients s c = None \<or> clients s c = Some None"
    and "x = None \<or> x = Some None"
  shows "timers_ok (s\<lparr>clients := (clients s)(c := x)\<rparr>)"
proof -
  let ?s = "s\<lparr>clients := (clients s)(c := x)\<rparr>"
  have "heaps_ok ?s \<and> (\<forall>p. life_ok ?s p) \<and> (\<forall>w. armed_ok ?s w)"
    using assms(1)
    by (simp add: timers_ok_def heaps_ok_def life_ok_def armed_ok_def getSoonestTimer_def cong: option.case_cong)
  moreover have links: "links_ok s" using assms(1) by (simp add: timers_ok_def)
  then have "mClient d \<noteq> Some c" if "delegates s t = Some d" for t d
    using links_okD(1) [OF links that, of c] assms(2) by auto
  with links assms(3) have "links_ok ?s" by (auto simp: links_ok_def)
  ultimately show ?thesis by (simp add: timers_ok_def)
qed

lemma poll_expire_ok:
  assumes "timers_ok s" shows "timers_ok (poll_expire w s)"
proof -
  have "armed_ok (poll_expire w s) v" for v
  proof (cases "v = w")
    case True
    then show ?thesis by (simp add: armed_ok_def poll_expire_def split: option.split)
  next
    case False
    then have "conts (poll_expire w s) v = conts s v" by (simp add: poll_expire_def)
    then show ?thesis
      by (rule armed_ok_cong) (use assms in \<open>auto simp: poll_expire_def timers_ok_def\<close>)
  qed
  moreover have "heaps_ok (poll_expire w s)" using assms by (simp add: timers_ok_def heaps_ok_def poll_expire_def)
  moreover have "life_ok (poll_expire w s) p" for p
    using assms life_ok_cong [of "poll_expire w s" p s] by (simp add: timers_ok_def poll_expire_def)
  moreover have "links_ok (poll_expire w s)" using assms by (simp add: timers_ok_def links_ok_def poll_expire_def)
  ultimately show ?thesis by (simp add: timers_ok_def)
qed

section \<open>Handling an expiry\<close>

text \<open>The situation in the loop when \<open>t\<close> has been taken out of container \<open>w\<close> and not been handled yet.\<close>

definition popped :: "bool \<Rightarrow> ptr \<Rightarrow> timer_sys \<Rightarrow> bool" where
  "popped w t s \<longleftrightarrow> heaps_ok s \<and> links_ok s \<and> (\<forall>p. p \<noteq> t \<longrightarrow> life_ok s p) \<and> count (timers_in s w) t = 0 \<and>
     life_state (delegates s t) (evs (msgq s) t) ((\<lambda>v. count (timers_in s v) t)(w := Suc 0))"

lemma delegate_expire_ok:
  assumes "popped w t s"
  shows "\<exists>s'. delegate_expire t s = Some s' \<and> core_ok s' \<and> same_times s s' \<and> conts s' = conts s \<and>
    set (msgq s) \<subseteq> set (msgq s')"
proof -
  let ?h = "\<lambda>v. count (timers_in s v) t"
  from assms have ok: "heaps_ok s" "links_ok s" "\<And>p. p \<noteq> t \<Longrightarrow> life_ok s p" "?h w = 0"
    and l: "life_state (delegates s t) (evs (msgq s) t) (?h(w := Suc 0))" by (auto simp: popped_def)
  have "delegates s t \<noteq> None"
    using l by (auto elim!: life_state.cases dest: fun_cong [of _ _ w])
  then obtain d where d: "delegates s t = Some d" by blast
  have h: "(?h(w := Suc 0))(w := 0) = ?h" using ok(4) by (simp add: fun_upd_idem)
  from life_pop [of d "evs (msgq s) t" "?h(w := Suc 0)" w] l d
  consider "mContainer d = Some w" "mClient d \<noteq> None"
      "life_state (Some (d\<lparr>mClient := None, mContainer := None\<rparr>)) (evs (msgq s) t @ [RemE w]) ?h"
    | "mClient d = None" "life_state (Some d) (evs (msgq s) t) ?h"
    unfolding h by auto
  then show ?thesis
  proof cases
    case 1
    then obtain c where c: "mClient d = Some c" by blast
    have cl: "clients s c = Some (Some t)" by (rule links_okD(1) [OF ok(2) d c])
    have "delegate_expire t s = Some ((stopped c t d w s)\<lparr>fired := fired s @ [c]\<rparr>)"
      using stop_eq [OF cl d 1(1)] d c by (simp add: delegate_expire_def deref_def)
    moreover have "core_ok ((stopped c t d w s)\<lparr>fired := fired s @ [c]\<rparr>)"
      using core_stopped [OF ok(1-3) cl d c 1(3)]
      by (simp add: core_ok_def heaps_ok_def life_ok_def links_ok_def)
    ultimately show ?thesis using same_times_stopped [OF d, of c w] by (simp add: same_times_def) blast
  next
    case 2
    have "life_ok s p" for p using ok(3) 2(2) d by (cases "p = t") (auto simp: life_ok_def)
    with ok 2 d show ?thesis by (auto simp: delegate_expire_def deref_def core_ok_def same_times_def)
  qed
qed

definition later :: "timer_sys \<Rightarrow> timespec \<Rightarrow> ptr \<Rightarrow> bool" where
  "later s now p = (case delegates s p of None \<Rightarrow> False | Some d \<Rightarrow> earlier now (mFutureTime d))"

lemma later_same_times: "same_times s s' \<Longrightarrow> later s' now p = later s now p"
  unfolding same_times_def later_def by (drule spec [of _ p]) (auto split: option.splits)

lemma life_count: "life_state x es h \<Longrightarrow> h v = 0 \<or> h v = Suc 0 \<and> h = (\<lambda>_. 0)(v := Suc 0)"
  by (erule life_state.cases) auto

lemma pop_popped:
  assumes "core_ok s" and "heap_pop (outRanks (delegates s)) (mTree (conts s w)) = (Some t, tree)"
  shows "popped w t (upd_cont w (\<lambda>c. c\<lparr>mTree := tree\<rparr>) s)" and "timers_in s w = add_mset t (mset_heap tree)"
    and "getSoonestTimer w s = Some t"
proof -
  let ?s = "upd_cont w (\<lambda>c. c\<lparr>mTree := tree\<rparr>) s" and ?h = "\<lambda>v. count (timers_in s v) t"
  from assms(1) have h: "heaps_ok s" and life: "\<And>p. life_ok s p" and links: "links_ok s" by (auto simp: core_ok_def)
  note P = tmr.heap_pop_ok [OF heaps_okD [OF h] assms(2)]
  show m: "timers_in s w = add_mset t (mset_heap tree)" using P(3) by simp
  show "getSoonestTimer w s = Some t" using P(1) by (simp add: getSoonestTimer_def)
  have "life_state (delegates s t) (evs (msgq s) t) ?h" using life [of t] by (simp add: life_ok_def)
  with life_count [OF this, of w] m have l: "life_state (delegates s t) (evs (msgq s) t) ((\<lambda>_. 0)(w := Suc 0))"
    and c: "?h = (\<lambda>_. 0)(w := Suc 0)" by auto
  have z: "count (mset_heap tree) t = 0" using m fun_cong [OF c, of w] by simp
  have "count (timers_in ?s v) t = 0" for v using fun_cong [OF c, of v] z by (cases "v = w") auto
  then have "(\<lambda>v. count (timers_in ?s v) t)(w := Suc 0) = (\<lambda>_. 0)(w := Suc 0)" by presburger
  moreover have "life_ok ?s p" if "p \<noteq> t" for p
    using life [of p] life_ok_cong [of ?s p s] that m by simp
  moreover have "heaps_ok ?s" using h P(2) by (auto simp: heaps_ok_def)
  moreover have "links_ok ?s" using links by (simp add: links_ok_def)
  ultimately show "popped w t ?s" using l z by (simp add: popped_def)
qed

lemma popIfOutRanks_ok:
  assumes "core_ok s" and "valid_time now"
  shows "popIfOutRanks now w s = Some (None, s) \<and> (\<forall>p \<in># timers_in s w. later s now p) \<or>
    (\<exists>t tree. popIfOutRanks now w s = Some (Some t, upd_cont w (\<lambda>c. c\<lparr>mTree := tree\<rparr>) s) \<and>
       popped w t (upd_cont w (\<lambda>c. c\<lparr>mTree := tree\<rparr>) s) \<and>
       timers_in s w = add_mset t (mset_heap tree) \<and> \<not> later s now t)"
proof (cases "getSoonestTimer w s")
  case None
  then show ?thesis
    by (cases "mTree (conts s w)") (auto simp: popIfOutRanks_def getSoonestTimer_def heap_peek_def)
next
  case (Some t)
  from assms(1) have h: "heaps_ok s" by (simp add: core_ok_def)
  from peek_live [OF h Some] obtain d where d: "delegates s t = Some d" "valid_time (mFutureTime d)" by blast
  obtain x tree where p: "heap_pop (outRanks (delegates s)) (mTree (conts s w)) = (x, tree)"
    by (cases "heap_pop (outRanks (delegates s)) (mTree (conts s w))")
  with tmr.heap_pop_ok(1) [OF heaps_okD [OF h] p] Some have x: "x = Some t" by (simp add: getSoonestTimer_def)
  have eq: "popIfOutRanks now w s = (if \<not> earlier now (mFutureTime d)
      then Some (Some t, upd_cont w (\<lambda>c. c\<lparr>mTree := tree\<rparr>) s) else Some (None, s))"
    using Some heap_live_ok [OF h, of w] d p x time_outRanks_earlier [OF assms(2) d(2)]
    by (simp add: popIfOutRanks_def deref_def)
  show ?thesis
  proof (cases "earlier now (mFutureTime d)")
    case True
    have "later s now q" if "q \<in># timers_in s w" for q
    proof -
      from tmr.heap_peek_ok [OF heaps_okD [OF h]] Some that have "\<not> outRanks (delegates s) q t"
        by (auto simp: getSoonestTimer_def)
      moreover from h that obtain e where e: "delegates s q = Some e" "valid_time (mFutureTime e)"
        by (force simp: heaps_ok_def heap_ok_def timer_valid_def split: option.splits)
      ultimately have "\<not> earlier (mFutureTime e) (mFutureTime d)"
        using d by (simp add: outRanks_def time_outRanks_earlier)
      with True have "earlier now (mFutureTime e)" by (auto simp: earlier_def)
      with e show ?thesis by (simp add: later_def)
    qed
    with True eq show ?thesis by simp
  next
    case False
    then have "\<not> later s now t" using d by (simp add: later_def)
    with False eq pop_popped [OF assms(1)] p x show ?thesis by auto
  qed
qed

text \<open>The loop handles every timer that is due, and ends.\<close>

lemma expire_loop_ok:
  assumes "popped w t s" and "valid_time now"
  shows "\<exists>s'. expire_loop now w (Some t) s = Some s' \<and> core_ok s' \<and> same_times s s' \<and>
    timers_in s' w = filter_mset (later s now) (timers_in s w) \<and>
    (\<forall>v. v \<noteq> w \<longrightarrow> conts s' v = conts s v) \<and> set (msgq s) \<subseteq> set (msgq s')"
  using assms(1)
proof (induction "size (timers_in s w)" arbitrary: s t rule: less_induct)
  case less
  from delegate_expire_ok [OF less.prems] obtain s1 where
    s1: "delegate_expire t s = Some s1" "core_ok s1" "same_times s s1" "conts s1 = conts s"
      "set (msgq s) \<subseteq> set (msgq s1)" by blast
  note lt = later_same_times [OF s1(3)]
  from popIfOutRanks_ok [OF s1(2) assms(2), of w] show ?case
  proof
    assume n: "popIfOutRanks now w s1 = Some (None, s1) \<and> (\<forall>p \<in># timers_in s1 w. later s1 now p)"
    then have "expire_loop now w (Some t) s = Some s1"
      using s1(1) by (subst expire_loop.simps, simp, subst expire_loop.simps, simp)
    moreover have "timers_in s1 w = filter_mset (later s now) (timers_in s w)"
      using n s1(4) lt filter_mset_cong [of "timers_in s w" "timers_in s w" "\<lambda>_. True" "later s now"] by simp
    ultimately show ?thesis using s1 by (intro exI [of _ s1]) simp
  next
    assume "\<exists>t' tree. popIfOutRanks now w s1 = Some (Some t', upd_cont w (\<lambda>c. c\<lparr>mTree := tree\<rparr>) s1) \<and>
       popped w t' (upd_cont w (\<lambda>c. c\<lparr>mTree := tree\<rparr>) s1) \<and>
       timers_in s1 w = add_mset t' (mset_heap tree) \<and> \<not> later s1 now t'"
    then obtain t' tree where
      p: "popIfOutRanks now w s1 = Some (Some t', upd_cont w (\<lambda>c. c\<lparr>mTree := tree\<rparr>) s1)"
        "popped w t' (upd_cont w (\<lambda>c. c\<lparr>mTree := tree\<rparr>) s1)"
        "timers_in s1 w = add_mset t' (mset_heap tree)" "\<not> later s1 now t'" by blast
    let ?s2 = "upd_cont w (\<lambda>c. c\<lparr>mTree := tree\<rparr>) s1"
    have "size (timers_in ?s2 w) < size (timers_in s w)" using p(3) s1(4) by simp
    from less.hyps [OF this p(2)] obtain s' where
      s': "expire_loop now w (Some t') ?s2 = Some s'" "core_ok s'" "same_times ?s2 s'"
        "timers_in s' w = filter_mset (later ?s2 now) (timers_in ?s2 w)"
        "\<forall>v. v \<noteq> w \<longrightarrow> conts s' v = conts ?s2 v" "set (msgq ?s2) \<subseteq> set (msgq s')" by blast
    have "expire_loop now w (Some t) s = Some s'"
      using s1(1) p(1) s'(1) by (subst expire_loop.simps) simp
    moreover have "same_times s s'" using s1(3) s'(3) by (simp add: same_times_def)
    moreover have "later ?s2 now = later s now" using lt by (simp add: later_def fun_eq_iff)
    then have "timers_in s' w = filter_mset (later s now) (timers_in s w)"
      using s'(4) p(3,4) s1(4) lt by simp
    moreover have "\<forall>v. v \<noteq> w \<longrightarrow> conts s' v = conts s v" "set (msgq s) \<subseteq> set (msgq s')"
      using s'(5,6) s1(4,5) by auto
    ultimately show ?thesis using s'(2) by blast
  qed
qed

lemma proc_expire_ok:
  assumes ok: "timers_ok s" and q: "msgq s = MsgTimerExpire w # ms" and now: "valid_time now"
  shows "\<exists>s'. proc_expire now w (s\<lparr>msgq := ms\<rparr>) = Some s' \<and> timers_ok s' \<and>
    timers_in s' w = (case getSoonestTimer w s of None \<Rightarrow> {#}
      | Some t \<Rightarrow> filter_mset (later s now) (timers_in s w - {#t#}))"
proof -
  let ?s = "s\<lparr>msgq := ms\<rparr>"
  obtain x tree where p: "heap_pop (outRanks (delegates s)) (mTree (conts s w)) = (x, tree)"
    by (cases "heap_pop (outRanks (delegates s)) (mTree (conts s w))")
  from ok have h: "heaps_ok s" and links: "links_ok s" and arm: "\<And>v. armed_ok s v" by (auto simp: timers_ok_def)
  have core: "core_ok ?s"
    using ok q by (auto simp: timers_ok_def core_ok_def heaps_ok_def links_ok_def life_ok_def)
  have armv: "armed_ok ?s v" if "v \<noteq> w" for v
    by (rule armed_ok_cong [OF _ _ _ arm [of v]]) (use that q in auto)
  note P = tmr.heap_pop_ok [OF heaps_okD [OF h] p]
  let ?s1 = "upd_cont w (\<lambda>c. c\<lparr>mTree := tree\<rparr>) ?s"
  have eq: "proc_expire now w ?s = expire_loop now w x ?s1 \<bind> updateSoonestTime None w"
    using heap_live_ok [of ?s w] h p by (simp add: proc_expire_def heaps_ok_def)
  have "\<exists>s2. expire_loop now w x ?s1 = Some s2 \<and> core_ok s2 \<and> (\<forall>v. v \<noteq> w \<longrightarrow> armed_ok s2 v) \<and>
      timers_in s2 w = (case getSoonestTimer w s of None \<Rightarrow> {#}
        | Some t \<Rightarrow> filter_mset (later s now) (timers_in s w - {#t#}))"
  proof (cases x)
    case None
    with P have "mTree (conts s w) = NoNode" "tree = NoNode" "getSoonestTimer w s = None"
      by (auto simp: getSoonestTimer_def heap_peek_def split: heap_tree.splits)
    moreover from this have "?s1 = ?s" by (simp add: upd_cont_def fun_upd_idem)
    ultimately show ?thesis using None core armv by (subst expire_loop.simps) simp
  next
    case (Some t)
    from pop_popped [of ?s w t tree] core p Some have
      pp: "popped w t ?s1" "timers_in s w = add_mset t (mset_heap tree)" "getSoonestTimer w s = Some t"
      by (auto simp: getSoonestTimer_def)
    from expire_loop_ok [OF pp(1) now] obtain s2 where
      s2: "expire_loop now w (Some t) ?s1 = Some s2" "core_ok s2" "same_times ?s1 s2"
        "timers_in s2 w = filter_mset (later ?s1 now) (timers_in ?s1 w)"
        "\<forall>v. v \<noteq> w \<longrightarrow> conts s2 v = conts ?s1 v" "set (msgq ?s1) \<subseteq> set (msgq s2)" by blast
    have "later ?s1 now = later s now" by (simp add: later_def fun_eq_iff)
    moreover have "armed_ok s2 v" if "v \<noteq> w" for v
      by (rule armed_ok_same_times [OF _ _ _ armv [OF that]])
        (use that s2(3,5,6) in \<open>auto simp: same_times_def\<close>)
    ultimately show ?thesis using s2 pp Some by simp
  qed
  then obtain s2 where s2: "expire_loop now w x ?s1 = Some s2" "heaps_ok s2" "\<And>p. life_ok s2 p" "links_ok s2"
    "\<And>v. v \<noteq> w \<Longrightarrow> armed_ok s2 v" and m: "timers_in s2 w = (case getSoonestTimer w s of None \<Rightarrow> {#}
        | Some t \<Rightarrow> filter_mset (later s now) (timers_in s w - {#t#}))"
    by (auto simp: core_ok_def)
  from armed_after_update [OF s2(2), of w] obtain s' where
    u: "updateSoonestTime None w s2 = Some s'" "armed_ok s' w" by blast
  note F = updateSoonestTime_frame [OF u(1)]
  have "timers_ok s'" by (rule timers_ok_rearmed [OF s2(2-5) F(1-3,5,6) u(2)])
  with eq s2(1) u(1) m F(5) show ?thesis by simp
qed

lemma proc_msg_ok:
  assumes "timers_ok s" and "valid_time now"
  shows "\<exists>s'. proc_msg now s = Some s' \<and> timers_ok s'"
proof (cases "msgq s")
  case Nil
  with assms show ?thesis by (simp add: proc_msg_def)
next
  case (Cons m ms)
  then show ?thesis
    using proc_push_ok [OF assms(1)] proc_remove_ok [OF assms(1)] proc_expire_ok [OF assms(1) _ assms(2)]
    by (cases m) (auto simp: proc_msg_def)
qed

section \<open>The service as one component\<close>

datatype timer_op =
    New_client ptr | Delete_client ptr | Start ptr u32 bool timespec bool ptr | Stop ptr
  | Kernel_expiry bool | Process timespec

fun timer_step :: "timer_sys \<Rightarrow> timer_op \<Rightarrow> timer_sys option" where
  "timer_step s (New_client c) = Some (new_client c s)"
| "timer_step s (Delete_client c) = delete_client c s"
| "timer_step s (Start c ms w now have_cont p) = map_option snd (start c ms w now have_cont p s)"
| "timer_step s (Stop c) = map_option snd (stop c s)"
| "timer_step s (Kernel_expiry w) = Some (poll_expire w s)"
| "timer_step s (Process now) = proc_msg now s"

text \<open>Clients are used while they exist, \<open>new\<close> returns an unused address, the clock is in range.\<close>

fun timer_legal :: "timer_sys \<Rightarrow> timer_op \<Rightarrow> bool" where
  "timer_legal s (New_client c) = (clients s c = None)"
| "timer_legal s (Delete_client c) = (clients s c \<noteq> None)"
| "timer_legal s (Start c ms w now have_cont p) =
     (clients s c \<noteq> None \<and> delegates s p = None \<and> valid_time (future_time now ms))"
| "timer_legal s (Stop c) = (clients s c \<noteq> None)"
| "timer_legal s (Kernel_expiry w) = True"
| "timer_legal s (Process now) = valid_time now"

lemma timer_step_ok:
  assumes "timers_ok s" and "timer_legal s x"
  shows "\<exists>s'. timer_step s x = Some s' \<and> timers_ok s'"
proof (cases x)
  case (New_client c)
  with assms timers_ok_clients [of s c "Some None"] show ?thesis by (simp add: new_client_def)
next
  case (Delete_client c)
  with assms stop_ok [OF assms(1), of c] obtain b s1 where
    s1: "stop c s = Some (b, s1)" "timers_ok s1" "clients s1 = (clients s)(c \<mapsto> None)" by auto
  with timers_ok_clients [of s1 c None] Delete_client show ?thesis by (simp add: delete_client_def)
next
  case (Start c ms w now hc p)
  with assms start_ok [OF assms(1), of c _ p now ms w hc] show ?thesis by auto
next
  case (Stop c)
  with assms stop_ok [OF assms(1), of c] show ?thesis by auto
next
  case (Kernel_expiry w)
  with assms poll_expire_ok show ?thesis by simp
next
  case (Process now)
  with assms proc_msg_ok show ?thesis by simp
qed

interpretation tmsys: safe_component timer_step timers_ok timer_legal
  using timer_step_ok by unfold_locales fastforce+

section \<open>Properties\<close>

text \<open>
  C30. The heap of timers is a priority queue on the multiset of its contents, as long as times are in
  range: \<open>push\<close> adds one timer; \<open>pop\<close> takes out one that no other timer precedes, and nothing only from an
  empty heap; \<open>remove\<close> by address finds a timer exactly when it is in the heap, whatever subtrees the rank
  comparison prunes; all three keep the ordering and the subtree sizes that \<open>checkNodes\<close> tests.
\<close>

theorem timer_heap_contract:
  assumes "heap_ok (timer_valid ds) (outRanks ds) t" and "timer_valid ds x"
  shows "heap_ok (timer_valid ds) (outRanks ds) (heap_push (outRanks ds) x t) \<and>
      mset_heap (heap_push (outRanks ds) x t) = add_mset x (mset_heap t) \<and>
    (case heap_pop (outRanks ds) t of
       (None, t') \<Rightarrow> mset_heap t = {#}
     | (Some y, t') \<Rightarrow> heap_ok (timer_valid ds) (outRanks ds) t' \<and> mset_heap t = add_mset y (mset_heap t') \<and>
         (\<forall>z \<in># mset_heap t. \<not> outRanks ds z y)) \<and>
    (case heap_remove (outRanks ds) x t of
       (r, t') \<Rightarrow> heap_ok (timer_valid ds) (outRanks ds) t' \<and> mset_heap t' = mset_heap t - {#x#} \<and>
         r = (if x \<in># mset_heap t then Some x else None))"
proof -
  obtain y t1 where p: "heap_pop (outRanks ds) t = (y, t1)" by (cases "heap_pop (outRanks ds) t")
  obtain r t2 where m: "heap_remove (outRanks ds) x t = (r, t2)" by (cases "heap_remove (outRanks ds) x t")
  from tmr.heap_push_ok [OF assms] tmr.heap_pop_ok [OF assms(1) p] tmr.heap_remove_ok [OF assms(1) m]
    tmr.heap_peek_ok [OF assms(1)] p m
  show ?thesis by (auto split: option.splits)
qed

definition ex_store :: "LocTimerDelegate heap" where
  "ex_store = [1 \<mapsto> \<lparr>mClient = Some 7, mFutureTime = \<lparr>tv_sec = 5, tv_nsec = 0\<rparr>, mContainer = Some True\<rparr>,
               2 \<mapsto> \<lparr>mClient = Some 8, mFutureTime = \<lparr>tv_sec = 3, tv_nsec = 9\<rparr>, mContainer = Some True\<rparr>]"

theorem timer_heap_contract_witness:
  "heap_ok (timer_valid ex_store) (outRanks ex_store) (heap_push (outRanks ex_store) 2 (new_node 1)) \<and>
   mset_heap (heap_push (outRanks ex_store) 2 (new_node 1)) = {#2, 1#}"
proof -
  have "heap_ok (timer_valid ex_store) (outRanks ex_store) (new_node 1)" "timer_valid ex_store 2"
    by (simp_all add: heap_ok_def timer_valid_def ex_store_def valid_time_def)
  from timer_heap_contract [OF this] show ?thesis by simp
qed

text \<open>
  \<open>LocTimer::start\<close> computes the exact expiry time: from a normalised time it adds the requested
  milliseconds, carries full seconds over and leaves the nanoseconds normalised.
\<close>

theorem future_time_exact:
  assumes "0 \<le> tv_nsec now" and "tv_nsec now < 1000000000"
  shows "let t = future_time now ms in
    tv_sec t * 1000000000 + tv_nsec t = tv_sec now * 1000000000 + tv_nsec now + uint ms * 1000000 \<and>
    0 \<le> tv_nsec t \<and> tv_nsec t < 1000000000"
proof -
  let ?n = "tv_nsec now + (uint ms mod 1000) * 1000000"
  have "uint ms mod 1000 * 1000000 + uint ms div 1000 * 1000000000 = uint ms * 1000000"
    using div_mult_mod_eq [of "uint ms" 1000] by linarith
  moreover have "?n = ?n div 1000000000 * 1000000000 + ?n mod 1000000000" by simp
  ultimately show ?thesis
    using assms by (auto simp: future_time_def Let_def algebra_simps)
qed

theorem future_time_exact_witness:
  "let t = future_time \<lparr>tv_sec = 10, tv_nsec = 900000000\<rparr> 1200 in
    tv_sec t * 1000000000 + tv_nsec t = 10 * 1000000000 + 900000000 + uint (1200 :: u32) * 1000000 \<and>
    0 \<le> tv_nsec t \<and> tv_nsec t < 1000000000"
  using future_time_exact [of "\<lparr>tv_sec = 10, tv_nsec = 900000000\<rparr>" 1200] by (simp add: Let_def)

definition timers_init :: timer_sys where
  "timers_init = \<lparr>delegates = Map.empty, clients = Map.empty,
     conts = (\<lambda>_. \<lparr>mTree = NoNode, dev_time = None, polled = False\<rparr>), msgq = [], fired = []\<rparr>"

lemma timers_init_ok: "timers_ok timers_init"
  by (simp add: timers_ok_def timers_init_def heaps_ok_def heap_ok_def life_ok_def Freed links_ok_def
      armed_ok_def getSoonestTimer_def heap_peek_def)

text \<open>
  C21. The timer service is memory safe and loses no timer. Whatever sequence of client calls, kernel
  expiries and message processing happens, no deleted delegate or client is used, every delegate in a
  container is alive and in exactly one container once, and a container that holds timers is armed and
  polled for its soonest one unless its expiry is already in the message queue.
\<close>

theorem timer_service_safe:
  assumes "legal_run timer_step timer_legal timers_init xs"
  shows "\<exists>s. run_steps timer_step timers_init xs = Some s \<and>
    (\<forall>w. \<forall>p \<in># timers_in s w. delegates s p \<noteq> None \<and> count (timers_in s w) p = 1 \<and> p \<notin># timers_in s (\<not> w)) \<and>
    (\<forall>w t. getSoonestTimer w s = Some t \<longrightarrow> MsgTimerExpire w \<in> set (msgq s) \<or>
       polled (conts s w) \<and> dev_time (conts s w) = map_option mFutureTime (delegates s t))"
proof -
  from tmsys.run_defined [OF timers_init_ok assms] obtain s where
    s: "run_steps timer_step timers_init xs = Some s" "timers_ok s" by blast
  have "delegates s p \<noteq> None \<and> count (timers_in s w) p = 1 \<and> p \<notin># timers_in s (\<not> w)" if "p \<in># timers_in s w" for w p
  proof -
    from s(2) have l: "life_state (delegates s p) (evs (msgq s) p) (\<lambda>v. count (timers_in s v) p)"
      by (simp add: timers_ok_def life_ok_def)
    from life_count [OF l, of w] that have c: "(\<lambda>v. count (timers_in s v) p) = (\<lambda>_. 0)(w := Suc 0)"
      by (auto simp: count_eq_zero_iff)
    from fun_cong [OF c, of w] fun_cong [OF c, of "\<not> w"] life_live [OF l, of w] show ?thesis
      by (auto simp: not_in_iff)
  qed
  moreover have "MsgTimerExpire w \<in> set (msgq s) \<or>
       polled (conts s w) \<and> dev_time (conts s w) = map_option mFutureTime (delegates s t)"
    if "getSoonestTimer w s = Some t" for w t
  proof -
    have "armed_ok s w" using s(2) by (simp add: timers_ok_def)
    with that show ?thesis by (simp add: armed_ok_def)
  qed
  ultimately show ?thesis using s(1) by blast
qed

theorem timer_service_safe_witness:
  "\<exists>s. run_steps timer_step timers_init [New_client 1, Start 1 500 True \<lparr>tv_sec = 2, tv_nsec = 0\<rparr> True 9] = Some s \<and>
    (\<forall>w. \<forall>p \<in># timers_in s w. delegates s p \<noteq> None \<and> count (timers_in s w) p = 1 \<and> p \<notin># timers_in s (\<not> w)) \<and>
    (\<forall>w t. getSoonestTimer w s = Some t \<longrightarrow> MsgTimerExpire w \<in> set (msgq s) \<or>
       polled (conts s w) \<and> dev_time (conts s w) = map_option mFutureTime (delegates s t))"
  by (rule timer_service_safe)
    (simp add: timers_init_def new_client_def start_def future_time_def valid_time_def Let_def)

text \<open>
  C31. Handling an expiry. Processing an expiry message at time \<open>now\<close> takes the soonest timer out of the
  container in any case, due or not, then every other timer that is due, and leaves exactly the remaining
  timers that are later than \<open>now\<close>; the loop ends and the container is armed for what is left.
\<close>

theorem proc_expire_takes_due:
  assumes "timers_ok s" and "msgq s = MsgTimerExpire w # ms" and "valid_time now"
    and "getSoonestTimer w s = Some t"
  shows "\<exists>s'. proc_msg now s = Some s' \<and> timers_ok s' \<and>
    timers_in s' w = filter_mset (later s now) (timers_in s w - {#t#})"
  using proc_expire_ok [OF assms(1-3)] assms(2,4) by (auto simp: proc_msg_def)

text \<open>A container with one alarm of client 1 that expires at 5 s, armed for it.\<close>

definition one_alarm :: "timer_msg list \<Rightarrow> timer_sys" where
  "one_alarm ms = \<lparr>delegates = [9 \<mapsto> \<lparr>mClient = Some 1, mFutureTime = \<lparr>tv_sec = 5, tv_nsec = 0\<rparr>, mContainer = Some True\<rparr>],
     clients = [1 \<mapsto> Some 9],
     conts = (\<lambda>_. \<lparr>mTree = NoNode, dev_time = None, polled = False\<rparr>)
       (True := \<lparr>mTree = new_node 9, dev_time = Some \<lparr>tv_sec = 5, tv_nsec = 0\<rparr>, polled = True\<rparr>),
     msgq = ms, fired = []\<rparr>"

lemma one_alarm_ok: "set ms \<subseteq> {MsgTimerExpire True} \<Longrightarrow> timers_ok (one_alarm ms)"
proof -
  assume ms: "set ms \<subseteq> {MsgTimerExpire True}"
  then have e: "evs ms p = []" for p by (induction ms) auto
  have h: "(\<lambda>w. count (timers_in (one_alarm ms) w) 9) = (\<lambda>_. 0)(True := Suc 0)"
    by (auto simp: one_alarm_def fun_eq_iff)
  have "life_ok (one_alarm ms) p" for p
  proof (cases "p = 9")
    case True
    have "life_state (delegates (one_alarm ms) 9) [] ((\<lambda>_. 0)(True := Suc 0))"
      unfolding one_alarm_def by (simp, rule Ticking) (auto simp: valid_time_def)
    with True e h show ?thesis by (simp add: life_ok_def) (simp add: one_alarm_def)
  next
    case False
    then have "(\<lambda>w. count (timers_in (one_alarm ms) w) p) = (\<lambda>_. 0)" by (auto simp: one_alarm_def fun_eq_iff)
    with False e show ?thesis by (simp add: life_ok_def) (simp add: one_alarm_def Freed)
  qed
  moreover have "heaps_ok (one_alarm ms)"
    by (auto simp: heaps_ok_def heap_ok_def one_alarm_def timer_valid_def valid_time_def)
  moreover have "links_ok (one_alarm ms)" by (auto simp: links_ok_def one_alarm_def split: if_splits)
  moreover have "armed_ok (one_alarm ms) w" for w
    by (cases w) (auto simp: armed_ok_def getSoonestTimer_def heap_peek_def one_alarm_def new_node_def)
  ultimately show ?thesis by (simp add: timers_ok_def)
qed

theorem proc_expire_takes_due_witness:
  "\<exists>s'. proc_msg \<lparr>tv_sec = 1, tv_nsec = 0\<rparr> (one_alarm [MsgTimerExpire True]) = Some s' \<and> timers_ok s' \<and>
     timers_in s' True = {#}"
proof -
  have t: "getSoonestTimer True (one_alarm [MsgTimerExpire True]) = Some 9"
    by (simp add: getSoonestTimer_def one_alarm_def heap_peek_def new_node_def)
  have "timers_in (one_alarm [MsgTimerExpire True]) True - {#9#} = {#}" by (simp add: one_alarm_def)
  with proc_expire_takes_due [OF one_alarm_ok _ _ t, of "[]" "\<lparr>tv_sec = 1, tv_nsec = 0\<rparr>"] show ?thesis
    by (simp add: valid_time_def) (simp add: one_alarm_def)
qed

text \<open>
  Removing the last timer of a container does not disarm it: \<open>MsgTimerRemove\<close> calls
  \<open>updateSoonestTime\<close> with a null argument, which then equals the (null) new top, so that the branch that
  disarms the device and stops polling is skipped.
\<close>

theorem proc_remove_last_stays_armed:
  assumes "delegates s t = Some d" and "mTree (conts s w) = new_node t"
  shows "proc_remove w t s = Some (s\<lparr>conts := (conts s)(w := (conts s w)\<lparr>mTree := NoNode\<rparr>),
           delegates := free_at (delegates s) t\<rparr>)"
  using assms
  by (simp add: proc_remove_def heap_live_def deref_def getSoonestTimer_def heap_peek_def new_node_def
      heap_remove_def updateSoonestTime_def upd_cont_def)

theorem proc_remove_last_stays_armed_witness:
  "\<exists>s'. proc_remove True 9 (one_alarm []) = Some s' \<and> mTree (conts s' True) = NoNode \<and>
     polled (conts s' True) \<and> dev_time (conts s' True) = Some \<lparr>tv_sec = 5, tv_nsec = 0\<rparr>"
proof -
  have "delegates (one_alarm []) 9 = Some \<lparr>mClient = Some 1, mFutureTime = \<lparr>tv_sec = 5, tv_nsec = 0\<rparr>, mContainer = Some True\<rparr>"
    "mTree (conts (one_alarm []) True) = new_node 9" by (simp_all add: one_alarm_def)
  from proc_remove_last_stays_armed [OF this] show ?thesis by (simp add: one_alarm_def)
qed

end
