(* ===== verification/Agps.thy ===== *)
theory Agps
  imports IPA_Prelude
begin

text \<open>
  The AGPS state machines of the GNSS HAL (\<open>gps/gnss/Agps.cpp\<close>): requests of the modem for a data
  connection (ATL) are subscribers of one of three state machines, which ask the framework (or, for
  emergency SUPL, the data services client) for the connection and tell the modem the outcome.

  Subscribers are objects in a store that the state machines' lists point to; the current subscriber of an
  unsubscribe event is one of the list's own objects, so aliasing matters and is modelled. Calls out of
  the component are collected in order in \<open>outs\<close>. \<open>None\<close> is the use of a null or deleted object or of a
  callback that was never registered. \<open>ds\<close> tells the data services machine (class \<open>DSStateMachine\<close>, which
  overrides three methods) from the other two.
\<close>

section \<open>Data\<close>

datatype AgpsState = AGPS_STATE_INVALID | AGPS_STATE_RELEASED | AGPS_STATE_PENDING | AGPS_STATE_ACQUIRED
  | AGPS_STATE_RELEASING

datatype AgpsEvent = AGPS_EVENT_INVALID | AGPS_EVENT_SUBSCRIBE | AGPS_EVENT_UNSUBSCRIBE | AGPS_EVENT_GRANTED
  | AGPS_EVENT_RELEASED | AGPS_EVENT_DENIED

datatype AgpsNotificationType = FOR_ALL_SUBSCRIBERS | FOR_INACTIVE_SUBSCRIBERS | FOR_ACTIVE_SUBSCRIBERS

definition LOC_AGPS_TYPE_INVALID :: int where "LOC_AGPS_TYPE_INVALID = -1"
definition LOC_AGPS_TYPE_SUPL :: int where "LOC_AGPS_TYPE_SUPL = 1"
definition LOC_AGPS_TYPE_WWAN_ANY :: int where "LOC_AGPS_TYPE_WWAN_ANY = 3"
definition LOC_AGPS_TYPE_SUPL_ES :: int where "LOC_AGPS_TYPE_SUPL_ES = 5"
definition AGPS_APN_BEARER_INVALID :: int where "AGPS_APN_BEARER_INVALID = 0"
definition LOC_API_ADAPTER_ERR_UNSUPPORTED :: int where "LOC_API_ADAPTER_ERR_UNSUPPORTED = 2"
definition LOC_API_ADAPTER_ERR_ENGINE_BUSY :: int where "LOC_API_ADAPTER_ERR_ENGINE_BUSY = 6"
definition MAX_START_DATA_CALL_RETRIES :: int where "MAX_START_DATA_CALL_RETRIES = 4"

record AgpsSubscriber =
  mConnHandle :: int
  mWaitForCloseComplete :: bool
  mIsInactive :: bool

record AgpsStateMachine =
  mSubscriberList :: "ptr list"
  mCurrentSubscriber :: "ptr option"
  mState :: AgpsState
  mAgpsType :: int
  mAPN :: "string option"
  mAPNLen :: u32
  mBearer :: int
  mRetries :: int

definition new_sm :: "int \<Rightarrow> AgpsStateMachine" where
  "new_sm ty = \<lparr>mSubscriberList = [], mCurrentSubscriber = None, mState = AGPS_STATE_RELEASED, mAgpsType = ty,
     mAPN = None, mAPNLen = 0, mBearer = AGPS_APN_BEARER_INVALID, mRetries = 0\<rparr>"

text \<open>Calls out of the component.\<close>

datatype agps_out =
    FrameworkStatus bool int
  | AtlOpenStatus int bool "string option" int int
  | AtlCloseStatus int bool
  | DSOpenAndStart | DSStop | DSClose | DSRelease | DSInit bool
  | RetryTimer
  | MsgRequestATL int int

text \<open>The callbacks that may be missing, their results, and the configuration.\<close>

record agps_env =
  ds_init :: "int option"
  ds_open :: "int option"
  ds_stop :: bool
  ds_close :: bool
  ds_release :: bool
  timer_handle :: bool
  agpsCapable :: bool
  use_emergency_pdn :: bool

record agps_ctx =
  subs :: "AgpsSubscriber heap"
  outs :: "agps_out list"

type_synonym sm_ctx = "AgpsStateMachine \<times> agps_ctx"

definition emit :: "agps_out \<Rightarrow> agps_ctx \<Rightarrow> agps_ctx" where
  "emit x c = c\<lparr>outs := outs c @ [x]\<rparr>"

section \<open>Subscribers\<close>

fun deleteSubscriber_loop :: "ptr \<Rightarrow> ptr list \<Rightarrow> AgpsSubscriber heap \<Rightarrow> (ptr list \<times> AgpsSubscriber heap) option" where
  "deleteSubscriber_loop del [] h = Some ([], h)"
| "deleteSubscriber_loop del (p # ps) h =
     do { s \<leftarrow> deref h p;
          d \<leftarrow> deref h del;
          (if mConnHandle s = mConnHandle d
           then deleteSubscriber_loop del ps (free_at h p)
           else do { (ps', h') \<leftarrow> deleteSubscriber_loop del ps h; Some (p # ps', h') }) }"

definition deleteSubscriber :: "ptr \<Rightarrow> sm_ctx \<Rightarrow> sm_ctx option" where
  "deleteSubscriber del mc =
     (let (m, c) = mc in
      do { (ps, h) \<leftarrow> deleteSubscriber_loop del (mSubscriberList m) (subs c);
           Some (m\<lparr>mSubscriberList := ps\<rparr>, c\<lparr>subs := h\<rparr>) })"

fun any_handle :: "int \<Rightarrow> ptr list \<Rightarrow> AgpsSubscriber heap \<Rightarrow> bool option" where
  "any_handle ch [] h = Some False"
| "any_handle ch (p # ps) h =
     do { s \<leftarrow> deref h p; if mConnHandle s = ch then Some True else any_handle ch ps h }"

text \<open>\<open>nw\<close>: the address that \<open>clone\<close> gets from \<open>new\<close>.\<close>

definition addSubscriber :: "ptr \<Rightarrow> ptr \<Rightarrow> sm_ctx \<Rightarrow> sm_ctx option" where
  "addSubscriber nw add mc =
     (let (m, c) = mc in
      do { a \<leftarrow> deref (subs c) add;
           present \<leftarrow> any_handle (mConnHandle a) (mSubscriberList m) (subs c);
           (if present then Some (m, c)
            else Some (m\<lparr>mSubscriberList := mSubscriberList m @ [nw]\<rparr>, c\<lparr>subs := (subs c)(nw \<mapsto> a)\<rparr>)) })"

fun anyActiveSubscribers_loop :: "ptr list \<Rightarrow> AgpsSubscriber heap \<Rightarrow> bool option" where
  "anyActiveSubscribers_loop [] h = Some False"
| "anyActiveSubscribers_loop (p # ps) h =
     do { s \<leftarrow> deref h p; if \<not> mIsInactive s then Some True else anyActiveSubscribers_loop ps h }"

definition anyActiveSubscribers :: "sm_ctx \<Rightarrow> bool option" where
  "anyActiveSubscribers mc = anyActiveSubscribers_loop (mSubscriberList (fst mc)) (subs (snd mc))"

fun getSubscriber_loop :: "int \<Rightarrow> ptr list \<Rightarrow> AgpsSubscriber heap \<Rightarrow> ptr option option" where
  "getSubscriber_loop connHandle [] h = Some None"
| "getSubscriber_loop connHandle (p # ps) h =
     do { s \<leftarrow> deref h p; if mConnHandle s = connHandle then Some (Some p) else getSubscriber_loop connHandle ps h }"

definition getSubscriber :: "int \<Rightarrow> AgpsStateMachine \<Rightarrow> agps_ctx \<Rightarrow> ptr option option" where
  "getSubscriber connHandle m c = getSubscriber_loop connHandle (mSubscriberList m) (subs c)"

fun getFirstSubscriber_loop :: "bool \<Rightarrow> ptr list \<Rightarrow> AgpsSubscriber heap \<Rightarrow> ptr option option" where
  "getFirstSubscriber_loop isInactive [] h = Some None"
| "getFirstSubscriber_loop isInactive (p # ps) h =
     do { s \<leftarrow> deref h p; if mIsInactive s = isInactive then Some (Some p) else getFirstSubscriber_loop isInactive ps h }"

definition getFirstSubscriber :: "bool \<Rightarrow> sm_ctx \<Rightarrow> ptr option option" where
  "getFirstSubscriber isInactive mc = getFirstSubscriber_loop isInactive (mSubscriberList (fst mc)) (subs (snd mc))"

text \<open>\<open>delete\<close> of an object whose address is not allocated is an error.\<close>

definition delete_sub :: "ptr \<Rightarrow> agps_ctx \<Rightarrow> agps_ctx option" where
  "delete_sub p c = do { _ \<leftarrow> deref (subs c) p; Some (c\<lparr>subs := free_at (subs c) p\<rparr>) }"

fun dropAllSubscribers_loop :: "ptr list \<Rightarrow> agps_ctx \<Rightarrow> agps_ctx option" where
  "dropAllSubscribers_loop [] c = Some c"
| "dropAllSubscribers_loop (p # ps) c = do { c' \<leftarrow> delete_sub p c; dropAllSubscribers_loop ps c' }"

definition dropAllSubscribers :: "sm_ctx \<Rightarrow> sm_ctx option" where
  "dropAllSubscribers mc =
     (let (m, c) = mc in
      do { c' \<leftarrow> dropAllSubscribers_loop (mSubscriberList m) c; Some (m\<lparr>mSubscriberList := []\<rparr>, c') })"

text \<open>\<open>buf\<close>: the bytes readable at \<open>apn\<close>. The copy needs \<open>len\<close> of them and \<open>len + 1\<close> bytes, which must not wrap.\<close>

definition setAPN :: "string option \<Rightarrow> u32 \<Rightarrow> AgpsStateMachine \<Rightarrow> AgpsStateMachine option" where
  "setAPN buf len m =
     (let m1 = (if buf = None \<or> len = 0 then m\<lparr>mAPN := None, mAPNLen := 0\<rparr> else m)
      in case buf of
           None \<Rightarrow> Some m1
         | Some bs \<Rightarrow> if unat len \<le> length bs \<and> len + 1 \<noteq> 0
                      then Some (m1\<lparr>mAPN := Some (take (unat len) bs), mAPNLen := len\<rparr>) else None)"

definition transitionState :: "AgpsState \<Rightarrow> sm_ctx \<Rightarrow> sm_ctx" where
  "transitionState st mc = (let (m, c) = mc in (m\<lparr>mState := st\<rparr>, c))"

section \<open>Notifications\<close>

definition notify_base :: "AgpsEvent \<Rightarrow> AgpsSubscriber \<Rightarrow> sm_ctx \<Rightarrow> sm_ctx option" where
  "notify_base event s mc =
     (let (m, c) = mc in
      case event of
        AGPS_EVENT_GRANTED \<Rightarrow> Some (m, emit (AtlOpenStatus (mConnHandle s) True (mAPN m) (mBearer m) (mAgpsType m)) c)
      | AGPS_EVENT_DENIED \<Rightarrow> Some (m, emit (AtlOpenStatus (mConnHandle s) False (mAPN m) (mBearer m) (mAgpsType m)) c)
      | AGPS_EVENT_UNSUBSCRIBE \<Rightarrow> Some (m, emit (AtlCloseStatus (mConnHandle s) True) c)
      | AGPS_EVENT_RELEASED \<Rightarrow> Some (m, emit (AtlCloseStatus (mConnHandle s) True) c)
      | _ \<Rightarrow> Some (m, c))"

definition notify_ds :: "agps_env \<Rightarrow> AgpsEvent \<Rightarrow> AgpsSubscriber \<Rightarrow> sm_ctx \<Rightarrow> sm_ctx option" where
  "notify_ds E event s mc =
     (let (m, c) = mc in
      case event of
        AGPS_EVENT_GRANTED \<Rightarrow> Some (m, emit (AtlOpenStatus (mConnHandle s) True None AGPS_APN_BEARER_INVALID LOC_AGPS_TYPE_SUPL_ES) c)
      | AGPS_EVENT_DENIED \<Rightarrow> Some (m\<lparr>mRetries := 0\<rparr>, emit (MsgRequestATL (mConnHandle s) LOC_AGPS_TYPE_SUPL) c)
      | AGPS_EVENT_UNSUBSCRIBE \<Rightarrow> Some (m, emit (AtlCloseStatus (mConnHandle s) True) c)
      | AGPS_EVENT_RELEASED \<Rightarrow>
          if ds_close E then Some (m, emit (AtlCloseStatus (mConnHandle s) True) (emit DSClose c)) else None
      | _ \<Rightarrow> Some (m, c))"

definition notifyEventToSubscriber ::
  "agps_env \<Rightarrow> bool \<Rightarrow> AgpsEvent \<Rightarrow> ptr \<Rightarrow> bool \<Rightarrow> sm_ctx \<Rightarrow> sm_ctx option" where
  "notifyEventToSubscriber E ds event p del mc =
     do { s \<leftarrow> deref (subs (snd mc)) p;
          mc1 \<leftarrow> (if ds then notify_ds E event s mc else notify_base event s mc);
          (if del then deleteSubscriber p mc1 else Some mc1) }"

definition wanted :: "AgpsNotificationType \<Rightarrow> AgpsSubscriber \<Rightarrow> bool" where
  "wanted ty s \<longleftrightarrow> ty = FOR_ALL_SUBSCRIBERS \<or> (ty = FOR_INACTIVE_SUBSCRIBERS \<and> mIsInactive s) \<or>
     (ty = FOR_ACTIVE_SUBSCRIBERS \<and> \<not> mIsInactive s)"

text \<open>The loop with its iterator: \<open>kept\<close> is the part of the list before it, in reverse.\<close>

fun notifyAll_loop ::
  "agps_env \<Rightarrow> bool \<Rightarrow> AgpsEvent \<Rightarrow> bool \<Rightarrow> AgpsNotificationType \<Rightarrow> ptr list \<Rightarrow> ptr list \<Rightarrow> sm_ctx \<Rightarrow> sm_ctx option" where
  "notifyAll_loop E ds event del ty kept [] mc = Some ((fst mc)\<lparr>mSubscriberList := rev kept\<rparr>, snd mc)"
| "notifyAll_loop E ds event del ty kept (p # ps) mc =
     do { s \<leftarrow> deref (subs (snd mc)) p;
          (if wanted ty s then
             do { (m, c) \<leftarrow> notifyEventToSubscriber E ds event p False mc;
                  (if del
                   then do { c' \<leftarrow> delete_sub p c; notifyAll_loop E ds event del ty kept ps (m, c') }
                   else notifyAll_loop E ds event del ty (p # kept) ps (m, c)) }
           else notifyAll_loop E ds event del ty (p # kept) ps mc) }"

definition notifyAllSubscribers ::
  "agps_env \<Rightarrow> bool \<Rightarrow> AgpsEvent \<Rightarrow> bool \<Rightarrow> AgpsNotificationType \<Rightarrow> sm_ctx \<Rightarrow> sm_ctx option" where
  "notifyAllSubscribers E ds event del ty mc = notifyAll_loop E ds event del ty [] (mSubscriberList (fst mc)) mc"

section \<open>Data connection\<close>

definition requestOrRelease_base :: "bool \<Rightarrow> sm_ctx \<Rightarrow> (int \<times> sm_ctx) option" where
  "requestOrRelease_base request mc = (let (m, c) = mc in Some (0, m, emit (FrameworkStatus request (mAgpsType m)) c))"

text \<open>What follows a refusal of the data services client (\<open>switch (ret)\<close>).\<close>

definition ds_open_result :: "agps_env \<Rightarrow> int \<Rightarrow> ptr \<Rightarrow> sm_ctx \<Rightarrow> (int \<times> sm_ctx) option" where
  "ds_open_result E ret p mc =
     (let (m, c) = mc in
      if ret = LOC_API_ADAPTER_ERR_ENGINE_BUSY then
        (let m1 = m\<lparr>mRetries := mRetries m + 1\<rparr>
         in if mRetries m1 > MAX_START_DATA_CALL_RETRIES
            then map_option (Pair ret) (notifyEventToSubscriber E True AGPS_EVENT_DENIED p False (m1, c))
            else if timer_handle E then Some (-1, m1, emit RetryTimer c)
            else Some (ret, m1, emit RetryTimer c))
      else if ret = LOC_API_ADAPTER_ERR_UNSUPPORTED
      then map_option (Pair ret) (notifyEventToSubscriber E True AGPS_EVENT_DENIED p False (m, c))
      else Some (ret, m, c))"

definition requestOrRelease_ds :: "agps_env \<Rightarrow> bool \<Rightarrow> sm_ctx \<Rightarrow> (int \<times> sm_ctx) option" where
  "requestOrRelease_ds E request mc =
     (if \<not> request \<and> ds_stop E then Some (0, fst mc, emit DSStop (snd mc))
      else do {
        subscriber \<leftarrow> getFirstSubscriber False mc;
        (case subscriber of
           None \<Rightarrow> Some (-1, mc)
         | Some p \<Rightarrow>
             (case ds_open E of
                None \<Rightarrow> map_option (Pair (-1)) (notifyEventToSubscriber E True AGPS_EVENT_DENIED p False mc)
              | Some ret \<Rightarrow> ds_open_result E ret p (fst mc, emit DSOpenAndStart (snd mc)))) })"

definition requestOrReleaseDataConn :: "agps_env \<Rightarrow> bool \<Rightarrow> bool \<Rightarrow> sm_ctx \<Rightarrow> (int \<times> sm_ctx) option" where
  "requestOrReleaseDataConn E ds request mc =
     (if ds then requestOrRelease_ds E request mc else requestOrRelease_base request mc)"

section \<open>Events\<close>

definition processAgpsEventSubscribe :: "agps_env \<Rightarrow> bool \<Rightarrow> ptr \<Rightarrow> sm_ctx \<Rightarrow> sm_ctx option" where
  "processAgpsEventSubscribe E ds nw mc =
     (case mState (fst mc) of
        AGPS_STATE_RELEASED \<Rightarrow>
          do { cur \<leftarrow> mCurrentSubscriber (fst mc);
               mc1 \<leftarrow> addSubscriber nw cur mc;
               (ret, mc2) \<leftarrow> requestOrReleaseDataConn E ds True mc1;
               Some (if ret = 0 then transitionState AGPS_STATE_PENDING mc2 else mc2) }
      | AGPS_STATE_PENDING \<Rightarrow> do { cur \<leftarrow> mCurrentSubscriber (fst mc); addSubscriber nw cur mc }
      | AGPS_STATE_ACQUIRED \<Rightarrow>
          do { cur \<leftarrow> mCurrentSubscriber (fst mc);
               mc1 \<leftarrow> notifyEventToSubscriber E ds AGPS_EVENT_GRANTED cur False mc;
               addSubscriber nw cur mc1 }
      | AGPS_STATE_RELEASING \<Rightarrow> do { cur \<leftarrow> mCurrentSubscriber (fst mc); addSubscriber nw cur mc }
      | AGPS_STATE_INVALID \<Rightarrow> Some mc)"

text \<open>The part that the branches of \<open>processAgpsEventUnsubscribe\<close> share.\<close>

definition unsubscribe_current :: "agps_env \<Rightarrow> bool \<Rightarrow> sm_ctx \<Rightarrow> sm_ctx option" where
  "unsubscribe_current E ds mc =
     do { cur \<leftarrow> mCurrentSubscriber (fst mc);
          s \<leftarrow> deref (subs (snd mc)) cur;
          (if mWaitForCloseComplete s
           then Some (fst mc, (snd mc)\<lparr>subs := (subs (snd mc))(cur \<mapsto> s\<lparr>mIsInactive := True\<rparr>)\<rparr>)
           else notifyEventToSubscriber E ds AGPS_EVENT_UNSUBSCRIBE cur True mc) }"

definition processAgpsEventUnsubscribe :: "agps_env \<Rightarrow> bool \<Rightarrow> sm_ctx \<Rightarrow> sm_ctx option" where
  "processAgpsEventUnsubscribe E ds mc =
     (case mState (fst mc) of
        AGPS_STATE_RELEASED \<Rightarrow>
          do { cur \<leftarrow> mCurrentSubscriber (fst mc);
               notifyEventToSubscriber E ds AGPS_EVENT_UNSUBSCRIBE cur False mc }
      | AGPS_STATE_RELEASING \<Rightarrow>
          do { mc1 \<leftarrow> unsubscribe_current E ds mc;
               Some (if mSubscriberList (fst mc1) = [] then transitionState AGPS_STATE_RELEASED mc1 else mc1) }
      | AGPS_STATE_INVALID \<Rightarrow> Some mc
      | _ \<Rightarrow>
          do { mc1 \<leftarrow> unsubscribe_current E ds mc;
               (if mSubscriberList (fst mc1) = [] then
                  do { (_, mc2) \<leftarrow> requestOrReleaseDataConn E ds False (transitionState AGPS_STATE_RELEASED mc1);
                       Some mc2 }
                else do {
                  active \<leftarrow> anyActiveSubscribers mc1;
                  (if \<not> active then
                     do { (_, mc2) \<leftarrow> requestOrReleaseDataConn E ds False (transitionState AGPS_STATE_RELEASING mc1);
                          Some mc2 }
                   else Some mc1) }) })"

definition processAgpsEventGranted :: "agps_env \<Rightarrow> bool \<Rightarrow> sm_ctx \<Rightarrow> sm_ctx option" where
  "processAgpsEventGranted E ds mc =
     (case mState (fst mc) of
        AGPS_STATE_PENDING \<Rightarrow>
          notifyAllSubscribers E ds AGPS_EVENT_GRANTED False FOR_ACTIVE_SUBSCRIBERS
            (transitionState AGPS_STATE_ACQUIRED mc)
      | _ \<Rightarrow> Some mc)"

text \<open>The branch for \<open>RELEASING\<close> that \<open>processAgpsEventReleased\<close> and \<open>processAgpsEventDenied\<close> share.\<close>

definition finish_releasing :: "agps_env \<Rightarrow> bool \<Rightarrow> sm_ctx \<Rightarrow> sm_ctx option" where
  "finish_releasing E ds mc =
     do { mc1 \<leftarrow> notifyAllSubscribers E ds AGPS_EVENT_RELEASED True FOR_INACTIVE_SUBSCRIBERS mc;
          active \<leftarrow> anyActiveSubscribers mc1;
          (if active then
             do { (_, mc2) \<leftarrow> requestOrReleaseDataConn E ds True (transitionState AGPS_STATE_PENDING mc1); Some mc2 }
           else Some (transitionState AGPS_STATE_RELEASED mc1)) }"

definition processAgpsEventReleased :: "agps_env \<Rightarrow> bool \<Rightarrow> sm_ctx \<Rightarrow> sm_ctx option" where
  "processAgpsEventReleased E ds mc =
     (case mState (fst mc) of
        AGPS_STATE_ACQUIRED \<Rightarrow>
          notifyAllSubscribers E ds AGPS_EVENT_RELEASED True FOR_ALL_SUBSCRIBERS
            (transitionState AGPS_STATE_RELEASED mc)
      | AGPS_STATE_RELEASING \<Rightarrow> finish_releasing E ds mc
      | _ \<Rightarrow> Some mc)"

definition processAgpsEventDenied :: "agps_env \<Rightarrow> bool \<Rightarrow> sm_ctx \<Rightarrow> sm_ctx option" where
  "processAgpsEventDenied E ds mc =
     (case mState (fst mc) of
        AGPS_STATE_RELEASING \<Rightarrow> finish_releasing E ds mc
      | AGPS_STATE_PENDING \<Rightarrow>
          notifyAllSubscribers E ds AGPS_EVENT_DENIED True FOR_ALL_SUBSCRIBERS
            (transitionState AGPS_STATE_RELEASED mc)
      | _ \<Rightarrow> Some mc)"

definition processAgpsEvent_base :: "agps_env \<Rightarrow> bool \<Rightarrow> ptr \<Rightarrow> AgpsEvent \<Rightarrow> sm_ctx \<Rightarrow> sm_ctx option" where
  "processAgpsEvent_base E ds nw event mc =
     (case event of
        AGPS_EVENT_SUBSCRIBE \<Rightarrow> processAgpsEventSubscribe E ds nw mc
      | AGPS_EVENT_UNSUBSCRIBE \<Rightarrow> processAgpsEventUnsubscribe E ds mc
      | AGPS_EVENT_GRANTED \<Rightarrow> processAgpsEventGranted E ds mc
      | AGPS_EVENT_RELEASED \<Rightarrow> processAgpsEventReleased E ds mc
      | AGPS_EVENT_DENIED \<Rightarrow> processAgpsEventDenied E ds mc
      | AGPS_EVENT_INVALID \<Rightarrow> Some mc)"

definition processAgpsEvent :: "agps_env \<Rightarrow> bool \<Rightarrow> ptr \<Rightarrow> AgpsEvent \<Rightarrow> sm_ctx \<Rightarrow> sm_ctx option" where
  "processAgpsEvent E ds nw event mc =
     processAgpsEvent_base E ds nw
       (if ds \<and> event = AGPS_EVENT_RELEASED \<and> mState (fst mc) = AGPS_STATE_PENDING then AGPS_EVENT_DENIED else event) mc"

text \<open>\<open>delay_callback\<close> and \<open>DSStateMachine::retryCallback\<close>, which runs on the timer thread.\<close>

definition retryCallback :: "sm_ctx \<Rightarrow> sm_ctx option" where
  "retryCallback mc =
     do { subscriber \<leftarrow> getFirstSubscriber False mc;
          (case subscriber of
             None \<Rightarrow> Some mc
           | Some p \<Rightarrow> do { s \<leftarrow> deref (subs (snd mc)) p;
                            Some (fst mc, emit (MsgRequestATL (mConnHandle s) LOC_AGPS_TYPE_SUPL_ES) (snd mc)) }) }"

section \<open>The manager\<close>

record AgpsManager =
  ctx :: agps_ctx
  mAgnssNif :: "AgpsStateMachine option"
  mInternetNif :: "AgpsStateMachine option"
  mDsNif :: "AgpsStateMachine option"

datatype nif = Agnss | Internet | DsN

fun get_nif :: "nif \<Rightarrow> AgpsManager \<Rightarrow> AgpsStateMachine option" where
  "get_nif Agnss a = mAgnssNif a"
| "get_nif Internet a = mInternetNif a"
| "get_nif DsN a = mDsNif a"

fun set_nif :: "nif \<Rightarrow> AgpsStateMachine \<Rightarrow> AgpsManager \<Rightarrow> AgpsManager" where
  "set_nif Agnss m a = a\<lparr>mAgnssNif := Some m\<rparr>"
| "set_nif Internet m a = a\<lparr>mInternetNif := Some m\<rparr>"
| "set_nif DsN m a = a\<lparr>mDsNif := Some m\<rparr>"

text \<open>A method call through one of the three pointers.\<close>

definition on_nif :: "nif \<Rightarrow> (sm_ctx \<Rightarrow> sm_ctx option) \<Rightarrow> AgpsManager \<Rightarrow> AgpsManager option" where
  "on_nif n f a = do { m \<leftarrow> get_nif n a; (m', c') \<leftarrow> f (m, ctx a); Some (set_nif n m' (a\<lparr>ctx := c'\<rparr>)) }"

definition createAgpsStateMachines :: "agps_env \<Rightarrow> AgpsManager \<Rightarrow> AgpsManager" where
  "createAgpsStateMachines E a =
     (let a1 = (if mInternetNif a = None then a\<lparr>mInternetNif := Some (new_sm LOC_AGPS_TYPE_WWAN_ANY)\<rparr> else a)
      in if agpsCapable E then
           (let a2 = (if mAgnssNif a1 = None then a1\<lparr>mAgnssNif := Some (new_sm LOC_AGPS_TYPE_SUPL)\<rparr> else a1)
            in if mDsNif a2 = None \<and> use_emergency_pdn E then
                 (case ds_init E of
                    None \<Rightarrow> a2
                  | Some r \<Rightarrow>
                      (let a3 = a2\<lparr>ctx := emit (DSInit False) (ctx a2)\<rparr>
                       in if r \<noteq> 0 then a3 else a3\<lparr>mDsNif := Some (new_sm LOC_AGPS_TYPE_SUPL_ES)\<rparr>))
               else a2)
         else a1)"

text \<open>Result: which pointer is returned (it may be null), and the manager.\<close>

definition getAgpsStateMachine :: "agps_env \<Rightarrow> int \<Rightarrow> AgpsManager \<Rightarrow> nif \<times> AgpsManager" where
  "getAgpsStateMachine E agpsType a =
     (if agpsType = LOC_AGPS_TYPE_INVALID \<or> agpsType = LOC_AGPS_TYPE_SUPL then (Agnss, a)
      else if agpsType = LOC_AGPS_TYPE_SUPL_ES then
        (if use_emergency_pdn E
         then (DsN, if mDsNif a = None then createAgpsStateMachines E a else a)
         else (Agnss, a))
      else (Internet, a))"

text \<open>\<open>stk\<close>: the address of the local variable \<open>subscriber\<close>, alive during the call.\<close>

definition requestATL :: "agps_env \<Rightarrow> ptr \<Rightarrow> ptr \<Rightarrow> int \<Rightarrow> int \<Rightarrow> AgpsManager \<Rightarrow> AgpsManager option" where
  "requestATL E stk nw connHandle agpsType a =
     (let (n, a1) = getAgpsStateMachine E agpsType a
      in case get_nif n a1 of
           None \<Rightarrow> Some (a1\<lparr>ctx := emit (AtlOpenStatus connHandle False None AGPS_APN_BEARER_INVALID agpsType) (ctx a1)\<rparr>)
         | Some _ \<Rightarrow>
             (let sub = \<lparr>mConnHandle = connHandle, mWaitForCloseComplete = (agpsType = LOC_AGPS_TYPE_SUPL_ES),
                         mIsInactive = False\<rparr>;
                  a2 = a1\<lparr>ctx := (ctx a1)\<lparr>subs := (subs (ctx a1))(stk \<mapsto> sub)\<rparr>\<rparr>
              in do { a3 \<leftarrow> on_nif n (\<lambda>(m, c). processAgpsEvent E (n = DsN) nw AGPS_EVENT_SUBSCRIBE
                                 (m\<lparr>mCurrentSubscriber := Some stk\<rparr>, c)) a2;
                      Some (a3\<lparr>ctx := (ctx a3)\<lparr>subs := free_at (subs (ctx a3)) stk\<rparr>\<rparr>) }))"

definition find_in :: "int \<Rightarrow> AgpsManager \<Rightarrow> nif \<Rightarrow> ptr option option" where
  "find_in connHandle a n =
     (case get_nif n a of None \<Rightarrow> Some None | Some m \<Rightarrow> getSubscriber connHandle m (ctx a))"

fun find_sm :: "int \<Rightarrow> AgpsManager \<Rightarrow> nif list \<Rightarrow> (nif \<times> ptr) option option" where
  "find_sm connHandle a [] = Some None"
| "find_sm connHandle a (n # ns) =
     do { r \<leftarrow> find_in connHandle a n; (case r of Some p \<Rightarrow> Some (Some (n, p)) | None \<Rightarrow> find_sm connHandle a ns) }"

definition releaseATL :: "agps_env \<Rightarrow> int \<Rightarrow> AgpsManager \<Rightarrow> AgpsManager option" where
  "releaseATL E connHandle a =
     do { r \<leftarrow> find_sm connHandle a [Agnss, Internet, DsN];
          (case r of
             None \<Rightarrow> Some (a\<lparr>ctx := emit (AtlCloseStatus connHandle False) (ctx a)\<rparr>)
           | Some (n, p) \<Rightarrow>
               on_nif n (\<lambda>(m, c). processAgpsEvent E (n = DsN) 0 AGPS_EVENT_UNSUBSCRIBE
                            (m\<lparr>mCurrentSubscriber := Some p\<rparr>, c)) a) }"

definition reportDataCallOpened :: "agps_env \<Rightarrow> AgpsManager \<Rightarrow> AgpsManager option" where
  "reportDataCallOpened E a =
     (if mDsNif a \<noteq> None then on_nif DsN (processAgpsEvent E True 0 AGPS_EVENT_GRANTED) a else Some a)"

definition reportDataCallClosed :: "agps_env \<Rightarrow> AgpsManager \<Rightarrow> AgpsManager option" where
  "reportDataCallClosed E a =
     (if mDsNif a \<noteq> None then on_nif DsN (processAgpsEvent E True 0 AGPS_EVENT_RELEASED) a else Some a)"

definition reportAtlOpenSuccess ::
  "agps_env \<Rightarrow> int \<Rightarrow> string option \<Rightarrow> u32 \<Rightarrow> int \<Rightarrow> AgpsManager \<Rightarrow> AgpsManager option" where
  "reportAtlOpenSuccess E agpsType apnName apnLen bearerType a =
     (let (n, a1) = getAgpsStateMachine E agpsType a
      in on_nif n (\<lambda>(m, c). do { m1 \<leftarrow> setAPN apnName apnLen (m\<lparr>mBearer := bearerType\<rparr>);
                                processAgpsEvent E (n = DsN) 0 AGPS_EVENT_GRANTED (m1, c) }) a1)"

definition reportAtlOpenFailed :: "agps_env \<Rightarrow> int \<Rightarrow> AgpsManager \<Rightarrow> AgpsManager option" where
  "reportAtlOpenFailed E agpsType a =
     (let (n, a1) = getAgpsStateMachine E agpsType a
      in on_nif n (processAgpsEvent E (n = DsN) 0 AGPS_EVENT_DENIED) a1)"

definition reportAtlClosed :: "agps_env \<Rightarrow> int \<Rightarrow> AgpsManager \<Rightarrow> AgpsManager option" where
  "reportAtlClosed E agpsType a =
     (let (n, a1) = getAgpsStateMachine E agpsType a
      in on_nif n (processAgpsEvent E (n = DsN) 0 AGPS_EVENT_RELEASED) a1)"

definition drop_nif :: "nif \<Rightarrow> AgpsManager \<Rightarrow> AgpsManager option" where
  "drop_nif n a = (if get_nif n a \<noteq> None then on_nif n dropAllSubscribers a else Some a)"

definition handleModemSSR :: "agps_env \<Rightarrow> AgpsManager \<Rightarrow> AgpsManager option" where
  "handleModemSSR E a =
     do { a1 \<leftarrow> drop_nif Agnss a; a2 \<leftarrow> drop_nif Internet a1; a3 \<leftarrow> drop_nif DsN a2;
          (if use_emergency_pdn E then
             (if ds_stop E \<and> ds_close E \<and> ds_release E \<and> ds_init E \<noteq> None
              then Some (a3\<lparr>ctx := emit (DSInit True) (emit DSRelease (emit DSClose (emit DSStop (ctx a3))))\<rparr>)
              else None)
           else Some a3) }"

section \<open>What the loops compute\<close>

text \<open>The subscriber at an address that is known to be allocated.\<close>

abbreviation sub_at :: "agps_ctx \<Rightarrow> ptr \<Rightarrow> AgpsSubscriber" where
  "sub_at c p \<equiv> the (subs c p)"

abbreviation live :: "agps_ctx \<Rightarrow> ptr list \<Rightarrow> bool" where
  "live c ps \<equiv> set ps \<subseteq> dom (subs c)"

lemma emit_simps [simp]: "subs (emit x c) = subs c" "outs (emit x c) = outs c @ [x]"
  by (simp_all add: emit_def)

lemma any_handle_eq:
  "set ps \<subseteq> dom h \<Longrightarrow> any_handle ch ps h = Some (\<exists>p \<in> set ps. mConnHandle (the (h p)) = ch)"
  by (induction ps) (auto simp: deref_def split: Option.bind_splits)

lemma anyActive_eq:
  "set ps \<subseteq> dom h \<Longrightarrow> anyActiveSubscribers_loop ps h = Some (\<exists>p \<in> set ps. \<not> mIsInactive (the (h p)))"
  by (induction ps) (auto simp: deref_def split: Option.bind_splits)

lemma getSubscriber_eq:
  "set ps \<subseteq> dom h \<Longrightarrow> getSubscriber_loop ch ps h = Some (find (\<lambda>p. mConnHandle (the (h p)) = ch) ps)"
  by (induction ps) (auto simp: deref_def split: Option.bind_splits)

lemma getFirst_eq:
  "set ps \<subseteq> dom h \<Longrightarrow> getFirstSubscriber_loop b ps h = Some (find (\<lambda>p. mIsInactive (the (h p)) = b) ps)"
  by (induction ps) (auto simp: deref_def split: Option.bind_splits)

lemma dropAll_eq:
  "distinct ps \<Longrightarrow> live c ps \<Longrightarrow>
     dropAllSubscribers_loop ps c = Some (c\<lparr>subs := (subs c) |` (- set ps)\<rparr>)"
proof (induction ps arbitrary: c)
  case Nil
  then show ?case by simp
next
  case (Cons p ps)
  then have "delete_sub p c = Some (c\<lparr>subs := free_at (subs c) p\<rparr>)" by (auto simp: delete_sub_def deref_def)
  moreover have "live (c\<lparr>subs := free_at (subs c) p\<rparr>) ps" using Cons.prems by (auto simp: free_at_def)
  moreover have "free_at (subs c) p |` (- set ps) = subs c |` (- set (p # ps))"
    by (auto simp: free_at_def restrict_map_def fun_eq_iff)
  ultimately show ?case using Cons by simp
qed

text \<open>Deleting a list element through its own pointer works only for the last one.\<close>

lemma deleteSubscriber_loop_others:
  "set ps \<subseteq> dom h \<Longrightarrow> h del = Some d \<Longrightarrow> (\<And>p. p \<in> set ps \<Longrightarrow> mConnHandle (the (h p)) \<noteq> mConnHandle d) \<Longrightarrow>
     deleteSubscriber_loop del (ps @ qs) h = map_option (\<lambda>(xs, h'). (ps @ xs, h')) (deleteSubscriber_loop del qs h)"
proof (induction ps)
  case Nil
  then show ?case by (cases "deleteSubscriber_loop del qs h") auto
next
  case (Cons p ps)
  then obtain s where "h p = Some s" "mConnHandle s \<noteq> mConnHandle d" by force
  with Cons show ?case by (cases "deleteSubscriber_loop del qs h") (auto simp: deref_def)
qed

lemma deleteSubscriber_loop_self:
  assumes "set (ps @ p # qs) \<subseteq> dom h" and "distinct (map (\<lambda>q. mConnHandle (the (h q))) (ps @ p # qs))"
  shows "deleteSubscriber_loop p (ps @ p # qs) h = (if qs = [] then Some (ps, free_at h p) else None)"
proof -
  from assms obtain d where d: "h p = Some d" by auto
  have ne: "mConnHandle (the (h q)) \<noteq> mConnHandle d" if "q \<in> set ps" for q
    using assms(2) d that by (force simp: image_iff)
  have "deleteSubscriber_loop p (p # qs) h = (if qs = [] then Some ([], free_at h p) else None)"
    using d by (cases qs) (auto simp: deref_def free_at_def split: Option.bind_splits)
  with deleteSubscriber_loop_others [of ps h p d "p # qs"] ne d assms(1) show ?thesis by simp
qed

text \<open>One notification: what is sent, and what becomes of the machine.\<close>

definition note_ok :: "agps_env \<Rightarrow> bool \<Rightarrow> AgpsEvent \<Rightarrow> bool" where
  "note_ok E ds event \<longleftrightarrow> (ds \<and> event = AGPS_EVENT_RELEASED \<longrightarrow> ds_close E)"

definition note_sm :: "bool \<Rightarrow> AgpsEvent \<Rightarrow> AgpsStateMachine \<Rightarrow> AgpsStateMachine" where
  "note_sm ds event m = (if ds \<and> event = AGPS_EVENT_DENIED then m\<lparr>mRetries := 0\<rparr> else m)"

definition note_outs :: "bool \<Rightarrow> AgpsEvent \<Rightarrow> AgpsStateMachine \<Rightarrow> int \<Rightarrow> agps_out list" where
  "note_outs ds event m h =
     (case event of
        AGPS_EVENT_GRANTED \<Rightarrow>
          [if ds then AtlOpenStatus h True None AGPS_APN_BEARER_INVALID LOC_AGPS_TYPE_SUPL_ES
           else AtlOpenStatus h True (mAPN m) (mBearer m) (mAgpsType m)]
      | AGPS_EVENT_DENIED \<Rightarrow>
          [if ds then MsgRequestATL h LOC_AGPS_TYPE_SUPL
           else AtlOpenStatus h False (mAPN m) (mBearer m) (mAgpsType m)]
      | AGPS_EVENT_UNSUBSCRIBE \<Rightarrow> [AtlCloseStatus h True]
      | AGPS_EVENT_RELEASED \<Rightarrow> (if ds then [DSClose] else []) @ [AtlCloseStatus h True]
      | _ \<Rightarrow> [])"

lemma note_sm_simps [simp]:
  "mSubscriberList (note_sm ds e m) = mSubscriberList m" "mState (note_sm ds e m) = mState m"
  "note_sm ds e (note_sm ds e m) = note_sm ds e m"
  "note_sm ds e (m\<lparr>mSubscriberList := l\<rparr>) = (note_sm ds e m)\<lparr>mSubscriberList := l\<rparr>"
  "note_outs ds e (note_sm ds e' m) h = note_outs ds e m h"
  "note_outs ds e (m\<lparr>mSubscriberList := l\<rparr>) h = note_outs ds e m h"
  by (auto simp: note_sm_def note_outs_def split: AgpsEvent.split)

lemma notify_eq:
  assumes "note_ok E ds event" and "subs c p = Some s"
  shows "notifyEventToSubscriber E ds event p False (m, c) =
    Some (note_sm ds event m, c\<lparr>outs := outs c @ note_outs ds event m (mConnHandle s)\<rparr>)"
  using assms
  by (auto simp: notifyEventToSubscriber_def notify_ds_def notify_base_def deref_def note_ok_def note_sm_def
      note_outs_def emit_def split: AgpsEvent.split)

definition notified :: "bool \<Rightarrow> AgpsEvent \<Rightarrow> bool \<Rightarrow> AgpsNotificationType \<Rightarrow> ptr list \<Rightarrow> ptr list \<Rightarrow> sm_ctx \<Rightarrow> sm_ctx" where
  "notified ds event del ty kept ps mc =
     (let (m, c) = mc; W = (\<lambda>p. wanted ty (sub_at c p)); ws = filter W ps
      in ((if ws = [] then m else note_sm ds event m)\<lparr>mSubscriberList := rev kept @ (if del then filter (\<lambda>p. \<not> W p) ps else ps)\<rparr>,
          c\<lparr>subs := (if del then (subs c) |` (- set ws) else subs c),
            outs := outs c @ concat (map (\<lambda>p. note_outs ds event m (mConnHandle (sub_at c p))) ws)\<rparr>))"

lemma notifyAll_loop_eq:
  assumes "note_ok E ds event"
  shows "distinct ps \<Longrightarrow> live (snd mc) ps \<Longrightarrow>
    notifyAll_loop E ds event del ty kept ps mc = Some (notified ds event del ty kept ps mc)"
proof (induction ps arbitrary: kept mc)
  case Nil
  have "h |` UNIV = h" for h :: "ptr \<rightharpoonup> AgpsSubscriber" by (simp add: restrict_map_def)
  then show ?case by (cases mc) (simp add: notified_def)
next
  case (Cons p ps)
  obtain m c where mc: "mc = (m, c)" by (cases mc)
  from Cons.prems mc obtain s where s: "subs c p = Some s" by auto
  show ?case
  proof (cases "wanted ty s")
    case False
    with Cons mc s show ?thesis by (simp add: deref_def notified_def Let_def)
  next
    case True
    let ?c = "c\<lparr>outs := outs c @ note_outs ds event m (mConnHandle s)\<rparr>"
    note N = notify_eq [OF assms s, of m]
    show ?thesis
    proof (cases del)
      case False
      have "live ?c ps" using Cons.prems mc by simp
      with Cons.IH [of "(note_sm ds event m, ?c)" "p # kept"] Cons.prems True False mc s N show ?thesis
        by (simp add: deref_def notified_def Let_def)
    next
      case d: True
      let ?c2 = "?c\<lparr>subs := free_at (subs c) p\<rparr>"
      have l: "live ?c2 ps" using Cons.prems mc by (auto simp: free_at_def)
      have del: "delete_sub p ?c = Some ?c2" using s by (simp add: delete_sub_def deref_def)
      have same: "filter (\<lambda>q. wanted ty (the (free_at (subs c) p q))) ps = filter (\<lambda>q. wanted ty (sub_at c q)) ps"
        "filter (\<lambda>q. \<not> wanted ty (the (free_at (subs c) p q))) ps = filter (\<lambda>q. \<not> wanted ty (sub_at c q)) ps"
        using Cons.prems(1) by (auto intro!: filter_cong simp: free_at_def)
      have outs: "map (\<lambda>q. note_outs ds event m (mConnHandle (the (free_at (subs c) p q)))) (filter (\<lambda>q. wanted ty (sub_at c q)) ps) =
          map (\<lambda>q. note_outs ds event m (mConnHandle (sub_at c q))) (filter (\<lambda>q. wanted ty (sub_at c q)) ps)"
        using Cons.prems(1) by (auto simp: free_at_def)
      have sets: "{q \<in> set ps. wanted ty (the (free_at (subs c) p q))} = {q \<in> set ps. wanted ty (sub_at c q)}"
        using Cons.prems(1) by (auto simp: free_at_def)
      have "free_at (subs c) p |` (- S) = subs c |` (- insert p S)" for S
        by (auto simp: free_at_def restrict_map_def fun_eq_iff)
      with Cons.IH [of "(note_sm ds event m, ?c2)" kept] Cons.prems(1) True d mc s N l del same outs sets show ?thesis
        by (simp add: deref_def notified_def Let_def)
    qed
  qed
qed

section \<open>Ownership\<close>

text \<open>A state machine owns the subscribers in its list: they are allocated, different, and have different
  handles.\<close>

definition sm_ok :: "sm_ctx \<Rightarrow> bool" where
  "sm_ok mc \<longleftrightarrow> (let (m, c) = mc in
     distinct (mSubscriberList m) \<and> live c (mSubscriberList m) \<and>
     distinct (map (\<lambda>p. mConnHandle (sub_at c p)) (mSubscriberList m)) \<and> mState m \<noteq> AGPS_STATE_INVALID)"

text \<open>A step of a machine, with \<open>N\<close> the addresses it may allocate: it keeps its own subscribers in order and
  frees exactly those it drops, and leaves the rest of the store alone.\<close>

definition sm_post :: "ptr set \<Rightarrow> sm_ctx \<Rightarrow> sm_ctx \<Rightarrow> bool" where
  "sm_post N mc mc' \<longleftrightarrow> sm_ok mc' \<and>
     set (mSubscriberList (fst mc')) \<subseteq> set (mSubscriberList (fst mc)) \<union> N \<and>
     (\<forall>p. p \<notin> set (mSubscriberList (fst mc)) \<union> N \<longrightarrow> subs (snd mc') p = subs (snd mc) p) \<and>
     (\<forall>p \<in> set (mSubscriberList (fst mc)) \<union> N. p \<in> dom (subs (snd mc')) \<longrightarrow> p \<in> set (mSubscriberList (fst mc')))"

definition base_ok :: "AgpsStateMachine \<Rightarrow> bool" where
  "base_ok m \<longleftrightarrow> (mState m = AGPS_STATE_RELEASED \<longrightarrow> mSubscriberList m = [])"

text \<open>Requests for the data connection touch only the retry counter and the outputs.\<close>

definition quiet :: "sm_ctx \<Rightarrow> sm_ctx \<Rightarrow> bool" where
  "quiet mc mc' \<longleftrightarrow> (\<exists>k os. mc' = ((fst mc)\<lparr>mRetries := k\<rparr>, (snd mc)\<lparr>outs := outs (snd mc) @ os\<rparr>))"

lemma quiet_refl [simp]: "quiet mc mc"
  unfolding quiet_def by (rule exI [of _ "mRetries (fst mc)"], rule exI [of _ "[]"]) simp

lemma quiet_fields:
  "quiet mc mc' \<Longrightarrow> mSubscriberList (fst mc') = mSubscriberList (fst mc) \<and> mState (fst mc') = mState (fst mc) \<and>
     subs (snd mc') = subs (snd mc) \<and> mCurrentSubscriber (fst mc') = mCurrentSubscriber (fst mc)"
  by (auto simp: quiet_def)

lemma quiet_notify:
  assumes "note_ok E ds event" and "subs (snd mc) p \<noteq> None"
  shows "\<exists>mc'. notifyEventToSubscriber E ds event p False mc = Some mc' \<and> quiet mc mc'"
proof -
  obtain m c where mc: "mc = (m, c)" by (cases mc)
  with assms obtain s where "subs c p = Some s" by auto
  note N = notify_eq [OF assms(1) this, of m]
  have "note_sm ds event m = m\<lparr>mRetries := if ds \<and> event = AGPS_EVENT_DENIED then 0 else mRetries m\<rparr>"
    by (simp add: note_sm_def)
  with N show ?thesis unfolding mc quiet_def fst_conv snd_conv by metis
qed

lemma quiet_trans: "quiet a b \<Longrightarrow> quiet b c \<Longrightarrow> quiet a c"
  by (auto simp: quiet_def)

lemma quiet_emit: "quiet (m, c) (m\<lparr>mRetries := k\<rparr>, emit x c)" "quiet (m, c) (m, emit x c)"
  unfolding quiet_def emit_def fst_conv snd_conv
  by (blast, rule exI [of _ "mRetries m"], rule exI [of _ "[x]"]) simp

lemma find_live: "find P ps = Some p \<Longrightarrow> p \<in> set ps \<and> P p"
  by (auto simp: find_Some_iff)

lemma ds_open_result_quiet:
  assumes "subs (snd mc) p \<noteq> None"
  shows "\<exists>r mc'. ds_open_result E ret p mc = Some (r, mc') \<and> quiet mc mc'"
proof -
  obtain m c where mc: "mc = (m, c)" by (cases mc)
  have k: "note_ok E True AGPS_EVENT_DENIED" by (simp add: note_ok_def)
  have q: "quiet (m, c) (m\<lparr>mRetries := mRetries m + 1\<rparr>, c)"
    unfolding quiet_def fst_conv snd_conv by (rule exI, rule exI [of _ "[]"]) simp
  from quiet_notify [OF k, of "(m\<lparr>mRetries := mRetries m + 1\<rparr>, c)" p] quiet_notify [OF k, of "(m, c)" p] assms mc
  obtain x y where xy: "notifyEventToSubscriber E True AGPS_EVENT_DENIED p False (m\<lparr>mRetries := mRetries m + 1\<rparr>, c) = Some x"
    "quiet (m\<lparr>mRetries := mRetries m + 1\<rparr>, c) x"
    "notifyEventToSubscriber E True AGPS_EVENT_DENIED p False (m, c) = Some y" "quiet (m, c) y" by auto
  show ?thesis unfolding mc ds_open_result_def Let_def prod.case
    using xy quiet_trans [OF q xy(2)] quiet_emit(1) [of m c] by (auto simp del: split_paired_Ex)
qed

lemma requestOrRelease_quiet:
  assumes "sm_ok mc"
  shows "\<exists>r mc'. requestOrReleaseDataConn E ds request mc = Some (r, mc') \<and> quiet mc mc' \<and> (\<not> ds \<longrightarrow> r = 0)"
proof (cases ds)
  case False
  then show ?thesis
    by (cases mc) (auto simp: requestOrReleaseDataConn_def requestOrRelease_base_def quiet_emit)
next
  case True
  obtain m c where mc: "mc = (m, c)" by (cases mc)
  have f: "getFirstSubscriber False mc = Some (find (\<lambda>p. \<not> mIsInactive (sub_at c p)) (mSubscriberList m))"
    using assms by (simp add: getFirstSubscriber_def mc sm_ok_def getFirst_eq)
  have "\<exists>r mc'. requestOrRelease_ds E request mc = Some (r, mc') \<and> quiet mc mc'"
  proof (cases "\<not> request \<and> ds_stop E")
    case True
    then show ?thesis by (simp add: requestOrRelease_ds_def mc quiet_emit)
  next
    case no_stop: False
    show ?thesis
    proof (cases "find (\<lambda>p. \<not> mIsInactive (sub_at c p)) (mSubscriberList m)")
      case None
      with f no_stop show ?thesis by (auto simp: requestOrRelease_ds_def simp del: split_paired_Ex)
    next
      case (Some p)
      then have p: "subs c p \<noteq> None" using find_live [OF Some] assms by (auto simp: sm_ok_def mc)
      have k: "note_ok E True AGPS_EVENT_DENIED" by (simp add: note_ok_def)
      from quiet_notify [OF k, of mc p] p mc obtain x where
        "notifyEventToSubscriber E True AGPS_EVENT_DENIED p False mc = Some x" "quiet mc x" by auto
      moreover have "\<exists>r mc'. ds_open_result E ret p (m, emit DSOpenAndStart c) = Some (r, mc') \<and> quiet mc mc'" for ret
        using ds_open_result_quiet [of "(m, emit DSOpenAndStart c)" p E ret] p quiet_trans [OF quiet_emit(2)] mc
        by fastforce
      ultimately show ?thesis using f no_stop Some mc
        by (auto simp: requestOrRelease_ds_def simp del: split_paired_Ex split: option.splits)
    qed
  qed
  with True show ?thesis by (simp add: requestOrReleaseDataConn_def)
qed

lemma sm_okI:
  assumes "distinct (mSubscriberList m)" and "live c (mSubscriberList m)" and "mState m \<noteq> AGPS_STATE_INVALID"
    and "\<And>p. p \<in> set (mSubscriberList m) \<Longrightarrow> mConnHandle (sub_at c p) = g p"
    and "distinct (map g (mSubscriberList m))"
  shows "sm_ok (m, c)"
proof -
  have e: "map (\<lambda>p. mConnHandle (sub_at c p)) (mSubscriberList m) = map g (mSubscriberList m)"
    using assms(4) by simp
  show ?thesis unfolding sm_ok_def Let_def prod.case e using assms(1-3,5) by blast
qed

lemma sm_post_refl: "sm_ok mc \<Longrightarrow> sm_post {} mc mc"
  by (auto simp: sm_post_def)

lemma sm_post_cong:
  assumes "sm_post N mc mc1" and "mSubscriberList (fst mc2) = mSubscriberList (fst mc1)"
    and "subs (snd mc2) = subs (snd mc1)" and "mState (fst mc2) \<noteq> AGPS_STATE_INVALID"
  shows "sm_post N mc mc2"
  using assms by (cases mc1; cases mc2) (simp add: sm_post_def sm_ok_def)

lemma sm_post_quiet: "sm_post N mc mc1 \<Longrightarrow> quiet mc1 mc2 \<Longrightarrow> sm_post N mc mc2"
  using quiet_fields [of mc1 mc2] by (auto intro!: sm_post_cong [of N mc mc1 mc2] simp: sm_post_def sm_ok_def)

lemma transition_fields [simp]:
  "fst (transitionState st mc) = (fst mc)\<lparr>mState := st\<rparr>" "snd (transitionState st mc) = snd mc"
  by (simp_all add: transitionState_def split: prod.split)

lemma sm_post_transition: "sm_post N mc mc1 \<Longrightarrow> st \<noteq> AGPS_STATE_INVALID \<Longrightarrow> sm_post N mc (transitionState st mc1)"
  by (rule sm_post_cong) auto

lemma sm_post_ok: "sm_post N mc mc1 \<Longrightarrow> sm_ok mc1"
  by (simp add: sm_post_def)

lemma sm_post_from:
  "sm_post N mc mc1 \<Longrightarrow> mSubscriberList (fst mc0) = mSubscriberList (fst mc) \<Longrightarrow> subs (snd mc0) = subs (snd mc) \<Longrightarrow>
     sm_post N mc0 mc1"
  by (simp add: sm_post_def)

lemma addSubscriber_post:
  assumes "sm_ok mc" and "subs (snd mc) nw = None" and "subs (snd mc) cur \<noteq> None"
  shows "\<exists>mc'. addSubscriber nw cur mc = Some mc' \<and> sm_post {nw} mc mc' \<and> mState (fst mc') = mState (fst mc)"
proof -
  obtain m c where mc: "mc = (m, c)" by (cases mc)
  from assms mc obtain a where a: "subs c cur = Some a" by auto
  let ?p = "\<exists>p \<in> set (mSubscriberList m). mConnHandle (sub_at c p) = mConnHandle a"
  have live: "live c (mSubscriberList m)" and fresh: "nw \<notin> set (mSubscriberList m)"
    using assms(1,2) by (auto simp: sm_ok_def mc)
  have eq: "addSubscriber nw cur mc = Some (if ?p then (m, c)
      else (m\<lparr>mSubscriberList := mSubscriberList m @ [nw]\<rparr>, c\<lparr>subs := (subs c)(nw \<mapsto> a)\<rparr>))"
    using a any_handle_eq [OF live] by (simp add: addSubscriber_def mc deref_def)
  show ?thesis
  proof (cases ?p)
    case True
    with eq assms(1,2) mc show ?thesis by (auto simp: sm_post_def)
  next
    case False
    have "distinct (map (\<lambda>p. mConnHandle (sub_at c p)) (mSubscriberList m))" "distinct (mSubscriberList m)"
      "mState m \<noteq> AGPS_STATE_INVALID" using assms(1) by (auto simp: sm_ok_def mc)
    with False fresh live
    have "sm_ok (m\<lparr>mSubscriberList := mSubscriberList m @ [nw]\<rparr>, c\<lparr>subs := (subs c)(nw \<mapsto> a)\<rparr>)"
      by (intro sm_okI [where g = "\<lambda>p. if p = nw then mConnHandle a else mConnHandle (sub_at c p)"])
        (auto simp: distinct_map inj_on_def)
    with False eq mc show ?thesis by (auto simp: sm_post_def)
  qed
qed

lemma notifyAll_post:
  assumes "sm_ok mc" and "note_ok E ds event"
  shows "\<exists>mc'. notifyAllSubscribers E ds event del ty mc = Some mc' \<and> sm_post {} mc mc' \<and>
    mState (fst mc') = mState (fst mc) \<and>
    mSubscriberList (fst mc') = (if del then filter (\<lambda>p. \<not> wanted ty (sub_at (snd mc) p)) (mSubscriberList (fst mc))
      else mSubscriberList (fst mc)) \<and>
    (\<forall>p \<in> set (mSubscriberList (fst mc')). sub_at (snd mc') p = sub_at (snd mc) p)"
proof -
  obtain m c where mc: "mc = (m, c)" by (cases mc)
  let ?W = "\<lambda>p. wanted ty (sub_at c p)" and ?l = "mSubscriberList m"
  have ok: "distinct ?l" "live c ?l" "distinct (map (\<lambda>p. mConnHandle (sub_at c p)) ?l)" "mState m \<noteq> AGPS_STATE_INVALID"
    using assms(1) by (auto simp: sm_ok_def mc)
  have N: "notifyAllSubscribers E ds event del ty mc = Some (notified ds event del ty [] ?l mc)"
    using notifyAll_loop_eq [OF assms(2), of ?l mc] ok mc by (simp add: notifyAllSubscribers_def)
  have "sm_ok (notified ds event del ty [] ?l mc)"
    unfolding notified_def mc Let_def prod.case
    by (rule sm_okI [where g = "\<lambda>p. mConnHandle (sub_at c p)"])
      (use ok in \<open>auto simp: distinct_map_filter\<close>)
  then have "sm_post {} mc (notified ds event del ty [] ?l mc)"
    by (auto simp: sm_post_def notified_def mc Let_def)
  with N show ?thesis by (auto simp: notified_def mc Let_def)
qed

lemma unsubscribe_post:
  assumes "sm_ok mc" and "mCurrentSubscriber (fst mc) = Some p" and "p \<in> set (mSubscriberList (fst mc))"
    and "mWaitForCloseComplete (sub_at (snd mc) p) \<or> last (mSubscriberList (fst mc)) = p"
  shows "\<exists>mc'. unsubscribe_current E ds mc = Some mc' \<and> sm_post {} mc mc' \<and> mState (fst mc') = mState (fst mc)"
proof -
  obtain m c where mc: "mc = (m, c)" by (cases mc)
  let ?l = "mSubscriberList m"
  have ok: "distinct ?l" "live c ?l" "distinct (map (\<lambda>p. mConnHandle (sub_at c p)) ?l)" "mState m \<noteq> AGPS_STATE_INVALID"
    using assms(1) by (auto simp: sm_ok_def mc)
  from assms(3) ok mc obtain s where s: "subs c p = Some s" by auto
  show ?thesis
  proof (cases "mWaitForCloseComplete s")
    case True
    have "sm_ok (m, c\<lparr>subs := (subs c)(p \<mapsto> s\<lparr>mIsInactive := True\<rparr>)\<rparr>)"
      by (rule sm_okI [where g = "\<lambda>q. mConnHandle (sub_at c q)"]) (use ok s in auto)
    with True s assms(2,3) mc show ?thesis
      by (auto simp: unsubscribe_current_def deref_def sm_post_def)
  next
    case False
    with assms(4) s mc have last: "last ?l = p" by simp
    with assms(3) mc have l: "?l = butlast ?l @ [p]" by (cases ?l rule: rev_cases) auto
    have D: "deleteSubscriber_loop p ?l (subs c) = Some (butlast ?l, free_at (subs c) p)"
      using deleteSubscriber_loop_self [of "butlast ?l" p "[]" "subs c"] ok l by simp
    have k: "note_ok E ds AGPS_EVENT_UNSUBSCRIBE" by (simp add: note_ok_def)
    from notify_eq [OF k s, of m]
    have "notifyEventToSubscriber E ds AGPS_EVENT_UNSUBSCRIBE p True (m, c) =
        Some (m\<lparr>mSubscriberList := butlast ?l\<rparr>, c\<lparr>outs := outs c @ [AtlCloseStatus (mConnHandle s) True], subs := free_at (subs c) p\<rparr>)"
      using s D
      by (auto simp: notifyEventToSubscriber_def deref_def deleteSubscriber_def note_sm_def note_outs_def split: Option.bind_splits)
    then have eq: "unsubscribe_current E ds mc = Some (m\<lparr>mSubscriberList := butlast ?l\<rparr>,
        c\<lparr>outs := outs c @ [AtlCloseStatus (mConnHandle s) True], subs := free_at (subs c) p\<rparr>)"
      using assms(2) s False mc by (simp add: unsubscribe_current_def deref_def)
    have pn: "p \<notin> set (butlast ?l)" using ok(1) l by (metis distinct_append disjoint_iff list.set_intros(1))
    have "sm_ok (m\<lparr>mSubscriberList := butlast ?l\<rparr>,
        c\<lparr>outs := outs c @ [AtlCloseStatus (mConnHandle s) True], subs := free_at (subs c) p\<rparr>)"
      by (rule sm_okI [where g = "\<lambda>q. mConnHandle (sub_at c q)"])
        (use ok pn in \<open>auto simp: free_at_def distinct_butlast map_butlast dest: in_set_butlastD\<close>)
    moreover have "q \<in> set (butlast ?l)" if "q \<in> set ?l" "q \<noteq> p" for q using l that by (metis Un_iff list.set(1,2) set_append singletonD)
    ultimately show ?thesis using eq mc assms(3)
      by (auto simp: sm_post_def free_at_def dest: in_set_butlastD split: if_splits)
  qed
qed

section \<open>Every event keeps the ownership\<close>

declare split_paired_Ex [simp del]

lemma subscribe_post:
  assumes "sm_ok mc" and "subs (snd mc) nw = None" and "mCurrentSubscriber (fst mc) = Some cur"
    and "subs (snd mc) cur \<noteq> None"
  shows "\<exists>mc'. processAgpsEventSubscribe E ds nw mc = Some mc' \<and> sm_post {nw} mc mc' \<and>
    (\<not> ds \<longrightarrow> base_ok (fst mc) \<longrightarrow> base_ok (fst mc'))"
proof -
  from addSubscriber_post [OF assms(1,2,4)] obtain mc1 where
    a: "addSubscriber nw cur mc = Some mc1" "sm_post {nw} mc mc1" "mState (fst mc1) = mState (fst mc)" by blast
  from requestOrRelease_quiet [OF sm_post_ok [OF a(2)], of E ds True] obtain r mc2 where
    r: "requestOrReleaseDataConn E ds True mc1 = Some (r, mc2)" "quiet mc1 mc2" "\<not> ds \<longrightarrow> r = 0" by blast
  have k: "note_ok E ds AGPS_EVENT_GRANTED" by (simp add: note_ok_def)
  from quiet_notify [OF k assms(4)] obtain mc3 where
    n: "notifyEventToSubscriber E ds AGPS_EVENT_GRANTED cur False mc = Some mc3" "quiet mc mc3" by blast
  note q = quiet_fields [OF n(2)]
  have ok3: "sm_ok mc3" using sm_post_quiet [OF sm_post_refl [OF assms(1)] n(2)] by (rule sm_post_ok)
  from addSubscriber_post [OF ok3, of nw cur] q assms obtain mc4 where
    b: "addSubscriber nw cur mc3 = Some mc4" "sm_post {nw} mc3 mc4" "mState (fst mc4) = mState (fst mc)" by auto
  have b': "sm_post {nw} mc mc4" using sm_post_from [OF b(2), of mc] q by simp
  show ?thesis
  proof (cases "mState (fst mc)")
    case AGPS_STATE_RELEASED
    have "sm_post {nw} mc mc2" by (rule sm_post_quiet [OF a(2) r(2)])
    with AGPS_STATE_RELEASED a r assms(3) show ?thesis
      by (auto simp: processAgpsEventSubscribe_def base_ok_def intro: sm_post_transition)
  next
    case AGPS_STATE_INVALID
    with assms(1) show ?thesis by (auto simp: sm_ok_def)
  qed (use a n b b' assms(3) in \<open>auto simp: processAgpsEventSubscribe_def base_ok_def\<close>)
qed

lemma unsubscribe_event_post:
  assumes "sm_ok mc" and "mCurrentSubscriber (fst mc) = Some p" and "p \<in> set (mSubscriberList (fst mc))"
    and "mState (fst mc) = AGPS_STATE_RELEASED \<or> mWaitForCloseComplete (sub_at (snd mc) p) \<or>
      last (mSubscriberList (fst mc)) = p"
  shows "\<exists>mc'. processAgpsEventUnsubscribe E ds mc = Some mc' \<and> sm_post {} mc mc' \<and>
    (\<not> ds \<longrightarrow> base_ok (fst mc) \<longrightarrow> base_ok (fst mc'))"
proof (cases "mState (fst mc) = AGPS_STATE_RELEASED")
  case True
  have k: "note_ok E ds AGPS_EVENT_UNSUBSCRIBE" by (simp add: note_ok_def)
  have "subs (snd mc) p \<noteq> None" using assms(1,3) by (auto simp: sm_ok_def)
  from quiet_notify [OF k this] obtain mc1 where
    n: "notifyEventToSubscriber E ds AGPS_EVENT_UNSUBSCRIBE p False mc = Some mc1" "quiet mc mc1" by blast
  with True assms(2) sm_post_quiet [OF sm_post_refl [OF assms(1)] n(2)] quiet_fields [OF n(2)] show ?thesis
    by (auto simp: processAgpsEventUnsubscribe_def base_ok_def)
next
  case False
  with unsubscribe_post [OF assms(1-3), of E ds] assms(4) obtain mc1 where
    u: "unsubscribe_current E ds mc = Some mc1" "sm_post {} mc mc1" "mState (fst mc1) = mState (fst mc)" by blast
  have rel: "\<exists>mc2. requestOrReleaseDataConn E ds False (transitionState st mc1) = Some (r, mc2) \<and> sm_post {} mc mc2 \<and>
      mState (fst mc2) = st \<and> mSubscriberList (fst mc2) = mSubscriberList (fst mc1)"
    if "requestOrReleaseDataConn E ds False (transitionState st mc1) = Some (r, mc2)"
      "quiet (transitionState st mc1) mc2" "st \<noteq> AGPS_STATE_INVALID" for st r mc2
    using that sm_post_quiet [OF sm_post_transition [OF u(2) that(3)] that(2)] quiet_fields [OF that(2)] by auto
  have req: "\<exists>r mc2. requestOrReleaseDataConn E ds False (transitionState st mc1) = Some (r, mc2) \<and> sm_post {} mc mc2 \<and>
      mState (fst mc2) = st \<and> mSubscriberList (fst mc2) = mSubscriberList (fst mc1)"
    if "st \<noteq> AGPS_STATE_INVALID" for st
    using requestOrRelease_quiet [OF sm_post_ok [OF sm_post_transition [OF u(2) that]], of E ds False] rel that
    by (metis (no_types))
  from req [of AGPS_STATE_RELEASED] obtain r2 mc2 where
    r2: "requestOrReleaseDataConn E ds False (transitionState AGPS_STATE_RELEASED mc1) = Some (r2, mc2)"
      "sm_post {} mc mc2" "mSubscriberList (fst mc2) = mSubscriberList (fst mc1)" by auto
  from req [of AGPS_STATE_RELEASING] obtain r3 mc3 where
    r3: "requestOrReleaseDataConn E ds False (transitionState AGPS_STATE_RELEASING mc1) = Some (r3, mc3)"
      "sm_post {} mc mc3" "mState (fst mc3) = AGPS_STATE_RELEASING" by auto
  have "live (snd mc1) (mSubscriberList (fst mc1))" using sm_post_ok [OF u(2)] by (auto simp: sm_ok_def)
  then obtain b where b: "anyActiveSubscribers mc1 = Some b" by (auto simp: anyActiveSubscribers_def anyActive_eq)
  show ?thesis
  proof (cases "mState (fst mc)")
    case AGPS_STATE_INVALID
    with assms(1) show ?thesis by (auto simp: sm_ok_def)
  next
    case AGPS_STATE_RELEASED
    with False show ?thesis by simp
  qed (use u r2 r3 b sm_post_transition [OF u(2)] in \<open>auto simp: processAgpsEventUnsubscribe_def base_ok_def\<close>)
qed

lemma finish_releasing_post:
  assumes "sm_ok mc" and "note_ok E ds AGPS_EVENT_RELEASED"
  shows "\<exists>mc'. finish_releasing E ds mc = Some mc' \<and> sm_post {} mc mc' \<and> base_ok (fst mc')"
proof -
  from notifyAll_post [OF assms, of True FOR_INACTIVE_SUBSCRIBERS] obtain mc1 where
    n: "notifyAllSubscribers E ds AGPS_EVENT_RELEASED True FOR_INACTIVE_SUBSCRIBERS mc = Some mc1" "sm_post {} mc mc1"
      "mSubscriberList (fst mc1) = filter (\<lambda>p. \<not> mIsInactive (sub_at (snd mc) p)) (mSubscriberList (fst mc))"
      "\<forall>p \<in> set (mSubscriberList (fst mc1)). sub_at (snd mc1) p = sub_at (snd mc) p"
    by (auto simp: wanted_def)
  have "live (snd mc1) (mSubscriberList (fst mc1))" using sm_post_ok [OF n(2)] by (auto simp: sm_ok_def)
  then have act: "anyActiveSubscribers mc1 = Some (mSubscriberList (fst mc1) \<noteq> [])"
    using n(3,4) by (auto simp: anyActiveSubscribers_def anyActive_eq filter_empty_conv)
  have p: "sm_post {} mc (transitionState st mc1)" if "st \<noteq> AGPS_STATE_INVALID" for st
    by (rule sm_post_transition [OF n(2) that])
  from requestOrRelease_quiet [OF sm_post_ok [OF p], of AGPS_STATE_PENDING E ds True] obtain r mc2 where
    r: "requestOrReleaseDataConn E ds True (transitionState AGPS_STATE_PENDING mc1) = Some (r, mc2)"
      "quiet (transitionState AGPS_STATE_PENDING mc1) mc2" by auto
  have "sm_post {} mc mc2" by (rule sm_post_quiet [OF p r(2)]) simp
  with n(1) act r p [of AGPS_STATE_RELEASED] quiet_fields [OF r(2)] show ?thesis
    by (cases "mSubscriberList (fst mc1) = []") (auto simp: finish_releasing_def base_ok_def)
qed

lemma notify_everyone_post:
  assumes "sm_ok mc" and "note_ok E ds event"
  shows "\<exists>mc'. notifyAllSubscribers E ds event True FOR_ALL_SUBSCRIBERS (transitionState AGPS_STATE_RELEASED mc) = Some mc' \<and>
    sm_post {} mc mc' \<and> base_ok (fst mc')"
proof -
  have p: "sm_post {} mc (transitionState AGPS_STATE_RELEASED mc)"
    by (rule sm_post_transition [OF sm_post_refl [OF assms(1)]]) simp
  from notifyAll_post [OF sm_post_ok [OF p] assms(2), of True FOR_ALL_SUBSCRIBERS] obtain mc1 where
    n: "notifyAllSubscribers E ds event True FOR_ALL_SUBSCRIBERS (transitionState AGPS_STATE_RELEASED mc) = Some mc1"
      "sm_post {} (transitionState AGPS_STATE_RELEASED mc) mc1" "mSubscriberList (fst mc1) = []"
    by (auto simp: wanted_def)
  with sm_post_from [OF n(2), of mc] show ?thesis by (auto simp: base_ok_def)
qed

text \<open>What the caller of \<open>processAgpsEvent\<close> has to make sure.\<close>

definition event_ok :: "agps_env \<Rightarrow> bool \<Rightarrow> ptr \<Rightarrow> AgpsEvent \<Rightarrow> sm_ctx \<Rightarrow> bool" where
  "event_ok E ds nw event mc \<longleftrightarrow> (ds \<longrightarrow> ds_close E) \<and>
     (event = AGPS_EVENT_SUBSCRIBE \<longrightarrow> subs (snd mc) nw = None \<and>
       (\<exists>cur. mCurrentSubscriber (fst mc) = Some cur \<and> subs (snd mc) cur \<noteq> None)) \<and>
     (event = AGPS_EVENT_UNSUBSCRIBE \<longrightarrow>
       (\<exists>p. mCurrentSubscriber (fst mc) = Some p \<and> p \<in> set (mSubscriberList (fst mc)) \<and>
          (mState (fst mc) = AGPS_STATE_RELEASED \<or> mWaitForCloseComplete (sub_at (snd mc) p) \<or>
           last (mSubscriberList (fst mc)) = p)))"

lemma processAgpsEvent_post:
  assumes "sm_ok mc" and "event_ok E ds nw event mc"
  shows "\<exists>mc'. processAgpsEvent E ds nw event mc = Some mc' \<and>
    sm_post (if event = AGPS_EVENT_SUBSCRIBE then {nw} else {}) mc mc' \<and>
    (\<not> ds \<longrightarrow> base_ok (fst mc) \<longrightarrow> base_ok (fst mc'))"
proof -
  have n: "note_ok E ds e" for e using assms(2) by (auto simp: event_ok_def note_ok_def)
  note R = finish_releasing_post [OF assms(1) n] and A = notify_everyone_post [OF assms(1) n]
  note refl = sm_post_refl [OF assms(1)]
  have p: "sm_post {} mc (transitionState AGPS_STATE_ACQUIRED mc)" by (rule sm_post_transition [OF refl]) simp
  from notifyAll_post [OF sm_post_ok [OF p] n, of AGPS_EVENT_GRANTED False FOR_ACTIVE_SUBSCRIBERS] obtain mc1 where
    g: "notifyAllSubscribers E ds AGPS_EVENT_GRANTED False FOR_ACTIVE_SUBSCRIBERS (transitionState AGPS_STATE_ACQUIRED mc) = Some mc1"
      "sm_post {} (transitionState AGPS_STATE_ACQUIRED mc) mc1" "mState (fst mc1) = AGPS_STATE_ACQUIRED" by auto
  have g': "sm_post {} mc mc1" using sm_post_from [OF g(2), of mc] by simp
  have granted: "\<exists>mc'. processAgpsEventGranted E ds mc = Some mc' \<and> sm_post {} mc mc' \<and>
      (\<not> ds \<longrightarrow> base_ok (fst mc) \<longrightarrow> base_ok (fst mc'))"
    using g g' refl by (cases "mState (fst mc)") (auto simp: processAgpsEventGranted_def base_ok_def)
  have released: "\<exists>mc'. processAgpsEventReleased E ds mc = Some mc' \<and> sm_post {} mc mc' \<and>
      (\<not> ds \<longrightarrow> base_ok (fst mc) \<longrightarrow> base_ok (fst mc'))"
    using R A [of AGPS_EVENT_RELEASED] refl by (cases "mState (fst mc)") (auto simp: processAgpsEventReleased_def)
  have denied: "\<exists>mc'. processAgpsEventDenied E ds mc = Some mc' \<and> sm_post {} mc mc' \<and>
      (\<not> ds \<longrightarrow> base_ok (fst mc) \<longrightarrow> base_ok (fst mc'))"
    using R A [of AGPS_EVENT_DENIED] refl by (cases "mState (fst mc)") (auto simp: processAgpsEventDenied_def)
  show ?thesis
  proof (cases event)
    case AGPS_EVENT_SUBSCRIBE
    with assms(2) obtain cur where "subs (snd mc) nw = None" "mCurrentSubscriber (fst mc) = Some cur" "subs (snd mc) cur \<noteq> None"
      by (auto simp: event_ok_def)
    from subscribe_post [OF assms(1) this, of E ds] AGPS_EVENT_SUBSCRIBE show ?thesis
      by (simp add: processAgpsEvent_def processAgpsEvent_base_def)
  next
    case AGPS_EVENT_UNSUBSCRIBE
    with assms(2) unsubscribe_event_post [OF assms(1), of _ E ds] show ?thesis
      by (auto simp: processAgpsEvent_def processAgpsEvent_base_def event_ok_def)
  qed (use granted released denied refl in \<open>auto simp: processAgpsEvent_def processAgpsEvent_base_def\<close>)
qed

section \<open>The manager keeps every machine's ownership\<close>

definition owned :: "AgpsManager \<Rightarrow> nif \<Rightarrow> ptr list" where
  "owned a n = (case get_nif n a of None \<Rightarrow> [] | Some m \<Rightarrow> mSubscriberList m)"

text \<open>\<open>X\<close>: the objects that belong to the call in progress.\<close>

definition agps_inv_with :: "ptr set \<Rightarrow> agps_env \<Rightarrow> AgpsManager \<Rightarrow> bool" where
  "agps_inv_with X E a \<longleftrightarrow>
     (\<forall>n m. get_nif n a = Some m \<longrightarrow> sm_ok (m, ctx a) \<and> (n \<noteq> DsN \<longrightarrow> base_ok m)) \<and>
     (\<forall>n n'. n \<noteq> n' \<longrightarrow> set (owned a n) \<inter> set (owned a n') = {}) \<and>
     (\<forall>n. set (owned a n) \<inter> X = {}) \<and>
     dom (subs (ctx a)) = (\<Union>n. set (owned a n)) \<union> X \<and>
     (mDsNif a \<noteq> None \<longrightarrow> use_emergency_pdn E)"

abbreviation agps_inv :: "agps_env \<Rightarrow> AgpsManager \<Rightarrow> bool" where
  "agps_inv \<equiv> agps_inv_with {}"

lemma nif_set [simp]: "get_nif n' (set_nif n m a) = (if n' = n then Some m else get_nif n' a)"
  "ctx (set_nif n m a) = ctx a" "get_nif n (a\<lparr>ctx := c\<rparr>) = get_nif n a"
  by (cases n; cases n'; simp)+

lemma ds_set [simp]: "mDsNif (set_nif n m a) = (if n = DsN then Some m else mDsNif a)"
  by (cases n) simp_all

lemma owned_set [simp]: "owned (set_nif n m a) n' = (if n' = n then mSubscriberList m else owned a n')"
  "owned (a\<lparr>ctx := c\<rparr>) n = owned a n"
  by (simp_all add: owned_def)

lemma sm_ok_frame:
  assumes "sm_ok (m, c)" and "\<And>p. p \<in> set (mSubscriberList m) \<Longrightarrow> subs c' p = subs c p"
  shows "sm_ok (m, c')"
  by (rule sm_okI [where g = "\<lambda>p. mConnHandle (sub_at c p)"]) (use assms in \<open>auto simp: sm_ok_def domIff\<close>)

lemma owners_dom:
  assumes D: "dom h = (\<Union>k. Ow k) \<union> X" and other: "\<And>k. k \<noteq> n \<Longrightarrow> Ow k \<inter> (Ow n \<union> N) = {}" and XN: "X \<inter> (Ow n \<union> N) = {}"
    and out: "\<And>p. p \<notin> Ow n \<union> N \<Longrightarrow> h' p = h p" and gone: "\<And>p. p \<in> Ow n \<union> N \<Longrightarrow> p \<in> dom h' \<Longrightarrow> p \<in> L"
    and live: "L \<subseteq> dom h'"
  shows "dom h' = (\<Union>k. if k = n then L else Ow k) \<union> X"
proof (intro equalityI subsetI)
  fix p assume p: "p \<in> dom h'"
  show "p \<in> (\<Union>k. if k = n then L else Ow k) \<union> X"
  proof (cases "p \<in> Ow n \<union> N")
    case True
    with gone p have "p \<in> (if n = n then L else Ow n)" by simp
    then show ?thesis by blast
  next
    case False
    with out p have "p \<in> dom h" by auto
    with D consider "p \<in> X" | k where "p \<in> Ow k" by blast
    then show ?thesis
    proof cases
      case 2
      with False have "p \<in> (if k = n then L else Ow k)" by auto
      then show ?thesis by blast
    qed simp
  qed
next
  fix p assume "p \<in> (\<Union>k. if k = n then L else Ow k) \<union> X"
  then consider "p \<in> L" | k where "k \<noteq> n" "p \<in> Ow k" | "p \<in> X" by (auto split: if_splits)
  then show "p \<in> dom h'"
  proof cases
    case 1 with live show ?thesis by auto
  next
    case 2 with other out [of p] D have "h' p = h p" "p \<in> dom h" by auto
    then show ?thesis by auto
  next
    case 3 with XN out [of p] D have "h' p = h p" "p \<in> dom h" by auto
    then show ?thesis by auto
  qed
qed

lemma on_nif_post:
  assumes inv: "agps_inv_with X E a" and m: "get_nif n a = Some m" and f: "f (m, ctx a) = Some mc'"
    and post: "sm_post N (m, ctx a) mc'" and base: "n \<noteq> DsN \<longrightarrow> base_ok (fst mc')"
    and N: "N \<inter> dom (subs (ctx a)) = {}"
  shows "\<exists>a'. on_nif n f a = Some a' \<and> agps_inv_with X E a'"
proof -
  obtain m' c' where mc': "mc' = (m', c')" by (cases mc')
  have own: "owned a n = mSubscriberList m" using m by (simp add: owned_def)
  have sub: "set (mSubscriberList m') \<subseteq> set (owned a n) \<union> N"
    and out: "\<And>p. p \<notin> set (owned a n) \<union> N \<Longrightarrow> subs c' p = subs (ctx a) p"
    and gone: "\<And>p. p \<in> set (owned a n) \<union> N \<Longrightarrow> p \<in> dom (subs c') \<Longrightarrow> p \<in> set (mSubscriberList m')"
    and ok: "sm_ok (m', c')" using post by (auto simp: sm_post_def mc' own)
  have D: "dom (subs (ctx a)) = (\<Union>n. set (owned a n)) \<union> X" and dj: "\<And>k. k \<noteq> n \<Longrightarrow> set (owned a k) \<inter> set (owned a n) = {}"
    and X: "\<And>k. set (owned a k) \<inter> X = {}" and djk: "\<And>k k'. k \<noteq> k' \<Longrightarrow> set (owned a k) \<inter> set (owned a k') = {}"
    and oks: "\<And>k m. get_nif k a = Some m \<Longrightarrow> sm_ok (m, ctx a) \<and> (k \<noteq> DsN \<longrightarrow> base_ok m)"
    and em: "mDsNif a \<noteq> None \<longrightarrow> use_emergency_pdn E"
    using inv by (auto simp: agps_inv_with_def)
  have other: "set (owned a k) \<inter> (set (owned a n) \<union> N) = {}" if "k \<noteq> n" for k using dj [OF that] N D by auto
  have XN: "X \<inter> (set (owned a n) \<union> N) = {}" using X N D by auto
  let ?a = "set_nif n m' (a\<lparr>ctx := c'\<rparr>)"
  have "sm_ok (mk, c')" if "get_nif k a = Some mk" "k \<noteq> n" for k mk
    by (rule sm_ok_frame [where c = "ctx a"]) (use oks [OF that(1)] other [OF that(2)] that(1) in \<open>auto simp: owned_def intro!: out\<close>)
  then have 1: "sm_ok (mk, ctx ?a) \<and> (k \<noteq> DsN \<longrightarrow> base_ok mk)" if "get_nif k ?a = Some mk" for k mk
    using that ok oks base mc' by (auto split: if_splits)
  have 2: "set (owned ?a k) \<inter> set (owned ?a k') = {}" if "k \<noteq> k'" for k k'
    using djk [OF that] other sub that by (fastforce split: if_splits)
  have 3: "set (owned ?a k) \<inter> X = {}" for k using X XN sub by (auto split: if_splits)
  have "live c' (mSubscriberList m')" using ok by (auto simp: sm_ok_def)
  from owners_dom [where Ow = "\<lambda>k. set (owned a k)", OF D other XN out gone this]
  have 4: "dom (subs (ctx ?a)) = (\<Union>k. set (owned ?a k)) \<union> X" by (simp add: if_distrib [where f = set])
  have 5: "mDsNif ?a \<noteq> None \<longrightarrow> use_emergency_pdn E" using em m by (cases n) auto
  have "agps_inv_with X E ?a" unfolding agps_inv_with_def using 1 2 3 4 5 by blast
  moreover have "on_nif n f a = Some ?a" using m f mc' by (simp add: on_nif_def)
  ultimately show ?thesis by blast
qed

text \<open>The requests of the manager's clients.\<close>

datatype agps_req =
    CreateAgps
  | RequestATL ptr ptr int int
  | ReleaseATL int
  | DataCallOpened | DataCallClosed
  | AtlOpenSuccess int "string option" u32 int
  | AtlOpenFailed int
  | AtlClosed int
  | ModemSSR
  | RetryTimeout

fun agps_step :: "agps_env \<Rightarrow> AgpsManager \<Rightarrow> agps_req \<Rightarrow> AgpsManager option" where
  "agps_step E a CreateAgps = Some (createAgpsStateMachines E a)"
| "agps_step E a (RequestATL stk nw h ty) = requestATL E stk nw h ty a"
| "agps_step E a (ReleaseATL h) = releaseATL E h a"
| "agps_step E a DataCallOpened = reportDataCallOpened E a"
| "agps_step E a DataCallClosed = reportDataCallClosed E a"
| "agps_step E a (AtlOpenSuccess ty apn len b) = reportAtlOpenSuccess E ty apn len b a"
| "agps_step E a (AtlOpenFailed ty) = reportAtlOpenFailed E ty a"
| "agps_step E a (AtlClosed ty) = reportAtlClosed E ty a"
| "agps_step E a ModemSSR = handleModemSSR E a"
| "agps_step E a RetryTimeout = on_nif DsN retryCallback a"

text \<open>The data services callbacks are registered when they are configured to be used.\<close>

definition env_ok :: "agps_env \<Rightarrow> bool" where
  "env_ok E \<longleftrightarrow> (use_emergency_pdn E \<longrightarrow> ds_stop E \<and> ds_close E \<and> ds_release E \<and> ds_init E \<noteq> None)"

definition has_sm :: "agps_env \<Rightarrow> int \<Rightarrow> AgpsManager \<Rightarrow> bool" where
  "has_sm E ty a \<longleftrightarrow> (let (n, a1) = getAgpsStateMachine E ty a in get_nif n a1 \<noteq> None)"

text \<open>\<open>releaseATL\<close> deletes the subscriber while the deletion loop still compares with it.\<close>

definition unsafe_release :: "int \<Rightarrow> AgpsManager \<Rightarrow> bool" where
  "unsafe_release h a \<longleftrightarrow>
     (case find_sm h a [Agnss, Internet, DsN] of
        Some (Some (n, p)) \<Rightarrow>
          (case get_nif n a of
             None \<Rightarrow> False
           | Some m \<Rightarrow> mState m \<noteq> AGPS_STATE_RELEASED \<and> \<not> mWaitForCloseComplete (sub_at (ctx a) p) \<and>
                       last (mSubscriberList m) \<noteq> p)
      | _ \<Rightarrow> False)"

text \<open>
  What the run takes from its surroundings, none of it about the state of the machines: the callbacks are
  registered, the allocator returns fresh addresses, the APN buffer of a report is readable for its length, and
  the retry timer can only expire once the machine that starts it has been created.
\<close>

fun agps_given :: "agps_env \<Rightarrow> AgpsManager \<Rightarrow> agps_req \<Rightarrow> bool" where
  "agps_given E a (RequestATL stk nw h ty) \<longleftrightarrow> env_ok E \<and> subs (ctx a) stk = None \<and> subs (ctx a) nw = None \<and> stk \<noteq> nw"
| "agps_given E a (AtlOpenSuccess ty apn len b) \<longleftrightarrow> env_ok E \<and>
     (case apn of None \<Rightarrow> True | Some bs \<Rightarrow> unat len \<le> length bs \<and> len + 1 \<noteq> 0)"
| "agps_given E a RetryTimeout \<longleftrightarrow> mDsNif a \<noteq> None"
| "agps_given E a _ \<longleftrightarrow> env_ok E"

text \<open>The requests that touch a deleted subscriber or call a machine that was never created.\<close>

fun agps_faulty :: "agps_env \<Rightarrow> AgpsManager \<Rightarrow> agps_req \<Rightarrow> bool" where
  "agps_faulty E a (ReleaseATL h) \<longleftrightarrow> unsafe_release h a"
| "agps_faulty E a (AtlOpenSuccess ty apn len b) \<longleftrightarrow> \<not> has_sm E ty a"
| "agps_faulty E a (AtlOpenFailed ty) \<longleftrightarrow> \<not> has_sm E ty a"
| "agps_faulty E a (AtlClosed ty) \<longleftrightarrow> \<not> has_sm E ty a"
| "agps_faulty E a _ \<longleftrightarrow> False"

lemma new_sm_ok [simp]: "sm_ok (new_sm ty, c)" "mSubscriberList (new_sm ty) = []" "base_ok (new_sm ty)"
  by (simp_all add: sm_ok_def new_sm_def base_ok_def)

lemma inv_new_nif:
  "agps_inv_with X E a \<Longrightarrow> get_nif n a = None \<Longrightarrow> (n = DsN \<Longrightarrow> use_emergency_pdn E) \<Longrightarrow>
     agps_inv_with X E (set_nif n (new_sm ty) a)"
proof -
  assume a: "agps_inv_with X E a" "get_nif n a = None" "n = DsN \<Longrightarrow> use_emergency_pdn E"
  then have "owned (set_nif n (new_sm ty) a) = owned a" by (auto simp: fun_eq_iff owned_def)
  with a show ?thesis by (auto simp: agps_inv_with_def split: if_splits)
qed

lemma inv_ctx:
  assumes "agps_inv_with X E a" and "subs c = subs (ctx a)"
  shows "agps_inv_with X E (a\<lparr>ctx := c\<rparr>)"
proof -
  have "sm_ok (m, c) = sm_ok (m, ctx a)" for m using assms(2) by (simp add: sm_ok_def)
  with assms show ?thesis by (simp add: agps_inv_with_def)
qed

lemma create_inv:
  assumes "agps_inv_with X E a"
  shows "agps_inv_with X E (createAgpsStateMachines E a)"
proof -
  have new: "agps_inv_with X E b \<Longrightarrow> mInternetNif b = None \<Longrightarrow> agps_inv_with X E (b\<lparr>mInternetNif := Some (new_sm ty)\<rparr>)"
    "agps_inv_with X E b \<Longrightarrow> mAgnssNif b = None \<Longrightarrow> agps_inv_with X E (b\<lparr>mAgnssNif := Some (new_sm ty)\<rparr>)"
    "agps_inv_with X E b \<Longrightarrow> mDsNif b = None \<Longrightarrow> use_emergency_pdn E \<Longrightarrow> agps_inv_with X E (b\<lparr>mDsNif := Some (new_sm ty)\<rparr>)"
    for b ty
    using inv_new_nif [of X E b Internet ty] inv_new_nif [of X E b Agnss ty] inv_new_nif [of X E b DsN ty] by simp_all
  have emit: "agps_inv_with X E b \<Longrightarrow> agps_inv_with X E (b\<lparr>ctx := emit x (ctx b)\<rparr>)" for b x
    by (rule inv_ctx) simp_all
  define a1 where "a1 = (if mInternetNif a = None then a\<lparr>mInternetNif := Some (new_sm LOC_AGPS_TYPE_WWAN_ANY)\<rparr> else a)"
  define a2 where "a2 = (if mAgnssNif a1 = None then a1\<lparr>mAgnssNif := Some (new_sm LOC_AGPS_TYPE_SUPL)\<rparr> else a1)"
  have i1: "agps_inv_with X E a1" using assms new(1) by (simp add: a1_def)
  then have i2: "agps_inv_with X E a2" using new(2) by (simp add: a2_def)
  have i3: "mDsNif a2 = None \<Longrightarrow> use_emergency_pdn E \<Longrightarrow>
      agps_inv_with X E (a2\<lparr>ctx := emit x (ctx a2), mDsNif := Some (new_sm ty)\<rparr>)" for x ty
    by (rule new(3) [OF emit [OF i2]]) simp_all
  show ?thesis
    unfolding createAgpsStateMachines_def Let_def a1_def [symmetric] a2_def [symmetric]
    using i1 i2 i3 emit [OF i2] by (auto split: option.split)
qed

lemma getSM_inv: "agps_inv_with X E a \<Longrightarrow> getAgpsStateMachine E ty a = (n, a1) \<Longrightarrow> agps_inv_with X E a1"
  by (auto simp: getAgpsStateMachine_def create_inv split: if_splits)

lemma inv_sm: "agps_inv_with X E a \<Longrightarrow> get_nif n a = Some m \<Longrightarrow> sm_ok (m, ctx a) \<and> (n \<noteq> DsN \<longrightarrow> base_ok m)"
  by (simp add: agps_inv_with_def)

lemma inv_owned: "agps_inv_with X E a \<Longrightarrow> set (owned a n) \<subseteq> dom (subs (ctx a)) - X"
  unfolding agps_inv_with_def by blast

lemma inv_ds: "agps_inv_with X E a \<Longrightarrow> get_nif DsN a = Some m \<Longrightarrow> use_emergency_pdn E"
  by (simp add: agps_inv_with_def)

text \<open>An event of a machine reached through the manager. \<open>g\<close> is what the manager writes before.\<close>

lemma event_inv:
  assumes inv: "agps_inv_with X E a" and env: "env_ok E" and m: "get_nif n a = Some m"
    and g: "mSubscriberList (g m) = mSubscriberList m" "mState (g m) = mState m"
    and ev: "event = AGPS_EVENT_SUBSCRIBE \<Longrightarrow> subs (ctx a) nw = None \<and> (\<exists>cur. mCurrentSubscriber (g m) = Some cur \<and> subs (ctx a) cur \<noteq> None)"
      "event = AGPS_EVENT_UNSUBSCRIBE \<Longrightarrow> \<exists>p. mCurrentSubscriber (g m) = Some p \<and> p \<in> set (mSubscriberList m) \<and>
        (mState m = AGPS_STATE_RELEASED \<or> mWaitForCloseComplete (sub_at (ctx a) p) \<or> last (mSubscriberList m) = p)"
    and f: "f (m, ctx a) = processAgpsEvent E (n = DsN) nw event (g m, ctx a)"
  shows "\<exists>a'. on_nif n f a = Some a' \<and> agps_inv_with X E a'"
proof -
  note sm = inv_sm [OF inv m]
  have ok: "sm_ok (g m, ctx a)" using sm g by (auto simp: sm_ok_def)
  have bo: "n \<noteq> DsN \<longrightarrow> base_ok (g m)" using sm g by (auto simp: base_ok_def)
  have "event_ok E (n = DsN) nw event (g m, ctx a)"
    using ev env inv_ds [OF inv] m g by (auto simp: event_ok_def env_ok_def)
  from processAgpsEvent_post [OF ok this] bo obtain mc' where
    p: "processAgpsEvent E (n = DsN) nw event (g m, ctx a) = Some mc'"
      "sm_post (if event = AGPS_EVENT_SUBSCRIBE then {nw} else {}) (g m, ctx a) mc'" "n \<noteq> DsN \<longrightarrow> base_ok (fst mc')"
    by auto
  have "sm_post (if event = AGPS_EVENT_SUBSCRIBE then {nw} else {}) (m, ctx a) mc'"
    by (rule sm_post_from [OF p(2)]) (use g in simp_all)
  moreover have "(if event = AGPS_EVENT_SUBSCRIBE then {nw} else {}) \<inter> dom (subs (ctx a)) = {}" using ev(1) by auto
  ultimately show ?thesis using on_nif_post [where f = f, OF inv m _ _ p(3)] p(1) f by simp
qed

lemmas plain_event_inv = event_inv [where g = "\<lambda>m. m" and nw = 0, simplified]

lemma inv_local:
  assumes "agps_inv E a" and "subs (ctx a) p = None"
  shows "agps_inv_with {p} E (a\<lparr>ctx := (ctx a)\<lparr>subs := (subs (ctx a))(p \<mapsto> s)\<rparr>\<rparr>)"
proof -
  have p: "p \<notin> set (owned a n)" for n using assms(2) inv_owned [OF assms(1), of n] by auto
  have "sm_ok (m, (ctx a)\<lparr>subs := (subs (ctx a))(p \<mapsto> s)\<rparr>)" if "get_nif n a = Some m" for n m
    by (rule sm_ok_frame [where c = "ctx a"]) (use that inv_sm [OF assms(1)] p [of n] in \<open>auto simp: owned_def\<close>)
  with assms p show ?thesis unfolding agps_inv_with_def by auto
qed

lemma inv_local_end:
  assumes "agps_inv_with {p} E a"
  shows "agps_inv E (a\<lparr>ctx := (ctx a)\<lparr>subs := free_at (subs (ctx a)) p\<rparr>\<rparr>)"
proof -
  have p: "p \<notin> set (owned a n)" for n using inv_owned [OF assms, of n] by auto
  have "sm_ok (m, (ctx a)\<lparr>subs := free_at (subs (ctx a)) p\<rparr>)" if "get_nif n a = Some m" for n m
    by (rule sm_ok_frame [where c = "ctx a"]) (use that inv_sm [OF assms(1)] p [of n] in \<open>auto simp: owned_def free_at_def\<close>)
  with assms p show ?thesis unfolding agps_inv_with_def by (auto simp: free_at_def)
qed

lemma request_inv:
  assumes inv: "agps_inv E a" and env: "env_ok E" and fresh: "subs (ctx a) stk = None" "subs (ctx a) nw = None" "stk \<noteq> nw"
  shows "\<exists>a'. requestATL E stk nw h ty a = Some a' \<and> agps_inv E a'"
proof -
  obtain n a1 where g: "getAgpsStateMachine E ty a = (n, a1)" by (cases "getAgpsStateMachine E ty a")
  have i1: "agps_inv E a1" by (rule getSM_inv [OF inv g])
  have s1: "subs (ctx a1) = subs (ctx a)"
    using g by (auto simp: getAgpsStateMachine_def createAgpsStateMachines_def Let_def split: if_splits option.splits)
  show ?thesis
  proof (cases "get_nif n a1")
    case None
    with g inv_ctx [OF i1] show ?thesis by (simp add: requestATL_def)
  next
    case (Some m)
    define sub where "sub = \<lparr>mConnHandle = h, mWaitForCloseComplete = (ty = LOC_AGPS_TYPE_SUPL_ES), mIsInactive = False\<rparr>"
    define a2 where "a2 = a1\<lparr>ctx := (ctx a1)\<lparr>subs := (subs (ctx a1))(stk \<mapsto> sub)\<rparr>\<rparr>"
    have i2: "agps_inv_with {stk} E a2" unfolding a2_def by (rule inv_local [OF i1]) (simp add: s1 fresh)
    let ?g = "\<lambda>m. m\<lparr>mCurrentSubscriber := Some stk\<rparr>"
    let ?f = "\<lambda>(m, c). processAgpsEvent E (n = DsN) nw AGPS_EVENT_SUBSCRIBE (?g m, c)"
    have "\<exists>a3. on_nif n ?f a2 = Some a3 \<and> agps_inv_with {stk} E a3"
      by (rule event_inv [where g = ?g, OF i2 env]) (use Some fresh s1 in \<open>auto simp: a2_def\<close>)
    then obtain a3 where a3: "on_nif n ?f a2 = Some a3" "agps_inv_with {stk} E a3" by blast
    from inv_local_end [OF a3(2)] a3(1) g Some show ?thesis
      by (simp add: requestATL_def sub_def [symmetric] a2_def [symmetric])
  qed
qed

text \<open>Looking a handle up in the three lists.\<close>

lemma find_in_eq:
  assumes "agps_inv_with X E a"
  shows "find_in h a n = Some (find (\<lambda>p. mConnHandle (sub_at (ctx a) p) = h) (owned a n))"
proof (cases "get_nif n a")
  case None
  then show ?thesis by (simp add: find_in_def owned_def)
next
  case (Some m)
  with inv_sm [OF assms Some] show ?thesis
    by (simp add: find_in_def owned_def getSubscriber_def getSubscriber_eq sm_ok_def)
qed

lemma find_sm_cases:
  assumes "agps_inv_with X E a"
  obtains (none) "find_sm h a ns = Some None"
    | (found) n p m where "find_sm h a ns = Some (Some (n, p))" "get_nif n a = Some m" "p \<in> set (mSubscriberList m)"
proof (induction ns)
  case Nil
  then show ?case by simp
next
  case (Cons n ns)
  show ?case
  proof (cases "find (\<lambda>p. mConnHandle (sub_at (ctx a) p) = h) (owned a n)")
    case None
    with Cons find_in_eq [OF assms] show ?thesis by simp
  next
    case (Some p)
    then have "p \<in> set (owned a n)" by (auto dest: find_live)
    then obtain m where "get_nif n a = Some m" "p \<in> set (mSubscriberList m)" by (cases "get_nif n a") (auto simp: owned_def)
    moreover have "find_sm h a (n # ns) = Some (Some (n, p))" using Some find_in_eq [OF assms, of h n] by simp
    ultimately show ?thesis using Cons.prems(2) by blast
  qed
qed

lemma unsubscribe_unsafe:
  assumes "sm_ok mc" and "mCurrentSubscriber (fst mc) = Some p" and "p \<in> set (mSubscriberList (fst mc))"
    and "mState (fst mc) \<noteq> AGPS_STATE_RELEASED" and "\<not> mWaitForCloseComplete (sub_at (snd mc) p)"
    and "last (mSubscriberList (fst mc)) \<noteq> p"
  shows "processAgpsEvent E ds nw AGPS_EVENT_UNSUBSCRIBE mc = None"
proof -
  obtain m c where mc: "mc = (m, c)" by (cases mc)
  let ?l = "mSubscriberList m"
  have ok: "live c ?l" "distinct (map (\<lambda>p. mConnHandle (sub_at c p)) ?l)" "mState m \<noteq> AGPS_STATE_INVALID"
    using assms(1) by (auto simp: sm_ok_def mc)
  from assms(3) ok mc obtain s where s: "subs c p = Some s" by auto
  from assms(3) mc obtain ps qs where l: "?l = ps @ p # qs" by (auto simp: in_set_conv_decomp)
  with assms(6) mc have "qs \<noteq> []" by auto
  with deleteSubscriber_loop_self [of ps p qs "subs c"] ok l have D: "deleteSubscriber_loop p ?l (subs c) = None" by simp
  have k: "note_ok E ds AGPS_EVENT_UNSUBSCRIBE" by (simp add: note_ok_def)
  from notify_eq [OF k s, of m] s D
  have "notifyEventToSubscriber E ds AGPS_EVENT_UNSUBSCRIBE p True (m, c) = None"
    by (auto simp: notifyEventToSubscriber_def deref_def deleteSubscriber_def note_sm_def note_outs_def
        split: Option.bind_splits)
  with assms(2,5) s mc have "unsubscribe_current E ds mc = None" by (simp add: unsubscribe_current_def deref_def)
  with assms(4) ok(3) mc show ?thesis
    by (cases "mState m") (simp_all add: processAgpsEvent_def processAgpsEvent_base_def processAgpsEventUnsubscribe_def)
qed

lemma release_inv:
  assumes inv: "agps_inv E a" and env: "env_ok E"
  shows "if unsafe_release h a then releaseATL E h a = None
    else \<exists>a'. releaseATL E h a = Some a' \<and> agps_inv E a'"
proof (rule find_sm_cases [OF inv, of h "[Agnss, Internet, DsN]"])
  assume "find_sm h a [Agnss, Internet, DsN] = Some None"
  with inv_ctx [OF inv] show ?thesis by (simp add: releaseATL_def unsafe_release_def)
next
  fix n p m
  assume F: "find_sm h a [Agnss, Internet, DsN] = Some (Some (n, p))" "get_nif n a = Some m" "p \<in> set (mSubscriberList m)"
  let ?g = "\<lambda>m. m\<lparr>mCurrentSubscriber := Some p\<rparr>"
  let ?f = "\<lambda>(m, c). processAgpsEvent E (n = DsN) 0 AGPS_EVENT_UNSUBSCRIBE (?g m, c)"
  have rel: "releaseATL E h a = on_nif n ?f a" using F by (simp add: releaseATL_def)
  show ?thesis
  proof (cases "unsafe_release h a")
    case True
    have "sm_ok (?g m, ctx a)" using inv_sm [OF inv F(2)] by (simp add: sm_ok_def)
    from unsubscribe_unsafe [OF this, of p E "n = DsN" 0] True F rel show ?thesis
      by (simp add: unsafe_release_def on_nif_def)
  next
    case False
    have "\<exists>a'. on_nif n ?f a = Some a' \<and> agps_inv E a'"
      by (rule event_inv [where g = ?g, OF inv env F(2)]) (use False F in \<open>auto simp: unsafe_release_def\<close>)
    with False rel show ?thesis by simp
  qed
qed

lemma setAPN_fields:
  assumes "case buf of None \<Rightarrow> True | Some bs \<Rightarrow> unat len \<le> length bs \<and> len + 1 \<noteq> 0"
  shows "\<exists>m'. setAPN buf len m = Some m' \<and> mSubscriberList m' = mSubscriberList m \<and> mState m' = mState m"
  using assms by (auto simp: setAPN_def Let_def split: option.splits)

lemma report_inv:
  assumes inv: "agps_inv E a" and env: "env_ok E" and has: "has_sm E ty a"
  shows "\<exists>a'. reportAtlOpenFailed E ty a = Some a' \<and> agps_inv E a'"
    and "\<exists>a'. reportAtlClosed E ty a = Some a' \<and> agps_inv E a'"
    and "(case apn of None \<Rightarrow> True | Some bs \<Rightarrow> unat len \<le> length bs \<and> len + 1 \<noteq> 0) \<Longrightarrow>
      \<exists>a'. reportAtlOpenSuccess E ty apn len b a = Some a' \<and> agps_inv E a'"
proof -
  obtain n a1 where g: "getAgpsStateMachine E ty a = (n, a1)" by (cases "getAgpsStateMachine E ty a")
  have i1: "agps_inv E a1" by (rule getSM_inv [OF inv g])
  from has g obtain m where m: "get_nif n a1 = Some m" by (auto simp: has_sm_def)
  show "\<exists>a'. reportAtlOpenFailed E ty a = Some a' \<and> agps_inv E a'"
    unfolding reportAtlOpenFailed_def g Let_def prod.case by (rule plain_event_inv [OF i1 env m]) simp_all
  show "\<exists>a'. reportAtlClosed E ty a = Some a' \<and> agps_inv E a'"
    unfolding reportAtlClosed_def g Let_def prod.case by (rule plain_event_inv [OF i1 env m]) simp_all
  assume "case apn of None \<Rightarrow> True | Some bs \<Rightarrow> unat len \<le> length bs \<and> len + 1 \<noteq> 0"
  from setAPN_fields [OF this, of "m\<lparr>mBearer := b\<rparr>"] obtain m1 where
    m1: "setAPN apn len (m\<lparr>mBearer := b\<rparr>) = Some m1" "mSubscriberList m1 = mSubscriberList m" "mState m1 = mState m" by auto
  show "\<exists>a'. reportAtlOpenSuccess E ty apn len b a = Some a' \<and> agps_inv E a'"
    unfolding reportAtlOpenSuccess_def g Let_def prod.case
    by (rule event_inv [where g = "\<lambda>_. m1", OF i1 env m]) (use m1 in simp_all)
qed

lemma data_call_inv:
  assumes "agps_inv E a" and "env_ok E"
  shows "\<exists>a'. reportDataCallOpened E a = Some a' \<and> agps_inv E a'"
    and "\<exists>a'. reportDataCallClosed E a = Some a' \<and> agps_inv E a'"
proof -
  have "\<exists>a'. (if mDsNif a \<noteq> None then on_nif DsN (processAgpsEvent E True 0 e) a else Some a) = Some a' \<and> agps_inv E a'"
    if "e \<noteq> AGPS_EVENT_SUBSCRIBE" "e \<noteq> AGPS_EVENT_UNSUBSCRIBE" for e
    using assms that plain_event_inv [OF assms, of DsN] by (cases "mDsNif a") auto
  then show "\<exists>a'. reportDataCallOpened E a = Some a' \<and> agps_inv E a'"
    "\<exists>a'. reportDataCallClosed E a = Some a' \<and> agps_inv E a'"
    by (simp_all add: reportDataCallOpened_def reportDataCallClosed_def)
qed

lemma drop_inv:
  assumes "agps_inv E a"
  shows "\<exists>a'. drop_nif n a = Some a' \<and> agps_inv E a'"
proof (cases "get_nif n a")
  case None
  with assms show ?thesis by (simp add: drop_nif_def)
next
  case (Some m)
  let ?mc = "(m\<lparr>mSubscriberList := []\<rparr>, (ctx a)\<lparr>subs := (subs (ctx a)) |` (- set (mSubscriberList m))\<rparr>)"
  have ok: "sm_ok (m, ctx a)" using inv_sm [OF assms Some] by blast
  then have d: "dropAllSubscribers (m, ctx a) = Some ?mc"
    by (simp add: dropAllSubscribers_def sm_ok_def dropAll_eq)
  have "sm_post {} (m, ctx a) ?mc" using ok by (auto simp: sm_post_def sm_ok_def)
  from on_nif_post [where f = dropAllSubscribers, OF assms Some d this] Some show ?thesis
    by (simp add: drop_nif_def base_ok_def)
qed

lemma ssr_inv:
  assumes "agps_inv E a" and "env_ok E"
  shows "\<exists>a'. handleModemSSR E a = Some a' \<and> agps_inv E a'"
proof -
  from drop_inv [OF assms(1), of Agnss] obtain a1 where 1: "drop_nif Agnss a = Some a1" "agps_inv E a1" by blast
  from drop_inv [OF 1(2), of Internet] obtain a2 where 2: "drop_nif Internet a1 = Some a2" "agps_inv E a2" by blast
  from drop_inv [OF 2(2), of DsN] obtain a3 where 3: "drop_nif DsN a2 = Some a3" "agps_inv E a3" by blast
  from 1 2 3 assms(2) inv_ctx [OF 3(2)] show ?thesis by (simp add: handleModemSSR_def env_ok_def)
qed

lemma retry_inv:
  assumes "agps_inv E a" and "get_nif DsN a = Some m"
  shows "\<exists>a'. on_nif DsN retryCallback a = Some a' \<and> agps_inv E a'"
proof -
  have ok: "sm_ok (m, ctx a)" using inv_sm [OF assms] by blast
  then have f: "getFirstSubscriber False (m, ctx a) = Some (find (\<lambda>p. \<not> mIsInactive (sub_at (ctx a) p)) (mSubscriberList m))"
    by (simp add: getFirstSubscriber_def sm_ok_def getFirst_eq)
  have "\<exists>mc'. retryCallback (m, ctx a) = Some mc' \<and> quiet (m, ctx a) mc'"
  proof (cases "find (\<lambda>p. \<not> mIsInactive (sub_at (ctx a) p)) (mSubscriberList m)")
    case None
    with f show ?thesis by (simp add: retryCallback_def)
  next
    case (Some p)
    then obtain s where "subs (ctx a) p = Some s" using find_live [OF Some] ok by (auto simp: sm_ok_def)
    with Some f show ?thesis by (simp add: retryCallback_def deref_def quiet_emit)
  qed
  then obtain mc' where r: "retryCallback (m, ctx a) = Some mc'" "quiet (m, ctx a) mc'" by blast
  from on_nif_post [where f = retryCallback, OF assms r(1) sm_post_quiet [OF sm_post_refl [OF ok] r(2)]] show ?thesis by simp
qed

lemma report_missing:
  assumes "\<not> has_sm E ty a"
  shows "reportAtlOpenFailed E ty a = None" and "reportAtlClosed E ty a = None" and "reportAtlOpenSuccess E ty apn len b a = None"
proof -
  obtain n a1 where g: "getAgpsStateMachine E ty a = (n, a1)" by (cases "getAgpsStateMachine E ty a")
  with assms have "get_nif n a1 = None" by (simp add: has_sm_def)
  with g show "reportAtlOpenFailed E ty a = None" "reportAtlClosed E ty a = None" "reportAtlOpenSuccess E ty apn len b a = None"
    by (simp_all add: reportAtlOpenFailed_def reportAtlClosed_def reportAtlOpenSuccess_def on_nif_def)
qed

lemma agps_step_sharp:
  assumes "agps_inv E a" and "agps_given E a r"
  shows "if agps_faulty E a r then agps_step E a r = None else \<exists>a'. agps_step E a r = Some a' \<and> agps_inv E a'"
proof (cases r)
  case (ReleaseATL h)
  with assms release_inv [OF assms(1), of h] show ?thesis by simp
next
  case (AtlOpenSuccess ty apn len b)
  with assms report_inv(3) [OF assms(1), where ty = ty and apn = apn and len = len and b = b] report_missing(3) show ?thesis by simp
next
  case (AtlOpenFailed ty)
  with assms report_inv(1) [OF assms(1), of ty] report_missing(1) show ?thesis by simp
next
  case (AtlClosed ty)
  with assms report_inv(2) [OF assms(1), of ty] report_missing(2) show ?thesis by simp
qed (use assms in \<open>auto simp: create_inv intro: request_inv data_call_inv ssr_inv retry_inv\<close>)

text \<open>A component that faults at exactly the requests a predicate names.\<close>

locale faulting_component = component +
  fixes fault :: "'a \<Rightarrow> 'b \<Rightarrow> bool"
  assumes faults: "inv s \<Longrightarrow> legal s x \<Longrightarrow> step s x = None \<longleftrightarrow> fault s x"
begin

lemma run_faults_iff:
  "inv s \<Longrightarrow> legal_run step legal s xs \<Longrightarrow>
     run_steps step s xs = None \<longleftrightarrow> (\<exists>ys x zs t. xs = ys @ x # zs \<and> run_steps step s ys = Some t \<and> fault t x)"
proof (induction xs arbitrary: s)
  case Nil
  then show ?case by simp
next
  case (Cons x xs)
  show ?case
  proof (cases "step s x")
    case None
    with Cons.prems have "fault s x" by (simp add: faults [symmetric])
    with None show ?thesis by (force intro: exI [of _ "[]"])
  next
    case (Some t)
    with Cons.prems have t: "inv t" "legal_run step legal t xs" and nf: "\<not> fault s x"
      by (auto intro: inv_step simp: faults [symmetric])
    have "run_steps step s (x # xs) = None \<longleftrightarrow> run_steps step t xs = None" using Some by simp
    also have "\<dots> \<longleftrightarrow> (\<exists>ys y zs u. xs = ys @ y # zs \<and> run_steps step t ys = Some u \<and> fault u y)"
      by (rule Cons.IH [OF t])
    also have "\<dots> \<longleftrightarrow> (\<exists>ys y zs u. x # xs = ys @ y # zs \<and> run_steps step s ys = Some u \<and> fault u y)" (is "?l \<longleftrightarrow> ?r")
    proof
      assume ?l
      then obtain ys y zs u where "xs = ys @ y # zs" "run_steps step t ys = Some u" "fault u y" by blast
      with Some show ?r by (intro exI [of _ "x # ys"] exI [of _ y] exI [of _ zs] exI [of _ u]) simp
    next
      assume ?r
      then obtain ys y zs u where r: "x # xs = ys @ y # zs" "run_steps step s ys = Some u" "fault u y" by blast
      with nf Some show ?l by (cases ys) auto
    qed
    finally show ?thesis .
  qed
qed

lemma legal_prefix: "legal_run step legal s (ys @ zs) \<Longrightarrow> legal_run step legal s ys"
  by (induction ys arbitrary: s) (auto split: option.splits)

lemma prefix_inv:
  "inv s \<Longrightarrow> legal_run step legal s (ys @ zs) \<Longrightarrow> run_steps step s ys = Some t \<Longrightarrow> inv t"
  by (rule inv_run [OF _ legal_prefix])

end

interpretation agps: faulting_component "agps_step E" "agps_inv E" "agps_given E" "agps_faulty E" for E
proof (unfold_locales, goal_cases)
  case (1 a r a')
  then show ?case using agps_step_sharp [of E a r] by (auto split: if_splits)
next
  case (2 a r)
  then show ?case using agps_step_sharp [of E a r] by (auto split: if_splits)
qed

section \<open>Properties\<close>

definition new_manager :: AgpsManager where
  "new_manager = \<lparr>ctx = \<lparr>subs = Map.empty, outs = []\<rparr>, mAgnssNif = None, mInternetNif = None, mDsNif = None\<rparr>"

lemma new_manager_inv: "agps_inv E new_manager"
proof -
  have "get_nif n new_manager = None" for n by (cases n) (simp_all add: new_manager_def)
  then show ?thesis by (simp add: agps_inv_with_def owned_def) (simp add: new_manager_def)
qed

text \<open>
  C22. Where the AGPS component uses memory it must not. Take any sequence of requests and reports from a new manager, with
  the callbacks registered and the allocator returning fresh addresses. After every part of it that runs, every subscriber object is owned by exactly one
  machine (nothing leaks and nothing is shared), handles are unique in each list, and a released SUPL or internet machine has no subscribers. The run
  touches a deleted subscriber or a null machine if and only if it comes to a release of a subscriber that is not the last of its list, does not wait for the close and
  whose machine is not released, or to a report of the framework for a machine that does not exist; every other run goes to its end.
\<close>

theorem agps_run_safe:
  assumes "legal_run (agps_step E) (agps_given E) new_manager rs"
  shows "(\<forall>qs qs' a. rs = qs @ qs' \<and> run_steps (agps_step E) new_manager qs = Some a \<longrightarrow> agps_inv E a) \<and>
    (run_steps (agps_step E) new_manager rs = None \<longleftrightarrow>
      (\<exists>qs r qs' a. rs = qs @ r # qs' \<and> run_steps (agps_step E) new_manager qs = Some a \<and> agps_faulty E a r))"
  using agps.prefix_inv [OF new_manager_inv] agps.run_faults_iff [OF new_manager_inv assms] assms by blast

definition demo_env :: "int \<Rightarrow> agps_env" where
  "demo_env r = \<lparr>ds_init = Some 0, ds_open = Some r, ds_stop = True, ds_close = True, ds_release = True,
     timer_handle = True, agpsCapable = True, use_emergency_pdn = True\<rparr>"

definition demo_run :: "agps_req list" where
  "demo_run = [CreateAgps, RequestATL 10 1 7 1, RequestATL 10 2 8 5, AtlOpenSuccess 1 (Some ''apn'') 3 0,
     DataCallOpened, ReleaseATL 7, ReleaseATL 8, DataCallClosed, ModemSSR]"

lemmas agps_eval = demo_env_def demo_run_def new_manager_def env_ok_def has_sm_def unsafe_release_def
  getAgpsStateMachine_def createAgpsStateMachines_def requestATL_def releaseATL_def reportDataCallOpened_def
  reportDataCallClosed_def reportAtlOpenSuccess_def handleModemSSR_def drop_nif_def on_nif_def find_in_def
  getSubscriber_def processAgpsEvent_def processAgpsEvent_base_def processAgpsEventSubscribe_def
  processAgpsEventUnsubscribe_def processAgpsEventGranted_def processAgpsEventReleased_def finish_releasing_def
  processAgpsEventDenied_def unsubscribe_current_def requestOrReleaseDataConn_def requestOrRelease_ds_def
  requestOrRelease_base_def ds_open_result_def notifyAllSubscribers_def notifyEventToSubscriber_def notify_base_def
  notify_ds_def wanted_def addSubscriber_def deleteSubscriber_def dropAllSubscribers_def delete_sub_def
  anyActiveSubscribers_def getFirstSubscriber_def transitionState_def setAPN_def new_sm_def emit_def deref_def
  free_at_def LOC_AGPS_TYPE_INVALID_def LOC_AGPS_TYPE_SUPL_def LOC_AGPS_TYPE_WWAN_ANY_def LOC_AGPS_TYPE_SUPL_ES_def
  AGPS_APN_BEARER_INVALID_def LOC_API_ADAPTER_ERR_ENGINE_BUSY_def LOC_API_ADAPTER_ERR_UNSUPPORTED_def
  MAX_START_DATA_CALL_RETRIES_def retryCallback_def

lemma demo_run_given:
  "legal_run (agps_step (demo_env 0)) (agps_given (demo_env 0)) new_manager demo_run"
  "run_steps (agps_step (demo_env 0)) new_manager demo_run \<noteq> None"
  by (simp_all add: agps_eval)

lemma demo_fault_given:
  "legal_run (agps_step (demo_env 0)) (agps_given (demo_env 0)) new_manager [CreateAgps, RequestATL 10 1 7 1, RequestATL 10 2 8 1, ReleaseATL 7]"
  "run_steps (agps_step (demo_env 0)) new_manager [CreateAgps, RequestATL 10 1 7 1, RequestATL 10 2 8 1, ReleaseATL 7] = None"
  by (simp_all add: agps_eval)

theorem agps_run_safe_witness:
  "(\<exists>a. run_steps (agps_step (demo_env 0)) new_manager demo_run = Some a \<and> agps_inv (demo_env 0) a) \<and>
   (\<exists>qs r qs' a. [CreateAgps, RequestATL 10 1 7 1, RequestATL 10 2 8 1, ReleaseATL 7] = qs @ r # qs' \<and>
      run_steps (agps_step (demo_env 0)) new_manager qs = Some a \<and> agps_faulty (demo_env 0) a r)"
proof
  from demo_run_given(2) obtain a where a: "run_steps (agps_step (demo_env 0)) new_manager demo_run = Some a" by auto
  have "demo_run = demo_run @ []" by simp
  with agps_run_safe [OF demo_run_given(1)] a
  show "\<exists>a. run_steps (agps_step (demo_env 0)) new_manager demo_run = Some a \<and> agps_inv (demo_env 0) a" by blast
  from agps_run_safe [OF demo_fault_given(1)] demo_fault_given(2)
  show "\<exists>qs r qs' a. [CreateAgps, RequestATL 10 1 7 1, RequestATL 10 2 8 1, ReleaseATL 7] = qs @ r # qs' \<and>
      run_steps (agps_step (demo_env 0)) new_manager qs = Some a \<and> agps_faulty (demo_env 0) a r" by blast
qed

text \<open>
  C40. Exactly when releasing a connection uses freed memory. With every machine in order, \<open>releaseATL\<close> faults
  if and only if it finds a subscriber that need not wait for the connection to close, in a machine that is not
  released, and that subscriber is not the last of the machine's list: \<open>deleteSubscriber\<close> then goes on comparing
  the remaining subscribers with the object it has just deleted.
\<close>

theorem releaseATL_faults_iff:
  assumes "agps_inv E a" and "env_ok E"
  shows "releaseATL E h a = None \<longleftrightarrow> unsafe_release h a"
  using release_inv [OF assms, of h] by (auto split: if_splits)

definition two_subs :: AgpsManager where
  "two_subs = the (run_steps (agps_step (demo_env 0)) new_manager [CreateAgps, RequestATL 10 1 7 1, RequestATL 10 2 8 1])"

lemma two_subs_inv: "agps_inv (demo_env 0) two_subs"
proof -
  let ?rs = "[CreateAgps, RequestATL 10 1 7 1, RequestATL 10 2 8 1]"
  have "legal_run (agps_step (demo_env 0)) (agps_given (demo_env 0)) new_manager ?rs"
    "run_steps (agps_step (demo_env 0)) new_manager ?rs \<noteq> None" by (simp_all add: agps_eval)
  with agps.inv_run [OF new_manager_inv, of "demo_env 0" ?rs] show ?thesis by (auto simp: two_subs_def)
qed

theorem releaseATL_faults_iff_witness:
  "releaseATL (demo_env 0) 7 two_subs = None \<and> releaseATL (demo_env 0) 8 two_subs \<noteq> None"
proof -
  have "env_ok (demo_env 0)" by (simp add: agps_eval)
  note r = releaseATL_faults_iff [OF two_subs_inv this]
  have "unsafe_release 7 two_subs" "\<not> unsafe_release 8 two_subs" by (simp_all add: two_subs_def agps_eval)
  with r show ?thesis by simp
qed

text \<open>
  C32. A granted data connection is announced to exactly the active subscribers, in the order they
  subscribed, and only when the machine is waiting for it; the machine is then acquired and keeps all its
  subscribers. In every other state the event changes nothing. The SUPL and internet machines announce the APN, bearer
  and type of the machine, the data services machine the fixed emergency type.
\<close>

theorem granted_notifies_active:
  assumes "sm_ok (m, c)"
  shows "processAgpsEvent E ds nw AGPS_EVENT_GRANTED (m, c) = Some (
    if mState m = AGPS_STATE_PENDING
    then (m\<lparr>mState := AGPS_STATE_ACQUIRED\<rparr>,
          c\<lparr>outs := outs c @ map (\<lambda>p. if ds then AtlOpenStatus (mConnHandle (sub_at c p)) True None AGPS_APN_BEARER_INVALID LOC_AGPS_TYPE_SUPL_ES
                                    else AtlOpenStatus (mConnHandle (sub_at c p)) True (mAPN m) (mBearer m) (mAgpsType m))
                                 (filter (\<lambda>p. \<not> mIsInactive (sub_at c p)) (mSubscriberList m))\<rparr>)
    else (m, c))"
proof (cases "mState m = AGPS_STATE_PENDING")
  case False
  then show ?thesis
    by (cases "mState m") (simp_all add: processAgpsEvent_def processAgpsEvent_base_def processAgpsEventGranted_def)
next
  case True
  let ?m = "m\<lparr>mState := AGPS_STATE_ACQUIRED\<rparr>"
  have k: "note_ok E ds AGPS_EVENT_GRANTED" by (simp add: note_ok_def)
  have "distinct (mSubscriberList m)" "live (snd (?m, c)) (mSubscriberList m)" using assms by (simp_all add: sm_ok_def)
  from notifyAll_loop_eq [OF k this, of False FOR_ACTIVE_SUBSCRIBERS "[]"] True show ?thesis
    by (cases m) (simp add: Let_def processAgpsEvent_def processAgpsEvent_base_def processAgpsEventGranted_def transitionState_def
        notifyAllSubscribers_def notified_def wanted_def note_sm_def note_outs_def concat_map_singleton)
qed

definition pending_sm :: sm_ctx where
  "pending_sm = ((new_sm 1)\<lparr>mSubscriberList := [3, 4], mState := AGPS_STATE_PENDING\<rparr>,
     \<lparr>subs = [3 \<mapsto> \<lparr>mConnHandle = 7, mWaitForCloseComplete = True, mIsInactive = True\<rparr>,
              4 \<mapsto> \<lparr>mConnHandle = 8, mWaitForCloseComplete = False, mIsInactive = False\<rparr>], outs = []\<rparr>)"

lemma pending_sm_ok: "sm_ok (fst pending_sm, snd pending_sm)"
  by (simp add: pending_sm_def sm_ok_def new_sm_def)

theorem granted_notifies_active_witness:
  "map_option (\<lambda>mc. (mState (fst mc), outs (snd mc))) (processAgpsEvent (demo_env 0) False 0 AGPS_EVENT_GRANTED pending_sm) =
     Some (AGPS_STATE_ACQUIRED, [AtlOpenStatus 8 True None AGPS_APN_BEARER_INVALID 1])"
  using granted_notifies_active [OF pending_sm_ok, of "demo_env 0" False 0] by (simp add: pending_sm_def new_sm_def)

text \<open>
  C33. A denied request is answered. In the pending state a denial, and for the data services machine also
  a close of the data call, moves the machine to released, sends every subscriber exactly one answer in
  order (the modem gets a failed open; an emergency subscriber is redirected to an ordinary SUPL request,
  and the retry counter starts again), and empties the list, freeing exactly its subscribers.
\<close>

theorem denied_answers_everyone:
  assumes "sm_ok (m, c)" and "mState m = AGPS_STATE_PENDING"
    and "event = AGPS_EVENT_DENIED \<or> (ds \<and> event = AGPS_EVENT_RELEASED)"
  shows "processAgpsEvent E ds nw event (m, c) =
    Some (m\<lparr>mState := AGPS_STATE_RELEASED, mSubscriberList := [],
            mRetries := (if ds \<and> mSubscriberList m \<noteq> [] then 0 else mRetries m)\<rparr>,
          c\<lparr>subs := (subs c) |` (- set (mSubscriberList m)),
            outs := outs c @ map (\<lambda>p. if ds then MsgRequestATL (mConnHandle (sub_at c p)) LOC_AGPS_TYPE_SUPL
                                      else AtlOpenStatus (mConnHandle (sub_at c p)) False (mAPN m) (mBearer m) (mAgpsType m))
                                   (mSubscriberList m)\<rparr>)"
proof -
  let ?m = "m\<lparr>mState := AGPS_STATE_RELEASED\<rparr>"
  have k: "note_ok E ds AGPS_EVENT_DENIED" by (simp add: note_ok_def)
  have "distinct (mSubscriberList m)" "live (snd (?m, c)) (mSubscriberList m)" using assms by (simp_all add: sm_ok_def)
  from notifyAll_loop_eq [OF k this, of True FOR_ALL_SUBSCRIBERS "[]"]
  have "processAgpsEventDenied E ds (m, c) = Some (notified ds AGPS_EVENT_DENIED True FOR_ALL_SUBSCRIBERS [] (mSubscriberList m) (?m, c))"
    using assms(2) by (simp add: processAgpsEventDenied_def notifyAllSubscribers_def transitionState_def)
  moreover have "processAgpsEvent E ds nw event (m, c) = processAgpsEventDenied E ds (m, c)"
    using assms(2,3) by (auto simp: processAgpsEvent_def processAgpsEvent_base_def)
  ultimately show ?thesis
    by (cases m) (simp add: Let_def notified_def wanted_def note_sm_def note_outs_def concat_map_singleton)
qed

theorem denied_answers_everyone_witness:
  "map_option (\<lambda>mc. (mSubscriberList (fst mc), subs (snd mc) 4, outs (snd mc)))
     (processAgpsEvent (demo_env 0) True 0 AGPS_EVENT_RELEASED pending_sm) =
   Some ([], None, [MsgRequestATL 7 LOC_AGPS_TYPE_SUPL, MsgRequestATL 8 LOC_AGPS_TYPE_SUPL])"
  using denied_answers_everyone [OF pending_sm_ok, of AGPS_EVENT_RELEASED True "demo_env 0" 0]
  by (simp add: pending_sm_def new_sm_def)

text \<open>A data services machine that waits with one request, after \<open>k\<close> busy answers.\<close>

definition waiting :: "int \<Rightarrow> ptr \<Rightarrow> int \<Rightarrow> agps_out list \<Rightarrow> AgpsManager \<Rightarrow> bool" where
  "waiting h q k os a \<longleftrightarrow> (\<exists>m. mDsNif a = Some m \<and> mState m = AGPS_STATE_RELEASED \<and> mSubscriberList m = [q] \<and> mRetries m = k \<and>
     subs (ctx a) q = Some \<lparr>mConnHandle = h, mWaitForCloseComplete = True, mIsInactive = False\<rparr> \<and> outs (ctx a) = os)"

lemma busy_request:
  assumes "waiting h q k os a" and "use_emergency_pdn E" and "ds_open E = Some LOC_API_ADAPTER_ERR_ENGINE_BUSY" and "stk \<noteq> q"
  shows "\<exists>a'. requestATL E stk nw h LOC_AGPS_TYPE_SUPL_ES a = Some a' \<and>
    (if k < MAX_START_DATA_CALL_RETRIES then waiting h q (k + 1) (os @ [DSOpenAndStart, RetryTimer]) a'
     else waiting h q 0 (os @ [DSOpenAndStart, MsgRequestATL h LOC_AGPS_TYPE_SUPL]) a')"
  using assms by (cases "timer_handle E") (auto simp: waiting_def agps_eval)

lemma busy_first_request:
  assumes "mDsNif a = Some m" "mState m = AGPS_STATE_RELEASED" "mSubscriberList m = []" "mRetries m = 0"
    and "use_emergency_pdn E" and "ds_open E = Some LOC_API_ADAPTER_ERR_ENGINE_BUSY" and "stk \<noteq> nw"
  shows "\<exists>a'. requestATL E stk nw h LOC_AGPS_TYPE_SUPL_ES a = Some a' \<and>
    waiting h nw 1 (outs (ctx a) @ [DSOpenAndStart, RetryTimer]) a'"
  using assms by (cases "timer_handle E") (auto simp: waiting_def agps_eval)

lemma busy_retry:
  assumes "waiting h q k os a"
  shows "\<exists>a'. on_nif DsN retryCallback a = Some a' \<and> waiting h q k (os @ [MsgRequestATL h LOC_AGPS_TYPE_SUPL_ES]) a'"
  using assms by (auto simp: waiting_def agps_eval)

text \<open>One round: the timer fires and its message is a request for the same handle.\<close>

definition retry_round :: "ptr \<Rightarrow> ptr \<Rightarrow> int \<Rightarrow> agps_req list" where
  "retry_round stk nw h = [RetryTimeout, RequestATL stk nw h LOC_AGPS_TYPE_SUPL_ES]"

lemma busy_round:
  assumes "waiting h q k os a" and "use_emergency_pdn E" and "ds_open E = Some LOC_API_ADAPTER_ERR_ENGINE_BUSY" and "stk \<noteq> q"
  shows "\<exists>a'. run_steps (agps_step E) a (retry_round stk nw h) = Some a' \<and>
    (if k < MAX_START_DATA_CALL_RETRIES
     then waiting h q (k + 1) (os @ [MsgRequestATL h LOC_AGPS_TYPE_SUPL_ES, DSOpenAndStart, RetryTimer]) a'
     else waiting h q 0 (os @ [MsgRequestATL h LOC_AGPS_TYPE_SUPL_ES, DSOpenAndStart, MsgRequestATL h LOC_AGPS_TYPE_SUPL]) a')"
proof -
  from busy_retry [OF assms(1)] obtain a1 where
    1: "on_nif DsN retryCallback a = Some a1" "waiting h q k (os @ [MsgRequestATL h LOC_AGPS_TYPE_SUPL_ES]) a1" by blast
  from busy_request [OF 1(2) assms(2-4), of nw] 1(1) show ?thesis by (auto simp: retry_round_def split: if_splits)
qed

lemma busy_rounds:
  assumes "waiting h q k os a" and "use_emergency_pdn E" and "ds_open E = Some LOC_API_ADAPTER_ERR_ENGINE_BUSY"
    and "stk \<noteq> q" and "k + int n \<le> MAX_START_DATA_CALL_RETRIES"
  shows "\<exists>a'. run_steps (agps_step E) a (concat (replicate n (retry_round stk nw h))) = Some a' \<and>
    waiting h q (k + int n) (os @ concat (replicate n [MsgRequestATL h LOC_AGPS_TYPE_SUPL_ES, DSOpenAndStart, RetryTimer])) a'"
  using assms(1,5)
proof (induction n arbitrary: k os a)
  case 0
  then show ?case by simp
next
  case (Suc n)
  from busy_round [OF Suc.prems(1) assms(2-4), of nw] Suc.prems(2) obtain a1 where
    1: "run_steps (agps_step E) a (retry_round stk nw h) = Some a1"
      "waiting h q (k + 1) (os @ [MsgRequestATL h LOC_AGPS_TYPE_SUPL_ES, DSOpenAndStart, RetryTimer]) a1" by auto
  from Suc.IH [OF 1(2)] Suc.prems(2) 1(1) show ?case by (auto simp: run_steps_append algebra_simps)
qed

text \<open>
  C34. The bounded retry of the emergency data call. When the data services client keeps answering
  busy, an emergency request is tried five times in all, four of them repeated by the retry timer;
  after the fifth busy answer the request is redirected to an ordinary SUPL connection, with no further timer, and the
  retry counter is zero again. The outputs are exactly these calls, in this order, and the subscriber is kept.
\<close>

theorem ds_busy_retries_then_supl:
  assumes "mDsNif a = Some m" and "mState m = AGPS_STATE_RELEASED" and "mSubscriberList m = []" and "mRetries m = 0"
    and "use_emergency_pdn E" and "ds_open E = Some LOC_API_ADAPTER_ERR_ENGINE_BUSY" and "stk \<noteq> nw"
  shows "\<exists>a' m'. run_steps (agps_step E) a
      (RequestATL stk nw h LOC_AGPS_TYPE_SUPL_ES # concat (replicate 4 (retry_round stk nw h))) = Some a' \<and>
    outs (ctx a') = outs (ctx a) @ [DSOpenAndStart, RetryTimer] @
      concat (replicate 3 [MsgRequestATL h LOC_AGPS_TYPE_SUPL_ES, DSOpenAndStart, RetryTimer]) @
      [MsgRequestATL h LOC_AGPS_TYPE_SUPL_ES, DSOpenAndStart, MsgRequestATL h LOC_AGPS_TYPE_SUPL] \<and>
    mDsNif a' = Some m' \<and> mState m' = AGPS_STATE_RELEASED \<and> mSubscriberList m' = [nw] \<and> mRetries m' = 0"
proof -
  from busy_first_request [OF assms] obtain a1 where
    1: "requestATL E stk nw h LOC_AGPS_TYPE_SUPL_ES a = Some a1" "waiting h nw 1 (outs (ctx a) @ [DSOpenAndStart, RetryTimer]) a1"
    by blast
  from busy_rounds [OF 1(2) assms(5-7), of 3 nw] obtain a2 where
    2: "run_steps (agps_step E) a1 (concat (replicate 3 (retry_round stk nw h))) = Some a2"
      "waiting h nw 4 (outs (ctx a) @ [DSOpenAndStart, RetryTimer] @ concat (replicate 3 [MsgRequestATL h LOC_AGPS_TYPE_SUPL_ES, DSOpenAndStart, RetryTimer])) a2"
    by (auto simp: MAX_START_DATA_CALL_RETRIES_def)
  from busy_round [OF 2(2) assms(5-7), of nw] obtain a3 where
    3: "run_steps (agps_step E) a2 (retry_round stk nw h) = Some a3"
      "waiting h nw 0 ((outs (ctx a) @ [DSOpenAndStart, RetryTimer] @ concat (replicate 3 [MsgRequestATL h LOC_AGPS_TYPE_SUPL_ES, DSOpenAndStart, RetryTimer])) @
        [MsgRequestATL h LOC_AGPS_TYPE_SUPL_ES, DSOpenAndStart, MsgRequestATL h LOC_AGPS_TYPE_SUPL]) a3"
    by (auto simp: MAX_START_DATA_CALL_RETRIES_def)
  have "concat (replicate 4 (retry_round stk nw h)) = concat (replicate 3 (retry_round stk nw h)) @ retry_round stk nw h"
    by (simp add: numeral_eq_Suc)
  with 1(1) 2(1) 3 show ?thesis by (auto simp: run_steps_append waiting_def)
qed

theorem ds_busy_retries_then_supl_witness:
  "\<exists>a' m'. run_steps (agps_step (demo_env 6)) (createAgpsStateMachines (demo_env 6) new_manager)
      (RequestATL 10 1 8 LOC_AGPS_TYPE_SUPL_ES # concat (replicate 4 (retry_round 10 1 8))) = Some a' \<and>
    mDsNif a' = Some m' \<and> mRetries m' = 0 \<and> last (outs (ctx a')) = MsgRequestATL 8 LOC_AGPS_TYPE_SUPL"
proof -
  let ?a = "createAgpsStateMachines (demo_env 6) new_manager"
  have "mDsNif ?a = Some (new_sm LOC_AGPS_TYPE_SUPL_ES)" "mState (new_sm LOC_AGPS_TYPE_SUPL_ES) = AGPS_STATE_RELEASED"
    "mSubscriberList (new_sm LOC_AGPS_TYPE_SUPL_ES) = []" "mRetries (new_sm LOC_AGPS_TYPE_SUPL_ES) = 0"
    "use_emergency_pdn (demo_env 6)" "ds_open (demo_env 6) = Some LOC_API_ADAPTER_ERR_ENGINE_BUSY" "(10::ptr) \<noteq> 1"
    by (simp_all add: agps_eval)
  from ds_busy_retries_then_supl [OF this, of 8] show ?thesis by auto
qed

end
