(* ===== verification/CString.thy ===== *)
theory CString
  imports IPA_Prelude
begin

text \<open>
  What the sources use of the C and C++ string library: \<open>c_str\<close>, \<open>atoi\<close>, the decimal output of integers
  (\<open>std::to_string\<close> and \<open>operator<<\<close>), and \<open>std::stringstream\<close>, with their round trips.
  \<open>std::string\<close> is a list of characters that may hold the null character; a C string ends at the first one.
\<close>

section \<open>Decimal numbers\<close>

definition chr :: "nat \<Rightarrow> char" where
  "chr n = char_of n"

definition ord :: "char \<Rightarrow> nat" where
  "ord c = of_char c"

definition is_digit :: "char \<Rightarrow> bool" where
  "is_digit c \<longleftrightarrow> 48 \<le> ord c \<and> ord c \<le> 57"

fun show_nat :: "nat \<Rightarrow> string" where
  "show_nat n = (if n < 10 then [chr (48 + n)] else show_nat (n div 10) @ [chr (48 + n mod 10)])"

definition show_int :: "int \<Rightarrow> string" where
  "show_int i = (if i < 0 then CHR ''-'' # show_nat (nat (- i)) else show_nat (nat i))"

definition digits_val :: "string \<Rightarrow> nat" where
  "digits_val s = foldl (\<lambda>v c. 10 * v + (ord c - 48)) 0 s"

declare show_nat.simps [simp del]

lemma ord_chr [simp]: "n < 256 \<Longrightarrow> ord (chr n) = n"
  by (simp add: ord_def chr_def of_char_of)

lemma is_digit_chr [simp]: "d < 10 \<Longrightarrow> is_digit (chr (48 + d))"
  by (simp add: is_digit_def)

lemma show_nat_digits: "c \<in> set (show_nat n) \<Longrightarrow> is_digit c"
proof (induction n rule: show_nat.induct)
  case (1 n)
  show ?case
  proof (cases "n < 10")
    case True
    with 1 show ?thesis by (simp add: show_nat.simps [of n])
  next
    case False
    with 1 show ?thesis by (auto simp: show_nat.simps [of n])
  qed
qed

lemma show_nat_ne [simp]: "show_nat n \<noteq> []"
  by (subst show_nat.simps) simp

lemma digits_val_show [simp]: "digits_val (show_nat n) = n"
proof (induction n rule: show_nat.induct)
  case (1 n)
  show ?case
  proof (cases "n < 10")
    case True
    then show ?thesis by (simp add: show_nat.simps [of n] digits_val_def)
  next
    case False
    have "n mod 10 + 48 < 256" by (simp add: order_le_less_trans [of _ "9 + 48"])
    with False 1 show ?thesis by (simp add: show_nat.simps [of n] digits_val_def add.commute)
  qed
qed

section \<open>C strings\<close>

definition c_str :: "string \<Rightarrow> string" where
  "c_str s = takeWhile (\<lambda>c. ord c \<noteq> 0) s"

definition isspace :: "char \<Rightarrow> bool" where
  "isspace c \<longleftrightarrow> ord c = 32 \<or> (9 \<le> ord c \<and> ord c \<le> 13)"

text \<open>\<open>atoi\<close>: white space, an optional sign, and the digits up to the first other character; a value
  outside \<open>int\<close> is undefined behaviour.\<close>

definition atoi :: "string \<Rightarrow> int option" where
  "atoi s =
     (let t = dropWhile isspace s;
          neg = (t \<noteq> [] \<and> hd t = CHR ''-'');
          u = (if t \<noteq> [] \<and> (hd t = CHR ''-'' \<or> hd t = CHR ''+'') then tl t else t);
          v = int (digits_val (takeWhile is_digit u));
          r = (if neg then - v else v)
      in if - (2 ^ 31) \<le> r \<and> r < 2 ^ 31 then Some r else None)"

lemma digit_not_special:
  "is_digit c \<Longrightarrow> \<not> isspace c \<and> c \<noteq> CHR ''-'' \<and> c \<noteq> CHR ''+'' \<and> c \<noteq> CHR ''/'' \<and> c \<noteq> CHR '':'' \<and> ord c \<noteq> 0"
  by (auto simp: is_digit_def isspace_def ord_def)

lemma c_str_id: "(\<And>c. c \<in> set s \<Longrightarrow> ord c \<noteq> 0) \<Longrightarrow> c_str s = s"
  by (simp add: c_str_def takeWhile_eq_all_conv)

lemma atoi_digits:
  assumes "s \<noteq> []" and "\<And>c. c \<in> set s \<Longrightarrow> is_digit c" and "r = [] \<or> \<not> is_digit (hd r)" and "digits_val s < 2 ^ 31"
  shows "atoi (s @ r) = Some (int (digits_val s))"
proof -
  obtain c s' where s: "s = c # s'" using assms(1) by (cases s) auto
  have "dropWhile isspace (s @ r) = s @ r" using digit_not_special [OF assms(2) [of c]] s by simp
  moreover have "hd (s @ r) \<noteq> CHR ''-''" "hd (s @ r) \<noteq> CHR ''+''" using digit_not_special [OF assms(2) [of c]] s by simp_all
  moreover have "takeWhile is_digit (s @ r) = s"
    using assms(2,3) by (cases r) (auto simp: takeWhile_append2)
  moreover have "int (digits_val s) < 2 ^ 31" using assms(4) by simp
  ultimately show ?thesis by (simp add: atoi_def Let_def)
qed

lemma c_str_show [simp]: "c_str (show_nat n) = show_nat n"
  by (rule c_str_id) (auto dest: show_nat_digits digit_not_special)

lemma atoi_show [simp]: "n < 2 ^ 31 \<Longrightarrow> atoi (show_nat n) = Some (int n)"
  using atoi_digits [of "show_nat n" "[]"] by (simp add: show_nat_digits)

section \<open>String streams\<close>

text \<open>Output goes to the put position and overwrites; \<open>str(s)\<close> replaces the buffer and puts the position at its start.\<close>

record sstream =
  sbuf :: string
  sput :: nat

definition ss_new :: sstream where
  "ss_new = \<lparr>sbuf = [], sput = 0\<rparr>"

definition ss_put :: "string \<Rightarrow> sstream \<Rightarrow> sstream" where
  "ss_put t ss = \<lparr>sbuf = take (sput ss) (sbuf ss) @ t @ drop (sput ss + length t) (sbuf ss), sput = sput ss + length t\<rparr>"

definition ss_set :: "string \<Rightarrow> sstream" where
  "ss_set s = \<lparr>sbuf = s, sput = 0\<rparr>"

definition ss_at_end :: "sstream \<Rightarrow> bool" where
  "ss_at_end ss \<longleftrightarrow> sput ss = length (sbuf ss)"

lemma ss_new_at_end [simp]: "ss_at_end ss_new" "sbuf ss_new = []"
  by (simp_all add: ss_at_end_def ss_new_def)

lemma ss_put_at_end: "ss_at_end ss \<Longrightarrow> ss_at_end (ss_put t ss) \<and> sbuf (ss_put t ss) = sbuf ss @ t"
  by (simp add: ss_at_end_def ss_put_def)

end
