(* ===== verification/IpPrefix.thy ===== *)
theory IpPrefix
  imports CString
begin

text \<open>
  The parser of IP prefixes of the offload HAL (\<open>hal/src/PrefixParser.cpp\<close>): texts such as \<open>192.168.0.0/16\<close> become
  addresses and masks for the hardware. \<open>inet_pton\<close> is a parameter: it gives the bytes of an address in network
  order, or \<open>None\<close> when the text is not an address of that family. \<open>None\<close> as the result of an operation is the
  undefined behaviour of \<open>atoi\<close> on a number outside \<open>int\<close>. The target is little-endian.
\<close>

section \<open>Data\<close>

datatype IP_FAM = V4 | V6 | INVALID

record Prefix =
  fam :: IP_FAM
  v4Addr :: u32
  v4Mask :: u32
  v6Addr :: "u32 list"
  v6Mask :: "u32 list"

record PrefixParser =
  mPrefixes :: "Prefix list"
  mLastErr :: string

record inet_pton =
  pton4 :: "string \<Rightarrow> u8 list option"
  pton6 :: "string \<Rightarrow> u8 list option"

definition new_parser :: PrefixParser where
  "new_parser = \<lparr>mPrefixes = [], mLastErr = ''No Err''\<rparr>"

section \<open>Masks\<close>

unbundle bit_operations_syntax

definition createMask_body :: "int \<Rightarrow> u32 \<Rightarrow> nat \<Rightarrow> u32" where
  "createMask_body mlen ret i = (if int i < mlen then push_bit 1 ret OR 1 else push_bit 1 ret)"

definition createMask :: "int \<Rightarrow> u32" where
  "createMask mlen = (if mlen \<ge> 32 then NOT 0 else foldl (createMask_body mlen) 0 [0..<32])"

definition populateV4Mask :: "int \<Rightarrow> Prefix \<Rightarrow> Prefix option" where
  "populateV4Mask mlen out = (if mlen < 0 \<or> mlen > 32 then None else Some (out\<lparr>v4Mask := createMask mlen\<rparr>))"

fun populateV6Mask_loop :: "nat \<Rightarrow> nat \<Rightarrow> int \<Rightarrow> u32 list \<Rightarrow> u32 list" where
  "populateV6Mask_loop i 0 mlen ms = ms"
| "populateV6Mask_loop i (Suc n) mlen ms =
     populateV6Mask_loop (Suc i) n (if mlen > 32 then mlen - 32 else 0) (ms[i := createMask mlen])"

definition populateV6Mask :: "int \<Rightarrow> Prefix \<Rightarrow> Prefix option" where
  "populateV6Mask mlen out =
     (if mlen < 0 \<or> mlen > 128 then None else Some (out\<lparr>v6Mask := populateV6Mask_loop 0 4 mlen (v6Mask out)\<rparr>))"

definition makeBlankPrefix :: "IP_FAM \<Rightarrow> Prefix" where
  "makeBlankPrefix famHint = \<lparr>fam = famHint, v4Addr = 0, v4Mask = 0, v6Addr = [0, 0, 0, 0], v6Mask = [0, 0, 0, 0]\<rparr>"

definition isMaskValid :: "int \<Rightarrow> IP_FAM \<Rightarrow> PrefixParser \<Rightarrow> bool \<times> PrefixParser" where
  "isMaskValid mlen f s =
     (if mlen < 0 then (False, s\<lparr>mLastErr := ''Failed parse subnet mask('' @ show_int mlen @ '')''\<rparr>)
      else if mlen = 0 then (False, s\<lparr>mLastErr := ''Subnet mask cannot be 0('' @ show_int mlen @ '')''\<rparr>)
      else if f = V4 \<and> mlen > 32
      then (False, s\<lparr>mLastErr := ''Interpreted address as V4 but mask was too large('' @ show_int mlen @ '')''\<rparr>)
      else if f = V6 \<and> mlen > 128
      then (False, s\<lparr>mLastErr := ''Interpreted address as V6 but mask was too large('' @ show_int mlen @ '')''\<rparr>)
      else (True, s))"

section \<open>Addresses\<close>

text \<open>A 32-bit number from four bytes in memory, and \<open>htonl\<close>, on a little-endian machine.\<close>

definition load_le :: "u8 list \<Rightarrow> u32" where
  "load_le bs = ucast (bs ! 0) OR push_bit 8 (ucast (bs ! 1)) OR push_bit 16 (ucast (bs ! 2)) OR push_bit 24 (ucast (bs ! 3))"

definition htonl :: "u32 \<Rightarrow> u32" where
  "htonl w = push_bit 24 (take_bit 8 w) OR push_bit 16 (take_bit 8 (drop_bit 8 w)) OR
     push_bit 8 (take_bit 8 (drop_bit 16 w)) OR take_bit 8 (drop_bit 24 w)"

definition parseV4Addr :: "inet_pton \<Rightarrow> string \<Rightarrow> Prefix \<Rightarrow> Prefix option" where
  "parseV4Addr N txt out =
     (case pton4 N (c_str txt) of None \<Rightarrow> None | Some sin_addr \<Rightarrow> Some (out\<lparr>v4Addr := htonl (load_le sin_addr)\<rparr>))"

definition v6_word :: "u8 list \<Rightarrow> nat \<Rightarrow> u32" where
  "v6_word s6_addr i = push_bit 24 (ucast (s6_addr ! i)) OR push_bit 16 (ucast (s6_addr ! (i + 1))) OR
     push_bit 8 (ucast (s6_addr ! (i + 2))) OR ucast (s6_addr ! (i + 3))"

definition parseV6Addr :: "inet_pton \<Rightarrow> string \<Rightarrow> Prefix \<Rightarrow> Prefix option" where
  "parseV6Addr N txt out =
     (case pton6 N (c_str txt) of
        None \<Rightarrow> None
      | Some s6_addr \<Rightarrow>
          Some (out\<lparr>v6Addr := (v6Addr out)[0 := v6_word s6_addr 0, 1 := v6_word s6_addr 4, 2 := v6_word s6_addr 8,
                                         3 := v6_word s6_addr 12]\<rparr>))"

definition guessIPFamily :: "string \<Rightarrow> IP_FAM" where
  "guessIPFamily txt = (case first_idx (\<lambda>c. c = CHR '':'') txt of Some found \<Rightarrow> V6 | None \<Rightarrow> V4)"

definition splitIntoAddrAndMask :: "string \<Rightarrow> (string \<times> string) option" where
  "splitIntoAddrAndMask txt =
     (let pos = first_idx (\<lambda>c. c = CHR ''/'') txt;
          addr = (case pos of None \<Rightarrow> Some txt | Some p \<Rightarrow> if p \<ge> 1 then Some (take p txt) else None);
          mlen = (case pos of None \<Rightarrow> '''' | Some p \<Rightarrow> if p < length txt then drop (p + 1) txt else '''')
      in case addr of None \<Rightarrow> None | Some a \<Rightarrow> Some (a, mlen))"

definition parseSubnetMask :: "string \<Rightarrow> IP_FAM \<Rightarrow> int option" where
  "parseSubnetMask txt famHint =
     (if txt = [] then Some (if famHint = V6 then 128 else 32) else atoi (c_str txt))"

section \<open>The parser\<close>

definition fail :: "string \<Rightarrow> PrefixParser \<Rightarrow> (bool \<times> PrefixParser) option" where
  "fail e s = Some (False, s\<lparr>mLastErr := e\<rparr>)"

text \<open>The part of \<open>add\<close> after the text is split: check the mask, parse the address, fill the masks.\<close>

definition add_parts :: "inet_pton \<Rightarrow> string \<Rightarrow> int \<Rightarrow> IP_FAM \<Rightarrow> PrefixParser \<Rightarrow> (bool \<times> PrefixParser) option" where
  "add_parts N addr mlen famHint s =
     (let (valid, s1) = isMaskValid mlen famHint s;
          pre = makeBlankPrefix famHint;
          parsed = (if famHint = V4 then parseV4Addr N addr pre else parseV6Addr N addr pre)
      in if \<not> valid then fail ''Invalid mask'' s1
         else case parsed of
           None \<Rightarrow> fail ((if famHint = V4 then ''Failed to parse V4 Address('' else ''Failed to parse V6 Address('')
                         @ addr @ '')'') s1
         | Some pre1 \<Rightarrow>
             (case (if famHint = V4 then populateV4Mask mlen pre1 else Some pre1) of
                None \<Rightarrow> fail (''Failed to populate IPv4 Mask('' @ show_int mlen @ '', '' @ addr @ '')'') s1
              | Some pre2 \<Rightarrow>
                  (case populateV6Mask mlen pre2 of
                     None \<Rightarrow> fail (''Failed to populate IPv6 Mask('' @ show_int mlen @ '', '' @ addr @ '')'') s1
                   | Some pre3 \<Rightarrow> Some (True, s1\<lparr>mPrefixes := mPrefixes s1 @ [pre3]\<rparr>))))"

definition add_string :: "inet_pton \<Rightarrow> string \<Rightarrow> IP_FAM \<Rightarrow> PrefixParser \<Rightarrow> (bool \<times> PrefixParser) option" where
  "add_string N txt hint s =
     (if txt = [] then fail ''Failed to parse string, length = 0...'' s
      else let famHint = (if hint = INVALID then guessIPFamily txt else hint)
           in case splitIntoAddrAndMask txt of
                None \<Rightarrow> fail (''Failed to split into Address and Mask('' @ txt @ '')'') s
              | Some (addr, subnet) \<Rightarrow> do { mlen \<leftarrow> parseSubnetMask subnet famHint; add_parts N addr mlen famHint s })"

fun add_loop :: "inet_pton \<Rightarrow> string list \<Rightarrow> IP_FAM \<Rightarrow> PrefixParser \<Rightarrow> (bool \<times> PrefixParser) option" where
  "add_loop N [] famHint s = Some (True, s)"
| "add_loop N (t # ts) famHint s =
     do { (ok, s1) \<leftarrow> add_string N t famHint s; if ok then add_loop N ts famHint s1 else Some (False, s1) }"

definition add_vector :: "inet_pton \<Rightarrow> string list \<Rightarrow> IP_FAM \<Rightarrow> PrefixParser \<Rightarrow> (bool \<times> PrefixParser) option" where
  "add_vector N ts famHint s = (if ts = [] then Some (False, s) else add_loop N ts famHint s)"

text \<open>The public operations.\<close>

definition add_any :: "inet_pton \<Rightarrow> string \<Rightarrow> PrefixParser \<Rightarrow> (bool \<times> PrefixParser) option" where
  "add_any N txt s = add_string N txt INVALID s"

definition add_any_vector :: "inet_pton \<Rightarrow> string list \<Rightarrow> PrefixParser \<Rightarrow> (bool \<times> PrefixParser) option" where
  "add_any_vector N ts s = add_vector N ts INVALID s"

definition addV4 :: "inet_pton \<Rightarrow> string \<Rightarrow> PrefixParser \<Rightarrow> (bool \<times> PrefixParser) option" where
  "addV4 N txt s = add_string N txt V4 s"

definition addV6 :: "inet_pton \<Rightarrow> string \<Rightarrow> PrefixParser \<Rightarrow> (bool \<times> PrefixParser) option" where
  "addV6 N txt s = add_string N txt V6 s"

definition addV4_vector :: "inet_pton \<Rightarrow> string list \<Rightarrow> PrefixParser \<Rightarrow> (bool \<times> PrefixParser) option" where
  "addV4_vector N ts s = add_vector N ts V4 s"

definition addV6_vector :: "inet_pton \<Rightarrow> string list \<Rightarrow> PrefixParser \<Rightarrow> (bool \<times> PrefixParser) option" where
  "addV6_vector N ts s = add_loop N ts V6 s"

definition fullyQualified :: "Prefix \<Rightarrow> bool" where
  "fullyQualified p \<longleftrightarrow>
     (if fam p = V4 then v4Addr p AND v4Mask p = v4Addr p
      else list_all (\<lambda>j. v6Addr p ! j AND v6Mask p ! j = v6Addr p ! j) [0, 1, 2, 3])"

fun allAreFullyQualified_loop :: "Prefix list \<Rightarrow> bool" where
  "allAreFullyQualified_loop [] = True"
| "allAreFullyQualified_loop (p # ps) = (if \<not> fullyQualified p then False else allAreFullyQualified_loop ps)"

definition allAreFullyQualified :: "PrefixParser \<Rightarrow> bool" where
  "allAreFullyQualified s = allAreFullyQualified_loop (mPrefixes s)"

definition getFirstPrefix :: "IP_FAM \<Rightarrow> PrefixParser \<Rightarrow> Prefix" where
  "getFirstPrefix famHint s = (if length (mPrefixes s) \<ge> 1 then mPrefixes s ! 0 else makeBlankPrefix famHint)"

section \<open>The bits of a mask\<close>

lemma createMask_body_bit:
  "bit (createMask_body mlen ret i) k \<longleftrightarrow> k < 32 \<and> (if k = 0 then int i < mlen else bit ret (k - 1))"
proof -
  have "bit (push_bit 1 ret) k \<longleftrightarrow> 1 \<le> k \<and> k < 32 \<and> bit ret (k - 1)"
    unfolding bit_push_bit_iff by auto
  then show ?thesis unfolding createMask_body_def by (auto simp only: bit_or_iff bit_1_iff possible_bit_def split: if_splits)
qed

lemma createMask_loop_bits:
  assumes "n \<le> 32"
  shows "bit (foldl (createMask_body mlen) 0 [0..<n]) i \<longleftrightarrow> i < n \<and> int (n - 1 - i) < mlen"
  using assms
proof (induction n arbitrary: i)
  case 0
  then show ?case by simp
next
  case (Suc n)
  show ?case
  proof (cases i)
    case 0
    then show ?thesis by (simp add: createMask_body_bit)
  next
    case (Suc j)
    with Suc.prems Suc.IH [of j] show ?thesis by (simp add: createMask_body_bit) linarith
  qed
qed

lemma createMask_bit: "bit (createMask mlen) i \<longleftrightarrow> i < 32 \<and> int (31 - i) < mlen"
  using createMask_loop_bits [of 32 mlen i] by (auto simp: createMask_def bit_simps)

lemma populateV6Mask_loop_4:
  assumes "length ms = 4" and "0 \<le> mlen"
  shows "populateV6Mask_loop 0 4 mlen ms = map (\<lambda>j. createMask (max 0 (mlen - 32 * int j))) [0, 1, 2, 3]"
proof -
  obtain a b c d where ms: "ms = [a, b, c, d]" using assms(1)
    by (auto simp: length_Suc_conv eval_nat_numeral)
  show ?thesis using assms(2) by (simp add: ms eval_nat_numeral max_def)
qed

lemma mask_word_bit:
  "j < 4 \<Longrightarrow> bit (map (\<lambda>j. createMask (max 0 (n - 32 * int j))) [0, 1, 2, 3] ! j) i \<longleftrightarrow>
     i < 32 \<and> 32 * int j + int (31 - i) < n"
  by (auto simp: eval_nat_numeral less_Suc_eq createMask_bit)

section \<open>Big-endian addresses\<close>

text \<open>The number that four bytes in network order stand for.\<close>

definition be32 :: "u8 list \<Rightarrow> nat \<Rightarrow> nat" where
  "be32 bs i = unat (bs ! i) * 2 ^ 24 + unat (bs ! (i + 1)) * 2 ^ 16 + unat (bs ! (i + 2)) * 2 ^ 8 + unat (bs ! (i + 3))"

lemma high_bit [simp]: "8 \<le> n \<Longrightarrow> \<not> bit (w :: u8) n"
  by (simp add: impossible_bit)

lemma bytes_or_add:
  fixes a b c d :: u8
  shows "push_bit 24 (ucast a) OR push_bit 16 (ucast b) OR push_bit 8 (ucast c) OR ucast d =
    (push_bit 24 (ucast a) + (push_bit 16 (ucast b) + (push_bit 8 (ucast c) + ucast d)) :: u32)"
proof -
  have 1: "push_bit 8 (ucast c) + ucast d = (push_bit 8 (ucast c) OR ucast d :: u32)"
    by (rule disjunctive_add) (auto simp: bit_simps)
  have 2: "push_bit 16 (ucast b) + (push_bit 8 (ucast c) OR ucast d) = (push_bit 16 (ucast b) OR push_bit 8 (ucast c) OR ucast d :: u32)"
    by (rule disjunctive_add) (auto simp: bit_simps)
  have 3: "push_bit 24 (ucast a) + (push_bit 16 (ucast b) OR push_bit 8 (ucast c) OR ucast d) =
      (push_bit 24 (ucast a) OR push_bit 16 (ucast b) OR push_bit 8 (ucast c) OR ucast d :: u32)"
    by (rule disjunctive_add) (auto simp: bit_simps)
  from 1 2 3 show ?thesis by simp
qed

lemma ucast_of_nat: "(ucast (w :: u8) :: u32) = of_nat (unat w)"
  by simp

lemma v6_word_be32: "v6_word bs i = of_nat (be32 bs i)"
  unfolding v6_word_def bytes_or_add by (simp add: be32_def push_bit_eq_mult)

lemma be32_less: "be32 bs i < 2 ^ 32"
proof -
  have "unat w \<le> 255" for w :: u8 using unsigned_less [of w, where ?'a = nat] by simp
  from this [of "bs ! i"] this [of "bs ! (i + 1)"] this [of "bs ! (i + 2)"] this [of "bs ! (i + 3)"]
  show ?thesis unfolding be32_def by simp
qed

lemma htonl_load: "htonl (load_le bs) = v6_word bs 0"
proof (rule bit_word_eqI)
  fix n assume n: "n < LENGTH(32)"
  define k where "k = n mod 8"
  have k: "k < 8" and q: "n = 8 * (n div 8) + k" and "n div 8 < 4" using n by (simp_all add: k_def)
  then consider "n div 8 = 0" | "n div 8 = 1" | "n div 8 = 2" | "n div 8 = 3" by linarith
  then consider "n = k" | "n = 8 + k" | "n = 16 + k" | "n = 24 + k" using q by cases simp_all
  then show "bit (htonl (load_le bs)) n \<longleftrightarrow> bit (v6_word bs 0) n"
    using k by cases (simp_all add: htonl_def load_le_def v6_word_def bit_simps numeral_2_eq_2)
qed

section \<open>What a parsed prefix is\<close>

text \<open>The prefix that a text with the address bytes \<open>bs\<close> and the length \<open>n\<close> stands for, as the parser stores it. An
  IPv4 prefix also carries IPv6 mask words.\<close>

definition masks :: "int \<Rightarrow> u32 list" where
  "masks n = map (\<lambda>j. createMask (max 0 (n - 32 * int j))) [0, 1, 2, 3]"

definition the_prefix :: "IP_FAM \<Rightarrow> u8 list \<Rightarrow> int \<Rightarrow> Prefix" where
  "the_prefix f bs n =
     (if f = V4
      then \<lparr>fam = f, v4Addr = of_nat (be32 bs 0), v4Mask = createMask n, v6Addr = [0, 0, 0, 0], v6Mask = masks n\<rparr>
      else \<lparr>fam = f, v4Addr = 0, v4Mask = 0, v6Addr = map (\<lambda>i. of_nat (be32 bs i)) [0, 4, 8, 12], v6Mask = masks n\<rparr>)"

definition pton :: "inet_pton \<Rightarrow> IP_FAM \<Rightarrow> string \<Rightarrow> u8 list option" where
  "pton N f txt = (if f = V4 then pton4 N (c_str txt) else pton6 N (c_str txt))"

definition width :: "IP_FAM \<Rightarrow> nat" where
  "width f = (if f = V4 then 32 else 128)"

definition family :: "IP_FAM \<Rightarrow> string \<Rightarrow> IP_FAM" where
  "family hint txt = (if hint = INVALID then guessIPFamily txt else hint)"

lemma family_valid [simp]: "family hint txt \<noteq> INVALID"
  by (simp add: family_def guessIPFamily_def split: option.split)

lemma parse_addr:
  "(if f = V4 then parseV4Addr N addr (makeBlankPrefix f) else parseV6Addr N addr (makeBlankPrefix f)) =
     map_option (\<lambda>bs. (makeBlankPrefix f)
       \<lparr>v4Addr := (if f = V4 then of_nat (be32 bs 0) else 0),
        v6Addr := (if f = V4 then [0, 0, 0, 0] else map (\<lambda>i. of_nat (be32 bs i)) [0, 4, 8, 12])\<rparr>) (pton N f addr)"
  by (auto simp: parseV4Addr_def parseV6Addr_def pton_def makeBlankPrefix_def htonl_load v6_word_be32 split: option.split)

lemma add_parts_eq:
  assumes "f \<noteq> INVALID"
  shows "add_parts N addr n f s =
    (if \<not> (1 \<le> n \<and> n \<le> int (width f)) then fail ''Invalid mask'' s
     else case pton N f addr of
       None \<Rightarrow> fail ((if f = V4 then ''Failed to parse V4 Address('' else ''Failed to parse V6 Address('') @ addr @ '')'') s
     | Some bs \<Rightarrow> Some (True, s\<lparr>mPrefixes := mPrefixes s @ [the_prefix f bs n]\<rparr>))"
proof (cases "1 \<le> n \<and> n \<le> int (width f)")
  case False
  then have "\<exists>e. isMaskValid n f s = (False, s\<lparr>mLastErr := e\<rparr>)" using assms
    by (cases f) (auto simp: isMaskValid_def width_def)
  then show ?thesis using False by (auto simp: add_parts_def fail_def)
next
  case True
  then have v: "isMaskValid n f s = (True, s)" using assms by (cases f) (auto simp: isMaskValid_def width_def)
  have m: "0 \<le> n" "n \<le> 128" "f = V4 \<longrightarrow> n \<le> 32" using True by (auto simp: width_def split: if_splits)
  show ?thesis unfolding add_parts_def v Let_def prod.case parse_addr
    using True m populateV6Mask_loop_4 [of "[0, 0, 0, 0]" n]
    by (cases "pton N f addr"; cases "f = V4") (simp_all add: populateV4Mask_def populateV6Mask_def the_prefix_def masks_def makeBlankPrefix_def)
qed

lemmas add_string_eq = add_string_def [folded family_def, unfolded Let_def add_parts_eq [OF family_valid]]

section \<open>Splitting\<close>

lemma first_idx_at: "(\<forall>x \<in> set xs. \<not> P x) \<Longrightarrow> P y \<Longrightarrow> first_idx P (xs @ y # ys) = Some (length xs)"
  by (induction xs) auto

lemma split_slash:
  assumes "addr \<noteq> []" and "CHR ''/'' \<notin> set addr"
  shows "splitIntoAddrAndMask (addr @ ''/'' @ m) = Some (addr, m)"
proof -
  have "first_idx (\<lambda>c. c = CHR ''/'') (addr @ CHR ''/'' # m) = Some (length addr)"
    by (rule first_idx_at) (use assms(2) in auto)
  with assms(1) show ?thesis by (simp add: splitIntoAddrAndMask_def Let_def Suc_le_eq)
qed

lemma guess_eq: "guessIPFamily txt = (if CHR '':'' \<in> set txt then V6 else V4)"
proof (cases "first_idx (\<lambda>c. c = CHR '':'') txt")
  case None
  then have "CHR '':'' \<notin> set txt" unfolding first_idx_None by blast
  with None show ?thesis by (simp add: guessIPFamily_def del: first_idx_None)
next
  case (Some i)
  from first_idx_SomeD [OF this] have "CHR '':'' \<in> set txt" by (metis nth_mem)
  with Some show ?thesis by (simp add: guessIPFamily_def)
qed

lemma family_slash: "CHR '':'' \<notin> set m \<Longrightarrow> family hint (addr @ ''/'' @ m) = family hint addr"
  by (simp add: family_def guess_eq)

lemma show_nat_no_colon: "CHR '':'' \<notin> set (show_nat n)"
  using digit_not_special show_nat_digits by blast

lemma add_slash:
  assumes "addr \<noteq> []" and "CHR ''/'' \<notin> set addr" and "n < 2 ^ 31"
  shows "add_string N (addr @ ''/'' @ show_nat n) hint s = add_parts N addr (int n) (family hint addr) s"
  using assms split_slash [OF assms(1,2), of "show_nat n"] family_slash [OF show_nat_no_colon, of hint addr n]
  by (simp add: add_string_def family_def parseSubnetMask_def)

lemma loop_all: "allAreFullyQualified_loop ps = list_all fullyQualified ps"
  by (induction ps) auto

section \<open>Properties\<close>

text \<open>
  C36. The network masks have the right bits. \<open>createMask\<close> sets exactly the \<open>n\<close> most significant bits of a word, for every
  length (none for a length of zero or less, all from 32 on); \<open>populateV6Mask\<close> accepts exactly the lengths from 0 to 128,
  and the four words it fills, read from the most significant bit of the first one, have exactly \<open>n\<close> leading ones.
\<close>

theorem masks_have_leading_ones:
  assumes "length (v6Mask p) = 4"
  shows "(\<forall>n i. bit (createMask n) i \<longleftrightarrow> i < 32 \<and> int (31 - i) < n) \<and>
    (case populateV6Mask n p of
       None \<Rightarrow> n < 0 \<or> 128 < n
     | Some q \<Rightarrow> 0 \<le> n \<and> n \<le> 128 \<and> (\<exists>ms. q = p\<lparr>v6Mask := ms\<rparr> \<and> length ms = 4 \<and>
         (\<forall>j < 4. \<forall>i. bit (ms ! j) i \<longleftrightarrow> i < 32 \<and> 32 * int j + int (31 - i) < n)))"
proof (cases "n < 0 \<or> 128 < n")
  case True
  then show ?thesis by (auto simp: createMask_bit populateV6Mask_def)
next
  case False
  have "\<exists>ms. p\<lparr>v6Mask := masks n\<rparr> = p\<lparr>v6Mask := ms\<rparr> \<and> length ms = 4 \<and>
      (\<forall>j < 4. \<forall>i. bit (ms ! j) i \<longleftrightarrow> i < 32 \<and> 32 * int j + int (31 - i) < n)"
    by (rule exI [of _ "masks n"]) (use mask_word_bit [of _ n] in \<open>simp add: masks_def\<close>)
  with False populateV6Mask_loop_4 [OF assms, of n] show ?thesis
    by (simp add: createMask_bit populateV6Mask_def masks_def)
qed

theorem masks_have_leading_ones_witness:
  "(case populateV6Mask 40 (makeBlankPrefix V6) of None \<Rightarrow> False | Some q \<Rightarrow> bit (v6Mask q ! 1) 24 \<and> \<not> bit (v6Mask q ! 1) 23)"
  using masks_have_leading_ones [of "makeBlankPrefix V6" 40]
  by (auto simp: makeBlankPrefix_def split: option.splits)

text \<open>
  C35. Parsing a printed prefix gives it back. For an address text without a slash that \<open>inet_pton\<close> reads as the bytes \<open>bs\<close>,
  and a length in the range of its family, adding \<open>addr/len\<close> appends exactly the prefix with that
  family, the address words in host order, and the masks of that length, and keeps everything else. The family is the
  hint, or guessed from the text.
\<close>

theorem add_printed_prefix:
  assumes "addr \<noteq> []" and "CHR ''/'' \<notin> set addr" and "pton N (family hint addr) addr = Some bs"
    and "1 \<le> n" and "n \<le> width (family hint addr)"
  shows "add_string N (addr @ ''/'' @ show_nat n) hint s =
    Some (True, s\<lparr>mPrefixes := mPrefixes s @ [the_prefix (family hint addr) bs (int n)]\<rparr>)"
proof -
  have "n < 2 ^ 31" using assms(5) by (auto simp: width_def split: if_splits)
  from add_slash [OF assms(1,2) this] assms(3-5) show ?thesis
    by (simp add: add_parts_eq [OF family_valid])
qed

definition demo_pton :: inet_pton where
  "demo_pton = \<lparr>pton4 = (\<lambda>t. if t = ''10.1.2.3'' then Some [10, 1, 2, 3] else None), pton6 = (\<lambda>t. None)\<rparr>"

lemma demo_family: "family INVALID ''10.1.2.3'' = V4"
  by (simp add: family_def guessIPFamily_def)

lemma demo_pton_reads: "pton demo_pton (family INVALID ''10.1.2.3'') ''10.1.2.3'' = Some [10, 1, 2, 3]"
proof -
  have "c_str ''10.1.2.3'' = ''10.1.2.3''" by (rule c_str_id) (auto simp: ord_def)
  then show ?thesis by (simp add: demo_family pton_def demo_pton_def)
qed

theorem add_printed_prefix_witness:
  "add_string demo_pton (''10.1.2.3'' @ ''/'' @ show_nat 24) INVALID new_parser =
     Some (True, new_parser\<lparr>mPrefixes := [the_prefix V4 [10, 1, 2, 3] 24]\<rparr>)"
  using add_printed_prefix [OF _ _ demo_pton_reads, of 24 new_parser]
  by (simp add: demo_family width_def new_parser_def)

text \<open>
  A length out of range is rejected. Whatever the address, a length of zero, or one above the width of the
  address family, is refused with the error \<open>Invalid mask\<close> (the more precise message of \<open>isMaskValid\<close> is always
  overwritten), and no prefix is stored.
\<close>

theorem add_bad_length:
  assumes "addr \<noteq> []" and "CHR ''/'' \<notin> set addr" and "n = 0 \<or> width (family hint addr) < n" and "n < 2 ^ 31"
  shows "add_string N (addr @ ''/'' @ show_nat n) hint s = Some (False, s\<lparr>mLastErr := ''Invalid mask''\<rparr>)"
  using add_slash [OF assms(1,2,4)] assms(3) by (auto simp: add_parts_eq [OF family_valid] fail_def)

theorem add_bad_length_witness:
  "add_string demo_pton (''10.1.2.3'' @ ''/'' @ show_nat 33) INVALID new_parser = Some (False, new_parser\<lparr>mLastErr := ''Invalid mask''\<rparr>)"
  using add_bad_length [of "''10.1.2.3''" 33 INVALID demo_pton new_parser] by (simp add: demo_family width_def)

text \<open>The bits of an address in the order of the text, from the most significant one.\<close>

definition addr_bit :: "u8 list \<Rightarrow> nat \<Rightarrow> bool" where
  "addr_bit bs k \<longleftrightarrow> bit (be32 bs (4 * (k div 32))) (31 - k mod 32)"

lemma and_eq_iff: "(w AND m = (w :: u32)) \<longleftrightarrow> (\<forall>i < 32. bit w i \<longrightarrow> bit m i)"
  by (auto simp: bit_eq_iff bit_simps dest: bit_imp_le_length)

lemma word_in_mask:
  assumes "j < 4" and "\<And>i. bit m i \<longleftrightarrow> i < 32 \<and> 32 * int j + int (31 - i) < n"
  shows "(of_nat (be32 bs (4 * j)) AND m = (of_nat (be32 bs (4 * j)) :: u32)) \<longleftrightarrow>
    (\<forall>k. 32 * j \<le> k \<and> k < 32 * j + 32 \<and> n \<le> int k \<longrightarrow> \<not> addr_bit bs k)"
proof -
  have b: "bit (of_nat (be32 bs (4 * j)) :: u32) i \<longleftrightarrow> addr_bit bs (32 * j + (31 - i))" if "i < 32" for i
  proof -
    define r where "r = 31 - i"
    have r: "r = 31 - i" "r < 32" "31 - r = i" using that by (simp_all add: r_def)
    have "(32 * j + r) div 32 = j" "(32 * j + r) mod 32 = r" using r(2) by simp_all
    with r(3) that show ?thesis unfolding addr_bit_def r(1) [symmetric] by (simp add: bit_of_nat_iff possible_bit_def)
  qed
  have "(\<forall>i < 32. addr_bit bs (32 * j + (31 - i)) \<longrightarrow> 32 * int j + int (31 - i) < n) \<longleftrightarrow>
      (\<forall>k. 32 * j \<le> k \<and> k < 32 * j + 32 \<and> n \<le> int k \<longrightarrow> \<not> addr_bit bs k)" (is "?L \<longleftrightarrow> ?R")
  proof
    assume L: ?L
    show ?R
    proof (intro allI impI notI)
      fix k assume k: "32 * j \<le> k \<and> k < 32 * j + 32 \<and> n \<le> int k" and a: "addr_bit bs k"
      define i where "i = 31 - (k - 32 * j)"
      from k have "k = 32 * j + (31 - i)" "i < 32" by (auto simp: i_def)
      with L k a show False by force
    qed
  next
    assume R: ?R
    show ?L
    proof (intro allI impI)
      fix i assume "i < (32::nat)" and a: "addr_bit bs (32 * j + (31 - i))"
      then have "32 * j \<le> 32 * j + (31 - i) \<and> 32 * j + (31 - i) < 32 * j + 32" by linarith
      with R a have "\<not> n \<le> int (32 * j + (31 - i))" by blast
      then show "32 * int j + int (31 - i) < n" by (simp only: of_nat_add of_nat_mult of_nat_numeral not_le)
    qed
  qed
  with b assms show ?thesis unfolding and_eq_iff by auto
qed

lemma fullyQualified_iff:
  assumes "1 \<le> n" and "n \<le> int (width f)" and "f \<noteq> INVALID"
  shows "fullyQualified (the_prefix f bs n) \<longleftrightarrow> (\<forall>k. n \<le> int k \<and> k < width f \<longrightarrow> \<not> addr_bit bs k)"
proof (cases "f = V4")
  case True
  have "bit (createMask n) i \<longleftrightarrow> i < 32 \<and> 32 * int 0 + int (31 - i) < n" for i by (simp add: createMask_bit)
  from word_in_mask [OF _ this, of bs] True show ?thesis
    by (auto simp: fullyQualified_def the_prefix_def width_def)
next
  case False
  have w: "(of_nat (be32 bs (4 * j)) AND masks n ! j = (of_nat (be32 bs (4 * j)) :: u32)) \<longleftrightarrow>
      (\<forall>k. 32 * j \<le> k \<and> k < 32 * j + 32 \<and> n \<le> int k \<longrightarrow> \<not> addr_bit bs k)" if "j < 4" for j
    by (rule word_in_mask [OF that]) (use mask_word_bit [OF that] in \<open>simp add: masks_def\<close>)
  have four: "(\<forall>j \<in> {0, 1, 2, 3}. Q j) \<longleftrightarrow> (\<forall>j < 4. Q j)" for Q :: "nat \<Rightarrow> bool"
    by (auto simp: eval_nat_numeral less_Suc_eq)
  have "fullyQualified (the_prefix f bs n) \<longleftrightarrow>
      (\<forall>j \<in> {0, 1, 2, 3}. (of_nat (be32 bs (4 * j)) AND masks n ! j = (of_nat (be32 bs (4 * j)) :: u32)))"
    using False by (simp add: fullyQualified_def the_prefix_def)
  also have "\<dots> \<longleftrightarrow> (\<forall>j < 4. \<forall>k. 32 * j \<le> k \<and> k < 32 * j + 32 \<and> n \<le> int k \<longrightarrow> \<not> addr_bit bs k)"
    unfolding four using w by (intro all_cong) simp
  also have "\<dots> \<longleftrightarrow> (\<forall>k. n \<le> int k \<and> k < 128 \<longrightarrow> \<not> addr_bit bs k)"
  proof (intro iffI allI impI)
    fix k assume A: "\<forall>j < 4. \<forall>k. 32 * j \<le> k \<and> k < 32 * j + 32 \<and> n \<le> int k \<longrightarrow> \<not> addr_bit bs k" and "n \<le> int k \<and> k < 128"
    then show "\<not> addr_bit bs k" using A [rule_format, of "k div 32" k] by simp
  qed auto
  finally show ?thesis using False by (simp add: width_def)
qed

text \<open>
  The check for fully qualified prefixes. After the prefix \<open>addr/len\<close> was added, all prefixes are fully qualified
  exactly if they were before and the address has no bit set beyond its first \<open>len\<close> bits.
\<close>

theorem fully_qualified_after_add:
  assumes "addr \<noteq> []" and "CHR ''/'' \<notin> set addr" and "pton N (family hint addr) addr = Some bs"
    and "1 \<le> n" and "n \<le> width (family hint addr)"
  shows "\<exists>s'. add_string N (addr @ ''/'' @ show_nat n) hint s = Some (True, s') \<and>
    (allAreFullyQualified s' \<longleftrightarrow> allAreFullyQualified s \<and> (\<forall>k. n \<le> k \<and> k < width (family hint addr) \<longrightarrow> \<not> addr_bit bs k))"
proof -
  have n: "n < 2 ^ 31" using assms(5) by (auto simp: width_def split: if_splits)
  have "fullyQualified (the_prefix (family hint addr) bs (int n)) \<longleftrightarrow>
      (\<forall>k. n \<le> k \<and> k < width (family hint addr) \<longrightarrow> \<not> addr_bit bs k)"
    using fullyQualified_iff [of "int n" "family hint addr" bs] assms(4,5) by simp
  with add_slash [OF assms(1,2) n, of N hint s] assms(3-5) show ?thesis
    by (simp add: add_parts_eq [OF family_valid] allAreFullyQualified_def loop_all)
qed

theorem fully_qualified_after_add_witness:
  "\<exists>s'. add_string demo_pton (''10.1.2.3'' @ ''/'' @ show_nat 32) INVALID new_parser = Some (True, s') \<and> allAreFullyQualified s'"
  using fully_qualified_after_add [OF _ _ demo_pton_reads, of 32 new_parser]
  by (auto simp: demo_family width_def new_parser_def allAreFullyQualified_def)

text \<open>What the parser stores.\<close>

definition prefix_ok :: "Prefix \<Rightarrow> bool" where
  "prefix_ok p \<longleftrightarrow> (\<exists>f bs n. f \<noteq> INVALID \<and> 1 \<le> n \<and> n \<le> int (width f) \<and> p = the_prefix f bs n)"

text \<open>What one text means: a prefix, or the text of an error; \<open>None\<close> where the length is no number that \<open>atoi\<close> is defined on.\<close>

definition text_result :: "inet_pton \<Rightarrow> IP_FAM \<Rightarrow> string \<Rightarrow> (Prefix + string) option" where
  "text_result N hint t =
     (if t = [] then Some (Inr ''Failed to parse string, length = 0...'')
      else case splitIntoAddrAndMask t of
             None \<Rightarrow> Some (Inr (''Failed to split into Address and Mask('' @ t @ '')''))
           | Some (addr, subnet) \<Rightarrow>
               let f = family hint t
               in map_option (\<lambda>n. if n < 1 \<or> int (width f) < n then Inr ''Invalid mask''
                    else case pton N f addr of
                           None \<Rightarrow> Inr ((if f = V4 then ''Failed to parse V4 Address('' else ''Failed to parse V6 Address('') @ addr @ '')'')
                         | Some bs \<Rightarrow> Inl (the_prefix f bs n)) (parseSubnetMask subnet f))"

lemma add_string_text_result:
  "add_string N t hint s =
     map_option (\<lambda>r. case r of Inl p \<Rightarrow> (True, s\<lparr>mPrefixes := mPrefixes s @ [p]\<rparr>) | Inr e \<Rightarrow> (False, s\<lparr>mLastErr := e\<rparr>)) (text_result N hint t)"
  by (auto simp: add_string_eq text_result_def fail_def Let_def split: option.splits prod.splits Option.bind_splits)

lemma text_result_ok: "text_result N hint t = Some (Inl p) \<Longrightarrow> prefix_ok p"
  by (auto simp: text_result_def prefix_ok_def Let_def split: if_splits option.splits prod.splits) (metis family_valid not_less)+

lemma add_loop_outcome:
  assumes "add_loop N ts hint s = Some (ok, s')"
  shows "\<exists>new. mPrefixes s' = mPrefixes s @ new \<and> map (text_result N hint) (take (length new) ts) = map (\<lambda>p. Some (Inl p)) new \<and>
    (if ok then length new = length ts \<and> mLastErr s' = mLastErr s
     else length new < length ts \<and> text_result N hint (ts ! length new) = Some (Inr (mLastErr s')))"
  using assms
proof (induction ts arbitrary: s)
  case Nil
  then show ?case by simp
next
  case (Cons t ts)
  show ?case
  proof (cases "text_result N hint t")
    case None
    then show ?thesis using Cons.prems by (simp add: add_string_text_result)
  next
    case (Some r)
    show ?thesis
    proof (cases r)
      case (Inr e)
      then have "ok = False" "s' = s\<lparr>mLastErr := e\<rparr>" using Cons.prems Some by (auto simp: add_string_text_result)
      with Inr Some show ?thesis by (intro exI [of _ "[]"]) simp
    next
      case (Inl p)
      then have "add_loop N ts hint (s\<lparr>mPrefixes := mPrefixes s @ [p]\<rparr>) = Some (ok, s')" using Cons.prems Some by (simp add: add_string_text_result)
      from Cons.IH [OF this] obtain new where "mPrefixes s' = mPrefixes s @ p # new" "map (text_result N hint) (take (length new) ts) = map (\<lambda>p. Some (Inl p)) new"
        "if ok then length new = length ts \<and> mLastErr s' = mLastErr s else length new < length ts \<and> text_result N hint (ts ! length new) = Some (Inr (mLastErr s'))" by auto
      with Inl Some show ?thesis by (intro exI [of _ "p # new"]) simp
    qed
  qed
qed

text \<open>
  C37. Adding a list of texts. \<open>text_result\<close> says what each text means. A call on a non-empty list stores, in order, exactly the prefixes of the texts before the first one that has none, and ends there:
  it succeeds and leaves the error text alone when all texts have one, and otherwise fails with the error of that text, whatever follows it. Every prefix the parser stores is well formed (a known family,
  and contiguous masks whose length fits it). An empty list is a failure of \<open>add\<close> and \<open>addV4\<close> but a success of \<open>addV6\<close>.
\<close>

theorem add_vector_outcome:
  assumes "add_vector N ts hint s = Some (ok, s')" and "list_all prefix_ok (mPrefixes s)"
  shows "list_all prefix_ok (mPrefixes s') \<and> (ts = [] \<longrightarrow> \<not> ok \<and> s' = s \<and> addV6_vector N ts s = Some (True, s)) \<and>
    (\<exists>new. mPrefixes s' = mPrefixes s @ new \<and> map (text_result N hint) (take (length new) ts) = map (\<lambda>p. Some (Inl p)) new \<and>
      (if ok then length new = length ts \<and> mLastErr s' = mLastErr s
       else ts = [] \<or> length new < length ts \<and> text_result N hint (ts ! length new) = Some (Inr (mLastErr s'))))"
proof (cases "ts = []")
  case True
  with assms show ?thesis by (simp add: add_vector_def addV6_vector_def)
next
  case False
  with assms(1) have "add_loop N ts hint s = Some (ok, s')" by (simp add: add_vector_def)
  from add_loop_outcome [OF this] obtain new where
    new: "mPrefixes s' = mPrefixes s @ new" "map (text_result N hint) (take (length new) ts) = map (\<lambda>p. Some (Inl p)) new"
      "if ok then length new = length ts \<and> mLastErr s' = mLastErr s else length new < length ts \<and> text_result N hint (ts ! length new) = Some (Inr (mLastErr s'))" by blast
  have "prefix_ok p" if "p \<in> set new" for p
  proof -
    from that have "Some (Inl p) \<in> set (map (text_result N hint) (take (length new) ts))" unfolding new(2) by simp
    then obtain t where "text_result N hint t = Some (Inl p)" by (metis imageE list.set_map)
    then show ?thesis by (rule text_result_ok)
  qed
  then have "list_all prefix_ok (mPrefixes s')" using assms(2) unfolding list_all_iff new(1) by auto
  moreover have "if ok then length new = length ts \<and> mLastErr s' = mLastErr s
      else ts = [] \<or> length new < length ts \<and> text_result N hint (ts ! length new) = Some (Inr (mLastErr s'))" using new(3) by (cases ok) simp_all
  ultimately show ?thesis using False new(1,2) by (intro conjI exI [of _ new]) simp_all
qed

theorem add_vector_outcome_witness:
  "let t = ''10.1.2.3'' @ ''/'' @ show_nat 8; p = the_prefix V4 [10, 1, 2, 3] 8
   in \<exists>s'. add_vector demo_pton [t, '''', t] V4 new_parser = Some (False, s') \<and> mPrefixes s' = [p] \<and> list_all prefix_ok (mPrefixes s')"
proof -
  let ?t = "''10.1.2.3'' @ ''/'' @ show_nat 8" and ?p = "the_prefix V4 [10, 1, 2, 3] 8"
  have "pton demo_pton (family V4 ''10.1.2.3'') ''10.1.2.3'' = Some [10, 1, 2, 3]"
    using demo_pton_reads by (simp add: demo_family) (simp add: family_def)
  then have a: "add_string demo_pton ?t V4 new_parser = Some (True, new_parser\<lparr>mPrefixes := [?p]\<rparr>)"
    using add_slash [of "''10.1.2.3''" 8 demo_pton V4 new_parser]
    by (simp add: add_parts_eq [of V4] width_def family_def) (simp add: new_parser_def)
  then obtain r where r: "text_result demo_pton V4 ?t = Some r"
    "(case r of Inl p \<Rightarrow> (True, new_parser\<lparr>mPrefixes := mPrefixes new_parser @ [p]\<rparr>) | Inr e \<Rightarrow> (False, new_parser\<lparr>mLastErr := e\<rparr>)) = (True, new_parser\<lparr>mPrefixes := [?p]\<rparr>)"
    unfolding add_string_text_result map_option_eq_Some by blast
  have t: "text_result demo_pton V4 ?t = Some (Inl ?p)" unfolding r(1) using r(2) by (cases r) (simp_all add: new_parser_def)
  obtain s' where s': "add_vector demo_pton [?t, '''', ?t] V4 new_parser = Some (False, s')"
    using a by (simp add: add_vector_def) (simp add: add_string_def fail_def)
  have "list_all prefix_ok (mPrefixes new_parser)" by (simp add: new_parser_def)
  from add_vector_outcome [OF s' this] obtain new where new: "list_all prefix_ok (mPrefixes s')" "mPrefixes s' = mPrefixes new_parser @ new"
    "map (text_result demo_pton V4) (take (length new) [?t, '''', ?t]) = map (\<lambda>p. Some (Inl p)) new" "length new < 3"
    "text_result demo_pton V4 ([?t, '''', ?t] ! length new) = Some (Inr (mLastErr s'))" by auto
  have "length new = 1"
  proof -
    have "length new \<noteq> 0" using new(5) t by auto
    moreover have "length new \<noteq> 2" using new(5) t by auto
    ultimately show ?thesis using new(4) by linarith
  qed
  then obtain q where q: "new = [q]" by (cases new) auto
  then have "q = ?p" using new(3) t by simp
  then show ?thesis using s' new(1,2) q by (simp add: new_parser_def)
qed

end
