(* ===== verification/OffloadMgr.thy ===== *)
theory OffloadMgr
  imports CmdQueue NatIfaces IpPrefix
begin

text \<open>
  The manager of tethering offload (\<open>ipacm/src/IPACM_OffloadManager.cpp\<close>): it turns the framework's requests for upstream and downstream interfaces into events of
  IPACM, and keeps requests for interfaces that the hardware is not set up for in a cache of ten entries until they are.

  The events posted to the queue are recorded in order. The answers of the kernel are the parameter \<open>K\<close> of each call; they may change from call to call; among them is
  whether there is memory for an event. \<open>None\<close>: the check of an interface left the array of NAT interfaces.
\<close>

section \<open>Data\<close>

datatype RET =
    FAIL_TOO_MANY_PREFIXES | FAIL_UNSUPPORTED | FAIL_INPUT_CHECK | FAIL_HARDWARE | FAIL_UNNEEDED | FAIL_TRY_AGAIN
  | SUCCESS | SUCCESS_DUPLICATE_CONFIG | SUCCESS_NO_OP | SUCCESS_OPTIMIZED

fun ret_num :: "RET \<Rightarrow> int" where
  "ret_num FAIL_TOO_MANY_PREFIXES = -6"
| "ret_num FAIL_UNSUPPORTED = -5"
| "ret_num FAIL_INPUT_CHECK = -4"
| "ret_num FAIL_HARDWARE = -3"
| "ret_num FAIL_UNNEEDED = -2"
| "ret_num FAIL_TRY_AGAIN = -1"
| "ret_num SUCCESS = 0"
| "ret_num SUCCESS_DUPLICATE_CONFIG = 1"
| "ret_num SUCCESS_NO_OP = 2"
| "ret_num SUCCESS_OPTIMIZED = 3"

text \<open>The data of the posted events: a downstream prefix, or an upstream route.\<close>

datatype off_data =
    is_Ipahal_stream: Ipahal_stream (stream_index: int) (stream_prefix: Prefix)
  | Data_iptype (route_index: int) (route_index_tether: int) (route_iptype: ipa_ip_type) (route_gw_v4: u32) (route_gw_v6: "u32 list")

record framework_event_cache =
  fe_event :: ipa_cm_event_id
  fe_dev_name :: string
  prefix_cache :: Prefix
  prefix_cache_v6 :: Prefix
  fe_valid :: bool

record conntrack_client =
  fd_tcp :: int
  fd_udp :: int

record OffloadManager =
  default_gw_index :: int
  upstream_v4_up :: bool
  upstream_v6_up :: bool
  event_cache :: "framework_event_cache list"
  latest_cache_index :: nat
  valid_ifaces :: "string list"
  elrInstance :: "ptr option"
  touInstance :: "ptr option"
  ipacmcfg :: nat_cfg
  conntrack :: "conntrack_client option"
  thread_starts :: nat
  stat_resets :: "string list"
  posted_evts :: "off_data ipacm_cmd_q_data list"

text \<open>The kernel: \<open>SIOCGIFINDEX\<close> on a socket, \<open>dup\<close>, \<open>open\<close> of \<open>/dev/wwan_ioctl\<close> and its requests (for the quota: the result and \<open>errno = ENODEV\<close>), and
  whether \<open>malloc\<close> finds memory for the data of an event.\<close>

record kernel =
  if_index_of :: "string \<Rightarrow> int option"
  dup_fd :: "int \<Rightarrow> int"
  dev_opens :: bool
  quota_ioctl :: "string \<Rightarrow> u64 \<Rightarrow> int \<times> bool"
  stats_ioctl :: "string \<Rightarrow> bool \<Rightarrow> (u64 \<times> u64) option"
  reset_ioctl :: "string \<Rightarrow> int"
  evt_malloc :: "ipa_cm_event_id \<Rightarrow> off_data \<Rightarrow> bool"

abbreviation INVALID_IFACE :: int where
  "INVALID_IFACE \<equiv> -1"

abbreviation MAX_EVENT_CACHE :: nat where
  "MAX_EVENT_CACHE \<equiv> 10"

definition zero_prefix :: Prefix where
  "zero_prefix = \<lparr>fam = V4, v4Addr = 0, v4Mask = 0, v6Addr = [0, 0, 0, 0], v6Mask = [0, 0, 0, 0]\<rparr>"

definition zero_cache :: framework_event_cache where
  "zero_cache = \<lparr>fe_event = IPA_CFG_CHANGE_EVENT, fe_dev_name = '''', prefix_cache = zero_prefix, prefix_cache_v6 = zero_prefix, fe_valid = False\<rparr>"

definition OffloadManager_new :: "nat_cfg \<Rightarrow> conntrack_client option \<Rightarrow> OffloadManager" where
  "OffloadManager_new cfg cc = \<lparr>default_gw_index = INVALID_IFACE, upstream_v4_up = False, upstream_v6_up = False,
     event_cache = replicate MAX_EVENT_CACHE zero_cache, latest_cache_index = 0, valid_ifaces = [], elrInstance = None, touInstance = None,
     ipacmcfg = cfg, conntrack = cc, thread_starts = 0, stat_resets = [], posted_evts = []\<rparr>"

section \<open>Listeners and file descriptors\<close>

definition registerEventListener :: "ptr option \<Rightarrow> OffloadManager \<Rightarrow> RET \<times> OffloadManager" where
  "registerEventListener listener s = (SUCCESS, s\<lparr>elrInstance := listener\<rparr>)"

definition unregisterEventListener :: "OffloadManager \<Rightarrow> RET \<times> OffloadManager" where
  "unregisterEventListener s = (SUCCESS, s\<lparr>elrInstance := None\<rparr>)"

definition registerCtTimeoutUpdater :: "ptr option \<Rightarrow> OffloadManager \<Rightarrow> RET \<times> OffloadManager" where
  "registerCtTimeoutUpdater updater s = (SUCCESS, s\<lparr>touInstance := updater\<rparr>)"

definition unregisterCtTimeoutUpdater :: "OffloadManager \<Rightarrow> RET \<times> OffloadManager" where
  "unregisterCtTimeoutUpdater s = (SUCCESS, s\<lparr>touInstance := None\<rparr>)"

text \<open>\<open>NF_NETLINK_CONNTRACK_UPDATE | NF_NETLINK_CONNTRACK_DESTROY\<close> and \<open>NF_NETLINK_CONNTRACK_NEW | NF_NETLINK_CONNTRACK_DESTROY\<close>.\<close>

abbreviation subscrips_tcp :: nat where
  "subscrips_tcp \<equiv> 6"

abbreviation subscrips_udp :: nat where
  "subscrips_udp \<equiv> 5"

definition provideFd :: "kernel \<Rightarrow> int \<Rightarrow> nat \<Rightarrow> OffloadManager \<Rightarrow> RET \<times> OffloadManager" where
  "provideFd K fd groups s =
     (case conntrack s of
        None \<Rightarrow> (FAIL_HARDWARE, s)
      | Some cc \<Rightarrow>
          if fd_tcp cc > -1 \<and> fd_udp cc > -1 then (SUCCESS, s)
          else let cc = (if groups = subscrips_tcp then cc\<lparr>fd_tcp := dup_fd K fd\<rparr>
                         else if groups = subscrips_udp then cc\<lparr>fd_udp := dup_fd K fd\<rparr>
                         else cc);
                   s = s\<lparr>conntrack := Some cc\<rparr>
               in (SUCCESS, if fd_tcp cc > 0 \<and> fd_udp cc > 0 then s\<lparr>thread_starts := thread_starts s + 1\<rparr> else s))"

definition clearAllFds :: "OffloadManager \<Rightarrow> RET \<times> OffloadManager" where
  "clearAllFds s = (SUCCESS, s)"

section \<open>Posting events\<close>

definition PostEvt_to :: "ipa_cm_event_id \<Rightarrow> off_data \<Rightarrow> OffloadManager \<Rightarrow> OffloadManager" where
  "PostEvt_to ev d s = s\<lparr>posted_evts := posted_evts s @ [\<lparr>event = ev, evt_data = Some d\<rparr>]\<rparr>"

text \<open>Without memory the result is \<open>-EFAULT\<close>; no caller looks at it.\<close>

definition post_route_evt :: "kernel \<Rightarrow> ipa_ip_type \<Rightarrow> int \<Rightarrow> ipa_cm_event_id \<Rightarrow> Prefix \<Rightarrow> OffloadManager \<Rightarrow> int \<times> OffloadManager" where
  "post_route_evt K iptype index ev gw_addr s =
     (let d = Data_iptype index 0 iptype (v4Addr gw_addr) (v6Addr gw_addr)
      in if \<not> evt_malloc K ev d then (-14, s) else (0, PostEvt_to ev d s))"

text \<open>The check of the length compares at most the size of a pointer, so that every name passes; it is cut to 15 characters.\<close>

definition ipa_get_if_index :: "kernel \<Rightarrow> string \<Rightarrow> int option" where
  "ipa_get_if_index K if_name = if_index_of K (strlcpy if_name 16)"

definition resetTetherStats :: "kernel \<Rightarrow> string \<Rightarrow> OffloadManager \<Rightarrow> int \<times> OffloadManager" where
  "resetTetherStats K upstream_name s =
     (if \<not> dev_opens K then (ret_num FAIL_HARDWARE, s)
      else if length upstream_name \<ge> 16 then (ret_num FAIL_INPUT_CHECK, s)
      else (if reset_ioctl K upstream_name < 0 then ret_num FAIL_HARDWARE else 0, s\<lparr>stat_resets := stat_resets s @ [upstream_name]\<rparr>))"

section \<open>The cache\<close>

text \<open>The loop over the entries, \<open>n\<close> of which are left to try; result: whether one was free. \<open>f\<close> fills the entry.\<close>

fun cache_loop :: "(framework_event_cache \<Rightarrow> framework_event_cache) \<Rightarrow> nat \<Rightarrow> OffloadManager \<Rightarrow> bool \<times> OffloadManager" where
  "cache_loop f 0 s = (False, s)"
| "cache_loop f (Suc n) s =
     (let i = latest_cache_index s; s' = s\<lparr>latest_cache_index := (i + 1) mod MAX_EVENT_CACHE\<rparr>
      in if \<not> fe_valid (event_cache s ! i) then (True, s'\<lparr>event_cache := (event_cache s)[i := f (event_cache s ! i)]\<rparr>)
         else cache_loop f n s')"

definition fill_down :: "string \<Rightarrow> Prefix \<Rightarrow> framework_event_cache \<Rightarrow> framework_event_cache" where
  "fill_down name p e = e\<lparr>fe_valid := True, fe_event := IPA_DOWNSTREAM_ADD, fe_dev_name := take 16 name, prefix_cache := p\<rparr>"

definition fill_upstream :: "string \<Rightarrow> Prefix \<Rightarrow> Prefix \<Rightarrow> framework_event_cache \<Rightarrow> framework_event_cache" where
  "fill_upstream name gw4 gw6 e =
     e\<lparr>fe_valid := True, fe_event := IPA_WAN_UPSTREAM_ROUTE_ADD_EVENT, fe_dev_name := take 16 name, prefix_cache := gw4, prefix_cache_v6 := gw6\<rparr>"

definition push_framework_event :: "string \<Rightarrow> Prefix \<Rightarrow> OffloadManager \<Rightarrow> bool \<times> OffloadManager" where
  "push_framework_event if_name prefix s = cache_loop (fill_down if_name prefix) MAX_EVENT_CACHE s"

text \<open>Whether the hardware is not yet set up for the families that the prefixes belong to.\<close>

definition need_cache :: "string \<Rightarrow> Prefix \<Rightarrow> Prefix \<Rightarrow> nat_cfg \<Rightarrow> bool option" where
  "need_cache name p4 p6 cfg =
     do { a \<leftarrow> (if fam p4 = V4 then map_option (\<lambda>r. r \<noteq> 0) (CheckNatIfaces name IPA_IP_v4 cfg) else Some False);
          b \<leftarrow> (if fam p6 = V6 then map_option (\<lambda>r. r \<noteq> 0) (CheckNatIfaces name IPA_IP_v6 cfg) else Some False);
          Some (a \<or> b) }"

section \<open>Downstream\<close>

text \<open>The interface is valid: it is added to the list if it is not there.\<close>

definition note_iface :: "string \<Rightarrow> OffloadManager \<Rightarrow> OffloadManager" where
  "note_iface name s = (if name \<notin> set (valid_ifaces s) then s\<lparr>valid_ifaces := valid_ifaces s @ [name]\<rparr> else s)"

definition addDownstream :: "kernel \<Rightarrow> string \<Rightarrow> Prefix \<Rightarrow> OffloadManager \<Rightarrow> (RET \<times> OffloadManager) option" where
  "addDownstream K downstream_name prefix s =
     (case ipa_get_if_index K downstream_name of
        None \<Rightarrow> Some (FAIL_INPUT_CHECK, s)
      | Some index \<Rightarrow>
          do { let s = note_iface downstream_name s;
               wait \<leftarrow> need_cache downstream_name prefix prefix (ipacmcfg s);
               Some (if wait
                     then let (stored, s) = cache_loop (fill_down downstream_name prefix) MAX_EVENT_CACHE s
                          in (if stored then SUCCESS else FAIL_HARDWARE, s)
                     else let d = Ipahal_stream index prefix
                          in if \<not> evt_malloc K IPA_DOWNSTREAM_ADD d then (FAIL_HARDWARE, s) else (SUCCESS, PostEvt_to IPA_DOWNSTREAM_ADD d s)) })"

definition removeDownstream :: "kernel \<Rightarrow> string \<Rightarrow> Prefix \<Rightarrow> OffloadManager \<Rightarrow> RET \<times> OffloadManager" where
  "removeDownstream K downstream_name prefix s =
     (if downstream_name = [] then (FAIL_HARDWARE, s)
      else if downstream_name \<notin> set (valid_ifaces s) then (FAIL_HARDWARE, s)
      else case ipa_get_if_index K downstream_name of
             None \<Rightarrow> (SUCCESS, s)
           | Some index \<Rightarrow>
               let d = Ipahal_stream index prefix
               in if \<not> evt_malloc K IPA_DOWNSTREAM_DEL d then (FAIL_HARDWARE, s) else (SUCCESS, PostEvt_to IPA_DOWNSTREAM_DEL d s))"

section \<open>Upstream\<close>

text \<open>The blocks that take down or bring up the route of one family.\<close>

definition down_v4 :: "kernel \<Rightarrow> Prefix \<Rightarrow> OffloadManager \<Rightarrow> OffloadManager" where
  "down_v4 K gw s = (snd (post_route_evt K IPA_IP_v4 (default_gw_index s) IPA_WAN_UPSTREAM_ROUTE_DEL_EVENT gw s))\<lparr>upstream_v4_up := False\<rparr>"

definition down_v6 :: "kernel \<Rightarrow> Prefix \<Rightarrow> OffloadManager \<Rightarrow> OffloadManager" where
  "down_v6 K gw s = (snd (post_route_evt K IPA_IP_v6 (default_gw_index s) IPA_WAN_UPSTREAM_ROUTE_DEL_EVENT gw s))\<lparr>upstream_v6_up := False\<rparr>"

definition bring_up_v4 :: "kernel \<Rightarrow> int \<Rightarrow> Prefix \<Rightarrow> OffloadManager \<Rightarrow> OffloadManager" where
  "bring_up_v4 K index gw s = (snd (post_route_evt K IPA_IP_v4 index IPA_WAN_UPSTREAM_ROUTE_ADD_EVENT gw s))\<lparr>upstream_v4_up := True\<rparr>"

definition bring_up_v6 :: "kernel \<Rightarrow> int \<Rightarrow> Prefix \<Rightarrow> OffloadManager \<Rightarrow> OffloadManager" where
  "bring_up_v6 K index gw s =
     (if v6Addr gw ! 0 = 0 \<and> v6Addr gw ! 1 = 0 \<and> v6Addr gw ! 2 = 0 \<and> v6Addr gw ! 3 = 0 then s
      else (snd (post_route_evt K IPA_IP_v6 index IPA_WAN_UPSTREAM_ROUTE_ADD_EVENT gw s))\<lparr>upstream_v6_up := True\<rparr>)"

text \<open>\<open>upstream_name == NULL\<close>.\<close>

definition setUpstream_null :: "kernel \<Rightarrow> Prefix \<Rightarrow> Prefix \<Rightarrow> OffloadManager \<Rightarrow> RET \<times> OffloadManager" where
  "setUpstream_null K gw4 gw6 s =
     (if default_gw_index s = INVALID_IFACE
      then let hit = (\<lambda>e. fe_valid e \<and> fe_event e = IPA_WAN_UPSTREAM_ROUTE_ADD_EVENT)
           in (if list_ex hit (event_cache s) then SUCCESS else FAIL_INPUT_CHECK,
               s\<lparr>event_cache := map (\<lambda>e. if hit e then e\<lparr>fe_valid := False\<rparr> else e) (event_cache s)\<rparr>)
      else let s = (if fam gw4 = V4 \<and> upstream_v4_up s then down_v4 K gw4 s else s);
               s = (if fam gw6 = V6 \<and> upstream_v6_up s then down_v6 K gw6 s else s)
           in (SUCCESS, s\<lparr>default_gw_index := INVALID_IFACE\<rparr>))"

text \<open>The interface is another one than before: both routes go.\<close>

definition switch_iface :: "kernel \<Rightarrow> string \<Rightarrow> Prefix \<Rightarrow> Prefix \<Rightarrow> OffloadManager \<Rightarrow> OffloadManager" where
  "switch_iface K name gw4 gw6 s =
     (let s = (if upstream_v4_up s then down_v4 K gw4 s else s);
          s = (if upstream_v6_up s then down_v6 K gw6 s else s);
          s = s\<lparr>default_gw_index := INVALID_IFACE\<rparr>
      in if name = ''wlan0'' then snd (resetTetherStats K name s) else s)"

definition set_routes :: "kernel \<Rightarrow> int \<Rightarrow> Prefix \<Rightarrow> Prefix \<Rightarrow> OffloadManager \<Rightarrow> RET \<times> OffloadManager" where
  "set_routes K index gw4 gw6 s =
     (if fam gw4 = V4 \<and> fam gw6 = V6
      then let s = (if \<not> upstream_v4_up s then bring_up_v4 K index gw4 s else s);
               s = (if \<not> upstream_v6_up s then bring_up_v6 K index gw6 s else s)
           in (SUCCESS, s)
      else if fam gw4 = V4
      then let s = (if upstream_v6_up s \<and> default_gw_index s \<noteq> INVALID_IFACE then down_v6 K gw6 s else s)
           in if \<not> upstream_v4_up s then (SUCCESS, bring_up_v4 K index gw4 s) else (SUCCESS_DUPLICATE_CONFIG, s)
      else if fam gw6 = V6
      then let s = (if upstream_v4_up s \<and> default_gw_index s \<noteq> INVALID_IFACE then down_v4 K gw4 s else s)
           in if \<not> upstream_v6_up s then (SUCCESS, bring_up_v6 K index gw6 s) else (SUCCESS_DUPLICATE_CONFIG, s)
      else (SUCCESS, s))"

definition setUpstream :: "kernel \<Rightarrow> string option \<Rightarrow> Prefix \<Rightarrow> Prefix \<Rightarrow> OffloadManager \<Rightarrow> (RET \<times> OffloadManager) option" where
  "setUpstream K upstream_name gw4 gw6 s =
     (case upstream_name of
        None \<Rightarrow> Some (setUpstream_null K gw4 gw6 s)
      | Some name \<Rightarrow>
          (case ipa_get_if_index K name of
             None \<Rightarrow> Some (FAIL_INPUT_CHECK, s)
           | Some index \<Rightarrow>
               do { wait \<leftarrow> need_cache name gw4 gw6 (ipacmcfg s);
                    Some (if wait
                          then let (stored, s) = cache_loop (fill_upstream name gw4 gw6) MAX_EVENT_CACHE s
                               in (if stored then SUCCESS else FAIL_HARDWARE, s)
                          else let s = (if index \<noteq> default_gw_index s then switch_iface K name gw4 gw6 s else s);
                                   (result, s) = set_routes K index gw4 gw6 s
                               in (result, s\<lparr>default_gw_index := index\<rparr>)) }))"

definition stopAllOffload :: "kernel \<Rightarrow> OffloadManager \<Rightarrow> RET \<times> OffloadManager" where
  "stopAllOffload K s =
     (let (result, s) = setUpstream_null K (zero_prefix\<lparr>fam := V4\<rparr>) (zero_prefix\<lparr>fam := V6\<rparr>) s
      in (result, s\<lparr>default_gw_index := INVALID_IFACE, upstream_v4_up := False, upstream_v6_up := False,
            event_cache := replicate MAX_EVENT_CACHE zero_cache, latest_cache_index := 0, valid_ifaces := []\<rparr>))"

section \<open>Quota and statistics\<close>

definition setQuota :: "kernel \<Rightarrow> string \<Rightarrow> u64 \<Rightarrow> RET" where
  "setQuota K upstream_name mb =
     (if \<not> dev_opens K then FAIL_HARDWARE
      else if length upstream_name \<ge> 16 then FAIL_INPUT_CHECK
      else let (rc, enodev) = quota_ioctl K upstream_name mb
           in if rc \<noteq> 0 then if enodev then FAIL_UNSUPPORTED else FAIL_TRY_AGAIN else SUCCESS)"

text \<open>The statistics are \<open>(rx, tx)\<close>, both zero before.\<close>

definition getStats :: "kernel \<Rightarrow> string \<Rightarrow> bool \<Rightarrow> RET \<times> u64 \<times> u64" where
  "getStats K upstream_name reset =
     (if \<not> dev_opens K then (FAIL_HARDWARE, 0, 0)
      else if length upstream_name \<ge> 16 then (FAIL_INPUT_CHECK, 0, 0)
      else case stats_ioctl K upstream_name reset of None \<Rightarrow> (FAIL_TRY_AGAIN, 0, 0) | Some (tx, rx) \<Rightarrow> (SUCCESS, rx, tx))"

section \<open>An interface has been set up\<close>

fun search_loop_fw :: "kernel \<Rightarrow> string \<Rightarrow> nat \<Rightarrow> nat \<Rightarrow> bool \<Rightarrow> OffloadManager \<Rightarrow> (bool \<times> OffloadManager) option" where
  "search_loop_fw K name i 0 rel s = Some (rel, s)"
| "search_loop_fw K name i (Suc n) rel s =
     (let e = event_cache s ! i
      in if fe_valid e \<and> strncmp_eq (fe_dev_name e) name 16
         then do { (r, s) \<leftarrow> (if fe_event e = IPA_DOWNSTREAM_ADD then addDownstream K name (prefix_cache e) s
                            else if fe_event e = IPA_WAN_UPSTREAM_ROUTE_ADD_EVENT
                            then setUpstream K (Some name) (prefix_cache e) (prefix_cache_v6 e) s
                            else Some (SUCCESS, s));
                   let s = s\<lparr>event_cache := (event_cache s)[i := (event_cache s ! i)\<lparr>fe_valid := False\<rparr>]\<rparr>;
                   search_loop_fw K name (Suc i) n True s }
         else search_loop_fw K name (Suc i) n rel s)"

definition search_framwork_cache :: "kernel \<Rightarrow> string \<Rightarrow> OffloadManager \<Rightarrow> (bool \<times> OffloadManager) option" where
  "search_framwork_cache K interface_name s = search_loop_fw K interface_name 0 MAX_EVENT_CACHE False s"

section \<open>The routes that the posted events set up\<close>

text \<open>Per family, an upstream route may only be added when there is none, and only the interface that has it may lose it.\<close>

definition route_step :: "off_data ipacm_cmd_q_data \<Rightarrow> (ipa_ip_type \<rightharpoonup> int) \<Rightarrow> (ipa_ip_type \<rightharpoonup> int) option" where
  "route_step e R =
     (case evt_data e of
        Some (Data_iptype i tether t gw4 gw6) \<Rightarrow>
          if event e = IPA_WAN_UPSTREAM_ROUTE_ADD_EVENT then if R t = None then Some (R(t \<mapsto> i)) else None
          else if event e = IPA_WAN_UPSTREAM_ROUTE_DEL_EVENT then if R t = Some i then Some (R(t := None)) else None
          else Some R
      | _ \<Rightarrow> Some R)"

fun replay :: "off_data ipacm_cmd_q_data list \<Rightarrow> (ipa_ip_type \<rightharpoonup> int) \<Rightarrow> (ipa_ip_type \<rightharpoonup> int) option" where
  "replay [] R = Some R"
| "replay (e # es) R = route_step e R \<bind> replay es"

lemma replay_snoc: "replay (es @ [e]) R = replay es R \<bind> route_step e"
  by (induction es arbitrary: R) (auto split: Option.bind_splits)

abbreviation routes :: "OffloadManager \<Rightarrow> (ipa_ip_type \<rightharpoonup> int) option" where
  "routes s \<equiv> replay (posted_evts s) Map.empty"

text \<open>What the manager believes.\<close>

definition believed :: "OffloadManager \<Rightarrow> ipa_ip_type \<rightharpoonup> int" where
  "believed s t = (if t = IPA_IP_v4 \<and> upstream_v4_up s \<or> t = IPA_IP_v6 \<and> upstream_v6_up s then Some (default_gw_index s) else None)"

definition mgr_ok :: "OffloadManager \<Rightarrow> bool" where
  "mgr_ok s \<longleftrightarrow> length (event_cache s) = MAX_EVENT_CACHE \<and> latest_cache_index s < MAX_EVENT_CACHE \<and> cfg_ok (ipacmcfg s) \<and>
     (upstream_v4_up s \<or> upstream_v6_up s \<longrightarrow> default_gw_index s \<noteq> INVALID_IFACE) \<and> routes s = Some (believed s)"

lemma mgr_okI:
  "\<lbrakk>length (event_cache s) = MAX_EVENT_CACHE; latest_cache_index s < MAX_EVENT_CACHE; cfg_ok (ipacmcfg s);
    upstream_v4_up s \<or> upstream_v6_up s \<longrightarrow> default_gw_index s \<noteq> INVALID_IFACE; routes s = Some (believed s)\<rbrakk> \<Longrightarrow> mgr_ok s"
  by (simp add: mgr_ok_def)

lemma new_ok: "cfg_ok cfg \<Longrightarrow> mgr_ok (OffloadManager_new cfg cc)"
  by (auto simp: mgr_ok_def OffloadManager_new_def believed_def fun_eq_iff)

text \<open>No interface has the index \<open>-1\<close>, and memory for events is available.\<close>

definition mem_ok :: "kernel \<Rightarrow> bool" where
  "mem_ok K \<longleftrightarrow> (\<forall>ev d. evt_malloc K ev d)"

definition kernel_ok :: "kernel \<Rightarrow> bool" where
  "kernel_ok K \<longleftrightarrow> (\<forall>n i. if_index_of K n = Some i \<longrightarrow> i \<noteq> INVALID_IFACE) \<and> mem_ok K"

lemma kernel_mem [simp]: "kernel_ok K \<Longrightarrow> mem_ok K"
  by (simp add: kernel_ok_def)

lemma post_route_mem [simp]:
  "mem_ok K \<Longrightarrow> post_route_evt K t i ev gw s = (0, PostEvt_to ev (Data_iptype i 0 t (v4Addr gw) (v6Addr gw)) s)"
  by (simp add: post_route_evt_def mem_ok_def)

text \<open>What each block does to the routes.\<close>

lemma PostEvt_fields [simp]:
  "posted_evts (PostEvt_to e d s) = posted_evts s @ [\<lparr>event = e, evt_data = Some d\<rparr>]" "default_gw_index (PostEvt_to e d s) = default_gw_index s"
  "upstream_v4_up (PostEvt_to e d s) = upstream_v4_up s" "upstream_v6_up (PostEvt_to e d s) = upstream_v6_up s"
  "event_cache (PostEvt_to e d s) = event_cache s" "latest_cache_index (PostEvt_to e d s) = latest_cache_index s"
  "ipacmcfg (PostEvt_to e d s) = ipacmcfg s" "elrInstance (PostEvt_to e d s) = elrInstance s" "touInstance (PostEvt_to e d s) = touInstance s"
  by (simp_all add: PostEvt_to_def)

text \<open>The state of the routes, as seen in the middle of a request.\<close>

definition routed :: "int option \<Rightarrow> int option \<Rightarrow> OffloadManager \<Rightarrow> bool" where
  "routed r4 r6 s \<longleftrightarrow> routes s = Some (Map.empty(IPA_IP_v4 := r4, IPA_IP_v6 := r6)) \<and> upstream_v4_up s = (r4 \<noteq> None) \<and> upstream_v6_up s = (r6 \<noteq> None)"

lemma mgr_ok_routed: "mgr_ok s \<Longrightarrow> routed (believed s IPA_IP_v4) (believed s IPA_IP_v6) s"
proof -
  assume "mgr_ok s"
  moreover have "believed s = Map.empty(IPA_IP_v4 := believed s IPA_IP_v4, IPA_IP_v6 := believed s IPA_IP_v6)"
    by (auto simp: fun_eq_iff believed_def)
  ultimately show ?thesis by (simp add: mgr_ok_def routed_def) (simp add: believed_def)
qed

lemma routed_down_v4: "mem_ok K \<Longrightarrow> routed (Some (default_gw_index s)) r6 s \<Longrightarrow> routed None r6 (down_v4 K gw s)"
  by (auto simp: routed_def down_v4_def replay_snoc route_step_def fun_eq_iff)

lemma routed_down_v6: "mem_ok K \<Longrightarrow> routed r4 (Some (default_gw_index s)) s \<Longrightarrow> routed r4 None (down_v6 K gw s)"
  by (auto simp: routed_def down_v6_def replay_snoc route_step_def fun_eq_iff)

lemma routed_up_v4: "mem_ok K \<Longrightarrow> routed None r6 s \<Longrightarrow> routed (Some i) r6 (bring_up_v4 K i gw s)"
  by (auto simp: routed_def bring_up_v4_def replay_snoc route_step_def fun_eq_iff)

lemma routed_up_v6: "mem_ok K \<Longrightarrow> routed r4 None s \<Longrightarrow> routed r4 None (bring_up_v6 K i gw s) \<or> routed r4 (Some i) (bring_up_v6 K i gw s)"
  by (auto simp: routed_def bring_up_v6_def replay_snoc route_step_def fun_eq_iff)

text \<open>Without memory the manager takes the route to be up, while no event announces it: the callers do not look at the result.\<close>

lemma route_event_lost:
  assumes "\<not> evt_malloc K IPA_WAN_UPSTREAM_ROUTE_ADD_EVENT (Data_iptype i 0 IPA_IP_v4 (v4Addr gw) (v6Addr gw))"
  shows "upstream_v4_up (bring_up_v4 K i gw s) \<and> posted_evts (bring_up_v4 K i gw s) = posted_evts s"
  using assms by (simp add: bring_up_v4_def post_route_evt_def)

text \<open>The posted downstream events.\<close>

definition is_stream :: "off_data ipacm_cmd_q_data \<Rightarrow> bool" where
  "is_stream e \<longleftrightarrow> (case evt_data e of Some d \<Rightarrow> is_Ipahal_stream d | None \<Rightarrow> False)"

definition streams :: "OffloadManager \<Rightarrow> off_data ipacm_cmd_q_data list" where
  "streams s = filter is_stream (posted_evts s)"

text \<open>The blocks touch nothing else.\<close>

definition same_rest :: "OffloadManager \<Rightarrow> OffloadManager \<Rightarrow> bool" where
  "same_rest s s' \<longleftrightarrow> event_cache s' = event_cache s \<and> latest_cache_index s' = latest_cache_index s \<and> ipacmcfg s' = ipacmcfg s \<and>
     elrInstance s' = elrInstance s \<and> touInstance s' = touInstance s \<and> streams s' = streams s"

lemma same_rest_trans [trans]: "same_rest s t \<Longrightarrow> same_rest t u \<Longrightarrow> same_rest s u"
  by (simp add: same_rest_def)

lemma same_rest_refl [simp]: "same_rest s s"
  by (simp add: same_rest_def)

lemma blocks_rest [simp]:
  "same_rest s (down_v4 K gw s)" "same_rest s (down_v6 K gw s)" "same_rest s (bring_up_v4 K i gw s)" "same_rest s (bring_up_v6 K i gw s)"
  "default_gw_index (down_v4 K gw s) = default_gw_index s" "default_gw_index (down_v6 K gw s) = default_gw_index s"
  "default_gw_index (bring_up_v4 K i gw s) = default_gw_index s" "default_gw_index (bring_up_v6 K i gw s) = default_gw_index s"
  by (auto simp: same_rest_def streams_def is_stream_def down_v4_def down_v6_def bring_up_v4_def bring_up_v6_def post_route_evt_def Let_def)

text \<open>All routes that are up lead to interface \<open>d\<close>.\<close>

definition via :: "int \<Rightarrow> OffloadManager \<Rightarrow> bool" where
  "via d s \<longleftrightarrow> (\<exists>r4 r6. routed r4 r6 s \<and> r4 \<in> {None, Some d} \<and> r6 \<in> {None, Some d})"

lemma via_I: "routed r4 r6 s \<Longrightarrow> r4 \<in> {None, Some d} \<Longrightarrow> r6 \<in> {None, Some d} \<Longrightarrow> via d s"
  by (auto simp: via_def)

lemma via_routes: "via d s \<Longrightarrow> routed (if upstream_v4_up s then Some d else None) (if upstream_v6_up s then Some d else None) s"
  by (auto simp: via_def routed_def)

lemma down_flags [simp]:
  "upstream_v4_up (down_v4 K gw s) = False" "upstream_v6_up (down_v4 K gw s) = upstream_v6_up s"
  "upstream_v4_up (down_v6 K gw s) = upstream_v4_up s" "upstream_v6_up (down_v6 K gw s) = False"
  "upstream_v4_up (bring_up_v4 K i gw s) = True" "upstream_v6_up (bring_up_v4 K i gw s) = upstream_v6_up s"
  "upstream_v4_up (bring_up_v6 K i gw s) = upstream_v4_up s"
  by (auto simp: down_v4_def down_v6_def bring_up_v4_def bring_up_v6_def post_route_evt_def Let_def)

lemma via_blocks:
  assumes "via d s" and K: "mem_ok K"
  shows "upstream_v4_up s \<Longrightarrow> default_gw_index s = d \<Longrightarrow> via d (down_v4 K gw s)"
    "upstream_v6_up s \<Longrightarrow> default_gw_index s = d \<Longrightarrow> via d (down_v6 K gw s)"
    "\<not> upstream_v4_up s \<Longrightarrow> via d (bring_up_v4 K d gw s)" "\<not> upstream_v6_up s \<Longrightarrow> via d (bring_up_v6 K d gw s)"
proof -
  let ?r4 = "if upstream_v4_up s then Some d else None" and ?r6 = "if upstream_v6_up s then Some d else None"
  note r = via_routes [OF assms(1)]
  show "via d (down_v4 K gw s)" if "upstream_v4_up s" "default_gw_index s = d"
    using routed_down_v4 [OF K, of s ?r6 gw] r that by (intro via_I [of None ?r6]) auto
  show "via d (down_v6 K gw s)" if "upstream_v6_up s" "default_gw_index s = d"
    using routed_down_v6 [OF K, of ?r4 s gw] r that by (intro via_I [of ?r4 None]) auto
  show "via d (bring_up_v4 K d gw s)" if "\<not> upstream_v4_up s"
    using routed_up_v4 [OF K, of ?r6 s d gw] r that by (intro via_I [of "Some d" ?r6]) auto
  show "via d (bring_up_v6 K d gw s)" if "\<not> upstream_v6_up s"
    using routed_up_v6 [OF K, of ?r4 s d gw] r that via_I [of ?r4 _ "bring_up_v6 K d gw s" d] by (cases "upstream_v4_up s") auto
qed

lemma via_none: "via d s \<Longrightarrow> \<not> upstream_v4_up s \<Longrightarrow> \<not> upstream_v6_up s \<Longrightarrow> via e s"
  by (auto simp: via_def routed_def)

lemma via_upd [simp]:
  "via d (s\<lparr>default_gw_index := i\<rparr>) = via d s" "via d (s\<lparr>event_cache := c\<rparr>) = via d s" "via d (s\<lparr>latest_cache_index := k\<rparr>) = via d s"
  "via d (s\<lparr>valid_ifaces := v\<rparr>) = via d s" "via d (s\<lparr>stat_resets := r\<rparr>) = via d s"
  by (simp_all add: via_def routed_def)

lemma mgr_ok_via:
  "mgr_ok s \<longleftrightarrow> length (event_cache s) = MAX_EVENT_CACHE \<and> latest_cache_index s < MAX_EVENT_CACHE \<and> cfg_ok (ipacmcfg s) \<and>
     (upstream_v4_up s \<or> upstream_v6_up s \<longrightarrow> default_gw_index s \<noteq> INVALID_IFACE) \<and> via (default_gw_index s) s"
proof -
  have "routes s = Some (believed s) \<longleftrightarrow> via (default_gw_index s) s"
  proof
    assume "routes s = Some (believed s)"
    then have "routed (believed s IPA_IP_v4) (believed s IPA_IP_v6) s" by (auto simp: routed_def believed_def fun_eq_iff)
    then show "via (default_gw_index s) s" by (rule via_I) (auto simp: believed_def)
  next
    assume "via (default_gw_index s) s"
    from via_routes [OF this] show "routes s = Some (believed s)" by (auto simp: routed_def believed_def fun_eq_iff)
  qed
  then show ?thesis by (auto simp: mgr_ok_def)
qed

lemma switch_iface_via:
  assumes "via (default_gw_index s) s" and K: "mem_ok K"
  shows "via d (switch_iface K name gw4 gw6 s)" "same_rest s (switch_iface K name gw4 gw6 s)"
    "default_gw_index (switch_iface K name gw4 gw6 s) = INVALID_IFACE"
    "\<not> upstream_v4_up (switch_iface K name gw4 gw6 s)" "\<not> upstream_v6_up (switch_iface K name gw4 gw6 s)"
proof -
  let ?s1 = "if upstream_v4_up s then down_v4 K gw4 s else s"
  let ?s2 = "if upstream_v6_up ?s1 then down_v6 K gw6 ?s1 else ?s1"
  have 1: "via (default_gw_index s) ?s1" "default_gw_index ?s1 = default_gw_index s" "\<not> upstream_v4_up ?s1" using via_blocks(1) [OF assms] assms(1) by auto
  have 2: "via (default_gw_index s) ?s2" "\<not> upstream_v4_up ?s2" "\<not> upstream_v6_up ?s2" using via_blocks(2) [OF 1(1) K] 1 by auto
  have "same_rest s ?s1" "same_rest ?s1 ?s2" by (simp_all add: same_rest_refl)
  then have 3: "same_rest s ?s2" using same_rest_trans by blast
  note sw = switch_iface_def Let_def resetTetherStats_def
  show "via d (switch_iface K name gw4 gw6 s)" using via_none [OF 2, of d] by (simp add: sw)
  show "same_rest s (switch_iface K name gw4 gw6 s)" using 3 by (simp add: sw same_rest_def streams_def)
  show "default_gw_index (switch_iface K name gw4 gw6 s) = INVALID_IFACE" by (simp add: sw)
  show "\<not> upstream_v4_up (switch_iface K name gw4 gw6 s)" "\<not> upstream_v6_up (switch_iface K name gw4 gw6 s)" using 2(2,3) by (simp_all add: sw)
qed

lemma cond_up:
  assumes "via d t" "same_rest s t" and K: "mem_ok K"
  shows "via d (if \<not> upstream_v4_up t then bring_up_v4 K d gw t else t) \<and> same_rest s (if \<not> upstream_v4_up t then bring_up_v4 K d gw t else t)"
    "via d (if \<not> upstream_v6_up t then bring_up_v6 K d gw t else t) \<and> same_rest s (if \<not> upstream_v6_up t then bring_up_v6 K d gw t else t)"
  using assms via_blocks(3,4) [OF assms(1) K] same_rest_trans [OF assms(2) blocks_rest(3)] same_rest_trans [OF assms(2) blocks_rest(4)] by simp_all

lemma set_routes_via:
  assumes K: "mem_ok K" and v: "via index s" and d: "default_gw_index s \<in> {index, INVALID_IFACE}"
    and up: "upstream_v4_up s \<or> upstream_v6_up s \<longrightarrow> default_gw_index s \<noteq> INVALID_IFACE"
  shows "via index (snd (set_routes K index gw4 gw6 s)) \<and> same_rest s (snd (set_routes K index gw4 gw6 s))"
proof -
  have dv: "default_gw_index s = index" if "upstream_v4_up s \<or> upstream_v6_up s" using d up that by auto
  define a where "a = (if \<not> upstream_v4_up s then bring_up_v4 K index gw4 s else s)"
  define b where "b = (if upstream_v6_up s \<and> default_gw_index s \<noteq> INVALID_IFACE then down_v6 K gw6 s else s)"
  define c where "c = (if upstream_v4_up s \<and> default_gw_index s \<noteq> INVALID_IFACE then down_v4 K gw4 s else s)"
  have a: "via index a" "same_rest s a" using via_blocks(3) [OF v K] v by (auto simp: a_def)
  have b: "via index b" "same_rest s b" using via_blocks(2) [OF v K] v dv by (auto simp: b_def)
  have c: "via index c" "same_rest s c" using via_blocks(1) [OF v K] v dv by (auto simp: c_def)
  have "snd (set_routes K index gw4 gw6 s) =
      (if fam gw4 = V4 \<and> fam gw6 = V6 then if \<not> upstream_v6_up a then bring_up_v6 K index gw6 a else a
       else if fam gw4 = V4 then if \<not> upstream_v4_up b then bring_up_v4 K index gw4 b else b
       else if fam gw6 = V6 then if \<not> upstream_v6_up c then bring_up_v6 K index gw6 c else c else s)"
    unfolding set_routes_def Let_def a_def [symmetric] b_def [symmetric] c_def [symmetric] by simp
  then show ?thesis using cond_up(2) [OF a K, of gw6] cond_up(1) [OF b K, of gw4] cond_up(2) [OF c K, of gw6] v by simp
qed

lemma cache_loop_fields:
  "cache_loop f n s = (ok, s') \<Longrightarrow> latest_cache_index s < MAX_EVENT_CACHE \<Longrightarrow>
     \<exists>c k. s' = s\<lparr>event_cache := c, latest_cache_index := k\<rparr> \<and> length c = length (event_cache s) \<and> k < MAX_EVENT_CACHE"
proof (induction f n s rule: cache_loop.induct)
  case (1 f s)
  then show ?case by (intro exI [of _ "event_cache s"] exI [of _ "latest_cache_index s"]) simp
next
  case (2 f n s)
  let ?i = "latest_cache_index s"
  show ?case
  proof (cases "fe_valid (event_cache s ! ?i)")
    case True
    with 2 show ?thesis by (fastforce simp: Let_def)
  next
    case False
    with 2(2) have "s' = s\<lparr>event_cache := (event_cache s)[?i := f (event_cache s ! ?i)], latest_cache_index := (?i + 1) mod MAX_EVENT_CACHE\<rparr>"
      by (auto simp: Let_def)
    then show ?thesis by (intro exI conjI, assumption) simp_all
  qed
qed

lemma cache_loop_result:
  "length (event_cache s) = MAX_EVENT_CACHE \<Longrightarrow> latest_cache_index s < MAX_EVENT_CACHE \<Longrightarrow>
     (case cache_loop f n s of
        (True, s') \<Rightarrow> \<exists>i < MAX_EVENT_CACHE. \<not> fe_valid (event_cache s ! i) \<and>
          s' = s\<lparr>event_cache := (event_cache s)[i := f (event_cache s ! i)], latest_cache_index := (i + 1) mod MAX_EVENT_CACHE\<rparr>
      | (False, s') \<Rightarrow> (\<forall>j < n. fe_valid (event_cache s ! ((latest_cache_index s + j) mod MAX_EVENT_CACHE))) \<and>
          s' = s\<lparr>latest_cache_index := (latest_cache_index s + n) mod MAX_EVENT_CACHE\<rparr>)"
proof (induction f n s rule: cache_loop.induct)
  case (1 f s)
  then show ?case by simp
next
  case (2 f n s)
  let ?i = "latest_cache_index s" let ?s = "s\<lparr>latest_cache_index := (?i + 1) mod MAX_EVENT_CACHE\<rparr>"
  show ?case
  proof (cases "fe_valid (event_cache s ! ?i)")
    case False
    then show ?thesis using 2(3) by (auto simp: Let_def intro!: exI [of _ ?i])
  next
    case True
    have IH: "case cache_loop f n ?s of
        (True, s') \<Rightarrow> \<exists>i < MAX_EVENT_CACHE. \<not> fe_valid (event_cache s ! i) \<and>
          s' = s\<lparr>event_cache := (event_cache s)[i := f (event_cache s ! i)], latest_cache_index := (i + 1) mod MAX_EVENT_CACHE\<rparr>
      | (False, s') \<Rightarrow> (\<forall>j < n. fe_valid (event_cache s ! ((?i + Suc j) mod MAX_EVENT_CACHE))) \<and>
          s' = s\<lparr>latest_cache_index := (?i + Suc n) mod MAX_EVENT_CACHE\<rparr>"
      using 2(1) [of ?i ?s] 2(2,3) True by (simp add: mod_add_left_eq split: prod.splits bool.splits)
    have "(\<forall>j < Suc n. fe_valid (event_cache s ! ((?i + j) mod MAX_EVENT_CACHE))) \<longleftrightarrow> (\<forall>j < n. fe_valid (event_cache s ! ((?i + Suc j) mod MAX_EVENT_CACHE)))"
      using True 2(3) by (auto simp: All_less_Suc2)
    then show ?thesis using IH True by (simp add: Let_def split: prod.splits bool.splits)
  qed
qed

text \<open>A request is refused exactly when all entries are taken, and then the manager is as before.\<close>

lemma cache_full_iff:
  assumes "length (event_cache s) = MAX_EVENT_CACHE" "latest_cache_index s < MAX_EVENT_CACHE" "cache_loop f MAX_EVENT_CACHE s = (stored, s')"
  shows "stored \<longleftrightarrow> (\<exists>e \<in> set (event_cache s). \<not> fe_valid e)" "\<not> stored \<Longrightarrow> s' = s"
proof -
  note r = cache_loop_result [OF assms(1,2), of f MAX_EVENT_CACHE, unfolded assms(3)]
  have all: "\<forall>e \<in> set (event_cache s). fe_valid e" if v: "\<forall>j < MAX_EVENT_CACHE. fe_valid (event_cache s ! ((latest_cache_index s + j) mod MAX_EVENT_CACHE))"
  proof
    fix e assume "e \<in> set (event_cache s)"
    then obtain i where i: "i < MAX_EVENT_CACHE" "e = event_cache s ! i" using assms(1) by (auto simp: in_set_conv_nth)
    let ?j = "(i + MAX_EVENT_CACHE - latest_cache_index s) mod MAX_EVENT_CACHE"
    have "(latest_cache_index s + ?j) mod MAX_EVENT_CACHE = i" using i(1) assms(2) by (simp add: mod_add_right_eq)
    then show "fe_valid e" using v i(2) by (metis mod_less_divisor zero_less_numeral)
  qed
  show "stored \<longleftrightarrow> (\<exists>e \<in> set (event_cache s). \<not> fe_valid e)" using r all assms(1) nth_mem [of _ "event_cache s"] by (cases stored) auto
  show "s' = s" if "\<not> stored" using r that assms(2) by simp
qed

lemma need_cache_defined: "mgr_ok s \<Longrightarrow> \<exists>w. need_cache name p4 p6 (ipacmcfg s) = Some w"
  using CheckNatIfaces_map [of "ipacmcfg s"] by (auto simp: mgr_ok_def need_cache_def)

text \<open>The fields that the HAL's state is tied to stay.\<close>

abbreviation same_listeners :: "OffloadManager \<Rightarrow> OffloadManager \<Rightarrow> bool" where
  "same_listeners s s' \<equiv> elrInstance s' = elrInstance s \<and> touInstance s' = touInstance s \<and> ipacmcfg s' = ipacmcfg s"

lemma cached_ok:
  assumes "mgr_ok s" "cache_loop f n s = (ok, s')"
  shows "mgr_ok s' \<and> same_listeners s s'"
proof -
  obtain c k where "s' = s\<lparr>event_cache := c, latest_cache_index := k\<rparr>" "length c = length (event_cache s)" "k < MAX_EVENT_CACHE"
    using cache_loop_fields [OF assms(2)] assms(1) by (auto simp: mgr_ok_def)
  then show ?thesis using assms(1) by (simp add: mgr_ok_via)
qed

lemma setUpstream_null_ok:
  assumes K: "mem_ok K" and ok: "mgr_ok s" and f: "fam gw4 = V4" "fam gw6 = V6" and r: "setUpstream_null K gw4 gw6 s = (r, s')"
  shows "mgr_ok s' \<and> same_listeners s s' \<and> default_gw_index s' = INVALID_IFACE \<and> \<not> upstream_v4_up s' \<and> \<not> upstream_v6_up s'"
proof (cases "default_gw_index s = INVALID_IFACE")
  case True
  then show ?thesis using ok r by (auto simp: setUpstream_null_def mgr_ok_via Let_def)
next
  case False
  let ?s1 = "if upstream_v4_up s then down_v4 K gw4 s else s"
  let ?s2 = "if upstream_v6_up ?s1 then down_v6 K gw6 ?s1 else ?s1"
  have s': "s' = ?s2\<lparr>default_gw_index := INVALID_IFACE\<rparr>" using False f r by (auto simp: setUpstream_null_def Let_def)
  have v: "via (default_gw_index s) s" using ok by (simp add: mgr_ok_via)
  then have 1: "via (default_gw_index s) ?s1" "default_gw_index ?s1 = default_gw_index s" "\<not> upstream_v4_up ?s1" using via_blocks(1) [OF _ K] by auto
  have 2: "via (default_gw_index s) ?s2" "\<not> upstream_v4_up ?s2" "\<not> upstream_v6_up ?s2" using via_blocks(2) [OF 1(1) K] 1 by auto
  have "same_rest s ?s1" "same_rest ?s1 ?s2" by simp_all
  then have "same_rest s ?s2" using same_rest_trans by blast
  then show ?thesis unfolding s' using ok 2 via_none [OF 2, of INVALID_IFACE] by (simp add: mgr_ok_via same_rest_def)
qed

lemma setUpstream_name_ok:
  assumes ok: "mgr_ok s" and K: "kernel_ok K"
  shows "\<exists>r s'. setUpstream K (Some name) gw4 gw6 s = Some (r, s') \<and> mgr_ok s' \<and> same_listeners s s'"
proof (cases "ipa_get_if_index K name")
  case None
  then show ?thesis using ok by (simp add: setUpstream_def)
next
  case (Some index)
  have i: "index \<noteq> INVALID_IFACE" using Some K by (auto simp: ipa_get_if_index_def kernel_ok_def)
  obtain wait where w: "need_cache name gw4 gw6 (ipacmcfg s) = Some wait" using need_cache_defined [OF ok] by blast
  show ?thesis
  proof (cases wait)
    case True
    obtain st s' where "cache_loop (fill_upstream name gw4 gw6) MAX_EVENT_CACHE s = (st, s')" by fastforce
    with cached_ok [OF ok this] Some w True show ?thesis by (simp add: setUpstream_def)
  next
    case False
    let ?s1 = "if index \<noteq> default_gw_index s then switch_iface K name gw4 gw6 s else s"
    obtain r s' where r: "set_routes K index gw4 gw6 ?s1 = (r, s')" by fastforce
    have v: "via (default_gw_index s) s" using ok by (simp add: mgr_ok_via)
    have 1: "via index ?s1" "default_gw_index ?s1 \<in> {index, INVALID_IFACE}" "same_rest s ?s1"
      "upstream_v4_up ?s1 \<or> upstream_v6_up ?s1 \<longrightarrow> default_gw_index ?s1 \<noteq> INVALID_IFACE"
      using v switch_iface_via [OF v kernel_mem [OF K]] ok by (auto simp: mgr_ok_via)
    have "via index s'" "same_rest ?s1 s'" using set_routes_via [OF kernel_mem [OF K] 1(1,2,4), of gw4 gw6] r by auto
    then have "via index s'" "same_rest s s'" using same_rest_trans [OF 1(3)] by auto
    then have "mgr_ok (s'\<lparr>default_gw_index := index\<rparr>) \<and> same_listeners s s'" using ok i by (simp add: mgr_ok_via same_rest_def)
    then show ?thesis using Some w False r by (simp add: setUpstream_def)
  qed
qed

lemma stream_ok [simp]: "mgr_ok (PostEvt_to e (Ipahal_stream i p) s) = mgr_ok s"
proof -
  have "routes (PostEvt_to e (Ipahal_stream i p) s) = routes s" by (cases "routes s") (simp_all add: replay_snoc route_step_def)
  moreover have "believed (PostEvt_to e (Ipahal_stream i p) s) = believed s" by (simp add: believed_def fun_eq_iff)
  ultimately show ?thesis by (simp only: mgr_ok_def PostEvt_fields)
qed

lemma addDownstream_ok:
  assumes ok: "mgr_ok s"
  shows "\<exists>r s'. addDownstream K name p s = Some (r, s') \<and> mgr_ok s' \<and> same_listeners s s'"
proof (cases "ipa_get_if_index K name")
  case None
  then show ?thesis using ok by (simp add: addDownstream_def)
next
  case (Some index)
  let ?s = "note_iface name s"
  have s: "mgr_ok ?s" "same_listeners s ?s" using ok by (auto simp: mgr_ok_via note_iface_def)
  obtain wait where w: "need_cache name p p (ipacmcfg ?s) = Some wait" using need_cache_defined [OF s(1)] by blast
  obtain st s' where c: "cache_loop (fill_down name p) MAX_EVENT_CACHE ?s = (st, s')" by fastforce
  let ?t = "PostEvt_to IPA_DOWNSTREAM_ADD (Ipahal_stream index p) ?s"
  have "mgr_ok ?t" using s(1) by (simp only: stream_ok)
  moreover have "mgr_ok s' \<and> same_listeners s s'" using cached_ok [OF s(1) c] s(2) by simp
  ultimately show ?thesis using Some w c s by (cases wait) (simp_all add: addDownstream_def Let_def)
qed

lemma removeDownstream_ok: "mgr_ok s \<Longrightarrow> removeDownstream K name p s = (r, s') \<Longrightarrow> mgr_ok s' \<and> same_listeners s s'"
  by (auto simp: removeDownstream_def Let_def split: if_splits option.splits)

lemma stopAllOffload_ok:
  assumes "mgr_ok s" "kernel_ok K" "stopAllOffload K s = (r, s')"
  shows "mgr_ok s' \<and> same_listeners s s' \<and> routes s' = Some Map.empty \<and> \<not> list_ex fe_valid (event_cache s')"
proof -
  obtain r1 s1 where 1: "setUpstream_null K (zero_prefix\<lparr>fam := V4\<rparr>) (zero_prefix\<lparr>fam := V6\<rparr>) s = (r1, s1)" by fastforce
  from setUpstream_null_ok [OF kernel_mem [OF assms(2)] assms(1) _ _ 1] have ok: "mgr_ok s1" "same_listeners s s1" "\<not> upstream_v4_up s1" "\<not> upstream_v6_up s1" by simp_all
  have "routes s1 = Some Map.empty" using ok by (auto simp: mgr_ok_def believed_def fun_eq_iff)
  then show ?thesis using assms(3) 1 ok
    by (auto simp: stopAllOffload_def mgr_ok_def believed_def fun_eq_iff zero_cache_def list_ex_iff)
qed

lemma search_fw_ok:
  assumes K: "kernel_ok K"
  shows "mgr_ok s \<Longrightarrow> \<exists>r s'. search_loop_fw K name i n rel s = Some (r, s') \<and> mgr_ok s' \<and> same_listeners s s'"
proof (induction n arbitrary: i rel s)
  case (Suc n)
  let ?e = "event_cache s ! i"
  show ?case
  proof (cases "fe_valid ?e \<and> strncmp_eq (fe_dev_name ?e) name 16")
    case True
    obtain r t where t: "(if fe_event ?e = IPA_DOWNSTREAM_ADD then addDownstream K name (prefix_cache ?e) s
        else if fe_event ?e = IPA_WAN_UPSTREAM_ROUTE_ADD_EVENT then setUpstream K (Some name) (prefix_cache ?e) (prefix_cache_v6 ?e) s
        else Some (SUCCESS, s)) = Some (r, t)" "mgr_ok t" "same_listeners s t"
      using addDownstream_ok [OF Suc.prems, of K name "prefix_cache ?e"] setUpstream_name_ok [OF Suc.prems K, of name "prefix_cache ?e" "prefix_cache_v6 ?e"] Suc.prems
      by (cases "fe_event ?e = IPA_DOWNSTREAM_ADD"; cases "fe_event ?e = IPA_WAN_UPSTREAM_ROUTE_ADD_EVENT") auto
    let ?t = "t\<lparr>event_cache := (event_cache t)[i := (event_cache t ! i)\<lparr>fe_valid := False\<rparr>]\<rparr>"
    have "mgr_ok ?t" using t(2) by (simp add: mgr_ok_via)
    from Suc.IH [OF this, of "Suc i" True] True t(1,3) show ?thesis by (auto simp: Let_def)
  qed (use Suc in \<open>auto simp: Let_def\<close>)
qed simp

section \<open>Requests for an interface that is set up\<close>

text \<open>The hardware is set up for the families that the prefixes of a request belong to.\<close>

definition up_for :: "(string \<rightharpoonup> bool \<times> bool) \<Rightarrow> string \<Rightarrow> Prefix \<Rightarrow> Prefix \<Rightarrow> bool" where
  "up_for M name p4 p6 \<longleftrightarrow> (fam p4 = V4 \<longrightarrow> (\<exists>b. M name = Some (True, b))) \<and> (fam p6 = V6 \<longrightarrow> (\<exists>b. M name = Some (b, True)))"

lemma up_for_no_wait: "mgr_ok s \<Longrightarrow> up_for (iface_map (ipacmcfg s)) name p4 p6 \<Longrightarrow> need_cache name p4 p6 (ipacmcfg s) = Some False"
  using CheckNatIfaces_map [of "ipacmcfg s" name] by (auto simp: mgr_ok_def need_cache_def up_for_def)

definition cached_for :: "string \<Rightarrow> framework_event_cache \<Rightarrow> bool" where
  "cached_for name e \<longleftrightarrow> fe_valid e \<and> take 16 name = take 16 (fe_dev_name e)"

definition clear_for :: "string \<Rightarrow> framework_event_cache \<Rightarrow> framework_event_cache" where
  "clear_for name e = (if cached_for name e then e\<lparr>fe_valid := False\<rparr> else e)"

definition downs_for :: "string \<Rightarrow> int \<Rightarrow> framework_event_cache list \<Rightarrow> off_data ipacm_cmd_q_data list" where
  "downs_for name index es =
     map (\<lambda>e. \<lparr>event = IPA_DOWNSTREAM_ADD, evt_data = Some (Ipahal_stream index (prefix_cache e))\<rparr>)
       (filter (\<lambda>e. cached_for name e \<and> fe_event e = IPA_DOWNSTREAM_ADD) es)"

abbreviation is_upstream :: "framework_event_cache \<Rightarrow> bool" where
  "is_upstream e \<equiv> fe_event e = IPA_WAN_UPSTREAM_ROUTE_ADD_EVENT"

definition servable :: "(string \<rightharpoonup> bool \<times> bool) \<Rightarrow> string \<Rightarrow> framework_event_cache \<Rightarrow> bool" where
  "servable M name e \<longleftrightarrow> (if fe_event e = IPA_DOWNSTREAM_ADD then up_for M name (prefix_cache e) (prefix_cache e)
     else is_upstream e \<longrightarrow> up_for M name (prefix_cache e) (prefix_cache_v6 e))"

text \<open>A cached request made anew.\<close>

definition perform :: "kernel \<Rightarrow> string \<Rightarrow> OffloadManager \<Rightarrow> framework_event_cache \<Rightarrow> OffloadManager option" where
  "perform K name s e =
     (if fe_event e = IPA_DOWNSTREAM_ADD then map_option snd (addDownstream K name (prefix_cache e) s)
      else if is_upstream e then map_option snd (setUpstream K (Some name) (prefix_cache e) (prefix_cache_v6 e) s)
      else Some s)"

lemma addDownstream_ready:
  assumes K: "kernel_ok K" and "mgr_ok s" "up_for (iface_map (ipacmcfg s)) name p p" "ipa_get_if_index K name = Some index"
  shows "addDownstream K name p s = Some (SUCCESS, PostEvt_to IPA_DOWNSTREAM_ADD (Ipahal_stream index p) (note_iface name s))"
proof -
  have "ipacmcfg (note_iface name s) = ipacmcfg s" by (simp add: note_iface_def)
  then show ?thesis using up_for_no_wait [OF assms(2,3)] assms(4) kernel_mem [OF K] by (simp add: addDownstream_def mem_ok_def)
qed

text \<open>The routes a request wants are up afterwards.\<close>

definition has_v6 :: "Prefix \<Rightarrow> bool" where
  "has_v6 gw \<longleftrightarrow> fam gw = V6 \<and> \<not> (v6Addr gw ! 0 = 0 \<and> v6Addr gw ! 1 = 0 \<and> v6Addr gw ! 2 = 0 \<and> v6Addr gw ! 3 = 0)"

definition routes_up :: "Prefix \<Rightarrow> Prefix \<Rightarrow> OffloadManager \<Rightarrow> bool" where
  "routes_up gw4 gw6 s \<longleftrightarrow> (fam gw4 = V4 \<longrightarrow> upstream_v4_up s) \<and> (has_v6 gw6 \<longrightarrow> upstream_v6_up s)"

lemma up_flags [simp]:
  "upstream_v4_up (bring_up_v4 K i gw s)" "upstream_v6_up (bring_up_v4 K i gw s) = upstream_v6_up s"
  "upstream_v4_up (bring_up_v6 K i gw s) = upstream_v4_up s" "has_v6 gw \<Longrightarrow> upstream_v6_up (bring_up_v6 K i gw s)"
  by (auto simp: bring_up_v4_def bring_up_v6_def post_route_evt_def has_v6_def Let_def)

lemma set_routes_up: "set_routes K index gw4 gw6 s = (r, s') \<Longrightarrow> routes_up gw4 gw6 s'"
  by (auto simp: set_routes_def routes_up_def has_v6_def Let_def split: if_splits)

lemma setUpstream_ready:
  assumes K: "kernel_ok K" and "mgr_ok s" "up_for (iface_map (ipacmcfg s)) name gw4 gw6" "ipa_get_if_index K name = Some index"
  shows "\<exists>r s'. setUpstream K (Some name) gw4 gw6 s = Some (r, s') \<and> same_rest s s' \<and> default_gw_index s' = index \<and> routes_up gw4 gw6 s'"
proof -
  let ?s1 = "if index \<noteq> default_gw_index s then switch_iface K name gw4 gw6 s else s"
  obtain r s' where r: "set_routes K index gw4 gw6 ?s1 = (r, s')" by fastforce
  have v: "via (default_gw_index s) s" using assms(2) by (simp add: mgr_ok_via)
  have 1: "via index ?s1" "default_gw_index ?s1 \<in> {index, INVALID_IFACE}" "same_rest s ?s1"
    "upstream_v4_up ?s1 \<or> upstream_v6_up ?s1 \<longrightarrow> default_gw_index ?s1 \<noteq> INVALID_IFACE"
    using v switch_iface_via [OF v kernel_mem [OF K]] assms(2) by (auto simp: mgr_ok_via)
  have "same_rest ?s1 s'" using set_routes_via [OF kernel_mem [OF K] 1(1,2,4), of gw4 gw6] r by auto
  with 1(3) have "same_rest s s'" by (rule same_rest_trans)
  then have "same_rest s (s'\<lparr>default_gw_index := index\<rparr>)" by (simp add: same_rest_def streams_def)
  then show ?thesis using r set_routes_up [OF r] up_for_no_wait [OF assms(2,3)] assms(4) by (simp add: setUpstream_def routes_up_def)
qed

text \<open>The cache plays no part in it.\<close>

lemma blocks_cache:
  "down_v4 K gw (s\<lparr>event_cache := c\<rparr>) = (down_v4 K gw s)\<lparr>event_cache := c\<rparr>" "down_v6 K gw (s\<lparr>event_cache := c\<rparr>) = (down_v6 K gw s)\<lparr>event_cache := c\<rparr>"
  "bring_up_v4 K i gw (s\<lparr>event_cache := c\<rparr>) = (bring_up_v4 K i gw s)\<lparr>event_cache := c\<rparr>"
  "bring_up_v6 K i gw (s\<lparr>event_cache := c\<rparr>) = (bring_up_v6 K i gw s)\<lparr>event_cache := c\<rparr>"
  "PostEvt_to ev d (s\<lparr>event_cache := c\<rparr>) = (PostEvt_to ev d s)\<lparr>event_cache := c\<rparr>"
  "note_iface name (s\<lparr>event_cache := c\<rparr>) = (note_iface name s)\<lparr>event_cache := c\<rparr>"
  by (simp_all add: down_v4_def down_v6_def bring_up_v4_def bring_up_v6_def post_route_evt_def PostEvt_to_def note_iface_def Let_def)

lemma switch_iface_cache: "switch_iface K name gw4 gw6 (s\<lparr>event_cache := c\<rparr>) = (switch_iface K name gw4 gw6 s)\<lparr>event_cache := c\<rparr>"
  by (simp add: switch_iface_def resetTetherStats_def blocks_cache Let_def)

lemma set_routes_cache: "set_routes K i gw4 gw6 (s\<lparr>event_cache := c\<rparr>) = (case set_routes K i gw4 gw6 s of (r, t) \<Rightarrow> (r, t\<lparr>event_cache := c\<rparr>))"
  by (simp add: set_routes_def blocks_cache Let_def)

lemma setUpstream_cache:
  assumes "need_cache name gw4 gw6 (ipacmcfg s) = Some False"
  shows "setUpstream K (Some name) gw4 gw6 (s\<lparr>event_cache := c\<rparr>) =
    map_option (\<lambda>(r, t). (r, t\<lparr>event_cache := c\<rparr>)) (setUpstream K (Some name) gw4 gw6 s)"
  using assms by (simp add: setUpstream_def set_routes_cache switch_iface_cache Let_def split: option.split prod.split)

text \<open>One request of the cache for an interface that is set up.\<close>

lemma perform_ready:
  assumes ok: "mgr_ok s" and rdy: "servable (iface_map (ipacmcfg s)) name e" and idx: "ipa_get_if_index K name = Some index" and K: "kernel_ok K"
  shows "\<exists>t. perform K name s e = Some t \<and> mgr_ok t \<and> ipacmcfg t = ipacmcfg s \<and> event_cache t = event_cache s \<and>
    streams t = streams s @ (if fe_event e = IPA_DOWNSTREAM_ADD then [\<lparr>event = IPA_DOWNSTREAM_ADD, evt_data = Some (Ipahal_stream index (prefix_cache e))\<rparr>] else []) \<and>
    (is_upstream e \<longrightarrow> default_gw_index t = index \<and> routes_up (prefix_cache e) (prefix_cache_v6 e) t) \<and>
    (\<not> is_upstream e \<longrightarrow> default_gw_index t = default_gw_index s \<and> upstream_v4_up t = upstream_v4_up s \<and> upstream_v6_up t = upstream_v6_up s) \<and>
    (\<forall>c. perform K name (s\<lparr>event_cache := c\<rparr>) e = Some (t\<lparr>event_cache := c\<rparr>))"
proof -
  consider "fe_event e = IPA_DOWNSTREAM_ADD" | "is_upstream e" | "fe_event e \<noteq> IPA_DOWNSTREAM_ADD" "\<not> is_upstream e" by blast
  then show ?thesis
  proof cases
    case 1
    with rdy have u: "up_for (iface_map (ipacmcfg s)) name (prefix_cache e) (prefix_cache e)" by (simp add: servable_def)
    let ?t = "PostEvt_to IPA_DOWNSTREAM_ADD (Ipahal_stream index (prefix_cache e)) (note_iface name s)"
    have w: "need_cache name (prefix_cache e) (prefix_cache e) (ipacmcfg (note_iface name s)) = Some False"
      using up_for_no_wait [OF ok u] by (simp add: note_iface_def)
    have "addDownstream K name (prefix_cache e) (s\<lparr>event_cache := c\<rparr>) = Some (SUCCESS, ?t\<lparr>event_cache := c\<rparr>)" for c
      using w idx kernel_mem [OF K] by (simp add: addDownstream_def blocks_cache mem_ok_def)
    moreover have "mgr_ok ?t" using addDownstream_ok [OF ok, of K name "prefix_cache e"] addDownstream_ready [OF K ok u idx] by simp
    ultimately show ?thesis using 1 addDownstream_ready [OF K ok u idx]
      by (intro exI [of _ ?t]) (auto simp: perform_def streams_def is_stream_def note_iface_def)
  next
    case 2
    with rdy have u: "up_for (iface_map (ipacmcfg s)) name (prefix_cache e) (prefix_cache_v6 e)" by (simp add: servable_def)
    from setUpstream_ready [OF K ok u idx] obtain r t where t: "setUpstream K (Some name) (prefix_cache e) (prefix_cache_v6 e) s = Some (r, t)"
      "same_rest s t" "default_gw_index t = index" "routes_up (prefix_cache e) (prefix_cache_v6 e) t" by blast
    have "mgr_ok t" using setUpstream_name_ok [OF ok K, of name "prefix_cache e" "prefix_cache_v6 e"] t(1) by simp
    with 2 t setUpstream_cache [OF up_for_no_wait [OF ok u]] show ?thesis
      by (intro exI [of _ t]) (simp add: perform_def same_rest_def)
  next
    case 3
    with ok show ?thesis by (intro exI [of _ s]) (simp add: perform_def)
  qed
qed

text \<open>All of them, one after the other; the last request for an upstream decides the routes.\<close>

definition last_upstream :: "framework_event_cache list \<Rightarrow> framework_event_cache option" where
  "last_upstream es = find is_upstream (rev es)"

lemma last_upstream_Cons: "last_upstream (e # es) = (case last_upstream es of None \<Rightarrow> if is_upstream e then Some e else None | Some u \<Rightarrow> Some u)"
proof -
  have "find P (xs @ ys) = (case find P xs of None \<Rightarrow> find P ys | Some u \<Rightarrow> Some u)" for P :: "framework_event_cache \<Rightarrow> bool" and xs ys
    by (induction xs) auto
  then show ?thesis by (simp add: last_upstream_def split: option.split)
qed

lemma performs_ready:
  assumes idx: "ipa_get_if_index K name = Some index" and K: "kernel_ok K"
  shows "mgr_ok s \<Longrightarrow> list_all (servable (iface_map (ipacmcfg s)) name) es \<Longrightarrow>
    \<exists>t. run_steps (perform K name) s es = Some t \<and> mgr_ok t \<and> event_cache t = event_cache s \<and>
      streams t = streams s @ map (\<lambda>e. \<lparr>event = IPA_DOWNSTREAM_ADD, evt_data = Some (Ipahal_stream index (prefix_cache e))\<rparr>) (filter (\<lambda>e. fe_event e = IPA_DOWNSTREAM_ADD) es) \<and>
      (case last_upstream es of
         Some u \<Rightarrow> default_gw_index t = index \<and> routes_up (prefix_cache u) (prefix_cache_v6 u) t
       | None \<Rightarrow> default_gw_index t = default_gw_index s \<and> upstream_v4_up t = upstream_v4_up s \<and> upstream_v6_up t = upstream_v6_up s) \<and>
      (\<forall>c. run_steps (perform K name) (s\<lparr>event_cache := c\<rparr>) es = Some (t\<lparr>event_cache := c\<rparr>))"
proof (induction es arbitrary: s)
  case Nil
  then show ?case by (simp add: last_upstream_def)
next
  case (Cons e es)
  have rdy: "servable (iface_map (ipacmcfg s)) name e" using Cons.prems(2) by simp
  from perform_ready [OF Cons.prems(1) rdy idx K] obtain s1 where s1: "perform K name s e = Some s1" "mgr_ok s1" "ipacmcfg s1 = ipacmcfg s" "event_cache s1 = event_cache s"
    "streams s1 = streams s @ (if fe_event e = IPA_DOWNSTREAM_ADD then [\<lparr>event = IPA_DOWNSTREAM_ADD, evt_data = Some (Ipahal_stream index (prefix_cache e))\<rparr>] else [])"
    "is_upstream e \<longrightarrow> default_gw_index s1 = index \<and> routes_up (prefix_cache e) (prefix_cache_v6 e) s1"
    "\<not> is_upstream e \<longrightarrow> default_gw_index s1 = default_gw_index s \<and> upstream_v4_up s1 = upstream_v4_up s \<and> upstream_v6_up s1 = upstream_v6_up s"
    "\<And>c. perform K name (s\<lparr>event_cache := c\<rparr>) e = Some (s1\<lparr>event_cache := c\<rparr>)" by blast
  have "list_all (servable (iface_map (ipacmcfg s1)) name) es" using Cons.prems(2) s1(3) by simp
  from Cons.IH [OF s1(2) this] obtain t where t: "run_steps (perform K name) s1 es = Some t" "mgr_ok t" "event_cache t = event_cache s1"
    "streams t = streams s1 @ map (\<lambda>e. \<lparr>event = IPA_DOWNSTREAM_ADD, evt_data = Some (Ipahal_stream index (prefix_cache e))\<rparr>) (filter (\<lambda>e. fe_event e = IPA_DOWNSTREAM_ADD) es)"
    "case last_upstream es of
         Some u \<Rightarrow> default_gw_index t = index \<and> routes_up (prefix_cache u) (prefix_cache_v6 u) t
       | None \<Rightarrow> default_gw_index t = default_gw_index s1 \<and> upstream_v4_up t = upstream_v4_up s1 \<and> upstream_v6_up t = upstream_v6_up s1"
    "\<And>c. run_steps (perform K name) (s1\<lparr>event_cache := c\<rparr>) es = Some (t\<lparr>event_cache := c\<rparr>)" by blast
  have "case last_upstream (e # es) of
         Some u \<Rightarrow> default_gw_index t = index \<and> routes_up (prefix_cache u) (prefix_cache_v6 u) t
       | None \<Rightarrow> default_gw_index t = default_gw_index s \<and> upstream_v4_up t = upstream_v4_up s \<and> upstream_v6_up t = upstream_v6_up s"
    using t(5) s1(6,7) by (auto simp: last_upstream_Cons routes_up_def split: option.splits)
  then show ?case using s1(1,4,5,8) t(1-4,6) by (intro exI [of _ t]) simp
qed

lemma search_performs:
  assumes idx: "ipa_get_if_index K name = Some index" and K: "kernel_ok K"
  shows "mgr_ok s \<Longrightarrow> list_all (servable (iface_map (ipacmcfg s)) name) (filter (cached_for name) (drop i (event_cache s))) \<Longrightarrow> i + n = MAX_EVENT_CACHE \<Longrightarrow>
    run_steps (perform K name) s (filter (cached_for name) (drop i (event_cache s))) = Some t \<Longrightarrow>
    search_loop_fw K name i n rel s = Some (rel \<or> list_ex (cached_for name) (drop i (event_cache s)),
      t\<lparr>event_cache := take i (event_cache s) @ map (clear_for name) (drop i (event_cache s))\<rparr>)"
proof (induction n arbitrary: i rel s t)
  case 0
  then show ?case by (simp add: mgr_ok_def)
next
  case (Suc n)
  let ?c = "event_cache s" let ?e = "?c ! i"
  have l: "length ?c = MAX_EVENT_CACHE" "i < MAX_EVENT_CACHE" using Suc.prems(1,3) by (auto simp: mgr_ok_def)
  have d: "drop i ?c = ?e # drop (Suc i) ?c" using l by (simp add: Cons_nth_drop_Suc)
  show ?case
  proof (cases "cached_for name ?e")
    case False
    then have "search_loop_fw K name i (Suc n) rel s = search_loop_fw K name (Suc i) n rel s"
      by (auto simp: cached_for_def strncmp_eq_def)
    moreover have "take (Suc i) ?c = take i ?c @ [clear_for name ?e]" using False l by (simp add: take_Suc_conv_app_nth clear_for_def)
    ultimately show ?thesis using Suc.IH [of s "Suc i" t rel] Suc.prems d False by simp
  next
    case True
    have rdy: "servable (iface_map (ipacmcfg s)) name ?e" using Suc.prems(2) d True by simp
    from perform_ready [OF Suc.prems(1) rdy idx K] obtain s1 where s1: "perform K name s ?e = Some s1" "mgr_ok s1" "ipacmcfg s1 = ipacmcfg s" "event_cache s1 = ?c" by blast
    let ?c1 = "?c[i := ?e\<lparr>fe_valid := False\<rparr>]"
    let ?s1 = "s1\<lparr>event_cache := ?c1\<rparr>"
    have step: "search_loop_fw K name i (Suc n) rel s = search_loop_fw K name (Suc i) n True ?s1"
      using True s1(1,4) by (auto simp: cached_for_def strncmp_eq_def Let_def perform_def split: if_splits)
    have c1: "drop (Suc i) ?c1 = drop (Suc i) ?c" "take (Suc i) ?c1 = take i ?c @ [clear_for name ?e]" using l True
      by (simp_all add: take_Suc_conv_app_nth clear_for_def)
    have ok1: "mgr_ok ?s1" using s1(2,4) l by (simp add: mgr_ok_via)
    have srv: "list_all (servable (iface_map (ipacmcfg s1)) name) (filter (cached_for name) (drop (Suc i) ?c))" using Suc.prems(2) d True s1(3) by simp
    from performs_ready [OF idx K s1(2) srv] obtain t1 where t1: "run_steps (perform K name) s1 (filter (cached_for name) (drop (Suc i) ?c)) = Some t1"
      "\<And>c. run_steps (perform K name) (s1\<lparr>event_cache := c\<rparr>) (filter (cached_for name) (drop (Suc i) ?c)) = Some (t1\<lparr>event_cache := c\<rparr>)" by blast
    have "t1 = t" using Suc.prems(4) d True s1(1) t1(1) by simp
    then have "run_steps (perform K name) ?s1 (filter (cached_for name) (drop (Suc i) (event_cache ?s1))) = Some (t\<lparr>event_cache := ?c1\<rparr>)"
      using t1(2) c1(1) by simp
    from Suc.IH [OF ok1 _ _ this, of True] step srv c1 d True Suc.prems(3) show ?thesis by simp
  qed
qed

section \<open>Runs\<close>

datatype mgr_op =
    Op_setUpstream kernel "string option" Prefix Prefix | Op_addDownstream kernel string Prefix | Op_removeDownstream kernel string Prefix
  | Op_stopAllOffload kernel | Op_ready kernel string | Op_push string Prefix | Op_provideFd kernel int nat | Op_config cfg_op

fun mgr_step :: "OffloadManager \<Rightarrow> mgr_op \<Rightarrow> OffloadManager option" where
  "mgr_step s (Op_setUpstream K name gw4 gw6) = map_option snd (setUpstream K name gw4 gw6 s)"
| "mgr_step s (Op_addDownstream K name p) = map_option snd (addDownstream K name p s)"
| "mgr_step s (Op_removeDownstream K name p) = Some (snd (removeDownstream K name p s))"
| "mgr_step s (Op_stopAllOffload K) = Some (snd (stopAllOffload K s))"
| "mgr_step s (Op_ready K name) = map_option snd (search_framwork_cache K name s)"
| "mgr_step s (Op_push name p) = Some (snd (push_framework_event name p s))"
| "mgr_step s (Op_provideFd K fd groups) = Some (snd (provideFd K fd groups s))"
| "mgr_step s (Op_config x) = map_option (\<lambda>c. s\<lparr>ipacmcfg := c\<rparr>) (cfg_step (ipacmcfg s) x)"

text \<open>The kernel gives no index \<open>-1\<close>, and memory for the events of routes is available; an upstream is taken down for both families at once (as the HAL does); the table of NAT interfaces does not run full.\<close>

fun op_kernel_ok :: "mgr_op \<Rightarrow> bool" where
  "op_kernel_ok (Op_setUpstream K name gw4 gw6) \<longleftrightarrow> kernel_ok K"
| "op_kernel_ok (Op_stopAllOffload K) \<longleftrightarrow> kernel_ok K"
| "op_kernel_ok (Op_ready K name) \<longleftrightarrow> kernel_ok K"
| "op_kernel_ok _ \<longleftrightarrow> True"

fun op_fits :: "OffloadManager \<Rightarrow> mgr_op \<Rightarrow> bool" where
  "op_fits s (Op_setUpstream K name gw4 gw6) \<longleftrightarrow> name \<noteq> None \<or> fam gw4 = V4 \<and> fam gw6 = V6"
| "op_fits s (Op_config x) \<longleftrightarrow> cfg_legal (ipacmcfg s) x"
| "op_fits s _ \<longleftrightarrow> True"

definition mgr_legal :: "OffloadManager \<Rightarrow> mgr_op \<Rightarrow> bool" where
  "mgr_legal s x \<longleftrightarrow> op_kernel_ok x \<and> op_fits s x"

lemma legal_run_conj: "list_all P xs \<Longrightarrow> legal_run step L s xs \<Longrightarrow> legal_run step (\<lambda>s x. P x \<and> L s x) s xs"
  by (induction xs arbitrary: s) (auto split: option.split)

lemma provideFd_ok: "mgr_ok s \<Longrightarrow> mgr_ok (snd (provideFd K fd g s)) \<and> same_listeners s (snd (provideFd K fd g s))"
  by (auto simp: provideFd_def mgr_ok_def believed_def Let_def fun_eq_iff split: option.split)

lemma mgr_step_ok:
  assumes ok: "mgr_ok s" and legal': "mgr_legal s x"
  shows "\<exists>s'. mgr_step s x = Some s' \<and> mgr_ok s' \<and> elrInstance s' = elrInstance s \<and> touInstance s' = touInstance s"
proof -
  have legal: "op_kernel_ok x" "op_fits s x" using legal' by (auto simp: mgr_legal_def)
  show ?thesis
  proof (cases x)
    case (Op_setUpstream K name gw4 gw6)
    show ?thesis
    proof (cases name)
      case None
      obtain r s' where "setUpstream_null K gw4 gw6 s = (r, s')" by fastforce
      with setUpstream_null_ok [OF _ ok _ _ this] legal None Op_setUpstream show ?thesis by (auto simp: setUpstream_def)
    next
      case (Some n)
      with setUpstream_name_ok [OF ok, of K n gw4 gw6] legal Op_setUpstream show ?thesis by auto
    qed
  next
    case (Op_addDownstream K name p)
    then show ?thesis using addDownstream_ok [OF ok, of K name p] by auto
  next
    case (Op_removeDownstream K name p)
    then show ?thesis using removeDownstream_ok [OF ok, of K name p] by (metis mgr_step.simps(3) prod.collapse)
  next
    case (Op_stopAllOffload K)
    then show ?thesis using stopAllOffload_ok [OF ok, of K] legal by (cases "stopAllOffload K s") simp
  next
    case (Op_ready K name)
    then show ?thesis using search_fw_ok [OF _ ok, of K name 0 MAX_EVENT_CACHE False] legal by (auto simp: search_framwork_cache_def)
  next
    case (Op_push name p)
    then show ?thesis using cached_ok [OF ok] by (metis mgr_step.simps(6) prod.collapse push_framework_event_def)
  next
    case (Op_provideFd K fd g)
    then show ?thesis using provideFd_ok [OF ok] by simp
  next
    case (Op_config y)
    then have "cfg_legal (ipacmcfg s) y" "cfg_ok (ipacmcfg s)" using legal ok by (auto simp: mgr_ok_def)
    from cfg_step_map [OF this(2,1)] obtain c where "cfg_step (ipacmcfg s) y = Some c" "cfg_ok c" by blast
    then show ?thesis using ok Op_config by (auto simp: mgr_ok_def believed_def fun_eq_iff)
  qed
qed

interpretation offload: safe_component mgr_step mgr_ok mgr_legal
  by unfold_locales (use mgr_step_ok in fastforce)+

section \<open>Properties\<close>

text \<open>
  C9. Along any sequence of requests, changes of the table of NAT interfaces and notices of interfaces that have been set up, as long as there is memory for the events of routes, every request returns, and the posted
  route events are consistent: per family, a route is only added when there is none, the event that takes a route down names the interface the route was added for, and the
  routes that are up at the end are those the manager believes in, all of them through its default interface.
\<close>

theorem offload_routes_consistent:
  assumes "cfg_ok cfg" and "legal_run mgr_step mgr_legal (OffloadManager_new cfg cc) xs"
  shows "\<exists>s. run_steps mgr_step (OffloadManager_new cfg cc) xs = Some s \<and>
    replay (posted_evts s) Map.empty = Some (\<lambda>t. if t = IPA_IP_v4 \<and> upstream_v4_up s \<or> t = IPA_IP_v6 \<and> upstream_v6_up s then Some (default_gw_index s) else None) \<and>
    (upstream_v4_up s \<or> upstream_v6_up s \<longrightarrow> default_gw_index s \<noteq> INVALID_IFACE)"
proof -
  from offload.run_defined [OF new_ok [OF assms(1)] assms(2)] obtain s where "run_steps mgr_step (OffloadManager_new cfg cc) xs = Some s" "mgr_ok s" by blast
  then show ?thesis by (auto simp: mgr_ok_def believed_def fun_eq_iff)
qed

definition demo_kernel :: kernel where
  "demo_kernel = \<lparr>if_index_of = (\<lambda>n. if n = ''wlan0'' then Some 3 else if n = ''rmnet_data0'' then Some 7 else None), dup_fd = (\<lambda>fd. fd + 100), dev_opens = True,
     quota_ioctl = (\<lambda>n q. (0, False)), stats_ioctl = (\<lambda>n r. Some (10, 20)), reset_ioctl = (\<lambda>n. 0), evt_malloc = (\<lambda>ev d. True)\<rparr>"

definition demo_gw4 :: Prefix where
  "demo_gw4 = \<lparr>fam = V4, v4Addr = 167772161, v4Mask = 0, v6Addr = [0, 0, 0, 0], v6Mask = [0, 0, 0, 0]\<rparr>"

definition demo_gw6 :: Prefix where
  "demo_gw6 = \<lparr>fam = V6, v4Addr = 0, v4Mask = 0, v6Addr = [1, 0, 0, 1], v6Mask = [0, 0, 0, 0]\<rparr>"

definition demo_ops :: "mgr_op list" where
  "demo_ops = [Op_addDownstream demo_kernel ''wlan0'' demo_gw4, Op_setUpstream demo_kernel (Some ''rmnet_data0'') demo_gw4 demo_gw6,
     Op_config (Cfg_add ''rmnet_data0'' IPA_IP_v4), Op_config (Cfg_add ''rmnet_data0'' IPA_IP_v6), Op_ready demo_kernel ''rmnet_data0'',
     Op_config (Cfg_add ''wlan0'' IPA_IP_v4), Op_config (Cfg_add ''wlan0'' IPA_IP_v6)]"

lemma demo_kernel_ok: "kernel_ok demo_kernel"
  by (simp add: kernel_ok_def mem_ok_def demo_kernel_def)

definition demo_mgr :: OffloadManager where
  "demo_mgr = OffloadManager_new (Config_init_nat 4) None"

lemma demo_legal: "legal_run mgr_step mgr_legal demo_mgr demo_ops"
proof -
  have "list_all op_kernel_ok demo_ops" by (simp add: demo_ops_def demo_kernel_ok)
  moreover have "legal_run mgr_step op_fits demo_mgr demo_ops" by code_simp
  ultimately show ?thesis using legal_run_conj [of op_kernel_ok demo_ops mgr_step op_fits demo_mgr] by (simp add: mgr_legal_def [abs_def])
qed

theorem offload_routes_consistent_witness:
  "cfg_ok (Config_init_nat 4) \<and> legal_run mgr_step mgr_legal (OffloadManager_new (Config_init_nat 4) None) demo_ops \<and>
   (\<exists>s. run_steps mgr_step (OffloadManager_new (Config_init_nat 4) None) demo_ops = Some s \<and> length (posted_evts s) = 2 \<and>
     replay (posted_evts s) Map.empty = Some [IPA_IP_v4 \<mapsto> 7, IPA_IP_v6 \<mapsto> 7])"
proof -
  have cfg: "cfg_ok (Config_init_nat 4)" using init_ok by simp
  note legal = demo_legal [unfolded demo_mgr_def]
  have "map_option (\<lambda>s. (default_gw_index s, upstream_v4_up s, upstream_v6_up s, length (posted_evts s))) (run_steps mgr_step demo_mgr demo_ops) = Some (7, True, True, 2)"
    by code_simp
  then show ?thesis using cfg legal offload_routes_consistent [OF cfg legal] by (auto simp: demo_mgr_def fun_eq_iff)
qed

text \<open>
  C29. When an interface is set up for the families of each of its cached requests (for a request of one family that family is enough) and there is memory for their events, searching the cache returns and tells whether there were
  requests for it. It does exactly what making these requests anew, in the order of the entries, does, and frees exactly those entries. The downstream requests are
  posted with the index of the interface; the last request for an upstream makes the interface the default one, and afterwards the events posted so far leave the IPv4 route through it, if the
  request has an IPv4 gateway, and the IPv6 route, if it has a nonzero IPv6 one. Without such a request the routes stay as they were.
\<close>

theorem cached_requests_posted:
  assumes "cfg_ok cfg" "legal_run mgr_step mgr_legal (OffloadManager_new cfg cc) xs" "run_steps mgr_step (OffloadManager_new cfg cc) xs = Some s"
    and "ipa_get_if_index K name = Some index" "kernel_ok K"
    and "reqs = filter (cached_for name) (event_cache s)" and "list_all (servable (iface_map (ipacmcfg s)) name) reqs"
  shows "\<exists>t s' R. run_steps (perform K name) s reqs = Some t \<and> search_framwork_cache K name s = Some (reqs \<noteq> [], s') \<and>
    s' = t\<lparr>event_cache := map (clear_for name) (event_cache s)\<rparr> \<and> streams s' = streams s @ downs_for name index reqs \<and>
    replay (posted_evts s') Map.empty = Some R \<and>
    (case last_upstream reqs of
       None \<Rightarrow> default_gw_index s' = default_gw_index s \<and> replay (posted_evts s) Map.empty = Some R
     | Some u \<Rightarrow> default_gw_index s' = index \<and> (fam (prefix_cache u) = V4 \<longrightarrow> R IPA_IP_v4 = Some index) \<and>
         (has_v6 (prefix_cache_v6 u) \<longrightarrow> R IPA_IP_v6 = Some index))"
proof -
  have ok: "mgr_ok s" using offload.inv_run [OF new_ok [OF assms(1)] assms(2,3)] .
  from performs_ready [OF assms(4,5) ok assms(7)] obtain t where t: "run_steps (perform K name) s reqs = Some t" "mgr_ok t" "event_cache t = event_cache s"
    "streams t = streams s @ map (\<lambda>e. \<lparr>event = IPA_DOWNSTREAM_ADD, evt_data = Some (Ipahal_stream index (prefix_cache e))\<rparr>) (filter (\<lambda>e. fe_event e = IPA_DOWNSTREAM_ADD) reqs)"
    "case last_upstream reqs of
         Some u \<Rightarrow> default_gw_index t = index \<and> routes_up (prefix_cache u) (prefix_cache_v6 u) t
       | None \<Rightarrow> default_gw_index t = default_gw_index s \<and> upstream_v4_up t = upstream_v4_up s \<and> upstream_v6_up t = upstream_v6_up s" by blast
  let ?s = "t\<lparr>event_cache := map (clear_for name) (event_cache s)\<rparr>"
  have any: "list_ex (cached_for name) (event_cache s) \<longleftrightarrow> reqs \<noteq> []" by (auto simp: assms(6) list_ex_iff filter_empty_conv)
  have search: "search_framwork_cache K name s = Some (reqs \<noteq> [], ?s)"
    using search_performs [OF assms(4,5) ok, of 0 MAX_EVENT_CACHE t False] assms(6,7) t(1) any by (simp add: search_framwork_cache_def)
  have R: "replay (posted_evts ?s) Map.empty = Some (believed t)" "replay (posted_evts s) Map.empty = Some (believed s)"
    using t(2) ok by (simp_all add: mgr_ok_def)
  have same: "believed t = believed s" if "default_gw_index t = default_gw_index s" "upstream_v4_up t = upstream_v4_up s" "upstream_v6_up t = upstream_v6_up s"
    using that by (simp add: believed_def fun_eq_iff)
  have last: "case last_upstream reqs of
       None \<Rightarrow> default_gw_index ?s = default_gw_index s \<and> replay (posted_evts s) Map.empty = Some (believed t)
     | Some u \<Rightarrow> default_gw_index ?s = index \<and> (fam (prefix_cache u) = V4 \<longrightarrow> believed t IPA_IP_v4 = Some index) \<and>
         (has_v6 (prefix_cache_v6 u) \<longrightarrow> believed t IPA_IP_v6 = Some index)"
    using t(5) same R(2) by (auto simp: routes_up_def believed_def split: option.splits)
  have str: "streams ?s = streams s @ downs_for name index reqs" using t(4) by (auto simp: streams_def downs_for_def assms(6) intro: filter_cong)
  show ?thesis using t(1) search str R(1) last by blast
qed

text \<open>Only IPv4 is set up when the cached request for it is served.\<close>

definition one_family_ops :: "mgr_op list" where
  "one_family_ops = [Op_addDownstream demo_kernel ''wlan0'' demo_gw4, Op_config (Cfg_add ''wlan0'' IPA_IP_v4)]"

lemma one_family_legal: "legal_run mgr_step mgr_legal (OffloadManager_new (Config_init_nat 4) None) one_family_ops"
proof -
  have "list_all op_kernel_ok one_family_ops" by (simp add: one_family_ops_def demo_kernel_ok)
  moreover have "legal_run mgr_step op_fits demo_mgr one_family_ops" by code_simp
  ultimately show ?thesis using legal_run_conj [of op_kernel_ok one_family_ops mgr_step op_fits demo_mgr] by (simp add: mgr_legal_def [abs_def] demo_mgr_def)
qed

theorem cached_requests_posted_witness:
  "\<exists>s t s'. run_steps mgr_step (OffloadManager_new (Config_init_nat 4) None) one_family_ops = Some s \<and>
     run_steps (perform demo_kernel ''wlan0'') s (filter (cached_for ''wlan0'') (event_cache s)) = Some t \<and>
     search_framwork_cache demo_kernel ''wlan0'' s = Some (True, s') \<and>
     streams s' = [\<lparr>event = IPA_DOWNSTREAM_ADD, evt_data = Some (Ipahal_stream 3 demo_gw4)\<rparr>] \<and> \<not> list_ex fe_valid (event_cache s')"
proof -
  have cfg: "cfg_ok (Config_init_nat 4)" using init_ok by simp
  let ?reqs = "\<lambda>s. filter (cached_for ''wlan0'') (event_cache s)"
  have c: "map_option (\<lambda>s. (streams s, length (?reqs s), downs_for ''wlan0'' 3 (?reqs s), list_ex fe_valid (map (clear_for ''wlan0'') (event_cache s)))) (run_steps mgr_step demo_mgr one_family_ops) =
      Some ([], 1, [\<lparr>event = IPA_DOWNSTREAM_ADD, evt_data = Some (Ipahal_stream 3 demo_gw4)\<rparr>], False)" by code_simp
  have "map_option (\<lambda>s. iface_map (ipacmcfg s) ''wlan0'') (run_steps mgr_step demo_mgr one_family_ops) = Some (Some (True, False)) \<and>
      map_option (\<lambda>s. list_all (\<lambda>e. fe_event e = IPA_DOWNSTREAM_ADD \<and> fam (prefix_cache e) = V4) (?reqs s)) (run_steps mgr_step demo_mgr one_family_ops) = Some True" by code_simp
  with c obtain s where run: "run_steps mgr_step (OffloadManager_new (Config_init_nat 4) None) one_family_ops = Some s"
    and s: "streams s = []" "?reqs s \<noteq> []" "downs_for ''wlan0'' 3 (?reqs s) = [\<lparr>event = IPA_DOWNSTREAM_ADD, evt_data = Some (Ipahal_stream 3 demo_gw4)\<rparr>]"
      "\<not> list_ex fe_valid (map (clear_for ''wlan0'') (event_cache s))" "iface_map (ipacmcfg s) ''wlan0'' = Some (True, False)"
      "list_all (\<lambda>e. fe_event e = IPA_DOWNSTREAM_ADD \<and> fam (prefix_cache e) = V4) (?reqs s)" by (fastforce simp: demo_mgr_def)
  have ix: "ipa_get_if_index demo_kernel ''wlan0'' = Some 3" by code_simp
  have "list_all (servable (iface_map (ipacmcfg s)) ''wlan0'') (?reqs s)" using s(5,6) by (auto simp: servable_def up_for_def list_all_iff)
  from cached_requests_posted [OF cfg one_family_legal run ix demo_kernel_ok refl this] obtain t s' where
    "run_steps (perform demo_kernel ''wlan0'') s (?reqs s) = Some t" "search_framwork_cache demo_kernel ''wlan0'' s = Some (?reqs s \<noteq> [], s')"
    "s' = t\<lparr>event_cache := map (clear_for ''wlan0'') (event_cache s)\<rparr>" "streams s' = streams s @ downs_for ''wlan0'' 3 (?reqs s)" by (elim exE conjE) (rule that)
  then show ?thesis using run s by (intro exI [of _ s] exI [of _ t] exI [of _ s']) simp
qed

end
