(* ===== verification/LogBuffer.thy ===== *)
theory LogBuffer
  imports CString
begin

text \<open>
  The call log of the offload HAL (\<open>hal/src/LocalLogBuffer.cpp\<close>): a record of each HAL call as text, and a
  buffer of the latest records that is dumped to the system log on demand. Lines for the system log are collected in
  a list.
\<close>

section \<open>One call\<close>

record FunctionLog =
  mName :: string
  mArgsProvided :: bool
  mSSArgs :: sstream
  mSSReturn :: sstream

definition FunctionLog_new :: "string \<Rightarrow> FunctionLog" where
  "FunctionLog_new funcName = \<lparr>mName = funcName, mArgsProvided = False, mSSArgs = ss_new, mSSReturn = ss_new\<rparr>"

definition FunctionLog_copy :: "FunctionLog \<Rightarrow> FunctionLog" where
  "FunctionLog_copy other = \<lparr>mName = mName other, mArgsProvided = mArgsProvided other,
     mSSArgs = ss_set (sbuf (mSSArgs other)), mSSReturn = ss_set (sbuf (mSSReturn other))\<rparr>"

definition put_args :: "string \<Rightarrow> FunctionLog \<Rightarrow> FunctionLog" where
  "put_args t l = l\<lparr>mSSArgs := ss_put t (mSSArgs l)\<rparr>"

definition put_ret :: "string \<Rightarrow> FunctionLog \<Rightarrow> FunctionLog" where
  "put_ret t l = l\<lparr>mSSReturn := ss_put t (mSSReturn l)\<rparr>"

definition maybeAddArgsComma :: "FunctionLog \<Rightarrow> FunctionLog" where
  "maybeAddArgsComma l = (if \<not> mArgsProvided l then l\<lparr>mArgsProvided := True\<rparr> else put_args '', '' l)"

definition addArg_string :: "string \<Rightarrow> string \<Rightarrow> FunctionLog \<Rightarrow> FunctionLog" where
  "addArg_string kw arg l = put_args arg (put_args ''='' (put_args kw (maybeAddArgsComma l)))"

text \<open>The loop that writes the elements of a vector with commas between them, and nothing after the last one.\<close>

fun addArg_loop :: "(string \<Rightarrow> 'l \<Rightarrow> 'l) \<Rightarrow> string list \<Rightarrow> nat \<Rightarrow> nat \<Rightarrow> 'l \<Rightarrow> 'l" where
  "addArg_loop put [] i n l = l"
| "addArg_loop put (a # as) i n l =
     addArg_loop put as (i + 1) n (if i < n - 1 then put '', '' (put a l) else put a l)"

definition addArg_vector :: "string \<Rightarrow> string list \<Rightarrow> FunctionLog \<Rightarrow> FunctionLog" where
  "addArg_vector kw args l =
     put_args '']'' (addArg_loop put_args args 0 (length args) (put_args ''=['' (put_args kw (maybeAddArgsComma l))))"

definition addArg_uint64 :: "string \<Rightarrow> u64 \<Rightarrow> FunctionLog \<Rightarrow> FunctionLog" where
  "addArg_uint64 kw arg l = put_args (show_nat (unat arg)) (put_args ''='' (put_args kw (maybeAddArgsComma l)))"

definition setResult_msg :: "bool \<Rightarrow> string \<Rightarrow> FunctionLog \<Rightarrow> FunctionLog" where
  "setResult_msg success msg l =
     put_ret '']'' (put_ret msg (put_ret '', '' (put_ret (if success then ''success'' else ''failure'') (put_ret ''['' l))))"

definition setResult_vector :: "u32 list \<Rightarrow> FunctionLog \<Rightarrow> FunctionLog" where
  "setResult_vector ret l =
     put_ret '']'' (addArg_loop put_ret (map (\<lambda>w. show_nat (unat w)) ret) 0 (length ret) (put_ret ''['' l))"

definition setResult_stats :: "u64 \<Rightarrow> u64 \<Rightarrow> FunctionLog \<Rightarrow> FunctionLog" where
  "setResult_stats rx tx l =
     put_ret '']'' (put_ret (show_nat (unat tx)) (put_ret '', tx='' (put_ret (show_nat (unat rx)) (put_ret ''[rx='' l))))"

definition toString :: "FunctionLog \<Rightarrow> string" where
  "toString l = mName l @ ''('' @ sbuf (mSSArgs l) @ '') returned '' @ sbuf (mSSReturn l)"

section \<open>The buffer\<close>

record LocalLogBuffer =
  mLogs :: "FunctionLog list"
  mBufName :: string
  mMaxLogs :: u64

text \<open>\<open>maxLogs\<close> is an \<open>int\<close> that becomes a \<open>size_t\<close>.\<close>

definition LocalLogBuffer_new :: "string \<Rightarrow> int \<Rightarrow> LocalLogBuffer" where
  "LocalLogBuffer_new name maxLogs = \<lparr>mLogs = [], mBufName = name, mMaxLogs = of_int maxLogs\<rparr>"

function pop_front_while :: "u64 \<Rightarrow> FunctionLog list \<Rightarrow> FunctionLog list" where
  "pop_front_while mx logs = (if length logs > unat mx then pop_front_while mx (tl logs) else logs)"
  by pat_completeness auto
termination
  by (relation "measure (\<lambda>(mx, logs). length logs)") auto

declare pop_front_while.simps [simp del]

text \<open>The argument is passed by value and copied again into the deque.\<close>

definition addLog :: "FunctionLog \<Rightarrow> LocalLogBuffer \<Rightarrow> LocalLogBuffer" where
  "addLog log b =
     (let arg = FunctionLog_copy log
      in b\<lparr>mLogs := pop_front_while (mMaxLogs b) (mLogs b) @ [FunctionLog_copy arg]\<rparr>)"

fun toLogcat_loop :: "string \<Rightarrow> FunctionLog list \<Rightarrow> string list" where
  "toLogcat_loop name [] = []"
| "toLogcat_loop name (l # ls) = (name @ '': '' @ toString l) # toLogcat_loop name ls"

definition toLogcat :: "LocalLogBuffer \<Rightarrow> string list" where
  "toLogcat b = toLogcat_loop (mBufName b) (mLogs b)"

section \<open>The text of a call\<close>

text \<open>A log that was not copied writes at the end of its streams.\<close>

definition appending :: "FunctionLog \<Rightarrow> bool" where
  "appending l \<longleftrightarrow> ss_at_end (mSSArgs l) \<and> ss_at_end (mSSReturn l)"

text \<open>What a log holds: its name, whether it has arguments, the two texts.\<close>

definition log_abs :: "FunctionLog \<Rightarrow> string \<times> bool \<times> string \<times> string" where
  "log_abs l = (mName l, mArgsProvided l, sbuf (mSSArgs l), sbuf (mSSReturn l))"

definition log_is :: "FunctionLog \<Rightarrow> string \<times> bool \<times> string \<times> string \<Rightarrow> bool" where
  "log_is l a \<longleftrightarrow> appending l \<and> log_abs l = a"

lemma log_is_new: "log_is (FunctionLog_new n) (n, False, '''', '''')"
  by (simp add: log_is_def appending_def log_abs_def FunctionLog_new_def)

lemma log_is_put_args: "log_is l (n, b, as, r) \<Longrightarrow> log_is (put_args t l) (n, b, as @ t, r)"
  and log_is_put_ret: "log_is l (n, b, as, r) \<Longrightarrow> log_is (put_ret t l) (n, b, as, r @ t)"
  by (auto simp: log_is_def appending_def log_abs_def put_args_def put_ret_def ss_put_at_end)

lemma log_is_comma: "log_is l (n, b, as, r) \<Longrightarrow> log_is (maybeAddArgsComma l) (n, True, if b then as @ '', '' else as, r)"
  using log_is_put_args [of l n b as r "'', ''"]
  by (auto simp: maybeAddArgsComma_def log_is_def log_abs_def appending_def)

fun commas :: "string list \<Rightarrow> string" where
  "commas [] = ''''"
| "commas [x] = x"
| "commas (x # y # xs) = x @ '', '' @ commas (y # xs)"

lemma commas_Cons: "xs \<noteq> [] \<Longrightarrow> commas (x # xs) = x @ '', '' @ commas xs"
  by (cases xs) auto

lemma commas_snoc: "commas (xs @ [x]) = (if xs = [] then x else commas xs @ '', '' @ x)"
  by (induction xs rule: commas.induct) auto

lemma addArg_loop_text:
  assumes "\<And>t l s. R l s \<Longrightarrow> R (put t l) (s @ t)"
  shows "R l s \<Longrightarrow> i + length xs = n \<Longrightarrow> R (addArg_loop put xs i n l) (s @ commas xs)"
proof (induction xs arbitrary: i l s)
  case Nil
  then show ?case by simp
next
  case (Cons x xs)
  note p = assms [OF Cons.prems(1), of x]
  show ?case
  proof (cases "xs = []")
    case True
    with Cons.prems p show ?thesis by auto
  next
    case False
    with Cons.prems have "i < n - 1" by (cases xs) auto
    with Cons.IH [OF assms [OF p, of "'', ''"], of "i + 1"] Cons.prems(2) False show ?thesis by (simp add: commas_Cons)
  qed
qed

text \<open>An argument of a call, as the HAL passes it.\<close>

datatype log_arg = ArgStr string | ArgVec "string list" | ArgNum u64

fun addArg :: "string \<times> log_arg \<Rightarrow> FunctionLog \<Rightarrow> FunctionLog" where
  "addArg (kw, ArgStr a) l = addArg_string kw a l"
| "addArg (kw, ArgVec as) l = addArg_vector kw as l"
| "addArg (kw, ArgNum w) l = addArg_uint64 kw w l"

fun arg_text :: "string \<times> log_arg \<Rightarrow> string" where
  "arg_text (kw, ArgStr a) = kw @ ''='' @ a"
| "arg_text (kw, ArgVec as) = kw @ ''=['' @ commas as @ '']''"
| "arg_text (kw, ArgNum w) = kw @ ''='' @ show_nat (unat w)"

datatype log_result = ResMsg bool string | ResVec "u32 list" | ResStats u64 u64

fun setResult :: "log_result \<Rightarrow> FunctionLog \<Rightarrow> FunctionLog" where
  "setResult (ResMsg ok m) l = setResult_msg ok m l"
| "setResult (ResVec ws) l = setResult_vector ws l"
| "setResult (ResStats rx tx) l = setResult_stats rx tx l"

fun result_text :: "log_result \<Rightarrow> string" where
  "result_text (ResMsg ok m) = ''['' @ (if ok then ''success'' else ''failure'') @ '', '' @ m @ '']''"
| "result_text (ResVec ws) = ''['' @ commas (map (\<lambda>w. show_nat (unat w)) ws) @ '']''"
| "result_text (ResStats rx tx) = ''[rx='' @ show_nat (unat rx) @ '', tx='' @ show_nat (unat tx) @ '']''"

lemma log_is_args3:
  "log_is l (n, b, as, r) \<Longrightarrow> log_is (put_args t3 (put_args t2 (put_args t1 l))) (n, b, as @ t1 @ t2 @ t3, r)"
  using log_is_put_args [OF log_is_put_args [OF log_is_put_args]] by simp

lemma log_is_addArg:
  assumes "log_is l (n, b, as, r)"
  shows "log_is (addArg a l) (n, True, (if b then as @ '', '' else as) @ arg_text a, r)"
proof (cases a rule: arg_text.cases)
  case (2 kw args)
  let ?R = "\<lambda>l s. log_is l (n, True, s, r)"
  have "?R (put_args ''=['' (put_args kw (maybeAddArgsComma l))) (((if b then as @ '', '' else as) @ kw) @ ''=['')"
    by (intro log_is_put_args log_is_comma assms)
  from addArg_loop_text [where R = ?R and put = put_args and i = 0 and xs = args and n = "length args", OF log_is_put_args this]
  have "?R (addArg_loop put_args args 0 (length args) (put_args ''=['' (put_args kw (maybeAddArgsComma l))))
      ((((if b then as @ '', '' else as) @ kw) @ ''=['') @ commas args)" by simp
  from log_is_put_args [OF this, of "'']''"] show ?thesis using 2 by (cases b) (simp_all add: addArg_vector_def)
next
  case (1 kw arg)
  then show ?thesis using log_is_args3 [OF log_is_comma [OF assms], of arg "''=''" kw] by (cases b) (simp_all add: addArg_string_def)
next
  case (3 kw w)
  then show ?thesis using log_is_args3 [OF log_is_comma [OF assms], of "show_nat (unat w)" "''=''" kw]
    by (cases b) (simp_all add: addArg_uint64_def)
qed

lemma log_is_ret5:
  "log_is l (n, b, as, r) \<Longrightarrow>
     log_is (put_ret t5 (put_ret t4 (put_ret t3 (put_ret t2 (put_ret t1 l))))) (n, b, as, r @ t1 @ t2 @ t3 @ t4 @ t5)"
  using log_is_put_ret [OF log_is_put_ret [OF log_is_put_ret [OF log_is_put_ret [OF log_is_put_ret]]]] by simp

lemma log_is_setResult:
  assumes "log_is l (n, b, as, r)"
  shows "log_is (setResult x l) (n, b, as, r @ result_text x)"
proof (cases x)
  case (ResVec ws)
  let ?R = "\<lambda>l s. log_is l (n, b, as, s)"
  from addArg_loop_text [where R = ?R and put = put_ret and i = 0 and xs = "map (\<lambda>w. show_nat (unat w)) ws" and n = "length ws",
      OF log_is_put_ret log_is_put_ret [OF assms, of "''[''"]]
  have "?R (addArg_loop put_ret (map (\<lambda>w. show_nat (unat w)) ws) 0 (length ws) (put_ret ''['' l))
      ((r @ ''['') @ commas (map (\<lambda>w. show_nat (unat w)) ws))" by simp
  from log_is_put_ret [OF this, of "'']''"] show ?thesis using ResVec by (simp add: setResult_vector_def)
next
  case (ResMsg ok m)
  show ?thesis using ResMsg log_is_ret5 [OF assms, of "'']''" m "'', ''" "if ok then ''success'' else ''failure''" "''[''"]
    by (cases ok) (simp_all add: setResult_msg_def)
next
  case (ResStats rx tx)
  show ?thesis using ResStats log_is_ret5 [OF assms, of "'']''" "show_nat (unat tx)" "'', tx=''" "show_nat (unat rx)" "''[rx=''"]
    by (simp add: setResult_stats_def)
qed

lemma log_is_args:
  "log_is (fold addArg xs (FunctionLog_new n)) (n, xs \<noteq> [], commas (map arg_text xs), '''')"
proof (induction xs rule: rev_induct)
  case Nil
  show ?case by (simp add: log_is_new)
next
  case (snoc x xs)
  from log_is_addArg [OF snoc.IH, of x] show ?case by (cases "xs = []") (simp_all add: commas_snoc)
qed

lemma copy_text [simp]: "toString (FunctionLog_copy l) = toString l" "FunctionLog_copy (FunctionLog_copy l) = FunctionLog_copy l"
  by (simp_all add: toString_def FunctionLog_copy_def ss_set_def)

lemma pop_front_eq: "pop_front_while mx logs = drop (length logs - unat mx) logs"
proof (induction mx logs rule: pop_front_while.induct)
  case (1 mx logs)
  show ?case
  proof (cases "length logs > unat mx")
    case True
    then have "length logs - unat mx = Suc (length (tl logs) - unat mx)" by simp
    with True 1 show ?thesis by (simp add: pop_front_while.simps [of mx logs] drop_Suc)
  next
    case False
    then show ?thesis by (simp add: pop_front_while.simps [of mx logs])
  qed
qed

section \<open>Properties\<close>

text \<open>
  The text of a logged call. A call recorded with any arguments and then one result reads
  \<open>name(kw=arg, kw=[a, b], ...) returned [...]\<close>, with a comma and a blank between arguments and between the elements of a
  vector and nowhere else; copying the record into the buffer keeps the text.
\<close>

theorem function_log_text:
  "toString (FunctionLog_copy (setResult x (fold addArg xs (FunctionLog_new n)))) =
     n @ ''('' @ commas (map arg_text xs) @ '') returned '' @ result_text x"
  unfolding copy_text using log_is_setResult [OF log_is_args [of xs n], of x]
  by (simp add: log_is_def log_abs_def toString_def)

text \<open>
  What the buffer keeps. After any calls were logged into a new buffer, it holds exactly the latest ones, in order: one
  more than the configured maximum, because the oldest are dropped before the new one is added only when there are already
  more than the maximum. The dump has one line for each of them.
\<close>

theorem log_buffer_keeps_latest:
  "toLogcat (fold addLog logs (LocalLogBuffer_new name mx)) =
     map (\<lambda>l. name @ '': '' @ toString l) (drop (length logs - (unat (of_int mx :: u64) + 1)) logs)"
proof -
  let ?m = "unat (of_int mx :: u64)"
  have "fold addLog logs (LocalLogBuffer_new name mx) =
      \<lparr>mLogs = map FunctionLog_copy (drop (length logs - (?m + 1)) logs), mBufName = name, mMaxLogs = of_int mx\<rparr>"
  proof (induction logs rule: rev_induct)
    case Nil
    show ?case by (simp add: LocalLogBuffer_new_def)
  next
    case (snoc l logs)
    let ?k = "length logs - (?m + 1)"
    have e: "length (drop ?k logs) - ?m + ?k = length logs - ?m" by simp
    have "pop_front_while (of_int mx) (map FunctionLog_copy (drop ?k logs)) = map FunctionLog_copy (drop (length logs - ?m) logs)"
      unfolding pop_front_eq drop_map length_map drop_drop e ..
    with snoc show ?case by (simp add: addLog_def)
  qed
  moreover have "toLogcat_loop name ls = map (\<lambda>l. name @ '': '' @ toString l) ls" for ls
    by (induction ls) auto
  ultimately show ?thesis by (simp add: toLogcat_def comp_def)
qed

end
