(* ===== verification/Hal.thy ===== *)
theory Hal
  imports OffloadMgr LogBuffer
begin

text \<open>
  The service that the framework talks to (\<open>hal/src/HAL.cpp\<close>), on top of the parser of prefixes, the log of calls and the offload manager, with the objects it gives to
  the manager for calls back (\<open>IpaEventRelay.cpp\<close>, \<open>CtUpdateAmbassador.cpp\<close>).

  Every call of the service gives the answer passed to \<open>hidl_cb\<close> and the new state. \<open>None\<close>: a null handle is followed, \<open>atoi\<close> is given a number outside \<open>int\<close>, or
  the manager's own \<open>None\<close>. Memory is available for the objects made here; for the manager's events see there.
\<close>

section \<open>Data\<close>

type_synonym BoolResult = "bool \<times> string"

datatype hal_reply = BoolReply bool string | StatsReply u64 u64

text \<open>A handle is the list of its file descriptors, or null.\<close>

type_synonym hidl_handle = "int list option"

record HAL =
  mIPA :: OffloadManager
  mCb :: "ptr option"
  mCbIpa :: "ptr option"
  mCbCt :: "ptr option"
  mHandle1 :: "int option"
  mHandle2 :: "int option"
  hal_logs :: LocalLogBuffer
  hal_next :: ptr

text \<open>The relay objects hold a reference to \<open>mCb\<close> itself, not a copy; new ones take the next address.\<close>

definition HAL_new :: "OffloadManager \<Rightarrow> HAL" where
  "HAL_new mgr = \<lparr>mIPA = mgr, mCb = None, mCbIpa = None, mCbCt = None, mHandle1 = None, mHandle2 = None,
     hal_logs = LocalLogBuffer_new ''HAL Function Calls'' 50, hal_next = 1\<rparr>"

definition makeIPAHAL :: "int \<Rightarrow> OffloadManager option \<Rightarrow> HAL option" where
  "makeIPAHAL version mgr = (case mgr of None \<Rightarrow> None | Some m \<Rightarrow> if version \<noteq> 1 then None else Some (HAL_new m))"

section \<open>Results\<close>

definition makeInputCheckFailure :: "string \<Rightarrow> BoolResult" where
  "makeInputCheckFailure customErr = (False, ''Failed Input Checks: '' @ customErr)"

definition ipaResultToBoolResult :: "RET \<Rightarrow> BoolResult" where
  "ipaResultToBoolResult r =
     (ret_num r \<ge> ret_num SUCCESS,
      case r of
        FAIL_TOO_MANY_PREFIXES \<Rightarrow> ''Too Many Prefixes Provided''
      | FAIL_UNSUPPORTED \<Rightarrow> ''Unsupported by Hardware''
      | FAIL_INPUT_CHECK \<Rightarrow> ''Failed Input Checks''
      | FAIL_HARDWARE \<Rightarrow> ''Hardware did not accept''
      | FAIL_TRY_AGAIN \<Rightarrow> ''Try Again''
      | SUCCESS \<Rightarrow> ''Successful''
      | SUCCESS_DUPLICATE_CONFIG \<Rightarrow> ''Successful: Was a duplicate configuration''
      | SUCCESS_NO_OP \<Rightarrow> ''Successful: No action needed''
      | SUCCESS_OPTIMIZED \<Rightarrow> ''Successful: Performed optimized version of action''
      | FAIL_UNNEEDED \<Rightarrow> ''Unknown Error'')"

definition log_call :: "FunctionLog \<Rightarrow> HAL \<Rightarrow> HAL" where
  "log_call fl h = h\<lparr>hal_logs := addLog fl (hal_logs h)\<rparr>"

text \<open>The end of every call: \<open>hidl_cb\<close>, \<open>setResult\<close>, \<open>addLog\<close>.\<close>

definition finish :: "FunctionLog \<Rightarrow> BoolResult \<Rightarrow> HAL \<Rightarrow> hal_reply \<times> HAL" where
  "finish fl res h = (BoolReply (fst res) (snd res), log_call (setResult_msg (fst res) (snd res) fl) h)"

section \<open>Listeners\<close>

definition isInitialized :: "HAL \<Rightarrow> bool" where
  "isInitialized h \<longleftrightarrow> mCb h \<noteq> None"

definition new_obj :: "HAL \<Rightarrow> ptr \<times> HAL" where
  "new_obj h = (hal_next h, h\<lparr>hal_next := hal_next h + 1\<rparr>)"

definition registerIpaCb :: "HAL \<Rightarrow> HAL" where
  "registerIpaCb h =
     (if isInitialized h \<and> mCbIpa h = None
      then let (p, h) = new_obj h; h = h\<lparr>mCbIpa := Some p, mIPA := snd (registerEventListener (Some p) (mIPA h))\<rparr>
           in log_call (FunctionLog_new ''registerEventListener'') h
      else h)"

definition registerCtCb :: "HAL \<Rightarrow> HAL" where
  "registerCtCb h =
     (if isInitialized h \<and> mCbCt h = None
      then let (p, h) = new_obj h; h = h\<lparr>mCbCt := Some p, mIPA := snd (registerCtTimeoutUpdater (Some p) (mIPA h))\<rparr>
           in log_call (FunctionLog_new ''registerCtTimeoutUpdater'') h
      else h)"

definition registerEventListeners :: "HAL \<Rightarrow> HAL" where
  "registerEventListeners h = registerCtCb (registerIpaCb h)"

definition unregisterIpaCb :: "HAL \<Rightarrow> HAL" where
  "unregisterIpaCb h =
     (if mCbIpa h \<noteq> None
      then log_call (FunctionLog_new ''unregisterEventListener'') (h\<lparr>mIPA := snd (unregisterEventListener (mIPA h)), mCbIpa := None\<rparr>)
      else h)"

definition unregisterCtCb :: "HAL \<Rightarrow> HAL" where
  "unregisterCtCb h =
     (if mCbCt h \<noteq> None
      then log_call (FunctionLog_new ''unregisterCtTimeoutUpdater'') (h\<lparr>mIPA := snd (unregisterCtTimeoutUpdater (mIPA h)), mCbCt := None\<rparr>)
      else h)"

definition unregisterEventListeners :: "HAL \<Rightarrow> HAL" where
  "unregisterEventListeners h = unregisterCtCb (unregisterIpaCb h)"

definition clearHandles :: "HAL \<Rightarrow> HAL" where
  "clearHandles h = h\<lparr>mHandle1 := None, mHandle2 := None\<rparr>"

section \<open>The calls\<close>

text \<open>Assigning a handle duplicates its file descriptor.\<close>

definition setHandles :: "kernel \<Rightarrow> hidl_handle \<Rightarrow> hidl_handle \<Rightarrow> HAL \<Rightarrow> (hal_reply \<times> HAL) option" where
  "setHandles K fd1 fd2 h =
     (let fl = FunctionLog_new ''setHandles''
      in do { fds1 \<leftarrow> fd1;
              if length fds1 \<noteq> 1 then Some (finish fl (makeInputCheckFailure ''Must provide exactly one FD per handle (fd1)'') h)
              else do {
                fds2 \<leftarrow> fd2;
                if length fds2 \<noteq> 1 then Some (finish fl (makeInputCheckFailure ''Must provide exactly one FD per handle (fd2)'') h)
                else let a = dup_fd K (hd fds1); b = dup_fd K (hd fds2);
                         h = h\<lparr>mHandle1 := Some a, mHandle2 := Some b\<rparr>;
                         fl = addArg_uint64 ''fd2'' (of_int b) (addArg_uint64 ''fd1'' (of_int a) fl);
                         (ipaReturn, m) = provideFd K a subscrips_udp (mIPA h);
                         (ipaReturn, m) = (if ipaReturn = SUCCESS then provideFd K b subscrips_tcp m else (ipaReturn, m));
                         h = h\<lparr>mIPA := m\<rparr>;
                         h = (if ipaReturn \<noteq> SUCCESS then clearHandles h else h)
                     in Some (finish fl (ipaResultToBoolResult ipaReturn) h) } })"

definition initOffload :: "ptr option \<Rightarrow> HAL \<Rightarrow> hal_reply \<times> HAL" where
  "initOffload cb h =
     (let fl = FunctionLog_new ''initOffload''
      in if isInitialized h then finish fl (makeInputCheckFailure ''Already initialized'') h
         else finish fl (ipaResultToBoolResult SUCCESS) (registerEventListeners (h\<lparr>mCb := cb\<rparr>)))"

definition stopOffload :: "kernel \<Rightarrow> HAL \<Rightarrow> hal_reply \<times> HAL" where
  "stopOffload K h =
     (let fl = FunctionLog_new ''stopOffload''
      in if \<not> isInitialized h then finish fl (makeInputCheckFailure ''Was never initialized'') h
         else let h = unregisterEventListeners (h\<lparr>mCb := None\<rparr>);
                  (ipaReturn, m) = stopAllOffload K (mIPA h);
                  (ret, m) = clearAllFds m;
                  h = h\<lparr>mIPA := m\<rparr>;
                  h = (if ret = SUCCESS then clearHandles h else h);
                  ipaReturn = (if ipaReturn \<noteq> SUCCESS then ipaReturn else ret)
              in finish fl (ipaResultToBoolResult ipaReturn) h)"

text \<open>The answer when the service is not initialized stays in an inner variable of the same name; the outer one is zeroed.\<close>

definition setLocalPrefixes :: "inet_pton \<Rightarrow> string list \<Rightarrow> HAL \<Rightarrow> (hal_reply \<times> HAL) option" where
  "setLocalPrefixes N prefixes h =
     (let fl = addArg_vector ''prefixes'' prefixes (FunctionLog_new ''setLocalPrefixes'')
      in if \<not> isInitialized h then Some (finish fl (False, '''') h)
         else if length prefixes < 1 then Some (finish fl (ipaResultToBoolResult FAIL_INPUT_CHECK) h)
         else do { (ok, parser) \<leftarrow> add_any_vector N prefixes new_parser;
                   Some (finish fl (if \<not> ok then makeInputCheckFailure (mLastErr parser) else ipaResultToBoolResult SUCCESS) h) })"

definition getForwardedStats :: "kernel \<Rightarrow> string \<Rightarrow> HAL \<Rightarrow> hal_reply \<times> HAL" where
  "getForwardedStats K upstream h =
     (let fl = addArg_string ''upstream'' upstream (FunctionLog_new ''getForwardedStats'');
          (ipaReturn, rx, tx) = getStats K (c_str upstream) True;
          (rx, tx) = (if ipaReturn = SUCCESS then (rx, tx) else (0, 0))
      in (StatsReply rx tx, log_call (setResult_stats rx tx fl) h))"

definition setDataLimit :: "kernel \<Rightarrow> string \<Rightarrow> u64 \<Rightarrow> HAL \<Rightarrow> hal_reply \<times> HAL" where
  "setDataLimit K upstream limit h =
     (let fl = addArg_uint64 ''limit'' limit (addArg_string ''upstream'' upstream (FunctionLog_new ''setDataLimit''))
      in if \<not> isInitialized h then finish fl (makeInputCheckFailure ''Not initialized (setDataLimit)'') h
         else let ipaReturn = setQuota K (c_str upstream) limit;
                  ipaReturn = (if ipaReturn = FAIL_TRY_AGAIN then SUCCESS else ipaReturn)
              in finish fl (ipaResultToBoolResult ipaReturn) h)"

text \<open>A call of the manager with its result as the answer.\<close>

definition answer :: "FunctionLog \<Rightarrow> (RET \<times> OffloadManager) option \<Rightarrow> HAL \<Rightarrow> (hal_reply \<times> HAL) option" where
  "answer fl r h = map_option (\<lambda>(ipaReturn, m). finish fl (ipaResultToBoolResult ipaReturn) (h\<lparr>mIPA := m\<rparr>)) r"

definition setUpstreamParameters :: "kernel \<Rightarrow> inet_pton \<Rightarrow> string \<Rightarrow> string \<Rightarrow> string \<Rightarrow> string list \<Rightarrow> HAL \<Rightarrow> (hal_reply \<times> HAL) option" where
  "setUpstreamParameters K N iface addr4 gw4 gws6 h =
     (let fl = addArg_vector ''v6Gws'' gws6 (addArg_string ''v4Gw'' gw4 (addArg_string ''v4Addr'' addr4
                 (addArg_string ''iface'' iface (FunctionLog_new ''setUpstreamParameters''))))
      in if \<not> isInitialized h then Some (finish fl (makeInputCheckFailure ''Not initialized (setUpstreamParameters)'') h)
         else do {
           (okA, addrParser) \<leftarrow> addV4 N addr4 new_parser;
           if \<not> okA \<and> addr4 \<noteq> [] then Some (finish fl (makeInputCheckFailure (mLastErr addrParser)) h)
           else do {
             (okG, gwParser) \<leftarrow> addV4 N gw4 new_parser;
             if \<not> okG \<and> gw4 \<noteq> [] then Some (finish fl (makeInputCheckFailure (mLastErr gwParser)) h)
             else do {
               (okV6, v6Parser) \<leftarrow> (if length gws6 \<ge> 1 then addV6_vector N gws6 new_parser else Some (True, new_parser));
               if \<not> okV6 then Some (finish fl (makeInputCheckFailure (mLastErr v6Parser)) h)
               else if length iface \<ge> 1
               then answer fl (setUpstream K (Some (c_str iface)) (getFirstPrefix INVALID gwParser) (getFirstPrefix INVALID v6Parser) (mIPA h)) h
               else answer fl (setUpstream K None (getFirstPrefix V4 gwParser) (getFirstPrefix V6 v6Parser) (mIPA h)) h } } })"

definition hal_addDownstream :: "kernel \<Rightarrow> inet_pton \<Rightarrow> string \<Rightarrow> string \<Rightarrow> HAL \<Rightarrow> (hal_reply \<times> HAL) option" where
  "hal_addDownstream K N iface prefix h =
     (let fl = addArg_string ''prefix'' prefix (addArg_string ''iface'' iface (FunctionLog_new ''addDownstream''))
      in if \<not> isInitialized h then Some (finish fl (makeInputCheckFailure ''Not initialized (setUpstreamParameters)'') h)
         else do { (ok, parser) \<leftarrow> add_any N prefix new_parser;
                   if \<not> ok then Some (finish fl (makeInputCheckFailure (mLastErr parser)) h)
                   else answer fl (addDownstream K (c_str iface) (getFirstPrefix INVALID parser) (mIPA h)) h })"

definition hal_removeDownstream :: "kernel \<Rightarrow> inet_pton \<Rightarrow> string \<Rightarrow> string \<Rightarrow> HAL \<Rightarrow> (hal_reply \<times> HAL) option" where
  "hal_removeDownstream K N iface prefix h =
     (let fl = addArg_string ''prefix'' prefix (addArg_string ''iface'' iface (FunctionLog_new ''removeDownstream''))
      in if \<not> isInitialized h then Some (finish fl (makeInputCheckFailure ''Not initialized (setUpstreamParameters)'') h)
         else do { (ok, parser) \<leftarrow> add_any N prefix new_parser;
                   if \<not> ok then Some (finish fl (makeInputCheckFailure (mLastErr parser)) h)
                   else answer fl (Some (removeDownstream K (c_str iface) (getFirstPrefix INVALID parser) (mIPA h))) h })"

section \<open>Calls back\<close>

datatype StoppedReason = REQUESTED | ERROR | UNSUPPORTED

datatype ipa_callback = OffloadStarted | OffloadStopped StoppedReason | OffloadSupportAvailable | LimitReached

datatype OffloadCallbackEvent =
    OFFLOAD_STARTED | OFFLOAD_STOPPED_ERROR | OFFLOAD_STOPPED_UNSUPPORTED | OFFLOAD_SUPPORT_AVAILABLE | OFFLOAD_STOPPED_LIMIT_REACHED

fun relay_event :: "ipa_callback \<Rightarrow> OffloadCallbackEvent option" where
  "relay_event OffloadStarted = Some OFFLOAD_STARTED"
| "relay_event (OffloadStopped REQUESTED) = None"
| "relay_event (OffloadStopped ERROR) = Some OFFLOAD_STOPPED_ERROR"
| "relay_event (OffloadStopped UNSUPPORTED) = Some OFFLOAD_STOPPED_UNSUPPORTED"
| "relay_event OffloadSupportAvailable = Some OFFLOAD_SUPPORT_AVAILABLE"
| "relay_event LimitReached = Some OFFLOAD_STOPPED_LIMIT_REACHED"

text \<open>IPACM calls the registered listener: the calls of the framework that follow. \<open>None\<close>: the reference to \<open>mCb\<close> is null.\<close>

definition notify_framework :: "ipa_callback \<Rightarrow> HAL \<Rightarrow> (ptr \<times> OffloadCallbackEvent) list option" where
  "notify_framework ev h =
     (case elrInstance (mIPA h) of
        None \<Rightarrow> Some []
      | Some p \<Rightarrow>
          (case relay_event ev of
             None \<Rightarrow> Some []
           | Some e \<Rightarrow> (case mCb h of None \<Rightarrow> None | Some cb \<Rightarrow> Some [(cb, e)])))"

text \<open>Updates of connection timeouts; \<open>inet_ntop\<close> is a parameter, and \<open>proto\<close> is 0 for TCP, 1 for UDP.\<close>

record nat_timeout_update =
  src_addr :: u32
  src_port :: u16
  dst_addr :: u32
  dst_port :: u16
  proto :: nat

datatype NetworkProtocol = NET_TCP | NET_UDP

definition L4ToNetwork :: "nat \<Rightarrow> NetworkProtocol option" where
  "L4ToNetwork p = (if p = 0 then Some NET_TCP else if p = 1 then Some NET_UDP else None)"

definition translate_pair :: "(u32 \<Rightarrow> string option) \<Rightarrow> u32 \<Rightarrow> u16 \<Rightarrow> (string \<times> u16) option" where
  "translate_pair ntop ipAddr port = map_option (\<lambda>t. (t, port)) (ntop ipAddr)"

definition translate_update :: "(u32 \<Rightarrow> string option) \<Rightarrow> nat_timeout_update \<Rightarrow> ((string \<times> u16) \<times> (string \<times> u16) \<times> NetworkProtocol) option" where
  "translate_update ntop u =
     do { src \<leftarrow> translate_pair ntop (src_addr u) (src_port u);
          dst \<leftarrow> translate_pair ntop (dst_addr u) (dst_port u);
          p \<leftarrow> L4ToNetwork (proto u);
          Some (src, dst, p) }"

definition updateTimeout :: "(u32 \<Rightarrow> string option) \<Rightarrow> nat_timeout_update \<Rightarrow> HAL \<Rightarrow> (ptr \<times> (string \<times> u16) \<times> (string \<times> u16) \<times> NetworkProtocol) list option" where
  "updateTimeout ntop u h =
     (case touInstance (mIPA h) of
        None \<Rightarrow> Some []
      | Some p \<Rightarrow>
          (case translate_update ntop u of
             None \<Rightarrow> Some []
           | Some out \<Rightarrow> (case mCb h of None \<Rightarrow> None | Some cb \<Rightarrow> Some [(cb, out)])))"

section \<open>Runs\<close>

datatype hal_op =
    Hal_setHandles kernel hidl_handle hidl_handle | Hal_initOffload "ptr option" | Hal_stopOffload kernel | Hal_setLocalPrefixes inet_pton "string list"
  | Hal_getForwardedStats kernel string | Hal_setDataLimit kernel string u64
  | Hal_setUpstreamParameters kernel inet_pton string string string "string list"
  | Hal_addDownstream kernel inet_pton string string | Hal_removeDownstream kernel inet_pton string string
  | Hal_ipacm mgr_op

fun hal_call :: "HAL \<Rightarrow> hal_op \<Rightarrow> (hal_reply \<times> HAL) option" where
  "hal_call h (Hal_setHandles K fd1 fd2) = setHandles K fd1 fd2 h"
| "hal_call h (Hal_initOffload cb) = Some (initOffload cb h)"
| "hal_call h (Hal_stopOffload K) = Some (stopOffload K h)"
| "hal_call h (Hal_setLocalPrefixes N ps) = setLocalPrefixes N ps h"
| "hal_call h (Hal_getForwardedStats K u) = Some (getForwardedStats K u h)"
| "hal_call h (Hal_setDataLimit K u l) = Some (setDataLimit K u l h)"
| "hal_call h (Hal_setUpstreamParameters K N i a g gs) = setUpstreamParameters K N i a g gs h"
| "hal_call h (Hal_addDownstream K N i p) = hal_addDownstream K N i p h"
| "hal_call h (Hal_removeDownstream K N i p) = hal_removeDownstream K N i p h"
| "hal_call h (Hal_ipacm x) = map_option (\<lambda>m. (BoolReply True [], h\<lparr>mIPA := m\<rparr>)) (mgr_step (mIPA h) x)"

definition hal_step :: "HAL \<Rightarrow> hal_op \<Rightarrow> HAL option" where
  "hal_step h x = map_option snd (hal_call h x)"

text \<open>What IPACM itself does to the manager besides: interfaces come and go, and a downstream may be pushed to the cache.\<close>

fun ipacm_op :: "mgr_op \<Rightarrow> bool" where
  "ipacm_op (Op_ready K name) = True"
| "ipacm_op (Op_push name p) = True"
| "ipacm_op (Op_config x) = True"
| "ipacm_op x = False"

text \<open>The length of a prefix fits \<open>int\<close>.\<close>

definition text_ok :: "string \<Rightarrow> bool" where
  "text_ok txt \<longleftrightarrow> (case splitIntoAddrAndMask txt of None \<Rightarrow> True | Some (a, m) \<Rightarrow> m = [] \<or> atoi (c_str m) \<noteq> None)"

fun hal_fits :: "HAL \<Rightarrow> hal_op \<Rightarrow> bool" where
  "hal_fits h (Hal_setHandles K fd1 fd2) \<longleftrightarrow> fd1 \<noteq> None \<and> fd2 \<noteq> None"
| "hal_fits h (Hal_setLocalPrefixes N ps) \<longleftrightarrow> list_all text_ok ps"
| "hal_fits h (Hal_setUpstreamParameters K N i a g gs) \<longleftrightarrow> text_ok a \<and> text_ok g \<and> list_all text_ok gs"
| "hal_fits h (Hal_addDownstream K N i p) \<longleftrightarrow> text_ok p"
| "hal_fits h (Hal_removeDownstream K N i p) \<longleftrightarrow> text_ok p"
| "hal_fits h (Hal_ipacm x) \<longleftrightarrow> ipacm_op x \<and> op_fits (mIPA h) x"
| "hal_fits h _ \<longleftrightarrow> True"

fun hal_kernel_ok :: "hal_op \<Rightarrow> bool" where
  "hal_kernel_ok (Hal_setUpstreamParameters K N i a g gs) \<longleftrightarrow> kernel_ok K"
| "hal_kernel_ok (Hal_stopOffload K) \<longleftrightarrow> kernel_ok K"
| "hal_kernel_ok (Hal_ipacm x) \<longleftrightarrow> op_kernel_ok x"
| "hal_kernel_ok _ \<longleftrightarrow> True"

definition hal_legal :: "HAL \<Rightarrow> hal_op \<Rightarrow> bool" where
  "hal_legal h x \<longleftrightarrow> hal_kernel_ok x \<and> hal_fits h x"

section \<open>The parsers return\<close>

lemma add_string_defined: "text_ok txt \<Longrightarrow> add_string N txt hint s \<noteq> None"
  by (auto simp: text_ok_def add_string_eq parseSubnetMask_def fail_def split: option.splits prod.splits)

lemma add_loop_defined: "list_all text_ok ts \<Longrightarrow> add_loop N ts hint s \<noteq> None"
proof (induction ts arbitrary: s)
  case (Cons t ts)
  obtain ok s1 where "add_string N t hint s = Some (ok, s1)" using add_string_defined [of t N hint s] Cons.prems by auto
  with Cons show ?case by (cases ok) auto
qed simp

lemma parsers_defined:
  "text_ok t \<Longrightarrow> add_any N t s \<noteq> None" "text_ok t \<Longrightarrow> addV4 N t s \<noteq> None"
  "list_all text_ok ts \<Longrightarrow> add_any_vector N ts s \<noteq> None" "list_all text_ok ts \<Longrightarrow> addV6_vector N ts s \<noteq> None"
  using add_string_defined [of t N _ s] add_loop_defined [of ts N _ s] by (auto simp: add_any_def addV4_def add_any_vector_def add_vector_def addV6_vector_def)

text \<open>A parser for one family stores prefixes of that family.\<close>

lemma add_string_fam:
  assumes "hint \<noteq> INVALID" "add_string N t hint s = Some (ok, s')" "\<forall>p \<in> set (mPrefixes s). fam p = hint"
  shows "\<forall>p \<in> set (mPrefixes s'). fam p = hint"
  using assms by (auto simp: add_string_eq family_def fail_def the_prefix_def split: if_splits option.splits Option.bind_splits prod.splits)

lemma add_loop_fam:
  "hint \<noteq> INVALID \<Longrightarrow> add_loop N ts hint s = Some (ok, s') \<Longrightarrow> \<forall>p \<in> set (mPrefixes s). fam p = hint \<Longrightarrow> \<forall>p \<in> set (mPrefixes s'). fam p = hint"
proof (induction ts arbitrary: s)
  case (Cons t ts)
  from Cons.prems(2) obtain b s1 where a: "add_string N t hint s = Some (b, s1)" "if b then add_loop N ts hint s1 = Some (ok, s') else s' = s1"
    by (auto split: Option.bind_splits if_splits)
  note 1 = add_string_fam [OF Cons.prems(1) a(1) Cons.prems(3)]
  show ?case using a(2) 1 Cons.IH [OF Cons.prems(1)] by (cases b) auto
qed simp

lemma first_fam: "\<forall>p \<in> set (mPrefixes s). fam p = f \<Longrightarrow> fam (getFirstPrefix f s) = f"
  by (cases "mPrefixes s") (simp_all add: getFirstPrefix_def makeBlankPrefix_def)

section \<open>The invariant\<close>

text \<open>No route is up, and none is waiting to be.\<close>

definition no_upstream :: "OffloadManager \<Rightarrow> bool" where
  "no_upstream m \<longleftrightarrow> \<not> upstream_v4_up m \<and> \<not> upstream_v6_up m \<and> (\<forall>e \<in> set (event_cache m). fe_valid e \<longrightarrow> fe_event e \<noteq> IPA_WAN_UPSTREAM_ROUTE_ADD_EVENT)"

definition hal_ok :: "HAL \<Rightarrow> bool" where
  "hal_ok h \<longleftrightarrow> mgr_ok (mIPA h) \<and> (mCbIpa h = None \<longleftrightarrow> mCb h = None) \<and> (mCbCt h = None \<longleftrightarrow> mCb h = None) \<and>
     elrInstance (mIPA h) = mCbIpa h \<and> touInstance (mIPA h) = mCbCt h \<and> (mCb h = None \<longrightarrow> no_upstream (mIPA h))"

lemma finish_fields [simp]:
  "mIPA (snd (finish fl r h)) = mIPA h" "mCb (snd (finish fl r h)) = mCb h" "mCbIpa (snd (finish fl r h)) = mCbIpa h" "mCbCt (snd (finish fl r h)) = mCbCt h"
  by (simp_all add: finish_def log_call_def)

lemma log_call_fields [simp]:
  "mIPA (log_call fl h) = mIPA h" "mCb (log_call fl h) = mCb h" "mCbIpa (log_call fl h) = mCbIpa h" "mCbCt (log_call fl h) = mCbCt h"
  by (simp_all add: log_call_def)

lemma finish_ok [simp]: "hal_ok (snd (finish fl r h)) = hal_ok h" "hal_ok (log_call fl h) = hal_ok h" "hal_ok (clearHandles h) = hal_ok h"
  by (simp_all add: hal_ok_def clearHandles_def)

lemma cache_loop_quiet:
  "cache_loop f n m = (ok, m') \<Longrightarrow> latest_cache_index m < MAX_EVENT_CACHE \<Longrightarrow> no_upstream m \<Longrightarrow> (\<And>e. fe_event (f e) \<noteq> IPA_WAN_UPSTREAM_ROUTE_ADD_EVENT) \<Longrightarrow> no_upstream m'"
proof (induction f n m rule: cache_loop.induct)
  case (2 f n m)
  let ?i = "latest_cache_index m"
  show ?case
  proof (cases "fe_valid (event_cache m ! ?i)")
    case True
    with 2 show ?thesis by (simp add: Let_def no_upstream_def)
  next
    case False
    with 2(2) have "m' = m\<lparr>event_cache := (event_cache m)[?i := f (event_cache m ! ?i)], latest_cache_index := (?i + 1) mod MAX_EVENT_CACHE\<rparr>"
      by (auto simp: Let_def)
    then show ?thesis using 2(4,5) set_update_subset_insert [of "event_cache m" ?i "f (event_cache m ! ?i)"] by (auto simp: no_upstream_def)
  qed
qed simp

lemma addDownstream_quiet:
  assumes "mgr_ok m" "no_upstream m" "addDownstream K name p m = Some (r, m')"
  shows "no_upstream m'"
proof (cases "ipa_get_if_index K name")
  case (Some index)
  let ?m = "note_iface name m"
  have q: "no_upstream ?m" "latest_cache_index ?m < MAX_EVENT_CACHE" using assms(1,2) by (auto simp: note_iface_def no_upstream_def mgr_ok_def)
  from assms(3) Some obtain wait where w: "need_cache name p p (ipacmcfg ?m) = Some wait"
    "if wait then m' = snd (cache_loop (fill_down name p) MAX_EVENT_CACHE ?m) else m' = ?m \<or> m' = PostEvt_to IPA_DOWNSTREAM_ADD (Ipahal_stream index p) ?m"
    by (auto simp: addDownstream_def Let_def split: Option.bind_splits if_splits prod.splits)
  show ?thesis
  proof (cases wait)
    case True
    then show ?thesis using w(2) cache_loop_quiet [OF _ q(2,1), of "fill_down name p" MAX_EVENT_CACHE] by (cases "cache_loop (fill_down name p) MAX_EVENT_CACHE ?m") (simp add: fill_down_def)
  next
    case False
    then show ?thesis using w(2) q(1) by (auto simp: no_upstream_def)
  qed
qed (use assms in \<open>auto simp: addDownstream_def\<close>)

lemma search_loop_quiet:
  "mgr_ok m \<Longrightarrow> no_upstream m \<Longrightarrow> i + n = MAX_EVENT_CACHE \<Longrightarrow> search_loop_fw K name i n rel m = Some (r, m') \<Longrightarrow> no_upstream m'"
proof (induction n arbitrary: i rel m)
  case (Suc n)
  let ?e = "event_cache m ! i"
  have i: "i < length (event_cache m)" using Suc.prems(1,3) by (simp add: mgr_ok_def)
  show ?case
  proof (cases "fe_valid ?e \<and> strncmp_eq (fe_dev_name ?e) name 16")
    case True
    then have "fe_event ?e \<noteq> IPA_WAN_UPSTREAM_ROUTE_ADD_EVENT" using Suc.prems(2) i by (auto simp: no_upstream_def)
    then obtain r0 t where t: "(if fe_event ?e = IPA_DOWNSTREAM_ADD then addDownstream K name (prefix_cache ?e) m else Some (SUCCESS, m)) = Some (r0, t)"
      and go: "search_loop_fw K name (Suc i) n True (t\<lparr>event_cache := (event_cache t)[i := (event_cache t ! i)\<lparr>fe_valid := False\<rparr>]\<rparr>) = Some (r, m')"
      using Suc.prems(4) True by (auto simp: Let_def split: Option.bind_splits if_splits)
    have "mgr_ok t \<and> no_upstream t"
    proof (cases "fe_event ?e = IPA_DOWNSTREAM_ADD")
      case True
      then show ?thesis using t addDownstream_ok [OF Suc.prems(1), of K name "prefix_cache ?e"] addDownstream_quiet [OF Suc.prems(1,2)] by auto
    qed (use t Suc.prems in simp)
    then have "mgr_ok (t\<lparr>event_cache := (event_cache t)[i := (event_cache t ! i)\<lparr>fe_valid := False\<rparr>]\<rparr>)"
      "no_upstream (t\<lparr>event_cache := (event_cache t)[i := (event_cache t ! i)\<lparr>fe_valid := False\<rparr>]\<rparr>)"
      by (auto simp: mgr_ok_via no_upstream_def dest!: set_update_subset_insert [THEN subsetD])
    from Suc.IH [OF this _ go] Suc.prems(3) show ?thesis by simp
  next
    case False
    then show ?thesis using Suc.IH [OF Suc.prems(1,2), of "Suc i" rel] Suc.prems(3,4) by (auto simp: Let_def)
  qed
qed simp

lemma ipacm_quiet:
  assumes ok: "mgr_ok m" and q: "no_upstream m" and x: "ipacm_op x" "mgr_step m x = Some m'"
  shows "no_upstream m'"
proof (cases x)
  case (Op_ready K name)
  then show ?thesis using x search_loop_quiet [OF ok q, of 0 MAX_EVENT_CACHE K name False] by (auto simp: search_framwork_cache_def)
next
  case (Op_push name p)
  have "latest_cache_index m < MAX_EVENT_CACHE" using ok by (simp add: mgr_ok_def)
  from cache_loop_quiet [OF _ this q, of "fill_down name p" MAX_EVENT_CACHE] Op_push x show ?thesis
    by (cases "cache_loop (fill_down name p) MAX_EVENT_CACHE m") (simp add: push_framework_event_def fill_down_def)
next
  case (Op_config y)
  then show ?thesis using x q by (auto simp: no_upstream_def)
qed (use x in simp_all)

text \<open>A call that keeps the listeners.\<close>

lemma hal_ok_mgr:
  "hal_ok h \<Longrightarrow> mgr_ok m \<Longrightarrow> elrInstance m = elrInstance (mIPA h) \<Longrightarrow> touInstance m = touInstance (mIPA h) \<Longrightarrow> (mCb h = None \<Longrightarrow> no_upstream m) \<Longrightarrow>
     hal_ok (h\<lparr>mIPA := m\<rparr>)"
  by (simp add: hal_ok_def)

lemma finish_returns: "hal_ok h \<Longrightarrow> \<exists>rep h'. Some (finish fl r h) = Some (rep, h') \<and> hal_ok h'"
  using finish_ok(1) [of fl r h] by (metis prod.collapse)

lemma answer_ok:
  assumes "hal_ok h" "mCb h \<noteq> None" "\<exists>r m. x = Some (r, m) \<and> mgr_ok m \<and> same_listeners (mIPA h) m"
  shows "\<exists>rep h'. answer fl x h = Some (rep, h') \<and> hal_ok h'"
proof -
  from assms(3) obtain r m where x: "x = Some (r, m)" "mgr_ok m" "same_listeners (mIPA h) m" by blast
  have "hal_ok (h\<lparr>mIPA := m\<rparr>)" using assms(1,2) x by (intro hal_ok_mgr) auto
  from finish_returns [OF this] show ?thesis using x(1) by (simp add: answer_def)
qed

lemma setHandles_ok:
  assumes "hal_ok h" "fd1 \<noteq> None" "fd2 \<noteq> None"
  shows "\<exists>rep h'. setHandles K fd1 fd2 h = Some (rep, h') \<and> hal_ok h'"
proof -
  obtain l1 l2 where l: "fd1 = Some l1" "fd2 = Some l2" using assms by auto
  have fd: "mgr_ok (snd (provideFd K fd g m)) \<and> elrInstance (snd (provideFd K fd g m)) = elrInstance m \<and> touInstance (snd (provideFd K fd g m)) = touInstance m \<and>
      (no_upstream m \<longrightarrow> no_upstream (snd (provideFd K fd g m)))" if "mgr_ok m" for fd g m
    using provideFd_ok [OF that, of K fd g] by (auto simp: provideFd_def no_upstream_def Let_def split: option.split)
  have h1: "hal_ok (h\<lparr>mHandle1 := a, mHandle2 := b\<rparr>)" for a b using assms(1) by (simp add: hal_ok_def)
  let ?a = "dup_fd K (hd l1)" and ?b = "dup_fd K (hd l2)"
  obtain r1 m1 where 1: "provideFd K ?a subscrips_udp (mIPA h) = (r1, m1)" by fastforce
  obtain r2 m2 where 2: "(if r1 = SUCCESS then provideFd K ?b subscrips_tcp m1 else (r1, m1)) = (r2, m2)" by fastforce
  have m1: "mgr_ok m1" "elrInstance m1 = elrInstance (mIPA h)" "touInstance m1 = touInstance (mIPA h)" "no_upstream (mIPA h) \<longrightarrow> no_upstream m1"
    using fd [of "mIPA h" ?a subscrips_udp] 1 assms(1) by (auto simp: hal_ok_def)
  have "mgr_ok m2 \<and> elrInstance m2 = elrInstance (mIPA h) \<and> touInstance m2 = touInstance (mIPA h) \<and> (no_upstream (mIPA h) \<longrightarrow> no_upstream m2)"
    using fd [OF m1(1), of ?b subscrips_tcp] 2 m1 by (auto split: if_splits)
  then have h2: "hal_ok (h\<lparr>mHandle1 := Some ?a, mHandle2 := Some ?b, mIPA := m2\<rparr>)" using assms(1) by (simp add: hal_ok_def)
  show ?thesis using l 1 2 h2 assms(1) finish_returns by (simp add: setHandles_def Let_def)
qed

lemma initOffload_ok:
  assumes ok: "hal_ok h"
  shows "hal_ok (snd (initOffload cb h)) \<and> mCb (snd (initOffload cb h)) = (if mCb h = None then cb else mCb h)"
proof (cases "mCb h = None")
  case False
  then show ?thesis using ok by (auto simp: initOffload_def isInitialized_def)
next
  case True
  then have n: "mCbIpa h = None" "mCbCt h = None" "no_upstream (mIPA h)" "mgr_ok (mIPA h)" using ok by (auto simp: hal_ok_def)
  have m: "mgr_ok ((mIPA h)\<lparr>elrInstance := a, touInstance := b\<rparr>)" for a b using n(4) by (simp add: mgr_ok_def believed_def fun_eq_iff)
  show ?thesis
  proof (cases cb)
    case None
    then show ?thesis using ok True n
      by (simp add: initOffload_def registerEventListeners_def registerIpaCb_def registerCtCb_def isInitialized_def hal_ok_def)
  next
    case (Some p)
    then show ?thesis using ok True n m
      by (simp add: initOffload_def registerEventListeners_def registerIpaCb_def registerCtCb_def isInitialized_def new_obj_def Let_def
          registerEventListener_def registerCtTimeoutUpdater_def hal_ok_def)
  qed
qed

lemma stopOffload_ok:
  assumes ok: "hal_ok h" and K: "kernel_ok K"
  shows "hal_ok (snd (stopOffload K h)) \<and> mCb (snd (stopOffload K h)) = None"
proof (cases "mCb h = None")
  case True
  then show ?thesis using ok by (simp add: stopOffload_def isInitialized_def)
next
  case False
  then have n: "mCbIpa h \<noteq> None" "mCbCt h \<noteq> None" "mgr_ok (mIPA h)" using ok by (auto simp: hal_ok_def)
  let ?h1 = "unregisterEventListeners (h\<lparr>mCb := None\<rparr>)"
  have h1: "mCb ?h1 = None" "mCbIpa ?h1 = None" "mCbCt ?h1 = None" "mIPA ?h1 = (mIPA h)\<lparr>elrInstance := None, touInstance := None\<rparr>"
    using n by (simp_all add: unregisterEventListeners_def unregisterIpaCb_def unregisterCtCb_def log_call_def unregisterEventListener_def unregisterCtTimeoutUpdater_def)
  have m1: "mgr_ok (mIPA ?h1)" using n(3) unfolding h1(4) by (simp add: mgr_ok_def believed_def fun_eq_iff)
  obtain r m where st: "stopAllOffload K (mIPA ?h1) = (r, m)" by fastforce
  note so = stopAllOffload_ok [OF m1 K st]
  have "no_upstream m" using st so by (auto simp: stopAllOffload_def no_upstream_def zero_cache_def Let_def split: prod.splits)
  then have "hal_ok (?h1\<lparr>mIPA := m\<rparr>)" using so h1 by (simp add: hal_ok_def)
  then show ?thesis using False st h1(1) by (simp add: stopOffload_def isInitialized_def clearAllFds_def Let_def clearHandles_def hal_ok_def)
qed

lemma setUpstreamParameters_ok:
  assumes ok: "hal_ok h" and K: "kernel_ok K" and t: "text_ok a" "text_ok g" "list_all text_ok gs"
  shows "\<exists>rep h'. setUpstreamParameters K N i a g gs h = Some (rep, h') \<and> hal_ok h'"
proof (cases "mCb h = None")
  case True
  then show ?thesis using finish_returns [OF ok] by (simp add: setUpstreamParameters_def isInitialized_def Let_def)
next
  case False
  obtain okA pA where A: "addV4 N a new_parser = Some (okA, pA)" using parsers_defined(2) [OF t(1)] by fastforce
  obtain okG pG where G: "addV4 N g new_parser = Some (okG, pG)" using parsers_defined(2) [OF t(2)] by fastforce
  obtain okV pV where V: "(if length gs \<ge> 1 then addV6_vector N gs new_parser else Some (True, new_parser)) = Some (okV, pV)"
    using parsers_defined(4) [OF t(3), of N new_parser] by (cases "length gs \<ge> 1") auto
  have "fam (getFirstPrefix V4 pG) = V4"
    using add_string_fam [of V4 N g new_parser okG pG] G by (intro first_fam) (simp add: addV4_def new_parser_def)
  moreover have "fam (getFirstPrefix V6 pV) = V6"
    using add_loop_fam [of V6 N gs new_parser okV pV] V by (intro first_fam) (auto simp: addV6_vector_def new_parser_def split: if_splits)
  ultimately have none: "\<exists>r m. setUpstream K None (getFirstPrefix V4 pG) (getFirstPrefix V6 pV) (mIPA h) = Some (r, m) \<and> mgr_ok m \<and> same_listeners (mIPA h) m"
    using setUpstream_null_ok [of K "mIPA h" "getFirstPrefix V4 pG" "getFirstPrefix V6 pV"] ok K
    by (cases "setUpstream_null K (getFirstPrefix V4 pG) (getFirstPrefix V6 pV) (mIPA h)") (simp add: setUpstream_def hal_ok_def)
  have some: "\<exists>r m. setUpstream K (Some (c_str i)) (getFirstPrefix INVALID pG) (getFirstPrefix INVALID pV) (mIPA h) = Some (r, m) \<and> mgr_ok m \<and> same_listeners (mIPA h) m"
    using setUpstream_name_ok [of "mIPA h" K "c_str i"] ok K by (simp add: hal_ok_def)
  show ?thesis using False A G V finish_returns [OF ok] answer_ok [OF ok False none] answer_ok [OF ok False some]
    by (simp add: setUpstreamParameters_def isInitialized_def Let_def)
qed

lemma downstream_ok:
  assumes ok: "hal_ok h" and t: "text_ok p"
  shows "\<exists>rep h'. hal_addDownstream K N i p h = Some (rep, h') \<and> hal_ok h'" "\<exists>rep h'. hal_removeDownstream K N i p h = Some (rep, h') \<and> hal_ok h'"
proof -
  obtain b q where P: "add_any N p new_parser = Some (b, q)" using parsers_defined(1) [OF t] by fastforce
  have m: "mgr_ok (mIPA h)" using ok by (simp add: hal_ok_def)
  note add = addDownstream_ok [OF m, of K "c_str i" "getFirstPrefix INVALID q"]
  have rem: "\<exists>r m. Some (removeDownstream K (c_str i) (getFirstPrefix INVALID q) (mIPA h)) = Some (r, m) \<and> mgr_ok m \<and> same_listeners (mIPA h) m"
    using removeDownstream_ok [OF m, of K "c_str i" "getFirstPrefix INVALID q"] by (metis prod.collapse)
  show "\<exists>rep h'. hal_addDownstream K N i p h = Some (rep, h') \<and> hal_ok h'"
    using P finish_returns [OF ok] answer_ok [OF ok _ add] by (simp add: hal_addDownstream_def isInitialized_def Let_def)
  show "\<exists>rep h'. hal_removeDownstream K N i p h = Some (rep, h') \<and> hal_ok h'"
    using P finish_returns [OF ok] answer_ok [OF ok _ rem] by (simp add: hal_removeDownstream_def isInitialized_def Let_def)
qed

lemma hal_call_ok:
  assumes ok: "hal_ok h" and legal: "hal_legal h x"
  shows "\<exists>rep h'. hal_call h x = Some (rep, h') \<and> hal_ok h'"
proof -
  have l: "hal_kernel_ok x" "hal_fits h x" using legal by (auto simp: hal_legal_def)
  have m: "mgr_ok (mIPA h)" using ok by (simp add: hal_ok_def)
  show ?thesis
  proof (cases x)
    case (Hal_setLocalPrefixes N ps)
    then obtain b q where "add_any_vector N ps new_parser = Some (b, q)" using l parsers_defined(3) [of ps N] by fastforce
    then show ?thesis using Hal_setLocalPrefixes finish_returns [OF ok] by (simp add: setLocalPrefixes_def Let_def)
  next
    case (Hal_ipacm y)
    then have "mgr_legal (mIPA h) y" "ipacm_op y" using l by (auto simp: mgr_legal_def)
    from mgr_step_ok [OF m this(1)] this(2) ipacm_quiet [OF m] obtain m' where
      m': "mgr_step (mIPA h) y = Some m'" "mgr_ok m'" "elrInstance m' = elrInstance (mIPA h)" "touInstance m' = touInstance (mIPA h)" "no_upstream (mIPA h) \<Longrightarrow> no_upstream m'" by blast
    have "hal_ok (h\<lparr>mIPA := m'\<rparr>)" using hal_ok_mgr [OF ok m'(2-4)] m'(5) ok by (simp add: hal_ok_def)
    then show ?thesis using Hal_ipacm m'(1) by simp
  next
    case (Hal_setDataLimit K u lim)
    then show ?thesis using finish_returns [OF ok] by (simp add: setDataLimit_def Let_def)
  next
    case (Hal_initOffload cb)
    then show ?thesis using initOffload_ok [OF ok, of cb] by (metis hal_call.simps(2) prod.collapse)
  next
    case (Hal_stopOffload K)
    then show ?thesis using stopOffload_ok [OF ok, of K] l by (cases "stopOffload K h") simp
  next
    case (Hal_getForwardedStats K u)
    then show ?thesis using ok by (auto simp: getForwardedStats_def Let_def split: prod.split)
  qed (use l setHandles_ok [OF ok] setUpstreamParameters_ok [OF ok] downstream_ok [OF ok] in simp_all)
qed

interpretation hal: safe_component hal_step hal_ok hal_legal
  by unfold_locales (use hal_call_ok in \<open>fastforce simp: hal_step_def\<close>)+

section \<open>Properties\<close>

text \<open>
  C5. Along any sequence of calls of the framework, with anything IPACM itself does in between and memory for the events of routes, every call is answered; the listeners at the manager are those of
  the service, and there are some exactly while the framework is connected; a call back reaches the connected framework and never follows a null pointer; the posted
  route events are consistent with the manager's state; and while no framework is connected, no upstream route is up or waits to be.
\<close>

theorem hal_session_safe:
  assumes "cfg_ok cfg" and "legal_run hal_step hal_legal (HAL_new (OffloadManager_new cfg cc)) xs"
  shows "\<exists>h. run_steps hal_step (HAL_new (OffloadManager_new cfg cc)) xs = Some h \<and>
    elrInstance (mIPA h) = mCbIpa h \<and> touInstance (mIPA h) = mCbCt h \<and> (mCbIpa h = None \<longleftrightarrow> mCb h = None) \<and> (mCbCt h = None \<longleftrightarrow> mCb h = None) \<and>
    (\<forall>ev. notify_framework ev h = Some (case (mCb h, relay_event ev) of (Some cb, Some e) \<Rightarrow> [(cb, e)] | _ \<Rightarrow> [])) \<and>
    replay (posted_evts (mIPA h)) Map.empty = Some (believed (mIPA h)) \<and>
    (mCb h = None \<longrightarrow> replay (posted_evts (mIPA h)) Map.empty = Some Map.empty \<and>
       (\<forall>e \<in> set (event_cache (mIPA h)). fe_valid e \<longrightarrow> fe_event e \<noteq> IPA_WAN_UPSTREAM_ROUTE_ADD_EVENT))"
proof -
  have "hal_ok (HAL_new (OffloadManager_new cfg cc))"
    using new_ok [OF assms(1), of cc] by (auto simp: hal_ok_def HAL_new_def no_upstream_def) (auto simp: OffloadManager_new_def zero_cache_def)
  from hal.run_defined [OF this assms(2)] obtain h where h: "run_steps hal_step (HAL_new (OffloadManager_new cfg cc)) xs = Some h" "hal_ok h" by blast
  have n: "notify_framework ev h = Some (case (mCb h, relay_event ev) of (Some cb, Some e) \<Rightarrow> [(cb, e)] | _ \<Rightarrow> [])" for ev
    using h(2) by (auto simp: hal_ok_def notify_framework_def split: option.split)
  have "replay (posted_evts (mIPA h)) Map.empty = Some (believed (mIPA h))" using h(2) by (simp add: hal_ok_def mgr_ok_def)
  moreover have "believed (mIPA h) = Map.empty" if "no_upstream (mIPA h)" using that by (simp add: no_upstream_def believed_def fun_eq_iff)
  ultimately show ?thesis using h n by (auto simp: hal_ok_def no_upstream_def)
qed

definition demo_calls :: "hal_op list" where
  "demo_calls = [Hal_ipacm (Op_config (Cfg_add ''rmnet_data0'' IPA_IP_v4)), Hal_addDownstream demo_kernel demo_pton ''wlan0'' ''10.1.2.3'', Hal_initOffload (Some 77),
     Hal_setUpstreamParameters demo_kernel demo_pton ''rmnet_data0'' [] ''10.1.2.3'' [], Hal_addDownstream demo_kernel demo_pton ''wlan0'' ''10.1.2.3'']"

lemma demo_calls_legal: "legal_run hal_step hal_legal (HAL_new (OffloadManager_new (Config_init_nat 4) None)) (demo_calls @ xs)"
  if "list_all hal_kernel_ok xs" "legal_run hal_step hal_fits (HAL_new (OffloadManager_new (Config_init_nat 4) None)) (demo_calls @ xs)"
proof -
  have "list_all hal_kernel_ok (demo_calls @ xs)" using that(1) by (simp add: demo_calls_def demo_kernel_ok)
  from legal_run_conj [OF this that(2)] show ?thesis by (simp add: hal_legal_def [abs_def])
qed

text \<open>With the upstream set, and after stopping.\<close>

theorem hal_session_safe_witness:
  "cfg_ok (Config_init_nat 4) \<and>
   (\<exists>h. run_steps hal_step (HAL_new (OffloadManager_new (Config_init_nat 4) None)) (demo_calls @ []) = Some h \<and> mCb h = Some 77 \<and>
      notify_framework OffloadStarted h = Some [(77, OFFLOAD_STARTED)] \<and> replay (posted_evts (mIPA h)) Map.empty = Some [IPA_IP_v4 \<mapsto> 7]) \<and>
   (\<exists>h. run_steps hal_step (HAL_new (OffloadManager_new (Config_init_nat 4) None)) (demo_calls @ [Hal_stopOffload demo_kernel]) = Some h \<and>
      replay (posted_evts (mIPA h)) Map.empty = Some Map.empty \<and> length (posted_evts (mIPA h)) = 2)"
proof -
  let ?h0 = "HAL_new (OffloadManager_new (Config_init_nat 4) None)"
  have cfg: "cfg_ok (Config_init_nat 4)" using init_ok by simp
  have f1: "legal_run hal_step hal_fits ?h0 (demo_calls @ [])" by code_simp
  have f2: "legal_run hal_step hal_fits ?h0 (demo_calls @ [Hal_stopOffload demo_kernel])" by code_simp
  have 1: "map_option (\<lambda>h. (mCb h, default_gw_index (mIPA h), upstream_v4_up (mIPA h), upstream_v6_up (mIPA h))) (run_steps hal_step ?h0 (demo_calls @ [])) =
      Some (Some 77, 7, True, False)" by code_simp
  have 2: "map_option (\<lambda>h. (mCb h, length (posted_evts (mIPA h)))) (run_steps hal_step ?h0 (demo_calls @ [Hal_stopOffload demo_kernel])) = Some (None, 2)" by code_simp
  have w1: "\<exists>h. run_steps hal_step ?h0 (demo_calls @ []) = Some h \<and> mCb h = Some 77 \<and>
      notify_framework OffloadStarted h = Some [(77, OFFLOAD_STARTED)] \<and> replay (posted_evts (mIPA h)) Map.empty = Some [IPA_IP_v4 \<mapsto> 7]"
  proof -
    from hal_session_safe [OF cfg demo_calls_legal [OF _ f1]] obtain h where h: "run_steps hal_step ?h0 (demo_calls @ []) = Some h"
      "\<forall>ev. notify_framework ev h = Some (case (mCb h, relay_event ev) of (Some cb, Some e) \<Rightarrow> [(cb, e)] | _ \<Rightarrow> [])"
      "replay (posted_evts (mIPA h)) Map.empty = Some (believed (mIPA h))" by auto
    then have s: "mCb h = Some 77" "default_gw_index (mIPA h) = 7" "upstream_v4_up (mIPA h)" "\<not> upstream_v6_up (mIPA h)" using 1 by simp_all
    then have "believed (mIPA h) = [IPA_IP_v4 \<mapsto> 7]" by (simp add: believed_def fun_eq_iff)
    with h s(1) show ?thesis by simp
  qed
  have w2: "\<exists>h. run_steps hal_step ?h0 (demo_calls @ [Hal_stopOffload demo_kernel]) = Some h \<and>
      replay (posted_evts (mIPA h)) Map.empty = Some Map.empty \<and> length (posted_evts (mIPA h)) = 2"
    using hal_session_safe [OF cfg demo_calls_legal [OF _ f2]] 2 demo_kernel_ok by auto
  from cfg w1 w2 show ?thesis by blast
qed

text \<open>
  Before the framework has connected, requests are refused and leave the manager alone. The refusal of local prefixes carries no message, because its text is assigned to
  another variable of the same name.
\<close>

theorem hal_refuses_unconnected:
  assumes "mCb h = None"
  shows "setLocalPrefixes N ps h = Some (finish (addArg_vector ''prefixes'' ps (FunctionLog_new ''setLocalPrefixes'')) (False, []) h) \<and>
    fst (setDataLimit K u lim h) = BoolReply False ''Failed Input Checks: Not initialized (setDataLimit)'' \<and> mIPA (snd (setDataLimit K u lim h)) = mIPA h \<and>
    (\<exists>h'. setUpstreamParameters K N i a g gs h = Some (BoolReply False ''Failed Input Checks: Not initialized (setUpstreamParameters)'', h') \<and> mIPA h' = mIPA h) \<and>
    (\<exists>h'. hal_addDownstream K N i p h = Some (BoolReply False ''Failed Input Checks: Not initialized (setUpstreamParameters)'', h') \<and> mIPA h' = mIPA h) \<and>
    (\<exists>h'. hal_removeDownstream K N i p h = Some (BoolReply False ''Failed Input Checks: Not initialized (setUpstreamParameters)'', h') \<and> mIPA h' = mIPA h) \<and>
    fst (stopOffload K h) = BoolReply False ''Failed Input Checks: Was never initialized'' \<and> mIPA (snd (stopOffload K h)) = mIPA h"
  using assms by (simp add: setLocalPrefixes_def setDataLimit_def setUpstreamParameters_def hal_addDownstream_def hal_removeDownstream_def stopOffload_def
      isInitialized_def finish_def log_call_def makeInputCheckFailure_def Let_def)

theorem hal_refuses_unconnected_witness:
  "mCb (HAL_new (OffloadManager_new (Config_init_nat 4) None)) = None \<and>
   (\<exists>h'. hal_addDownstream demo_kernel demo_pton ''wlan0'' ''10.1.2.3'' (HAL_new (OffloadManager_new (Config_init_nat 4) None)) =
      Some (BoolReply False ''Failed Input Checks: Not initialized (setUpstreamParameters)'', h'))"
proof -
  have n: "mCb (HAL_new (OffloadManager_new (Config_init_nat 4) None)) = None" by (simp add: HAL_new_def)
  from hal_refuses_unconnected [OF n, of demo_pton _ demo_kernel _ _ "''wlan0''" _ _ _ "''10.1.2.3''"] n show ?thesis by blast
qed

text \<open>
  While \<open>stopOffload\<close> runs, the reference that the listener holds is cleared before the listener is taken away; an event of IPACM in between follows a null pointer.
\<close>

lemma stop_window_faults:
  assumes "hal_ok h" "mCb h = Some cb"
  shows "notify_framework OffloadStarted (h\<lparr>mCb := None\<rparr>) = None"
  using assms by (auto simp: hal_ok_def notify_framework_def split: option.split)

end
