(* ===== verification/OsIndex.thy ===== *)
theory OsIndex
  imports IPA_Prelude
begin

text \<open>
  The subscription indices of the location core (\<open>gps/core/data-items/common/ClientIndex.cpp\<close>, \<open>DataItemIndex.cpp\<close>): a map from clients to the items they have subscribed
  to, and a map from items to their clients, with the algorithms of the C++ library they use.

  A \<open>std::map\<close> is an association list in the order of its keys. An \<open>out\<close> argument is passed in and returned. \<open>None\<close>: \<open>erase\<close> of the end iterator.
\<close>

section \<open>The C++ library\<close>

text \<open>The algorithms on ranges run through both ranges once, whether these are sorted or not.\<close>

fun set_difference :: "'a::linorder list \<Rightarrow> 'a list \<Rightarrow> 'a list" where
  "set_difference [] ys = []"
| "set_difference (x # xs) [] = x # xs"
| "set_difference (x # xs) (y # ys) =
     (if x < y then x # set_difference xs (y # ys)
      else if y < x then set_difference (x # xs) ys
      else set_difference xs ys)"

fun set_intersection :: "'a::linorder list \<Rightarrow> 'a list \<Rightarrow> 'a list" where
  "set_intersection [] ys = []"
| "set_intersection (x # xs) [] = []"
| "set_intersection (x # xs) (y # ys) =
     (if x < y then set_intersection xs (y # ys)
      else if y < x then set_intersection (x # xs) ys
      else x # set_intersection xs ys)"

text \<open>\<open>std::list::merge\<close>; \<open>sort\<close> and \<open>unique\<close> are \<open>sort\<close> and \<open>remdups_adj\<close>.\<close>

fun list_merge :: "'a::linorder list \<Rightarrow> 'a list \<Rightarrow> 'a list" where
  "list_merge [] ys = ys"
| "list_merge (x # xs) [] = x # xs"
| "list_merge (x # xs) (y # ys) = (if y < x then y # list_merge (x # xs) ys else x # list_merge xs (y # ys))"

text \<open>\<open>m[k] = v\<close>, \<open>m.erase(k)\<close>.\<close>

fun map_put :: "'k::linorder \<Rightarrow> 'v \<Rightarrow> ('k \<times> 'v) list \<Rightarrow> ('k \<times> 'v) list" where
  "map_put k v [] = [(k, v)]"
| "map_put k v ((k', v') # m) =
     (if k < k' then (k, v) # (k', v') # m else if k = k' then (k, v) # m else (k', v') # map_put k v m)"

definition map_erase :: "'k \<Rightarrow> ('k \<times> 'v) list \<Rightarrow> ('k \<times> 'v) list" where
  "map_erase k m = filter (\<lambda>(k', v). k' \<noteq> k) m"

text \<open>\<open>l.erase(find(l.begin(), l.end(), x))\<close> for every \<open>x\<close> of a list.\<close>

fun erase_found :: "'a list \<Rightarrow> 'a list \<Rightarrow> 'a list option" where
  "erase_found [] l = Some l"
| "erase_found (x # xs) l = (if x \<in> set l then erase_found xs (remove1 x l) else None)"

section \<open>The index of clients\<close>

type_synonym ('c, 'd) index = "('c \<times> 'd list) list"

definition isSubscribedClient :: "'c \<Rightarrow> ('c, 'd) index \<Rightarrow> bool" where
  "isSubscribedClient client m \<longleftrightarrow> map_of m client \<noteq> None"

definition getSubscribedList :: "'c \<Rightarrow> 'd list \<Rightarrow> ('c, 'd) index \<Rightarrow> 'd list" where
  "getSubscribedList client out m = (case map_of m client of None \<Rightarrow> out | Some l \<Rightarrow> l)"

definition ClientIndex_remove_client :: "'c \<Rightarrow> ('c, 'd) index \<Rightarrow> int \<times> ('c, 'd) index" where
  "ClientIndex_remove_client client m = (0, map_erase client m)"

text \<open>The loop shared by \<open>ClientIndex::remove(r, out)\<close> and \<open>DataItemIndex::remove(r, out)\<close>: every value of \<open>r\<close> is taken out of every list, and keys with an
  empty list go.\<close>

fun prune :: "'d list \<Rightarrow> 'k list \<Rightarrow> ('k \<times> 'd list) list \<Rightarrow> 'k list \<times> ('k \<times> 'd list) list" where
  "prune r out [] = (out, [])"
| "prune r out ((k, l) # m) =
     (let l = fold remove1 r l
      in if l = [] then prune r (out @ [k]) m
         else let (out, m) = prune r out m in (out, (k, l) # m))"

definition ClientIndex_remove_items :: "'d list \<Rightarrow> 'c list \<Rightarrow> ('c, 'd) index \<Rightarrow> 'c list \<times> ('c, 'd) index" where
  "ClientIndex_remove_items r out m = prune r out m"

text \<open>The code shared by \<open>ClientIndex::remove(client, r, out)\<close> and \<open>DataItemIndex::remove(id, r, out)\<close>.\<close>

definition remove_values :: "'k::linorder \<Rightarrow> 'd::linorder list \<Rightarrow> 'd list \<Rightarrow> ('k \<times> 'd list) list \<Rightarrow> ('d list \<times> ('k \<times> 'd list) list) option" where
  "remove_values k r out m =
     (case map_of m k of
        None \<Rightarrow> Some (out, m)
      | Some l \<Rightarrow>
          do { let out = set_intersection l r @ out;
               l \<leftarrow> erase_found out l;
               Some (out, if l = [] then map_erase k m else map_put k l m) })"

definition ClientIndex_remove :: "'c::linorder \<Rightarrow> 'd::linorder list \<Rightarrow> 'd list \<Rightarrow> ('c, 'd) index \<Rightarrow> ('d list \<times> ('c, 'd) index) option" where
  "ClientIndex_remove client r out m = remove_values client r out m"

definition ClientIndex_add :: "'c::linorder \<Rightarrow> 'd::linorder list \<Rightarrow> 'd list \<Rightarrow> ('c, 'd) index \<Rightarrow> 'd list \<times> ('c, 'd) index" where
  "ClientIndex_add client l out m =
     (case map_of m client of
        Some cur \<Rightarrow>
          (let difference = set_difference l cur
           in if difference \<noteq> []
              then (sort difference, map_put client (remdups_adj (list_merge cur (sort difference))) m)
              else (out, m))
      | None \<Rightarrow> (l, map_put client l m))"

section \<open>The index of items\<close>

definition getListOfSubscribedClients :: "'d \<Rightarrow> 'c list \<Rightarrow> ('d, 'c) index \<Rightarrow> 'c list" where
  "getListOfSubscribedClients dit out m = (case map_of m dit of None \<Rightarrow> out | Some l \<Rightarrow> l)"

definition DataItemIndex_remove_id :: "'d \<Rightarrow> ('d, 'c) index \<Rightarrow> int \<times> ('d, 'c) index" where
  "DataItemIndex_remove_id dit m = (0, map_erase dit m)"

definition DataItemIndex_remove_clients :: "'c list \<Rightarrow> 'd list \<Rightarrow> ('d, 'c) index \<Rightarrow> 'd list \<times> ('d, 'c) index" where
  "DataItemIndex_remove_clients r out m = prune r out m"

definition DataItemIndex_remove :: "'d::linorder \<Rightarrow> 'c::linorder list \<Rightarrow> 'c list \<Rightarrow> ('d, 'c) index \<Rightarrow> ('c list \<times> ('d, 'c) index) option" where
  "DataItemIndex_remove dit r out m = remove_values dit r out m"

definition DataItemIndex_add_id :: "'d::linorder \<Rightarrow> 'c::linorder list \<Rightarrow> 'c list \<Rightarrow> ('d, 'c) index \<Rightarrow> 'c list \<times> ('d, 'c) index" where
  "DataItemIndex_add_id dit l out m =
     (case map_of m dit of
        Some cur \<Rightarrow>
          (let difference = set_difference l cur
           in if difference \<noteq> [] then (sort difference, map_put dit (list_merge cur (sort difference)) m)
              else (out, m))
      | None \<Rightarrow> (l, map_put dit l m))"

fun DataItemIndex_add :: "'c \<Rightarrow> 'd::linorder list \<Rightarrow> 'd list \<Rightarrow> ('d, 'c) index \<Rightarrow> 'd list \<times> ('d, 'c) index" where
  "DataItemIndex_add client [] out m = (out, m)"
| "DataItemIndex_add client (x # l) out m =
     (case map_of m x of
        None \<Rightarrow> DataItemIndex_add client l (out @ [x]) (map_put x [client] m)
      | Some cs \<Rightarrow>
          DataItemIndex_add client l out (if client \<in> set cs then m else map_put x (cs @ [client]) m))"

section \<open>Facts\<close>

text \<open>Keys in order, and lists in strictly ascending order.\<close>

abbreviation ascending :: "'a::linorder list \<Rightarrow> bool" where
  "ascending xs \<equiv> sorted_wrt (<) xs"

lemma map_put_of: "ascending (map fst m) \<Longrightarrow> map_of (map_put k v m) = (map_of m)(k \<mapsto> v)"
proof (induction m)
  case (Cons c m)
  have "map_of m k = None" if "k < fst c" using Cons.prems that by (auto simp: map_of_eq_None_iff dest: order.strict_trans)
  with Cons show ?case by (cases c) (auto simp: fun_eq_iff)
qed simp

lemma map_put_keys: "fst ` set (map_put k v m) = insert k (fst ` set m)"
  by (induction k v m rule: map_put.induct) auto

lemma map_put_ascending: "ascending (map fst m) \<Longrightarrow> ascending (map fst (map_put k v m))"
proof (induction k v m rule: map_put.induct)
  case (2 k v k' v' m)
  have "\<forall>x \<in> set (map_put k v m). k' < fst x" if "k' < k"
  proof
    fix x assume "x \<in> set (map_put k v m)"
    then have "fst x \<in> insert k (fst ` set m)" using map_put_keys [of k v m] by blast
    then show "k' < fst x" using 2(2) that by auto
  qed
  with 2 show ?case by (auto dest: order.strict_trans)
qed simp

lemma map_erase_of: "map_of (map_erase k m) = (map_of m)(k := None)"
  by (induction m) (auto simp: map_erase_def fun_eq_iff)

lemma map_erase_ascending: "ascending (map fst m) \<Longrightarrow> ascending (map fst (map_erase k m))"
  by (induction m) (auto simp: map_erase_def)

lemma set_difference_set: "ascending xs \<Longrightarrow> ascending ys \<Longrightarrow> set (set_difference xs ys) = set xs - set ys"
proof (induction xs ys rule: set_difference.induct)
  case (3 x xs y ys)
  then show ?case by (cases x y rule: linorder_cases) (auto dest: order.strict_trans)
qed auto

lemma set_difference_ascending: "ascending xs \<Longrightarrow> ascending (set_difference xs ys)"
proof (induction xs ys rule: set_difference.induct)
  case (3 x xs y ys)
  have sub: "set (set_difference xs zs) \<subseteq> set xs" for zs
    by (induction xs zs rule: set_difference.induct) auto
  from 3 sub [of "y # ys"] show ?case by auto
qed auto

lemma set_intersection_set: "ascending xs \<Longrightarrow> ascending ys \<Longrightarrow> set (set_intersection xs ys) = set xs \<inter> set ys"
proof (induction xs ys rule: set_intersection.induct)
  case (3 x xs y ys)
  then show ?case by (cases x y rule: linorder_cases) (auto dest: order.strict_trans)
qed auto

lemma set_intersection_sub: "set (set_intersection xs ys) \<subseteq> set xs \<inter> set ys"
  by (induction xs ys rule: set_intersection.induct) auto

lemma set_intersection_ascending: "ascending xs \<Longrightarrow> ascending (set_intersection xs ys)"
proof (induction xs ys rule: set_intersection.induct)
  case (3 x xs y ys)
  with set_intersection_sub [of xs ys] show ?case by auto
qed auto

lemma list_merge_set: "set (list_merge xs ys) = set xs \<union> set ys"
  by (induction xs ys rule: list_merge.induct) auto

lemma list_merge_ascending: "ascending xs \<Longrightarrow> ascending ys \<Longrightarrow> set xs \<inter> set ys = {} \<Longrightarrow> ascending (list_merge xs ys)"
proof (induction xs ys rule: list_merge.induct)
  case (3 x xs y ys)
  then show ?case by (cases x y rule: linorder_cases) (auto simp: list_merge_set dest: order.strict_trans)
qed auto

lemma ascending_distinct: "ascending xs \<Longrightarrow> distinct (xs :: 'a::linorder list)"
  by (induction xs) auto

lemma ascending_sort: "ascending xs \<Longrightarrow> sort xs = (xs :: 'a::linorder list)"
  by (simp add: sorted_sort_id strict_sorted_imp_sorted)

lemma erase_found_ok: "distinct xs \<Longrightarrow> distinct l \<Longrightarrow> set xs \<subseteq> set l \<Longrightarrow> \<exists>l'. erase_found xs l = Some l' \<and> set l' = set l - set xs"
proof (induction xs arbitrary: l)
  case (Cons x xs)
  from Cons.IH [of "remove1 x l"] Cons.prems obtain l' where "erase_found xs (remove1 x l) = Some l'" "set l' = set l - {x} - set xs" by auto
  with Cons.prems show ?case by auto
qed simp

lemma erase_found_distinct: "erase_found xs l = Some l' \<Longrightarrow> distinct l \<Longrightarrow> distinct l'"
  by (induction xs arbitrary: l) (auto split: if_splits)

lemma erase_found_ascending: "erase_found xs l = Some l' \<Longrightarrow> ascending l \<Longrightarrow> ascending l'"
proof (induction xs arbitrary: l)
  case (Cons x xs)
  have "ascending (remove1 x l)" using Cons.prems(2) by (induction l) (auto dest: notin_set_remove1)
  with Cons show ?case by (auto split: if_splits)
qed simp

section \<open>The indices as families of sets\<close>

definition subs :: "('k \<times> 'v list) list \<Rightarrow> 'k \<Rightarrow> 'v set" where
  "subs m k = (case map_of m k of None \<Rightarrow> {} | Some l \<Rightarrow> set l)"

definition sub_index_ok :: "('k::linorder \<times> 'v list) list \<Rightarrow> bool" where
  "sub_index_ok m \<longleftrightarrow> ascending (map fst m) \<and> (\<forall>k l. map_of m k = Some l \<longrightarrow> l \<noteq> [] \<and> distinct l)"

definition ascending_lists :: "('k \<times> 'v::linorder list) list \<Rightarrow> bool" where
  "ascending_lists m \<longleftrightarrow> (\<forall>k l. map_of m k = Some l \<longrightarrow> ascending l)"

lemma sub_index_ok_put: "sub_index_ok m \<Longrightarrow> l \<noteq> [] \<Longrightarrow> distinct l \<Longrightarrow> sub_index_ok (map_put k l m) \<and> subs (map_put k l m) = (subs m)(k := set l)"
  by (auto simp: sub_index_ok_def map_put_of map_put_ascending subs_def fun_eq_iff)

lemma sub_index_ok_erase: "sub_index_ok m \<Longrightarrow> sub_index_ok (map_erase k m) \<and> subs (map_erase k m) = (subs m)(k := {})"
  by (auto simp: sub_index_ok_def map_erase_of map_erase_ascending subs_def fun_eq_iff)

lemma ascending_lists_put: "sub_index_ok m \<Longrightarrow> ascending_lists m \<Longrightarrow> ascending l \<Longrightarrow> ascending_lists (map_put k l m)"
  by (auto simp: sub_index_ok_def ascending_lists_def map_put_of)

lemma ascending_lists_erase: "ascending_lists m \<Longrightarrow> ascending_lists (map_erase k m)"
  by (auto simp: ascending_lists_def map_erase_of)

lemma subs_empty: "sub_index_ok m \<Longrightarrow> subs m k = {} \<longleftrightarrow> map_of m k = None"
  by (auto simp: sub_index_ok_def subs_def split: option.splits)

text \<open>Subscribing.\<close>

lemma ClientIndex_add_subs:
  assumes ok: "sub_index_ok m" "ascending_lists m" and l: "ascending l" "l \<noteq> []" and a: "ClientIndex_add c l out m = (out', m')"
  shows "sub_index_ok m' \<and> ascending_lists m' \<and> subs m' = (subs m)(c := subs m c \<union> set l)"
proof (cases "map_of m c")
  case None
  then have "m' = map_put c l m" using a by (auto simp: ClientIndex_add_def)
  then show ?thesis using sub_index_ok_put [OF ok(1) l(2) ascending_distinct [OF l(1)]] ascending_lists_put [OF ok l(1)] None
    by (simp add: subs_def fun_eq_iff)
next
  case (Some cur)
  then have cur: "ascending cur" "subs m c = set cur" using ok by (auto simp: ascending_lists_def subs_def)
  let ?d = "set_difference l cur"
  have d: "ascending ?d" "set ?d = set l - set cur" using set_difference_ascending set_difference_set l(1) cur(1) by blast+
  let ?n = "remdups_adj (list_merge cur (sort ?d))"
  have asc: "ascending (list_merge cur (sort ?d))" using list_merge_ascending [OF cur(1), of ?d] d by (auto simp: ascending_sort)
  then have n: "?n = list_merge cur (sort ?d)" by (simp add: ascending_distinct remdups_adj_distinct)
  have nset: "set ?n = set cur \<union> set l" unfolding n using d(2) by (auto simp: list_merge_set)
  show ?thesis
  proof (cases "?d = []")
    case True
    then have "set l \<subseteq> set cur" using d(2) by auto
    then show ?thesis using True a Some ok cur(2) by (auto simp: ClientIndex_add_def fun_eq_iff)
  next
    case False
    then have m': "m' = map_put c ?n m" using a Some by (auto simp: ClientIndex_add_def Let_def)
    have "?n \<noteq> []" using nset l(2) by (metis Un_empty set_empty)
    then show ?thesis using sub_index_ok_put [OF ok(1), of ?n c] ascending_lists_put [OF ok, of ?n c] asc n ascending_distinct nset cur(2) m'
      by (metis Un_commute)
  qed
qed

text \<open>Unsubscribing.\<close>

lemma remove_values_subs:
  assumes ok: "sub_index_ok m" and r: "distinct r"
  shows "\<exists>out m'. remove_values k r [] m = Some (out, m') \<and> sub_index_ok m' \<and> set out \<subseteq> set r \<and> subs m' = (subs m)(k := subs m k - set out) \<and>
    (ascending_lists m \<longrightarrow> ascending_lists m') \<and> (ascending_lists m \<and> ascending r \<longrightarrow> set out = subs m k \<inter> set r)"
proof (cases "map_of m k")
  case None
  then show ?thesis using ok by (auto simp: remove_values_def subs_def fun_eq_iff)
next
  case (Some l)
  let ?o = "set_intersection l r"
  have l: "distinct l" "l \<noteq> []" "subs m k = set l" using Some ok by (auto simp: sub_index_ok_def subs_def)
  have "distinct (set_intersection xs r)" if "distinct xs" for xs
    using that r by (induction xs r rule: set_intersection.induct) (use set_intersection_sub in \<open>fastforce split: if_splits\<close>)+
  then have o: "distinct ?o" "set ?o \<subseteq> set l" "set ?o \<subseteq> set r" using l(1) set_intersection_sub by blast+
  from erase_found_ok [OF o(1) l(1) o(2)] obtain l' where l': "erase_found ?o l = Some l'" "set l' = set l - set ?o" by blast
  have "distinct l'" using erase_found_distinct [OF l'(1) l(1)] .
  let ?m = "if l' = [] then map_erase k m else map_put k l' m"
  have c: "remove_values k r [] m = Some (?o, ?m)" using Some l'(1) by (simp add: remove_values_def)
  have "sub_index_ok ?m \<and> subs ?m = (subs m)(k := set l')"
    using sub_index_ok_erase [OF ok] sub_index_ok_put [OF ok, of l' k] \<open>distinct l'\<close> by simp
  moreover have "ascending_lists ?m" if "ascending_lists m"
  proof -
    have "ascending l'" using that Some erase_found_ascending [OF l'(1)] by (simp add: ascending_lists_def)
    then show ?thesis using ascending_lists_erase [OF that] ascending_lists_put [OF ok that] by simp
  qed
  moreover have "set ?o = set l \<inter> set r" if "ascending_lists m" "ascending r"
    using that Some set_intersection_set [of l r] by (simp add: ascending_lists_def)
  ultimately show ?thesis using c o l(3) l'(2) by (intro exI [of _ ?o] exI [of _ ?m]) auto
qed

lemma prune_map:
  "prune r out m = (out @ map fst (filter (\<lambda>(k, l). fold remove1 r l = []) m),
     filter (\<lambda>(k, l). l \<noteq> []) (map (\<lambda>(k, l). (k, fold remove1 r l)) m))"
  by (induction r out m rule: prune.induct) (auto simp: Let_def)

lemma fold_remove1: "distinct l \<Longrightarrow> distinct (fold remove1 r l) \<and> set (fold remove1 r l) = set l - set r"
  by (induction r arbitrary: l) auto

lemma prune_of:
  "distinct (map fst m) \<Longrightarrow> map_of (filter (\<lambda>(k, l). l \<noteq> []) (map (\<lambda>(k, l). (k, f l)) m)) k =
     (case map_of m k of None \<Rightarrow> None | Some l \<Rightarrow> if f l = [] then None else Some (f l))"
proof (induction m)
  case (Cons c m)
  then have "fst c = k \<Longrightarrow> map_of m k = None" by (auto simp: map_of_eq_None_iff)
  with Cons show ?case by (cases c) (auto split: option.splits)
qed simp

lemma prune_subs:
  assumes ok: "sub_index_ok m" and p: "prune r out m = (out', m')"
  shows "sub_index_ok m' \<and> subs m' = (\<lambda>k. subs m k - set r) \<and> (\<exists>new. out' = out @ new \<and> set new = {k. subs m k \<noteq> {} \<and> subs m' k = {}})"
proof -
  let ?f = "fold remove1 r"
  have asc: "ascending (map fst m)" and dm: "distinct (map fst m)" using ok ascending_distinct by (auto simp: sub_index_ok_def)
  have m': "m' = filter (\<lambda>(k, l). l \<noteq> []) (map (\<lambda>(k, l). (k, ?f l)) m)" "out' = out @ map fst (filter (\<lambda>(k, l). ?f l = []) m)"
    using p by (auto simp: prune_map)
  note of_m' = prune_of [OF dm, of ?f, folded m'(1)]
  have l: "distinct l \<and> l \<noteq> []" if "map_of m k = Some l" for k l using ok that by (auto simp: sub_index_ok_def)
  have sub: "subs m' k = subs m k - set r" for k
    using fold_remove1 [of "the (map_of m k)" r] l [of k] by (auto simp: subs_def of_m' split: option.split)
  have "ascending (map fst m')" unfolding m'(1) using asc by (induction m) auto
  then have ok': "sub_index_ok m'" using fold_remove1 l by (auto simp: sub_index_ok_def of_m' split: option.splits if_splits)
  have "k \<in> fst ` set (filter (\<lambda>(k, l). ?f l = []) m) \<longleftrightarrow> subs m k \<noteq> {} \<and> subs m' k = {}" for k
  proof -
    have "k \<in> fst ` set (filter (\<lambda>(k, l). ?f l = []) m) \<longleftrightarrow> (\<exists>l. map_of m k = Some l \<and> ?f l = [])"
      using map_of_eq_Some_iff [OF dm] by force
    also have "\<dots> \<longleftrightarrow> map_of m k \<noteq> None \<and> map_of m' k = None" by (auto simp: of_m' split: option.split)
    finally show ?thesis using subs_empty [OF ok, of k] subs_empty [OF ok', of k] by simp
  qed
  then have "set (map fst (filter (\<lambda>(k, l). ?f l = []) m)) = {k. subs m k \<noteq> {} \<and> subs m' k = {}}" by auto
  with ok' sub m'(2) show ?thesis by blast
qed

text \<open>Registering a client for items.\<close>

lemma DataItemIndex_add_subs:
  "sub_index_ok m \<Longrightarrow> distinct l \<Longrightarrow> DataItemIndex_add c l out m = (out', m') \<Longrightarrow>
     sub_index_ok m' \<and> subs m' = (\<lambda>d. if d \<in> set l then insert c (subs m d) else subs m d) \<and> out' = out @ filter (\<lambda>d. subs m d = {}) l"
proof (induction l arbitrary: out m)
  case Nil
  then show ?case by (auto simp: fun_eq_iff)
next
  case (Cons x l)
  show ?case
  proof (cases "map_of m x")
    case None
    have p: "sub_index_ok (map_put x [c] m)" "subs (map_put x [c] m) = (subs m)(x := {c})" using sub_index_ok_put [OF Cons.prems(1), of "[c]" x] by auto
    have e: "subs m x = {}" using None by (simp add: subs_def)
    have f: "filter (\<lambda>d. subs (map_put x [c] m) d = {}) l = filter (\<lambda>d. subs m d = {}) l" using Cons.prems(2) p(2) by (auto intro!: filter_cong)
    from Cons.IH [OF p(1), of "out @ [x]"] Cons.prems None p(2) e f show ?thesis by (auto simp: fun_eq_iff)
  next
    case (Some cs)
    let ?m = "if c \<in> set cs then m else map_put x (cs @ [c]) m"
    have cs: "distinct cs" "cs \<noteq> []" "subs m x = set cs" using Some Cons.prems(1) by (auto simp: sub_index_ok_def subs_def)
    have p: "sub_index_ok ?m" "subs ?m = (subs m)(x := insert c (subs m x))"
      using sub_index_ok_put [OF Cons.prems(1), of "cs @ [c]" x] cs Cons.prems(1) by (auto simp: fun_eq_iff)
    have f: "filter (\<lambda>d. subs ?m d = {}) l = filter (\<lambda>d. subs m d = {}) l" using Cons.prems(2) p(2) by (auto intro!: filter_cong)
    have "sub_index_ok m' \<and> subs m' = (\<lambda>d. if d \<in> set l then insert c (subs ?m d) else subs ?m d) \<and> out' = out @ filter (\<lambda>d. subs m d = {}) l"
      using Cons.IH [OF p(1), of out] Cons.prems Some f by simp
    moreover have "x \<notin> set l" using Cons.prems(2) by simp
    ultimately show ?thesis unfolding p(2) using cs by (auto simp: fun_eq_iff)
  qed
qed

end
