(* ===== verification/OsObserver.thy ===== *)
theory OsObserver
  imports OsIndex
begin

text \<open>
  The observer of the operating system (\<open>gps/core/SystemStatusOsObserver.cpp\<close>): clients subscribe to data items, the observer subscribes at the framework on
  their behalf, keeps the latest value of every item, and passes new values on to the clients concerned.

  Every request is checked, packed into a message and handled later by the message task, in order. Clients and data item identifiers are numbers (addresses and
  enumerators). The data items of the framework are values of type \<open>'v\<close>; the library that creates and copies them is a parameter. The calls made to the framework and to
  the clients and to \<open>SystemStatus\<close> are recorded. Memory for messages is always available. \<open>None\<close>: a call through a null pointer.
\<close>

section \<open>Data\<close>

type_synonym client = nat
type_synonym data_id = nat

record 'v item_lib =
  can_create :: "data_id \<Rightarrow> bool"
  blank :: "data_id \<Rightarrow> 'v"
  item_copy :: "'v \<Rightarrow> 'v \<Rightarrow> int \<times> 'v \<times> bool"

datatype 'v os_msg =
    HandleSubscribeReq "data_id list" client | HandleUpdateSubscriptionReq "data_id list" client
  | HandleRequestData "data_id list" client | HandleUnsubscribeReq "data_id list" client
  | HandleUnsubscribeAllReq client | HandleNotify "(data_id \<times> 'v) list"
  | HandleTurnOnMsg data_id int | HandleTurnOffMsg data_id

datatype fw_call =
    Fw_subscribe "data_id list" | Fw_requestData "data_id list" | Fw_unsubscribe "data_id list"
  | Fw_turnOn data_id int | Fw_turnOff data_id

record 'v OsObserver =
  mSubscriptionObj :: bool
  mFrameworkActionReqObj :: bool
  mClientIndex :: "(client, data_id) index"
  mDataItemIndex :: "(data_id, client) index"
  mDataItemCache :: "(data_id \<times> 'v) list"
  mActiveRequestCount :: "(data_id \<times> int) list"
  mSubscribeReqCache :: "(client, data_id) index"
  mReqDataCache :: "(client, data_id) index"
  mMsgs :: "'v os_msg list"
  fw_calls :: "fw_call list"
  client_notes :: "(client \<times> (data_id \<times> 'v) list) list"
  status_notes :: "(data_id \<times> 'v) list"

definition new_OsObserver :: "'v OsObserver" where
  "new_OsObserver = \<lparr>mSubscriptionObj = False, mFrameworkActionReqObj = False, mClientIndex = [], mDataItemIndex = [], mDataItemCache = [],
     mActiveRequestCount = [], mSubscribeReqCache = [], mReqDataCache = [], mMsgs = [], fw_calls = [], client_notes = [], status_notes = []\<rparr>"

definition sendMsg_os :: "'v os_msg \<Rightarrow> 'v OsObserver \<Rightarrow> 'v OsObserver" where
  "sendMsg_os msg s = s\<lparr>mMsgs := mMsgs s @ [msg]\<rparr>"

definition tell_fw :: "fw_call \<Rightarrow> 'v OsObserver \<Rightarrow> 'v OsObserver" where
  "tell_fw call s = s\<lparr>fw_calls := fw_calls s @ [call]\<rparr>"

text \<open>A call of \<open>mContext.mSubscriptionObj\<close>.\<close>

definition tell_sub :: "fw_call \<Rightarrow> 'v OsObserver \<Rightarrow> 'v OsObserver option" where
  "tell_sub call s = (if mSubscriptionObj s then Some (tell_fw call s) else None)"

section \<open>Requests\<close>

definition cacheObserverRequest :: "(client, data_id) index \<Rightarrow> data_id list \<Rightarrow> client \<Rightarrow> (client, data_id) index" where
  "cacheObserverRequest reqCache l c =
     (case map_of reqCache c of
        Some cur \<Rightarrow>
          (let difference = set_difference l cur
           in if difference \<noteq> [] then map_put c (remdups_adj (list_merge cur (sort difference))) reqCache else reqCache)
      | None \<Rightarrow> map_put c l reqCache)"

definition subscribe :: "data_id list \<Rightarrow> client \<Rightarrow> 'v OsObserver \<Rightarrow> 'v OsObserver" where
  "subscribe l c s =
     (if \<not> mSubscriptionObj s then s\<lparr>mSubscribeReqCache := cacheObserverRequest (mSubscribeReqCache s) l c\<rparr>
      else sendMsg_os (HandleSubscribeReq l c) s)"

definition updateSubscription :: "data_id list \<Rightarrow> client \<Rightarrow> 'v OsObserver \<Rightarrow> 'v OsObserver" where
  "updateSubscription l c s = (if \<not> mSubscriptionObj s then s else sendMsg_os (HandleUpdateSubscriptionReq l c) s)"

definition requestData :: "data_id list \<Rightarrow> client \<Rightarrow> 'v OsObserver \<Rightarrow> 'v OsObserver" where
  "requestData l c s =
     (if \<not> mSubscriptionObj s then s\<lparr>mReqDataCache := cacheObserverRequest (mReqDataCache s) l c\<rparr>
      else sendMsg_os (HandleRequestData l c) s)"

definition unsubscribe :: "data_id list \<Rightarrow> client \<Rightarrow> 'v OsObserver \<Rightarrow> 'v OsObserver" where
  "unsubscribe l c s = (if \<not> mSubscriptionObj s then s else sendMsg_os (HandleUnsubscribeReq l c) s)"

definition unsubscribeAll :: "client \<Rightarrow> 'v OsObserver \<Rightarrow> 'v OsObserver" where
  "unsubscribeAll c s = (if \<not> mSubscriptionObj s then s else sendMsg_os (HandleUnsubscribeAllReq c) s)"

definition setSubscriptionObj :: "bool \<Rightarrow> 'v OsObserver \<Rightarrow> 'v OsObserver" where
  "setSubscriptionObj given s =
     (let s = s\<lparr>mSubscriptionObj := given\<rparr>;
          s = fold (\<lambda>(c, l). subscribe l c) (mSubscribeReqCache s) s
      in fold (\<lambda>(c, l). requestData l c) (mReqDataCache s) s)"

text \<open>The items are copied and reported to \<open>SystemStatus\<close>; one that cannot be created ends the call (and the copies made so far are lost).\<close>

fun notify_copy :: "'v item_lib \<Rightarrow> (data_id \<times> 'v) list \<Rightarrow> (data_id \<times> 'v) list \<Rightarrow> 'v OsObserver \<Rightarrow> (data_id \<times> 'v) list option \<times> 'v OsObserver" where
  "notify_copy E [] dataItemList s = (Some dataItemList, s)"
| "notify_copy E ((i, v) # dlist) dataItemList s =
     (if \<not> can_create E i then (None, s)
      else let di = (i, fst (snd (item_copy E (blank E i) v)))
           in notify_copy E dlist (dataItemList @ [di]) (s\<lparr>status_notes := status_notes s @ [di]\<rparr>))"

definition notify :: "'v item_lib \<Rightarrow> (data_id \<times> 'v) list \<Rightarrow> 'v OsObserver \<Rightarrow> 'v OsObserver" where
  "notify E dlist s =
     (let (copies, s) = notify_copy E dlist [] s
      in case copies of None \<Rightarrow> s | Some dataItemList \<Rightarrow> sendMsg_os (HandleNotify dataItemList) s)"

definition turnOn :: "data_id \<Rightarrow> int \<Rightarrow> 'v OsObserver \<Rightarrow> 'v OsObserver" where
  "turnOn dit timeOut s =
     (if \<not> mFrameworkActionReqObj s then s
      else case map_of (mActiveRequestCount s) dit of
             None \<Rightarrow> sendMsg_os (HandleTurnOnMsg dit timeOut) (s\<lparr>mActiveRequestCount := map_put dit 1 (mActiveRequestCount s)\<rparr>)
           | Some n \<Rightarrow> s\<lparr>mActiveRequestCount := map_put dit (n + 1) (mActiveRequestCount s)\<rparr>)"

definition turnOff :: "data_id \<Rightarrow> 'v OsObserver \<Rightarrow> 'v OsObserver" where
  "turnOff dit s =
     (if \<not> mFrameworkActionReqObj s then s
      else case map_of (mActiveRequestCount s) dit of
             None \<Rightarrow> s
           | Some n \<Rightarrow>
               if n - 1 = 0 then sendMsg_os (HandleTurnOffMsg dit) (s\<lparr>mActiveRequestCount := map_erase dit (mActiveRequestCount s)\<rparr>)
               else s\<lparr>mActiveRequestCount := map_put dit (n - 1) (mActiveRequestCount s)\<rparr>)"

section \<open>Helpers\<close>

definition sendFirstResponse :: "data_id list \<Rightarrow> client \<Rightarrow> 'v OsObserver \<Rightarrow> 'v OsObserver option" where
  "sendFirstResponse l c s =
     (if l = [] then Some s
      else if c = 0 then None
      else let dataItems = List.map_filter (\<lambda>i. map_option (Pair i) (map_of (mDataItemCache s) i)) l
           in Some (if dataItems = [] then s else s\<lparr>client_notes := client_notes s @ [(c, dataItems)]\<rparr>))"

text \<open>An item that is not cached would be a null pointer.\<close>

definition sendCachedDataItems :: "data_id list \<Rightarrow> client \<Rightarrow> 'v OsObserver \<Rightarrow> 'v OsObserver option" where
  "sendCachedDataItems l c s =
     (if c = 0 then None
      else do { items \<leftarrow> those (map (\<lambda>i. map_option (Pair i) (map_of (mDataItemCache s) i)) l);
                Some (s\<lparr>client_notes := client_notes s @ [(c, items)]\<rparr>) })"

text \<open>Result: \<open>dataItemUpdated\<close> (which the caller has set to false), and the cache.\<close>

definition updateCache :: "'v item_lib \<Rightarrow> data_id \<times> 'v \<Rightarrow> 'v OsObserver \<Rightarrow> bool \<times> 'v OsObserver" where
  "updateCache E d s =
     (case map_of (mDataItemCache s) (fst d) of
        None \<Rightarrow>
          if \<not> can_create E (fst d) then (False, s)
          else (True, s\<lparr>mDataItemCache := map_put (fst d) (fst (snd (item_copy E (blank E (fst d)) (snd d)))) (mDataItemCache s)\<rparr>)
      | Some cur \<Rightarrow>
          (let (ret, v, updated) = item_copy E cur (snd d)
           in (updated, s\<lparr>mDataItemCache := map_put (fst d) v (mDataItemCache s)\<rparr>)))"

section \<open>Handling messages\<close>

fun update_loop :: "'v item_lib \<Rightarrow> (data_id \<times> 'v) list \<Rightarrow> 'v OsObserver \<Rightarrow> data_id list \<times> 'v OsObserver" where
  "update_loop E [] s = ([], s)"
| "update_loop E (d # ds) s =
     (let (updated, s) = updateCache E d s; (ids, s) = update_loop E ds s in (if updated then fst d # ids else ids, s))"

fun notify_loop :: "data_id list \<Rightarrow> client list \<Rightarrow> 'v OsObserver \<Rightarrow> 'v OsObserver option" where
  "notify_loop ids [] s = Some s"
| "notify_loop ids (c # cs) s =
     do { let mine = sort (getSubscribedList c [] (mClientIndex s));
          s \<leftarrow> sendCachedDataItems (set_intersection (sort ids) mine) c s;
          notify_loop ids cs s }"

definition proc_notify :: "'v item_lib \<Rightarrow> (data_id \<times> 'v) list \<Rightarrow> 'v OsObserver \<Rightarrow> 'v OsObserver option" where
  "proc_notify E mDList s =
     (let (ids, s) = update_loop E mDList s;
          clientList = remdups_adj (concat (map (\<lambda>i. getListOfSubscribedClients i [] (mDataItemIndex s)) ids))
      in notify_loop ids clientList s)"

definition proc_subscribe :: "data_id list \<Rightarrow> client \<Rightarrow> 'v OsObserver \<Rightarrow> 'v OsObserver option" where
  "proc_subscribe l c s =
     (if l = [] then Some s
      else do {
        let (pending, ci) = ClientIndex_add c l [] (mClientIndex s);
        s \<leftarrow> sendFirstResponse l c (s\<lparr>mClientIndex := ci\<rparr>);
        let (yet, di) = DataItemIndex_add c l [] (mDataItemIndex s);
        let s = s\<lparr>mDataItemIndex := di\<rparr>;
        if yet \<noteq> [] then tell_sub (Fw_subscribe yet) s else Some s })"

definition proc_update :: "data_id list \<Rightarrow> client \<Rightarrow> 'v OsObserver \<Rightarrow> 'v OsObserver option" where
  "proc_update l c s =
     (if l = [] then Some s
      else do {
        let current = getSubscribedList c [] (mClientIndex s);
        let removed = set_difference current l;
        let (pending, ci) = ClientIndex_add c l [] (mClientIndex s);
        s \<leftarrow> sendFirstResponse pending c (s\<lparr>mClientIndex := ci\<rparr>);
        let (yet, di) = DataItemIndex_add c l [] (mDataItemIndex s);
        let s = s\<lparr>mDataItemIndex := di\<rparr>;
        s \<leftarrow> (if yet \<noteq> [] then tell_sub (Fw_subscribe yet) s else Some s);
        (unused, ci) \<leftarrow> ClientIndex_remove c removed [] (mClientIndex s);
        let s = s\<lparr>mClientIndex := ci\<rparr>;
        let (gone, di) = (if \<not> isSubscribedClient c (mClientIndex s) then DataItemIndex_remove_clients [c] [] (mDataItemIndex s)
                          else ([], mDataItemIndex s));
        let s = s\<lparr>mDataItemIndex := di\<rparr>;
        if gone \<noteq> [] then tell_sub (Fw_unsubscribe gone) s else Some s })"

definition proc_request :: "data_id list \<Rightarrow> client \<Rightarrow> 'v OsObserver \<Rightarrow> 'v OsObserver option" where
  "proc_request l c s =
     (if l = [] then Some s
      else let (yet, ci) = ClientIndex_add c l [] (mClientIndex s);
               (yet, di) = DataItemIndex_add c l yet (mDataItemIndex s)
           in tell_sub (Fw_requestData l) (s\<lparr>mClientIndex := ci, mDataItemIndex := di\<rparr>))"

fun unsubscribe_loop :: "client \<Rightarrow> data_id list \<Rightarrow> (data_id, client) index \<Rightarrow> (data_id list \<times> (data_id, client) index) option" where
  "unsubscribe_loop c [] di = Some ([], di)"
| "unsubscribe_loop c (x # l) di =
     do { (out, di) \<leftarrow> DataItemIndex_remove x [c] [] di;
          let clients = getListOfSubscribedClients x [] di;
          (gone, di) \<leftarrow> unsubscribe_loop c l di;
          Some (if clients = [] then x # gone else gone, di) }"

definition proc_unsubscribe :: "data_id list \<Rightarrow> client \<Rightarrow> 'v OsObserver \<Rightarrow> 'v OsObserver option" where
  "proc_unsubscribe l c s =
     (if l = [] then Some s
      else do {
        (unused, ci) \<leftarrow> ClientIndex_remove c l [] (mClientIndex s);
        (gone, di) \<leftarrow> unsubscribe_loop c l (mDataItemIndex s);
        let s = s\<lparr>mClientIndex := ci, mDataItemIndex := di\<rparr>;
        if gone \<noteq> [] then tell_sub (Fw_unsubscribe gone) s else Some s })"

definition proc_unsubscribe_all :: "client \<Rightarrow> 'v OsObserver \<Rightarrow> 'v OsObserver option" where
  "proc_unsubscribe_all c s =
     (let (ret, ci) = ClientIndex_remove_client c (mClientIndex s);
          s = s\<lparr>mClientIndex := ci\<rparr>
      in if ret = 0 then Some s
         else let (gone, di) = DataItemIndex_remove_clients [c] [] (mDataItemIndex s);
                  s = s\<lparr>mDataItemIndex := di\<rparr>
              in if gone \<noteq> [] then tell_sub (Fw_unsubscribe gone) s else Some s)"

text \<open>The message to turn a module on was given the observer itself as the framework.\<close>

fun os_proc :: "'v item_lib \<Rightarrow> 'v os_msg \<Rightarrow> 'v OsObserver \<Rightarrow> 'v OsObserver option" where
  "os_proc E (HandleSubscribeReq l c) s = proc_subscribe l c s"
| "os_proc E (HandleUpdateSubscriptionReq l c) s = proc_update l c s"
| "os_proc E (HandleRequestData l c) s = proc_request l c s"
| "os_proc E (HandleUnsubscribeReq l c) s = proc_unsubscribe l c s"
| "os_proc E (HandleUnsubscribeAllReq c) s = proc_unsubscribe_all c s"
| "os_proc E (HandleNotify ds) s = proc_notify E ds s"
| "os_proc E (HandleTurnOnMsg dit timeOut) s = Some (turnOn dit timeOut s)"
| "os_proc E (HandleTurnOffMsg dit) s = Some (tell_fw (Fw_turnOff dit) s)"

section \<open>Runs\<close>

datatype 'v os_event =
    E_subscribe "data_id list" client | E_update "data_id list" client | E_request "data_id list" client
  | E_unsubscribe "data_id list" client | E_unsubscribe_all client | E_notify "(data_id \<times> 'v) list"
  | E_turnOn data_id int | E_turnOff data_id | E_set_subscription bool | E_set_framework bool | E_process

text \<open>Result: the messages handled (at most one), and the observer.\<close>

fun os_exec :: "'v item_lib \<Rightarrow> 'v OsObserver \<Rightarrow> 'v os_event \<Rightarrow> ('v os_msg list \<times> 'v OsObserver) option" where
  "os_exec E s (E_subscribe l c) = Some ([], subscribe l c s)"
| "os_exec E s (E_update l c) = Some ([], updateSubscription l c s)"
| "os_exec E s (E_request l c) = Some ([], requestData l c s)"
| "os_exec E s (E_unsubscribe l c) = Some ([], unsubscribe l c s)"
| "os_exec E s (E_unsubscribe_all c) = Some ([], unsubscribeAll c s)"
| "os_exec E s (E_notify ds) = Some ([], notify E ds s)"
| "os_exec E s (E_turnOn d t) = Some ([], turnOn d t s)"
| "os_exec E s (E_turnOff d) = Some ([], turnOff d s)"
| "os_exec E s (E_set_subscription b) = Some ([], setSubscriptionObj b s)"
| "os_exec E s (E_set_framework b) = Some ([], s\<lparr>mFrameworkActionReqObj := b\<rparr>)"
| "os_exec E s E_process =
     (case mMsgs s of [] \<Rightarrow> Some ([], s) | m # ms \<Rightarrow> map_option (Pair [m]) (os_proc E m (s\<lparr>mMsgs := ms\<rparr>)))"

fun os_run :: "'v item_lib \<Rightarrow> 'v OsObserver \<Rightarrow> 'v os_event list \<Rightarrow> ('v os_msg list \<times> 'v OsObserver) option" where
  "os_run E s [] = Some ([], s)"
| "os_run E s (x # xs) = do { (ds, s) \<leftarrow> os_exec E s x; (ds', s) \<leftarrow> os_run E s xs; Some (ds @ ds', s) }"

text \<open>Clients that subscribe pass themselves (the interface has a null pointer as default) and lists of identifiers in ascending order; the subscription object is not taken back.\<close>

fun os_event_ok :: "'v os_event \<Rightarrow> bool" where
  "os_event_ok (E_subscribe l c) = (c \<noteq> 0 \<and> ascending l)"
| "os_event_ok (E_update l c) = (c \<noteq> 0 \<and> ascending l)"
| "os_event_ok (E_request l c) = (c \<noteq> 0 \<and> ascending l)"
| "os_event_ok (E_unsubscribe l c) = ascending l"
| "os_event_ok (E_set_subscription b) = b"
| "os_event_ok x = True"

fun msg_ok :: "'v os_msg \<Rightarrow> bool" where
  "msg_ok (HandleSubscribeReq l c) = (c \<noteq> 0 \<and> ascending l)"
| "msg_ok (HandleUpdateSubscriptionReq l c) = (c \<noteq> 0 \<and> ascending l)"
| "msg_ok (HandleRequestData l c) = (c \<noteq> 0 \<and> ascending l)"
| "msg_ok (HandleUnsubscribeReq l c) = ascending l"
| "msg_ok x = True"

fun to_framework :: "'v os_msg \<Rightarrow> bool" where
  "to_framework (HandleNotify ds) = False"
| "to_framework (HandleTurnOnMsg d t) = False"
| "to_framework (HandleTurnOffMsg d) = False"
| "to_framework x = True"

section \<open>What the interface promises\<close>

text \<open>The documented effect of a request on the items every client is subscribed to (\<open>IDataItemSubscription.h\<close>); a request for data subscribes, too. Empty lists
  are ignored.\<close>

fun sub_spec :: "'v os_msg \<Rightarrow> (client \<Rightarrow> data_id set) \<Rightarrow> client \<Rightarrow> data_id set" where
  "sub_spec (HandleSubscribeReq l c) S = S(c := S c \<union> set l)"
| "sub_spec (HandleUpdateSubscriptionReq l c) S = (if l = [] then S else S(c := set l))"
| "sub_spec (HandleRequestData l c) S = S(c := S c \<union> set l)"
| "sub_spec (HandleUnsubscribeReq l c) S = S(c := S c - set l)"
| "sub_spec (HandleUnsubscribeAllReq c) S = S(c := {})"
| "sub_spec x S = S"

text \<open>The items that the framework has been asked to report, and those it has been asked for once.\<close>

fun fw_subscribed :: "fw_call list \<Rightarrow> data_id set" where
  "fw_subscribed [] = {}"
| "fw_subscribed (Fw_subscribe l # cs) = fw_subscribed cs \<union> set l"
| "fw_subscribed (Fw_unsubscribe l # cs) = fw_subscribed cs - set l"
| "fw_subscribed (_ # cs) = fw_subscribed cs"

definition fw_asked :: "fw_call list \<Rightarrow> data_id set" where
  "fw_asked cs = \<Union> {set l | l. Fw_requestData l \<in> set cs}"

text \<open>\<open>fw_subscribed\<close> reads the calls from the latest to the first.\<close>

definition os_inv :: "'v OsObserver \<Rightarrow> bool" where
  "os_inv s \<longleftrightarrow>
     sub_index_ok (mClientIndex s) \<and> ascending_lists (mClientIndex s) \<and> sub_index_ok (mDataItemIndex s) \<and>
     (\<forall>c d. d \<in> subs (mClientIndex s) c \<longrightarrow> c \<in> subs (mDataItemIndex s) d) \<and>
     fw_subscribed (rev (fw_calls s)) \<subseteq> {d. subs (mDataItemIndex s) d \<noteq> {}} \<and>
     {d. subs (mDataItemIndex s) d \<noteq> {}} \<subseteq> fw_subscribed (rev (fw_calls s)) \<union> fw_asked (fw_calls s) \<and>
     (\<forall>d. 0 \<notin> subs (mDataItemIndex s) d)"

definition cache_ok :: "(client, data_id) index \<Rightarrow> bool" where
  "cache_ok m \<longleftrightarrow> ascending (map fst m) \<and> (\<forall>(c, l) \<in> set m. c \<noteq> 0 \<and> ascending l)"

definition queues_ok :: "'v OsObserver \<Rightarrow> bool" where
  "queues_ok s \<longleftrightarrow> list_all msg_ok (mMsgs s) \<and> (list_ex to_framework (mMsgs s) \<longrightarrow> mSubscriptionObj s) \<and> cache_ok (mSubscribeReqCache s) \<and> cache_ok (mReqDataCache s)"

lemma fw_subscribed_snoc [simp]:
  "fw_subscribed (rev (fw_calls (tell_fw (Fw_subscribe l) s))) = fw_subscribed (rev (fw_calls s)) \<union> set l"
  "fw_subscribed (rev (fw_calls (tell_fw (Fw_unsubscribe l) s))) = fw_subscribed (rev (fw_calls s)) - set l"
  "fw_subscribed (rev (fw_calls (tell_fw (Fw_requestData l) s))) = fw_subscribed (rev (fw_calls s))"
  "fw_subscribed (rev (fw_calls (tell_fw (Fw_turnOff d) s))) = fw_subscribed (rev (fw_calls s))"
  by (simp_all add: tell_fw_def)

lemma fw_asked_snoc [simp]:
  "fw_asked (fw_calls (tell_fw (Fw_subscribe l) s)) = fw_asked (fw_calls s)"
  "fw_asked (fw_calls (tell_fw (Fw_unsubscribe l) s)) = fw_asked (fw_calls s)"
  "fw_asked (fw_calls (tell_fw (Fw_turnOff d) s)) = fw_asked (fw_calls s)"
  "fw_asked (fw_calls (tell_fw (Fw_requestData l) s)) = fw_asked (fw_calls s) \<union> set l"
  by (auto simp: tell_fw_def fw_asked_def)

lemma tell_fw_fields [simp]:
  "mClientIndex (tell_fw x s) = mClientIndex s" "mDataItemIndex (tell_fw x s) = mDataItemIndex s" "mMsgs (tell_fw x s) = mMsgs s"
  "mSubscribeReqCache (tell_fw x s) = mSubscribeReqCache s" "mReqDataCache (tell_fw x s) = mReqDataCache s"
  "mSubscriptionObj (tell_fw x s) = mSubscriptionObj s"
  by (simp_all add: tell_fw_def)

lemma first_response: "c \<noteq> 0 \<Longrightarrow> \<exists>ns. sendFirstResponse l c s = Some (s\<lparr>client_notes := ns\<rparr>)"
  by (cases "l = []"; cases "List.map_filter (\<lambda>i. map_option (Pair i) (map_of (mDataItemCache s) i)) l = []")
    (auto simp: sendFirstResponse_def Let_def intro: exI [of _ "client_notes s"])

text \<open>The state that the invariant is about, and the part that holds the waiting requests.\<close>

definition same_core :: "'v OsObserver \<Rightarrow> 'v OsObserver \<Rightarrow> bool" where
  "same_core s s' \<longleftrightarrow> mClientIndex s' = mClientIndex s \<and> mDataItemIndex s' = mDataItemIndex s \<and> fw_calls s' = fw_calls s"

definition same_queues :: "'v OsObserver \<Rightarrow> 'v OsObserver \<Rightarrow> bool" where
  "same_queues s s' \<longleftrightarrow> mSubscriptionObj s' = mSubscriptionObj s \<and> mMsgs s' = mMsgs s \<and> mSubscribeReqCache s' = mSubscribeReqCache s \<and> mReqDataCache s' = mReqDataCache s"

lemma os_inv_core: "same_core s s' \<Longrightarrow> os_inv s' = os_inv s"
  by (simp add: os_inv_def same_core_def)

lemma queues_ok_same: "same_queues s s' \<Longrightarrow> queues_ok s' = queues_ok s"
  by (simp add: queues_ok_def same_queues_def)

text \<open>The handlers.\<close>

lemma subscribe_core:
  assumes inv: "os_inv s" and l: "ascending l" "l \<noteq> []"
    and ci: "ClientIndex_add c l out (mClientIndex s) = (out', ci)" and di: "DataItemIndex_add c l o2 (mDataItemIndex s) = (yet, di)"
  shows "sub_index_ok ci \<and> ascending_lists ci \<and> sub_index_ok di \<and> subs ci = (subs (mClientIndex s))(c := subs (mClientIndex s) c \<union> set l) \<and>
    (\<forall>c d. d \<in> subs ci c \<longrightarrow> c \<in> subs di d) \<and> subs di = (\<lambda>d. if d \<in> set l then insert c (subs (mDataItemIndex s) d) else subs (mDataItemIndex s) d) \<and>
    yet = o2 @ filter (\<lambda>d. subs (mDataItemIndex s) d = {}) l"
proof -
  have i: "sub_index_ok (mClientIndex s)" "ascending_lists (mClientIndex s)" "sub_index_ok (mDataItemIndex s)"
    "\<forall>c d. d \<in> subs (mClientIndex s) c \<longrightarrow> c \<in> subs (mDataItemIndex s) d" using inv by (auto simp: os_inv_def)
  note a = ClientIndex_add_subs [OF i(1,2) l ci] and b = DataItemIndex_add_subs [OF i(3) ascending_distinct [OF l(1)] di]
  have "c' \<in> subs di d" if "d \<in> subs ci c'" for c' d using that i(4) a b by (auto split: if_splits)
  with a b show ?thesis by blast
qed

lemma proc_subscribe_inv:
  assumes inv: "os_inv s" and c: "c \<noteq> 0" and l: "ascending l" and obj: "mSubscriptionObj s"
  shows "\<exists>s'. proc_subscribe l c s = Some s' \<and> os_inv s' \<and> same_queues s s' \<and>
    subs (mClientIndex s') = (subs (mClientIndex s))(c := subs (mClientIndex s) c \<union> set l)"
proof (cases "l = []")
  case True
  then show ?thesis using inv by (simp add: proc_subscribe_def same_queues_def fun_eq_iff)
next
  case False
  obtain pending ci where ci: "ClientIndex_add c l [] (mClientIndex s) = (pending, ci)" by fastforce
  obtain yet di where di: "DataItemIndex_add c l [] (mDataItemIndex s) = (yet, di)" by fastforce
  note k = subscribe_core [OF inv l False ci di]
  have fw: "fw_subscribed (rev (fw_calls s)) \<subseteq> {d. subs (mDataItemIndex s) d \<noteq> {}}"
    "{d. subs (mDataItemIndex s) d \<noteq> {}} \<subseteq> fw_subscribed (rev (fw_calls s)) \<union> fw_asked (fw_calls s)"
    "\<forall>d. 0 \<notin> subs (mDataItemIndex s) d" using inv by (auto simp: os_inv_def)
  from first_response [OF c, of l "s\<lparr>mClientIndex := ci\<rparr>"] obtain ns where
    ns: "sendFirstResponse l c (s\<lparr>mClientIndex := ci\<rparr>) = Some (s\<lparr>mClientIndex := ci, client_notes := ns\<rparr>)" by auto
  let ?s1 = "s\<lparr>mClientIndex := ci, client_notes := ns, mDataItemIndex := di\<rparr>"
  let ?s = "if yet \<noteq> [] then tell_fw (Fw_subscribe yet) ?s1 else ?s1"
  have p: "proc_subscribe l c s = Some ?s" using False ci di obj ns by (simp add: proc_subscribe_def tell_sub_def Let_def)
  have s': "mClientIndex ?s = ci" "mDataItemIndex ?s = di" "fw_asked (fw_calls ?s) = fw_asked (fw_calls s)"
    "fw_subscribed (rev (fw_calls ?s)) = fw_subscribed (rev (fw_calls s)) \<union> set yet" "same_queues s ?s"
    by (auto simp: same_queues_def)
  have "set yet = {d \<in> set l. subs (mDataItemIndex s) d = {}}" using k by auto
  then have "fw_subscribed (rev (fw_calls ?s)) \<subseteq> {d. subs di d \<noteq> {}}" "{d. subs di d \<noteq> {}} \<subseteq> fw_subscribed (rev (fw_calls ?s)) \<union> fw_asked (fw_calls ?s)"
    unfolding s'(3,4) using k fw(1,2) by (auto split: if_splits)
  moreover have "\<forall>d. 0 \<notin> subs di d" using k fw(3) c by auto
  ultimately have "os_inv ?s" unfolding os_inv_def s'(1,2) using k by blast
  then show ?thesis using p s'(1,5) k by (intro exI [of _ ?s]) simp
qed

lemma proc_request_inv:
  assumes inv: "os_inv s" and c: "c \<noteq> 0" and l: "ascending l" and obj: "mSubscriptionObj s"
  shows "\<exists>s'. proc_request l c s = Some s' \<and> os_inv s' \<and> same_queues s s' \<and>
    subs (mClientIndex s') = (subs (mClientIndex s))(c := subs (mClientIndex s) c \<union> set l)"
proof (cases "l = []")
  case True
  then show ?thesis using inv by (simp add: proc_request_def same_queues_def fun_eq_iff)
next
  case False
  obtain o1 ci where ci: "ClientIndex_add c l [] (mClientIndex s) = (o1, ci)" by fastforce
  obtain yet di where di: "DataItemIndex_add c l o1 (mDataItemIndex s) = (yet, di)" by fastforce
  note k = subscribe_core [OF inv l False ci di]
  have fw: "fw_subscribed (rev (fw_calls s)) \<subseteq> {d. subs (mDataItemIndex s) d \<noteq> {}}"
    "{d. subs (mDataItemIndex s) d \<noteq> {}} \<subseteq> fw_subscribed (rev (fw_calls s)) \<union> fw_asked (fw_calls s)"
    "\<forall>d. 0 \<notin> subs (mDataItemIndex s) d" using inv by (auto simp: os_inv_def)
  let ?s = "tell_fw (Fw_requestData l) (s\<lparr>mClientIndex := ci, mDataItemIndex := di\<rparr>)"
  have p: "proc_request l c s = Some ?s" using False ci di obj by (simp add: proc_request_def tell_sub_def Let_def)
  have s': "mClientIndex ?s = ci" "mDataItemIndex ?s = di" "fw_asked (fw_calls ?s) = fw_asked (fw_calls s) \<union> set l"
    "fw_subscribed (rev (fw_calls ?s)) = fw_subscribed (rev (fw_calls s))" "same_queues s ?s"
    by (simp_all add: same_queues_def)
  have "fw_subscribed (rev (fw_calls ?s)) \<subseteq> {d. subs di d \<noteq> {}}" "{d. subs di d \<noteq> {}} \<subseteq> fw_subscribed (rev (fw_calls ?s)) \<union> fw_asked (fw_calls ?s)"
    unfolding s'(3,4) using k fw(1,2) by (auto split: if_splits)
  moreover have "\<forall>d. 0 \<notin> subs di d" using k fw(3) c by auto
  ultimately have "os_inv ?s" unfolding os_inv_def s'(1,2) using k by blast
  then show ?thesis using p s'(1,5) k by (intro exI [of _ ?s]) simp
qed

lemma ClientIndex_remove_subs:
  assumes m: "sub_index_ok m" "ascending_lists m" and r: "ascending r"
  shows "\<exists>out m'. ClientIndex_remove c r [] m = Some (out, m') \<and> sub_index_ok m' \<and> ascending_lists m' \<and> subs m' = (subs m)(c := subs m c - set r)"
proof -
  from remove_values_subs [OF m(1) ascending_distinct [OF r], of c] m(2) r obtain out m' where
    a: "remove_values c r [] m = Some (out, m')" "sub_index_ok m'" "ascending_lists m'" "subs m' = (subs m)(c := subs m c - set out)" "set out = subs m c \<inter> set r"
    by blast
  have "subs m c - set out = subs m c - set r" using a(5) by blast
  with a show ?thesis by (auto simp: ClientIndex_remove_def)
qed

lemma DataItemIndex_remove_subs:
  assumes "sub_index_ok m"
  shows "\<exists>out m'. DataItemIndex_remove d [c] [] m = Some (out, m') \<and> sub_index_ok m' \<and> subs m' d \<subseteq> subs m d \<and> subs m d - {c} \<subseteq> subs m' d \<and>
    (\<forall>e. e \<noteq> d \<longrightarrow> subs m' e = subs m e)"
proof -
  from remove_values_subs [OF assms, of "[c]" d] obtain out m' where
    a: "remove_values d [c] [] m = Some (out, m')" "sub_index_ok m'" "set out \<subseteq> set [c]" "subs m' = (subs m)(d := subs m d - set out)" by auto
  then have "subs m' d \<subseteq> subs m d" "subs m d - {c} \<subseteq> subs m' d" "\<forall>e. e \<noteq> d \<longrightarrow> subs m' e = subs m e" by auto
  with a(1,2) show ?thesis by (auto simp: DataItemIndex_remove_def)
qed

lemma unsubscribe_loop_ok:
  "sub_index_ok di \<Longrightarrow> \<exists>gone di'. unsubscribe_loop c l di = Some (gone, di') \<and> sub_index_ok di' \<and>
     (\<forall>d. subs di' d \<subseteq> subs di d \<and> subs di d - {c} \<subseteq> subs di' d \<and> (d \<notin> set l \<longrightarrow> subs di' d = subs di d)) \<and>
     (distinct l \<longrightarrow> set gone = {d \<in> set l. subs di' d = {}})"
proof (induction l arbitrary: di)
  case (Cons x l)
  obtain out di1 where r: "DataItemIndex_remove x [c] [] di = Some (out, di1)" "sub_index_ok di1" "subs di1 x \<subseteq> subs di x" "subs di x - {c} \<subseteq> subs di1 x"
      "\<And>e. e \<noteq> x \<Longrightarrow> subs di1 e = subs di e"
    using DataItemIndex_remove_subs [OF Cons.prems, of x c] by blast
  obtain gone di' where g: "unsubscribe_loop c l di1 = Some (gone, di')" "sub_index_ok di'"
      "\<And>d. subs di' d \<subseteq> subs di1 d \<and> subs di1 d - {c} \<subseteq> subs di' d \<and> (d \<notin> set l \<longrightarrow> subs di' d = subs di1 d)"
      "distinct l \<longrightarrow> set gone = {d \<in> set l. subs di' d = {}}" using Cons.IH [OF r(2)] by blast
  have cl: "getListOfSubscribedClients x [] di1 = [] \<longleftrightarrow> subs di1 x = {}"
    by (simp add: getListOfSubscribedClients_def subs_def split: option.split)
  have "subs di' d \<subseteq> subs di d \<and> subs di d - {c} \<subseteq> subs di' d \<and> (d \<notin> set (x # l) \<longrightarrow> subs di' d = subs di d)" for d
    using g(3) [of d] r(3,4) r(5) [of d] by (cases "d = x") auto
  moreover have "set (if getListOfSubscribedClients x [] di1 = [] then x # gone else gone) = {d \<in> set (x # l). subs di' d = {}}" if "distinct (x # l)"
    using that cl g(4) g(3) [of x] by auto
  ultimately show ?case using r(1) g(1,2) by (auto simp: Let_def)
qed simp

lemma proc_unsubscribe_inv:
  assumes inv: "os_inv s" and l: "ascending l" and obj: "mSubscriptionObj s"
  shows "\<exists>s'. proc_unsubscribe l c s = Some s' \<and> os_inv s' \<and> same_queues s s' \<and>
    subs (mClientIndex s') = (subs (mClientIndex s))(c := subs (mClientIndex s) c - set l)"
proof (cases "l = []")
  case True
  then show ?thesis using inv by (auto simp: proc_unsubscribe_def same_queues_def fun_eq_iff)
next
  case False
  have i: "sub_index_ok (mClientIndex s)" "ascending_lists (mClientIndex s)" "sub_index_ok (mDataItemIndex s)"
    "\<forall>c d. d \<in> subs (mClientIndex s) c \<longrightarrow> c \<in> subs (mDataItemIndex s) d"
    "fw_subscribed (rev (fw_calls s)) \<subseteq> {d. subs (mDataItemIndex s) d \<noteq> {}}"
    "{d. subs (mDataItemIndex s) d \<noteq> {}} \<subseteq> fw_subscribed (rev (fw_calls s)) \<union> fw_asked (fw_calls s)"
    "\<forall>d. 0 \<notin> subs (mDataItemIndex s) d" using inv by (auto simp: os_inv_def)
  from ClientIndex_remove_subs [OF i(1,2) l, of c] obtain out ci where
    ci: "ClientIndex_remove c l [] (mClientIndex s) = Some (out, ci)" "sub_index_ok ci" "ascending_lists ci"
      "subs ci = (subs (mClientIndex s))(c := subs (mClientIndex s) c - set l)" by blast
  from unsubscribe_loop_ok [OF i(3), of c l] ascending_distinct [OF l] obtain gone di where
    di: "unsubscribe_loop c l (mDataItemIndex s) = Some (gone, di)" "sub_index_ok di" "set gone = {d \<in> set l. subs di d = {}}"
      "\<And>d. subs di d \<subseteq> subs (mDataItemIndex s) d \<and> subs (mDataItemIndex s) d - {c} \<subseteq> subs di d \<and> (d \<notin> set l \<longrightarrow> subs di d = subs (mDataItemIndex s) d)" by blast
  let ?s = "s\<lparr>mClientIndex := ci, mDataItemIndex := di\<rparr>"
  let ?t = "if gone \<noteq> [] then tell_fw (Fw_unsubscribe gone) ?s else ?s"
  have t: "proc_unsubscribe l c s = Some ?t" using False ci(1) di(1) obj by (simp add: proc_unsubscribe_def tell_sub_def)
  have f: "mClientIndex ?t = ci" "mDataItemIndex ?t = di" "same_queues s ?t" "fw_asked (fw_calls ?t) = fw_asked (fw_calls s)"
    "fw_subscribed (rev (fw_calls ?t)) = fw_subscribed (rev (fw_calls s)) - set gone" by (auto simp: same_queues_def)
  have "c' \<in> subs di d" if "d \<in> subs ci c'" for c' d
  proof (cases "c' = c")
    case True
    then have "d \<notin> set l" "d \<in> subs (mClientIndex s) c'" using that ci(4) by auto
    then show ?thesis using di(4) [of d] i(4) True by auto
  next
    case False
    then show ?thesis using that ci(4) di(4) [of d] i(4) by auto
  qed
  moreover have "fw_subscribed (rev (fw_calls s)) - set gone \<subseteq> {d. subs di d \<noteq> {}}"
  proof
    fix d assume d: "d \<in> fw_subscribed (rev (fw_calls s)) - set gone"
    then have "subs (mDataItemIndex s) d \<noteq> {}" using i(5) by blast
    then show "d \<in> {d. subs di d \<noteq> {}}" using d di(3) di(4) [of d] by auto
  qed
  moreover have "{d. subs di d \<noteq> {}} \<subseteq> fw_subscribed (rev (fw_calls s)) - set gone \<union> fw_asked (fw_calls s)"
  proof
    fix d assume d: "d \<in> {d. subs di d \<noteq> {}}"
    then have "subs (mDataItemIndex s) d \<noteq> {}" "d \<notin> set gone" using di(3) di(4) [of d] by auto
    then show "d \<in> fw_subscribed (rev (fw_calls s)) - set gone \<union> fw_asked (fw_calls s)" using i(6) by blast
  qed
  moreover have "\<forall>d. 0 \<notin> subs di d" using di(4) i(7) by blast
  ultimately have "os_inv ?t" unfolding os_inv_def f using ci(2,3) di(2) by blast
  then show ?thesis using t f(1,3) ci(4) by (intro exI [of _ ?t]) simp
qed

lemma os_inv_client_index:
  assumes "os_inv s" "sub_index_ok ci" "ascending_lists ci" "\<And>c. subs ci c \<subseteq> subs (mClientIndex s) c"
  shows "os_inv (s\<lparr>mClientIndex := ci\<rparr>)"
  using assms by (simp add: os_inv_def) blast

lemma proc_update_inv:
  assumes inv: "os_inv s" and c: "c \<noteq> 0" and l: "ascending l" and obj: "mSubscriptionObj s"
  shows "\<exists>s'. proc_update l c s = Some s' \<and> os_inv s' \<and> same_queues s s' \<and>
    subs (mClientIndex s') = (if l = [] then subs (mClientIndex s) else (subs (mClientIndex s))(c := set l))"
proof (cases "l = []")
  case True
  then show ?thesis using inv by (simp add: proc_update_def same_queues_def)
next
  case False
  let ?S = "subs (mClientIndex s) c"
  let ?cur = "getSubscribedList c [] (mClientIndex s)" let ?rem = "set_difference ?cur l"
  have cur: "ascending ?cur" "set ?cur = ?S"
    using inv by (auto simp: os_inv_def ascending_lists_def getSubscribedList_def subs_def split: option.split)
  have rem: "ascending ?rem" "set ?rem = ?S - set l" using set_difference_ascending [OF cur(1)] set_difference_set [OF cur(1) l] cur(2) by auto
  obtain pending ci where ci: "ClientIndex_add c l [] (mClientIndex s) = (pending, ci)" by fastforce
  obtain yet di where di: "DataItemIndex_add c l [] (mDataItemIndex s) = (yet, di)" by fastforce
  from first_response [OF c, of pending "s\<lparr>mClientIndex := ci\<rparr>"] obtain ns where
    ns: "sendFirstResponse pending c (s\<lparr>mClientIndex := ci\<rparr>) = Some (s\<lparr>mClientIndex := ci, client_notes := ns\<rparr>)" by auto
  from first_response [OF c, of l "s\<lparr>mClientIndex := ci\<rparr>"] obtain nl where
    nl: "sendFirstResponse l c (s\<lparr>mClientIndex := ci\<rparr>) = Some (s\<lparr>mClientIndex := ci, client_notes := nl\<rparr>)" by auto
  let ?s1 = "s\<lparr>mClientIndex := ci, client_notes := ns, mDataItemIndex := di\<rparr>"
  let ?s2 = "if yet \<noteq> [] then tell_fw (Fw_subscribe yet) ?s1 else ?s1"
  obtain t where t: "proc_subscribe l c s = Some t" "os_inv t" "subs (mClientIndex t) = (subs (mClientIndex s))(c := ?S \<union> set l)"
    using proc_subscribe_inv [OF inv c l obj] by blast
  have core: "same_core t ?s2" using t(1) False ci di obj nl by (auto simp: same_core_def proc_subscribe_def tell_sub_def tell_fw_def Let_def split: if_splits)
  have s2: "os_inv ?s2" "subs (mClientIndex ?s2) = (subs (mClientIndex s))(c := ?S \<union> set l)"
    using t(2,3) os_inv_core [OF core] core by (auto simp: same_core_def)
  have q2: "same_queues s ?s2" by (simp add: same_queues_def)
  have "sub_index_ok (mClientIndex ?s2)" "ascending_lists (mClientIndex ?s2)" using s2(1) by (auto simp: os_inv_def)
  from ClientIndex_remove_subs [OF this rem(1), of c] obtain out ci' where
    r: "ClientIndex_remove c ?rem [] (mClientIndex ?s2) = Some (out, ci')" "sub_index_ok ci'" "ascending_lists ci'"
      "subs ci' = (subs (mClientIndex ?s2))(c := subs (mClientIndex ?s2) c - set ?rem)" by blast
  have sub: "subs ci' = (subs (mClientIndex s))(c := set l)" unfolding r(4) s2(2) rem(2) by (auto simp: fun_eq_iff)
  then have "isSubscribedClient c ci'" using False subs_empty [OF r(2), of c] by (simp add: isSubscribedClient_def)
  then have p: "proc_update l c s = Some (?s2\<lparr>mClientIndex := ci'\<rparr>)"
    using False ci di r(1) obj ns by (cases "yet = []") (simp_all add: proc_update_def tell_sub_def Let_def)
  have "os_inv (?s2\<lparr>mClientIndex := ci'\<rparr>)" using os_inv_client_index [OF s2(1) r(2,3)] r(4) by auto
  then show ?thesis using p sub False q2 by (intro exI [of _ "?s2\<lparr>mClientIndex := ci'\<rparr>"]) (simp add: same_queues_def)
qed

lemma proc_unsubscribe_all_inv:
  assumes inv: "os_inv s"
  shows "\<exists>s'. proc_unsubscribe_all c s = Some s' \<and> os_inv s' \<and> same_queues s s' \<and> subs (mClientIndex s') = (subs (mClientIndex s))(c := {})"
proof -
  let ?s = "s\<lparr>mClientIndex := map_erase c (mClientIndex s)\<rparr>"
  have i: "sub_index_ok (mClientIndex s)" "ascending_lists (mClientIndex s)" using inv by (auto simp: os_inv_def)
  have "proc_unsubscribe_all c s = Some ?s" by (simp add: proc_unsubscribe_all_def ClientIndex_remove_client_def)
  moreover have "os_inv ?s" using os_inv_client_index [OF inv] sub_index_ok_erase [OF i(1), of c] ascending_lists_erase [OF i(2)] by auto
  ultimately show ?thesis using sub_index_ok_erase [OF i(1), of c] by (intro exI [of _ ?s]) (simp add: same_queues_def)
qed

text \<open>Passing values on changes only the cache of values and the notifications.\<close>

definition cached :: "'v OsObserver \<Rightarrow> data_id set" where
  "cached s = fst ` set (mDataItemCache s)"

lemma cached_put [simp]: "cached (s\<lparr>mDataItemCache := map_put k v (mDataItemCache s)\<rparr>) = insert k (cached s)" "cached (s\<lparr>client_notes := ns\<rparr>) = cached s"
  by (simp_all add: cached_def map_put_keys)

lemma updateCache_fields:
  "updateCache E d s = (upd, s') \<Longrightarrow> same_core s s' \<and> same_queues s s' \<and> client_notes s' = client_notes s \<and> cached s \<subseteq> cached s' \<and> (upd \<longrightarrow> fst d \<in> cached s')"
  by (auto simp: updateCache_def same_core_def same_queues_def Let_def split: option.splits if_splits prod.splits)

lemma update_loop_fields:
  "update_loop E ds s = (ids, s') \<Longrightarrow> same_core s s' \<and> same_queues s s' \<and> client_notes s' = client_notes s \<and> cached s \<subseteq> cached s' \<and> set ids \<subseteq> cached s'"
proof (induction ds arbitrary: s ids s')
  case (Cons d ds)
  obtain upd s1 where u: "updateCache E d s = (upd, s1)" by fastforce
  obtain ids1 s2 where l: "update_loop E ds s1 = (ids1, s2)" by fastforce
  show ?case using Cons.prems u l updateCache_fields [OF u] Cons.IH [OF l] by (auto simp: same_core_def same_queues_def split: if_splits)
qed (simp add: same_core_def same_queues_def)

text \<open>The items with these identifiers, as they are cached.\<close>

definition cached_items :: "'v OsObserver \<Rightarrow> data_id list \<Rightarrow> (data_id \<times> 'v) list" where
  "cached_items s l = map (\<lambda>i. (i, the (map_of (mDataItemCache s) i))) l"

lemma those_cached: "set l \<subseteq> cached s \<Longrightarrow> those (map (\<lambda>i. map_option (Pair i) (map_of (mDataItemCache s) i)) l) = Some (cached_items s l)"
proof (induction l)
  case (Cons i l)
  then obtain v where "map_of (mDataItemCache s) i = Some v" by (metis cached_def insert_subset list.simps(15) map_of_eq_None_iff not_Some_eq)
  with Cons show ?case by (simp add: cached_items_def)
qed (simp add: cached_items_def)

lemma cached_items_facts:
  assumes "set l \<subseteq> cached s"
  shows "map fst (cached_items s l) = l \<and> (\<forall>(i, v) \<in> set (cached_items s l). map_of (mDataItemCache s) i = Some v)"
proof -
  have "\<exists>v. map_of (mDataItemCache s) i = Some v" if "i \<in> set l" for i
    using assms that map_of_eq_None_iff [of "mDataItemCache s" i] by (auto simp: cached_def)
  then have "map_of (mDataItemCache s) i = Some (the (map_of (mDataItemCache s) i))" if "i \<in> set l" for i using that by fastforce
  then show ?thesis by (auto simp: cached_items_def comp_def)
qed

text \<open>What client \<open>c\<close> is sent when the items \<open>ids\<close> have new values.\<close>

definition news :: "'v OsObserver \<Rightarrow> data_id list \<Rightarrow> client \<Rightarrow> data_id list" where
  "news s ids c = set_intersection (sort ids) (sort (getSubscribedList c [] (mClientIndex s)))"

lemma notify_loop_result:
  "set ids \<subseteq> cached s \<Longrightarrow> 0 \<notin> set cs \<Longrightarrow> notify_loop ids cs s = Some (s\<lparr>client_notes := client_notes s @ map (\<lambda>c. (c, cached_items s (news s ids c))) cs\<rparr>)"
proof (induction cs arbitrary: s)
  case (Cons c cs)
  have "set (news s ids c) \<subseteq> cached s" using Cons.prems set_intersection_sub [of "sort ids"] by (fastforce simp: news_def)
  note th = those_cached [OF this]
  let ?s = "s\<lparr>client_notes := client_notes s @ [(c, cached_items s (news s ids c))]\<rparr>"
  have "notify_loop ids (c # cs) s = notify_loop ids cs ?s" using th Cons.prems(2) by (simp add: sendCachedDataItems_def news_def)
  also have "\<dots> = Some (?s\<lparr>client_notes := client_notes ?s @ map (\<lambda>c. (c, cached_items ?s (news ?s ids c))) cs\<rparr>)" using Cons by simp
  finally show ?case by (simp add: cached_items_def news_def)
qed simp

lemma proc_notify_result:
  assumes u: "update_loop E ds s = (ids, s1)" and n: "\<forall>d. 0 \<notin> subs (mDataItemIndex s) d"
  shows "proc_notify E ds s = Some (s1\<lparr>client_notes := client_notes s @
    map (\<lambda>c. (c, cached_items s1 (news s1 ids c))) (remdups_adj (concat (map (\<lambda>i. getListOfSubscribedClients i [] (mDataItemIndex s)) ids)))\<rparr>)"
proof -
  have "0 \<notin> set (getListOfSubscribedClients i [] (mDataItemIndex s))" for i
    using n [rule_format, of i] by (auto simp: getListOfSubscribedClients_def subs_def split: option.splits)
  then show ?thesis using notify_loop_result [of ids s1] update_loop_fields [OF u] u by (simp add: proc_notify_def same_core_def)
qed

section \<open>Every event keeps the invariant\<close>

lemma os_proc_inv:
  assumes inv: "os_inv s" and q: "queues_ok s" and m: "msg_ok m" and obj: "to_framework m \<Longrightarrow> mSubscriptionObj s"
  shows "\<exists>s'. os_proc E m s = Some s' \<and> os_inv s' \<and> queues_ok s' \<and> subs (mClientIndex s') = sub_spec m (subs (mClientIndex s))"
proof -
  have step: "\<exists>s'. p = Some s' \<and> os_inv s' \<and> queues_ok s' \<and> subs (mClientIndex s') = S"
    if "\<exists>s'. p = Some s' \<and> os_inv s' \<and> same_queues s s' \<and> subs (mClientIndex s') = S" for p S
    using that q queues_ok_same by blast
  show ?thesis
  proof (cases m)
    case (HandleSubscribeReq l c)
    then show ?thesis using step [OF proc_subscribe_inv [OF inv, of c l]] m obj by simp
  next
    case (HandleUpdateSubscriptionReq l c)
    then show ?thesis using step [OF proc_update_inv [OF inv, of c l]] m obj by simp
  next
    case (HandleRequestData l c)
    then show ?thesis using step [OF proc_request_inv [OF inv, of c l]] m obj by simp
  next
    case (HandleUnsubscribeReq l c)
    then show ?thesis using step [OF proc_unsubscribe_inv [OF inv, of l c]] m obj by simp
  next
    case (HandleUnsubscribeAllReq c)
    then show ?thesis using step [OF proc_unsubscribe_all_inv [OF inv, of c]] by simp
  next
    case (HandleNotify ds)
    obtain ids s1 where u: "update_loop E ds s = (ids, s1)" by fastforce
    let ?s = "s1\<lparr>client_notes := client_notes s @
      map (\<lambda>c. (c, cached_items s1 (news s1 ids c))) (remdups_adj (concat (map (\<lambda>i. getListOfSubscribedClients i [] (mDataItemIndex s)) ids)))\<rparr>"
    have "same_core s ?s" "same_queues s ?s" using update_loop_fields [OF u] by (simp_all add: same_core_def same_queues_def)
    moreover have "\<forall>d. 0 \<notin> subs (mDataItemIndex s) d" using inv by (simp add: os_inv_def)
    ultimately show ?thesis using HandleNotify proc_notify_result [OF u] os_inv_core [of s ?s] queues_ok_same [of s ?s] inv q by (auto simp: same_core_def)
  next
    case (HandleTurnOnMsg d t)
    have "same_core s (turnOn d t s)" by (simp add: same_core_def turnOn_def sendMsg_os_def split: option.split)
    moreover have "queues_ok (turnOn d t s)" using q by (simp add: queues_ok_def turnOn_def sendMsg_os_def split: option.split)
    ultimately show ?thesis using HandleTurnOnMsg inv os_inv_core [of s "turnOn d t s"] by (simp add: same_core_def)
  next
    case (HandleTurnOffMsg d)
    have "os_inv (tell_fw (Fw_turnOff d) s)" using inv by (simp add: os_inv_def)
    then show ?thesis using HandleTurnOffMsg q by (simp add: queues_ok_def)
  qed
qed

lemma map_put_set: "set (map_put k v m) \<subseteq> insert (k, v) (set m)"
  by (induction k v m rule: map_put.induct) auto

lemma cacheObserverRequest_ok: "cache_ok m \<Longrightarrow> c \<noteq> 0 \<Longrightarrow> ascending l \<Longrightarrow> cache_ok (cacheObserverRequest m l c)"
proof -
  assume m: "cache_ok m" and c: "c \<noteq> 0" and l: "ascending l"
  have put: "cache_ok (map_put c x m)" if "ascending x" for x
    using m c that map_put_set [of c x m] map_put_ascending [of m c x] by (fastforce simp: cache_ok_def)
  show ?thesis
  proof (cases "map_of m c")
    case None
    then show ?thesis using put [OF l] by (simp add: cacheObserverRequest_def)
  next
    case (Some cur)
    then have cur: "ascending cur" using m by (auto simp: cache_ok_def dest: map_of_SomeD)
    have d: "ascending (set_difference l cur)" "set (set_difference l cur) \<inter> set cur = {}"
      using set_difference_ascending [OF l] set_difference_set [OF l cur] by auto
    then have "ascending (list_merge cur (sort (set_difference l cur)))" using list_merge_ascending [OF cur d(1)] by (auto simp: ascending_sort)
    then have "ascending (remdups_adj (list_merge cur (sort (set_difference l cur))))" by (simp add: ascending_distinct remdups_adj_distinct)
    from put [OF this] m Some show ?thesis by (simp add: cacheObserverRequest_def Let_def)
  qed
qed

lemma requests_ok:
  assumes "queues_ok s" "ascending l"
  shows "c \<noteq> 0 \<Longrightarrow> queues_ok (subscribe l c s)" "c \<noteq> 0 \<Longrightarrow> queues_ok (requestData l c s)" "c \<noteq> 0 \<Longrightarrow> queues_ok (updateSubscription l c s)" "queues_ok (unsubscribe l c s)"
  using assms by (auto simp: queues_ok_def subscribe_def requestData_def updateSubscription_def unsubscribe_def sendMsg_os_def cacheObserverRequest_ok)

lemma notify_copy_fields: "\<exists>ns. snd (notify_copy E ds acc s) = s\<lparr>status_notes := ns\<rparr>"
proof (induction E ds acc s rule: notify_copy.induct)
  case (1 E acc s)
  show ?case by (intro exI [of _ "status_notes s"]) simp
next
  case (2 E i v ds acc s)
  show ?case
  proof (cases "can_create E i")
    case True
    with 2 show ?thesis by (fastforce simp: Let_def)
  next
    case False
    then show ?thesis by (intro exI [of _ "status_notes s"]) simp
  qed
qed

lemma notify_cases:
  obtains ns where "notify E ds s = s\<lparr>status_notes := ns\<rparr>" | ns l where "notify E ds s = sendMsg_os (HandleNotify l) (s\<lparr>status_notes := ns\<rparr>)"
proof -
  obtain r s' where n: "notify_copy E ds [] s = (r, s')" by fastforce
  then obtain ns where "s' = s\<lparr>status_notes := ns\<rparr>" using notify_copy_fields [of E ds "[]" s] by auto
  then show ?thesis using that n by (cases r) (auto simp: notify_def)
qed

lemma notify_ok: "queues_ok s \<Longrightarrow> queues_ok (notify E ds s)" and notify_core: "same_core s (notify E ds s)"
  by (cases rule: notify_cases [of E ds s]; simp add: queues_ok_def same_core_def sendMsg_os_def)+

lemma other_requests_ok:
  "queues_ok s \<Longrightarrow> queues_ok (unsubscribeAll c s)"
  "queues_ok s \<Longrightarrow> queues_ok (turnOn d t s)" "queues_ok s \<Longrightarrow> queues_ok (turnOff d s)"
  by (auto simp: queues_ok_def unsubscribeAll_def turnOn_def turnOff_def sendMsg_os_def split: option.split)

lemma requests_core [simp]:
  "same_core s (subscribe l c s)" "same_core s (requestData l c s)" "same_core s (updateSubscription l c s)" "same_core s (unsubscribe l c s)"
  "same_core s (unsubscribeAll c s)" "same_core s (notify E ds s)" "same_core s (turnOn d t s)" "same_core s (turnOff d s)"
  by (rule notify_core | simp add: same_core_def subscribe_def requestData_def updateSubscription_def unsubscribe_def unsubscribeAll_def turnOn_def turnOff_def
      sendMsg_os_def split: option.split)+

lemma replay_ok:
  assumes "\<And>c l s. queues_ok s \<Longrightarrow> ascending l \<Longrightarrow> c \<noteq> 0 \<Longrightarrow> queues_ok (f l c s)" and "\<And>c l s. same_core s (f l c s)"
  shows "queues_ok s \<Longrightarrow> \<forall>(c, l) \<in> set m. c \<noteq> 0 \<and> ascending l \<Longrightarrow> queues_ok (fold (\<lambda>(c, l). f l c) m s) \<and> same_core s (fold (\<lambda>(c, l). f l c) m s)"
proof (induction m arbitrary: s)
  case (Cons x m)
  obtain c l where x: "x = (c, l)" by fastforce
  from Cons.IH [of "f l c s"] Cons.prems x assms(1) [of s l c] assms(2) [of s l c] show ?case by (auto simp: same_core_def)
qed (simp add: same_core_def)

lemma setSubscriptionObj_ok: "queues_ok s \<Longrightarrow> queues_ok (setSubscriptionObj True s) \<and> same_core s (setSubscriptionObj True s)"
proof -
  assume q: "queues_ok s"
  let ?s0 = "s\<lparr>mSubscriptionObj := True\<rparr>"
  let ?s1 = "fold (\<lambda>(c, l). subscribe l c) (mSubscribeReqCache s) ?s0"
  have q0: "queues_ok ?s0" "same_core s ?s0" using q by (simp_all add: queues_ok_def same_core_def)
  have c: "\<forall>(c, l) \<in> set (mSubscribeReqCache s). c \<noteq> 0 \<and> ascending l" using q by (simp add: queues_ok_def cache_ok_def)
  have 1: "queues_ok ?s1" "same_core ?s0 ?s1" using replay_ok [of subscribe, OF requests_ok(1) requests_core(1) q0(1) c] by auto
  have "\<forall>(c, l) \<in> set (mReqDataCache ?s1). c \<noteq> 0 \<and> ascending l" using 1(1) by (simp add: queues_ok_def cache_ok_def)
  from replay_ok [of requestData, OF requests_ok(2) requests_core(2) 1(1) this] q0(2) 1(2) show ?thesis
    by (simp add: setSubscriptionObj_def Let_def same_core_def)
qed

lemma os_exec_inv:
  assumes inv: "os_inv s" and q: "queues_ok s" and x: "os_event_ok x"
  shows "\<exists>ds s'. os_exec E s x = Some (ds, s') \<and> os_inv s' \<and> queues_ok s' \<and> subs (mClientIndex s') = fold sub_spec ds (subs (mClientIndex s))"
proof -
  have core: "os_inv s' \<and> subs (mClientIndex s') = subs (mClientIndex s)" if "same_core s s'" for s'
    using that inv os_inv_core [OF that] by (simp add: same_core_def)
  show ?thesis
  proof (cases x)
    case E_process
    show ?thesis
    proof (cases "mMsgs s")
      case Nil
      then show ?thesis using E_process inv q by simp
    next
      case (Cons m ms)
      let ?s = "s\<lparr>mMsgs := ms\<rparr>"
      have "os_inv ?s" "queues_ok ?s" "msg_ok m" "to_framework m \<Longrightarrow> mSubscriptionObj ?s" using inv q Cons by (auto simp: os_inv_def queues_ok_def)
      from os_proc_inv [OF this, of E] show ?thesis using E_process Cons by auto
    qed
  next
    case (E_set_framework b)
    have "same_core s (s\<lparr>mFrameworkActionReqObj := b\<rparr>)" by (simp add: same_core_def)
    from core [OF this] q E_set_framework show ?thesis by (simp add: queues_ok_def)
  next
    case (E_set_subscription b)
    then show ?thesis using setSubscriptionObj_ok [OF q] core x by simp
  qed (use x core requests_core requests_ok [OF q] other_requests_ok [OF q] notify_ok [OF q] in simp_all)
qed

lemma os_run_inv:
  "os_inv s \<Longrightarrow> queues_ok s \<Longrightarrow> list_all os_event_ok xs \<Longrightarrow>
     \<exists>ds s'. os_run E s xs = Some (ds, s') \<and> os_inv s' \<and> subs (mClientIndex s') = fold sub_spec ds (subs (mClientIndex s))"
proof (induction xs arbitrary: s)
  case (Cons x xs)
  then obtain ds1 s1 where 1: "os_exec E s x = Some (ds1, s1)" "os_inv s1" "queues_ok s1" "subs (mClientIndex s1) = fold sub_spec ds1 (subs (mClientIndex s))"
    using os_exec_inv [of s x E] by auto
  with Cons obtain ds2 s2 where "os_run E s1 xs = Some (ds2, s2)" "os_inv s2" "subs (mClientIndex s2) = fold sub_spec ds2 (subs (mClientIndex s1))"
    by fastforce
  with 1 show ?case by simp
qed simp

lemma new_inv: "os_inv new_OsObserver" "queues_ok new_OsObserver" "subs (mClientIndex new_OsObserver) = (\<lambda>_. {})"
  by (simp_all add: os_inv_def queues_ok_def cache_ok_def new_OsObserver_def sub_index_ok_def ascending_lists_def subs_def fun_eq_iff)

lemma set_intersection_sorted: "sorted xs \<Longrightarrow> ascending ys \<Longrightarrow> set (set_intersection xs ys) = set xs \<inter> set ys"
proof (induction xs ys rule: set_intersection.induct)
  case (3 x xs y ys)
  show ?case
  proof (cases x y rule: linorder_cases)
    case equal
    have "set xs \<inter> set ys \<union> {x} = (set (x # xs) \<inter> set (y # ys))" using equal by auto
    moreover have "set (set_intersection xs ys) = set xs \<inter> set ys" using 3 equal by simp
    ultimately show ?thesis using equal by auto
  qed (use 3 in \<open>auto dest: order.strict_trans\<close>)
qed auto

lemma set_intersection_order: "ascending ys \<Longrightarrow> ascending (set_intersection xs ys)"
proof (induction xs ys rule: set_intersection.induct)
  case (3 x xs y ys)
  with set_intersection_sub [of xs ys] show ?case by auto
qed auto

lemma news_set:
  assumes "os_inv s"
  shows "ascending (news s ids c) \<and> set (news s ids c) = subs (mClientIndex s) c \<inter> set ids"
proof -
  let ?l = "getSubscribedList c [] (mClientIndex s)"
  have l: "ascending ?l" "set ?l = subs (mClientIndex s) c"
    using assms by (auto simp: os_inv_def ascending_lists_def getSubscribedList_def subs_def split: option.split)
  then show ?thesis using set_intersection_sorted [of "sort ids" ?l] set_intersection_order [of ?l] by (auto simp: news_def ascending_sort)
qed

lemma news_items:
  assumes "os_inv s" "set ids \<subseteq> cached s"
  shows "sorted (map fst (cached_items s (news s ids c))) \<and> distinct (map fst (cached_items s (news s ids c))) \<and>
    fst ` set (cached_items s (news s ids c)) = subs (mClientIndex s) c \<inter> set ids \<and>
    (\<forall>(i, v) \<in> set (cached_items s (news s ids c)). map_of (mDataItemCache s) i = Some v)"
proof -
  have n: "ascending (news s ids c)" "set (news s ids c) = subs (mClientIndex s) c \<inter> set ids" using news_set [OF assms(1)] by auto
  then have "set (news s ids c) \<subseteq> cached s" using assms(2) by blast
  note f = cached_items_facts [OF this]
  have "fst ` set (cached_items s (news s ids c)) = set (news s ids c)" using f by (metis set_map)
  then show ?thesis using f n by (simp add: ascending_distinct strict_sorted_imp_sorted)
qed

lemma map_put_same [simp]: "map_of (map_put k v m) k = Some v"
  by (induction k v m rule: map_put.induct) auto

text \<open>No call to turn a module on reaches the framework.\<close>

abbreviation no_turn_on :: "'v OsObserver \<Rightarrow> bool" where
  "no_turn_on s \<equiv> \<forall>d t. Fw_turnOn d t \<notin> set (fw_calls s)"

lemma tell_fw_no_turn_on: "no_turn_on s \<Longrightarrow> (\<And>d t. x \<noteq> Fw_turnOn d t) \<Longrightarrow> no_turn_on (tell_fw x s)"
  by (auto simp: tell_fw_def)

lemma replay_calls: "(\<And>c l s. fw_calls (f l c s) = fw_calls s) \<Longrightarrow> fw_calls (fold (\<lambda>(c, l). f l c) m s) = fw_calls s"
  by (induction m arbitrary: s) (auto split: prod.splits)

lemma setSubscriptionObj_calls: "fw_calls (setSubscriptionObj b s) = fw_calls s"
proof -
  have "fw_calls (subscribe l c t) = fw_calls t" "fw_calls (requestData l c t) = fw_calls t" for l c and t :: "'a OsObserver"
    using requests_core(1) [of t l c] requests_core(2) [of t l c] by (simp_all add: same_core_def)
  then show ?thesis by (simp add: setSubscriptionObj_def Let_def replay_calls)
qed

lemma notify_loop_calls: "notify_loop ids cs s = Some s' \<Longrightarrow> fw_calls s' = fw_calls s"
  by (induction cs arbitrary: s) (auto simp: sendCachedDataItems_def Let_def split: Option.bind_splits if_splits)

lemma first_response_calls: "sendFirstResponse l c s = Some s' \<Longrightarrow> fw_calls s' = fw_calls s"
  by (auto simp: sendFirstResponse_def Let_def split: if_splits)

lemma os_proc_no_turn_on: "no_turn_on s \<Longrightarrow> os_proc E m s = Some s' \<Longrightarrow> no_turn_on s'"
proof (cases m)
  case (HandleNotify ds)
  assume a: "no_turn_on s" "os_proc E m s = Some s'"
  obtain ids s1 where u: "update_loop E ds s = (ids, s1)" by fastforce
  show ?thesis using a HandleNotify u update_loop_fields [OF u] by (auto simp: same_core_def proc_notify_def dest!: notify_loop_calls)
next
  case (HandleTurnOnMsg d t)
  assume a: "no_turn_on s" "os_proc E m s = Some s'"
  then show ?thesis using HandleTurnOnMsg requests_core(7) [of s d t] by (auto simp: same_core_def)
qed (auto simp: proc_subscribe_def proc_update_def proc_request_def proc_unsubscribe_def proc_unsubscribe_all_def tell_sub_def tell_fw_def Let_def
    split: if_splits prod.splits Option.bind_splits dest!: first_response_calls)

lemma requests_calls:
  "fw_calls (subscribe l c s) = fw_calls s" "fw_calls (requestData l c s) = fw_calls s" "fw_calls (updateSubscription l c s) = fw_calls s"
  "fw_calls (unsubscribe l c s) = fw_calls s" "fw_calls (unsubscribeAll c s) = fw_calls s" "fw_calls (notify E ds s) = fw_calls s"
  "fw_calls (turnOn d t s) = fw_calls s" "fw_calls (turnOff d s) = fw_calls s"
  using requests_core [of s] unfolding same_core_def by blast+

lemma os_exec_no_turn_on: "no_turn_on s \<Longrightarrow> os_exec E s x = Some (ds, s') \<Longrightarrow> no_turn_on s'"
proof (cases x)
  case E_process
  assume a: "no_turn_on s" "os_exec E s x = Some (ds, s')"
  then show ?thesis using E_process os_proc_no_turn_on [of "s\<lparr>mMsgs := tl (mMsgs s)\<rparr>" E "hd (mMsgs s)" s'] by (auto split: list.splits)
qed (auto simp: requests_calls setSubscriptionObj_calls)

lemma os_run_no_turn_on: "no_turn_on s \<Longrightarrow> os_run E s xs = Some (ds, s') \<Longrightarrow> no_turn_on s'"
proof (induction xs arbitrary: s ds)
  case (Cons x xs)
  from Cons.prems(2) obtain ds1 s1 ds2 where "os_exec E s x = Some (ds1, s1)" "os_run E s1 xs = Some (ds2, s')"
    by (auto split: Option.bind_splits)
  with Cons.IH os_exec_no_turn_on [OF Cons.prems(1)] show ?case by blast
qed simp

text \<open>
  What new values do to the cached ones, as a map: a value is copied into the cached item, or into a blank one when the item can be created. It changes the
  item if that is new, or if copying says so.
\<close>

definition store_value :: "'v item_lib \<Rightarrow> (data_id \<rightharpoonup> 'v) \<Rightarrow> data_id \<times> 'v \<Rightarrow> (data_id \<rightharpoonup> 'v)" where
  "store_value E M d = (let (i, v) = d; old = (case M i of None \<Rightarrow> blank E i | Some cur \<Rightarrow> cur)
     in if M i = None \<and> \<not> can_create E i then M else M(i \<mapsto> fst (snd (item_copy E old v))))"

definition value_changes :: "'v item_lib \<Rightarrow> (data_id \<rightharpoonup> 'v) \<Rightarrow> data_id \<times> 'v \<Rightarrow> bool" where
  "value_changes E M d = (let (i, v) = d in case M i of None \<Rightarrow> can_create E i | Some cur \<Rightarrow> snd (snd (item_copy E cur v)))"

fun changed_items :: "'v item_lib \<Rightarrow> (data_id \<rightharpoonup> 'v) \<Rightarrow> (data_id \<times> 'v) list \<Rightarrow> data_id set" where
  "changed_items E M [] = {}"
| "changed_items E M (d # ds) = {i. i = fst d \<and> value_changes E M d} \<union> changed_items E (store_value E M d) ds"

definition stored_values :: "'v item_lib \<Rightarrow> (data_id \<times> 'v) list \<Rightarrow> (data_id \<rightharpoonup> 'v) \<Rightarrow> (data_id \<rightharpoonup> 'v)" where
  "stored_values E ds M = foldl (store_value E) M ds"

lemma map_of_map_put: "map_of (map_put k v m) = (map_of m)(k \<mapsto> v)"
  by (induction k v m rule: map_put.induct) (auto simp: fun_eq_iff)

lemma updateCache_spec:
  "updateCache E d s = (upd, s') \<Longrightarrow>
     upd = value_changes E (map_of (mDataItemCache s)) d \<and> map_of (mDataItemCache s') = store_value E (map_of (mDataItemCache s)) d"
  by (cases d) (auto simp: updateCache_def value_changes_def store_value_def Let_def map_of_map_put split: option.splits if_splits prod.splits)

lemma update_loop_spec:
  "update_loop E ds s = (ids, s') \<Longrightarrow> set ids = changed_items E (map_of (mDataItemCache s)) ds \<and>
     map_of (mDataItemCache s') = stored_values E ds (map_of (mDataItemCache s))"
proof (induction ds arbitrary: s ids s')
  case (Cons d ds)
  obtain upd s1 where u: "updateCache E d s = (upd, s1)" by fastforce
  obtain ids1 s2 where l: "update_loop E ds s1 = (ids1, s2)" by fastforce
  from Cons.IH [OF l] updateCache_spec [OF u] have
    "set ids1 = changed_items E (store_value E (map_of (mDataItemCache s)) d) ds"
    "map_of (mDataItemCache s2) = stored_values E (d # ds) (map_of (mDataItemCache s))"
    "upd = value_changes E (map_of (mDataItemCache s)) d" by (simp_all add: stored_values_def)
  moreover have "s' = s2" "ids = (if upd then fst d # ids1 else ids1)" using Cons.prems u l by auto
  ultimately show ?case by auto
qed (simp add: stored_values_def)

text \<open>With items whose copying is assignment and tells a change, every item whose cached value is another one afterwards has changed.\<close>

lemma changed_covers:
  assumes "\<And>old v. snd (item_copy E old v) = (v, old \<noteq> v)" and "stored_values E ds M i \<noteq> M i"
  shows "i \<in> changed_items E M ds"
  using assms(2)
proof (induction ds arbitrary: M)
  case (Cons d ds)
  show ?case
  proof (cases "store_value E M d i = M i")
    case True
    with Cons show ?thesis by (simp add: stored_values_def)
  next
    case False
    then have "i = fst d \<and> value_changes E M d" using assms(1)
      by (cases d) (auto simp: store_value_def value_changes_def split: option.splits if_splits)
    then show ?thesis by simp
  qed
qed (simp add: stored_values_def)

section \<open>Properties\<close>

text \<open>
  C23. As long as clients pass themselves and ascending lists of items, however requests, updates of the framework and steps of the message task interleave, every message is handled without a call through a null pointer, the items
  each client is subscribed to are exactly what the requests handled so far say, in order, every subscription is known to the index of items, the framework has
  been told to report no item that nobody is registered for, and every item somebody is registered for has been subscribed or at least requested at the framework.
\<close>

theorem observer_keeps_subscriptions:
  assumes "list_all os_event_ok xs"
  shows "\<exists>ds s. os_run E new_OsObserver xs = Some (ds, s) \<and>
    subs (mClientIndex s) = fold sub_spec ds (\<lambda>_. {}) \<and>
    (\<forall>c d. d \<in> subs (mClientIndex s) c \<longrightarrow> c \<in> subs (mDataItemIndex s) d) \<and>
    fw_subscribed (rev (fw_calls s)) \<subseteq> {d. subs (mDataItemIndex s) d \<noteq> {}} \<and>
    {d. subs (mDataItemIndex s) d \<noteq> {}} \<subseteq> fw_subscribed (rev (fw_calls s)) \<union> fw_asked (fw_calls s)"
proof -
  from os_run_inv [OF new_inv(1,2) assms, of E] obtain ds s where
    "os_run E new_OsObserver xs = Some (ds, s)" "os_inv s" "subs (mClientIndex s) = fold sub_spec ds (\<lambda>_. {})" unfolding new_inv(3) by blast
  then show ?thesis unfolding os_inv_def by blast
qed

definition demo_lib :: "nat item_lib" where
  "demo_lib = \<lparr>can_create = (\<lambda>i. i \<noteq> 9), blank = (\<lambda>i. 0), item_copy = (\<lambda>old new. (0, new, old \<noteq> new))\<rparr>"

definition demo_events :: "nat os_event list" where
  "demo_events = [E_subscribe [1, 3] 7, E_set_subscription True, E_update [3, 4] 8, E_process, E_process, E_unsubscribe [3] 7, E_process]"

theorem observer_keeps_subscriptions_witness:
  "list_all os_event_ok demo_events \<and>
   (\<exists>ds s. os_run demo_lib new_OsObserver demo_events = Some (ds, s) \<and> length ds = 3 \<and> subs (mClientIndex s) 7 = {1} \<and> subs (mClientIndex s) 8 = {3, 4} \<and>
     (\<forall>c d. d \<in> subs (mClientIndex s) c \<longrightarrow> c \<in> subs (mDataItemIndex s) d))"
proof -
  have ok: "list_all os_event_ok demo_events" by (simp add: demo_events_def)
  let ?r = "the (os_run demo_lib new_OsObserver demo_events)"
  have "length (fst ?r) = 3 \<and> map_of (mClientIndex (snd ?r)) 7 = Some [1] \<and> map_of (mClientIndex (snd ?r)) 8 = Some [3, 4]" by code_simp
  then show ?thesis using ok observer_keeps_subscriptions [OF ok, of demo_lib] by (auto simp: subs_def)
qed

text \<open>
  C24. In every state that such a run reaches, handling new values of data items returns and caches them (an item not cached yet is created, if it can be). The items that changed are
  those newly cached and those whose copying reported a change; with a copying that assigns and reports truly, every item whose cached value differs afterwards is among
  them. A client is notified if and only if the index of items has it for one of the changed items, which every client subscribed to a changed item is; its
  notification carries exactly the changed items it is subscribed to, with the values cached now, in ascending order.
\<close>

theorem notify_reaches_subscribers:
  assumes "list_all os_event_ok xs" and "os_run E new_OsObserver xs = Some (ms, s)"
    and "changed = changed_items E (map_of (mDataItemCache s)) ds" and "values = stored_values E ds (map_of (mDataItemCache s))"
  shows "\<exists>new s'. proc_notify E ds s = Some s' \<and> client_notes s' = client_notes s @ new \<and> map_of (mDataItemCache s') = values \<and>
    ((\<forall>old v. snd (item_copy E old v) = (v, old \<noteq> v)) \<longrightarrow> {i. values i \<noteq> map_of (mDataItemCache s) i} \<subseteq> changed) \<and>
    fst ` set new = {c. \<exists>i \<in> changed. c \<in> subs (mDataItemIndex s) i} \<and>
    {c. subs (mClientIndex s) c \<inter> changed \<noteq> {}} \<subseteq> fst ` set new \<and>
    (\<forall>(c, items) \<in> set new. sorted (map fst items) \<and> distinct (map fst items) \<and> fst ` set items = subs (mClientIndex s) c \<inter> changed \<and>
       (\<forall>(i, v) \<in> set items. values i = Some v))"
proof -
  have inv: "os_inv s" using os_run_inv [OF new_inv(1,2) assms(1), of E] assms(2) by auto
  obtain ids s1 where l: "update_loop E ds s = (ids, s1)" by fastforce
  note u = update_loop_fields [OF l]
  have ids: "set ids = changed" "map_of (mDataItemCache s1) = values" using update_loop_spec [OF l] assms(3,4) by simp_all
  have inv1: "os_inv s1" "mClientIndex s1 = mClientIndex s" using inv u os_inv_core [of s s1] by (auto simp: same_core_def)
  let ?to = "remdups_adj (concat (map (\<lambda>i. getListOfSubscribedClients i [] (mDataItemIndex s)) ids))"
  let ?item = "\<lambda>c. (c, cached_items s1 (news s1 ids c))"
  have "set (getListOfSubscribedClients i [] (mDataItemIndex s)) = subs (mDataItemIndex s) i" for i
    by (simp add: getListOfSubscribedClients_def subs_def split: option.split)
  then have to: "set ?to = {c. \<exists>i \<in> changed. c \<in> subs (mDataItemIndex s) i}" using ids(1) by auto
  define new where "new = map ?item ?to"
  let ?s = "s1\<lparr>client_notes := client_notes s @ new\<rparr>"
  have fsts: "fst ` set new = set ?to" unfolding new_def by force
  have sub: "{c. subs (mClientIndex s) c \<inter> changed \<noteq> {}} \<subseteq> fst ` set new" unfolding fsts to using inv unfolding os_inv_def by blast
  have each: "sorted (map fst (snd (?item c))) \<and> distinct (map fst (snd (?item c))) \<and> fst ` set (snd (?item c)) = subs (mClientIndex s) c \<inter> changed \<and>
      (\<forall>(i, v) \<in> set (snd (?item c)). values i = Some v)" for c
    using news_items [OF inv1(1), of ids c] u inv1(2) ids by simp
  have all: "\<forall>(c, items) \<in> set new. sorted (map fst items) \<and> distinct (map fst items) \<and> fst ` set items = subs (mClientIndex s) c \<inter> changed \<and>
      (\<forall>(i, v) \<in> set items. values i = Some v)"
  proof (intro ballI, clarify)
    fix c items assume "(c, items) \<in> set new"
    then have "items = snd (?item c)" by (auto simp: new_def)
    with each [of c] show "sorted (map fst items) \<and> distinct (map fst items) \<and> fst ` set items = subs (mClientIndex s) c \<inter> changed \<and>
      (\<forall>(i, v) \<in> set items. values i = Some v)" by simp
  qed
  have cover: "(\<forall>old v. snd (item_copy E old v) = (v, old \<noteq> v)) \<longrightarrow> {i. values i \<noteq> map_of (mDataItemCache s) i} \<subseteq> changed"
    using changed_covers [of E ds "map_of (mDataItemCache s)"] assms(3,4) by blast
  have "\<forall>d. 0 \<notin> subs (mDataItemIndex s) d" using inv by (simp add: os_inv_def)
  then have "proc_notify E ds s = Some ?s" using proc_notify_result [OF l] by (simp add: new_def)
  with all sub cover ids(2) fsts to show ?thesis by (intro exI [of _ new] exI [of _ ?s]) simp
qed

theorem notify_reaches_subscribers_witness:
  "\<exists>ms s new s'. list_all os_event_ok demo_events \<and> os_run demo_lib new_OsObserver demo_events = Some (ms, s) \<and>
     changed_items demo_lib (map_of (mDataItemCache s)) [(4, 5), (3, 0), (1, 6), (9, 1)] = {1, 3, 4} \<and>
     proc_notify demo_lib [(4, 5), (3, 0), (1, 6), (9, 1)] s = Some s' \<and> client_notes s' = client_notes s @ new \<and> fst ` set new = {7, 8}"
proof -
  let ?ds = "[(4, 5), (3, 0), (1, 6), (9, 1)]"
  let ?r = "the (os_run demo_lib new_OsObserver demo_events)"
  have ok: "list_all os_event_ok demo_events" by (simp add: demo_events_def)
  have c: "os_run demo_lib new_OsObserver demo_events \<noteq> None \<and> mDataItemCache (snd ?r) = [] \<and>
    map_of (mDataItemIndex (snd ?r)) 1 = Some [7] \<and> map_of (mDataItemIndex (snd ?r)) 3 = Some [8] \<and> map_of (mDataItemIndex (snd ?r)) 4 = Some [8]" by code_simp
  then have run: "os_run demo_lib new_OsObserver demo_events = Some (fst ?r, snd ?r)" by auto
  have ch: "changed_items demo_lib (map_of (mDataItemCache (snd ?r))) ?ds = {1, 3, 4}"
    using c by (auto simp: demo_lib_def value_changes_def store_value_def)
  from notify_reaches_subscribers [OF ok run refl refl, of ?ds] obtain new s' where n: "proc_notify demo_lib ?ds (snd ?r) = Some s'"
    "client_notes s' = client_notes (snd ?r) @ new"
    "fst ` set new = {cl. \<exists>i \<in> {1, 3, 4}. cl \<in> subs (mDataItemIndex (snd ?r)) i}" unfolding ch by (elim exE conjE) (rule that)
  have "fst ` set new = {7, 8}" using n(3) c by (auto simp: subs_def)
  with ok run ch n(1,2) show ?thesis by blast
qed

text \<open>
  A request to turn a module on never reaches the framework, in whatever run, although it is counted: the message that should pass it on is handled as another request to
  the observer, which counts it a second time, so that turning the module off once does not reach the framework either.
\<close>

theorem turn_on_never_forwarded:
  assumes "os_run E new_OsObserver xs = Some (ds, s)"
  shows "(\<forall>d t. Fw_turnOn d t \<notin> set (fw_calls s)) \<and>
    (mMsgs s = [] \<and> mFrameworkActionReqObj s \<and> map_of (mActiveRequestCount s) d = None \<longrightarrow>
       (\<exists>s'. os_run E s [E_turnOn d t, E_process, E_turnOff d, E_process] = Some ([HandleTurnOnMsg d t], s') \<and>
          fw_calls s' = fw_calls s \<and> map_of (mActiveRequestCount s') d = Some 1))"
proof -
  have new: "no_turn_on new_OsObserver" by (simp add: new_OsObserver_def)
  have "\<exists>s'. os_run E s [E_turnOn d t, E_process, E_turnOff d, E_process] = Some ([HandleTurnOnMsg d t], s') \<and>
      fw_calls s' = fw_calls s \<and> map_of (mActiveRequestCount s') d = Some 1"
    if "mMsgs s = []" "mFrameworkActionReqObj s" "map_of (mActiveRequestCount s) d = None"
    using that by (simp add: turnOn_def turnOff_def sendMsg_os_def)
  then show ?thesis using os_run_no_turn_on [OF new assms] by blast
qed

theorem turn_on_never_forwarded_witness:
  "\<exists>ds s s'. os_run demo_lib new_OsObserver [E_set_framework True] = Some (ds, s) \<and>
     os_run demo_lib s [E_turnOn 2 30, E_process, E_turnOff 2, E_process] = Some ([HandleTurnOnMsg 2 30], s') \<and>
     fw_calls s' = [] \<and> map_of (mActiveRequestCount s') 2 = Some 1"
proof -
  let ?s = "new_OsObserver\<lparr>mFrameworkActionReqObj := True\<rparr> :: nat OsObserver"
  have run: "os_run demo_lib new_OsObserver [E_set_framework True] = Some ([], ?s)" by simp
  have f: "mMsgs ?s = [] \<and> mFrameworkActionReqObj ?s \<and> map_of (mActiveRequestCount ?s) 2 = None" "fw_calls ?s = []" by (simp_all add: new_OsObserver_def)
  from turn_on_never_forwarded [OF run, of 2 30] f run show ?thesis by metis
qed

end
