(* ===== verification/Spec2Isabelle.thy ===== *)
theory Spec2Isabelle
  imports EvtDispatcher Conntrack MsgQueue LocTimer Agps Hal OsObserver
begin

text \<open>
  Verification of the control software in the device tree of the HTC U11.

  \<^bold>\<open>The program.\<close> Two systems of the tree have logic of their own. The \<^emph>\<open>IPA connection manager\<close> (\<open>data-ipa-cfg-mgr\<close>) offloads tethered traffic to hardware: a
  service (\<open>hal\<close>) takes the requests of the framework and passes them to a daemon (\<open>ipacm\<close>), whose threads post events into two queues; one thread takes them out and
  dispatches them to listeners; one listener keeps the connections it wants translated in a cache and programs them into the hardware table through a library
  (\<open>ipanat\<close>). The \<^emph>\<open>location service\<close> (\<open>gps\<close>) keeps timers, message queues, state machines for assisted positioning, and subscriptions of its clients to data of
  the operating system.

  \<^bold>\<open>Theories.\<close> Each holds the state of a component as records, its operations as executable functions named like the code, its invariant and its theorems.

  \<^item> \<open>IPA_Prelude\<close>: stores with linked segments, arrays of slots as maps, runs of a partial step function, and the locales \<open>component\<close> and \<open>safe_component\<close>
    (an invariant that every step keeps; in addition every legal step returns), which the components interpret. \<open>CString\<close>: numbers as text, \<open>atoi\<close>, string streams.
  \<^item> \<open>CmdQueue\<close>: the message queues and \<open>PostEvt\<close> (\<open>IPACM_CmdQueue.cpp\<close>, \<open>IPACM_EvtDispatcher.cpp\<close>). Events of a class are delivered in the order of posting,
    also when a callback posts.
  \<^item> \<open>EvtDispatcher\<close>: the linked registry of listeners and the dispatch loop. The registry refines a list; when callbacks leave the registry and the statistics alone, dispatch
    calls each registered listener once, in order; when a listener may deregister itself.
  \<^item> \<open>NatApp\<close>: the cache of connections (\<open>IPACM_Conntrack_NATApp.cpp\<close>) over an arbitrary NAT library. Invariant, every branch of \<open>AddEntry\<close>, round trips of adding and
    deleting, of power save, and of losing and regaining the table, as far as the library accepts the rules.
  \<^item> \<open>NatWords\<close>, \<open>NatChain\<close>, \<open>NatTable\<close>, \<open>NatDriver\<close>: the NAT library (\<open>ipa_nat_drvi.c\<close>, \<open>ipa_nat_drv.c\<close>) with its two tables as memory, its hash chains as indices
    and its commands to the driver. \<open>NatView\<close>, \<open>NatInv\<close>, \<open>NatAdd\<close>, \<open>NatDel\<close>, \<open>NatDelRule\<close>: what the tables mean, their invariant, and that adding and deleting keep it.
    \<open>NatContract\<close>, \<open>NatProps\<close>: the library is a map from handles to rules, all chain walks end, every live rule is found by its packets.
  \<^item> \<open>NatSync\<close>, \<open>NatSystem\<close>: the cache with the library below it. \<open>NatSync\<close> states the contract of a table of rules as a locale and proves from it that the cache and the table
    stay in step; \<open>NatSystem\<close> interprets the locale with the library.
  \<^item> \<open>Neighbor\<close>: the neighbour cache (\<open>IPACM_Neighbor.cpp\<close>) and the lookup of interfaces (\<open>IPACM_Iface::iface_ipa_index_query\<close>). The cache is a map from MAC addresses that
    recycles the oldest slot, and what it posts names real interfaces only.
  \<^item> \<open>Conntrack\<close>: the listener that feeds the cache (\<open>IPACM_ConntrackListener.cpp\<close>) and the private subnets of \<open>IPACM_Config.h\<close>, on top of \<open>NatApp\<close> and the library: from
    events down to the hardware, listener, cache and table agree, and a client that leaves takes its rules along.
  \<^item> \<open>NatIfaces\<close>: the table of NAT interfaces in the configuration (\<open>IPACM_Config.cpp\<close>), a map while it is not full. \<open>OffloadMgr\<close>: the offload manager
    (\<open>IPACM_OffloadManager.cpp\<close>); the route events it posts are consistent, and cached requests are made anew when their interface is ready.
  \<^item> \<open>IpPrefix\<close>, \<open>LogBuffer\<close>: the parser of prefixes and the log of calls (\<open>PrefixParser.cpp\<close>, \<open>LocalLogBuffer.cpp\<close>). \<open>Hal\<close>: the service itself (\<open>HAL.cpp\<close>, \<open>IpaEventRelay.cpp\<close>,
    \<open>CtUpdateAmbassador.cpp\<close>) on top of the parser, the log and the manager; its theorem spans all of them.
  \<^item> \<open>LocHeap\<close>, \<open>LocTimer\<close>: the leftist heap and the timers on it (\<open>LocHeap.cpp\<close>, \<open>LocTimer.cpp\<close>). The heap is a priority queue; no deleted object is used.
  \<^item> \<open>LinkedList\<close>, \<open>MsgQueue\<close>: the doubly linked list and the blocking queue on it (\<open>linked_list.c\<close>, \<open>msg_q.c\<close>, part of \<open>MsgTask.cpp\<close>). The list refines a plain list; in every
    interleaving messages arrive in order, and the receivers are not all asleep unwoken while there is a message.
  \<^item> \<open>Agps\<close>: the state machines and their manager (\<open>Agps.cpp\<close>). A run keeps the machines safe
    up to the first request that uses freed memory or a missing machine; who is told what, retries and the fall back.
  \<^item> \<open>OsIndex\<close>, \<open>OsObserver\<close>: the subscription indices and the observer (\<open>ClientIndex.cpp\<close>, \<open>DataItemIndex.cpp\<close>, \<open>SystemStatusOsObserver.cpp\<close>). The subscriptions are what the requests
    handled so far say, and new values reach the subscribers.

  \<^bold>\<open>Conventions.\<close> Pointers are numbers into stores that are partial maps, \<open>None\<close> is \<open>NULL\<close>; a result \<open>None\<close> of an operation is undefined behaviour (a null or dangling pointer,
  an index out of range, \<open>atoi\<close> on a number that does not fit). Error codes are values. Machine integers are words where they wrap or are taken apart, and
  integers with the bounds in the invariant otherwise. Critical sections are atomic steps, and threads interleave as sequences of steps. Code outside the tree (kernel, driver,
  modem, \<open>inet_pton\<close>, data item library) is an argument of the definitions that call it, constrained by named hypotheses that a witness discharges for a concrete instance.

  \<^bold>\<open>Loops.\<close> Loops over arrays and lists are structural recursions or functions with a termination proof. The walks along the hash chains of the NAT library and along the registry
  may follow a cycle in a corrupt state: they are \<open>partial_function (option)\<close>, and the theorems show that they return. No fuel is used.

  \<^bold>\<open>Not modelled.\<close> The interface classes of \<open>ipacm\<close> (\<open>IPACM_Wan\<close>, \<open>IPACM_Lan\<close>, \<open>IPACM_Wlan\<close>, the rest of \<open>IPACM_Iface\<close>, the interface manager), the wrappers of \<open>ioctl\<close>, netlink, XML and
  the conntrack client, which are written against structures of kernel headers and libraries that are not in the tree; \<open>IPACM_LanToLan\<close>, which programs bridging rules through those wrappers;
  \<open>GnssAdapter\<close> and the base classes, which need the modem library; \<open>SystemStatus\<close>, the NMEA writer (floating point), configuration files, logging and threads; the HIDL conversions;
  the small device services, shims and configuration data. Memory exhaustion is modelled where the code handles it in the operation at hand, and assumed away where a
  theory says so.
\<close>

end
